(* ===== verification/Errors.thy ===== *)
theory Errors
  imports "HOL-Library.Word"
begin

text \<open>
  The crate's error type (src/src/error.rs) and the machine integers it and the rest of
  the development use.  The constructors of the Rust enumeration \<^verbatim>\<open>Error\<close> that some code
  of the crate constructs or matches are constructors here, in the order of the source;
  the constructors that no code mentions outside \<^verbatim>\<open>error.rs\<close> are left out, and the message strings of
  the attributes are in \<open>Reports\<close>.
\<close>

type_synonym u8 = "8 word"
type_synonym u16 = "16 word"
type_synonym u32 = "32 word"
type_synonym u64 = "64 word"

text \<open>\<^verbatim>\<open>usize\<close> of a 64-bit target, used where the code keeps a running byte count in one.\<close>

type_synonym usize = "64 word"

datatype (plugins only: size) error =
    ErrChunkHeaderTooSmall
  | ErrChunkHeaderNotEnoughSpace
  | ErrChunkHeaderPaddingNonZero
  | ErrChunkHeaderInvalidLength
  | ErrChunkTypeNotAbort
  | ErrChunkTypeNotCookieAck
  | ErrChunkTypeNotCookieEcho
  | ErrChunkTypeNotCtError
  | ErrChunkTooShort
  | ErrChunkTypeNotForwardTsn
  | ErrChunkTypeNotHeartbeat
  | ErrChunkTypeNotHeartbeatAck
  | ErrHeartbeatNotLongEnoughInfo
  | ErrHeartbeatParam
  | ErrHeartbeatAckParams
  | ErrHeartbeatAckNotHeartbeatInfo
  | ErrErrorCauseTooSmall
  | ErrParamTypeUnhandled u16
  | ErrParamTypeUnexpected
  | ErrParamHeaderTooShort
  | ErrSsnResetRequestParamTooShort
  | ErrReconfigRespParamTooShort
  | ErrInvalidAlgorithmType
  | ErrChunkTypeNotTypeInit
  | ErrChunkValueNotLongEnough
  | ErrChunkTypeInitFlagZero
  | ErrChunkTypeInitInitateTagZero
  | ErrInitInboundStreamRequestZero
  | ErrInitOutboundStreamRequestZero
  | ErrInitAdvertisedReceiver1500
  | ErrChunkPayloadSmall
  | ErrChunkTypeNotPayloadData
  | ErrChunkTypeNotReconfig
  | ErrChunkReconfigInvalidParamA
  | ErrChunkTypeNotSack
  | ErrSackSizeNotLargeEnoughInfo
  | ErrInvalidChunkSize
  | ErrChunkTypeNotShutdown
  | ErrChunkTypeNotShutdownAck
  | ErrChunkTypeNotShutdownComplete
  | ErrPacketRawTooSmall
  | ErrParseSctpChunkNotEnoughData
  | ErrChecksumMismatch
  | ErrTryAgain
  | ErrChunk
  | ErrShutdownNonEstablished
  | ErrAssociationHandshakeClosed
  | ErrSilentlyDiscard
  | ErrInitNotStoredToSend
  | ErrCookieEchoNotStoredToSend
  | ErrSctpPacketSourcePortZero
  | ErrSctpPacketDestinationPortZero
  | ErrInitChunkBundled
  | ErrInitChunkVerifyTagNotZero
  | ErrHandleInitState
  | ErrInitAckNoCookie
  | ErrStreamAlreadyExist
  | ErrStreamCreateFailed
  | ErrInflightQueueTsnPop
  | ErrTsnRequestNotExist
  | ErrResetPacketInStateNotExist
  | ErrParamterType
  | ErrPayloadDataStateNotExist
  | ErrChunkTypeUnhandled
  | ErrHandshakeInitAck
  | ErrHandshakeCookieEcho
  | ErrOutboundPacketTooLarge
  | ErrStreamClosed
  | ErrShortBuffer
  | ErrEof
  | ErrInvalidSystemTime

text \<open>The conversion into \<^verbatim>\<open>std::io::Error\<close>: its kind.\<close>

datatype io_error_kind = UnexpectedEof | ConnectionAborted | OtherKind

definition io_error_of :: "error \<Rightarrow> io_error_kind" where
  "io_error_of e =
     (if e = ErrEof then UnexpectedEof
      else if e = ErrStreamClosed then ConnectionAborted
      else OtherKind)"

end
