(* ===== verification/Prelude.thy ===== *)
theory Prelude
  imports Errors "HOL-Library.AList"
begin

unbundle bit_operations_syntax

text \<open>
  What every component shares: the outcome of a fallible Rust function, byte buffers and
  their big-endian readers and writers, hash maps as association lists, and the lemmas
  about them.  Arithmetic on the machine integers is the wrapping arithmetic of a release
  build (\<^verbatim>\<open>Cargo.toml\<close> sets no \<^verbatim>\<open>overflow-checks\<close>).
\<close>

section \<open>Lemma collections\<close>

named_theorems wire_simps \<open>rewrite rules of the byte readers and writers\<close>
named_theorems wire_defs \<open>definitions of the per-message wire operations\<close>
named_theorems wire_intros \<open>no-panic rules\<close>
named_theorems queue_simps \<open>rewrite rules of the queues\<close>
named_theorems frame_simps \<open>fields an operation leaves alone\<close>

section \<open>Outcomes\<close>

text \<open>
  A \<^verbatim>\<open>Result\<close> is \<open>Ok\<close> or \<open>Err\<close>; a failed assertion, an out-of-range slice or a read past
  the end of a buffer is \<open>Panic\<close>.
\<close>

datatype 'a outcome = Ok 'a | Err error | Panic

fun and_then :: "'a outcome \<Rightarrow> ('a \<Rightarrow> 'b outcome) \<Rightarrow> 'b outcome" where
  "and_then (Ok x) f = f x"
| "and_then (Err e) f = Err e"
| "and_then Panic f = Panic"

fun is_panic :: "'a outcome \<Rightarrow> bool" where
  "is_panic Panic = True"
| "is_panic _ = False"

fun is_ok :: "'a outcome \<Rightarrow> bool" where
  "is_ok (Ok x) = True"
| "is_ok _ = False"

lemma and_then_cong [fundef_cong]:
  "m = m' \<Longrightarrow> (\<And>x. m' = Ok x \<Longrightarrow> f x = g x) \<Longrightarrow> and_then m f = and_then m' g"
  by (cases m') auto

lemma and_then_eq_Ok:
  "and_then m f = Ok y \<longleftrightarrow> (\<exists>x. m = Ok x \<and> f x = Ok y)"
  by (cases m) auto

lemma and_then_eq_Panic [simp]:
  "and_then m f = Panic \<longleftrightarrow> m = Panic \<or> (\<exists>x. m = Ok x \<and> f x = Panic)"
  by (cases m) auto

lemma and_then_assoc: "and_then (and_then m f) g = and_then m (\<lambda>x. and_then (f x) g)"
  by (cases m) auto

lemma is_panic_iff: "is_panic m \<longleftrightarrow> m = Panic"
  by (cases m) auto

lemma and_then_no_panic [wire_intros]:
  "m \<noteq> Panic \<Longrightarrow> (\<And>x. m = Ok x \<Longrightarrow> f x \<noteq> Panic) \<Longrightarrow> and_then m f \<noteq> Panic"
  by (cases m) auto

lemma if_no_panic [wire_intros]:
  "(b \<Longrightarrow> x \<noteq> Panic) \<Longrightarrow> (\<not> b \<Longrightarrow> y \<noteq> Panic) \<Longrightarrow> (if b then x else y) \<noteq> Panic"
  by simp

section \<open>Machine integers\<close>

lemma unat_less_pow: "unat (w :: 'w::len word) < 2 ^ LENGTH('w)"
  by (rule unsigned_less)

lemma unat_of_nat_less: "n < 2 ^ LENGTH('w) \<Longrightarrow> unat (of_nat n :: 'w::len word) = n"
  by (simp add: unat_of_nat take_bit_eq_mod)

lemma unat_diff_if:
  "unat (a - b :: 'w::len word) =
     (if unat b \<le> unat a then unat a - unat b else unat a + 2 ^ LENGTH('w) - unat b)"
  by (simp add: unat_sub_if')

section \<open>Bytes and big-endian integers\<close>

type_synonym bytes = "u8 list"

definition be16 :: "u8 \<Rightarrow> u8 \<Rightarrow> u16" where
  "be16 a b = push_bit 8 (ucast a) OR ucast b"

definition be32 :: "u8 \<Rightarrow> u8 \<Rightarrow> u8 \<Rightarrow> u8 \<Rightarrow> u32" where
  "be32 a b c d =
     push_bit 24 (ucast a) OR push_bit 16 (ucast b) OR push_bit 8 (ucast c) OR ucast d"

definition put_u16 :: "u16 \<Rightarrow> bytes" where
  "put_u16 w = [ucast (drop_bit 8 w), ucast w]"

definition put_u32 :: "u32 \<Rightarrow> bytes" where
  "put_u32 w = [ucast (drop_bit 24 w), ucast (drop_bit 16 w), ucast (drop_bit 8 w), ucast w]"

definition put_u32_le :: "u32 \<Rightarrow> bytes" where
  "put_u32_le w = rev (put_u32 w)"

text \<open>A reader takes the first bytes of the buffer and panics when there are too few.\<close>

fun get_u8 :: "bytes \<Rightarrow> (u8 \<times> bytes) outcome" where
  "get_u8 (a # r) = Ok (a, r)"
| "get_u8 _ = Panic"

fun get_u16 :: "bytes \<Rightarrow> (u16 \<times> bytes) outcome" where
  "get_u16 (a # b # r) = Ok (be16 a b, r)"
| "get_u16 _ = Panic"

fun get_u32 :: "bytes \<Rightarrow> (u32 \<times> bytes) outcome" where
  "get_u32 (a # b # c # d # r) = Ok (be32 a b c d, r)"
| "get_u32 _ = Panic"

fun get_u32_le :: "bytes \<Rightarrow> (u32 \<times> bytes) outcome" where
  "get_u32_le (a # b # c # d # r) = Ok (be32 d c b a, r)"
| "get_u32_le _ = Panic"

text \<open>\<^verbatim>\<open>Bytes::slice(from..to)\<close> panics when the range is inverted or ends past the buffer.\<close>

definition bytes_slice :: "bytes \<Rightarrow> nat \<Rightarrow> nat \<Rightarrow> bytes outcome" where
  "bytes_slice raw from to =
     (if from \<le> to \<and> to \<le> length raw then Ok (take (to - from) (drop from raw)) else Panic)"

lemma be16_inverse [wire_simps]:
  "be16 (ucast (drop_bit 8 w)) (ucast w) = w"
  by (rule bit_word_eqI)
    (auto simp: be16_def bit_or_iff bit_push_bit_iff bit_ucast_iff bit_drop_bit_eq
      dest: bit_imp_le_length)

lemma be32_inverse [wire_simps]:
  "be32 (ucast (drop_bit 24 w)) (ucast (drop_bit 16 w)) (ucast (drop_bit 8 w)) (ucast w) = w"
proof (rule bit_word_eqI)
  fix n assume n: "n < LENGTH(32)"
  consider "n < 8" | "8 \<le> n \<and> n < 16" | "16 \<le> n \<and> n < 24" | "24 \<le> n \<and> n < 32"
    using n by fastforce
  then show "bit (be32 (ucast (drop_bit 24 w)) (ucast (drop_bit 16 w))
      (ucast (drop_bit 8 w)) (ucast w)) n = bit w n"
    by cases
      (auto simp: be32_def bit_or_iff bit_push_bit_iff bit_ucast_iff bit_drop_bit_eq)
qed

lemma length_put [simp]:
  "length (put_u16 h) = 2" "length (put_u32 w) = 4" "length (put_u32_le w) = 4"
  by (simp_all add: put_u16_def put_u32_def put_u32_le_def)

lemma get_put [simp]:
  "get_u16 (put_u16 h @ r) = Ok (h, r)"
  "get_u32 (put_u32 w @ r) = Ok (w, r)"
  "get_u32_le (put_u32_le w @ r) = Ok (w, r)"
  by (simp_all add: put_u16_def put_u32_def put_u32_le_def wire_simps)

lemma get_put_exact [simp]:
  "get_u16 (put_u16 h) = Ok (h, [])"
  "get_u32 (put_u32 w) = Ok (w, [])"
  using get_put(1) [of h "[]"] get_put(2) [of w "[]"] by simp_all

lemma get_u8_cases: "r \<noteq> [] \<Longrightarrow> get_u8 r = Ok (hd r, tl r)"
  by (cases r) auto

lemma get_u16_Ok:
  "2 \<le> length r \<Longrightarrow> \<exists>h. get_u16 r = Ok (h, drop 2 r)"
  by (cases r rule: get_u16.cases) auto

lemma get_u32_Ok:
  "4 \<le> length r \<Longrightarrow> \<exists>w. get_u32 r = Ok (w, drop 4 r)"
  by (cases r rule: get_u32.cases) (auto simp: eval_nat_numeral)

lemma get_u16_obtain:
  assumes "2 \<le> length r"
  obtains h r' where "get_u16 r = Ok (h, r')" and "length r = length r' + 2"
  using assms by (cases r rule: get_u16.cases) auto

lemma get_u32_obtain:
  assumes "4 \<le> length r"
  obtains w r' where "get_u32 r = Ok (w, r')" and "length r = length r' + 4"
  using assms by (cases r rule: get_u32.cases) auto

lemma get_u8_panic [simp]: "get_u8 r = Panic \<longleftrightarrow> r = []"
  by (cases r) auto

lemma get_u16_panic [simp]: "get_u16 r = Panic \<longleftrightarrow> length r < 2"
  by (cases r rule: get_u16.cases) auto

lemma get_u32_panic [simp]: "get_u32 r = Panic \<longleftrightarrow> length r < 4"
  by (cases r rule: get_u32.cases) (auto simp: eval_nat_numeral)

lemma get_u32_le_panic [simp]: "get_u32_le r = Panic \<longleftrightarrow> length r < 4"
  by (cases r rule: get_u32_le.cases) (auto simp: eval_nat_numeral)

lemma get_not_Err [simp]:
  "get_u8 r \<noteq> Err e" "get_u16 r \<noteq> Err e" "get_u32 r \<noteq> Err e" "get_u32_le r \<noteq> Err e"
  subgoal by (cases r rule: get_u8.cases) simp_all
  subgoal by (cases r rule: get_u16.cases) simp_all
  subgoal by (cases r rule: get_u32.cases) simp_all
  subgoal by (cases r rule: get_u32_le.cases) simp_all
  done

lemma get_u8_length: "get_u8 r = Ok (b, r') \<Longrightarrow> length r = length r' + 1"
  by (cases r) auto

lemma get_u16_length: "get_u16 r = Ok (h, r') \<Longrightarrow> length r = length r' + 2"
  by (cases r rule: get_u16.cases) auto

lemma get_u32_length: "get_u32 r = Ok (w, r') \<Longrightarrow> length r = length r' + 4"
  by (cases r rule: get_u32.cases) auto

lemma get_u32_le_length: "get_u32_le r = Ok (w, r') \<Longrightarrow> length r = length r' + 4"
  by (cases r rule: get_u32_le.cases) auto

lemmas get_length = get_u8_length get_u16_length get_u32_length get_u32_le_length

lemma slice_panic [simp]: "bytes_slice raw from to = Panic \<longleftrightarrow> \<not> (from \<le> to \<and> to \<le> length raw)"
  by (simp add: bytes_slice_def)

lemma slice_not_Err [simp]: "bytes_slice raw from to \<noteq> Err e"
  by (simp add: bytes_slice_def)

lemma slice_length: "bytes_slice raw from to = Ok s \<Longrightarrow> length s = to - from"
  by (auto simp: bytes_slice_def split: if_splits)

lemma slice_to_length: "bytes_slice raw from to = Ok s \<Longrightarrow> from \<le> to \<and> to \<le> length raw"
  by (auto simp: bytes_slice_def split: if_splits)

lemma slice_OkD:
  "bytes_slice raw from to = Ok s \<Longrightarrow> length s = to - from \<and> from \<le> to \<and> to \<le> length raw"
  using slice_length slice_to_length by blast

lemma slice_append [wire_simps]:
  "length h = from \<Longrightarrow> to = from + length v \<Longrightarrow> bytes_slice (h @ v @ r) from to = Ok v"
  by (simp add: bytes_slice_def)

section \<open>Hash maps\<close>

text \<open>
  A \<^verbatim>\<open>HashMap\<close> is an association list with distinct keys.  The order of the list is the
  order an iteration visits the entries in, which the standard library leaves open;
  insertion keeps an existing key's place and puts a new key at the end.
\<close>

type_synonym ('k, 'v) hmap = "('k \<times> 'v) list"

abbreviation hm_get :: "('k, 'v) hmap \<Rightarrow> 'k \<Rightarrow> 'v option" where
  "hm_get m k \<equiv> map_of m k"

abbreviation hm_contains :: "('k, 'v) hmap \<Rightarrow> 'k \<Rightarrow> bool" where
  "hm_contains m k \<equiv> map_of m k \<noteq> None"

abbreviation hm_insert :: "'k \<Rightarrow> 'v \<Rightarrow> ('k, 'v) hmap \<Rightarrow> ('k, 'v) hmap" where
  "hm_insert k v m \<equiv> AList.update k v m"

abbreviation hm_remove :: "'k \<Rightarrow> ('k, 'v) hmap \<Rightarrow> ('k, 'v) hmap" where
  "hm_remove k m \<equiv> AList.delete k m"

abbreviation hm_keys :: "('k, 'v) hmap \<Rightarrow> 'k list" where
  "hm_keys m \<equiv> map fst m"

abbreviation hm_values :: "('k, 'v) hmap \<Rightarrow> 'v list" where
  "hm_values m \<equiv> map snd m"

abbreviation hm_wf :: "('k, 'v) hmap \<Rightarrow> bool" where
  "hm_wf m \<equiv> distinct (map fst m)"

end
