(* ===== verification/Sna.thy ===== *)
theory Sna
  imports Prelude "HOL-Library.Multiset"
begin

text \<open>
  src/src/util.rs: padding, the packet checksum and serial number arithmetic, and the
  insertion sort the queues use with it.  The locale \<open>serial\<close> is the contract of serial
  number arithmetic at any width; it is interpreted on the 32-bit and the 16-bit functions
  of the code, which the queues and the association rely on.
\<close>

section \<open>Padding and checksum\<close>

definition PADDING_MULTIPLE :: nat where
  "PADDING_MULTIPLE = 4"

definition get_padding_size :: "nat \<Rightarrow> nat" where
  "get_padding_size len = (PADDING_MULTIPLE - (len mod PADDING_MULTIPLE)) mod PADDING_MULTIPLE"

definition FOUR_ZEROES :: bytes where
  "FOUR_ZEROES = [0, 0, 0, 0]"

text \<open>
  CRC-32C is the \<^verbatim>\<open>crc\<close> crate's: a parameter \<open>crc\<close>, the digest of the bytes fed to it.
  Feeding a digest in parts is feeding it their concatenation.
\<close>

definition generate_packet_checksum :: "(bytes \<Rightarrow> u32) \<Rightarrow> bytes \<Rightarrow> u32 outcome" where
  "generate_packet_checksum crc raw =
     and_then (bytes_slice raw 0 8) (\<lambda>front.
     and_then (bytes_slice raw 12 (length raw)) (\<lambda>back.
       Ok (crc (front @ FOUR_ZEROES @ back))))"

lemma get_padding_size_eq:
  "get_padding_size n = (if n mod 4 = 0 then 0 else 4 - n mod 4)"
proof -
  have "n mod 4 < 4" by simp
  then show ?thesis by (auto simp: get_padding_size_def PADDING_MULTIPLE_def)
qed

lemma get_padding_size_less: "get_padding_size n < 4"
  by (simp add: get_padding_size_def PADDING_MULTIPLE_def)

lemma get_padding_size_mod: "(n + get_padding_size n) mod 4 = 0"
proof -
  have "n mod 4 < 4" by simp
  moreover have "(n + k) mod 4 = (n mod 4 + k) mod 4" for k by (simp add: mod_simps)
  ultimately show ?thesis by (auto simp: get_padding_size_eq)
qed

lemma get_padding_size_dvd: "4 dvd n + get_padding_size n"
  by (simp add: dvd_eq_mod_eq_0 get_padding_size_mod)

lemma get_padding_size_add_dvd: "4 dvd m \<Longrightarrow> get_padding_size (m + n) = get_padding_size n"
  by (auto simp: get_padding_size_eq dvd_eq_mod_eq_0 mod_add_left_eq [symmetric])

lemma get_padding_size_zero: "get_padding_size n = 0 \<longleftrightarrow> 4 dvd n"
proof -
  have "n mod 4 < 4" by simp
  then show ?thesis by (auto simp: get_padding_size_eq dvd_eq_mod_eq_0)
qed

section \<open>Serial numbers\<close>

definition sna32lt :: "u32 \<Rightarrow> u32 \<Rightarrow> bool" where
  "sna32lt i1 i2 \<longleftrightarrow>
     (i1 < i2 \<and> i2 - i1 < push_bit 31 1) \<or> (i1 > i2 \<and> i1 - i2 > push_bit 31 1)"

definition sna32lte :: "u32 \<Rightarrow> u32 \<Rightarrow> bool" where
  "sna32lte i1 i2 \<longleftrightarrow> i1 = i2 \<or> sna32lt i1 i2"

definition sna32gt :: "u32 \<Rightarrow> u32 \<Rightarrow> bool" where
  "sna32gt i1 i2 \<longleftrightarrow>
     (i1 < i2 \<and> i2 - i1 \<ge> push_bit 31 1) \<or> (i1 > i2 \<and> i1 - i2 \<le> push_bit 31 1)"

definition sna32gte :: "u32 \<Rightarrow> u32 \<Rightarrow> bool" where
  "sna32gte i1 i2 \<longleftrightarrow> i1 = i2 \<or> sna32gt i1 i2"

definition sna32eq :: "u32 \<Rightarrow> u32 \<Rightarrow> bool" where
  "sna32eq i1 i2 \<longleftrightarrow> i1 = i2"

definition sna16lt :: "u16 \<Rightarrow> u16 \<Rightarrow> bool" where
  "sna16lt i1 i2 \<longleftrightarrow>
     (i1 < i2 \<and> i2 - i1 < push_bit 15 1) \<or> (i1 > i2 \<and> i1 - i2 > push_bit 15 1)"

definition sna16lte :: "u16 \<Rightarrow> u16 \<Rightarrow> bool" where
  "sna16lte i1 i2 \<longleftrightarrow> i1 = i2 \<or> sna16lt i1 i2"

definition sna16gt :: "u16 \<Rightarrow> u16 \<Rightarrow> bool" where
  "sna16gt i1 i2 \<longleftrightarrow>
     (i1 < i2 \<and> i2 - i1 \<ge> push_bit 15 1) \<or> (i1 > i2 \<and> i1 - i2 \<le> push_bit 15 1)"

definition sna16gte :: "u16 \<Rightarrow> u16 \<Rightarrow> bool" where
  "sna16gte i1 i2 \<longleftrightarrow> i1 = i2 \<or> sna16gt i1 i2"

definition sna16eq :: "u16 \<Rightarrow> u16 \<Rightarrow> bool" where
  "sna16eq i1 i2 \<longleftrightarrow> i1 = i2"

text \<open>The code compares the two unsigned differences; the modular difference decides.\<close>

lemma sna32lt_iff: "sna32lt i j \<longleftrightarrow> i \<noteq> j \<and> j - i < 2 ^ 31"
  using unat_less_pow [of i] unat_less_pow [of j]
  by (auto simp: sna32lt_def word_less_nat_alt unat_diff_if word_unat_eq_iff)

lemma sna32gt_iff: "sna32gt i j \<longleftrightarrow> i \<noteq> j \<and> 2 ^ 31 \<le> j - i"
  using unat_less_pow [of i] unat_less_pow [of j]
  by (auto simp: sna32gt_def word_less_nat_alt word_le_nat_alt unat_diff_if word_unat_eq_iff)

lemma sna16lt_iff: "sna16lt i j \<longleftrightarrow> i \<noteq> j \<and> j - i < 2 ^ 15"
  using unat_less_pow [of i] unat_less_pow [of j]
  by (auto simp: sna16lt_def word_less_nat_alt unat_diff_if word_unat_eq_iff)

lemma sna16gt_iff: "sna16gt i j \<longleftrightarrow> i \<noteq> j \<and> 2 ^ 15 \<le> j - i"
  using unat_less_pow [of i] unat_less_pow [of j]
  by (auto simp: sna16gt_def word_less_nat_alt word_le_nat_alt unat_diff_if word_unat_eq_iff)

section \<open>The contract of serial number arithmetic\<close>

text \<open>
  A number is in the window of a base when it lies less than half the number space ahead
  of it.  Inside one window the serial comparison is the order of the distances from the
  base; outside of any window it is not even transitive.
\<close>

definition in_window :: "'w::len word \<Rightarrow> 'w word \<Rightarrow> bool" where
  "in_window c x \<longleftrightarrow> x - c < 2 ^ (LENGTH('w) - 1)"

lemma half_unat [simp]: "unat (2 ^ (LENGTH('w) - Suc 0) :: 'w::len word) = 2 ^ (LENGTH('w) - Suc 0)"
proof -
  have "0 < (2 ^ (LENGTH('w) - Suc 0) :: 'w word)"
    by (simp add: word_gt_0)
  then have "uint (2 ^ (LENGTH('w) - Suc 0) :: 'w word) = 2 ^ (LENGTH('w) - Suc 0)"
    by (rule uint_2p)
  then show ?thesis by (simp add: unat_eq_nat_uint nat_power_eq)
qed

lemma twice_half: "2 * 2 ^ (LENGTH('w::len) - 1) = (2 ^ LENGTH('w) :: nat)"
  by (cases "LENGTH('w)") simp_all

locale serial =
  fixes lt gt :: "'w::len word \<Rightarrow> 'w word \<Rightarrow> bool"
  assumes lt_iff: "lt i j \<longleftrightarrow> i \<noteq> j \<and> j - i < 2 ^ (LENGTH('w) - 1)"
    and gt_iff: "gt i j \<longleftrightarrow> i \<noteq> j \<and> 2 ^ (LENGTH('w) - 1) \<le> j - i"
    and wide: "2 \<le> LENGTH('w)"
begin

lemma irrefl: "\<not> lt i i"
  by (simp add: lt_iff)

lemma not_gt_iff: "\<not> gt i j \<longleftrightarrow> i = j \<or> lt i j"
  by (auto simp: lt_iff gt_iff)

lemma shift: "lt (i + k) (j + k) = lt i j"
  by (simp add: lt_iff)

lemma lt_iff_unat: "lt i j \<longleftrightarrow> i \<noteq> j \<and> unat (j - i) < 2 ^ (LENGTH('w) - 1)"
  by (simp add: lt_iff word_less_nat_alt half_unat)

lemma window_unat: "in_window c x \<longleftrightarrow> unat (x - c) < 2 ^ (LENGTH('w) - 1)"
  for x c :: "'w word"
  by (simp add: in_window_def word_less_nat_alt half_unat)

lemma window_lt:
  assumes "in_window c x" and "in_window c y"
  shows "lt x y \<longleftrightarrow> x - c < y - c"
proof -
  define a b where "a = x - c" and "b = y - c"
  have d: "y - x = b - a" and n: "x = y \<longleftrightarrow> a = b" by (simp_all add: a_def b_def)
  have h: "unat a < 2 ^ (LENGTH('w) - 1)" "unat b < 2 ^ (LENGTH('w) - 1)"
    using assms by (simp_all add: window_unat a_def b_def)
  have "unat (b - a) < 2 ^ (LENGTH('w) - 1) \<longleftrightarrow> unat a \<le> unat b"
    using h unfolding unat_diff_if twice_half [where 'w = 'w, symmetric] by (simp; linarith)
  then have "lt x y \<longleftrightarrow> a < b"
    by (auto simp: lt_iff_unat d n word_less_nat_alt word_unat_eq_iff [of a b])
  then show ?thesis by (simp add: a_def b_def)
qed

lemma window_total:
  "in_window c x \<Longrightarrow> in_window c y \<Longrightarrow> x \<noteq> y \<Longrightarrow> lt x y \<or> lt y x"
  by (auto simp: window_lt not_less_iff_gr_or_eq)

lemma window_trans:
  "in_window c x \<Longrightarrow> in_window c y \<Longrightarrow> in_window c z \<Longrightarrow> lt x y \<Longrightarrow> lt y z \<Longrightarrow> lt x z"
  by (auto simp: window_lt)

lemma asym: "lt i j \<Longrightarrow> \<not> lt j i"
proof
  assume a: "lt i j" and b: "lt j i"
  then have "in_window i i" and "in_window i j"
    by (simp_all add: lt_iff in_window_def word_less_nat_alt half_unat)
  with a b show False by (auto simp: window_lt)
qed

lemma lt_succ: "lt i (i + 1)"
proof -
  have "(2::nat) \<le> 2 ^ (LENGTH('w) - 1)"
    using wide by (cases "LENGTH('w)"; cases "LENGTH('w) - 1") simp_all
  then show ?thesis
    using wide by (simp add: lt_iff_unat)
qed

lemma lt_window: "lt i j \<Longrightarrow> in_window i j"
  by (simp add: lt_iff in_window_def)

lemma lt_base: "in_window c x \<Longrightarrow> x \<noteq> c \<Longrightarrow> lt c x"
  by (simp add: lt_iff in_window_def)

end

interpretation s32: serial sna32lt sna32gt
  by unfold_locales (simp_all add: sna32lt_iff sna32gt_iff)

interpretation s16: serial sna16lt sna16gt
  by unfold_locales (simp_all add: sna16lt_iff sna16gt_iff)

section \<open>Sorting with a serial comparison\<close>

text \<open>
  \<^verbatim>\<open>slice::sort_by\<close> with a comparator that answers \<^verbatim>\<open>Less\<close> or \<^verbatim>\<open>Greater\<close> is a stable sort by
  \<open>is_less\<close>.  Where \<open>is_less\<close> orders the elements (all of them in one window) the result does
  not depend on the algorithm; elsewhere the standard library leaves it open.
\<close>

fun insert_by :: "('a \<Rightarrow> 'a \<Rightarrow> bool) \<Rightarrow> 'a \<Rightarrow> 'a list \<Rightarrow> 'a list" where
  "insert_by is_less x [] = [x]"
| "insert_by is_less x (y # ys) = (if is_less x y then x # y # ys else y # insert_by is_less x ys)"

fun sort_by_acc :: "('a \<Rightarrow> 'a \<Rightarrow> bool) \<Rightarrow> 'a list \<Rightarrow> 'a list \<Rightarrow> 'a list" where
  "sort_by_acc is_less acc [] = acc"
| "sort_by_acc is_less acc (x # xs) = sort_by_acc is_less (insert_by is_less x acc) xs"

definition sort_by :: "('a \<Rightarrow> 'a \<Rightarrow> bool) \<Rightarrow> 'a list \<Rightarrow> 'a list" where
  "sort_by is_less xs = sort_by_acc is_less [] xs"

lemma mset_insert_by [simp]: "mset (insert_by is_less x xs) = add_mset x (mset xs)"
  by (induction xs) auto

lemma mset_sort_by_acc: "mset (sort_by_acc is_less acc xs) = mset acc + mset xs"
  by (induction is_less acc xs rule: sort_by_acc.induct) auto

lemma mset_sort_by [simp]: "mset (sort_by is_less xs) = mset xs"
  by (simp add: sort_by_def mset_sort_by_acc)

lemma set_insert_by [simp]: "set (insert_by is_less x xs) = insert x (set xs)"
  by (metis mset_insert_by set_mset_add_mset_insert set_mset_mset)

lemma set_sort_by [simp]: "set (sort_by is_less xs) = set xs"
  by (metis mset_sort_by set_mset_mset)

lemma length_sort_by [simp]: "length (sort_by is_less xs) = length xs"
  by (metis mset_sort_by size_mset)

lemma distinct_sort_by [simp]: "distinct (sort_by is_less xs) = distinct xs"
  by (metis mset_sort_by mset_eq_imp_distinct_iff)

lemma map_sort_by:
  "(\<And>x y. is_less x y \<longleftrightarrow> is_less' (f x) (f y)) \<Longrightarrow> map f (sort_by is_less xs) = sort_by is_less' (map f xs)"
proof -
  assume h: "\<And>x y. is_less x y \<longleftrightarrow> is_less' (f x) (f y)"
  have i: "map f (insert_by is_less x ys) = insert_by is_less' (f x) (map f ys)" for x ys
    by (induction ys) (auto simp: h)
  have "map f (sort_by_acc is_less acc xs) = sort_by_acc is_less' (map f acc) (map f xs)" for acc
    by (induction xs arbitrary: acc) (auto simp: i)
  then show ?thesis by (simp add: sort_by_def)
qed

text \<open>Where a key decides the comparison, the result is sorted by the key.\<close>

lemma sorted_insert_by:
  assumes "\<And>a b. a \<in> insert x (set xs) \<Longrightarrow> b \<in> insert x (set xs) \<Longrightarrow> is_less a b \<longleftrightarrow> (k a :: 'k::linorder) < k b"
    and "sorted (map k xs)"
  shows "sorted (map k (insert_by is_less x xs))"
  using assms by (induction xs) (auto simp: not_less)

lemma sorted_sort_by:
  assumes "\<And>a b. a \<in> set xs \<Longrightarrow> b \<in> set xs \<Longrightarrow> is_less a b \<longleftrightarrow> (k a :: 'k::linorder) < k b"
  shows "sorted (map k (sort_by is_less xs))"
proof -
  have "sorted (map k (sort_by_acc is_less acc ys))"
    if "\<And>a b. a \<in> set acc \<union> set ys \<Longrightarrow> b \<in> set acc \<union> set ys \<Longrightarrow> is_less a b \<longleftrightarrow> k a < k b"
      and "sorted (map k acc)" for acc ys
    using that
  proof (induction ys arbitrary: acc)
    case (Cons y ys)
    have "sorted (map k (insert_by is_less y acc))"
      by (rule sorted_insert_by) (use Cons.prems in auto)
    then have "sorted (map k (sort_by_acc is_less (insert_by is_less y acc) ys))"
      using Cons.prems by (intro Cons.IH) simp_all
    then show ?case by simp
  qed simp
  from this [of "[]" xs] assms show ?thesis by (simp add: sort_by_def)
qed

text \<open>With distinct keys the sorted permutation is unique: every stable sort returns it.\<close>

lemma sort_by_unique:
  assumes is_less: "\<And>a b. a \<in> set xs \<Longrightarrow> b \<in> set xs \<Longrightarrow> is_less a b \<longleftrightarrow> (k a :: 'k::linorder) < k b"
    and inj: "inj_on k (set xs)" and perm: "mset ys = mset xs" and sorted: "sorted (map k ys)"
  shows "sort_by is_less xs = ys"
proof -
  have s: "set ys = set xs" using perm by (metis set_mset_mset)
  have "sort (map k xs) = map k (sort_by is_less xs)"
    by (rule properties_for_sort) (use sorted_sort_by [OF is_less] in simp_all)
  moreover have "sort (map k xs) = map k ys"
    by (rule properties_for_sort) (use perm sorted in simp_all)
  ultimately have "map k (sort_by is_less xs) = map k ys" by simp
  then show ?thesis by (rule map_inj_on) (simp add: s inj)
qed

end
