(* ===== verification/Param_Type.thy ===== *)
theory Param_Type
  imports Sna
begin

text \<open>
  Parameter types and the parameter header (src/src/param/param_type.rs and
  src/src/param/param_header.rs), the result and algorithm codes carried by two of the
  parameters, and the chunk types of src/src/chunk/chunk_type.rs, which parameters list.
  The locale \<open>param_codec\<close> is the contract of an \<^verbatim>\<open>impl Param\<close>.
\<close>

section \<open>Chunk types\<close>

type_synonym chunk_type = u8

definition CT_PAYLOAD_DATA :: chunk_type where "CT_PAYLOAD_DATA = 0"
definition CT_INIT :: chunk_type where "CT_INIT = 1"
definition CT_INIT_ACK :: chunk_type where "CT_INIT_ACK = 2"
definition CT_SACK :: chunk_type where "CT_SACK = 3"
definition CT_HEARTBEAT :: chunk_type where "CT_HEARTBEAT = 4"
definition CT_HEARTBEAT_ACK :: chunk_type where "CT_HEARTBEAT_ACK = 5"
definition CT_ABORT :: chunk_type where "CT_ABORT = 6"
definition CT_SHUTDOWN :: chunk_type where "CT_SHUTDOWN = 7"
definition CT_SHUTDOWN_ACK :: chunk_type where "CT_SHUTDOWN_ACK = 8"
definition CT_ERROR :: chunk_type where "CT_ERROR = 9"
definition CT_COOKIE_ECHO :: chunk_type where "CT_COOKIE_ECHO = 10"
definition CT_COOKIE_ACK :: chunk_type where "CT_COOKIE_ACK = 11"
definition CT_CWR :: chunk_type where "CT_CWR = 13"
definition CT_SHUTDOWN_COMPLETE :: chunk_type where "CT_SHUTDOWN_COMPLETE = 14"
definition CT_RECONFIG :: chunk_type where "CT_RECONFIG = 130"
definition CT_FORWARD_TSN :: chunk_type where "CT_FORWARD_TSN = 192"

lemmas ct_defs = CT_PAYLOAD_DATA_def CT_INIT_def CT_INIT_ACK_def CT_SACK_def CT_HEARTBEAT_def
  CT_HEARTBEAT_ACK_def CT_ABORT_def CT_SHUTDOWN_def CT_SHUTDOWN_ACK_def CT_ERROR_def
  CT_COOKIE_ECHO_def CT_COOKIE_ACK_def CT_CWR_def CT_SHUTDOWN_COMPLETE_def CT_RECONFIG_def
  CT_FORWARD_TSN_def

section \<open>Parameter types\<close>

datatype param_type =
    PT_HeartbeatInfo | PT_Ipv4Addr | PT_Ipv6Addr | PT_StateCookie | PT_UnrecognizedParam
  | PT_CookiePreservative | PT_HostNameAddr | PT_SupportedAddrTypes | PT_OutSsnResetReq
  | PT_IncSsnResetReq | PT_SsnTsnResetReq | PT_ReconfigResp | PT_AddOutStreamsReq
  | PT_AddIncStreamsReq | PT_Random | PT_ChunkList | PT_ReqHmacAlgo | PT_Padding
  | PT_SupportedExt | PT_ForwardTsnSupp | PT_AddIpAddr | PT_DelIpaddr | PT_ErrClauseInd
  | PT_SetPriAddr | PT_SuccessInd | PT_AdaptLayerInd | PT_Unknown u16

definition param_type_of_u16 :: "u16 \<Rightarrow> param_type" where
  "param_type_of_u16 v =
     (if v = 1 then PT_HeartbeatInfo
      else if v = 5 then PT_Ipv4Addr
      else if v = 6 then PT_Ipv6Addr
      else if v = 7 then PT_StateCookie
      else if v = 8 then PT_UnrecognizedParam
      else if v = 9 then PT_CookiePreservative
      else if v = 11 then PT_HostNameAddr
      else if v = 12 then PT_SupportedAddrTypes
      else if v = 13 then PT_OutSsnResetReq
      else if v = 14 then PT_IncSsnResetReq
      else if v = 15 then PT_SsnTsnResetReq
      else if v = 16 then PT_ReconfigResp
      else if v = 17 then PT_AddOutStreamsReq
      else if v = 18 then PT_AddIncStreamsReq
      else if v = 32770 then PT_Random
      else if v = 32771 then PT_ChunkList
      else if v = 32772 then PT_ReqHmacAlgo
      else if v = 32773 then PT_Padding
      else if v = 32776 then PT_SupportedExt
      else if v = 49152 then PT_ForwardTsnSupp
      else if v = 49153 then PT_AddIpAddr
      else if v = 49154 then PT_DelIpaddr
      else if v = 49155 then PT_ErrClauseInd
      else if v = 49156 then PT_SetPriAddr
      else if v = 49157 then PT_SuccessInd
      else if v = 49158 then PT_AdaptLayerInd
      else PT_Unknown v)"

fun u16_of_param_type :: "param_type \<Rightarrow> u16" where
  "u16_of_param_type PT_HeartbeatInfo = 1"
| "u16_of_param_type PT_Ipv4Addr = 5"
| "u16_of_param_type PT_Ipv6Addr = 6"
| "u16_of_param_type PT_StateCookie = 7"
| "u16_of_param_type PT_UnrecognizedParam = 8"
| "u16_of_param_type PT_CookiePreservative = 9"
| "u16_of_param_type PT_HostNameAddr = 11"
| "u16_of_param_type PT_SupportedAddrTypes = 12"
| "u16_of_param_type PT_OutSsnResetReq = 13"
| "u16_of_param_type PT_IncSsnResetReq = 14"
| "u16_of_param_type PT_SsnTsnResetReq = 15"
| "u16_of_param_type PT_ReconfigResp = 16"
| "u16_of_param_type PT_AddOutStreamsReq = 17"
| "u16_of_param_type PT_AddIncStreamsReq = 18"
| "u16_of_param_type PT_Random = 32770"
| "u16_of_param_type PT_ChunkList = 32771"
| "u16_of_param_type PT_ReqHmacAlgo = 32772"
| "u16_of_param_type PT_Padding = 32773"
| "u16_of_param_type PT_SupportedExt = 32776"
| "u16_of_param_type PT_ForwardTsnSupp = 49152"
| "u16_of_param_type PT_AddIpAddr = 49153"
| "u16_of_param_type PT_DelIpaddr = 49154"
| "u16_of_param_type PT_ErrClauseInd = 49155"
| "u16_of_param_type PT_SetPriAddr = 49156"
| "u16_of_param_type PT_SuccessInd = 49157"
| "u16_of_param_type PT_AdaptLayerInd = 49158"
| "u16_of_param_type (PT_Unknown v) = v"

lemma u16_of_param_type_inverse [simp]: "u16_of_param_type (param_type_of_u16 v) = v"
  by (simp add: param_type_of_u16_def)

text \<open>A type the crate has no name for: what \<^verbatim>\<open>ParamType::Unknown\<close> stands for.\<close>

definition unnamed_param_type :: "u16 \<Rightarrow> bool" where
  "unnamed_param_type v \<longleftrightarrow> param_type_of_u16 v = PT_Unknown v"

fun param_type_wf :: "param_type \<Rightarrow> bool" where
  "param_type_wf (PT_Unknown v) = unnamed_param_type v"
| "param_type_wf _ = True"

lemma param_type_inverse: "param_type_wf t \<Longrightarrow> param_type_of_u16 (u16_of_param_type t) = t"
  by (cases t) (simp_all add: param_type_of_u16_def unnamed_param_type_def)

section \<open>Codes carried by parameters\<close>

datatype reconfig_result =
    SuccessNop | SuccessPerformed | Denied | ErrorWrongSsn | ErrorRequestAlreadyInProgress
  | ErrorBadSequenceNumber | InProgress | UnknownResult

definition reconfig_result_of_u32 :: "u32 \<Rightarrow> reconfig_result" where
  "reconfig_result_of_u32 v =
     (if v = 0 then SuccessNop
      else if v = 1 then SuccessPerformed
      else if v = 2 then Denied
      else if v = 3 then ErrorWrongSsn
      else if v = 4 then ErrorRequestAlreadyInProgress
      else if v = 5 then ErrorBadSequenceNumber
      else if v = 6 then InProgress
      else UnknownResult)"

text \<open>\<^verbatim>\<open>result as u32\<close>: the discriminants, \<^verbatim>\<open>Unknown\<close> being one more than \<^verbatim>\<open>InProgress\<close>.\<close>

fun u32_of_reconfig_result :: "reconfig_result \<Rightarrow> u32" where
  "u32_of_reconfig_result SuccessNop = 0"
| "u32_of_reconfig_result SuccessPerformed = 1"
| "u32_of_reconfig_result Denied = 2"
| "u32_of_reconfig_result ErrorWrongSsn = 3"
| "u32_of_reconfig_result ErrorRequestAlreadyInProgress = 4"
| "u32_of_reconfig_result ErrorBadSequenceNumber = 5"
| "u32_of_reconfig_result InProgress = 6"
| "u32_of_reconfig_result UnknownResult = 7"

lemma reconfig_result_inverse [simp]:
  "reconfig_result_of_u32 (u32_of_reconfig_result r) = r"
  by (cases r) (simp_all add: reconfig_result_of_u32_def)

datatype hmac_algorithm = HmacResv1 | HmacSha128 | HmacResv2 | HmacSha256 | HmacUnknown

definition hmac_algorithm_of_u16 :: "u16 \<Rightarrow> hmac_algorithm" where
  "hmac_algorithm_of_u16 v =
     (if v = 0 then HmacResv1
      else if v = 1 then HmacSha128
      else if v = 2 then HmacResv2
      else if v = 3 then HmacSha256
      else HmacUnknown)"

fun u16_of_hmac_algorithm :: "hmac_algorithm \<Rightarrow> u16" where
  "u16_of_hmac_algorithm HmacResv1 = 0"
| "u16_of_hmac_algorithm HmacSha128 = 1"
| "u16_of_hmac_algorithm HmacResv2 = 2"
| "u16_of_hmac_algorithm HmacSha256 = 3"
| "u16_of_hmac_algorithm HmacUnknown = 4"

lemma hmac_algorithm_inverse [simp]: "hmac_algorithm_of_u16 (u16_of_hmac_algorithm a) = a"
  by (cases a) (simp_all add: hmac_algorithm_of_u16_def)

section \<open>The parameter header\<close>

record param_header =
  ph_typ :: param_type
  ph_value_length :: u16

definition PARAM_HEADER_LENGTH :: nat where
  "PARAM_HEADER_LENGTH = 4"

definition param_header_unmarshal :: "bytes \<Rightarrow> param_header outcome" where
  "param_header_unmarshal raw =
     (if length raw < PARAM_HEADER_LENGTH then Err ErrParamHeaderTooShort
      else
        and_then (get_u16 raw) (\<lambda>(typ, reader).
        and_then (get_u16 reader) (\<lambda>(l, reader).
          let len = unat l in
          if len < PARAM_HEADER_LENGTH \<or> length raw < len then Err ErrParamHeaderTooShort
          else Ok \<lparr>ph_typ = param_type_of_u16 typ,
                    ph_value_length = of_nat (len - PARAM_HEADER_LENGTH)\<rparr>)))"

definition param_header_marshal_to :: "param_header \<Rightarrow> bytes \<Rightarrow> bytes outcome" where
  "param_header_marshal_to h writer =
     Ok (writer @ put_u16 (u16_of_param_type (ph_typ h))
           @ put_u16 (ph_value_length h + of_nat PARAM_HEADER_LENGTH))"

definition param_header_value_length :: "param_header \<Rightarrow> nat" where
  "param_header_value_length h = unat (ph_value_length h)"

lemma param_header_length_eq [simp]: "PARAM_HEADER_LENGTH = 4"
  by (simp add: PARAM_HEADER_LENGTH_def)

lemma param_header_no_panic [simp]: "param_header_unmarshal raw \<noteq> Panic"
  by (auto simp: param_header_unmarshal_def Let_def split: prod.splits dest!: get_length)

text \<open>An accepted header promises that its value lies inside the buffer.\<close>

lemma param_header_fits:
  assumes "param_header_unmarshal raw = Ok h"
  shows "4 + param_header_value_length h \<le> length raw"
proof -
  have "4 \<le> unat l \<Longrightarrow> unat (l - 4) = unat l - 4" for l :: u16
    by (simp add: unat_diff_if)
  then show ?thesis
    using assms
    by (auto simp: param_header_unmarshal_def param_header_value_length_def Let_def not_less
        and_then_eq_Ok
        split: if_splits prod.splits)
qed

lemma unat_of_nat_u16: "n < 65536 \<Longrightarrow> unat (of_nat n :: u16) = n"
  by (simp add: unat_of_nat_less)

lemma param_header_unmarshal_put:
  assumes n: "n + 4 < 65536" and r: "n \<le> length r"
  shows "param_header_unmarshal (put_u16 v @ put_u16 (of_nat n + 4) @ r) =
    Ok \<lparr>ph_typ = param_type_of_u16 v, ph_value_length = of_nat n\<rparr>"
proof -
  have "(of_nat n + 4 :: u16) = of_nat (n + 4)" by simp
  then have "unat (of_nat n + 4 :: u16) = n + 4"
    using n by (simp only: unat_of_nat_u16)
  then show ?thesis
    using r by (simp add: param_header_unmarshal_def)
qed

lemma param_header_roundtrip:
  "param_type_wf t \<Longrightarrow> n + 4 < 65536 \<Longrightarrow> n \<le> length r \<Longrightarrow>
    param_header_unmarshal (put_u16 (u16_of_param_type t) @ put_u16 (of_nat n + 4) @ r) =
    Ok \<lparr>ph_typ = t, ph_value_length = of_nat n\<rparr>"
  by (simp add: param_header_unmarshal_put param_type_inverse)

section \<open>The contract of a parameter\<close>

text \<open>
  What the code around the parameters (\<^verbatim>\<open>build_param\<close> and the chunks that carry parameters)
  relies on: decoding never panics, what is decoded lies inside the buffer, encoding
  appends \<open>4 + value_length\<close> bytes that start with the type code, and decoding the
  encoding of a well-formed parameter gives it back, whatever follows it.
\<close>

locale param_codec =
  fixes unmarshal :: "bytes \<Rightarrow> 'p outcome"
    and marshal_to :: "'p \<Rightarrow> bytes \<Rightarrow> bytes outcome"
    and value_length :: "'p \<Rightarrow> nat"
    and typ_code :: "'p \<Rightarrow> u16"
    and wf :: "'p \<Rightarrow> bool"
  assumes no_panic: "unmarshal raw \<noteq> Panic"
    and fits: "unmarshal raw = Ok p \<Longrightarrow> 4 + value_length p \<le> length raw"
    and appends: "marshal_to p w = and_then (marshal_to p []) (\<lambda>m. Ok (w @ m))"
    and total: "\<exists>b. marshal_to p [] = Ok (put_u16 (typ_code p) @ b) \<and> length b = 2 + value_length p"
    and roundtrip: "wf p \<Longrightarrow> marshal_to p [] = Ok m \<Longrightarrow> unmarshal (m @ rest) = Ok p"
begin

lemma marshal_ok: "\<exists>m. marshal_to p [] = Ok m"
  using total [of p] by auto

lemma marshal_length: "marshal_to p [] = Ok m \<Longrightarrow> length m = 4 + value_length p"
  using total [of p] by auto

lemma marshal_typ: "marshal_to p [] = Ok m \<Longrightarrow> get_u16 (m @ r) = Ok (typ_code p, drop 2 m @ r)"
  using total [of p] by (auto simp: drop_Cons' put_u16_def wire_simps)

lemma marshal_to_obtain:
  obtains m where "marshal_to p w = Ok (w @ m)" and "marshal_to p [] = Ok m"
  using marshal_ok [of p] by (auto simp: appends [of p w])

lemma roundtrip_exact: "wf p \<Longrightarrow> marshal_to p [] = Ok m \<Longrightarrow> unmarshal m = Ok p"
  using roundtrip [of p m "[]"] by simp

end

end
