(* ===== verification/Param.thy ===== *)
theory Param
  imports Param_Type
begin

text \<open>
  The parameters of src/src/param: one group of definitions per file, each an instance of
  the contract \<open>param_codec\<close>, and \<^verbatim>\<open>build_param\<close> of src/src/param/mod.rs with the trait
  object \<^verbatim>\<open>Box<dyn Param>\<close> as the datatype \<open>param\<close>, again an instance of the contract.
\<close>

lemmas param_header_defs = param_header_marshal_to_def param_header_value_length_def

section \<open>Parameters with an opaque value\<close>

text \<open>param\_state\_cookie.rs; the random bytes of \<^verbatim>\<open>new\<close> are the argument \<open>random32\<close>.\<close>

definition param_state_cookie_value_length :: "bytes \<Rightarrow> nat" where
  "param_state_cookie_value_length cookie = length cookie"

definition param_state_cookie_header :: "bytes \<Rightarrow> param_header" where
  "param_state_cookie_header cookie =
     \<lparr>ph_typ = PT_StateCookie, ph_value_length = of_nat (param_state_cookie_value_length cookie)\<rparr>"

definition param_state_cookie_unmarshal :: "bytes \<Rightarrow> bytes outcome" where
  "param_state_cookie_unmarshal raw =
     and_then (param_header_unmarshal raw) (\<lambda>header.
       bytes_slice raw PARAM_HEADER_LENGTH (PARAM_HEADER_LENGTH + param_header_value_length header))"

definition param_state_cookie_marshal_to :: "bytes \<Rightarrow> bytes \<Rightarrow> bytes outcome" where
  "param_state_cookie_marshal_to cookie buf =
     and_then (param_header_marshal_to (param_state_cookie_header cookie) buf)
       (\<lambda>buf. Ok (buf @ cookie))"

definition param_state_cookie_new :: "bytes \<Rightarrow> bytes" where
  "param_state_cookie_new random32 = take 32 (random32 @ replicate 32 0)"

text \<open>param\_heartbeat\_info.rs\<close>

definition param_heartbeat_info_value_length :: "bytes \<Rightarrow> nat" where
  "param_heartbeat_info_value_length info = length info"

definition param_heartbeat_info_header :: "bytes \<Rightarrow> param_header" where
  "param_heartbeat_info_header info =
     \<lparr>ph_typ = PT_HeartbeatInfo, ph_value_length = of_nat (param_heartbeat_info_value_length info)\<rparr>"

definition param_heartbeat_info_unmarshal :: "bytes \<Rightarrow> bytes outcome" where
  "param_heartbeat_info_unmarshal raw =
     and_then (param_header_unmarshal raw) (\<lambda>header.
       bytes_slice raw PARAM_HEADER_LENGTH (PARAM_HEADER_LENGTH + param_header_value_length header))"

definition param_heartbeat_info_marshal_to :: "bytes \<Rightarrow> bytes \<Rightarrow> bytes outcome" where
  "param_heartbeat_info_marshal_to info buf =
     and_then (param_header_marshal_to (param_heartbeat_info_header info) buf)
       (\<lambda>buf. Ok (buf @ info))"

text \<open>param\_random.rs\<close>

definition param_random_value_length :: "bytes \<Rightarrow> nat" where
  "param_random_value_length random_data = length random_data"

definition param_random_header :: "bytes \<Rightarrow> param_header" where
  "param_random_header random_data =
     \<lparr>ph_typ = PT_Random, ph_value_length = of_nat (param_random_value_length random_data)\<rparr>"

definition param_random_unmarshal :: "bytes \<Rightarrow> bytes outcome" where
  "param_random_unmarshal raw =
     and_then (param_header_unmarshal raw) (\<lambda>header.
       bytes_slice raw PARAM_HEADER_LENGTH (PARAM_HEADER_LENGTH + param_header_value_length header))"

definition param_random_marshal_to :: "bytes \<Rightarrow> bytes \<Rightarrow> bytes outcome" where
  "param_random_marshal_to random_data buf =
     and_then (param_header_marshal_to (param_random_header random_data) buf)
       (\<lambda>buf. Ok (buf @ random_data))"

lemmas [wire_defs] =
  param_state_cookie_value_length_def param_state_cookie_header_def
  param_state_cookie_unmarshal_def param_state_cookie_marshal_to_def
  param_heartbeat_info_value_length_def param_heartbeat_info_header_def
  param_heartbeat_info_unmarshal_def param_heartbeat_info_marshal_to_def
  param_random_value_length_def param_random_header_def
  param_random_unmarshal_def param_random_marshal_to_def

text \<open>A value that fits the 16-bit length field together with its header.\<close>

abbreviation value_fits :: "nat \<Rightarrow> bool" where
  "value_fits n \<equiv> n + 4 < 65536"

interpretation state_cookie: param_codec
  param_state_cookie_unmarshal param_state_cookie_marshal_to param_state_cookie_value_length
  "\<lambda>_. 7" "\<lambda>c. value_fits (length c)"
proof (unfold_locales, goal_cases)
  case (5 p m rest)
  then show ?case
    using param_header_roundtrip [of PT_StateCookie "length p" "p @ rest"]
    by (auto simp: wire_defs param_header_defs unat_of_nat_u16 bytes_slice_def)
qed (auto simp: wire_defs param_header_defs and_then_eq_Ok dest: param_header_fits slice_OkD)

interpretation heartbeat_info: param_codec
  param_heartbeat_info_unmarshal param_heartbeat_info_marshal_to param_heartbeat_info_value_length
  "\<lambda>_. 1" "\<lambda>c. value_fits (length c)"
proof (unfold_locales, goal_cases)
  case (5 p m rest)
  then show ?case
    using param_header_roundtrip [of PT_HeartbeatInfo "length p" "p @ rest"]
    by (auto simp: wire_defs param_header_defs unat_of_nat_u16 bytes_slice_def)
qed (auto simp: wire_defs param_header_defs and_then_eq_Ok dest: param_header_fits slice_OkD)

interpretation random: param_codec
  param_random_unmarshal param_random_marshal_to param_random_value_length
  "\<lambda>_. 32770" "\<lambda>c. value_fits (length c)"
proof (unfold_locales, goal_cases)
  case (5 p m rest)
  then show ?case
    using param_header_roundtrip [of PT_Random "length p" "p @ rest"]
    by (auto simp: wire_defs param_header_defs unat_of_nat_u16 bytes_slice_def)
qed (auto simp: wire_defs param_header_defs and_then_eq_Ok dest: param_header_fits slice_OkD)

section \<open>Parameters with a structured value\<close>

text \<open>param\_forward\_tsn\_supported.rs: a header and nothing else.\<close>

definition param_forward_tsn_supported_value_length :: "unit \<Rightarrow> nat" where
  "param_forward_tsn_supported_value_length u = 0"

definition param_forward_tsn_supported_header :: "unit \<Rightarrow> param_header" where
  "param_forward_tsn_supported_header u =
     \<lparr>ph_typ = PT_ForwardTsnSupp,
      ph_value_length = of_nat (param_forward_tsn_supported_value_length u)\<rparr>"

definition param_forward_tsn_supported_unmarshal :: "bytes \<Rightarrow> unit outcome" where
  "param_forward_tsn_supported_unmarshal raw = and_then (param_header_unmarshal raw) (\<lambda>_. Ok ())"

definition param_forward_tsn_supported_marshal_to :: "unit \<Rightarrow> bytes \<Rightarrow> bytes outcome" where
  "param_forward_tsn_supported_marshal_to u buf =
     param_header_marshal_to (param_forward_tsn_supported_header u) buf"

text \<open>
  param\_chunk\_list.rs and param\_supported\_extensions.rs: a list of chunk types.  The loop
  reads a byte while any remains.
\<close>

fun read_u8s :: "bytes \<Rightarrow> u8 list outcome" where
  "read_u8s [] = Ok []"
| "read_u8s (b # r) = and_then (read_u8s r) (\<lambda>ts. Ok (b # ts))"

definition param_chunk_list_value_length :: "chunk_type list \<Rightarrow> nat" where
  "param_chunk_list_value_length chunk_types = length chunk_types"

definition param_chunk_list_header :: "chunk_type list \<Rightarrow> param_header" where
  "param_chunk_list_header chunk_types =
     \<lparr>ph_typ = PT_ChunkList,
      ph_value_length = of_nat (param_chunk_list_value_length chunk_types)\<rparr>"

definition param_chunk_list_unmarshal :: "bytes \<Rightarrow> chunk_type list outcome" where
  "param_chunk_list_unmarshal raw =
     and_then (param_header_unmarshal raw) (\<lambda>header.
       if ph_typ header \<noteq> PT_ChunkList then Err ErrParamTypeUnexpected
       else and_then (bytes_slice raw PARAM_HEADER_LENGTH
                        (PARAM_HEADER_LENGTH + param_header_value_length header))
              (\<lambda>reader. read_u8s reader))"

definition param_chunk_list_marshal_to :: "chunk_type list \<Rightarrow> bytes \<Rightarrow> bytes outcome" where
  "param_chunk_list_marshal_to chunk_types buf =
     and_then (param_header_marshal_to (param_chunk_list_header chunk_types) buf)
       (\<lambda>buf. Ok (buf @ chunk_types))"

definition param_supported_extensions_value_length :: "chunk_type list \<Rightarrow> nat" where
  "param_supported_extensions_value_length chunk_types = length chunk_types"

definition param_supported_extensions_header :: "chunk_type list \<Rightarrow> param_header" where
  "param_supported_extensions_header chunk_types =
     \<lparr>ph_typ = PT_SupportedExt,
      ph_value_length = of_nat (param_supported_extensions_value_length chunk_types)\<rparr>"

definition param_supported_extensions_unmarshal :: "bytes \<Rightarrow> chunk_type list outcome" where
  "param_supported_extensions_unmarshal raw =
     and_then (param_header_unmarshal raw) (\<lambda>header.
     and_then (bytes_slice raw PARAM_HEADER_LENGTH
                 (PARAM_HEADER_LENGTH + param_header_value_length header))
       (\<lambda>reader. read_u8s reader))"

definition param_supported_extensions_marshal_to :: "chunk_type list \<Rightarrow> bytes \<Rightarrow> bytes outcome" where
  "param_supported_extensions_marshal_to chunk_types buf =
     and_then (param_header_marshal_to (param_supported_extensions_header chunk_types) buf)
       (\<lambda>buf. Ok (buf @ chunk_types))"

text \<open>
  param\_requested\_hmac\_algorithm.rs: the loop runs over the offset while two more bytes
  are inside the value, and refuses anything but the two SHA algorithms.
\<close>

function read_hmac_algorithms :: "nat \<Rightarrow> nat \<Rightarrow> bytes \<Rightarrow> hmac_algorithm list outcome" where
  "read_hmac_algorithms offset value_len reader =
     (if offset + 1 < value_len
      then and_then (get_u16 reader) (\<lambda>(v, reader).
        let a = hmac_algorithm_of_u16 v in
        if a = HmacSha128 \<or> a = HmacSha256
        then and_then (read_hmac_algorithms (offset + 2) value_len reader) (\<lambda>as. Ok (a # as))
        else Err ErrInvalidAlgorithmType)
      else Ok [])"
  by pat_completeness auto
termination
  by (relation "measure (\<lambda>(offset, value_len, reader). value_len - offset)") auto

declare read_hmac_algorithms.simps [simp del]

definition param_requested_hmac_algorithm_value_length :: "hmac_algorithm list \<Rightarrow> nat" where
  "param_requested_hmac_algorithm_value_length algs = 2 * length algs"

definition param_requested_hmac_algorithm_header :: "hmac_algorithm list \<Rightarrow> param_header" where
  "param_requested_hmac_algorithm_header algs =
     \<lparr>ph_typ = PT_ReqHmacAlgo,
      ph_value_length = of_nat (param_requested_hmac_algorithm_value_length algs)\<rparr>"

definition param_requested_hmac_algorithm_unmarshal :: "bytes \<Rightarrow> hmac_algorithm list outcome" where
  "param_requested_hmac_algorithm_unmarshal raw =
     and_then (param_header_unmarshal raw) (\<lambda>header.
     and_then (bytes_slice raw PARAM_HEADER_LENGTH
                 (PARAM_HEADER_LENGTH + param_header_value_length header))
       (\<lambda>reader. read_hmac_algorithms 0 (param_header_value_length header) reader))"

definition param_requested_hmac_algorithm_marshal_to ::
  "hmac_algorithm list \<Rightarrow> bytes \<Rightarrow> bytes outcome" where
  "param_requested_hmac_algorithm_marshal_to algs buf =
     and_then (param_header_marshal_to (param_requested_hmac_algorithm_header algs) buf)
       (\<lambda>buf. Ok (buf @ concat (map (\<lambda>a. put_u16 (u16_of_hmac_algorithm a)) algs)))"

lemmas [wire_defs] =
  param_forward_tsn_supported_value_length_def param_forward_tsn_supported_header_def
  param_forward_tsn_supported_unmarshal_def param_forward_tsn_supported_marshal_to_def
  param_chunk_list_value_length_def param_chunk_list_header_def
  param_chunk_list_unmarshal_def param_chunk_list_marshal_to_def
  param_supported_extensions_value_length_def param_supported_extensions_header_def
  param_supported_extensions_unmarshal_def param_supported_extensions_marshal_to_def
  param_requested_hmac_algorithm_value_length_def param_requested_hmac_algorithm_header_def
  param_requested_hmac_algorithm_unmarshal_def param_requested_hmac_algorithm_marshal_to_def

lemma read_u8s_eq [simp]: "read_u8s r = Ok r"
  by (induction r) auto

lemma read_hmac_no_panic:
  "value_len \<le> offset + length reader \<Longrightarrow> read_hmac_algorithms offset value_len reader \<noteq> Panic"
proof (induction offset value_len reader rule: read_hmac_algorithms.induct)
  case (1 offset value_len reader)
  show ?case
  proof (cases "offset + 1 < value_len")
    case True
    with "1.prems" have "2 \<le> length reader" by simp
    then obtain v r where g: "get_u16 reader = Ok (v, r)" "length reader = length r + 2"
      by (rule get_u16_obtain)
    have "hmac_algorithm_of_u16 v = HmacSha128 \<or> hmac_algorithm_of_u16 v = HmacSha256 \<Longrightarrow>
        read_hmac_algorithms (offset + 2) value_len r \<noteq> Panic"
      using "1.prems" g by (intro "1.IH" [OF True g(1) refl refl]) simp_all
    then show ?thesis
      by (subst read_hmac_algorithms.simps) (auto simp: g Let_def)
  qed (simp add: read_hmac_algorithms.simps)
qed

lemma read_hmac_length:
  "read_hmac_algorithms offset value_len reader = Ok as \<Longrightarrow> 2 * length as \<le> value_len - offset"
proof (induction offset value_len reader arbitrary: as rule: read_hmac_algorithms.induct)
  case (1 offset value_len reader)
  show ?case
    using "1.prems" "1.IH" unfolding read_hmac_algorithms.simps [of offset value_len reader]
    by (fastforce simp: Let_def and_then_eq_Ok split: if_splits prod.splits)
qed

lemma length_concat_put_u16 [simp]: "length (concat (map (\<lambda>x. put_u16 (f x)) xs)) = 2 * length xs"
  by (induction xs) auto

lemma read_hmac_put:
  "set as \<subseteq> {HmacSha128, HmacSha256} \<Longrightarrow>
    read_hmac_algorithms offset (offset + 2 * length as)
      (concat (map (\<lambda>a. put_u16 (u16_of_hmac_algorithm a)) as) @ r) = Ok as"
proof (induction as arbitrary: offset)
  case Nil
  then show ?case by (simp add: read_hmac_algorithms.simps)
next
  case (Cons a as)
  then show ?case
    using Cons.IH [of "offset + 2"]
    by (subst read_hmac_algorithms.simps) (auto simp: add.assoc)
qed

interpretation forward_tsn_supported: param_codec
  param_forward_tsn_supported_unmarshal param_forward_tsn_supported_marshal_to
  param_forward_tsn_supported_value_length "\<lambda>_. 49152" "\<lambda>_. True"
proof (unfold_locales, goal_cases)
  case (5 p m rest)
  then show ?case
    using param_header_roundtrip [of PT_ForwardTsnSupp 0 rest]
    by (auto simp: wire_defs param_header_defs)
qed (auto simp: wire_defs param_header_defs and_then_eq_Ok dest: param_header_fits)

interpretation chunk_list: param_codec
  param_chunk_list_unmarshal param_chunk_list_marshal_to param_chunk_list_value_length
  "\<lambda>_. 32771" "\<lambda>c. value_fits (length c)"
proof (unfold_locales, goal_cases)
  case (5 p m rest)
  then show ?case
    using param_header_roundtrip [of PT_ChunkList "length p" "p @ rest"]
    by (auto simp: wire_defs param_header_defs unat_of_nat_u16 bytes_slice_def)
qed (auto simp: wire_defs param_header_defs and_then_eq_Ok split: if_splits dest: param_header_fits slice_OkD)

interpretation supported_extensions: param_codec
  param_supported_extensions_unmarshal param_supported_extensions_marshal_to
  param_supported_extensions_value_length "\<lambda>_. 32776" "\<lambda>c. value_fits (length c)"
proof (unfold_locales, goal_cases)
  case (5 p m rest)
  then show ?case
    using param_header_roundtrip [of PT_SupportedExt "length p" "p @ rest"]
    by (auto simp: wire_defs param_header_defs unat_of_nat_u16 bytes_slice_def)
qed (auto simp: wire_defs param_header_defs and_then_eq_Ok dest: param_header_fits slice_OkD)

interpretation requested_hmac_algorithm: param_codec
  param_requested_hmac_algorithm_unmarshal param_requested_hmac_algorithm_marshal_to
  param_requested_hmac_algorithm_value_length "\<lambda>_. 32772"
  "\<lambda>as. value_fits (2 * length as) \<and> set as \<subseteq> {HmacSha128, HmacSha256}"
proof (unfold_locales, goal_cases)
  case (1 raw)
  show ?case
    by (auto simp: wire_defs param_header_defs intro!: read_hmac_no_panic
        dest!: param_header_fits slice_OkD)
next
  case (5 p m rest)
  then show ?case
    using param_header_roundtrip [of PT_ReqHmacAlgo "2 * length p"
        "concat (map (\<lambda>a. put_u16 (u16_of_hmac_algorithm a)) p) @ rest"]
    using read_hmac_put [of p 0 "[]"] unat_of_nat_u16 [of "2 * length p"]
    by (auto simp: wire_defs param_header_defs bytes_slice_def length_concat_put_u16)
qed (auto simp: wire_defs param_header_defs and_then_eq_Ok length_concat_put_u16
    dest!: param_header_fits slice_OkD read_hmac_length)

text \<open>param\_outgoing\_reset\_request.rs\<close>

record outgoing_reset_request =
  reconfig_request_sequence_number :: u32
  orr_reconfig_response_sequence_number :: u32
  sender_last_tsn :: u32
  stream_identifiers :: "u16 list"

definition PARAM_OUTGOING_RESET_REQUEST_STREAM_IDENTIFIERS_OFFSET :: nat where
  "PARAM_OUTGOING_RESET_REQUEST_STREAM_IDENTIFIERS_OFFSET = 12"

fun read_u16s :: "nat \<Rightarrow> bytes \<Rightarrow> u16 list outcome" where
  "read_u16s 0 reader = Ok []"
| "read_u16s (Suc n) reader =
     and_then (get_u16 reader) (\<lambda>(v, reader).
     and_then (read_u16s n reader) (\<lambda>vs. Ok (v # vs)))"

definition param_outgoing_reset_request_value_length :: "outgoing_reset_request \<Rightarrow> nat" where
  "param_outgoing_reset_request_value_length p =
     PARAM_OUTGOING_RESET_REQUEST_STREAM_IDENTIFIERS_OFFSET + length (stream_identifiers p) * 2"

definition param_outgoing_reset_request_header :: "outgoing_reset_request \<Rightarrow> param_header" where
  "param_outgoing_reset_request_header p =
     \<lparr>ph_typ = PT_OutSsnResetReq,
      ph_value_length = of_nat (param_outgoing_reset_request_value_length p)\<rparr>"

definition param_outgoing_reset_request_unmarshal :: "bytes \<Rightarrow> outgoing_reset_request outcome" where
  "param_outgoing_reset_request_unmarshal raw =
     and_then (param_header_unmarshal raw) (\<lambda>header.
       if param_header_value_length header < PARAM_OUTGOING_RESET_REQUEST_STREAM_IDENTIFIERS_OFFSET
       then Err ErrSsnResetRequestParamTooShort
       else
         and_then (bytes_slice raw PARAM_HEADER_LENGTH
                     (PARAM_HEADER_LENGTH + param_header_value_length header)) (\<lambda>reader.
         and_then (get_u32 reader) (\<lambda>(req, reader).
         and_then (get_u32 reader) (\<lambda>(resp, reader).
         and_then (get_u32 reader) (\<lambda>(last, reader).
           let lim = (param_header_value_length header
                        - PARAM_OUTGOING_RESET_REQUEST_STREAM_IDENTIFIERS_OFFSET) div 2 in
         and_then (read_u16s lim reader) (\<lambda>ids.
           Ok \<lparr>reconfig_request_sequence_number = req,
               orr_reconfig_response_sequence_number = resp,
               sender_last_tsn = last,
               stream_identifiers = ids\<rparr>))))))"

definition param_outgoing_reset_request_marshal_to ::
  "outgoing_reset_request \<Rightarrow> bytes \<Rightarrow> bytes outcome" where
  "param_outgoing_reset_request_marshal_to p buf =
     and_then (param_header_marshal_to (param_outgoing_reset_request_header p) buf) (\<lambda>buf.
       Ok (buf @ put_u32 (reconfig_request_sequence_number p)
             @ put_u32 (orr_reconfig_response_sequence_number p)
             @ put_u32 (sender_last_tsn p)
             @ concat (map put_u16 (stream_identifiers p))))"

text \<open>param\_reconfig\_response.rs\<close>

record reconfig_response =
  rr_reconfig_response_sequence_number :: u32
  rr_result :: reconfig_result

definition param_reconfig_response_value_length :: "reconfig_response \<Rightarrow> nat" where
  "param_reconfig_response_value_length p = 8"

definition param_reconfig_response_header :: "reconfig_response \<Rightarrow> param_header" where
  "param_reconfig_response_header p =
     \<lparr>ph_typ = PT_ReconfigResp, ph_value_length = of_nat (param_reconfig_response_value_length p)\<rparr>"

definition param_reconfig_response_unmarshal :: "bytes \<Rightarrow> reconfig_response outcome" where
  "param_reconfig_response_unmarshal raw =
     and_then (param_header_unmarshal raw) (\<lambda>header.
       if ph_value_length header < 8 then Err ErrReconfigRespParamTooShort
       else
         and_then (bytes_slice raw PARAM_HEADER_LENGTH
                     (PARAM_HEADER_LENGTH + param_header_value_length header)) (\<lambda>reader.
         and_then (get_u32 reader) (\<lambda>(sn, reader).
         and_then (get_u32 reader) (\<lambda>(result, reader).
           Ok \<lparr>rr_reconfig_response_sequence_number = sn,
               rr_result = reconfig_result_of_u32 result\<rparr>))))"

definition param_reconfig_response_marshal_to :: "reconfig_response \<Rightarrow> bytes \<Rightarrow> bytes outcome" where
  "param_reconfig_response_marshal_to p buf =
     and_then (param_header_marshal_to (param_reconfig_response_header p) buf) (\<lambda>buf.
       Ok (buf @ put_u32 (rr_reconfig_response_sequence_number p)
             @ put_u32 (u32_of_reconfig_result (rr_result p))))"

text \<open>param\_unknown.rs: the type code and the value of a parameter without a name.\<close>

definition param_unknown_value_length :: "u16 \<times> bytes \<Rightarrow> nat" where
  "param_unknown_value_length p = length (snd p)"

definition param_unknown_header :: "u16 \<times> bytes \<Rightarrow> param_header" where
  "param_unknown_header p =
     \<lparr>ph_typ = PT_Unknown (fst p), ph_value_length = of_nat (length (snd p))\<rparr>"

definition param_unknown_unmarshal :: "bytes \<Rightarrow> (u16 \<times> bytes) outcome" where
  "param_unknown_unmarshal raw =
     and_then (param_header_unmarshal raw) (\<lambda>header.
     and_then (bytes_slice raw PARAM_HEADER_LENGTH
                 (PARAM_HEADER_LENGTH + param_header_value_length header)) (\<lambda>value.
       Ok (u16_of_param_type (ph_typ header), value)))"

definition param_unknown_marshal_to :: "u16 \<times> bytes \<Rightarrow> bytes \<Rightarrow> bytes outcome" where
  "param_unknown_marshal_to p buf =
     and_then (param_header_marshal_to (param_unknown_header p) buf) (\<lambda>buf. Ok (buf @ snd p))"

lemmas [wire_defs] =
  param_outgoing_reset_request_value_length_def param_outgoing_reset_request_header_def
  param_outgoing_reset_request_unmarshal_def param_outgoing_reset_request_marshal_to_def
  PARAM_OUTGOING_RESET_REQUEST_STREAM_IDENTIFIERS_OFFSET_def
  param_reconfig_response_value_length_def param_reconfig_response_header_def
  param_reconfig_response_unmarshal_def param_reconfig_response_marshal_to_def
  param_unknown_value_length_def param_unknown_header_def
  param_unknown_unmarshal_def param_unknown_marshal_to_def

lemma read_u16s_no_panic: "2 * n \<le> length reader \<Longrightarrow> read_u16s n reader \<noteq> Panic"
proof (induction n arbitrary: reader)
  case (Suc n)
  then have "2 \<le> length reader" by simp
  then obtain v r where "get_u16 reader = Ok (v, r)" "length reader = length r + 2"
    by (rule get_u16_obtain)
  with Suc show ?case by simp
qed simp

lemma read_u16s_length: "read_u16s n reader = Ok ids \<Longrightarrow> length ids = n"
  by (induction n reader arbitrary: ids rule: read_u16s.induct)
    (auto simp: and_then_eq_Ok split: prod.splits)

lemma read_u16s_put [simp]: "read_u16s (length ids) (concat (map put_u16 ids) @ r) = Ok ids"
  by (induction ids) auto

lemma length_concat_put_u16s [simp]: "length (concat (map put_u16 xs)) = 2 * length xs"
  by (induction xs) auto

interpretation outgoing_reset_request: param_codec
  param_outgoing_reset_request_unmarshal param_outgoing_reset_request_marshal_to
  param_outgoing_reset_request_value_length "\<lambda>_. 13"
  "\<lambda>p. value_fits (12 + 2 * length (stream_identifiers p))"
proof (unfold_locales, goal_cases)
  case (1 raw)
  show ?case
    by (auto simp: wire_defs param_header_defs Let_def split: prod.splits intro!: read_u16s_no_panic
        dest!: param_header_fits slice_OkD get_u32_length)
next
  case (5 p m rest)
  then show ?case
    using read_u16s_put [of "stream_identifiers p" "[]"]
      param_header_roundtrip [of PT_OutSsnResetReq "12 + 2 * length (stream_identifiers p)"
        "put_u32 (reconfig_request_sequence_number p)
          @ put_u32 (orr_reconfig_response_sequence_number p)
          @ put_u32 (sender_last_tsn p)
          @ concat (map put_u16 (stream_identifiers p)) @ rest"]
      unat_of_nat_u16 [of "12 + 2 * length (stream_identifiers p)"]
    by (auto simp: wire_defs param_header_defs bytes_slice_def mult.commute)
qed (auto simp: wire_defs param_header_defs and_then_eq_Ok Let_def split: prod.splits if_splits
    dest!: param_header_fits slice_OkD read_u16s_length)

interpretation reconfig_response: param_codec
  param_reconfig_response_unmarshal param_reconfig_response_marshal_to
  param_reconfig_response_value_length "\<lambda>_. 16" "\<lambda>_. True"
proof (unfold_locales, goal_cases)
  case (1 raw)
  show ?case
    by (auto simp: wire_defs param_header_defs word_less_nat_alt split: prod.splits
        dest!: param_header_fits slice_OkD get_u32_length)
next
  case (5 p m rest)
  then show ?case
    using param_header_roundtrip [of PT_ReconfigResp 8
        "put_u32 (rr_reconfig_response_sequence_number p)
          @ put_u32 (u32_of_reconfig_result (rr_result p)) @ rest"]
    by (auto simp: wire_defs param_header_defs bytes_slice_def)
qed (auto simp: wire_defs param_header_defs and_then_eq_Ok word_less_nat_alt
    split: prod.splits if_splits dest!: param_header_fits slice_OkD)

interpretation unknown: param_codec
  param_unknown_unmarshal param_unknown_marshal_to param_unknown_value_length fst
  "\<lambda>p. value_fits (length (snd p))"
proof (unfold_locales, goal_cases)
  case (5 p m rest)
  then show ?case
    using param_header_unmarshal_put [of "length (snd p)" "snd p @ rest" "fst p"]
    by (auto simp: wire_defs param_header_defs unat_of_nat_u16 bytes_slice_def)
qed (auto simp: wire_defs param_header_defs and_then_eq_Ok dest!: param_header_fits slice_OkD)

section \<open>Trait objects and \<open>build_param\<close>\<close>

datatype param =
    ParamForwardTsnSupported
  | ParamSupportedExtensions "chunk_type list"
  | ParamRandom bytes
  | ParamRequestedHmacAlgorithm "hmac_algorithm list"
  | ParamChunkList "chunk_type list"
  | ParamStateCookie bytes
  | ParamHeartbeatInfo bytes
  | ParamOutgoingResetRequest outgoing_reset_request
  | ParamReconfigResponse reconfig_response
  | ParamUnknown "u16 \<times> bytes"
  | ParamUnrecognized param

definition build_param :: "bytes \<Rightarrow> param outcome" where
  "build_param raw_param =
     (if length raw_param < PARAM_HEADER_LENGTH then Err ErrParamHeaderTooShort
      else
        and_then (bytes_slice raw_param 0 2) (\<lambda>reader.
        and_then (get_u16 reader) (\<lambda>(raw_type, _).
          case param_type_of_u16 raw_type of
            PT_ForwardTsnSupp \<Rightarrow>
              and_then (param_forward_tsn_supported_unmarshal raw_param)
                (\<lambda>p. Ok ParamForwardTsnSupported)
          | PT_SupportedExt \<Rightarrow>
              and_then (param_supported_extensions_unmarshal raw_param)
                (\<lambda>p. Ok (ParamSupportedExtensions p))
          | PT_Random \<Rightarrow>
              and_then (param_random_unmarshal raw_param) (\<lambda>p. Ok (ParamRandom p))
          | PT_ReqHmacAlgo \<Rightarrow>
              and_then (param_requested_hmac_algorithm_unmarshal raw_param)
                (\<lambda>p. Ok (ParamRequestedHmacAlgorithm p))
          | PT_ChunkList \<Rightarrow>
              and_then (param_chunk_list_unmarshal raw_param) (\<lambda>p. Ok (ParamChunkList p))
          | PT_StateCookie \<Rightarrow>
              and_then (param_state_cookie_unmarshal raw_param) (\<lambda>p. Ok (ParamStateCookie p))
          | PT_HeartbeatInfo \<Rightarrow>
              and_then (param_heartbeat_info_unmarshal raw_param) (\<lambda>p. Ok (ParamHeartbeatInfo p))
          | PT_OutSsnResetReq \<Rightarrow>
              and_then (param_outgoing_reset_request_unmarshal raw_param)
                (\<lambda>p. Ok (ParamOutgoingResetRequest p))
          | PT_ReconfigResp \<Rightarrow>
              and_then (param_reconfig_response_unmarshal raw_param)
                (\<lambda>p. Ok (ParamReconfigResponse p))
          | _ \<Rightarrow>
              let stop_processing = (drop_bit 15 raw_type AND 1 = 0) in
              if stop_processing then Err (ErrParamTypeUnhandled raw_type)
              else and_then (param_unknown_unmarshal raw_param) (\<lambda>p. Ok (ParamUnknown p)))))"

text \<open>The trait's methods, dispatched on the object's type; param\_unrecognized.rs wraps another one.\<close>

fun param_value_length :: "param \<Rightarrow> nat" where
  "param_value_length ParamForwardTsnSupported = param_forward_tsn_supported_value_length ()"
| "param_value_length (ParamSupportedExtensions p) = param_supported_extensions_value_length p"
| "param_value_length (ParamRandom p) = param_random_value_length p"
| "param_value_length (ParamRequestedHmacAlgorithm p) = param_requested_hmac_algorithm_value_length p"
| "param_value_length (ParamChunkList p) = param_chunk_list_value_length p"
| "param_value_length (ParamStateCookie p) = param_state_cookie_value_length p"
| "param_value_length (ParamHeartbeatInfo p) = param_heartbeat_info_value_length p"
| "param_value_length (ParamOutgoingResetRequest p) = param_outgoing_reset_request_value_length p"
| "param_value_length (ParamReconfigResponse p) = param_reconfig_response_value_length p"
| "param_value_length (ParamUnknown p) = param_unknown_value_length p"
| "param_value_length (ParamUnrecognized p) = param_value_length p + PARAM_HEADER_LENGTH"

definition param_unrecognized_header :: "param \<Rightarrow> param_header" where
  "param_unrecognized_header p =
     \<lparr>ph_typ = PT_UnrecognizedParam,
      ph_value_length = of_nat (param_value_length (ParamUnrecognized p))\<rparr>"

fun param_header_of :: "param \<Rightarrow> param_header" where
  "param_header_of ParamForwardTsnSupported = param_forward_tsn_supported_header ()"
| "param_header_of (ParamSupportedExtensions p) = param_supported_extensions_header p"
| "param_header_of (ParamRandom p) = param_random_header p"
| "param_header_of (ParamRequestedHmacAlgorithm p) = param_requested_hmac_algorithm_header p"
| "param_header_of (ParamChunkList p) = param_chunk_list_header p"
| "param_header_of (ParamStateCookie p) = param_state_cookie_header p"
| "param_header_of (ParamHeartbeatInfo p) = param_heartbeat_info_header p"
| "param_header_of (ParamOutgoingResetRequest p) = param_outgoing_reset_request_header p"
| "param_header_of (ParamReconfigResponse p) = param_reconfig_response_header p"
| "param_header_of (ParamUnknown p) = param_unknown_header p"
| "param_header_of (ParamUnrecognized p) = param_unrecognized_header p"

fun param_marshal_to :: "param \<Rightarrow> bytes \<Rightarrow> bytes outcome" where
  "param_marshal_to ParamForwardTsnSupported buf = param_forward_tsn_supported_marshal_to () buf"
| "param_marshal_to (ParamSupportedExtensions p) buf = param_supported_extensions_marshal_to p buf"
| "param_marshal_to (ParamRandom p) buf = param_random_marshal_to p buf"
| "param_marshal_to (ParamRequestedHmacAlgorithm p) buf =
     param_requested_hmac_algorithm_marshal_to p buf"
| "param_marshal_to (ParamChunkList p) buf = param_chunk_list_marshal_to p buf"
| "param_marshal_to (ParamStateCookie p) buf = param_state_cookie_marshal_to p buf"
| "param_marshal_to (ParamHeartbeatInfo p) buf = param_heartbeat_info_marshal_to p buf"
| "param_marshal_to (ParamOutgoingResetRequest p) buf = param_outgoing_reset_request_marshal_to p buf"
| "param_marshal_to (ParamReconfigResponse p) buf = param_reconfig_response_marshal_to p buf"
| "param_marshal_to (ParamUnknown p) buf = param_unknown_marshal_to p buf"
| "param_marshal_to (ParamUnrecognized p) buf =
     and_then (param_header_marshal_to (param_unrecognized_header p) buf)
       (\<lambda>buf. param_marshal_to p buf)"

definition param_marshal :: "param \<Rightarrow> bytes outcome" where
  "param_marshal p = param_marshal_to p []"

text \<open>param\_unrecognized.rs, \<^verbatim>\<open>unmarshal\<close>: the wrapped parameter is built from the value.\<close>

definition param_unrecognized_unmarshal :: "bytes \<Rightarrow> param outcome" where
  "param_unrecognized_unmarshal raw =
     and_then (param_header_unmarshal raw) (\<lambda>header.
     and_then (bytes_slice raw PARAM_HEADER_LENGTH
                 (PARAM_HEADER_LENGTH + param_header_value_length header)) (\<lambda>raw_param.
     and_then (build_param raw_param) (\<lambda>p. Ok (ParamUnrecognized p))))"

text \<open>
  The parameters that \<^verbatim>\<open>build_param\<close> gives back: values that fit the length field, and no
  type code under \<open>ParamUnknown\<close> that has an implementation of its own or tells the receiver
  to stop.
\<close>

definition opaque_type_code :: "u16 \<Rightarrow> bool" where
  "opaque_type_code v \<longleftrightarrow> drop_bit 15 v AND 1 \<noteq> 0 \<and>
     param_type_of_u16 v \<notin> {PT_ForwardTsnSupp, PT_SupportedExt, PT_Random, PT_ReqHmacAlgo,
       PT_ChunkList, PT_StateCookie, PT_HeartbeatInfo, PT_OutSsnResetReq, PT_ReconfigResp}"

fun param_wf :: "param \<Rightarrow> bool" where
  "param_wf ParamForwardTsnSupported = True"
| "param_wf (ParamSupportedExtensions p) = value_fits (length p)"
| "param_wf (ParamRandom p) = value_fits (length p)"
| "param_wf (ParamRequestedHmacAlgorithm p) =
     (value_fits (2 * length p) \<and> set p \<subseteq> {HmacSha128, HmacSha256})"
| "param_wf (ParamChunkList p) = value_fits (length p)"
| "param_wf (ParamStateCookie p) = value_fits (length p)"
| "param_wf (ParamHeartbeatInfo p) = value_fits (length p)"
| "param_wf (ParamOutgoingResetRequest p) = value_fits (12 + 2 * length (stream_identifiers p))"
| "param_wf (ParamReconfigResponse p) = True"
| "param_wf (ParamUnknown p) = (value_fits (length (snd p)) \<and> opaque_type_code (fst p))"
| "param_wf (ParamUnrecognized p) = False"

fun param_typ_code :: "param \<Rightarrow> u16" where
  "param_typ_code (ParamUnknown p) = fst p"
| "param_typ_code p = u16_of_param_type (ph_typ (param_header_of p))"

lemmas param_codecs_no_panic =
  forward_tsn_supported.no_panic supported_extensions.no_panic random.no_panic
  requested_hmac_algorithm.no_panic chunk_list.no_panic state_cookie.no_panic
  heartbeat_info.no_panic outgoing_reset_request.no_panic reconfig_response.no_panic
  unknown.no_panic

lemmas param_codecs_fit =
  forward_tsn_supported.fits supported_extensions.fits random.fits
  requested_hmac_algorithm.fits chunk_list.fits state_cookie.fits
  heartbeat_info.fits outgoing_reset_request.fits reconfig_response.fits unknown.fits

lemma build_param_no_panic: "build_param raw \<noteq> Panic"
  by (auto simp: build_param_def Let_def param_codecs_no_panic bytes_slice_def
      split: param_type.splits prod.splits)

text \<open>One case per implementation: what an accepted \<open>build_param\<close> means.\<close>

inductive param_decoded :: "bytes \<Rightarrow> param \<Rightarrow> bool" where
  "param_forward_tsn_supported_unmarshal raw = Ok u \<Longrightarrow> param_decoded raw ParamForwardTsnSupported"
| "param_supported_extensions_unmarshal raw = Ok a \<Longrightarrow> param_decoded raw (ParamSupportedExtensions a)"
| "param_random_unmarshal raw = Ok b \<Longrightarrow> param_decoded raw (ParamRandom b)"
| "param_requested_hmac_algorithm_unmarshal raw = Ok c \<Longrightarrow>
    param_decoded raw (ParamRequestedHmacAlgorithm c)"
| "param_chunk_list_unmarshal raw = Ok a \<Longrightarrow> param_decoded raw (ParamChunkList a)"
| "param_state_cookie_unmarshal raw = Ok b \<Longrightarrow> param_decoded raw (ParamStateCookie b)"
| "param_heartbeat_info_unmarshal raw = Ok b \<Longrightarrow> param_decoded raw (ParamHeartbeatInfo b)"
| "param_outgoing_reset_request_unmarshal raw = Ok d \<Longrightarrow>
    param_decoded raw (ParamOutgoingResetRequest d)"
| "param_reconfig_response_unmarshal raw = Ok e \<Longrightarrow> param_decoded raw (ParamReconfigResponse e)"
| "param_unknown_unmarshal raw = Ok f \<Longrightarrow> param_decoded raw (ParamUnknown f)"

lemma build_param_decoded:
  assumes "build_param raw = Ok p"
  shows "param_decoded raw p"
proof -
  obtain v r where v: "get_u16 (take 2 raw) = Ok (v, r)" and n: "4 \<le> length raw"
    using assms by (auto simp: build_param_def and_then_eq_Ok bytes_slice_def split: if_splits)
  show ?thesis
    using assms n
    by (cases "param_type_of_u16 v")
      (auto simp: build_param_def bytes_slice_def v Let_def and_then_eq_Ok
        split: if_splits intro: param_decoded.intros)
qed

lemma build_param_fits: "build_param raw = Ok p \<Longrightarrow> 4 + param_value_length p \<le> length raw"
  by (drule build_param_decoded, erule param_decoded.cases) (drule param_codecs_fit, simp)+

lemmas param_type_of_u16_eval =
  param_type_of_u16_def [of 1] param_type_of_u16_def [of 7] param_type_of_u16_def [of 13]
  param_type_of_u16_def [of 16] param_type_of_u16_def [of 32770] param_type_of_u16_def [of 32771]
  param_type_of_u16_def [of 32772] param_type_of_u16_def [of 32776]
  param_type_of_u16_def [of 49152]

lemma build_param_type_bytes:
  "2 \<le> length b \<Longrightarrow> and_then (bytes_slice (put_u16 v @ b) 0 2) get_u16 = Ok (v, [])"
  by (simp add: bytes_slice_def)

lemma build_param_opaque:
  assumes "opaque_type_code v" and "2 \<le> length b"
  shows "build_param (put_u16 v @ b) =
    and_then (param_unknown_unmarshal (put_u16 v @ b)) (\<lambda>p. Ok (ParamUnknown p))"
  using assms
  by (cases "param_type_of_u16 v") (auto simp: build_param_def bytes_slice_def opaque_type_code_def)

lemmas param_marshal_lengths =
  forward_tsn_supported.total supported_extensions.total random.total
  requested_hmac_algorithm.total chunk_list.total state_cookie.total heartbeat_info.total
  outgoing_reset_request.total reconfig_response.total unknown.total

lemmas param_codecs_append =
  forward_tsn_supported.appends supported_extensions.appends random.appends
  requested_hmac_algorithm.appends chunk_list.appends state_cookie.appends heartbeat_info.appends
  outgoing_reset_request.appends reconfig_response.appends unknown.appends

lemma param_marshal_appends:
  "param_marshal_to p w = and_then (param_marshal_to p []) (\<lambda>m. Ok (w @ m))"
proof (induction p arbitrary: w)
  case (ParamUnrecognized p)
  let ?h = "put_u16 (u16_of_param_type (ph_typ (param_unrecognized_header p))) @
    put_u16 (ph_value_length (param_unrecognized_header p) + of_nat PARAM_HEADER_LENGTH)"
  have "param_marshal_to (ParamUnrecognized p) w = param_marshal_to p (w @ ?h)" for w
    by (simp add: param_header_marshal_to_def)
  then show ?case
    using ParamUnrecognized [of "w @ ?h"] ParamUnrecognized [of ?h]
    by (cases "param_marshal_to p []") simp_all
qed (simp_all only: param_marshal_to.simps, (rule param_codecs_append)+)

lemma param_marshal_total:
  "\<exists>b. param_marshal_to p [] = Ok (put_u16 (param_typ_code p) @ b) \<and>
    length b = 2 + param_value_length p"
proof (induction p)
  case (ParamUnrecognized p)
  then obtain b where "param_marshal_to p [] = Ok (put_u16 (param_typ_code p) @ b)"
    and "length b = 2 + param_value_length p" by blast
  then show ?case
    by (simp add: param_header_marshal_to_def param_unrecognized_header_def param_marshal_appends [of p "_ # _"]
        param_marshal_appends [of p "_ @ _"])
next
  case ParamForwardTsnSupported
  then show ?case using forward_tsn_supported.total [of "()"] by (simp add: wire_defs)
next
  case (ParamSupportedExtensions x)
  then show ?case using supported_extensions.total [of x] by (simp add: wire_defs)
next
  case (ParamRandom x)
  then show ?case using random.total [of x] by (simp add: wire_defs)
next
  case (ParamRequestedHmacAlgorithm x)
  then show ?case using requested_hmac_algorithm.total [of x] by (simp add: wire_defs)
next
  case (ParamChunkList x)
  then show ?case using chunk_list.total [of x] by (simp add: wire_defs)
next
  case (ParamStateCookie x)
  then show ?case using state_cookie.total [of x] by (simp add: wire_defs)
next
  case (ParamHeartbeatInfo x)
  then show ?case using heartbeat_info.total [of x] by (simp add: wire_defs)
next
  case (ParamOutgoingResetRequest x)
  then show ?case using outgoing_reset_request.total [of x] by (simp add: wire_defs)
next
  case (ParamReconfigResponse x)
  then show ?case using reconfig_response.total [of x] by (simp add: wire_defs)
next
  case (ParamUnknown x)
  then show ?case using unknown.total [of x] by simp
qed

text \<open>
  A well-formed parameter comes back: the type bytes send \<^verbatim>\<open>build_param\<close> to the
  implementation that wrote them.
\<close>

context param_codec begin

lemma dispatch:
  assumes "wf p" and "marshal_to p [] = Ok m"
    and "\<And>b. 2 \<le> length b \<Longrightarrow>
      build (put_u16 (typ_code p) @ b) = and_then (unmarshal (put_u16 (typ_code p) @ b)) f"
  shows "build (m @ rest) = f p"
proof -
  obtain b where b: "m = put_u16 (typ_code p) @ b" and n: "2 \<le> length b"
    using total [of p] assms(2) by auto
  have "build (put_u16 (typ_code p) @ b @ rest) = and_then (unmarshal (put_u16 (typ_code p) @ b @ rest)) f"
    using n by (intro assms(3)) simp
  then show ?thesis
    using roundtrip [OF assms(1,2), of rest] by (simp add: b)
qed

end

lemma build_param_known:
  assumes "2 \<le> length b"
  shows
    "build_param (put_u16 49152 @ b) =
      and_then (param_forward_tsn_supported_unmarshal (put_u16 49152 @ b)) (\<lambda>_. Ok ParamForwardTsnSupported)"
    "build_param (put_u16 32776 @ b) =
      and_then (param_supported_extensions_unmarshal (put_u16 32776 @ b)) (\<lambda>p. Ok (ParamSupportedExtensions p))"
    "build_param (put_u16 32770 @ b) =
      and_then (param_random_unmarshal (put_u16 32770 @ b)) (\<lambda>p. Ok (ParamRandom p))"
    "build_param (put_u16 32772 @ b) =
      and_then (param_requested_hmac_algorithm_unmarshal (put_u16 32772 @ b)) (\<lambda>p. Ok (ParamRequestedHmacAlgorithm p))"
    "build_param (put_u16 32771 @ b) =
      and_then (param_chunk_list_unmarshal (put_u16 32771 @ b)) (\<lambda>p. Ok (ParamChunkList p))"
    "build_param (put_u16 7 @ b) =
      and_then (param_state_cookie_unmarshal (put_u16 7 @ b)) (\<lambda>p. Ok (ParamStateCookie p))"
    "build_param (put_u16 1 @ b) =
      and_then (param_heartbeat_info_unmarshal (put_u16 1 @ b)) (\<lambda>p. Ok (ParamHeartbeatInfo p))"
    "build_param (put_u16 13 @ b) =
      and_then (param_outgoing_reset_request_unmarshal (put_u16 13 @ b)) (\<lambda>p. Ok (ParamOutgoingResetRequest p))"
    "build_param (put_u16 16 @ b) =
      and_then (param_reconfig_response_unmarshal (put_u16 16 @ b)) (\<lambda>p. Ok (ParamReconfigResponse p))"
  using assms by (simp_all add: build_param_def bytes_slice_def param_type_of_u16_eval)

lemma build_param_marshal:
  assumes "param_wf p" and "param_marshal_to p [] = Ok m"
  shows "build_param (m @ rest) = Ok p"
proof (cases p)
  case ParamForwardTsnSupported
  then show ?thesis
    using assms forward_tsn_supported.dispatch [of "()" m build_param "\<lambda>_. Ok ParamForwardTsnSupported" rest]
    by (simp add: build_param_known)
next
  case (ParamSupportedExtensions x)
  then show ?thesis
    using assms supported_extensions.dispatch [of "x" m build_param "\<lambda>p. Ok (ParamSupportedExtensions p)" rest]
    by (simp add: build_param_known)
next
  case (ParamRandom x)
  then show ?thesis
    using assms random.dispatch [of "x" m build_param "\<lambda>p. Ok (ParamRandom p)" rest]
    by (simp add: build_param_known)
next
  case (ParamRequestedHmacAlgorithm x)
  then show ?thesis
    using assms requested_hmac_algorithm.dispatch [of "x" m build_param "\<lambda>p. Ok (ParamRequestedHmacAlgorithm p)" rest]
    by (simp add: build_param_known)
next
  case (ParamChunkList x)
  then show ?thesis
    using assms chunk_list.dispatch [of "x" m build_param "\<lambda>p. Ok (ParamChunkList p)" rest]
    by (simp add: build_param_known)
next
  case (ParamStateCookie x)
  then show ?thesis
    using assms state_cookie.dispatch [of "x" m build_param "\<lambda>p. Ok (ParamStateCookie p)" rest]
    by (simp add: build_param_known)
next
  case (ParamHeartbeatInfo x)
  then show ?thesis
    using assms heartbeat_info.dispatch [of "x" m build_param "\<lambda>p. Ok (ParamHeartbeatInfo p)" rest]
    by (simp add: build_param_known)
next
  case (ParamOutgoingResetRequest x)
  then show ?thesis
    using assms outgoing_reset_request.dispatch [of "x" m build_param "\<lambda>p. Ok (ParamOutgoingResetRequest p)" rest]
    by (simp add: build_param_known)
next
  case (ParamReconfigResponse x)
  then show ?thesis
    using assms reconfig_response.dispatch [of "x" m build_param "\<lambda>p. Ok (ParamReconfigResponse p)" rest]
    by (simp add: build_param_known)
next
  case (ParamUnknown x)
  then show ?thesis
    using assms unknown.dispatch [of x m build_param "\<lambda>p. Ok (ParamUnknown p)" rest]
    by (simp add: build_param_opaque)
qed (use assms in simp)

interpretation param: param_codec
  build_param param_marshal_to param_value_length param_typ_code param_wf
  by unfold_locales
    (rule build_param_no_panic build_param_fits param_marshal_appends param_marshal_total
      build_param_marshal; assumption?)+

end
