(* ===== verification/Chunk_Header.thy ===== *)
theory Chunk_Header
  imports Param
begin

text \<open>
  The chunk header (src/src/chunk/chunk\_header.rs), the contract \<open>chunk_codec\<close> of an
  \<^verbatim>\<open>impl Chunk\<close> (src/src/chunk/mod.rs) and the error causes of src/src/error\_cause.rs.
\<close>

section \<open>The chunk header\<close>

record chunk_header =
  ch_typ :: chunk_type
  ch_flags :: u8
  ch_value_length :: u16

definition CHUNK_HEADER_SIZE :: nat where
  "CHUNK_HEADER_SIZE = 4"

lemma chunk_header_size_eq [simp]: "CHUNK_HEADER_SIZE = 4"
  by (simp add: CHUNK_HEADER_SIZE_def)

text \<open>The loop over the padding bytes, from the last one down.\<close>

fun chunk_header_padding :: "bytes \<Rightarrow> nat \<Rightarrow> nat \<Rightarrow> unit outcome" where
  "chunk_header_padding raw value_length 0 = Ok ()"
| "chunk_header_padding raw value_length (Suc i) =
     (let padding_offset = CHUNK_HEADER_SIZE + (value_length + Suc i - 1) in
      if length raw \<le> padding_offset then Panic
      else if raw ! padding_offset \<noteq> 0 then Err ErrChunkHeaderPaddingNonZero
      else chunk_header_padding raw value_length i)"

definition chunk_header_unmarshal :: "bytes \<Rightarrow> chunk_header outcome" where
  "chunk_header_unmarshal raw =
     (if length raw < CHUNK_HEADER_SIZE then Err ErrChunkHeaderTooSmall
      else
        and_then (get_u8 raw) (\<lambda>(typ, reader).
        and_then (get_u8 reader) (\<lambda>(flags, reader).
        and_then (get_u16 reader) (\<lambda>(len, reader).
          if unat len < CHUNK_HEADER_SIZE then Err ErrChunkHeaderInvalidLength
          else if unat len > length raw then Err ErrChunkHeaderInvalidLength
          else
            let value_length = int (unat len) - int CHUNK_HEADER_SIZE;
                length_after_value = int (length raw) - int (unat len);
                header = \<lparr>ch_typ = typ, ch_flags = flags,
                          ch_value_length = len - of_nat CHUNK_HEADER_SIZE\<rparr> in
            if length_after_value < 0 then Err ErrChunkHeaderNotEnoughSpace
            else if length_after_value < 4
            then and_then (chunk_header_padding raw (nat value_length) (nat length_after_value))
                   (\<lambda>_. Ok header)
            else Ok header))))"

definition chunk_header_value_length :: "chunk_header \<Rightarrow> nat" where
  "chunk_header_value_length h = unat (ch_value_length h)"

definition chunk_header_marshal_to :: "chunk_header \<Rightarrow> bytes \<Rightarrow> bytes outcome" where
  "chunk_header_marshal_to h writer =
     Ok (writer @ [ch_typ h, ch_flags h]
           @ put_u16 (ch_value_length h + of_nat CHUNK_HEADER_SIZE))"

lemma chunk_header_padding_no_panic:
  "4 + value_length + i \<le> length raw \<Longrightarrow> chunk_header_padding raw value_length i \<noteq> Panic"
  by (induction i) (auto simp: Let_def)

lemma chunk_header_padding_zero:
  "(\<And>j. j < i \<Longrightarrow> 4 + (value_length + j) < length raw \<and> raw ! (4 + (value_length + j)) = 0) \<Longrightarrow>
    chunk_header_padding raw value_length i = Ok ()"
  by (induction i) (auto simp: Let_def not_le [symmetric])

text \<open>The signed length arithmetic, as natural numbers.\<close>

lemma chunk_header_unmarshal_nat:
  "chunk_header_unmarshal raw =
    (if length raw < 4 then Err ErrChunkHeaderTooSmall
     else
       and_then (get_u8 raw) (\<lambda>(typ, reader).
       and_then (get_u8 reader) (\<lambda>(flags, reader).
       and_then (get_u16 reader) (\<lambda>(len, reader).
         let n = unat len;
             header = \<lparr>ch_typ = typ, ch_flags = flags, ch_value_length = len - 4\<rparr> in
         if n < 4 \<or> n > length raw then Err ErrChunkHeaderInvalidLength
         else if length raw - n < 4
         then and_then (chunk_header_padding raw (n - 4) (length raw - n)) (\<lambda>_. Ok header)
         else Ok header))))"
proof -
  have "nat (int n - 4) = n - 4" "nat (int k - int n) = k - n"
      "\<not> k < n \<Longrightarrow> int k - int n < 4 \<longleftrightarrow> k - n < 4" "\<not> k < n \<Longrightarrow> \<not> int k - int n < 0" for n k
    by auto
  then show ?thesis
    by (auto simp: chunk_header_unmarshal_def Let_def simp del: of_nat_unat
        intro!: and_then_cong split: prod.splits)
qed

lemma chunk_header_no_panic [simp]: "chunk_header_unmarshal raw \<noteq> Panic"
  by (auto simp: chunk_header_unmarshal_nat Let_def not_less split: prod.splits
      dest!: get_length intro!: chunk_header_padding_no_panic)

lemma unat_minus_4: "4 \<le> unat l \<Longrightarrow> unat (l - 4 :: u16) = unat l - 4"
  by (simp add: unat_diff_if)

text \<open>What an accepted header says: its type byte, and a value that lies inside the buffer.\<close>

lemma chunk_header_unmarshal_OkD:
  assumes "chunk_header_unmarshal raw = Ok h"
  shows "4 + chunk_header_value_length h \<le> length raw \<and> hd raw = ch_typ h \<and> raw \<noteq> []"
proof (cases raw)
  case (Cons t r)
  with assms show ?thesis
    by (auto simp: chunk_header_unmarshal_nat chunk_header_value_length_def Let_def not_less
        and_then_eq_Ok unat_minus_4 split: if_splits prod.splits)
qed (use assms in \<open>simp add: chunk_header_unmarshal_nat\<close>)

lemma unat_add_of_nat_u16:
  "numeral k + n < (65536 :: nat) \<Longrightarrow> unat (numeral k + of_nat n :: u16) = numeral k + n"
  using unat_of_nat_u16 [of "numeral k + n"] by simp

text \<open>A chunk's own bytes, with the zero padding the sender adds, in front of what follows.\<close>

definition padding :: "nat \<Rightarrow> bytes" where
  "padding n = replicate (get_padding_size n) 0"

lemma length_padding [simp]: "length (padding n) = get_padding_size n"
  by (simp add: padding_def)

definition follows :: "bool \<Rightarrow> bytes \<Rightarrow> bool" where
  "follows bundles rest \<longleftrightarrow> rest = [] \<or> (bundles \<and> 4 \<le> length rest)"

lemma chunk_header_unmarshal_put:
  assumes n: "length body = n" "n + 4 < 65536" and f: "follows b rest"
  shows "chunk_header_unmarshal
      (t # fl # put_u16 (of_nat n + 4) @ body @ padding (4 + n) @ rest) =
    Ok \<lparr>ch_typ = t, ch_flags = fl, ch_value_length = of_nat n\<rparr>"
proof -
  let ?raw = "t # fl # put_u16 (of_nat n + 4) @ body @ padding (4 + n) @ rest"
  have "(of_nat n + 4 :: u16) = of_nat (n + 4)" by simp
  then have u: "unat (of_nat n + 4 :: u16) = n + 4"
    using n by (simp only: unat_of_nat_u16)
  have pad: "chunk_header_padding ?raw n (get_padding_size (4 + n)) = Ok ()" if "rest = []"
    by (rule chunk_header_padding_zero)
      (use that n in \<open>auto simp: nth_append nth_Cons' padding_def put_u16_def\<close>)
  have "get_u16 (put_u16 (of_nat n + 4) @ body @ padding (4 + n) @ rest) =
      Ok (of_nat n + 4, body @ padding (4 + n) @ rest)"
    by (rule get_put)
  then show ?thesis
    using f n pad get_padding_size_less [of "4 + n"]
    by (auto simp: chunk_header_unmarshal_nat u Let_def follows_def)
qed

text \<open>The two things a decoder needs of an encoding: its header is accepted, its value is there.\<close>

lemma chunk_encoded:
  assumes "m = t # fl # put_u16 (of_nat n + 4) @ body" and "length body = n" and "n + 4 < 65536"
    and "follows b rest"
  shows "chunk_header_unmarshal (m @ padding (length m) @ rest) =
      Ok \<lparr>ch_typ = t, ch_flags = fl, ch_value_length = of_nat n\<rparr>"
    and "bytes_slice (m @ padding (length m) @ rest) 4 (4 + n) = Ok body"
    and "chunk_header_value_length \<lparr>ch_typ = t, ch_flags = fl, ch_value_length = of_nat n\<rparr> = n"
proof -
  have l: "length m = 4 + n" using assms by simp
  show "chunk_header_unmarshal (m @ padding (length m) @ rest) =
      Ok \<lparr>ch_typ = t, ch_flags = fl, ch_value_length = of_nat n\<rparr>"
    using chunk_header_unmarshal_put [of body n b rest t fl] assms unfolding l by simp
qed (use assms in \<open>simp_all add: bytes_slice_def chunk_header_value_length_def unat_of_nat_u16\<close>)

section \<open>The contract of a chunk\<close>

text \<open>
  What \<^verbatim>\<open>Packet\<close> relies on: a decoded chunk lies inside the buffer and has the type of its
  first byte, encoding appends \<open>4 + value_length\<close> bytes, and decoding the padded encoding
  of a well-formed chunk gives back what the receiver can see of it.  Some decoders read
  to the end of the buffer instead of the end of the chunk: theirs is the weaker round
  trip of a chunk that is the last one of its packet (\<open>bundles\<close> is false).
\<close>

locale chunk_codec =
  fixes unmarshal :: "bytes \<Rightarrow> 'c outcome"
    and marshal_to :: "'c \<Rightarrow> bytes \<Rightarrow> bytes outcome"
    and value_length :: "'c \<Rightarrow> nat"
    and type_of :: "'c \<Rightarrow> chunk_type"
    and wf :: "'c \<Rightarrow> bool"
    and bundles :: "'c \<Rightarrow> bool"
    and view :: "'c \<Rightarrow> 'c"
  assumes fits: "unmarshal raw = Ok c \<Longrightarrow> 4 + value_length c \<le> length raw"
    and typ_byte: "unmarshal raw = Ok c \<Longrightarrow> hd raw = type_of c"
    and appends: "marshal_to c w = and_then (marshal_to c []) (\<lambda>m. Ok (w @ m))"
    and total: "wf c \<Longrightarrow> \<exists>b. marshal_to c [] = Ok (type_of c # b) \<and> length b = 3 + value_length c"
    and roundtrip: "wf c \<Longrightarrow> marshal_to c [] = Ok m \<Longrightarrow> follows (bundles c) rest \<Longrightarrow>
      unmarshal (m @ padding (length m) @ rest) = Ok (view c)"
    and view_length: "value_length (view c) = value_length c"
begin

lemma marshal_obtain:
  assumes "wf c"
  obtains m where "marshal_to c [] = Ok m" and "length m = 4 + value_length c" and "hd m = type_of c"
    and "m \<noteq> []"
  using total [OF assms] by auto

lemma marshal_length: "wf c \<Longrightarrow> marshal_to c [] = Ok m \<Longrightarrow> length m = 4 + value_length c"
  using total [of c] by auto

lemma marshal_padded_dvd:
  "wf c \<Longrightarrow> marshal_to c [] = Ok m \<Longrightarrow> 4 dvd length (m @ padding (length m))"
  by (simp add: get_padding_size_dvd)

text \<open>The receiver's padding, computed from the value length, is the sender's.\<close>

lemma padding_agrees:
  "wf c \<Longrightarrow> marshal_to c [] = Ok m \<Longrightarrow>
    get_padding_size (value_length (view c)) = get_padding_size (length m)"
  using get_padding_size_add_dvd [of 4] by (simp add: marshal_length view_length)

text \<open>How a decoder that picks the implementation by the first byte sees an encoded chunk.\<close>

lemma dispatch:
  assumes "wf c" and "marshal_to c [] = Ok m" and "follows (bundles c) rest"
    and "\<And>b. build (type_of c # b) = and_then (unmarshal (type_of c # b)) f"
  shows "build (m @ padding (length m) @ rest) = f (view c)"
proof -
  obtain b where b: "m = type_of c # b" using total [OF assms(1)] assms(2) by auto
  show ?thesis
    using roundtrip [OF assms(1-3)] assms(4) [of "b @ padding (length m) @ rest"] by (simp add: b)
qed

end

section \<open>Error causes\<close>

record error_cause =
  ec_code :: u16
  ec_raw :: bytes

definition ERROR_CAUSE_HEADER_LENGTH :: nat where
  "ERROR_CAUSE_HEADER_LENGTH = 4"

lemma error_cause_header_length_eq [simp]: "ERROR_CAUSE_HEADER_LENGTH = 4"
  by (simp add: ERROR_CAUSE_HEADER_LENGTH_def)

definition UNRECOGNIZED_CHUNK_TYPE :: u16 where "UNRECOGNIZED_CHUNK_TYPE = 6"
definition INVALID_MANDATORY_PARAMETER :: u16 where "INVALID_MANDATORY_PARAMETER = 7"
definition USER_INITIATED_ABORT :: u16 where "USER_INITIATED_ABORT = 12"
definition PROTOCOL_VIOLATION :: u16 where "PROTOCOL_VIOLATION = 13"

definition error_cause_unmarshal :: "bytes \<Rightarrow> error_cause outcome" where
  "error_cause_unmarshal buf =
     (if length buf < ERROR_CAUSE_HEADER_LENGTH then Err ErrErrorCauseTooSmall
      else
        and_then (get_u16 buf) (\<lambda>(code, reader).
        and_then (get_u16 reader) (\<lambda>(len, reader).
          if unat len < ERROR_CAUSE_HEADER_LENGTH then Err ErrErrorCauseTooSmall
          else if length buf < unat len then Err ErrErrorCauseTooSmall
          else
            let value_length = unat len - ERROR_CAUSE_HEADER_LENGTH in
            and_then (bytes_slice buf ERROR_CAUSE_HEADER_LENGTH
                        (ERROR_CAUSE_HEADER_LENGTH + value_length))
              (\<lambda>raw. Ok \<lparr>ec_code = code, ec_raw = raw\<rparr>))))"

definition error_cause_length :: "error_cause \<Rightarrow> nat" where
  "error_cause_length e = length (ec_raw e) + ERROR_CAUSE_HEADER_LENGTH"

definition error_cause_marshal_to :: "error_cause \<Rightarrow> bytes \<Rightarrow> bytes" where
  "error_cause_marshal_to e writer =
     (let len = length (ec_raw e) + ERROR_CAUSE_HEADER_LENGTH in
      writer @ put_u16 (ec_code e) @ put_u16 (of_nat len) @ ec_raw e)"

definition error_cause_marshal :: "error_cause \<Rightarrow> bytes" where
  "error_cause_marshal e = error_cause_marshal_to e []"

lemma error_cause_no_panic [simp]: "error_cause_unmarshal buf \<noteq> Panic"
  by (auto simp: error_cause_unmarshal_def Let_def split: prod.splits dest!: get_length)

lemma error_cause_fits:
  "error_cause_unmarshal buf = Ok e \<Longrightarrow> 4 \<le> error_cause_length e \<and> error_cause_length e \<le> length buf"
  by (auto simp: error_cause_unmarshal_def error_cause_length_def Let_def and_then_eq_Ok
      split: if_splits prod.splits dest!: slice_OkD)

lemma error_cause_marshal_length [simp]: "length (error_cause_marshal e) = error_cause_length e"
  by (simp add: error_cause_marshal_def error_cause_marshal_to_def error_cause_length_def Let_def)

lemma error_cause_roundtrip:
  assumes "error_cause_length e < 65536"
  shows "error_cause_unmarshal (error_cause_marshal e @ rest) = Ok e"
proof -
  let ?n = "length (ec_raw e) + 4"
  have "(of_nat (length (ec_raw e)) + 4 :: u16) = of_nat ?n" by simp
  then have "unat (of_nat (length (ec_raw e)) + 4 :: u16) = ?n"
    using assms by (simp only: unat_of_nat_u16 error_cause_length_def error_cause_header_length_eq)
  then show ?thesis
    by (simp add: error_cause_unmarshal_def error_cause_marshal_def error_cause_marshal_to_def
        Let_def bytes_slice_def)
qed

end
