(* ===== verification/Chunk_Data.thy ===== *)
theory Chunk_Data
  imports Chunk_Header
begin

text \<open>
  The two chunks of the data path: DATA (src/src/chunk/chunk\_payload\_data.rs) and SACK
  (src/src/chunk/chunk\_selective\_ack.rs), each an instance of \<open>chunk_codec\<close>.

  A DATA chunk shares two flags with the other fragments of its message through
  \<^verbatim>\<open>Arc<AtomicBool>\<close>: the record holds the addresses of the cells and the functions that
  use them take the store of the cells.  A decoded chunk has two new cells in the code; no
  receiver ever reads or writes them, so the model gives decoded chunks the address \<open>0\<close>,
  which is never allocated.
\<close>

section \<open>DATA\<close>

datatype payload_protocol_identifier =
    PPI_Dcep | PPI_String | PPI_Binary | PPI_StringEmpty | PPI_BinaryEmpty | PPI_Unknown

definition ppi_of_u32 :: "u32 \<Rightarrow> payload_protocol_identifier" where
  "ppi_of_u32 v =
     (if v = 50 then PPI_Dcep
      else if v = 51 then PPI_String
      else if v = 53 then PPI_Binary
      else if v = 56 then PPI_StringEmpty
      else if v = 57 then PPI_BinaryEmpty
      else PPI_Unknown)"

text \<open>\<^verbatim>\<open>payload_type as u32\<close>: the discriminants, \<^verbatim>\<open>Unknown\<close> being one more than the last.\<close>

fun u32_of_ppi :: "payload_protocol_identifier \<Rightarrow> u32" where
  "u32_of_ppi PPI_Dcep = 50"
| "u32_of_ppi PPI_String = 51"
| "u32_of_ppi PPI_Binary = 53"
| "u32_of_ppi PPI_StringEmpty = 56"
| "u32_of_ppi PPI_BinaryEmpty = 57"
| "u32_of_ppi PPI_Unknown = 58"

lemma ppi_inverse [simp]: "ppi_of_u32 (u32_of_ppi t) = t"
  by (cases t) (simp_all add: ppi_of_u32_def)

text \<open>Cells of \<^verbatim>\<open>Arc<AtomicBool>\<close> flags, and a clock in milliseconds.\<close>

type_synonym cell = nat
type_synonym cells = "cell \<Rightarrow> bool"
type_synonym time_ms = nat

record payload_data =
  pd_unordered :: bool
  pd_beginning_fragment :: bool
  pd_ending_fragment :: bool
  pd_immediate_sack :: bool
  pd_tsn :: u32
  pd_stream_identifier :: u16
  pd_stream_sequence_number :: u16
  pd_payload_type :: payload_protocol_identifier
  pd_user_data :: bytes
  pd_acked :: bool
  pd_miss_indicator :: u32
  pd_since :: time_ms
  pd_nsent :: u32
  pd_abandoned :: cell
  pd_all_inflight :: cell
  pd_retransmit :: bool

definition payload_data_default :: "time_ms \<Rightarrow> payload_data" where
  "payload_data_default now =
     \<lparr>pd_unordered = False, pd_beginning_fragment = False, pd_ending_fragment = False,
      pd_immediate_sack = False, pd_tsn = 0, pd_stream_identifier = 0,
      pd_stream_sequence_number = 0, pd_payload_type = PPI_Unknown, pd_user_data = [],
      pd_acked = False, pd_miss_indicator = 0, pd_since = now, pd_nsent = 0,
      pd_abandoned = 0, pd_all_inflight = 0, pd_retransmit = False\<rparr>"

definition PAYLOAD_DATA_ENDING_FRAGMENT_BITMASK :: u8 where
  "PAYLOAD_DATA_ENDING_FRAGMENT_BITMASK = 1"
definition PAYLOAD_DATA_BEGINING_FRAGMENT_BITMASK :: u8 where
  "PAYLOAD_DATA_BEGINING_FRAGMENT_BITMASK = 2"
definition PAYLOAD_DATA_UNORDERED_BITMASK :: u8 where
  "PAYLOAD_DATA_UNORDERED_BITMASK = 4"
definition PAYLOAD_DATA_IMMEDIATE_SACK :: u8 where
  "PAYLOAD_DATA_IMMEDIATE_SACK = 8"
definition PAYLOAD_DATA_HEADER_SIZE :: nat where
  "PAYLOAD_DATA_HEADER_SIZE = 12"

lemmas payload_data_bitmasks =
  PAYLOAD_DATA_ENDING_FRAGMENT_BITMASK_def PAYLOAD_DATA_BEGINING_FRAGMENT_BITMASK_def
  PAYLOAD_DATA_UNORDERED_BITMASK_def PAYLOAD_DATA_IMMEDIATE_SACK_def

definition payload_data_value_length :: "payload_data \<Rightarrow> nat" where
  "payload_data_value_length c = PAYLOAD_DATA_HEADER_SIZE + length (pd_user_data c)"

definition payload_data_header :: "payload_data \<Rightarrow> chunk_header" where
  "payload_data_header c =
     (let flags = (if pd_ending_fragment c then 1 else 0);
          flags = (if pd_beginning_fragment c then flags OR push_bit 1 1 else flags);
          flags = (if pd_unordered c then flags OR push_bit 2 1 else flags);
          flags = (if pd_immediate_sack c then flags OR push_bit 3 1 else flags) in
      \<lparr>ch_typ = CT_PAYLOAD_DATA, ch_flags = flags,
       ch_value_length = of_nat (payload_data_value_length c)\<rparr>)"

definition payload_data_unmarshal :: "time_ms \<Rightarrow> bytes \<Rightarrow> payload_data outcome" where
  "payload_data_unmarshal now raw =
     and_then (chunk_header_unmarshal raw) (\<lambda>header.
       if ch_typ header \<noteq> CT_PAYLOAD_DATA then Err ErrChunkTypeNotPayloadData
       else
         let immediate_sack = (ch_flags header AND PAYLOAD_DATA_IMMEDIATE_SACK) \<noteq> 0;
             unordered = (ch_flags header AND PAYLOAD_DATA_UNORDERED_BITMASK) \<noteq> 0;
             beginning_fragment = (ch_flags header AND PAYLOAD_DATA_BEGINING_FRAGMENT_BITMASK) \<noteq> 0;
             ending_fragment = (ch_flags header AND PAYLOAD_DATA_ENDING_FRAGMENT_BITMASK) \<noteq> 0 in
         if chunk_header_value_length header < PAYLOAD_DATA_HEADER_SIZE then Err ErrChunkPayloadSmall
         else
           and_then (bytes_slice raw CHUNK_HEADER_SIZE
                       (CHUNK_HEADER_SIZE + chunk_header_value_length header)) (\<lambda>reader.
           and_then (get_u32 reader) (\<lambda>(tsn, reader).
           and_then (get_u16 reader) (\<lambda>(stream_identifier, reader).
           and_then (get_u16 reader) (\<lambda>(stream_sequence_number, reader).
           and_then (get_u32 reader) (\<lambda>(payload_type, reader).
           and_then (bytes_slice raw (CHUNK_HEADER_SIZE + PAYLOAD_DATA_HEADER_SIZE)
                       (CHUNK_HEADER_SIZE + chunk_header_value_length header)) (\<lambda>user_data.
             Ok \<lparr>pd_unordered = unordered, pd_beginning_fragment = beginning_fragment,
                 pd_ending_fragment = ending_fragment, pd_immediate_sack = immediate_sack,
                 pd_tsn = tsn, pd_stream_identifier = stream_identifier,
                 pd_stream_sequence_number = stream_sequence_number,
                 pd_payload_type = ppi_of_u32 payload_type, pd_user_data = user_data,
                 pd_acked = False, pd_miss_indicator = 0, pd_since = now, pd_nsent = 0,
                 pd_abandoned = 0, pd_all_inflight = 0, pd_retransmit = False\<rparr>)))))))"

definition payload_data_marshal_to :: "payload_data \<Rightarrow> bytes \<Rightarrow> bytes outcome" where
  "payload_data_marshal_to c writer =
     and_then (chunk_header_marshal_to (payload_data_header c) writer) (\<lambda>writer.
       Ok (writer @ put_u32 (pd_tsn c) @ put_u16 (pd_stream_identifier c)
             @ put_u16 (pd_stream_sequence_number c) @ put_u32 (u32_of_ppi (pd_payload_type c))
             @ pd_user_data c))"

text \<open>The shared flags.\<close>

definition payload_data_abandoned :: "cells \<Rightarrow> payload_data \<Rightarrow> bool" where
  "payload_data_abandoned cs c \<longleftrightarrow> cs (pd_abandoned c) \<and> cs (pd_all_inflight c)"

definition payload_data_set_abandoned :: "payload_data \<Rightarrow> bool \<Rightarrow> cells \<Rightarrow> cells" where
  "payload_data_set_abandoned c abandoned cs = cs(pd_abandoned c := abandoned)"

definition payload_data_set_all_inflight :: "payload_data \<Rightarrow> cells \<Rightarrow> cells" where
  "payload_data_set_all_inflight c cs =
     (if pd_ending_fragment c then cs(pd_all_inflight c := True) else cs)"

text \<open>What the receiver sees of a chunk: everything but the sender's own bookkeeping.\<close>

definition payload_data_view :: "time_ms \<Rightarrow> payload_data \<Rightarrow> payload_data" where
  "payload_data_view now c =
     c\<lparr>pd_acked := False, pd_miss_indicator := 0, pd_since := now, pd_nsent := 0,
       pd_abandoned := 0, pd_all_inflight := 0, pd_retransmit := False\<rparr>"

lemmas chunk_header_defs = chunk_header_marshal_to_def chunk_header_value_length_def

lemma payload_data_header_size_eq [simp]: "PAYLOAD_DATA_HEADER_SIZE = 12"
  by (simp add: PAYLOAD_DATA_HEADER_SIZE_def)

lemma payload_data_header_length [simp]:
  "ch_typ (payload_data_header c) = CT_PAYLOAD_DATA"
  "ch_value_length (payload_data_header c) = of_nat (payload_data_value_length c)"
  by (simp_all add: payload_data_header_def Let_def)

lemma payload_data_flags [simp]:
  "ch_flags (payload_data_header c) AND 8 \<noteq> 0 \<longleftrightarrow> pd_immediate_sack c"
  "ch_flags (payload_data_header c) AND 4 \<noteq> 0 \<longleftrightarrow> pd_unordered c"
  "ch_flags (payload_data_header c) AND 2 \<noteq> 0 \<longleftrightarrow> pd_beginning_fragment c"
  "ch_flags (payload_data_header c) AND 1 \<noteq> 0 \<longleftrightarrow> pd_ending_fragment c"
  by (simp_all add: payload_data_header_def Let_def)

lemma payload_data_no_panic: "payload_data_unmarshal now raw \<noteq> Panic"
  by (auto simp: payload_data_unmarshal_def Let_def not_less split: prod.splits
      dest!: get_length chunk_header_unmarshal_OkD slice_OkD)

interpretation payload_data: chunk_codec
  "payload_data_unmarshal now" payload_data_marshal_to payload_data_value_length
  "\<lambda>_. CT_PAYLOAD_DATA" "\<lambda>c. value_fits (payload_data_value_length c)" "\<lambda>_. True"
  "payload_data_view now"
proof (unfold_locales, goal_cases)
  case (5 c m rest)
  let ?body = "put_u32 (pd_tsn c) @ put_u16 (pd_stream_identifier c)
    @ put_u16 (pd_stream_sequence_number c) @ put_u32 (u32_of_ppi (pd_payload_type c))
    @ pd_user_data c"
  let ?n = "payload_data_value_length c"
  have "chunk_header_unmarshal
      (CT_PAYLOAD_DATA # ch_flags (payload_data_header c) # put_u16 (of_nat ?n + 4) @ ?body
        @ padding (4 + ?n) @ rest) =
      Ok \<lparr>ch_typ = CT_PAYLOAD_DATA, ch_flags = ch_flags (payload_data_header c),
          ch_value_length = of_nat ?n\<rparr>"
    by (rule chunk_header_unmarshal_put)
      (use 5 in \<open>simp_all add: payload_data_value_length_def\<close>)
  then show ?case
    using 5
    by (auto simp: payload_data_marshal_to_def chunk_header_defs payload_data_unmarshal_def Let_def
        unat_add_of_nat_u16 bytes_slice_def payload_data_bitmasks payload_data_view_def
        payload_data_value_length_def)
qed (auto simp: payload_data_unmarshal_def payload_data_marshal_to_def chunk_header_defs
    payload_data_value_length_def payload_data_view_def Let_def and_then_eq_Ok
    split: prod.splits if_splits dest!: chunk_header_unmarshal_OkD slice_OkD)

section \<open>SACK\<close>

record gap_ack_block =
  gab_start :: u16
  gab_end :: u16

record selective_ack =
  sa_cumulative_tsn_ack :: u32
  sa_advertised_receiver_window_credit :: u32
  sa_gap_ack_blocks :: "gap_ack_block list"
  sa_duplicate_tsn :: "u32 list"

definition SELECTIVE_ACK_HEADER_SIZE :: nat where
  "SELECTIVE_ACK_HEADER_SIZE = 12"

definition selective_ack_value_length :: "selective_ack \<Rightarrow> nat" where
  "selective_ack_value_length c =
     SELECTIVE_ACK_HEADER_SIZE + length (sa_gap_ack_blocks c) * 4 + length (sa_duplicate_tsn c) * 4"

definition selective_ack_header :: "selective_ack \<Rightarrow> chunk_header" where
  "selective_ack_header c =
     \<lparr>ch_typ = CT_SACK, ch_flags = 0, ch_value_length = of_nat (selective_ack_value_length c)\<rparr>"

fun read_gap_ack_blocks :: "nat \<Rightarrow> bytes \<Rightarrow> (gap_ack_block list \<times> bytes) outcome" where
  "read_gap_ack_blocks 0 reader = Ok ([], reader)"
| "read_gap_ack_blocks (Suc n) reader =
     and_then (get_u16 reader) (\<lambda>(start, reader).
     and_then (get_u16 reader) (\<lambda>(end, reader).
     and_then (read_gap_ack_blocks n reader) (\<lambda>(gs, reader).
       Ok (\<lparr>gab_start = start, gab_end = end\<rparr> # gs, reader))))"

fun read_duplicate_tsns :: "nat \<Rightarrow> bytes \<Rightarrow> (u32 list \<times> bytes) outcome" where
  "read_duplicate_tsns 0 reader = Ok ([], reader)"
| "read_duplicate_tsns (Suc n) reader =
     and_then (get_u32 reader) (\<lambda>(t, reader).
     and_then (read_duplicate_tsns n reader) (\<lambda>(ts, reader). Ok (t # ts, reader)))"

definition selective_ack_unmarshal :: "bytes \<Rightarrow> selective_ack outcome" where
  "selective_ack_unmarshal raw =
     and_then (chunk_header_unmarshal raw) (\<lambda>header.
       if ch_typ header \<noteq> CT_SACK then Err ErrChunkTypeNotSack
       else if chunk_header_value_length header < SELECTIVE_ACK_HEADER_SIZE
       then Err ErrSackSizeNotLargeEnoughInfo
       else
         and_then (bytes_slice raw CHUNK_HEADER_SIZE
                     (CHUNK_HEADER_SIZE + chunk_header_value_length header)) (\<lambda>reader.
         and_then (get_u32 reader) (\<lambda>(cumulative_tsn_ack, reader).
         and_then (get_u32 reader) (\<lambda>(advertised_receiver_window_credit, reader).
         and_then (get_u16 reader) (\<lambda>(gap_ack_blocks_len, reader).
         and_then (get_u16 reader) (\<lambda>(duplicate_tsn_len, reader).
           if chunk_header_value_length header
                < SELECTIVE_ACK_HEADER_SIZE
                  + (4 * unat gap_ack_blocks_len + 4 * unat duplicate_tsn_len)
           then Err ErrSackSizeNotLargeEnoughInfo
           else
             and_then (read_gap_ack_blocks (unat gap_ack_blocks_len) reader) (\<lambda>(gap_ack_blocks, reader).
             and_then (read_duplicate_tsns (unat duplicate_tsn_len) reader) (\<lambda>(duplicate_tsn, reader).
               Ok \<lparr>sa_cumulative_tsn_ack = cumulative_tsn_ack,
                   sa_advertised_receiver_window_credit = advertised_receiver_window_credit,
                   sa_gap_ack_blocks = gap_ack_blocks, sa_duplicate_tsn = duplicate_tsn\<rparr>))))))))"

definition selective_ack_marshal_to :: "selective_ack \<Rightarrow> bytes \<Rightarrow> bytes outcome" where
  "selective_ack_marshal_to c writer =
     and_then (chunk_header_marshal_to (selective_ack_header c) writer) (\<lambda>writer.
       Ok (writer @ put_u32 (sa_cumulative_tsn_ack c)
             @ put_u32 (sa_advertised_receiver_window_credit c)
             @ put_u16 (of_nat (length (sa_gap_ack_blocks c)))
             @ put_u16 (of_nat (length (sa_duplicate_tsn c)))
             @ concat (map (\<lambda>g. put_u16 (gab_start g) @ put_u16 (gab_end g)) (sa_gap_ack_blocks c))
             @ concat (map put_u32 (sa_duplicate_tsn c))))"

lemma selective_ack_header_size_eq [simp]: "SELECTIVE_ACK_HEADER_SIZE = 12"
  by (simp add: SELECTIVE_ACK_HEADER_SIZE_def)

lemma read_gap_ack_blocks_put [wire_simps]:
  "read_gap_ack_blocks (length gs)
     (concat (map (\<lambda>g. put_u16 (gab_start g) @ put_u16 (gab_end g)) gs) @ rest) = Ok (gs, rest)"
  by (induction gs) simp_all

lemma read_duplicate_tsns_put [wire_simps]:
  "read_duplicate_tsns (length ts) (concat (map put_u32 ts) @ rest) = Ok (ts, rest)"
  by (induction ts) simp_all

lemma length_concat_gap_ack_blocks [simp]:
  "length (concat (map (\<lambda>g. put_u16 (gab_start g) @ put_u16 (gab_end g)) gs)) = 4 * length gs"
  by (induction gs) simp_all

lemma length_concat_put_u32 [simp]: "length (concat (map put_u32 ts)) = 4 * length ts"
  by (induction ts) simp_all

lemma read_gap_ack_blocks_OkD:
  "read_gap_ack_blocks n r = Ok (gs, r') \<Longrightarrow> length gs = n \<and> length r = 4 * n + length r'"
  by (induction n arbitrary: r gs)
    (fastforce simp: and_then_eq_Ok split: prod.splits dest!: get_length)+

lemma read_duplicate_tsns_OkD:
  "read_duplicate_tsns n r = Ok (ts, r') \<Longrightarrow> length ts = n \<and> length r = 4 * n + length r'"
  by (induction n arbitrary: r ts)
    (fastforce simp: and_then_eq_Ok split: prod.splits dest!: get_length)+

lemma read_gap_ack_blocks_PanicD: "read_gap_ack_blocks n r = Panic \<Longrightarrow> length r < 4 * n"
  by (induction n arbitrary: r)
    (fastforce split: prod.splits dest!: get_length)+

lemma read_duplicate_tsns_PanicD: "read_duplicate_tsns n r = Panic \<Longrightarrow> length r < 4 * n"
  by (induction n arbitrary: r)
    (fastforce split: prod.splits dest!: get_length)+

lemmas read_sack_lists =
  read_gap_ack_blocks_OkD read_duplicate_tsns_OkD read_gap_ack_blocks_PanicD
  read_duplicate_tsns_PanicD

lemma selective_ack_no_panic: "selective_ack_unmarshal raw \<noteq> Panic"
  by (auto simp: selective_ack_unmarshal_def not_less split: prod.splits if_splits
      dest!: get_length chunk_header_unmarshal_OkD slice_OkD read_sack_lists)

interpretation selective_ack: chunk_codec
  selective_ack_unmarshal selective_ack_marshal_to selective_ack_value_length
  "\<lambda>_. CT_SACK" "\<lambda>c. value_fits (selective_ack_value_length c)" "\<lambda>_. True" "\<lambda>c. c"
proof (unfold_locales, goal_cases)
  case (5 c m rest)
  let ?body = "put_u32 (sa_cumulative_tsn_ack c)
             @ put_u32 (sa_advertised_receiver_window_credit c)
             @ put_u16 (of_nat (length (sa_gap_ack_blocks c)))
             @ put_u16 (of_nat (length (sa_duplicate_tsn c)))
             @ concat (map (\<lambda>g. put_u16 (gab_start g) @ put_u16 (gab_end g)) (sa_gap_ack_blocks c))
             @ concat (map put_u32 (sa_duplicate_tsn c))"
  let ?n = "selective_ack_value_length c"
  have h: "chunk_header_unmarshal (CT_SACK # 0 # put_u16 (of_nat ?n + 4) @ ?body
        @ padding (4 + ?n) @ rest) =
      Ok \<lparr>ch_typ = CT_SACK, ch_flags = 0, ch_value_length = of_nat ?n\<rparr>"
    by (rule chunk_header_unmarshal_put)
      (use 5 in \<open>simp_all add: selective_ack_value_length_def\<close>)
  have u: "unat (of_nat k :: u16) = k" if "k \<le> ?n" for k
    using 5(1) that by (simp only: unat_of_nat_u16)
  have k: "length (sa_gap_ack_blocks c) \<le> ?n" "length (sa_duplicate_tsn c) \<le> ?n"
    and v: "\<not> ?n < 12" "\<not> ?n < 12 + (4 * length (sa_gap_ack_blocks c) + 4 * length (sa_duplicate_tsn c))"
    by (simp_all add: selective_ack_value_length_def)
  have s: "bytes_slice (CT_SACK # 0 # put_u16 (of_nat ?n + 4) @ ?body @ padding (4 + ?n) @ rest)
      4 (4 + ?n) = Ok ?body"
    by (simp add: bytes_slice_def selective_ack_value_length_def)
  have m: "m = CT_SACK # 0 # put_u16 (of_nat ?n + 4) @ ?body"
    using 5 by (auto simp: selective_ack_marshal_to_def chunk_header_defs selective_ack_header_def)
  then have l: "length m = 4 + ?n" by (simp add: selective_ack_value_length_def)
  show ?case
    using h s by (simp add: l) (simp add: m u k v selective_ack_unmarshal_def chunk_header_defs wire_simps
        read_duplicate_tsns_put [of _ "[]", simplified])
qed (auto simp: selective_ack_unmarshal_def selective_ack_marshal_to_def chunk_header_defs
    selective_ack_value_length_def selective_ack_header_def Let_def and_then_eq_Ok
    split: prod.splits if_splits dest!: get_length chunk_header_unmarshal_OkD slice_OkD
    read_sack_lists)

end
