(* ===== verification/Chunk_Control.thy ===== *)
theory Chunk_Control
  imports Chunk_Data
begin

text \<open>
  The control chunks without parameters: COOKIE-ECHO, COOKIE-ACK, SHUTDOWN, SHUTDOWN-ACK,
  SHUTDOWN-COMPLETE, ERROR, ABORT, FORWARD-TSN and the chunk of an unknown type
  (src/src/chunk/chunk\_*.rs), one group of definitions and one instance of \<open>chunk_codec\<close>
  per file.
\<close>

section \<open>Chunks with an opaque value\<close>

text \<open>chunk\_cookie\_echo.rs\<close>

definition cookie_echo_value_length :: "bytes \<Rightarrow> nat" where
  "cookie_echo_value_length cookie = length cookie"

definition cookie_echo_header :: "bytes \<Rightarrow> chunk_header" where
  "cookie_echo_header cookie =
     \<lparr>ch_typ = CT_COOKIE_ECHO, ch_flags = 0,
      ch_value_length = of_nat (cookie_echo_value_length cookie)\<rparr>"

definition cookie_echo_unmarshal :: "bytes \<Rightarrow> bytes outcome" where
  "cookie_echo_unmarshal raw =
     and_then (chunk_header_unmarshal raw) (\<lambda>header.
       if ch_typ header \<noteq> CT_COOKIE_ECHO then Err ErrChunkTypeNotCookieEcho
       else bytes_slice raw CHUNK_HEADER_SIZE (CHUNK_HEADER_SIZE + chunk_header_value_length header))"

definition cookie_echo_marshal_to :: "bytes \<Rightarrow> bytes \<Rightarrow> bytes outcome" where
  "cookie_echo_marshal_to cookie buf =
     and_then (chunk_header_marshal_to (cookie_echo_header cookie) buf) (\<lambda>buf. Ok (buf @ cookie))"

text \<open>chunk\_unknown.rs\<close>

record chunk_unknown =
  cu_hdr :: chunk_header
  cu_value :: bytes

definition chunk_unknown_value_length :: "chunk_unknown \<Rightarrow> nat" where
  "chunk_unknown_value_length c = length (cu_value c)"

definition chunk_unknown_unmarshal :: "bytes \<Rightarrow> chunk_unknown outcome" where
  "chunk_unknown_unmarshal raw =
     and_then (chunk_header_unmarshal raw) (\<lambda>header.
       let len = chunk_header_value_length header in
       and_then (bytes_slice raw CHUNK_HEADER_SIZE (CHUNK_HEADER_SIZE + len))
         (\<lambda>value. Ok \<lparr>cu_hdr = header, cu_value = value\<rparr>))"

definition chunk_unknown_marshal_to :: "chunk_unknown \<Rightarrow> bytes \<Rightarrow> bytes outcome" where
  "chunk_unknown_marshal_to c buf =
     and_then (chunk_header_marshal_to (cu_hdr c) buf) (\<lambda>buf. Ok (buf @ cu_value c))"

lemmas opaque_chunk_defs =
  cookie_echo_value_length_def cookie_echo_header_def cookie_echo_unmarshal_def
  cookie_echo_marshal_to_def chunk_unknown_value_length_def chunk_unknown_unmarshal_def
  chunk_unknown_marshal_to_def

lemma opaque_chunks_no_panic:
  "cookie_echo_unmarshal raw \<noteq> Panic" "chunk_unknown_unmarshal raw \<noteq> Panic"
  by (auto simp: opaque_chunk_defs Let_def dest: chunk_header_unmarshal_OkD)

interpretation cookie_echo: chunk_codec
  cookie_echo_unmarshal cookie_echo_marshal_to cookie_echo_value_length
  "\<lambda>_. CT_COOKIE_ECHO" "\<lambda>c. value_fits (length c)" "\<lambda>_. True" "\<lambda>c. c"
proof (unfold_locales, goal_cases)
  case (5 c m rest)
  then show ?case
    using chunk_encoded [of m CT_COOKIE_ECHO 0 "length c" c True rest]
    by (auto simp: opaque_chunk_defs chunk_header_marshal_to_def)
qed (auto simp: opaque_chunk_defs chunk_header_defs and_then_eq_Ok split: if_splits
    dest!: chunk_header_unmarshal_OkD slice_OkD)

interpretation chunk_unknown: chunk_codec
  chunk_unknown_unmarshal chunk_unknown_marshal_to chunk_unknown_value_length
  "\<lambda>c. ch_typ (cu_hdr c)"
  "\<lambda>c. value_fits (length (cu_value c)) \<and> ch_value_length (cu_hdr c) = of_nat (length (cu_value c))"
  "\<lambda>_. True" "\<lambda>c. c"
proof (unfold_locales, goal_cases)
  case (5 c m rest)
  then show ?case
    using chunk_encoded [of m "ch_typ (cu_hdr c)" "ch_flags (cu_hdr c)" "length (cu_value c)"
        "cu_value c" True rest]
    by (cases c, cases "cu_hdr c") (auto simp: opaque_chunk_defs chunk_header_marshal_to_def)
qed (auto simp: opaque_chunk_defs chunk_header_defs and_then_eq_Ok Let_def split: if_splits
    dest!: chunk_header_unmarshal_OkD slice_OkD)

section \<open>Chunks without a value\<close>

text \<open>chunk\_cookie\_ack.rs, chunk\_shutdown\_ack.rs and chunk\_shutdown\_complete.rs\<close>

definition cookie_ack_value_length :: "unit \<Rightarrow> nat" where
  "cookie_ack_value_length u = 0"

definition cookie_ack_header :: "unit \<Rightarrow> chunk_header" where
  "cookie_ack_header u =
     \<lparr>ch_typ = CT_COOKIE_ACK, ch_flags = 0, ch_value_length = of_nat (cookie_ack_value_length u)\<rparr>"

definition cookie_ack_unmarshal :: "bytes \<Rightarrow> unit outcome" where
  "cookie_ack_unmarshal raw =
     and_then (chunk_header_unmarshal raw) (\<lambda>header.
       if ch_typ header \<noteq> CT_COOKIE_ACK then Err ErrChunkTypeNotCookieAck else Ok ())"

definition cookie_ack_marshal_to :: "unit \<Rightarrow> bytes \<Rightarrow> bytes outcome" where
  "cookie_ack_marshal_to u buf = chunk_header_marshal_to (cookie_ack_header u) buf"

definition shutdown_ack_value_length :: "unit \<Rightarrow> nat" where
  "shutdown_ack_value_length u = 0"

definition shutdown_ack_header :: "unit \<Rightarrow> chunk_header" where
  "shutdown_ack_header u =
     \<lparr>ch_typ = CT_SHUTDOWN_ACK, ch_flags = 0, ch_value_length = of_nat (shutdown_ack_value_length u)\<rparr>"

definition shutdown_ack_unmarshal :: "bytes \<Rightarrow> unit outcome" where
  "shutdown_ack_unmarshal raw =
     and_then (chunk_header_unmarshal raw) (\<lambda>header.
       if ch_typ header \<noteq> CT_SHUTDOWN_ACK then Err ErrChunkTypeNotShutdownAck else Ok ())"

definition shutdown_ack_marshal_to :: "unit \<Rightarrow> bytes \<Rightarrow> bytes outcome" where
  "shutdown_ack_marshal_to u writer = chunk_header_marshal_to (shutdown_ack_header u) writer"

definition shutdown_complete_value_length :: "unit \<Rightarrow> nat" where
  "shutdown_complete_value_length u = 0"

definition shutdown_complete_header :: "unit \<Rightarrow> chunk_header" where
  "shutdown_complete_header u =
     \<lparr>ch_typ = CT_SHUTDOWN_COMPLETE, ch_flags = 0,
      ch_value_length = of_nat (shutdown_complete_value_length u)\<rparr>"

definition shutdown_complete_unmarshal :: "bytes \<Rightarrow> unit outcome" where
  "shutdown_complete_unmarshal raw =
     and_then (chunk_header_unmarshal raw) (\<lambda>header.
       if ch_typ header \<noteq> CT_SHUTDOWN_COMPLETE then Err ErrChunkTypeNotShutdownComplete else Ok ())"

definition shutdown_complete_marshal_to :: "unit \<Rightarrow> bytes \<Rightarrow> bytes outcome" where
  "shutdown_complete_marshal_to u writer =
     chunk_header_marshal_to (shutdown_complete_header u) writer"

lemmas empty_chunk_defs =
  cookie_ack_value_length_def cookie_ack_header_def cookie_ack_unmarshal_def
  cookie_ack_marshal_to_def shutdown_ack_value_length_def shutdown_ack_header_def
  shutdown_ack_unmarshal_def shutdown_ack_marshal_to_def shutdown_complete_value_length_def
  shutdown_complete_header_def shutdown_complete_unmarshal_def shutdown_complete_marshal_to_def

lemma empty_chunks_no_panic:
  "cookie_ack_unmarshal raw \<noteq> Panic" "shutdown_ack_unmarshal raw \<noteq> Panic"
  "shutdown_complete_unmarshal raw \<noteq> Panic"
  by (auto simp: empty_chunk_defs)

interpretation cookie_ack: chunk_codec
  cookie_ack_unmarshal cookie_ack_marshal_to cookie_ack_value_length
  "\<lambda>_. CT_COOKIE_ACK" "\<lambda>_. True" "\<lambda>_. True" "\<lambda>c. c"
proof (unfold_locales, goal_cases)
  case (5 c m rest)
  then show ?case
    using chunk_encoded [of m CT_COOKIE_ACK 0 0 "[]" True rest]
    by (auto simp: empty_chunk_defs chunk_header_marshal_to_def)
qed (auto simp: empty_chunk_defs chunk_header_defs and_then_eq_Ok split: if_splits
    dest!: chunk_header_unmarshal_OkD)

interpretation shutdown_ack: chunk_codec
  shutdown_ack_unmarshal shutdown_ack_marshal_to shutdown_ack_value_length
  "\<lambda>_. CT_SHUTDOWN_ACK" "\<lambda>_. True" "\<lambda>_. True" "\<lambda>c. c"
proof (unfold_locales, goal_cases)
  case (5 c m rest)
  then show ?case
    using chunk_encoded [of m CT_SHUTDOWN_ACK 0 0 "[]" True rest]
    by (auto simp: empty_chunk_defs chunk_header_marshal_to_def)
qed (auto simp: empty_chunk_defs chunk_header_defs and_then_eq_Ok split: if_splits
    dest!: chunk_header_unmarshal_OkD)

interpretation shutdown_complete: chunk_codec
  shutdown_complete_unmarshal shutdown_complete_marshal_to shutdown_complete_value_length
  "\<lambda>_. CT_SHUTDOWN_COMPLETE" "\<lambda>_. True" "\<lambda>_. True" "\<lambda>c. c"
proof (unfold_locales, goal_cases)
  case (5 c m rest)
  then show ?case
    using chunk_encoded [of m CT_SHUTDOWN_COMPLETE 0 0 "[]" True rest]
    by (auto simp: empty_chunk_defs chunk_header_marshal_to_def)
qed (auto simp: empty_chunk_defs chunk_header_defs and_then_eq_Ok split: if_splits
    dest!: chunk_header_unmarshal_OkD)

section \<open>SHUTDOWN\<close>

text \<open>
  chunk\_shutdown.rs.  The decoder compares the length of the whole buffer, so that a
  SHUTDOWN must be the last chunk of its packet.
\<close>

record chunk_shutdown =
  sd_cumulative_tsn_ack :: u32

definition CUMULATIVE_TSN_ACK_LENGTH :: nat where
  "CUMULATIVE_TSN_ACK_LENGTH = 4"

definition shutdown_value_length :: "chunk_shutdown \<Rightarrow> nat" where
  "shutdown_value_length c = CUMULATIVE_TSN_ACK_LENGTH"

definition shutdown_header :: "chunk_shutdown \<Rightarrow> chunk_header" where
  "shutdown_header c =
     \<lparr>ch_typ = CT_SHUTDOWN, ch_flags = 0, ch_value_length = of_nat (shutdown_value_length c)\<rparr>"

definition shutdown_unmarshal :: "bytes \<Rightarrow> chunk_shutdown outcome" where
  "shutdown_unmarshal raw =
     and_then (chunk_header_unmarshal raw) (\<lambda>header.
       if ch_typ header \<noteq> CT_SHUTDOWN then Err ErrChunkTypeNotShutdown
       else if length raw \<noteq> CHUNK_HEADER_SIZE + CUMULATIVE_TSN_ACK_LENGTH then Err ErrInvalidChunkSize
       else
         and_then (bytes_slice raw CHUNK_HEADER_SIZE
                     (CHUNK_HEADER_SIZE + chunk_header_value_length header)) (\<lambda>reader.
         and_then (get_u32 reader) (\<lambda>(cumulative_tsn_ack, _).
           Ok \<lparr>sd_cumulative_tsn_ack = cumulative_tsn_ack\<rparr>)))"

definition shutdown_marshal_to :: "chunk_shutdown \<Rightarrow> bytes \<Rightarrow> bytes outcome" where
  "shutdown_marshal_to c writer =
     and_then (chunk_header_marshal_to (shutdown_header c) writer)
       (\<lambda>writer. Ok (writer @ put_u32 (sd_cumulative_tsn_ack c)))"

lemmas shutdown_defs =
  shutdown_value_length_def shutdown_header_def shutdown_unmarshal_def shutdown_marshal_to_def
  CUMULATIVE_TSN_ACK_LENGTH_def

text \<open>The length field may be shorter than the buffer; then the read runs past the slice.\<close>

lemma shutdown_panic_iff:
  "shutdown_unmarshal raw = Panic \<longleftrightarrow>
    (\<exists>h. chunk_header_unmarshal raw = Ok h \<and> ch_typ h = CT_SHUTDOWN \<and> length raw = 8 \<and>
      chunk_header_value_length h < 4)"
proof (cases "chunk_header_unmarshal raw")
  case (Ok h)
  then show ?thesis
    using chunk_header_unmarshal_OkD [OF Ok]
    by (auto simp: shutdown_defs bytes_slice_def split: prod.splits)
qed (simp_all add: shutdown_defs)

interpretation shutdown: chunk_codec
  shutdown_unmarshal shutdown_marshal_to shutdown_value_length
  "\<lambda>_. CT_SHUTDOWN" "\<lambda>_. True" "\<lambda>_. False" "\<lambda>c. c"
proof (unfold_locales, goal_cases)
  case (5 c m rest)
  then show ?case
    using chunk_encoded [of m CT_SHUTDOWN 0 4 "put_u32 (sd_cumulative_tsn_ack c)" False rest]
    by (auto simp: shutdown_defs chunk_header_marshal_to_def follows_def get_padding_size_eq)
qed (auto simp: shutdown_defs chunk_header_defs and_then_eq_Ok split: if_splits prod.splits
    dest!: chunk_header_unmarshal_OkD)

section \<open>ERROR and ABORT\<close>

text \<open>
  chunk\_error.rs and chunk\_abort.rs have the same loop: it runs to the end of the buffer
  while the slices it decodes end with the chunk.
\<close>

function read_error_causes :: "bytes \<Rightarrow> nat \<Rightarrow> nat \<Rightarrow> error_cause list outcome" where
  "read_error_causes raw end offset =
     (if offset + 4 \<le> length raw
      then and_then (bytes_slice raw offset end) (\<lambda>s.
           and_then (error_cause_unmarshal s) (\<lambda>e.
           and_then (read_error_causes raw end (offset + error_cause_length e)) (\<lambda>es.
             Ok (e # es))))
      else Ok [])"
  by pat_completeness auto
termination
  by (relation "measure (\<lambda>(raw, end, offset). length raw - offset)") (auto simp: error_cause_length_def)

declare read_error_causes.simps [simp del]

definition chunk_error_value_length :: "error_cause list \<Rightarrow> nat" where
  "chunk_error_value_length error_causes =
     foldl (\<lambda>length ec. length + error_cause_length ec) 0 error_causes"

definition chunk_error_header :: "error_cause list \<Rightarrow> chunk_header" where
  "chunk_error_header error_causes =
     \<lparr>ch_typ = CT_ERROR, ch_flags = 0,
      ch_value_length = of_nat (chunk_error_value_length error_causes)\<rparr>"

definition chunk_error_unmarshal :: "bytes \<Rightarrow> error_cause list outcome" where
  "chunk_error_unmarshal raw =
     and_then (chunk_header_unmarshal raw) (\<lambda>header.
       if ch_typ header \<noteq> CT_ERROR then Err ErrChunkTypeNotCtError
       else read_error_causes raw (CHUNK_HEADER_SIZE + chunk_header_value_length header)
              CHUNK_HEADER_SIZE)"

definition chunk_error_marshal_to :: "error_cause list \<Rightarrow> bytes \<Rightarrow> bytes outcome" where
  "chunk_error_marshal_to error_causes buf =
     and_then (chunk_header_marshal_to (chunk_error_header error_causes) buf) (\<lambda>buf.
       Ok (foldl (\<lambda>buf ec. buf @ error_cause_marshal ec) buf error_causes))"

definition chunk_abort_value_length :: "error_cause list \<Rightarrow> nat" where
  "chunk_abort_value_length error_causes =
     foldl (\<lambda>length ec. length + error_cause_length ec) 0 error_causes"

definition chunk_abort_header :: "error_cause list \<Rightarrow> chunk_header" where
  "chunk_abort_header error_causes =
     \<lparr>ch_typ = CT_ABORT, ch_flags = 0,
      ch_value_length = of_nat (chunk_abort_value_length error_causes)\<rparr>"

definition chunk_abort_unmarshal :: "bytes \<Rightarrow> error_cause list outcome" where
  "chunk_abort_unmarshal raw =
     and_then (chunk_header_unmarshal raw) (\<lambda>header.
       if ch_typ header \<noteq> CT_ABORT then Err ErrChunkTypeNotAbort
       else read_error_causes raw (CHUNK_HEADER_SIZE + chunk_header_value_length header)
              CHUNK_HEADER_SIZE)"

definition chunk_abort_marshal_to :: "error_cause list \<Rightarrow> bytes \<Rightarrow> bytes outcome" where
  "chunk_abort_marshal_to error_causes buf =
     and_then (chunk_header_marshal_to (chunk_abort_header error_causes) buf) (\<lambda>buf.
       Ok (foldl (\<lambda>buf ec. buf @ error_cause_marshal ec) buf error_causes))"

lemma foldl_length: "foldl (\<lambda>n x. n + f x) k xs = k + sum_list (map f xs)" for k :: nat
  by (induction xs arbitrary: k) simp_all

lemma foldl_append: "foldl (\<lambda>b x. b @ f x) w xs = w @ concat (map f xs)"
  by (induction xs arbitrary: w) simp_all

lemma length_concat_error_causes [simp]:
  "length (concat (map error_cause_marshal es)) = sum_list (map error_cause_length es)"
  by (induction es) simp_all

lemma read_error_causes_step:
  assumes "offset \<le> end" and "bytes_slice raw offset end = Ok s" and "error_cause_unmarshal s = Ok e"
  shows "offset + error_cause_length e \<le> end"
  using slice_OkD [OF assms(2)] error_cause_fits [OF assms(3)] assms(1) by auto

lemma read_error_causes_no_panic:
  "offset \<le> end \<Longrightarrow> end \<le> length raw \<Longrightarrow> read_error_causes raw end offset \<noteq> Panic"
proof (induction raw "end" offset rule: read_error_causes.induct)
  case (1 raw "end" offset)
  then show ?case
    by (subst read_error_causes.simps) (auto dest: read_error_causes_step)
qed

lemma read_error_causes_fits:
  "read_error_causes raw end offset = Ok es \<Longrightarrow> offset \<le> end \<Longrightarrow>
    offset + sum_list (map error_cause_length es) \<le> end"
proof (induction raw "end" offset arbitrary: es rule: read_error_causes.induct)
  case (1 raw "end" offset)
  show ?case
  proof (cases "offset + 4 \<le> length raw")
    case True
    with 1(2) obtain s e es' where s: "bytes_slice raw offset end = Ok s"
        "error_cause_unmarshal s = Ok e"
      and r: "read_error_causes raw end (offset + error_cause_length e) = Ok es'" "es = e # es'"
      by (subst (asm) read_error_causes.simps) (auto simp: and_then_eq_Ok)
    have "offset + error_cause_length e \<le> end"
      using 1(3) s by (rule read_error_causes_step)
    from 1(1) [OF True s r(1) this] show ?thesis by (simp add: r(2))
  qed (use 1(2,3) in \<open>simp add: read_error_causes.simps\<close>)
qed

lemma read_error_causes_put:
  assumes "sum_list (map error_cause_length es) < 65536" and "length pad < 4"
  shows "read_error_causes (h @ concat (map error_cause_marshal es) @ pad)
    (length h + sum_list (map error_cause_length es)) (length h) = Ok es"
  using assms
proof (induction es arbitrary: h)
  case Nil
  then show ?case by (simp add: read_error_causes.simps)
next
  case (Cons e es)
  have e: "4 \<le> error_cause_length e" by (simp add: error_cause_length_def)
  have "read_error_causes ((h @ error_cause_marshal e) @ concat (map error_cause_marshal es) @ pad)
      (length (h @ error_cause_marshal e) + sum_list (map error_cause_length es))
      (length (h @ error_cause_marshal e)) = Ok es"
    using Cons.prems by (intro Cons.IH) simp_all
  then show ?case
    using Cons.prems e error_cause_roundtrip [of e "concat (map error_cause_marshal es)"]
    by (subst read_error_causes.simps) (simp add: bytes_slice_def add.assoc)
qed

lemma read_error_causes_chunk:
  "sum_list (map error_cause_length es) < 65536 \<Longrightarrow> length pad < 4 \<Longrightarrow> length h = 4 \<Longrightarrow>
    read_error_causes (h @ concat (map error_cause_marshal es) @ pad)
      (4 + sum_list (map error_cause_length es)) 4 = Ok es"
  using read_error_causes_put [of es pad h] by simp

lemmas error_chunk_defs =
  chunk_error_value_length_def chunk_error_header_def chunk_error_unmarshal_def
  chunk_error_marshal_to_def chunk_abort_value_length_def chunk_abort_header_def
  chunk_abort_unmarshal_def chunk_abort_marshal_to_def

lemma error_chunks_no_panic:
  "chunk_error_unmarshal raw \<noteq> Panic" "chunk_abort_unmarshal raw \<noteq> Panic"
  by (auto simp: error_chunk_defs read_error_causes_no_panic dest!: chunk_header_unmarshal_OkD)

interpretation chunk_error: chunk_codec
  chunk_error_unmarshal chunk_error_marshal_to chunk_error_value_length
  "\<lambda>_. CT_ERROR" "\<lambda>es. value_fits (chunk_error_value_length es)" "\<lambda>_. False" "\<lambda>c. c"
proof (unfold_locales, goal_cases)
  case (5 es m rest)
  then show ?case
    using chunk_encoded [of m CT_ERROR 0 "chunk_error_value_length es"
        "concat (map error_cause_marshal es)" False rest]
      read_error_causes_chunk [of es "padding (length m)" "take 4 m"]
      get_padding_size_less
    by (auto simp: error_chunk_defs chunk_header_marshal_to_def foldl_length foldl_append
        follows_def)
qed (auto simp: error_chunk_defs chunk_header_defs and_then_eq_Ok foldl_length foldl_append
    split: if_splits dest!: chunk_header_unmarshal_OkD read_error_causes_fits)

interpretation chunk_abort: chunk_codec
  chunk_abort_unmarshal chunk_abort_marshal_to chunk_abort_value_length
  "\<lambda>_. CT_ABORT" "\<lambda>es. value_fits (chunk_abort_value_length es)" "\<lambda>_. False" "\<lambda>c. c"
proof (unfold_locales, goal_cases)
  case (5 es m rest)
  then show ?case
    using chunk_encoded [of m CT_ABORT 0 "chunk_abort_value_length es"
        "concat (map error_cause_marshal es)" False rest]
      read_error_causes_chunk [of es "padding (length m)" "take 4 m"]
      get_padding_size_less
    by (auto simp: error_chunk_defs chunk_header_marshal_to_def foldl_length foldl_append
        follows_def)
qed (auto simp: error_chunk_defs chunk_header_defs and_then_eq_Ok foldl_length foldl_append
    split: if_splits dest!: chunk_header_unmarshal_OkD read_error_causes_fits)

section \<open>FORWARD-TSN\<close>

text \<open>
  chunk\_forward\_tsn.rs.  The loop over the streams counts the bytes to the end of the
  buffer; a stream it has decoded is four bytes of them, so the subtraction never wraps.
\<close>

record forward_tsn_stream =
  fs_identifier :: u16
  fs_sequence :: u16

record chunk_forward_tsn =
  ft_new_cumulative_tsn :: u32
  ft_streams :: "forward_tsn_stream list"

definition NEW_CUMULATIVE_TSN_LENGTH :: nat where
  "NEW_CUMULATIVE_TSN_LENGTH = 4"

definition FORWARD_TSN_STREAM_LENGTH :: nat where
  "FORWARD_TSN_STREAM_LENGTH = 4"

lemma forward_tsn_lengths_eq [simp]:
  "NEW_CUMULATIVE_TSN_LENGTH = 4" "FORWARD_TSN_STREAM_LENGTH = 4"
  by (simp_all add: NEW_CUMULATIVE_TSN_LENGTH_def FORWARD_TSN_STREAM_LENGTH_def)

definition forward_tsn_stream_value_length :: "forward_tsn_stream \<Rightarrow> nat" where
  "forward_tsn_stream_value_length s = FORWARD_TSN_STREAM_LENGTH"

definition forward_tsn_stream_unmarshal :: "bytes \<Rightarrow> forward_tsn_stream outcome" where
  "forward_tsn_stream_unmarshal buf =
     (if length buf < FORWARD_TSN_STREAM_LENGTH then Err ErrChunkTooShort
      else
        and_then (get_u16 buf) (\<lambda>(identifier, reader).
        and_then (get_u16 reader) (\<lambda>(sequence, _).
          Ok \<lparr>fs_identifier = identifier, fs_sequence = sequence\<rparr>)))"

definition forward_tsn_stream_marshal_to :: "forward_tsn_stream \<Rightarrow> bytes \<Rightarrow> bytes outcome" where
  "forward_tsn_stream_marshal_to s writer =
     Ok (writer @ put_u16 (fs_identifier s) @ put_u16 (fs_sequence s))"

function read_forward_tsn_streams :: "bytes \<Rightarrow> nat \<Rightarrow> nat \<Rightarrow> nat \<Rightarrow> forward_tsn_stream list outcome"
where
  "read_forward_tsn_streams buf end offset remaining =
     (if remaining > 0
      then and_then (bytes_slice buf offset end) (\<lambda>slice.
           and_then (forward_tsn_stream_unmarshal slice) (\<lambda>s.
           and_then (read_forward_tsn_streams buf end
                       (offset + forward_tsn_stream_value_length s)
                       (remaining - forward_tsn_stream_value_length s)) (\<lambda>ss.
             Ok (s # ss))))
      else Ok [])"
  by pat_completeness auto
termination
  by (relation "measure (\<lambda>(buf, end, offset, remaining). remaining)")
    (auto simp: forward_tsn_stream_value_length_def)

declare read_forward_tsn_streams.simps [simp del]

definition forward_tsn_value_length :: "chunk_forward_tsn \<Rightarrow> nat" where
  "forward_tsn_value_length c =
     NEW_CUMULATIVE_TSN_LENGTH + FORWARD_TSN_STREAM_LENGTH * length (ft_streams c)"

definition forward_tsn_header :: "chunk_forward_tsn \<Rightarrow> chunk_header" where
  "forward_tsn_header c =
     \<lparr>ch_typ = CT_FORWARD_TSN, ch_flags = 0, ch_value_length = of_nat (forward_tsn_value_length c)\<rparr>"

definition forward_tsn_unmarshal :: "bytes \<Rightarrow> chunk_forward_tsn outcome" where
  "forward_tsn_unmarshal buf =
     and_then (chunk_header_unmarshal buf) (\<lambda>header.
       if ch_typ header \<noteq> CT_FORWARD_TSN then Err ErrChunkTypeNotForwardTsn
       else
         let offset = CHUNK_HEADER_SIZE + NEW_CUMULATIVE_TSN_LENGTH in
         if length buf < offset then Err ErrChunkTooShort
         else
           and_then (bytes_slice buf CHUNK_HEADER_SIZE
                       (CHUNK_HEADER_SIZE + chunk_header_value_length header)) (\<lambda>reader.
           and_then (get_u32 reader) (\<lambda>(new_cumulative_tsn, _).
             let remaining = length buf - offset in
             and_then (read_forward_tsn_streams buf
                         (CHUNK_HEADER_SIZE + chunk_header_value_length header) offset remaining)
               (\<lambda>streams. Ok \<lparr>ft_new_cumulative_tsn = new_cumulative_tsn,
                               ft_streams = streams\<rparr>))))"

definition forward_tsn_marshal_to :: "chunk_forward_tsn \<Rightarrow> bytes \<Rightarrow> bytes outcome" where
  "forward_tsn_marshal_to c writer =
     and_then (chunk_header_marshal_to (forward_tsn_header c) writer) (\<lambda>writer.
       foldl (\<lambda>w s. and_then w (\<lambda>w.
           and_then (forward_tsn_stream_marshal_to s []) (\<lambda>m. Ok (w @ m))))
         (Ok (writer @ put_u32 (ft_new_cumulative_tsn c))) (ft_streams c))"

lemmas forward_tsn_defs =
  forward_tsn_value_length_def forward_tsn_header_def forward_tsn_unmarshal_def
  forward_tsn_marshal_to_def

abbreviation forward_tsn_stream_bytes :: "forward_tsn_stream \<Rightarrow> bytes" where
  "forward_tsn_stream_bytes s \<equiv> put_u16 (fs_identifier s) @ put_u16 (fs_sequence s)"

lemma forward_tsn_streams_marshal:
  "foldl (\<lambda>w s. and_then w (\<lambda>w. and_then (forward_tsn_stream_marshal_to s []) (\<lambda>m. Ok (w @ m))))
     (Ok w) ss = Ok (w @ concat (map forward_tsn_stream_bytes ss))"
  by (induction ss arbitrary: w) (simp_all add: forward_tsn_stream_marshal_to_def)

lemma length_concat_forward_tsn [simp]:
  "length (concat (map forward_tsn_stream_bytes ss)) = 4 * length ss"
  by (induction ss) simp_all

lemma forward_tsn_stream_no_panic [simp]: "forward_tsn_stream_unmarshal buf \<noteq> Panic"
  by (auto simp: forward_tsn_stream_unmarshal_def split: prod.splits dest!: get_length)

lemma forward_tsn_stream_OkD: "forward_tsn_stream_unmarshal buf = Ok s \<Longrightarrow> 4 \<le> length buf"
  by (simp add: forward_tsn_stream_unmarshal_def split: if_splits)

lemma read_forward_tsn_streams_step:
  assumes "offset \<le> end" and "bytes_slice raw offset end = Ok s"
    and "forward_tsn_stream_unmarshal s = Ok st"
  shows "offset + 4 \<le> end"
  using slice_OkD [OF assms(2)] forward_tsn_stream_OkD [OF assms(3)] assms(1) by auto

lemma read_forward_tsn_streams_no_panic:
  "offset \<le> end \<Longrightarrow> end \<le> length buf \<Longrightarrow>
    read_forward_tsn_streams buf end offset remaining \<noteq> Panic"
proof (induction buf "end" offset remaining rule: read_forward_tsn_streams.induct)
  case (1 buf "end" offset remaining)
  then show ?case
    by (subst read_forward_tsn_streams.simps)
      (auto simp: forward_tsn_stream_value_length_def dest: read_forward_tsn_streams_step)
qed

lemma read_forward_tsn_streams_fits:
  "read_forward_tsn_streams buf end offset remaining = Ok ss \<Longrightarrow> offset \<le> end \<Longrightarrow>
    offset + 4 * length ss \<le> end"
proof (induction buf "end" offset remaining arbitrary: ss rule: read_forward_tsn_streams.induct)
  case (1 buf "end" offset remaining)
  show ?case
  proof (cases "0 < remaining")
    case True
    with 1(2) obtain s st ss' where s: "bytes_slice buf offset end = Ok s"
        "forward_tsn_stream_unmarshal s = Ok st"
      and r: "read_forward_tsn_streams buf end (offset + forward_tsn_stream_value_length st)
          (remaining - forward_tsn_stream_value_length st) = Ok ss'" "ss = st # ss'"
      by (subst (asm) read_forward_tsn_streams.simps) (auto simp: and_then_eq_Ok)
    have "offset + 4 \<le> end"
      using 1(3) s by (rule read_forward_tsn_streams_step)
    then show ?thesis
      using 1(1) [OF True s r(1)] by (simp add: r(2) forward_tsn_stream_value_length_def)
  qed (use 1(2,3) in \<open>simp add: read_forward_tsn_streams.simps\<close>)
qed

lemma read_forward_tsn_streams_put:
  "read_forward_tsn_streams (h @ concat (map forward_tsn_stream_bytes ss))
    (length h + 4 * length ss) (length h) (4 * length ss) = Ok ss"
proof (induction ss arbitrary: h)
  case (Cons s ss)
  show ?case
    using Cons.IH [of "h @ forward_tsn_stream_bytes s"]
    by (subst read_forward_tsn_streams.simps)
      (simp add: bytes_slice_def forward_tsn_stream_unmarshal_def add.assoc
        forward_tsn_stream_value_length_def)
qed (simp add: read_forward_tsn_streams.simps)

lemma read_forward_tsn_streams_chunk:
  "length h = 8 \<Longrightarrow> read_forward_tsn_streams (h @ concat (map forward_tsn_stream_bytes ss))
    (8 + 4 * length ss) 8 (4 * length ss) = Ok ss"
  using read_forward_tsn_streams_put [of h ss] by simp

text \<open>The length field may say less than the four bytes the decoder reads.\<close>

lemma forward_tsn_panic_iff:
  "forward_tsn_unmarshal raw = Panic \<longleftrightarrow>
    (\<exists>h. chunk_header_unmarshal raw = Ok h \<and> ch_typ h = CT_FORWARD_TSN \<and> 8 \<le> length raw \<and>
      chunk_header_value_length h < 4)"
proof (cases "chunk_header_unmarshal raw")
  case (Ok h)
  then show ?thesis
    using chunk_header_unmarshal_OkD [OF Ok]
      read_forward_tsn_streams_no_panic [of 8 "4 + chunk_header_value_length h" raw "length raw - 8"]
    by (cases "4 \<le> chunk_header_value_length h")
      (auto simp: forward_tsn_defs bytes_slice_def Let_def split: prod.splits)
qed (simp_all add: forward_tsn_defs)

interpretation forward_tsn: chunk_codec
  forward_tsn_unmarshal forward_tsn_marshal_to forward_tsn_value_length
  "\<lambda>_. CT_FORWARD_TSN" "\<lambda>c. value_fits (forward_tsn_value_length c)" "\<lambda>_. False" "\<lambda>c. c"
proof (unfold_locales, goal_cases)
  case (1 raw c)
  then show ?case
    by (auto simp: forward_tsn_defs Let_def and_then_eq_Ok split: if_splits prod.splits
        dest!: chunk_header_unmarshal_OkD slice_OkD get_length read_forward_tsn_streams_fits)
next
  case (5 c m rest)
  let ?body = "put_u32 (ft_new_cumulative_tsn c) @ concat (map forward_tsn_stream_bytes (ft_streams c))"
  have m: "m = CT_FORWARD_TSN # 0 # put_u16 (of_nat (forward_tsn_value_length c) + 4) @ ?body"
    using 5 by (auto simp: forward_tsn_marshal_to_def forward_tsn_header_def chunk_header_marshal_to_def
        forward_tsn_streams_marshal)
  have r: "rest = []" and p: "padding (length m) = []"
    using 5 by (simp_all add: follows_def m padding_def get_padding_size_zero forward_tsn_value_length_def)
  have n: "length ?body = forward_tsn_value_length c" by (simp add: forward_tsn_value_length_def)
  note e = chunk_encoded [OF m n 5(1), of False "[]"]
  have s: "read_forward_tsn_streams m (4 + forward_tsn_value_length c) 8 (length m - 8) =
      Ok (ft_streams c)"
    using read_forward_tsn_streams_chunk [of "take 8 m" "ft_streams c"]
    by (simp add: m forward_tsn_value_length_def)
  have l: "8 \<le> length m" by (simp add: m)
  show ?case
    using e s l by (simp add: r p follows_def forward_tsn_unmarshal_def Let_def)
qed (auto simp: forward_tsn_defs chunk_header_defs and_then_eq_Ok Let_def forward_tsn_streams_marshal
    split: if_splits prod.splits dest!: chunk_header_unmarshal_OkD)

end
