(* ===== verification/Chunk_Params.thy ===== *)
theory Chunk_Params
  imports Chunk_Control
begin

text \<open>
  The chunks that carry parameters: HEARTBEAT, HEARTBEAT-ACK, RECONFIG, INIT and INIT-ACK
  (src/src/chunk/chunk\_heartbeat.rs, chunk\_heartbeat\_ack.rs, chunk\_reconfig.rs and
  chunk\_init.rs).  They rest on the contract of the parameters through the interpretation
  \<open>param\<close> of \<open>param_codec\<close>.
\<close>

section \<open>Padded parameter lists\<close>

text \<open>
  The loop of \<^verbatim>\<open>value_length\<close> and of \<^verbatim>\<open>marshal_to\<close> in chunk\_init.rs and
  chunk\_heartbeat\_ack.rs: every parameter but the last one is padded.
\<close>

fun params_padded_length :: "param list \<Rightarrow> nat" where
  "params_padded_length [] = 0"
| "params_padded_length [p] = PARAM_HEADER_LENGTH + param_value_length p"
| "params_padded_length (p # q # ps) =
     (let p_len = PARAM_HEADER_LENGTH + param_value_length p in
      p_len + get_padding_size p_len + params_padded_length (q # ps))"

fun params_padded_marshal :: "param list \<Rightarrow> bytes \<Rightarrow> bytes outcome" where
  "params_padded_marshal [] buf = Ok buf"
| "params_padded_marshal [p] buf = and_then (param_marshal p) (\<lambda>pp. Ok (buf @ pp))"
| "params_padded_marshal (p # q # ps) buf =
     and_then (param_marshal p) (\<lambda>pp.
       let cnt = get_padding_size (length pp) in
       params_padded_marshal (q # ps) (buf @ pp @ replicate cnt 0))"

lemma param_marshal_obtain:
  obtains m where "param_marshal p = Ok m" and "length m = 4 + param_value_length p"
  using param.total [of p] by (auto simp: param_marshal_def)

lemma param_marshal_length: "param_marshal p = Ok m \<Longrightarrow> length m = 4 + param_value_length p"
  by (simp add: param_marshal_def param.marshal_length)

lemma param_marshal_roundtrip: "param_wf p \<Longrightarrow> param_marshal p = Ok m \<Longrightarrow> build_param (m @ r) = Ok p"
  by (simp add: param_marshal_def param.roundtrip)

lemma params_padded_total:
  "\<exists>m. (\<forall>w. params_padded_marshal ps w = Ok (w @ m)) \<and> length m = params_padded_length ps"
proof (induction ps rule: params_padded_length.induct)
  case (2 p)
  show ?case by (rule param_marshal_obtain [of p]) auto
next
  case (3 p q ps)
  obtain m where m: "param_marshal p = Ok m" "length m = 4 + param_value_length p"
    by (rule param_marshal_obtain)
  obtain r where "params_padded_marshal (q # ps) w = Ok (w @ r)"
      "length r = params_padded_length (q # ps)" for w
    using 3 by auto
  then show ?case
    by (intro exI [of _ "m @ replicate (get_padding_size (length m)) 0 @ r"]) (simp add: m Let_def)
qed simp

lemma params_padded_obtain:
  obtains m where "\<And>w. params_padded_marshal ps w = Ok (w @ m)" and "length m = params_padded_length ps"
  using params_padded_total [of ps] by auto

section \<open>HEARTBEAT and HEARTBEAT-ACK\<close>

definition heartbeat_value_length :: "param list \<Rightarrow> nat" where
  "heartbeat_value_length params =
     foldl (\<lambda>length p. length + (PARAM_HEADER_LENGTH + param_value_length p)) 0 params"

definition heartbeat_header :: "param list \<Rightarrow> chunk_header" where
  "heartbeat_header params =
     \<lparr>ch_typ = CT_HEARTBEAT, ch_flags = 0, ch_value_length = of_nat (heartbeat_value_length params)\<rparr>"

definition heartbeat_unmarshal :: "bytes \<Rightarrow> param list outcome" where
  "heartbeat_unmarshal raw =
     and_then (chunk_header_unmarshal raw) (\<lambda>header.
       if ch_typ header \<noteq> CT_HEARTBEAT then Err ErrChunkTypeNotHeartbeat
       else if length raw \<le> CHUNK_HEADER_SIZE then Err ErrHeartbeatNotLongEnoughInfo
       else
         and_then (bytes_slice raw CHUNK_HEADER_SIZE
                     (CHUNK_HEADER_SIZE + chunk_header_value_length header)) (\<lambda>slice.
         and_then (build_param slice) (\<lambda>p.
           if ph_typ (param_header_of p) \<noteq> PT_HeartbeatInfo then Err ErrHeartbeatParam
           else Ok [p])))"

definition heartbeat_marshal_to :: "param list \<Rightarrow> bytes \<Rightarrow> bytes outcome" where
  "heartbeat_marshal_to params buf =
     and_then (chunk_header_marshal_to (heartbeat_header params) buf) (\<lambda>buf.
       foldl (\<lambda>w p. and_then w (\<lambda>w. and_then (param_marshal p) (\<lambda>m. Ok (w @ m)))) (Ok buf) params)"

definition heartbeat_ack_value_length :: "param list \<Rightarrow> nat" where
  "heartbeat_ack_value_length params = params_padded_length params"

definition heartbeat_ack_header :: "param list \<Rightarrow> chunk_header" where
  "heartbeat_ack_header params =
     \<lparr>ch_typ = CT_HEARTBEAT_ACK, ch_flags = 0,
      ch_value_length = of_nat (heartbeat_ack_value_length params)\<rparr>"

definition heartbeat_ack_unmarshal :: "bytes \<Rightarrow> param list outcome" where
  "heartbeat_ack_unmarshal raw =
     and_then (chunk_header_unmarshal raw) (\<lambda>header.
       if ch_typ header \<noteq> CT_HEARTBEAT_ACK then Err ErrChunkTypeNotHeartbeatAck
       else if length raw \<le> CHUNK_HEADER_SIZE then Err ErrHeartbeatNotLongEnoughInfo
       else
         and_then (bytes_slice raw CHUNK_HEADER_SIZE
                     (CHUNK_HEADER_SIZE + chunk_header_value_length header)) (\<lambda>slice.
         and_then (build_param slice) (\<lambda>p.
           if ph_typ (param_header_of p) \<noteq> PT_HeartbeatInfo then Err ErrHeartbeatParam
           else Ok [p])))"

definition heartbeat_ack_marshal_to :: "param list \<Rightarrow> bytes \<Rightarrow> bytes outcome" where
  "heartbeat_ack_marshal_to params buf =
     (if length params \<noteq> 1 then Err ErrHeartbeatAckParams
      else if ph_typ (param_header_of (params ! 0)) \<noteq> PT_HeartbeatInfo
      then Err ErrHeartbeatAckNotHeartbeatInfo
      else
        and_then (chunk_header_marshal_to (heartbeat_ack_header params) buf)
          (params_padded_marshal params))"

lemmas heartbeat_defs =
  heartbeat_value_length_def heartbeat_header_def heartbeat_unmarshal_def heartbeat_marshal_to_def
  heartbeat_ack_value_length_def heartbeat_ack_header_def heartbeat_ack_unmarshal_def
  heartbeat_ack_marshal_to_def

text \<open>What both chunks carry: one heartbeat info.\<close>

fun is_heartbeat_info :: "param list \<Rightarrow> bool" where
  "is_heartbeat_info [ParamHeartbeatInfo info] \<longleftrightarrow> length info + 8 < 65536"
| "is_heartbeat_info _ \<longleftrightarrow> False"

lemma heartbeats_no_panic:
  "heartbeat_unmarshal raw \<noteq> Panic" "heartbeat_ack_unmarshal raw \<noteq> Panic"
  by (auto simp: heartbeat_defs build_param_no_panic dest: chunk_header_unmarshal_OkD)

lemma foldl_param_marshal_total:
  "\<exists>m. \<forall>w. foldl (\<lambda>w p. and_then w (\<lambda>w. and_then (param_marshal p) (\<lambda>m. Ok (w @ m)))) (Ok w) ps
    = Ok (w @ m)"
proof (induction ps)
  case (Cons p ps)
  obtain m where "param_marshal p = Ok m" by (rule param_marshal_obtain)
  with Cons show ?case by auto
qed simp

lemma foldl_param_marshal_obtain:
  obtains m where
    "\<And>w. foldl (\<lambda>w p. and_then w (\<lambda>w. and_then (param_marshal p) (\<lambda>m. Ok (w @ m)))) (Ok w) ps
    = Ok (w @ m)"
  using foldl_param_marshal_total [of ps] by auto

lemma build_param_heartbeat_info:
  "length info + 8 < 65536 \<Longrightarrow> param_marshal (ParamHeartbeatInfo info) = Ok m \<Longrightarrow>
    build_param m = Ok (ParamHeartbeatInfo info)"
  using param_marshal_roundtrip [of "ParamHeartbeatInfo info" m "[]"] by simp

lemma heartbeat_info_typ: "ph_typ (param_header_of (ParamHeartbeatInfo info)) = PT_HeartbeatInfo"
  by (simp add: wire_defs)

interpretation heartbeat: chunk_codec
  heartbeat_unmarshal heartbeat_marshal_to heartbeat_value_length
  "\<lambda>_. CT_HEARTBEAT" is_heartbeat_info "\<lambda>_. True" "\<lambda>c. c"
proof (unfold_locales, goal_cases)
  case (3 c w)
  show ?case
    by (rule foldl_param_marshal_obtain [of c])
      (simp add: heartbeat_marshal_to_def chunk_header_marshal_to_def)
next
  case (4 c)
  then obtain i where "c = [ParamHeartbeatInfo i]" by (cases c rule: is_heartbeat_info.cases) auto
  moreover obtain m where "param_marshal (ParamHeartbeatInfo i) = Ok m"
      "length m = 4 + param_value_length (ParamHeartbeatInfo i)"
    by (rule param_marshal_obtain)
  ultimately show ?case by (auto simp: heartbeat_defs chunk_header_defs)
next
  case (5 c m rest)
  then obtain i where c: "c = [ParamHeartbeatInfo i]" by (cases c rule: is_heartbeat_info.cases) auto
  obtain b where b: "param_marshal (ParamHeartbeatInfo i) = Ok b"
      "length b = 4 + param_value_length (ParamHeartbeatInfo i)"
    by (rule param_marshal_obtain)
  have n: "length b = heartbeat_value_length c" using b by (simp add: c heartbeat_defs)
  have m: "m = CT_HEARTBEAT # 0 # put_u16 (of_nat (heartbeat_value_length c) + 4) @ b"
    using 5 b by (auto simp: c heartbeat_header_def heartbeat_marshal_to_def chunk_header_marshal_to_def)
  have f: "heartbeat_value_length c + 4 < 65536" using 5 by (simp add: c heartbeat_defs wire_defs)
  have "b \<noteq> []" using b by auto
  then show ?case
    using chunk_encoded [OF m n f 5(3)] 5(1) build_param_heartbeat_info [OF _ b(1)]
    by (simp add: heartbeat_unmarshal_def) (simp add: m c heartbeat_info_typ del: param_header_of.simps)
qed (auto simp: heartbeat_defs and_then_eq_Ok split: if_splits
    dest!: chunk_header_unmarshal_OkD slice_OkD build_param_fits)

interpretation heartbeat_ack: chunk_codec
  heartbeat_ack_unmarshal heartbeat_ack_marshal_to heartbeat_ack_value_length
  "\<lambda>_. CT_HEARTBEAT_ACK" is_heartbeat_info "\<lambda>_. True" "\<lambda>c. c"
proof (unfold_locales, goal_cases)
  case (3 c w)
  show ?case
    by (rule params_padded_obtain [of c])
      (simp add: heartbeat_ack_marshal_to_def chunk_header_marshal_to_def)
next
  case (4 c)
  then obtain i where "c = [ParamHeartbeatInfo i]" by (cases c rule: is_heartbeat_info.cases) auto
  moreover obtain m where "param_marshal (ParamHeartbeatInfo i) = Ok m"
      "length m = 4 + param_value_length (ParamHeartbeatInfo i)"
    by (rule param_marshal_obtain)
  ultimately show ?case
    using heartbeat_info_typ [of i]
    by (auto simp: heartbeat_defs chunk_header_defs simp del: param_header_of.simps)
next
  case (5 c m rest)
  then obtain i where c: "c = [ParamHeartbeatInfo i]" by (cases c rule: is_heartbeat_info.cases) auto
  obtain b where b: "param_marshal (ParamHeartbeatInfo i) = Ok b"
      "length b = 4 + param_value_length (ParamHeartbeatInfo i)"
    by (rule param_marshal_obtain)
  have n: "length b = heartbeat_ack_value_length c" using b by (simp add: c heartbeat_defs)
  have m: "m = CT_HEARTBEAT_ACK # 0 # put_u16 (of_nat (heartbeat_ack_value_length c) + 4) @ b"
    using 5 b heartbeat_info_typ [of i]
    by (auto simp: c heartbeat_ack_header_def heartbeat_ack_marshal_to_def chunk_header_marshal_to_def
        simp del: param_header_of.simps)
  have f: "heartbeat_ack_value_length c + 4 < 65536" using 5 by (simp add: c heartbeat_defs wire_defs)
  have "b \<noteq> []" using b by auto
  then show ?case
    using chunk_encoded [OF m n f 5(3)] 5(1) build_param_heartbeat_info [OF _ b(1)]
    by (simp add: heartbeat_ack_unmarshal_def)
      (simp add: m c heartbeat_info_typ del: param_header_of.simps)
qed (auto simp: heartbeat_defs and_then_eq_Ok split: if_splits
    dest!: chunk_header_unmarshal_OkD slice_OkD build_param_fits)

section \<open>RECONFIG\<close>

record chunk_reconfig =
  cr_param_a :: "param option"
  cr_param_b :: "param option"

definition reconfig_value_length :: "chunk_reconfig \<Rightarrow> nat" where
  "reconfig_value_length c =
     (let l = PARAM_HEADER_LENGTH;
          (l, param_a_value_length) =
            (case cr_param_a c of
               Some param_a \<Rightarrow> (l + param_value_length param_a, param_value_length param_a)
             | None \<Rightarrow> (l, 0)) in
      case cr_param_b c of
        Some param_b \<Rightarrow>
          let padding = get_padding_size (PARAM_HEADER_LENGTH + param_a_value_length) in
          l + (PARAM_HEADER_LENGTH + param_value_length param_b + padding)
      | None \<Rightarrow> l)"

definition reconfig_header :: "chunk_reconfig \<Rightarrow> chunk_header" where
  "reconfig_header c =
     \<lparr>ch_typ = CT_RECONFIG, ch_flags = 0, ch_value_length = of_nat (reconfig_value_length c)\<rparr>"

definition reconfig_unmarshal :: "bytes \<Rightarrow> chunk_reconfig outcome" where
  "reconfig_unmarshal raw =
     and_then (chunk_header_unmarshal raw) (\<lambda>header.
       if ch_typ header \<noteq> CT_RECONFIG then Err ErrChunkTypeNotReconfig
       else
         and_then (bytes_slice raw CHUNK_HEADER_SIZE
                     (CHUNK_HEADER_SIZE + chunk_header_value_length header)) (\<lambda>slice.
         and_then (build_param slice) (\<lambda>param_a.
           let padding = get_padding_size (PARAM_HEADER_LENGTH + param_value_length param_a);
               offset = CHUNK_HEADER_SIZE + PARAM_HEADER_LENGTH + param_value_length param_a + padding in
           if CHUNK_HEADER_SIZE + chunk_header_value_length header > offset
           then
             and_then (bytes_slice raw offset (CHUNK_HEADER_SIZE + chunk_header_value_length header))
               (\<lambda>slice.
             and_then (build_param slice) (\<lambda>param_b.
               Ok \<lparr>cr_param_a = Some param_a, cr_param_b = Some param_b\<rparr>))
           else Ok \<lparr>cr_param_a = Some param_a, cr_param_b = None\<rparr>)))"

definition reconfig_marshal_to :: "chunk_reconfig \<Rightarrow> bytes \<Rightarrow> bytes outcome" where
  "reconfig_marshal_to c writer =
     and_then (chunk_header_marshal_to (reconfig_header c) writer) (\<lambda>writer.
       case cr_param_a c of
         None \<Rightarrow> Err ErrChunkReconfigInvalidParamA
       | Some param_a \<Rightarrow>
           and_then (param_marshal param_a) (\<lambda>m.
             let writer = writer @ m; param_a_value_length = param_value_length param_a in
             case cr_param_b c of
               Some param_b \<Rightarrow>
                 let padding = get_padding_size (PARAM_HEADER_LENGTH + param_a_value_length) in
                 and_then (param_marshal param_b) (\<lambda>m. Ok (writer @ replicate padding 0 @ m))
             | None \<Rightarrow> Ok writer))"

lemmas reconfig_defs =
  reconfig_value_length_def reconfig_header_def reconfig_unmarshal_def reconfig_marshal_to_def

fun param_option_wf :: "param option \<Rightarrow> bool" where
  "param_option_wf None = True"
| "param_option_wf (Some p) = param_wf p"

definition reconfig_wf :: "chunk_reconfig \<Rightarrow> bool" where
  "reconfig_wf c \<longleftrightarrow> cr_param_a c \<noteq> None \<and> param_option_wf (cr_param_a c) \<and>
     param_option_wf (cr_param_b c) \<and> value_fits (reconfig_value_length c)"

lemma reconfig_no_panic: "reconfig_unmarshal raw \<noteq> Panic"
  by (auto simp: reconfig_unmarshal_def build_param_no_panic Let_def
      dest: chunk_header_unmarshal_OkD)

interpretation reconfig: chunk_codec
  reconfig_unmarshal reconfig_marshal_to reconfig_value_length
  "\<lambda>_. CT_RECONFIG" reconfig_wf "\<lambda>_. True" "\<lambda>c. c"
proof (unfold_locales, goal_cases)
  case (1 raw c)
  then show ?case
    by (auto simp: reconfig_defs Let_def and_then_eq_Ok split: if_splits
        dest!: chunk_header_unmarshal_OkD slice_OkD build_param_fits)
next
  case (3 c w)
  show ?case
    by (cases "cr_param_a c"; cases "cr_param_b c")
      (simp_all add: reconfig_marshal_to_def chunk_header_marshal_to_def Let_def and_then_assoc)
next
  case (4 c)
  then obtain a where a: "cr_param_a c = Some a" by (auto simp: reconfig_wf_def)
  obtain ma where ma: "param_marshal a = Ok ma" "length ma = 4 + param_value_length a"
    by (rule param_marshal_obtain)
  show ?case
  proof (cases "cr_param_b c")
    case (Some b)
    obtain mb where mb: "param_marshal b = Ok mb" "length mb = 4 + param_value_length b"
      by (rule param_marshal_obtain)
    show ?thesis
      by (simp add: a ma mb Some reconfig_defs chunk_header_marshal_to_def)
  qed (simp add: a ma reconfig_defs chunk_header_marshal_to_def)
next
  case (5 c m rest)
  then obtain a where a: "cr_param_a c = Some a" and wa: "param_wf a" by (auto simp: reconfig_wf_def)
  obtain ma where ma: "param_marshal a = Ok ma" and la: "length ma = 4 + param_value_length a"
    by (rule param_marshal_obtain)
  let ?n = "reconfig_value_length c"
  have f: "?n + 4 < 65536" using 5 by (simp add: reconfig_wf_def)
  show ?case
  proof (cases "cr_param_b c")
    case None
    have m: "m = CT_RECONFIG # 0 # put_u16 (of_nat ?n + 4) @ ma"
      using 5 by (simp add: a ma None reconfig_marshal_to_def reconfig_header_def chunk_header_marshal_to_def)
    have n: "length ma = ?n" by (simp add: la a None reconfig_value_length_def)
    show ?thesis
      using chunk_encoded [OF m n f 5(3)] param_marshal_roundtrip [OF wa ma, of "[]"]
      by (cases c) (use n a None in \<open>simp add: reconfig_unmarshal_def Let_def la\<close>)
  next
    case (Some b)
    obtain mb where mb: "param_marshal b = Ok mb" and lb: "length mb = 4 + param_value_length b"
      by (rule param_marshal_obtain)
    have wb: "param_wf b" using 5 by (simp add: Some reconfig_wf_def)
    let ?pad = "replicate (get_padding_size (4 + param_value_length a)) 0"
    have m: "m = CT_RECONFIG # 0 # put_u16 (of_nat ?n + 4) @ ma @ ?pad @ mb"
      using 5 by (simp add: a ma mb Some reconfig_marshal_to_def reconfig_header_def
          chunk_header_marshal_to_def Let_def)
    have n: "length (ma @ ?pad @ mb) = ?n" by (simp add: la lb a Some reconfig_value_length_def)
    have s: "bytes_slice (m @ padding (length m) @ rest)
        (8 + param_value_length a + get_padding_size (4 + param_value_length a)) (4 + ?n) = Ok mb"
    proof -
      have "m @ padding (length m) @ rest =
          (CT_RECONFIG # 0 # put_u16 (of_nat ?n + 4) @ ma @ ?pad) @ mb @ padding (length m) @ rest"
        by (simp add: m)
      then show ?thesis
        using n la lb by (simp only:) (rule slice_append; simp)
    qed
    show ?thesis
      using chunk_encoded [OF m n f 5(3)] s param_marshal_roundtrip [OF wa ma, of "?pad @ mb"]
        param_marshal_roundtrip [OF wb mb, of "[]"] n lb la
      by (cases c) (use a Some in \<open>simp add: reconfig_unmarshal_def Let_def\<close>)
  qed
qed (auto simp: reconfig_defs and_then_eq_Ok Let_def split: if_splits
    dest!: chunk_header_unmarshal_OkD)

section \<open>INIT and INIT-ACK\<close>

text \<open>
  chunk\_init.rs.  The loop over the parameters counts the bytes to the end of the buffer,
  not of the chunk, and stops when four or fewer remain.
\<close>

record chunk_init =
  ci_is_ack :: bool
  ci_initiate_tag :: u32
  ci_advertised_receiver_window_credit :: u32
  ci_num_outbound_streams :: u16
  ci_num_inbound_streams :: u16
  ci_initial_tsn :: u32
  ci_params :: "param list"

definition chunk_init_default :: chunk_init where
  "chunk_init_default =
     \<lparr>ci_is_ack = False, ci_initiate_tag = 0, ci_advertised_receiver_window_credit = 0,
      ci_num_outbound_streams = 0, ci_num_inbound_streams = 0, ci_initial_tsn = 0, ci_params = []\<rparr>"

definition INIT_CHUNK_MIN_LENGTH :: nat where
  "INIT_CHUNK_MIN_LENGTH = 16"

definition INIT_OPTIONAL_VAR_HEADER_LENGTH :: nat where
  "INIT_OPTIONAL_VAR_HEADER_LENGTH = 4"

lemma init_lengths_eq [simp]:
  "INIT_CHUNK_MIN_LENGTH = 16" "INIT_OPTIONAL_VAR_HEADER_LENGTH = 4"
  by (simp_all add: INIT_CHUNK_MIN_LENGTH_def INIT_OPTIONAL_VAR_HEADER_LENGTH_def)

function read_init_params :: "bytes \<Rightarrow> nat \<Rightarrow> nat \<Rightarrow> int \<Rightarrow> param list outcome" where
  "read_init_params raw end offset remaining =
     (if remaining > int INIT_OPTIONAL_VAR_HEADER_LENGTH
      then
        and_then (bytes_slice raw offset end) (\<lambda>slice.
        and_then (build_param slice) (\<lambda>p.
          let p_len = PARAM_HEADER_LENGTH + param_value_length p;
              len_plus_padding = p_len + get_padding_size p_len in
          and_then (read_init_params raw end (offset + len_plus_padding)
                      (remaining - int len_plus_padding)) (\<lambda>params. Ok (p # params))))
      else Ok [])"
  by pat_completeness auto
termination
  by (relation "measure (\<lambda>(raw, end, offset, remaining). nat remaining)") auto

declare read_init_params.simps [simp del]

definition init_value_length :: "chunk_init \<Rightarrow> nat" where
  "init_value_length c = 4 + 4 + 2 + 2 + 4 + params_padded_length (ci_params c)"

definition init_header :: "chunk_init \<Rightarrow> chunk_header" where
  "init_header c =
     \<lparr>ch_typ = (if ci_is_ack c then CT_INIT_ACK else CT_INIT), ch_flags = 0,
      ch_value_length = of_nat (init_value_length c)\<rparr>"

definition init_unmarshal :: "bytes \<Rightarrow> chunk_init outcome" where
  "init_unmarshal raw =
     and_then (chunk_header_unmarshal raw) (\<lambda>header.
       if \<not> (ch_typ header = CT_INIT \<or> ch_typ header = CT_INIT_ACK) then Err ErrChunkTypeNotTypeInit
       else if chunk_header_value_length header < INIT_CHUNK_MIN_LENGTH then Err ErrChunkValueNotLongEnough
       else if ch_flags header \<noteq> 0 then Err ErrChunkTypeInitFlagZero
       else
         and_then (bytes_slice raw CHUNK_HEADER_SIZE
                     (CHUNK_HEADER_SIZE + chunk_header_value_length header)) (\<lambda>reader.
         and_then (get_u32 reader) (\<lambda>(initiate_tag, reader).
         and_then (get_u32 reader) (\<lambda>(advertised_receiver_window_credit, reader).
         and_then (get_u16 reader) (\<lambda>(num_outbound_streams, reader).
         and_then (get_u16 reader) (\<lambda>(num_inbound_streams, reader).
         and_then (get_u32 reader) (\<lambda>(initial_tsn, reader).
           let offset = CHUNK_HEADER_SIZE + INIT_CHUNK_MIN_LENGTH;
               remaining = int (length raw) - int offset in
           and_then (read_init_params raw (CHUNK_HEADER_SIZE + chunk_header_value_length header)
                       offset remaining) (\<lambda>params.
             Ok \<lparr>ci_is_ack = (ch_typ header = CT_INIT_ACK), ci_initiate_tag = initiate_tag,
                 ci_advertised_receiver_window_credit = advertised_receiver_window_credit,
                 ci_num_outbound_streams = num_outbound_streams,
                 ci_num_inbound_streams = num_inbound_streams, ci_initial_tsn = initial_tsn,
                 ci_params = params\<rparr>))))))))"

definition init_marshal_to :: "chunk_init \<Rightarrow> bytes \<Rightarrow> bytes outcome" where
  "init_marshal_to c writer =
     and_then (chunk_header_marshal_to (init_header c) writer) (\<lambda>writer.
       params_padded_marshal (ci_params c)
         (writer @ put_u32 (ci_initiate_tag c) @ put_u32 (ci_advertised_receiver_window_credit c)
           @ put_u16 (ci_num_outbound_streams c) @ put_u16 (ci_num_inbound_streams c)
           @ put_u32 (ci_initial_tsn c)))"

definition init_check :: "chunk_init \<Rightarrow> unit outcome" where
  "init_check c =
     (if ci_initiate_tag c = 0 then Err ErrChunkTypeInitInitateTagZero
      else if ci_num_inbound_streams c = 0 then Err ErrInitInboundStreamRequestZero
      else if ci_num_outbound_streams c = 0 then Err ErrInitOutboundStreamRequestZero
      else if ci_advertised_receiver_window_credit c < 1500 then Err ErrInitAdvertisedReceiver1500
      else Ok ())"

definition init_set_supported_extensions :: "chunk_init \<Rightarrow> chunk_init" where
  "init_set_supported_extensions c =
     c\<lparr>ci_params := ci_params c @ [ParamSupportedExtensions [CT_RECONFIG, CT_FORWARD_TSN]]\<rparr>"

lemmas init_defs = init_value_length_def init_header_def init_unmarshal_def init_marshal_to_def

text \<open>
  The parameters an INIT can carry to its receiver: every one of them well formed, and the
  last one with a value, because the loop does not look at the last four bytes.
\<close>

definition init_wf :: "chunk_init \<Rightarrow> bool" where
  "init_wf c \<longleftrightarrow> list_all param_wf (ci_params c) \<and> value_fits (init_value_length c) \<and>
     (ci_params c \<noteq> [] \<longrightarrow> 0 < param_value_length (last (ci_params c)))"

lemma init_check_iff:
  "init_check c = Ok () \<longleftrightarrow> ci_initiate_tag c \<noteq> 0 \<and> ci_num_inbound_streams c \<noteq> 0 \<and>
     ci_num_outbound_streams c \<noteq> 0 \<and> 1500 \<le> ci_advertised_receiver_window_credit c"
  by (auto simp: init_check_def)

lemma params_padded_length_pos: "4 \<le> params_padded_length (p # ps)"
  by (cases ps) (simp_all add: Let_def)

lemma read_init_params_put:
  assumes "list_all param_wf ps" and "ps \<noteq> [] \<longrightarrow> 0 < param_value_length (last ps)"
    and "\<And>w. params_padded_marshal ps w = Ok (w @ m)" and "length pad < 4"
  shows "read_init_params (h @ m @ pad) (length h + length m) (length h) (int (length m + length pad)) = Ok ps"
  using assms
proof (induction ps arbitrary: h m rule: params_padded_length.induct)
  case 1
  then show ?case by (simp add: read_init_params.simps)
next
  case (2 p)
  obtain b where b: "param_marshal p = Ok b" and l: "length b = 4 + param_value_length p"
    by (rule param_marshal_obtain)
  have m: "m = b" using 2(3) [of "[]"] b by simp
  have "read_init_params (h @ b @ pad) e o' r = Ok []" if "r \<le> 4" for e o' r
    using that by (simp add: read_init_params.simps)
  then show ?case
    using 2 param_marshal_roundtrip [of p b "[]"] b l
    by (subst read_init_params.simps) (simp add: m bytes_slice_def Let_def)
next
  case (3 p q ps)
  obtain b where b: "param_marshal p = Ok b" and l: "length b = 4 + param_value_length p"
    by (rule param_marshal_obtain)
  obtain r where r: "\<And>w. params_padded_marshal (q # ps) w = Ok (w @ r)"
      "length r = params_padded_length (q # ps)"
    by (rule params_padded_obtain [of "q # ps"]) blast
  let ?z = "replicate (get_padding_size (length b)) 0"
  have m: "m = b @ ?z @ r" using 3(4) [of "[]"] b r by (simp add: Let_def)
  have "read_init_params ((h @ b @ ?z) @ r @ pad) (length (h @ b @ ?z) + length r)
      (length (h @ b @ ?z)) (int (length r + length pad)) = Ok (q # ps)"
    using 3 r(1) by (intro 3(1)) simp_all
  then show ?case
    using 3(2) param_marshal_roundtrip [of p b "?z @ r"] b l params_padded_length_pos [of q ps]
    by (subst read_init_params.simps) (simp add: m r(2) bytes_slice_def Let_def add.assoc)
qed

lemma read_init_params_ConsD:
  assumes "read_init_params raw end offset remaining = Ok (p # ps)"
  shows "offset + 4 + param_value_length p \<le> end"
    and "read_init_params raw end
      (offset + (4 + param_value_length p + get_padding_size (4 + param_value_length p)))
      (remaining - int (4 + param_value_length p + get_padding_size (4 + param_value_length p))) = Ok ps"
proof -
  obtain slice where s: "bytes_slice raw offset end = Ok slice" and p: "build_param slice = Ok p"
    and r: "read_init_params raw end
      (offset + (4 + param_value_length p + get_padding_size (4 + param_value_length p)))
      (remaining - int (4 + param_value_length p + get_padding_size (4 + param_value_length p))) = Ok ps"
    using assms by (subst (asm) read_init_params.simps)
      (auto simp: and_then_eq_Ok Let_def split: if_splits)
  show "offset + 4 + param_value_length p \<le> end"
    using slice_OkD [OF s] build_param_fits [OF p] by auto
  show "read_init_params raw end
      (offset + (4 + param_value_length p + get_padding_size (4 + param_value_length p)))
      (remaining - int (4 + param_value_length p + get_padding_size (4 + param_value_length p))) = Ok ps"
    by (rule r)
qed

lemma read_init_params_fits:
  "read_init_params raw end offset remaining = Ok ps \<Longrightarrow> offset \<le> end \<Longrightarrow>
    offset + params_padded_length ps \<le> end"
proof (induction ps arbitrary: offset remaining rule: params_padded_length.induct)
  case (2 p)
  then show ?case using read_init_params_ConsD by fastforce
next
  case (3 p q ps)
  note r = read_init_params_ConsD(2) [OF 3(2)]
  show ?case using 3(1) [OF refl r] read_init_params_ConsD(1) [OF r] by (simp add: Let_def)
qed simp

text \<open>A chunk that runs to the end of the buffer keeps every slice in range.\<close>

lemma read_init_params_no_panic:
  "remaining = int (length raw) - int offset \<Longrightarrow> end \<le> length raw \<Longrightarrow> length raw < end + 4 \<Longrightarrow>
    read_init_params raw end offset remaining \<noteq> Panic"
proof (induction raw "end" offset remaining rule: read_init_params.induct)
  case (1 raw "end" offset remaining)
  then show ?case
    by (subst read_init_params.simps) (auto simp: build_param_no_panic Let_def)
qed

lemma init_no_panic_last:
  assumes "chunk_header_unmarshal raw = Ok h" and "length raw < 4 + chunk_header_value_length h + 4"
  shows "init_unmarshal raw \<noteq> Panic"
  using assms chunk_header_unmarshal_OkD [OF assms(1)]
    read_init_params_no_panic [of _ raw 20 "4 + chunk_header_value_length h"]
  by (auto simp: init_unmarshal_def Let_def not_less split: prod.splits dest!: get_length slice_OkD)

interpretation init: chunk_codec
  init_unmarshal init_marshal_to init_value_length
  "\<lambda>c. if ci_is_ack c then CT_INIT_ACK else CT_INIT" init_wf "\<lambda>_. False" "\<lambda>c. c"
proof (unfold_locales, goal_cases)
  case (1 raw c)
  then show ?case
    by (auto simp: init_defs Let_def and_then_eq_Ok split: if_splits prod.splits
        dest!: chunk_header_unmarshal_OkD read_init_params_fits)
next
  case (2 raw c)
  then show ?case
    by (auto simp: init_unmarshal_def Let_def and_then_eq_Ok split: if_splits prod.splits
        dest!: chunk_header_unmarshal_OkD)
next
  case (3 c w)
  show ?case
    by (rule params_padded_obtain [of "ci_params c"])
      (simp add: init_marshal_to_def chunk_header_marshal_to_def)
next
  case (4 c)
  show ?case
    by (rule params_padded_obtain [of "ci_params c"])
      (simp add: init_marshal_to_def chunk_header_marshal_to_def init_header_def init_value_length_def)
next
  case (5 c m rest)
  let ?n = "init_value_length c" and ?t = "if ci_is_ack c then CT_INIT_ACK else CT_INIT"
  let ?fix = "put_u32 (ci_initiate_tag c) @ put_u32 (ci_advertised_receiver_window_credit c)
    @ put_u16 (ci_num_outbound_streams c) @ put_u16 (ci_num_inbound_streams c)
    @ put_u32 (ci_initial_tsn c)"
  obtain b where b: "\<And>w. params_padded_marshal (ci_params c) w = Ok (w @ b)"
      "length b = params_padded_length (ci_params c)"
    by (rule params_padded_obtain [of "ci_params c"]) blast
  have r: "rest = []" using 5 by (simp add: follows_def)
  have wf: "list_all param_wf (ci_params c)" "?n + 4 < 65536"
      "ci_params c \<noteq> [] \<longrightarrow> 0 < param_value_length (last (ci_params c))"
    using 5 by (simp_all add: init_wf_def)
  have m: "m = ?t # 0 # put_u16 (of_nat ?n + 4) @ ?fix @ b"
    using 5 b by (simp add: init_marshal_to_def init_header_def chunk_header_marshal_to_def)
  have n: "length (?fix @ b) = ?n" by (simp add: b init_value_length_def)
  note e = chunk_encoded [OF m n wf(2), of False "[]"]
  have nn: "?n = 16 + length b" and lm: "length m = 20 + length b"
    using n by (simp_all add: m)
  have p: "read_init_params (m @ padding (length m)) (4 + ?n) 20 (int (length (m @ padding (length m))) - 20)
      = Ok (ci_params c)"
    using read_init_params_put [OF wf(1,3) b(1), of "padding (length m)" "?t # 0 # put_u16 (of_nat ?n + 4) @ ?fix"]
      get_padding_size_less [of "length m"] lm nn
    by (simp add: m split del: if_split)
  have l: "\<not> ?n < 16" by (simp add: init_value_length_def)
  have t: "?t = CT_INIT_ACK \<longleftrightarrow> ci_is_ack c" "?t = CT_INIT \<or> ?t = CT_INIT_ACK"
    by (simp_all add: ct_defs)
  show ?case
    using e p l t by (cases c) (simp add: r follows_def init_unmarshal_def Let_def)
qed simp

text \<open>What a parameter list keeps: the length and the presence of a last value.\<close>

lemma init_set_supported_extensions_wf:
  assumes "init_wf c" and "init_value_length c \<le> 60000"
  shows "init_wf (init_set_supported_extensions c)"
proof -
  have "params_padded_length (ps @ [p]) \<le> params_padded_length ps + 7 + param_value_length p" for ps p
  proof (induction ps rule: params_padded_length.induct)
    case (2 q)
    then show ?case using get_padding_size_less [of "4 + param_value_length q"] by (simp add: Let_def)
  qed (simp_all add: Let_def)
  from this [of "ci_params c" "ParamSupportedExtensions [CT_RECONFIG, CT_FORWARD_TSN]"] assms
  show ?thesis
    by (simp add: init_wf_def init_set_supported_extensions_def init_value_length_def wire_defs)
qed

end
