(* ===== verification/Packet.thy ===== *)
theory Packet
  imports Chunk_Params
begin

text \<open>
  The trait object \<^verbatim>\<open>Box<dyn Chunk>\<close> as the datatype \<open>chunk\<close>, an instance of \<open>chunk_codec\<close>
  again, and src/src/packet.rs on top of it.  The lemmas about packets use only the laws of
  that instance, named \<open>chunk\<close>.
\<close>

section \<open>Trait objects\<close>

datatype chunk =
    ChunkInit chunk_init
  | ChunkAbort "error_cause list"
  | ChunkCookieEcho bytes
  | ChunkCookieAck
  | ChunkHeartbeat "param list"
  | ChunkHeartbeatAck "param list"
  | ChunkPayloadData payload_data
  | ChunkSelectiveAck selective_ack
  | ChunkReconfig chunk_reconfig
  | ChunkForwardTsn chunk_forward_tsn
  | ChunkError "error_cause list"
  | ChunkShutdown chunk_shutdown
  | ChunkShutdownAck
  | ChunkShutdownComplete
  | ChunkUnknown chunk_unknown

text \<open>
  The match on the type byte in \<^verbatim>\<open>Packet::unmarshal\<close>.  HEARTBEAT-ACK has no arm of its own.
\<close>

definition chunk_unmarshal :: "time_ms \<Rightarrow> bytes \<Rightarrow> chunk outcome" where
  "chunk_unmarshal now raw =
     (case raw of
        [] \<Rightarrow> Panic
      | ct # _ \<Rightarrow>
          if ct = CT_INIT then and_then (init_unmarshal raw) (\<lambda>c. Ok (ChunkInit c))
          else if ct = CT_INIT_ACK then and_then (init_unmarshal raw) (\<lambda>c. Ok (ChunkInit c))
          else if ct = CT_ABORT then and_then (chunk_abort_unmarshal raw) (\<lambda>c. Ok (ChunkAbort c))
          else if ct = CT_COOKIE_ECHO then and_then (cookie_echo_unmarshal raw) (\<lambda>c. Ok (ChunkCookieEcho c))
          else if ct = CT_COOKIE_ACK then and_then (cookie_ack_unmarshal raw) (\<lambda>_. Ok ChunkCookieAck)
          else if ct = CT_HEARTBEAT then and_then (heartbeat_unmarshal raw) (\<lambda>c. Ok (ChunkHeartbeat c))
          else if ct = CT_PAYLOAD_DATA
          then and_then (payload_data_unmarshal now raw) (\<lambda>c. Ok (ChunkPayloadData c))
          else if ct = CT_SACK then and_then (selective_ack_unmarshal raw) (\<lambda>c. Ok (ChunkSelectiveAck c))
          else if ct = CT_RECONFIG then and_then (reconfig_unmarshal raw) (\<lambda>c. Ok (ChunkReconfig c))
          else if ct = CT_FORWARD_TSN then and_then (forward_tsn_unmarshal raw) (\<lambda>c. Ok (ChunkForwardTsn c))
          else if ct = CT_ERROR then and_then (chunk_error_unmarshal raw) (\<lambda>c. Ok (ChunkError c))
          else if ct = CT_SHUTDOWN then and_then (shutdown_unmarshal raw) (\<lambda>c. Ok (ChunkShutdown c))
          else if ct = CT_SHUTDOWN_ACK then and_then (shutdown_ack_unmarshal raw) (\<lambda>_. Ok ChunkShutdownAck)
          else if ct = CT_SHUTDOWN_COMPLETE
          then and_then (shutdown_complete_unmarshal raw) (\<lambda>_. Ok ChunkShutdownComplete)
          else and_then (chunk_unknown_unmarshal raw) (\<lambda>c. Ok (ChunkUnknown c)))"

fun chunk_marshal_to :: "chunk \<Rightarrow> bytes \<Rightarrow> bytes outcome" where
  "chunk_marshal_to (ChunkInit c) buf = init_marshal_to c buf"
| "chunk_marshal_to (ChunkAbort c) buf = chunk_abort_marshal_to c buf"
| "chunk_marshal_to (ChunkCookieEcho c) buf = cookie_echo_marshal_to c buf"
| "chunk_marshal_to ChunkCookieAck buf = cookie_ack_marshal_to () buf"
| "chunk_marshal_to (ChunkHeartbeat c) buf = heartbeat_marshal_to c buf"
| "chunk_marshal_to (ChunkHeartbeatAck c) buf = heartbeat_ack_marshal_to c buf"
| "chunk_marshal_to (ChunkPayloadData c) buf = payload_data_marshal_to c buf"
| "chunk_marshal_to (ChunkSelectiveAck c) buf = selective_ack_marshal_to c buf"
| "chunk_marshal_to (ChunkReconfig c) buf = reconfig_marshal_to c buf"
| "chunk_marshal_to (ChunkForwardTsn c) buf = forward_tsn_marshal_to c buf"
| "chunk_marshal_to (ChunkError c) buf = chunk_error_marshal_to c buf"
| "chunk_marshal_to (ChunkShutdown c) buf = shutdown_marshal_to c buf"
| "chunk_marshal_to ChunkShutdownAck buf = shutdown_ack_marshal_to () buf"
| "chunk_marshal_to ChunkShutdownComplete buf = shutdown_complete_marshal_to () buf"
| "chunk_marshal_to (ChunkUnknown c) buf = chunk_unknown_marshal_to c buf"

definition chunk_marshal :: "chunk \<Rightarrow> bytes outcome" where
  "chunk_marshal c = chunk_marshal_to c []"

fun chunk_value_length :: "chunk \<Rightarrow> nat" where
  "chunk_value_length (ChunkInit c) = init_value_length c"
| "chunk_value_length (ChunkAbort c) = chunk_abort_value_length c"
| "chunk_value_length (ChunkCookieEcho c) = cookie_echo_value_length c"
| "chunk_value_length ChunkCookieAck = cookie_ack_value_length ()"
| "chunk_value_length (ChunkHeartbeat c) = heartbeat_value_length c"
| "chunk_value_length (ChunkHeartbeatAck c) = heartbeat_ack_value_length c"
| "chunk_value_length (ChunkPayloadData c) = payload_data_value_length c"
| "chunk_value_length (ChunkSelectiveAck c) = selective_ack_value_length c"
| "chunk_value_length (ChunkReconfig c) = reconfig_value_length c"
| "chunk_value_length (ChunkForwardTsn c) = forward_tsn_value_length c"
| "chunk_value_length (ChunkError c) = chunk_error_value_length c"
| "chunk_value_length (ChunkShutdown c) = shutdown_value_length c"
| "chunk_value_length ChunkShutdownAck = shutdown_ack_value_length ()"
| "chunk_value_length ChunkShutdownComplete = shutdown_complete_value_length ()"
| "chunk_value_length (ChunkUnknown c) = chunk_unknown_value_length c"

text \<open>Only INIT and INIT-ACK check anything.\<close>

fun chunk_check :: "chunk \<Rightarrow> unit outcome" where
  "chunk_check (ChunkInit c) = init_check c"
| "chunk_check _ = Ok ()"

fun chunk_typ :: "chunk \<Rightarrow> chunk_type" where
  "chunk_typ (ChunkInit c) = (if ci_is_ack c then CT_INIT_ACK else CT_INIT)"
| "chunk_typ (ChunkAbort c) = CT_ABORT"
| "chunk_typ (ChunkCookieEcho c) = CT_COOKIE_ECHO"
| "chunk_typ ChunkCookieAck = CT_COOKIE_ACK"
| "chunk_typ (ChunkHeartbeat c) = CT_HEARTBEAT"
| "chunk_typ (ChunkHeartbeatAck c) = CT_HEARTBEAT_ACK"
| "chunk_typ (ChunkPayloadData c) = CT_PAYLOAD_DATA"
| "chunk_typ (ChunkSelectiveAck c) = CT_SACK"
| "chunk_typ (ChunkReconfig c) = CT_RECONFIG"
| "chunk_typ (ChunkForwardTsn c) = CT_FORWARD_TSN"
| "chunk_typ (ChunkError c) = CT_ERROR"
| "chunk_typ (ChunkShutdown c) = CT_SHUTDOWN"
| "chunk_typ ChunkShutdownAck = CT_SHUTDOWN_ACK"
| "chunk_typ ChunkShutdownComplete = CT_SHUTDOWN_COMPLETE"
| "chunk_typ (ChunkUnknown c) = ch_typ (cu_hdr c)"

text \<open>
  The chunks a receiver decodes to what was sent: those whose lengths fit, and, of the
  unknown ones, those whose type has no arm of its own.
\<close>

definition known_chunk_types :: "chunk_type set" where
  "known_chunk_types = {CT_INIT, CT_INIT_ACK, CT_ABORT, CT_COOKIE_ECHO, CT_COOKIE_ACK,
     CT_HEARTBEAT, CT_PAYLOAD_DATA, CT_SACK, CT_RECONFIG, CT_FORWARD_TSN, CT_ERROR, CT_SHUTDOWN,
     CT_SHUTDOWN_ACK, CT_SHUTDOWN_COMPLETE}"

fun chunk_wf :: "chunk \<Rightarrow> bool" where
  "chunk_wf (ChunkInit c) \<longleftrightarrow> init_wf c"
| "chunk_wf (ChunkAbort c) \<longleftrightarrow> value_fits (chunk_abort_value_length c)"
| "chunk_wf (ChunkCookieEcho c) \<longleftrightarrow> value_fits (length c)"
| "chunk_wf ChunkCookieAck \<longleftrightarrow> True"
| "chunk_wf (ChunkHeartbeat c) \<longleftrightarrow> is_heartbeat_info c"
| "chunk_wf (ChunkHeartbeatAck c) \<longleftrightarrow> False"
| "chunk_wf (ChunkPayloadData c) \<longleftrightarrow> value_fits (payload_data_value_length c)"
| "chunk_wf (ChunkSelectiveAck c) \<longleftrightarrow> value_fits (selective_ack_value_length c)"
| "chunk_wf (ChunkReconfig c) \<longleftrightarrow> reconfig_wf c"
| "chunk_wf (ChunkForwardTsn c) \<longleftrightarrow> value_fits (forward_tsn_value_length c)"
| "chunk_wf (ChunkError c) \<longleftrightarrow> value_fits (chunk_error_value_length c)"
| "chunk_wf (ChunkShutdown c) \<longleftrightarrow> True"
| "chunk_wf ChunkShutdownAck \<longleftrightarrow> True"
| "chunk_wf ChunkShutdownComplete \<longleftrightarrow> True"
| "chunk_wf (ChunkUnknown c) \<longleftrightarrow> value_fits (length (cu_value c)) \<and>
     ch_value_length (cu_hdr c) = of_nat (length (cu_value c)) \<and>
     ch_typ (cu_hdr c) \<notin> known_chunk_types"

text \<open>The chunks whose decoder leaves what follows them in the packet alone.\<close>

fun chunk_bundles :: "chunk \<Rightarrow> bool" where
  "chunk_bundles (ChunkInit c) \<longleftrightarrow> False"
| "chunk_bundles (ChunkAbort c) \<longleftrightarrow> False"
| "chunk_bundles (ChunkError c) \<longleftrightarrow> False"
| "chunk_bundles (ChunkForwardTsn c) \<longleftrightarrow> False"
| "chunk_bundles (ChunkShutdown c) \<longleftrightarrow> False"
| "chunk_bundles _ \<longleftrightarrow> True"

fun chunk_view :: "time_ms \<Rightarrow> chunk \<Rightarrow> chunk" where
  "chunk_view now (ChunkPayloadData c) = ChunkPayloadData (payload_data_view now c)"
| "chunk_view now c = c"

lemmas ct_distinct = ct_defs

text \<open>One equation per type byte.\<close>

lemma chunk_unmarshal_known:
  "chunk_unmarshal now (CT_INIT # b) = and_then (init_unmarshal (CT_INIT # b)) (\<lambda>c. Ok (ChunkInit c))"
  "chunk_unmarshal now (CT_INIT_ACK # b) = and_then (init_unmarshal (CT_INIT_ACK # b)) (\<lambda>c. Ok (ChunkInit c))"
  "chunk_unmarshal now (CT_ABORT # b) = and_then (chunk_abort_unmarshal (CT_ABORT # b)) (\<lambda>c. Ok (ChunkAbort c))"
  "chunk_unmarshal now (CT_COOKIE_ECHO # b) =
     and_then (cookie_echo_unmarshal (CT_COOKIE_ECHO # b)) (\<lambda>c. Ok (ChunkCookieEcho c))"
  "chunk_unmarshal now (CT_COOKIE_ACK # b) =
     and_then (cookie_ack_unmarshal (CT_COOKIE_ACK # b)) (\<lambda>_. Ok ChunkCookieAck)"
  "chunk_unmarshal now (CT_HEARTBEAT # b) =
     and_then (heartbeat_unmarshal (CT_HEARTBEAT # b)) (\<lambda>c. Ok (ChunkHeartbeat c))"
  "chunk_unmarshal now (CT_PAYLOAD_DATA # b) =
     and_then (payload_data_unmarshal now (CT_PAYLOAD_DATA # b)) (\<lambda>c. Ok (ChunkPayloadData c))"
  "chunk_unmarshal now (CT_SACK # b) =
     and_then (selective_ack_unmarshal (CT_SACK # b)) (\<lambda>c. Ok (ChunkSelectiveAck c))"
  "chunk_unmarshal now (CT_RECONFIG # b) =
     and_then (reconfig_unmarshal (CT_RECONFIG # b)) (\<lambda>c. Ok (ChunkReconfig c))"
  "chunk_unmarshal now (CT_FORWARD_TSN # b) =
     and_then (forward_tsn_unmarshal (CT_FORWARD_TSN # b)) (\<lambda>c. Ok (ChunkForwardTsn c))"
  "chunk_unmarshal now (CT_ERROR # b) = and_then (chunk_error_unmarshal (CT_ERROR # b)) (\<lambda>c. Ok (ChunkError c))"
  "chunk_unmarshal now (CT_SHUTDOWN # b) =
     and_then (shutdown_unmarshal (CT_SHUTDOWN # b)) (\<lambda>c. Ok (ChunkShutdown c))"
  "chunk_unmarshal now (CT_SHUTDOWN_ACK # b) =
     and_then (shutdown_ack_unmarshal (CT_SHUTDOWN_ACK # b)) (\<lambda>_. Ok ChunkShutdownAck)"
  "chunk_unmarshal now (CT_SHUTDOWN_COMPLETE # b) =
     and_then (shutdown_complete_unmarshal (CT_SHUTDOWN_COMPLETE # b)) (\<lambda>_. Ok ChunkShutdownComplete)"
  by (simp_all add: chunk_unmarshal_def ct_defs)

lemma chunk_unmarshal_unknown:
  "t \<notin> known_chunk_types \<Longrightarrow>
    chunk_unmarshal now (t # b) = and_then (chunk_unknown_unmarshal (t # b)) (\<lambda>c. Ok (ChunkUnknown c))"
  by (simp add: chunk_unmarshal_def known_chunk_types_def)

text \<open>What an accepted chunk means, one rule per implementation.\<close>

inductive chunk_decoded :: "time_ms \<Rightarrow> bytes \<Rightarrow> chunk \<Rightarrow> bool" for now raw where
  "init_unmarshal raw = Ok a \<Longrightarrow> chunk_decoded now raw (ChunkInit a)"
| "chunk_abort_unmarshal raw = Ok b \<Longrightarrow> chunk_decoded now raw (ChunkAbort b)"
| "cookie_echo_unmarshal raw = Ok d \<Longrightarrow> chunk_decoded now raw (ChunkCookieEcho d)"
| "cookie_ack_unmarshal raw = Ok u \<Longrightarrow> chunk_decoded now raw ChunkCookieAck"
| "heartbeat_unmarshal raw = Ok e \<Longrightarrow> chunk_decoded now raw (ChunkHeartbeat e)"
| "payload_data_unmarshal now raw = Ok f \<Longrightarrow> chunk_decoded now raw (ChunkPayloadData f)"
| "selective_ack_unmarshal raw = Ok g \<Longrightarrow> chunk_decoded now raw (ChunkSelectiveAck g)"
| "reconfig_unmarshal raw = Ok h \<Longrightarrow> chunk_decoded now raw (ChunkReconfig h)"
| "forward_tsn_unmarshal raw = Ok i \<Longrightarrow> chunk_decoded now raw (ChunkForwardTsn i)"
| "chunk_error_unmarshal raw = Ok b \<Longrightarrow> chunk_decoded now raw (ChunkError b)"
| "shutdown_unmarshal raw = Ok j \<Longrightarrow> chunk_decoded now raw (ChunkShutdown j)"
| "shutdown_ack_unmarshal raw = Ok u \<Longrightarrow> chunk_decoded now raw ChunkShutdownAck"
| "shutdown_complete_unmarshal raw = Ok u \<Longrightarrow> chunk_decoded now raw ChunkShutdownComplete"
| "chunk_unknown_unmarshal raw = Ok k \<Longrightarrow> chunk_decoded now raw (ChunkUnknown k)"

lemma chunk_unmarshal_decoded:
  assumes "chunk_unmarshal now raw = Ok c"
  shows "chunk_decoded now raw c"
  using assms
  by (cases raw)
    (auto simp: chunk_unmarshal_def and_then_eq_Ok intro: chunk_decoded.intros split: if_splits)

lemmas chunk_codecs_fit =
  init.fits chunk_abort.fits cookie_echo.fits cookie_ack.fits heartbeat.fits payload_data.fits
  selective_ack.fits reconfig.fits forward_tsn.fits chunk_error.fits shutdown.fits
  shutdown_ack.fits shutdown_complete.fits chunk_unknown.fits

lemmas chunk_codecs_typ_byte =
  init.typ_byte chunk_abort.typ_byte cookie_echo.typ_byte cookie_ack.typ_byte heartbeat.typ_byte
  payload_data.typ_byte selective_ack.typ_byte reconfig.typ_byte forward_tsn.typ_byte
  chunk_error.typ_byte shutdown.typ_byte shutdown_ack.typ_byte shutdown_complete.typ_byte
  chunk_unknown.typ_byte

lemmas chunk_codecs_append =
  init.appends chunk_abort.appends cookie_echo.appends cookie_ack.appends heartbeat.appends
  heartbeat_ack.appends payload_data.appends selective_ack.appends reconfig.appends
  forward_tsn.appends chunk_error.appends shutdown.appends shutdown_ack.appends
  shutdown_complete.appends chunk_unknown.appends

lemma chunk_unmarshal_fits:
  "chunk_unmarshal now raw = Ok c \<Longrightarrow> 4 + chunk_value_length c \<le> length raw"
  by (drule chunk_unmarshal_decoded, erule chunk_decoded.cases) (drule chunk_codecs_fit, simp)+

lemma chunk_unmarshal_typ_byte: "chunk_unmarshal now raw = Ok c \<Longrightarrow> hd raw = chunk_typ c"
  by (drule chunk_unmarshal_decoded, erule chunk_decoded.cases) (drule chunk_codecs_typ_byte, simp)+

lemma chunk_marshal_appends: "chunk_marshal_to c w = and_then (chunk_marshal_to c []) (\<lambda>m. Ok (w @ m))"
  by (cases c) (simp_all only: chunk_marshal_to.simps, (rule chunk_codecs_append)+)

lemmas chunk_codecs_total =
  init.total chunk_abort.total cookie_echo.total cookie_ack.total heartbeat.total
  payload_data.total selective_ack.total reconfig.total forward_tsn.total chunk_error.total
  shutdown.total shutdown_ack.total shutdown_complete.total chunk_unknown.total

lemma chunk_marshal_total:
  "chunk_wf c \<Longrightarrow> \<exists>b. chunk_marshal_to c [] = Ok (chunk_typ c # b) \<and> length b = 3 + chunk_value_length c"
  by (cases c)
    (simp_all only: chunk_marshal_to.simps chunk_typ.simps chunk_value_length.simps chunk_wf.simps,
      ((rule chunk_codecs_total; simp)+))

text \<open>Decoding an encoded chunk: the first byte picks the implementation that wrote it.\<close>

lemma chunk_roundtrip:
  assumes wf: "chunk_wf c" and m: "chunk_marshal_to c [] = Ok m" and f: "follows (chunk_bundles c) rest"
  shows "chunk_unmarshal now (m @ padding (length m) @ rest) = Ok (chunk_view now c)"
proof (cases c)
  case (ChunkInit x)
  then show ?thesis
    using wf m f init.dispatch [of x m rest "chunk_unmarshal now" "\<lambda>y. Ok (ChunkInit y)"]
    by (simp add: chunk_unmarshal_known split: if_splits)
next
  case (ChunkAbort x)
  then show ?thesis
    using wf m f chunk_abort.dispatch [of "x" m rest "chunk_unmarshal now" "\<lambda>y. Ok (ChunkAbort y)"]
    by (simp add: chunk_unmarshal_known)
next
  case (ChunkCookieEcho x)
  then show ?thesis
    using wf m f cookie_echo.dispatch [of "x" m rest "chunk_unmarshal now" "\<lambda>y. Ok (ChunkCookieEcho y)"]
    by (simp add: chunk_unmarshal_known)
next
  case ChunkCookieAck
  then show ?thesis
    using wf m f cookie_ack.dispatch [of "()" m rest "chunk_unmarshal now" "\<lambda>_. Ok ChunkCookieAck"]
    by (simp add: chunk_unmarshal_known)
next
  case (ChunkHeartbeat x)
  then show ?thesis
    using wf m f heartbeat.dispatch [of "x" m rest "chunk_unmarshal now" "\<lambda>y. Ok (ChunkHeartbeat y)"]
    by (simp add: chunk_unmarshal_known)
next
  case (ChunkPayloadData x)
  then show ?thesis
    using wf m f payload_data.dispatch [where c = x and m = m and rest = rest and now = now and
        build = "chunk_unmarshal now" and f = "\<lambda>y. Ok (ChunkPayloadData y)"]
    by (simp add: chunk_unmarshal_known)
next
  case (ChunkSelectiveAck x)
  then show ?thesis
    using wf m f selective_ack.dispatch [of "x" m rest "chunk_unmarshal now" "\<lambda>y. Ok (ChunkSelectiveAck y)"]
    by (simp add: chunk_unmarshal_known)
next
  case (ChunkReconfig x)
  then show ?thesis
    using wf m f reconfig.dispatch [of "x" m rest "chunk_unmarshal now" "\<lambda>y. Ok (ChunkReconfig y)"]
    by (simp add: chunk_unmarshal_known)
next
  case (ChunkForwardTsn x)
  then show ?thesis
    using wf m f forward_tsn.dispatch [of "x" m rest "chunk_unmarshal now" "\<lambda>y. Ok (ChunkForwardTsn y)"]
    by (simp add: chunk_unmarshal_known)
next
  case (ChunkError x)
  then show ?thesis
    using wf m f chunk_error.dispatch [of "x" m rest "chunk_unmarshal now" "\<lambda>y. Ok (ChunkError y)"]
    by (simp add: chunk_unmarshal_known)
next
  case (ChunkShutdown x)
  then show ?thesis
    using wf m f shutdown.dispatch [of "x" m rest "chunk_unmarshal now" "\<lambda>y. Ok (ChunkShutdown y)"]
    by (simp add: chunk_unmarshal_known)
next
  case ChunkShutdownAck
  then show ?thesis
    using wf m f shutdown_ack.dispatch [of "()" m rest "chunk_unmarshal now" "\<lambda>_. Ok ChunkShutdownAck"]
    by (simp add: chunk_unmarshal_known)
next
  case ChunkShutdownComplete
  then show ?thesis
    using wf m f shutdown_complete.dispatch [of "()" m rest "chunk_unmarshal now" "\<lambda>_. Ok ChunkShutdownComplete"]
    by (simp add: chunk_unmarshal_known)
next
  case (ChunkUnknown x)
  then show ?thesis
    using wf m f chunk_unknown.dispatch [of x m rest "chunk_unmarshal now" "\<lambda>y. Ok (ChunkUnknown y)"]
    by (simp add: chunk_unmarshal_unknown)
qed (use wf in simp)

lemma chunk_view_length: "chunk_value_length (chunk_view now c) = chunk_value_length c"
  by (cases c) (simp_all add: payload_data.view_length)

interpretation chunk: chunk_codec
  "chunk_unmarshal now" chunk_marshal_to chunk_value_length chunk_typ chunk_wf chunk_bundles
  "chunk_view now"
  by unfold_locales
    (rule chunk_unmarshal_fits chunk_unmarshal_typ_byte chunk_marshal_appends chunk_marshal_total
      chunk_roundtrip chunk_view_length; assumption?)+

section \<open>Packets\<close>

record packet =
  pk_source_port :: u16
  pk_destination_port :: u16
  pk_verification_tag :: u32
  pk_chunks :: "chunk list"

definition PACKET_HEADER_SIZE :: nat where
  "PACKET_HEADER_SIZE = 12"

lemma packet_header_size_eq [simp]: "PACKET_HEADER_SIZE = 12"
  by (simp add: PACKET_HEADER_SIZE_def)

text \<open>The loop over the chunks of a received packet.\<close>

function read_chunks :: "time_ms \<Rightarrow> bytes \<Rightarrow> nat \<Rightarrow> chunk list outcome" where
  "read_chunks now raw offset =
     (if offset = length raw then Ok []
      else if offset + CHUNK_HEADER_SIZE > length raw then Err ErrParseSctpChunkNotEnoughData
      else
        and_then (chunk_unmarshal now (drop offset raw)) (\<lambda>c.
          let chunk_value_padding = get_padding_size (chunk_value_length c) in
          and_then (read_chunks now raw
                      (offset + (CHUNK_HEADER_SIZE + chunk_value_length c + chunk_value_padding)))
            (\<lambda>chunks. Ok (c # chunks))))"
  by pat_completeness auto
termination
  by (relation "measure (\<lambda>(now, raw, offset). length raw - offset)") auto

declare read_chunks.simps [simp del]

definition packet_unmarshal :: "(bytes \<Rightarrow> u32) \<Rightarrow> time_ms \<Rightarrow> bytes \<Rightarrow> packet outcome" where
  "packet_unmarshal crc now raw =
     (if length raw < PACKET_HEADER_SIZE then Err ErrPacketRawTooSmall
      else
        and_then (get_u16 raw) (\<lambda>(source_port, reader).
        and_then (get_u16 reader) (\<lambda>(destination_port, reader).
        and_then (get_u32 reader) (\<lambda>(verification_tag, reader).
        and_then (get_u32_le reader) (\<lambda>(their_checksum, reader).
        and_then (generate_packet_checksum crc raw) (\<lambda>our_checksum.
          if their_checksum \<noteq> our_checksum then Err ErrChecksumMismatch
          else
            and_then (read_chunks now raw PACKET_HEADER_SIZE) (\<lambda>chunks.
              Ok \<lparr>pk_source_port = source_port, pk_destination_port = destination_port,
                  pk_verification_tag = verification_tag, pk_chunks = chunks\<rparr>)))))))"

fun write_chunks :: "chunk list \<Rightarrow> bytes \<Rightarrow> bytes outcome" where
  "write_chunks [] raw = Ok raw"
| "write_chunks (c # cs) raw =
     and_then (chunk_marshal c) (\<lambda>chunk_raw.
       let raw = raw @ chunk_raw;
           padding_needed = get_padding_size (length raw) in
       write_chunks cs (if padding_needed \<noteq> 0 then raw @ replicate padding_needed 0 else raw))"

definition packet_marshal_to :: "(bytes \<Rightarrow> u32) \<Rightarrow> packet \<Rightarrow> bytes \<Rightarrow> bytes outcome" where
  "packet_marshal_to crc p writer =
     (let writer = writer @ put_u16 (pk_source_port p) @ put_u16 (pk_destination_port p)
                     @ put_u32 (pk_verification_tag p) in
      and_then (write_chunks (pk_chunks p) []) (\<lambda>raw.
        let checksum = crc (writer @ FOUR_ZEROES @ raw) in
        Ok (writer @ put_u32_le checksum @ raw)))"

definition packet_marshal :: "(bytes \<Rightarrow> u32) \<Rightarrow> packet \<Rightarrow> bytes outcome" where
  "packet_marshal crc p = packet_marshal_to crc p []"

text \<open>The loop of \<^verbatim>\<open>check_packet\<close> over the chunks.\<close>

fun check_packet_chunks :: "packet \<Rightarrow> chunk list \<Rightarrow> unit outcome" where
  "check_packet_chunks p [] = Ok ()"
| "check_packet_chunks p (c # cs) =
     (case c of
        ChunkInit ci \<Rightarrow>
          if \<not> ci_is_ack ci then
            if length (pk_chunks p) \<noteq> 1 then Err ErrInitChunkBundled
            else if pk_verification_tag p \<noteq> 0 then Err ErrInitChunkVerifyTagNotZero
            else check_packet_chunks p cs
          else check_packet_chunks p cs
      | _ \<Rightarrow> check_packet_chunks p cs)"

definition check_packet :: "packet \<Rightarrow> unit outcome" where
  "check_packet p =
     (if pk_source_port p = 0 then Err ErrSctpPacketSourcePortZero
      else if pk_destination_port p = 0 then Err ErrSctpPacketDestinationPortZero
      else check_packet_chunks p (pk_chunks p))"

section \<open>Round trip\<close>

text \<open>A chunk whose decoder reads to the end of the buffer must be the last one.\<close>

fun chunks_wf :: "chunk list \<Rightarrow> bool" where
  "chunks_wf [] \<longleftrightarrow> True"
| "chunks_wf (c # cs) \<longleftrightarrow> chunk_wf c \<and> (cs \<noteq> [] \<longrightarrow> chunk_bundles c) \<and> chunks_wf cs"

definition packet_view :: "time_ms \<Rightarrow> packet \<Rightarrow> packet" where
  "packet_view now p = p\<lparr>pk_chunks := map (chunk_view now) (pk_chunks p)\<rparr>"

lemma write_chunks_Cons:
  assumes "chunk_wf c" and "4 dvd length w"
  obtains m where "chunk_marshal_to c [] = Ok m"
    and "write_chunks (c # cs) w = write_chunks cs (w @ m @ padding (length m))"
    and "length (m @ padding (length m)) = 4 + chunk_value_length c + get_padding_size (chunk_value_length c)"
    and "4 dvd length (w @ m @ padding (length m))" and "m \<noteq> []"
proof -
  obtain m where m: "chunk_marshal_to c [] = Ok m" and l: "length m = 4 + chunk_value_length c"
    using chunk.marshal_obtain [OF assms(1)] by metis
  have p: "get_padding_size (length (w @ m)) = get_padding_size (length m)"
    using get_padding_size_add_dvd [OF assms(2), of "length m"] by simp
  have "write_chunks (c # cs) w = write_chunks cs (w @ m @ padding (length m))"
    using p by (simp add: chunk_marshal_def m padding_def Let_def)
  moreover have "length (m @ padding (length m)) =
      4 + chunk_value_length c + get_padding_size (chunk_value_length c)"
    using get_padding_size_add_dvd [of 4 "chunk_value_length c"] by (simp add: l)
  moreover have "4 dvd length (w @ m @ padding (length m))"
    using assms(2) get_padding_size_dvd [of "length m"] by (simp add: dvd_add)
  moreover have "m \<noteq> []" using l by auto
  ultimately show thesis by (rule that [OF m])
qed

lemma write_chunks_total:
  "chunks_wf cs \<Longrightarrow> 4 dvd length w \<Longrightarrow>
    \<exists>m. write_chunks cs w = Ok (w @ m) \<and> 4 dvd length m \<and> 4 * length cs \<le> length m"
proof (induction cs arbitrary: w)
  case (Cons c cs)
  obtain m where m: "write_chunks (c # cs) w = write_chunks cs (w @ m @ padding (length m))"
      "length (m @ padding (length m)) = 4 + chunk_value_length c + get_padding_size (chunk_value_length c)"
      "4 dvd length (w @ m @ padding (length m))"
    using Cons.prems by (auto intro: write_chunks_Cons [of c w cs])
  obtain r where r: "write_chunks cs (w @ m @ padding (length m)) = Ok ((w @ m @ padding (length m)) @ r)"
      "4 dvd length r" "4 * length cs \<le> length r"
    using Cons.IH [OF _ m(3)] Cons.prems by auto
  have "4 dvd length (m @ padding (length m))"
    using get_padding_size_dvd [of "length m"] by simp
  then have "4 dvd length ((m @ padding (length m)) @ r)"
    using r(2) unfolding length_append by (rule dvd_add)
  moreover have "4 * length (c # cs) \<le> length ((m @ padding (length m)) @ r)"
    using r(3) m(2) by (simp del: length_padding)
  ultimately show ?case
    using m(1) r(1) by (intro exI [of _ "(m @ padding (length m)) @ r"]) simp
qed simp

lemma read_write_chunks:
  "chunks_wf cs \<Longrightarrow> 4 dvd length w \<Longrightarrow> write_chunks cs w = Ok (w @ m) \<Longrightarrow> length h = length w + k \<Longrightarrow>
    read_chunks now (h @ m) (length h) = Ok (map (chunk_view now) cs)"
proof (induction cs arbitrary: w m h)
  case Nil
  then show ?case by (simp add: read_chunks.simps)
next
  case (Cons c cs)
  have wf: "chunk_wf c" using Cons.prems by simp
  obtain b where b: "chunk_marshal_to c [] = Ok b"
      "write_chunks (c # cs) w = write_chunks cs (w @ b @ padding (length b))"
      "length (b @ padding (length b)) = 4 + chunk_value_length c + get_padding_size (chunk_value_length c)"
      "4 dvd length (w @ b @ padding (length b))" "b \<noteq> []"
    by (rule write_chunks_Cons [OF wf Cons.prems(2)]) blast
  let ?b = "b @ padding (length b)"
  obtain r where r: "write_chunks cs (w @ ?b) = Ok ((w @ ?b) @ r)" "4 * length cs \<le> length r"
    using write_chunks_total [OF _ b(4)] Cons.prems by auto
  have m: "m = ?b @ r" using Cons.prems(3) b(2) r(1) by simp
  have f: "follows (chunk_bundles c) r"
    using Cons.prems(1) r by (cases cs) (auto simp: follows_def)
  have ih: "read_chunks now ((h @ ?b) @ r) (length (h @ ?b)) = Ok (map (chunk_view now) cs)"
    using Cons.prems by (intro Cons.IH [OF _ b(4) r(1)]) simp_all
  have rt: "chunk_unmarshal now (b @ padding (length b) @ r) = Ok (chunk_view now c)"
    using wf b(1) f by (rule chunk.roundtrip)
  show ?case
    using rt ih b(3,5) by (subst read_chunks.simps)
      (simp add: m chunk.view_length Let_def del: length_padding)
qed

lemma checksum_of_marshalled:
  assumes "length w = 8"
  shows "generate_packet_checksum crc (w @ put_u32_le s @ raw) = Ok (crc (w @ FOUR_ZEROES @ raw))"
  using assms by (simp add: generate_packet_checksum_def bytes_slice_def)

lemma packet_marshal_unmarshal:
  assumes "chunks_wf (pk_chunks p)"
  shows "\<exists>raw. packet_marshal crc p = Ok raw \<and> packet_unmarshal crc now raw = Ok (packet_view now p)"
proof -
  let ?w = "put_u16 (pk_source_port p) @ put_u16 (pk_destination_port p)
    @ put_u32 (pk_verification_tag p)"
  obtain m where m: "write_chunks (pk_chunks p) [] = Ok m"
    using write_chunks_total [OF assms, of "[]"] by auto
  let ?s = "crc (?w @ FOUR_ZEROES @ m)"
  have r: "read_chunks now (?w @ put_u32_le ?s @ m) 12 = Ok (map (chunk_view now) (pk_chunks p))"
    using read_write_chunks [OF assms, of "[]" m "?w @ put_u32_le ?s" 12 now] m by simp
  have c: "generate_packet_checksum crc (?w @ put_u32_le ?s @ m) = Ok ?s"
    using checksum_of_marshalled [of ?w crc ?s m] by simp
  show ?thesis
    using m r c
    by (simp add: packet_marshal_def packet_marshal_to_def packet_unmarshal_def packet_view_def Let_def)
qed

text \<open>C4: a packet whose chunks are as \<open>chunks_wf\<close> says marshals without an error, and what unmarshal
  makes of the bytes is the packet itself, save the bookkeeping only the sender keeps in a DATA chunk.
  The conditions: every chunk and parameter fits its 16-bit length field; there is no HEARTBEAT-ACK,
  which decodes as an unknown chunk, and a HEARTBEAT holds one heartbeat-info parameter; no INIT or
  INIT-ACK ends in a parameter with an empty value, which the decoder would not see, and a RE-CONFIG
  has its first parameter; an HMAC list names the two known algorithms only, and a parameter of an
  unknown type has a type the decoder keeps as it is; an unknown chunk has a type the decoder does not
  know and its own length in its header; and an INIT, INIT-ACK, ABORT, ERROR, FORWARD-TSN or SHUTDOWN,
  whose decoder reads to the end of the packet, is the last chunk.\<close>

theorem packet_roundtrip:
  assumes "chunks_wf (pk_chunks p)"
  shows "\<exists>raw. packet_marshal crc p = Ok raw \<and> packet_unmarshal crc now raw = Ok (packet_view now p)"
  using assms by (rule packet_marshal_unmarshal)

text \<open>Concrete packets: a SACK in front of a DATA chunk, and an INIT with the extension list.\<close>

definition example_data :: payload_data where
  "example_data = (payload_data_default 7)\<lparr>pd_beginning_fragment := True, pd_ending_fragment := True,
     pd_tsn := 100, pd_stream_identifier := 1, pd_payload_type := PPI_String,
     pd_user_data := [104, 105], pd_nsent := 1, pd_acked := True\<rparr>"

definition example_sack :: selective_ack where
  "example_sack = \<lparr>sa_cumulative_tsn_ack = 41, sa_advertised_receiver_window_credit = 5000,
     sa_gap_ack_blocks = [\<lparr>gab_start = 2, gab_end = 3\<rparr>], sa_duplicate_tsn = [40]\<rparr>"

definition example_packet :: packet where
  "example_packet = \<lparr>pk_source_port = 5000, pk_destination_port = 5000, pk_verification_tag = 9,
     pk_chunks = [ChunkSelectiveAck example_sack, ChunkPayloadData example_data,
                  ChunkShutdown \<lparr>sd_cumulative_tsn_ack = 4\<rparr>]\<rparr>"

lemma example_packet_wf: "chunks_wf (pk_chunks example_packet)"
  by (simp add: example_packet_def example_sack_def example_data_def payload_data_default_def
      selective_ack_value_length_def payload_data_value_length_def)

theorem packet_roundtrip_witness:
  "\<exists>raw. packet_marshal (\<lambda>_. 0) example_packet = Ok raw \<and>
    packet_unmarshal (\<lambda>_. 0) 0 raw = Ok (packet_view 0 example_packet)"
  by (rule packet_roundtrip [OF example_packet_wf])

section \<open>Safety of the decoder\<close>

lemma chunk_unmarshal_panicD:
  assumes "chunk_unmarshal now raw = Panic" and "raw \<noteq> []"
  shows "hd raw \<in> {CT_INIT, CT_INIT_ACK, CT_FORWARD_TSN, CT_SHUTDOWN}"
  using assms
  by (cases raw)
    (auto simp: chunk_unmarshal_def opaque_chunks_no_panic empty_chunks_no_panic error_chunks_no_panic
      heartbeats_no_panic reconfig_no_panic payload_data_no_panic selective_ack_no_panic split: if_splits)

text \<open>The byte offsets where a chunk can start: after the header, in steps of four.\<close>

definition fragile_free :: "bytes \<Rightarrow> bool" where
  "fragile_free raw \<longleftrightarrow> (\<forall>i \<in> set [12..<length raw]. 4 dvd i \<longrightarrow>
     raw ! i \<notin> {CT_INIT, CT_INIT_ACK, CT_FORWARD_TSN, CT_SHUTDOWN})"

lemma read_chunks_no_panic:
  "fragile_free raw \<Longrightarrow> 12 \<le> offset \<Longrightarrow> 4 dvd offset \<Longrightarrow> read_chunks now raw offset \<noteq> Panic"
proof (induction now raw offset rule: read_chunks.induct)
  case (1 now raw offset)
  show ?case
  proof (cases "offset + 4 \<le> length raw")
    case True
    then have ne: "drop offset raw \<noteq> []" and hd: "hd (drop offset raw) = raw ! offset"
      by (simp_all add: hd_drop_conv_nth)
    then have u: "chunk_unmarshal now (drop offset raw) \<noteq> Panic"
      using chunk_unmarshal_panicD [of now "drop offset raw"] 1(2-4) True
      by (auto simp: fragile_free_def)
    have "read_chunks now raw (offset + (4 + chunk_value_length c
        + get_padding_size (chunk_value_length c))) \<noteq> Panic"
      if "chunk_unmarshal now (drop offset raw) = Ok c" for c
    proof -
      have "4 dvd offset + (4 + (chunk_value_length c + get_padding_size (chunk_value_length c)))"
        using 1(4) by (intro dvd_add [OF _ dvd_add [OF _ get_padding_size_dvd]]) simp_all
      then show ?thesis
        using 1(1) [OF _ _ that refl] 1(2,3) True by (simp add: add.assoc)
    qed
    with u show ?thesis by (subst read_chunks.simps) (simp add: Let_def)
  next
    case False
    then show ?thesis by (subst read_chunks.simps) simp
  qed
qed

text \<open>C27: a packet with no INIT, INIT-ACK, FORWARD-TSN or SHUTDOWN type byte where a chunk can
  start never makes unmarshal panic, whatever else its bytes are.\<close>

theorem packet_unmarshal_no_panic:
  assumes "fragile_free raw"
  shows "packet_unmarshal crc now raw \<noteq> Panic"
  using assms read_chunks_no_panic [of raw 12 now]
  by (auto simp: packet_unmarshal_def generate_packet_checksum_def split: prod.splits
      dest!: get_length)

text \<open>A HEARTBEAT in front of a truncated DATA chunk: refused, not a panic.\<close>

definition example_garbage :: bytes where
  "example_garbage = [19, 136, 19, 136, 0, 0, 0, 9, 0, 0, 0, 0, 4, 0, 0, 9, 0, 1, 0, 5, 99, 0, 0, 0,
     0, 3]"

theorem packet_unmarshal_no_panic_witness: "packet_unmarshal (\<lambda>_. 0) 0 example_garbage \<noteq> Panic"
  by (rule packet_unmarshal_no_panic)
    (simp add: fragile_free_def example_garbage_def ct_defs upt_rec)

text \<open>The exceptions are real: for every checksum function there is a 20-byte packet with a
  valid checksum that makes unmarshal panic, a FORWARD-TSN whose length field says it is empty.\<close>

theorem packet_unmarshal_forward_tsn_panic:
  "\<exists>raw. length raw = 20 \<and> packet_unmarshal crc now raw = Panic"
proof -
  let ?w = "replicate 8 0 :: bytes" and ?c = "[192, 0, 0, 4, 0, 0, 0, 0] :: bytes"
  let ?s = "crc (?w @ FOUR_ZEROES @ ?c)"
  have "chunk_header_unmarshal ?c = Ok \<lparr>ch_typ = CT_FORWARD_TSN, ch_flags = 0, ch_value_length = 0\<rparr>"
    by (simp add: chunk_header_unmarshal_nat be16_def CT_FORWARD_TSN_def)
  then have "forward_tsn_unmarshal ?c = Panic"
    by (subst forward_tsn_panic_iff) (simp add: chunk_header_value_length_def)
  then have "chunk_unmarshal now ?c = Panic"
    using chunk_unmarshal_known(10) [of now "tl ?c"] by (simp add: CT_FORWARD_TSN_def)
  then have "read_chunks now (?w @ put_u32_le ?s @ ?c) 12 = Panic"
    by (subst read_chunks.simps) simp
  moreover have "generate_packet_checksum crc (?w @ put_u32_le ?s @ ?c) = Ok ?s"
    using checksum_of_marshalled [of ?w crc ?s ?c] by simp
  ultimately have "packet_unmarshal crc now (?w @ put_u32_le ?s @ ?c) = Panic"
    by (simp add: packet_unmarshal_def numeral_eq_Suc)
  then show ?thesis by (intro exI [of _ "?w @ put_u32_le ?s @ ?c"]) simp
qed

text \<open>\<^verbatim>\<open>check_packet\<close> accepts a packet exactly when both ports are set and an INIT comes alone
  and with a zero verification tag.\<close>

theorem check_packet_iff:
  "check_packet p = Ok () \<longleftrightarrow> pk_source_port p \<noteq> 0 \<and> pk_destination_port p \<noteq> 0 \<and>
    list_all (\<lambda>c. case c of
        ChunkInit ci \<Rightarrow> ci_is_ack ci \<or> (length (pk_chunks p) = 1 \<and> pk_verification_tag p = 0)
      | _ \<Rightarrow> True) (pk_chunks p)"
proof -
  let ?ok = "\<lambda>c. case c of
        ChunkInit ci \<Rightarrow> ci_is_ack ci \<or> (length (pk_chunks p) = 1 \<and> pk_verification_tag p = 0)
      | _ \<Rightarrow> True"
  have "check_packet_chunks p (c # cs) = Ok () \<longleftrightarrow> ?ok c \<and> check_packet_chunks p cs = Ok ()" for c cs
    by (cases c) auto
  note step = this
  have "check_packet_chunks p cs = Ok () \<longleftrightarrow> list_all ?ok cs" for cs
  proof (induction cs)
    case (Cons c cs)
    then show ?case unfolding step list.pred_inject(2) by blast
  qed simp
  note all = this
  show ?thesis unfolding all [symmetric] by (simp add: check_packet_def)
qed

text \<open>An accepted packet carries the checksum of its own bytes.\<close>

theorem packet_unmarshal_checksum:
  assumes "packet_unmarshal crc now raw = Ok p"
  shows "\<exists>s. generate_packet_checksum crc raw = Ok s \<and> get_u32_le (drop 8 raw) = Ok (s, drop 12 raw)"
proof -
  have r: "get_u16 r = Ok (x, r') \<Longrightarrow> r' = drop 2 r" "get_u32 r = Ok (y, r') \<Longrightarrow> r' = drop 4 r"
      "get_u32_le r = Ok (y, r') \<Longrightarrow> r' = drop 4 r" for r r' x y
    by (cases r rule: get_u16.cases; auto) (cases r rule: get_u32.cases; auto simp: eval_nat_numeral)+
  obtain a r1 b r2 t r3 v r4 where g: "get_u16 raw = Ok (a, r1)" "get_u16 r1 = Ok (b, r2)"
      "get_u32 r2 = Ok (t, r3)" "get_u32_le r3 = Ok (v, r4)" "generate_packet_checksum crc raw = Ok v"
    using assms by (auto simp: packet_unmarshal_def and_then_eq_Ok split: if_splits prod.splits)
  then have "r3 = drop 8 raw" using r(1) [OF g(1)] r(1) [OF g(2)] r(2) [OF g(3)] by simp
  then show ?thesis using g r(3) [OF g(4)] by simp
qed

theorem packet_unmarshal_checksum_witness:
  "\<exists>raw s. length raw = 12 \<and> generate_packet_checksum (\<lambda>b. of_nat (length b)) raw = Ok s \<and>
    get_u32_le (drop 8 raw) = Ok (s, drop 12 raw)"
proof -
  let ?raw = "[0, 1, 0, 2, 0, 0, 0, 9, 12, 0, 0, 0] :: bytes"
  let ?crc = "\<lambda>b :: bytes. of_nat (length b) :: u32"
  have "packet_unmarshal ?crc 0 ?raw =
      Ok \<lparr>pk_source_port = 1, pk_destination_port = 2, pk_verification_tag = 9, pk_chunks = []\<rparr>"
    by (simp add: packet_unmarshal_def generate_packet_checksum_def bytes_slice_def FOUR_ZEROES_def
        read_chunks.simps be16_def be32_def)
  from packet_unmarshal_checksum [OF this] show ?thesis
    by (intro exI [of _ ?raw]) simp
qed

text \<open>The reply the crate itself sends to a HEARTBEAT comes back as a chunk of unknown type,
  because the match on the type byte has no HEARTBEAT-ACK arm.\<close>

theorem heartbeat_ack_decodes_as_unknown:
  assumes "is_heartbeat_info ps"
  shows "\<exists>m c. chunk_marshal (ChunkHeartbeatAck ps) = Ok m \<and>
    chunk_unmarshal now (m @ padding (length m)) = Ok (ChunkUnknown c) \<and>
    ch_typ (cu_hdr c) = CT_HEARTBEAT_ACK"
proof -
  obtain m where m: "heartbeat_ack_marshal_to ps [] = Ok m" and ne: "m \<noteq> []" "hd m = CT_HEARTBEAT_ACK"
    using heartbeat_ack.marshal_obtain [OF assms] by metis
  then obtain b where b: "m = CT_HEARTBEAT_ACK # b" by (cases m) auto
  have "heartbeat_ack_unmarshal (m @ padding (length m)) = Ok ps"
    using heartbeat_ack.roundtrip [OF assms m, of "[]"] by (simp add: follows_def)
  then obtain h where h: "chunk_header_unmarshal (m @ padding (length m)) = Ok h"
      "ch_typ h = CT_HEARTBEAT_ACK"
    by (auto simp: heartbeat_ack_unmarshal_def and_then_eq_Ok split: if_splits)
  have "CT_HEARTBEAT_ACK \<notin> known_chunk_types"
    by (simp add: known_chunk_types_def ct_defs)
  then have "chunk_unmarshal now (m @ padding (length m)) =
      and_then (chunk_unknown_unmarshal (m @ padding (length m))) (\<lambda>c. Ok (ChunkUnknown c))"
    using chunk_unmarshal_unknown by (simp add: b)
  moreover obtain v where "bytes_slice (m @ padding (length m)) 4 (4 + chunk_header_value_length h) = Ok v"
    using chunk_header_unmarshal_OkD [OF h(1)] by (simp add: bytes_slice_def)
  ultimately show ?thesis
    using m h by (simp add: chunk_marshal_def chunk_unknown_unmarshal_def Let_def)
qed

theorem heartbeat_ack_decodes_as_unknown_witness:
  "\<exists>m c. chunk_marshal (ChunkHeartbeatAck [ParamHeartbeatInfo [1, 2, 3]]) = Ok m \<and>
    chunk_unmarshal 0 (m @ padding (length m)) = Ok (ChunkUnknown c) \<and>
    ch_typ (cu_hdr c) = CT_HEARTBEAT_ACK"
  by (rule heartbeat_ack_decodes_as_unknown) simp

text \<open>
  An INIT with one parameter of odd length, followed by eight more bytes in its packet: the
  loop over the parameters runs on past the end of the chunk.
\<close>

definition bundled_init :: bytes where
  "bundled_init = [1, 0, 0, 25,  0, 0, 0, 1,  0, 1, 0, 0,  0, 1, 0, 1,  0, 0, 0, 1,
     0, 7, 0, 5,  42, 0, 0, 0,  11, 0, 0, 4,  11, 0, 0, 4]"

text \<open>Such an INIT makes the decoder panic.\<close>

theorem init_bundled_panic: "init_unmarshal bundled_init = Panic"
proof -
  have h: "chunk_header_unmarshal bundled_init =
      Ok \<lparr>ch_typ = CT_INIT, ch_flags = 0, ch_value_length = 21\<rparr>"
    by (simp add: bundled_init_def chunk_header_unmarshal_nat be16_def CT_INIT_def)
  have p: "build_param [0, 7, 0, 5, 42] = Ok (ParamStateCookie [42])"
    using build_param_known(6) [of "[0, 5, 42]"]
    by (simp add: put_u16_def param_state_cookie_unmarshal_def param_header_unmarshal_def
        param_header_value_length_def be16_def bytes_slice_def)
  have "read_init_params bundled_init 25 28 8 = Panic"
    by (subst read_init_params.simps) (simp add: bundled_init_def bytes_slice_def)
  then have "read_init_params bundled_init 25 20 16 = Panic"
    by (subst read_init_params.simps)
      (simp add: bundled_init_def bytes_slice_def p wire_defs get_padding_size_eq)
  then show ?thesis
    using h by (simp add: init_unmarshal_def chunk_header_value_length_def ct_defs)
      (simp add: bundled_init_def bytes_slice_def)
qed

end
