(* ===== verification/Decoded.thy ===== *)
theory Decoded
  imports Packet
begin

text \<open>
  What the decoders promise about the values they build.  The predicates \<open>param_wf\<close> and
  \<open>chunk_wf\<close> are the types of the objects a receiver can hold: lengths that fit the 16-bit
  field, only the two supported HMAC algorithms, an unknown parameter or chunk only under a
  code without an implementation.  Everything \<^verbatim>\<open>Packet::unmarshal\<close> accepts has its type, so
  it can be encoded again and decodes to itself.  One kind of chunk falls outside: an INIT
  whose last parameter has an empty value, which the encoder writes but the decoder's loop
  stops in front of.
\<close>

section \<open>Parameters\<close>

lemma read_hmac_supported:
  "read_hmac_algorithms offset value_len reader = Ok as \<Longrightarrow> set as \<subseteq> {HmacSha128, HmacSha256}"
proof (induction offset value_len reader arbitrary: as rule: read_hmac_algorithms.induct)
  case (1 offset value_len reader)
  show ?case
    using "1.prems" "1.IH" unfolding read_hmac_algorithms.simps [of offset value_len reader]
    by (fastforce simp: Let_def and_then_eq_Ok split: if_splits prod.splits)
qed

lemma requested_hmac_supported:
  "param_requested_hmac_algorithm_unmarshal raw = Ok as \<Longrightarrow> set as \<subseteq> {HmacSha128, HmacSha256}"
  unfolding param_requested_hmac_algorithm_unmarshal_def and_then_eq_Ok
  using read_hmac_supported by blast

lemma param_unknown_code:
  assumes "4 \<le> length raw" and "get_u16 (take 2 raw) = Ok (v, r)"
    and "param_unknown_unmarshal raw = Ok f"
  shows "fst f = v"
proof -
  obtain a b s where raw: "raw = a # b # s"
    using assms(1) by (cases raw; cases "tl raw") auto
  have "get_u16 raw = Ok (v, s)"
    using assms(2) by (simp add: raw)
  then show ?thesis
    using assms(3) by (auto simp: param_unknown_unmarshal_def param_header_unmarshal_def and_then_eq_Ok
        Let_def split: if_splits)
qed

lemma build_param_unknown:
  assumes "build_param raw = Ok (ParamUnknown f)"
  shows "opaque_type_code (fst f)"
proof -
  obtain v r where v: "get_u16 (take 2 raw) = Ok (v, r)" and n: "4 \<le> length raw"
    using assms by (auto simp: build_param_def and_then_eq_Ok bytes_slice_def split: if_splits)
  show ?thesis
    using assms n param_unknown_code [OF n v]
    by (cases "param_type_of_u16 v")
      (auto simp: build_param_def bytes_slice_def v Let_def and_then_eq_Ok opaque_type_code_def
        split: if_splits)
qed

lemmas param_value_length_defs =
  param_supported_extensions_value_length_def param_random_value_length_def
  param_requested_hmac_algorithm_value_length_def param_chunk_list_value_length_def
  param_state_cookie_value_length_def param_heartbeat_info_value_length_def
  param_outgoing_reset_request_value_length_def param_unknown_value_length_def

lemma build_param_wf:
  assumes p: "build_param raw = Ok p" and n: "length raw < 65536"
  shows "param_wf p"
proof -
  have f: "param_value_length p + 4 < 65536"
    using build_param_fits [OF p] n by simp
  from build_param_decoded [OF p] show ?thesis
    using f
    by (cases rule: param_decoded.cases)
      (use p in \<open>auto simp: param_value_length_defs
          PARAM_OUTGOING_RESET_REQUEST_STREAM_IDENTIFIERS_OFFSET_def dest: requested_hmac_supported build_param_unknown\<close>)
qed

section \<open>Chunks\<close>

lemma heartbeat_decoded:
  assumes "heartbeat_unmarshal raw = Ok e" and "length raw < 65536"
  shows "is_heartbeat_info e"
proof -
  obtain h s p where "bytes_slice raw 4 (4 + chunk_header_value_length h) = Ok s"
    and p: "build_param s = Ok p" and t: "ph_typ (param_header_of p) = PT_HeartbeatInfo"
    and e: "e = [p]"
    using assms(1) by (auto simp: heartbeat_unmarshal_def and_then_eq_Ok split: if_splits)
  obtain info where "p = ParamHeartbeatInfo info"
    using build_param_decoded [OF p] t build_param_unknown [of s] p
    by (cases rule: param_decoded.cases)
      (auto simp: wire_defs opaque_type_code_def)
  then show ?thesis
    using heartbeat.fits [OF assms(1)] assms(2) by (simp add: e heartbeat_value_length_def wire_defs)
qed

lemma reconfig_decoded:
  assumes r: "reconfig_unmarshal raw = Ok c" and n: "length raw < 65536"
  shows "reconfig_wf c"
proof -
  have w: "param_wf p" if "bytes_slice raw a b = Ok s" "build_param s = Ok p" for a b s p
    using that n by (auto dest!: slice_OkD intro!: build_param_wf)
  show ?thesis
    using r reconfig.fits [OF r] n
    by (auto simp: reconfig_wf_def reconfig_unmarshal_def and_then_eq_Ok Let_def
        intro: w split: if_splits)
qed

lemma read_init_params_wf:
  "read_init_params raw end offset remaining = Ok ps \<Longrightarrow> length raw < 65536 \<Longrightarrow> list_all param_wf ps"
proof (induction ps arbitrary: offset remaining)
  case (Cons p ps)
  obtain s where "bytes_slice raw offset end = Ok s" and p: "build_param s = Ok p"
    using Cons.prems(1) by (subst (asm) read_init_params.simps)
      (auto simp: and_then_eq_Ok Let_def split: if_splits)
  then have "length s < 65536"
    using Cons.prems(2) by (auto dest!: slice_OkD)
  then show ?case
    using build_param_wf [OF p] Cons.IH [OF read_init_params_ConsD(2) [OF Cons.prems(1)] Cons.prems(2)]
    by simp
qed simp

lemma init_decoded:
  assumes i: "init_unmarshal raw = Ok c" and n: "length raw < 65536"
    and l: "ci_params c \<noteq> [] \<Longrightarrow> 0 < param_value_length (last (ci_params c))"
  shows "init_wf c"
proof -
  have "list_all param_wf (ci_params c)"
    using i n by (auto simp: init_unmarshal_def and_then_eq_Ok Let_def split: if_splits prod.splits
        dest!: read_init_params_wf)
  then show ?thesis
    using init.fits [OF i] n l by (simp add: init_wf_def)
qed

lemma chunk_unknown_decoded:
  assumes "chunk_unknown_unmarshal raw = Ok k" and "length raw < 65536"
  shows "length (cu_value k) + 4 < 65536" and "ch_value_length (cu_hdr k) = of_nat (length (cu_value k))"
  using assms
  by (auto simp: chunk_unknown_unmarshal_def Let_def and_then_eq_Ok chunk_header_value_length_def
      dest!: chunk_header_unmarshal_OkD slice_OkD)

lemma chunk_unmarshal_unknown_type:
  "chunk_unmarshal now raw = Ok (ChunkUnknown k) \<Longrightarrow> hd raw \<notin> known_chunk_types"
  by (cases raw)
    (auto simp: chunk_unmarshal_def known_chunk_types_def and_then_eq_Ok split: if_splits)

text \<open>The INIT the encoder and the decoder disagree on.\<close>

fun ends_in_empty_param :: "chunk \<Rightarrow> bool" where
  "ends_in_empty_param (ChunkInit i) \<longleftrightarrow>
     ci_params i \<noteq> [] \<and> param_value_length (last (ci_params i)) = 0"
| "ends_in_empty_param _ \<longleftrightarrow> False"

lemma chunk_unmarshal_wf:
  assumes c: "chunk_unmarshal now raw = Ok c" and n: "length raw < 65536"
    and l: "\<not> ends_in_empty_param c"
  shows "chunk_wf c"
proof -
  have f: "chunk_value_length c + 4 < 65536"
    using chunk_unmarshal_fits [OF c] n by simp
  note t = chunk_unmarshal_typ_byte [OF c]
  from chunk_unmarshal_decoded [OF c] show ?thesis
    using f l n c t
    by (cases rule: chunk_decoded.cases)
      (auto simp: cookie_echo_value_length_def heartbeat_decoded reconfig_decoded
        chunk_unknown_decoded intro: init_decoded dest: chunk_unmarshal_unknown_type)
qed

section \<open>Packets\<close>

lemma read_chunks_decoded:
  "read_chunks now raw offset = Ok cs \<Longrightarrow> c \<in> set cs \<Longrightarrow>
    \<exists>i. i + 4 \<le> length raw \<and> chunk_unmarshal now (drop i raw) = Ok c"
proof (induction cs arbitrary: offset)
  case (Cons d ds)
  have "offset + 4 \<le> length raw" and d: "chunk_unmarshal now (drop offset raw) = Ok d"
    and r: "\<exists>o'. read_chunks now raw o' = Ok ds"
    using Cons.prems(1) by (subst (asm) read_chunks.simps;
      force simp: and_then_eq_Ok Let_def split: if_splits)+
  with Cons show ?case by auto
qed simp

lemma packet_unmarshal_chunks:
  "packet_unmarshal crc now raw = Ok p \<Longrightarrow> read_chunks now raw 12 = Ok (pk_chunks p)"
  by (auto simp: packet_unmarshal_def and_then_eq_Ok split: if_splits prod.splits)

text \<open>C26: what the decoder hands on is well typed.  Every chunk of a packet that unmarshal accepts
  from a datagram of less than 64 KiB has lengths that fit its fields, parameters of their own
  kind and, if it is opaque, a type of its own; so it encodes to no more bytes than were
  received, and these decode to the same chunk.  The only exception is an INIT whose last
  parameter is empty.\<close>

theorem decoded_chunks_well_typed:
  assumes p: "packet_unmarshal crc now raw = Ok p" and n: "length raw < 65536"
    and c: "c \<in> set (pk_chunks p)" and l: "\<not> ends_in_empty_param c"
  shows "chunk_wf c \<and> (\<exists>m. chunk_marshal c = Ok m \<and> length m \<le> length raw \<and>
    chunk_unmarshal now' (m @ padding (length m)) = Ok (chunk_view now' c))"
proof -
  obtain i where i: "chunk_unmarshal now (drop i raw) = Ok c"
    using read_chunks_decoded [OF packet_unmarshal_chunks [OF p] c] by auto
  have wf: "chunk_wf c"
    using n by (intro chunk_unmarshal_wf [OF i _ l]) simp
  obtain b where b: "chunk_marshal_to c [] = Ok (chunk_typ c # b)" "length b = 3 + chunk_value_length c"
    using chunk_marshal_total [OF wf] by auto
  show ?thesis
    using wf b chunk_unmarshal_fits [OF i] chunk_roundtrip [OF wf b(1), of "[]"]
    by (auto simp: chunk_marshal_def follows_def)
qed


text \<open>A COOKIE-ECHO with three bytes of cookie in front of a COOKIE-ACK.\<close>

definition cookie_packet :: bytes where
  "cookie_packet = [0, 1, 0, 2, 0, 0, 0, 9, 0, 0, 0, 0, 10, 0, 0, 7, 1, 2, 3, 0, 11, 0, 0, 4]"

lemma cookie_packet_accepted:
  "packet_unmarshal (\<lambda>_. 0) 0 cookie_packet =
     Ok \<lparr>pk_source_port = 1, pk_destination_port = 2, pk_verification_tag = 9,
         pk_chunks = [ChunkCookieEcho [1, 2, 3], ChunkCookieAck]\<rparr>"
proof -
  have "read_chunks 0 cookie_packet 24 = Ok []"
    by (subst read_chunks.simps) (simp add: cookie_packet_def)
  then have "read_chunks 0 cookie_packet 20 = Ok [ChunkCookieAck]"
    by (subst read_chunks.simps)
      (simp add: cookie_packet_def chunk_unmarshal_def ct_defs cookie_ack_unmarshal_def
        chunk_header_unmarshal_nat be16_def cookie_ack_value_length_def get_padding_size_eq)
  then have "read_chunks 0 cookie_packet 12 = Ok [ChunkCookieEcho [1, 2, 3], ChunkCookieAck]"
    by (subst read_chunks.simps)
      (simp add: cookie_packet_def chunk_unmarshal_def ct_defs opaque_chunk_defs bytes_slice_def
        chunk_header_unmarshal_nat chunk_header_value_length_def be16_def get_padding_size_eq)
  then show ?thesis
    by (simp add: packet_unmarshal_def generate_packet_checksum_def)
      (simp add: cookie_packet_def bytes_slice_def FOUR_ZEROES_def be16_def be32_def)
qed

theorem decoded_chunks_well_typed_witness:
  "chunk_wf (ChunkCookieEcho [1, 2, 3]) \<and> (\<exists>m. chunk_marshal (ChunkCookieEcho [1, 2, 3]) = Ok m \<and>
    length m \<le> length cookie_packet \<and>
    chunk_unmarshal 5 (m @ padding (length m)) = Ok (chunk_view 5 (ChunkCookieEcho [1, 2, 3])))"
  by (rule decoded_chunks_well_typed [OF cookie_packet_accepted])
    (simp_all add: cookie_packet_def)

text \<open>
  The exception is what a peer with partial reliability may send: an INIT that ends in the
  empty FORWARD-TSN-supported parameter.  The encoder writes it, the decoder leaves it out.
\<close>

definition init_forward_tsn :: chunk_init where
  "init_forward_tsn = \<lparr>ci_is_ack = False, ci_initiate_tag = 1,
     ci_advertised_receiver_window_credit = 65536, ci_num_outbound_streams = 1,
     ci_num_inbound_streams = 1, ci_initial_tsn = 1, ci_params = [ParamForwardTsnSupported]\<rparr>"

theorem empty_last_param_lost:
  "\<exists>m. chunk_marshal (ChunkInit init_forward_tsn) = Ok m \<and>
    chunk_unmarshal now m = Ok (ChunkInit (init_forward_tsn\<lparr>ci_params := []\<rparr>))"
proof -
  let ?b = "put_u16 24 @ put_u32 1 @ put_u32 65536 @ put_u16 1 @ put_u16 1 @ put_u32 1 @
    put_u16 49152 @ put_u16 4"
  have m: "chunk_marshal (ChunkInit init_forward_tsn) = Ok (CT_INIT # 0 # ?b)"
    by (simp add: chunk_marshal_def init_forward_tsn_def init_defs chunk_header_marshal_to_def
        param_marshal_def wire_defs param_header_marshal_to_def)
  have "chunk_header_unmarshal (CT_INIT # 0 # ?b) =
      Ok \<lparr>ch_typ = CT_INIT, ch_flags = 0, ch_value_length = 20\<rparr>"
    by (simp add: chunk_header_unmarshal_nat CT_INIT_def)
  moreover have "read_init_params (CT_INIT # 0 # ?b) 24 20 4 = Ok []"
    by (subst read_init_params.simps) simp
  moreover have "bytes_slice (CT_INIT # 0 # ?b) 4 24 = Ok (drop 2 ?b)"
    by (simp add: bytes_slice_def put_u16_def put_u32_def)
  ultimately have "init_unmarshal (CT_INIT # 0 # ?b) = Ok (init_forward_tsn\<lparr>ci_params := []\<rparr>)"
    by (simp add: init_unmarshal_def chunk_header_value_length_def init_forward_tsn_def ct_defs)
  then show ?thesis
    using chunk_unmarshal_known(1) m by auto
qed

end
