(* ===== verification/Payload_Queue.thy ===== *)
theory Payload_Queue
  imports Packet
begin

text \<open>
  src/src/queue/payload\_queue.rs: the chunks of a transmission window keyed by TSN, with
  the list of the keys in serial order.  The association keeps one for what it has received
  above its cumulative TSN and one for what it has in flight.  The locale \<open>tsn_queue\<close> is the
  contract both uses rest on.
\<close>

section \<open>State and operations\<close>

record payload_queue =
  pq_length :: usize
  pq_chunk_map :: "(u32, payload_data) hmap"
  pq_sorted :: "u32 list"
  pq_dup_tsn :: "u32 list"
  pq_n_bytes :: usize

definition payload_queue_new :: payload_queue where
  "payload_queue_new =
     \<lparr>pq_length = 0, pq_chunk_map = [], pq_sorted = [], pq_dup_tsn = [], pq_n_bytes = 0\<rparr>"

definition update_sorted_keys :: "payload_queue \<Rightarrow> payload_queue" where
  "update_sorted_keys q = q\<lparr>pq_sorted := sort_by sna32lt (pq_sorted q)\<rparr>"

definition payload_queue_can_push :: "payload_queue \<Rightarrow> payload_data \<Rightarrow> u32 \<Rightarrow> bool" where
  "payload_queue_can_push q p cumulative_tsn \<longleftrightarrow>
     \<not> (hm_contains (pq_chunk_map q) (pd_tsn p) \<or> sna32lte (pd_tsn p) cumulative_tsn)"

definition payload_queue_push_no_check :: "payload_queue \<Rightarrow> payload_data \<Rightarrow> payload_queue" where
  "payload_queue_push_no_check q p =
     update_sorted_keys (q\<lparr>pq_n_bytes := pq_n_bytes q + of_nat (length (pd_user_data p)),
       pq_sorted := pq_sorted q @ [pd_tsn p],
       pq_chunk_map := hm_insert (pd_tsn p) p (pq_chunk_map q),
       pq_length := pq_length q + 1\<rparr>)"

definition payload_queue_push :: "payload_queue \<Rightarrow> payload_data \<Rightarrow> u32 \<Rightarrow> bool \<times> payload_queue" where
  "payload_queue_push q p cumulative_tsn =
     (let ok = hm_contains (pq_chunk_map q) (pd_tsn p) in
      if ok \<or> sna32lte (pd_tsn p) cumulative_tsn
      then (False, q\<lparr>pq_dup_tsn := pq_dup_tsn q @ [pd_tsn p]\<rparr>)
      else
        (True, update_sorted_keys (q\<lparr>pq_n_bytes := pq_n_bytes q + of_nat (length (pd_user_data p)),
           pq_sorted := pq_sorted q @ [pd_tsn p],
           pq_chunk_map := hm_insert (pd_tsn p) p (pq_chunk_map q),
           pq_length := pq_length q + 1\<rparr>)))"

definition payload_queue_pop :: "payload_queue \<Rightarrow> u32 \<Rightarrow> payload_data option \<times> payload_queue" where
  "payload_queue_pop q tsn =
     (if pq_sorted q \<noteq> [] \<and> tsn = pq_sorted q ! 0
      then
        let q = q\<lparr>pq_sorted := tl (pq_sorted q)\<rparr> in
        case hm_get (pq_chunk_map q) tsn of
          Some c \<Rightarrow>
            (Some c, q\<lparr>pq_chunk_map := hm_remove tsn (pq_chunk_map q),
                       pq_length := pq_length q - 1,
                       pq_n_bytes := pq_n_bytes q - of_nat (length (pd_user_data c))\<rparr>)
        | None \<Rightarrow> (None, q)
      else (None, q))"

definition payload_queue_get :: "payload_queue \<Rightarrow> u32 \<Rightarrow> payload_data option" where
  "payload_queue_get q tsn = hm_get (pq_chunk_map q) tsn"

text \<open>\<^verbatim>\<open>get_mut\<close>: the caller's update of the chunk, when there is one.\<close>

definition payload_queue_update ::
  "payload_queue \<Rightarrow> u32 \<Rightarrow> (payload_data \<Rightarrow> payload_data) \<Rightarrow> payload_queue" where
  "payload_queue_update q tsn f =
     (case hm_get (pq_chunk_map q) tsn of
        Some c \<Rightarrow> q\<lparr>pq_chunk_map := hm_insert tsn (f c) (pq_chunk_map q)\<rparr>
      | None \<Rightarrow> q)"

definition payload_queue_pop_duplicates :: "payload_queue \<Rightarrow> u32 list \<times> payload_queue" where
  "payload_queue_pop_duplicates q = (pq_dup_tsn q, q\<lparr>pq_dup_tsn := []\<rparr>)"

definition gap_diff :: "u32 \<Rightarrow> u32 \<Rightarrow> u16" where
  "gap_diff cumulative_tsn tsn = (if tsn \<ge> cumulative_tsn then ucast (tsn - cumulative_tsn) else 0)"

text \<open>The loop after its first round, with the open block \<open>b\<close>.\<close>

fun gap_ack_blocks_loop :: "u32 \<Rightarrow> gap_ack_block \<Rightarrow> u32 list \<Rightarrow> gap_ack_block list" where
  "gap_ack_blocks_loop cumulative_tsn b [] = [b]"
| "gap_ack_blocks_loop cumulative_tsn b (tsn # tsns) =
     (let diff = gap_diff cumulative_tsn tsn in
      if gab_end b + 1 = diff
      then gap_ack_blocks_loop cumulative_tsn (b\<lparr>gab_end := gab_end b + 1\<rparr>) tsns
      else b # gap_ack_blocks_loop cumulative_tsn \<lparr>gab_start = diff, gab_end = diff\<rparr> tsns)"

definition payload_queue_get_gap_ack_blocks :: "payload_queue \<Rightarrow> u32 \<Rightarrow> gap_ack_block list" where
  "payload_queue_get_gap_ack_blocks q cumulative_tsn =
     (if pq_chunk_map q = [] then []
      else
        case pq_sorted q of
          [] \<Rightarrow> [\<lparr>gab_start = 0, gab_end = 0\<rparr>]
        | tsn # tsns \<Rightarrow>
            let diff = gap_diff cumulative_tsn tsn in
            gap_ack_blocks_loop cumulative_tsn \<lparr>gab_start = diff, gab_end = diff\<rparr> tsns)"

definition payload_queue_mark_as_acked :: "payload_queue \<Rightarrow> u32 \<Rightarrow> usize \<times> payload_queue" where
  "payload_queue_mark_as_acked q tsn =
     (case hm_get (pq_chunk_map q) tsn of
        Some c \<Rightarrow>
          let n = of_nat (length (pd_user_data c)) in
          (n, q\<lparr>pq_n_bytes := pq_n_bytes q - n,
                pq_chunk_map := hm_insert tsn
                  (c\<lparr>pd_acked := True, pd_retransmit := False, pd_user_data := []\<rparr>) (pq_chunk_map q)\<rparr>)
      | None \<Rightarrow> (0, q))"

definition payload_queue_get_last_tsn_received :: "payload_queue \<Rightarrow> u32 option" where
  "payload_queue_get_last_tsn_received q =
     (if pq_sorted q = [] then None else Some (last (pq_sorted q)))"

definition payload_queue_mark_all_to_retrasmit :: "cells \<Rightarrow> payload_queue \<Rightarrow> payload_queue" where
  "payload_queue_mark_all_to_retrasmit cs q =
     q\<lparr>pq_chunk_map := map (\<lambda>(t, c).
         (t, if pd_acked c \<or> payload_data_abandoned cs c then c else c\<lparr>pd_retransmit := True\<rparr>))
         (pq_chunk_map q)\<rparr>"

definition payload_queue_get_num_bytes :: "payload_queue \<Rightarrow> usize" where
  "payload_queue_get_num_bytes q = pq_n_bytes q"

text \<open>\<^verbatim>\<open>len\<close> asserts that the shared counter agrees with the map.\<close>

definition payload_queue_len :: "payload_queue \<Rightarrow> usize outcome" where
  "payload_queue_len q =
     (if of_nat (length (pq_chunk_map q)) \<noteq> pq_length q then Panic
      else Ok (of_nat (length (pq_chunk_map q))))"

definition payload_queue_is_empty :: "payload_queue \<Rightarrow> bool outcome" where
  "payload_queue_is_empty q = and_then (payload_queue_len q) (\<lambda>n. Ok (n = 0))"

section \<open>The invariant\<close>

definition queued_bytes :: "(u32, payload_data) hmap \<Rightarrow> nat" where
  "queued_bytes m = sum_list (map (\<lambda>(_, c). length (pd_user_data c)) m)"

text \<open>
  All TSNs lie in the window of a base \<open>c\<close>, which is what makes the key list sorted; the
  counters agree with the map.
\<close>

definition pq_inv :: "u32 \<Rightarrow> payload_queue \<Rightarrow> bool" where
  "pq_inv c q \<longleftrightarrow>
     hm_wf (pq_chunk_map q) \<and> list_all (\<lambda>(t, p). pd_tsn p = t) (pq_chunk_map q) \<and>
     mset (pq_sorted q) = mset (hm_keys (pq_chunk_map q)) \<and>
     sorted (map (\<lambda>t. t - c) (pq_sorted q)) \<and> list_all (in_window c) (pq_sorted q) \<and>
     pq_length q = of_nat (length (pq_chunk_map q)) \<and>
     pq_n_bytes q = of_nat (queued_bytes (pq_chunk_map q))"

lemma pq_inv_new: "pq_inv c payload_queue_new"
  by (simp add: pq_inv_def payload_queue_new_def queued_bytes_def)

lemma pq_inv_keys:
  assumes "pq_inv c q"
  shows "set (pq_sorted q) = dom (map_of (pq_chunk_map q))" and "distinct (pq_sorted q)"
    and "\<And>t p. hm_get (pq_chunk_map q) t = Some p \<Longrightarrow> pd_tsn p = t \<and> in_window c t"
proof -
  have m: "mset (pq_sorted q) = mset (hm_keys (pq_chunk_map q))" using assms by (simp add: pq_inv_def)
  then show s: "set (pq_sorted q) = dom (map_of (pq_chunk_map q))"
    by (metis dom_map_of_conv_image_fst set_map set_mset_mset)
  show "distinct (pq_sorted q)"
    using m assms by (metis mset_eq_imp_distinct_iff pq_inv_def)
  show "pd_tsn p = t \<and> in_window c t" if "hm_get (pq_chunk_map q) t = Some p" for t p
  proof
    show "pd_tsn p = t" using assms map_of_SomeD [OF that] by (auto simp: pq_inv_def list_all_iff)
    have "t \<in> set (pq_sorted q)" using s that by (simp add: domI)
    then show "in_window c t" using assms by (simp add: pq_inv_def list_all_iff)
  qed
qed

lemma pq_inv_len: "pq_inv c q \<Longrightarrow> payload_queue_len q = Ok (pq_length q)"
  by (simp add: pq_inv_def payload_queue_len_def)

text \<open>The bytes of a map after an insertion, a removal, an update.\<close>

lemma queued_bytes_insert:
  "map_of m t = None \<Longrightarrow> queued_bytes (hm_insert t p m) = queued_bytes m + length (pd_user_data p)"
  by (induction m) (auto simp: queued_bytes_def split: if_splits)

lemma queued_bytes_remove:
  "hm_wf m \<Longrightarrow> map_of m t = Some p \<Longrightarrow> queued_bytes m = queued_bytes (hm_remove t m) + length (pd_user_data p)"
proof (induction m)
  case (Cons x m)
  obtain k v where x: "x = (k, v)" by fastforce
  have "k \<notin> set (hm_keys m) \<Longrightarrow> hm_remove k m = m"
    by (simp add: AList.delete_eq filter_id_conv) force
  moreover have "hm_remove t (x # m) = (if k = t then hm_remove t m else x # hm_remove t m)"
    by (simp add: x AList.delete_eq)
  ultimately show ?case using Cons by (auto simp: x queued_bytes_def split: if_splits)
qed simp

lemma queued_bytes_update:
  "hm_wf m \<Longrightarrow> map_of m t = Some p \<Longrightarrow>
    queued_bytes (hm_insert t p' m) + length (pd_user_data p) = queued_bytes m + length (pd_user_data p')"
  by (induction m) (auto simp: queued_bytes_def split: if_splits)

lemma keys_insert_new: "map_of m t = None \<Longrightarrow> hm_keys (hm_insert t p m) = hm_keys m @ [t]"
  by (induction m) (auto split: if_splits)

lemma keys_insert_old: "map_of m t \<noteq> None \<Longrightarrow> hm_keys (hm_insert t p m) = hm_keys m"
  by (induction m) (auto split: if_splits)

lemma mset_keys_remove:
  "hm_wf m \<Longrightarrow> mset (hm_keys (hm_remove t m)) = mset (hm_keys m) - {#t#}"
  by (simp add: AList.delete_keys distinct_remove1_removeAll [symmetric])

lemma length_remove:
  "hm_wf m \<Longrightarrow> map_of m t = Some p \<Longrightarrow> length m = length (hm_remove t m) + 1"
proof -
  assume m: "hm_wf m" "map_of m t = Some p"
  then have "t \<in> set (hm_keys m)" by (auto dest: map_of_SomeD intro: rev_image_eqI)
  moreover have "hm_keys (hm_remove t m) = remove1 t (hm_keys m)"
    using m by (simp add: AList.delete_keys distinct_remove1_removeAll [symmetric])
  ultimately have "length (hm_keys (hm_remove t m)) = length (hm_keys m) - 1"
      and "length (hm_keys m) \<noteq> 0"
    by (auto simp: length_remove1)
  then show ?thesis by simp
qed

lemma list_all_tsn_remove:
  "list_all P m \<Longrightarrow> list_all P (hm_remove t m)"
  by (auto simp: AList.delete_eq list_all_iff)

lemma list_all_tsn_insert:
  "list_all (\<lambda>(t, p). pd_tsn p = t) m \<Longrightarrow> pd_tsn p = t \<Longrightarrow>
    list_all (\<lambda>(t, p). pd_tsn p = t) (hm_insert t p m)"
  by (induction m) (auto split: if_splits)

text \<open>Sorting restores the key order after an insertion.\<close>

lemma sort_by_window:
  assumes "list_all (in_window c) ts"
  shows "sorted (map (\<lambda>t. t - c) (sort_by sna32lt ts))"
  by (rule sorted_sort_by) (use assms in \<open>auto simp: list_all_iff s32.window_lt [of c]\<close>)

lemma pq_inv_push_no_check:
  assumes "pq_inv c q" and "hm_get (pq_chunk_map q) (pd_tsn p) = None" and "in_window c (pd_tsn p)"
  shows "pq_inv c (payload_queue_push_no_check q p)"
proof -
  have "list_all (in_window c) (pq_sorted q @ [pd_tsn p])" using assms by (simp add: pq_inv_def)
  note w = sort_by_window [OF this] this
  have k: "hm_keys (hm_insert (pd_tsn p) p (pq_chunk_map q)) = hm_keys (pq_chunk_map q) @ [pd_tsn p]"
    using assms(2) by (rule keys_insert_new)
  then have l: "length (hm_insert (pd_tsn p) p (pq_chunk_map q)) = length (pq_chunk_map q) + 1"
    by (metis length_append_singleton length_map Suc_eq_plus1)
  show ?thesis
    using assms w l queued_bytes_insert [OF assms(2), of p] assms(2) [unfolded map_of_eq_None_iff]
    unfolding pq_inv_def payload_queue_push_no_check_def update_sorted_keys_def
    by (simp add: k distinct_update list_all_tsn_insert del: mset_map)
      (simp add: list_all_iff)
qed

text \<open>The least key is the first one; \<^verbatim>\<open>pop\<close> takes it and nothing else.\<close>

lemma pq_sorted_hd:
  assumes "pq_inv c q" and "pq_sorted q \<noteq> []" and "t \<in> set (pq_sorted q)"
  shows "pq_sorted q ! 0 - c \<le> t - c"
  using assms by (cases "pq_sorted q") (auto simp: pq_inv_def)

lemma pq_pop_Some:
  assumes "pq_inv c q" and "payload_queue_pop q t = (Some p, q')"
  shows "hm_get (pq_chunk_map q) t = Some p" and "pq_chunk_map q' = hm_remove t (pq_chunk_map q)"
    and "pq_inv c q'" and "pq_dup_tsn q' = pq_dup_tsn q"
    and "pq_n_bytes q' = pq_n_bytes q - of_nat (length (pd_user_data p))"
proof -
  obtain ts where ts: "pq_sorted q = t # ts" and p: "hm_get (pq_chunk_map q) t = Some p"
    and q': "q' = q\<lparr>pq_sorted := ts, pq_chunk_map := hm_remove t (pq_chunk_map q),
      pq_length := pq_length q - 1, pq_n_bytes := pq_n_bytes q - of_nat (length (pd_user_data p))\<rparr>"
    using assms(2) by (cases "pq_sorted q")
      (auto simp: payload_queue_pop_def Let_def split: if_splits option.splits)
  show "hm_get (pq_chunk_map q) t = Some p" by (rule p)
  show "pq_chunk_map q' = hm_remove t (pq_chunk_map q)" "pq_dup_tsn q' = pq_dup_tsn q"
      "pq_n_bytes q' = pq_n_bytes q - of_nat (length (pd_user_data p))"
    by (simp_all add: q')
  have m: "hm_wf (pq_chunk_map q)" using assms by (simp add: pq_inv_def)
  have "mset (hm_keys (pq_chunk_map q)) = add_mset t (mset ts)"
    using assms(1) by (simp add: pq_inv_def ts)
  then have k: "mset ts = mset (hm_keys (hm_remove t (pq_chunk_map q)))"
    unfolding mset_keys_remove [OF m] by simp
  show "pq_inv c q'"
    using assms(1) ts k queued_bytes_remove [OF m p] length_remove [OF m p]
    by (auto simp: pq_inv_def q' AList.distinct_delete list_all_tsn_remove)
qed

lemma pq_get_iff: "pq_inv c q \<Longrightarrow> hm_get (pq_chunk_map q) t \<noteq> None \<longleftrightarrow> t \<in> set (pq_sorted q)"
  by (simp add: pq_inv_keys domIff)

lemma pq_pop_base:
  assumes "pq_inv c q"
  shows "payload_queue_pop q c = (None, q) \<longleftrightarrow> hm_get (pq_chunk_map q) c = None"
    and "hm_get (pq_chunk_map q) c = Some p \<Longrightarrow> \<exists>q'. payload_queue_pop q c = (Some p, q')"
proof -
  have hd: "pq_sorted q ! 0 = c" if "c \<in> set (pq_sorted q)"
  proof -
    have "pq_sorted q \<noteq> []" using that by auto
    from pq_sorted_hd [OF assms this that] show ?thesis by simp
  qed
  have hit: "\<exists>q'. payload_queue_pop q c = (Some p, q')" if "hm_get (pq_chunk_map q) c = Some p" for p
  proof -
    have "c \<in> set (pq_sorted q)" using pq_get_iff [OF assms, of c] that by simp
    with hd [OF this] that show ?thesis by (auto simp: payload_queue_pop_def Let_def)
  qed
  then show "hm_get (pq_chunk_map q) c = Some p \<Longrightarrow> \<exists>q'. payload_queue_pop q c = (Some p, q')" .
  show "payload_queue_pop q c = (None, q) \<longleftrightarrow> hm_get (pq_chunk_map q) c = None"
  proof (cases "hm_get (pq_chunk_map q) c")
    case None
    then have "c \<notin> set (pq_sorted q)" using pq_get_iff [OF assms, of c] by simp
    with None show ?thesis by (cases "pq_sorted q") (auto simp: payload_queue_pop_def)
  next
    case (Some p)
    from hit [OF this] Some show ?thesis by auto
  qed
qed

text \<open>When the base is not queued, the window can move past it.\<close>

lemma in_window_next: "in_window c x \<Longrightarrow> x \<noteq> c \<Longrightarrow> in_window (c + 1) x" for c x :: u32
proof -
  assume "in_window c x" and ne: "x \<noteq> c"
  then have w: "unat (x - c) < 2 ^ 31" by (simp add: s32.window_unat)
  have "x - c \<noteq> 0" using ne by simp
  then have "unat (x - c) \<noteq> 0" by (simp add: unat_eq_0)
  then have "unat (x - c - 1) = unat (x - c) - 1" by (simp add: unat_diff_if)
  then show ?thesis using w by (simp add: s32.window_unat diff_diff_eq)
qed

lemma unat_diff_succ: "x \<noteq> c \<Longrightarrow> unat (x - (c + 1)) = unat (x - c) - 1" for c x :: u32
proof -
  assume "x \<noteq> c"
  then have "unat (x - c) \<noteq> 0" by (simp add: unat_eq_0)
  then have "unat (x - c - 1) = unat (x - c) - 1" by (simp add: unat_diff_if)
  then show ?thesis by (simp add: diff_diff_eq)
qed

lemma pq_inv_advance:
  assumes "pq_inv c q" and "hm_get (pq_chunk_map q) c = None"
  shows "pq_inv (c + 1) q"
proof -
  have n: "t \<noteq> c" if "t \<in> set (pq_sorted q)" for t
    using that pq_get_iff [OF assms(1)] assms(2) by metis
  have "sorted_wrt (\<lambda>x y. x - c \<le> y - c) (pq_sorted q)" and w: "list_all (in_window c) (pq_sorted q)"
    using assms(1) by (simp_all add: pq_inv_def sorted_wrt_map)
  then have "sorted (map (\<lambda>t. t - (c + 1)) (pq_sorted q))"
    unfolding sorted_wrt_map
    by (elim sorted_wrt_mono_rel [rotated]) (auto simp: word_le_nat_alt unat_diff_succ n diff_le_mono)
  moreover have "list_all (in_window (c + 1)) (pq_sorted q)"
    using w n by (auto simp: list_all_iff in_window_next)
  ultimately show ?thesis using assms(1) by (simp add: pq_inv_def)
qed

text \<open>\<^verbatim>\<open>can_push\<close> is exactly: not queued yet, and in the window above the cumulative TSN.\<close>

lemma sna32lte_window: "sna32lte t cum \<longleftrightarrow> \<not> in_window (cum + 1) t"
proof (cases "t = cum")
  case True
  have "cum - (cum + 1) = (4294967295 :: u32)" by simp
  then show ?thesis using True by (simp add: sna32lte_def in_window_def)
next
  case False
  have d: "unat (cum - t) = 2 ^ 32 - unat (t - cum)"
    using False unat_less_pow [of "t - cum"] unat_diff_if [of 0 "t - cum"]
    by (simp add: unat_eq_0)
  have p: "0 < unat (t - cum)" using False by (simp add: unat_gt_0)
  show ?thesis
    using False d p unat_less_pow [of "t - cum"]
    by (auto simp: sna32lte_def s32.lt_iff_unat s32.window_unat unat_diff_succ)
qed

lemma can_push_iff:
  "payload_queue_can_push q p cum \<longleftrightarrow>
    hm_get (pq_chunk_map q) (pd_tsn p) = None \<and> in_window (cum + 1) (pd_tsn p)"
  by (auto simp: payload_queue_can_push_def sna32lte_window)

lemma push_eq:
  "payload_queue_push q p cum =
    (if payload_queue_can_push q p cum then (True, payload_queue_push_no_check q p)
     else (False, q\<lparr>pq_dup_tsn := pq_dup_tsn q @ [pd_tsn p]\<rparr>))"
  by (simp add: payload_queue_push_def payload_queue_can_push_def payload_queue_push_no_check_def Let_def)

section \<open>The contract of a TSN queue\<close>

text \<open>
  What the receive path of the association uses: with the window based just above the
  cumulative TSN, pushing refuses exactly the duplicates and the old, popping the base
  takes it when it is there, and when it is not the window may advance.
\<close>

locale tsn_queue =
  fixes inv :: "u32 \<Rightarrow> 'q \<Rightarrow> bool"
    and content :: "'q \<Rightarrow> u32 \<Rightarrow> payload_data option"
    and push :: "'q \<Rightarrow> payload_data \<Rightarrow> u32 \<Rightarrow> bool \<times> 'q"
    and pop :: "'q \<Rightarrow> u32 \<Rightarrow> payload_data option \<times> 'q"
  assumes window: "inv c q \<Longrightarrow> content q t = Some p \<Longrightarrow> pd_tsn p = t \<and> in_window c t"
    and push_new: "inv (cum + 1) q \<Longrightarrow> content q (pd_tsn p) = None \<Longrightarrow> in_window (cum + 1) (pd_tsn p) \<Longrightarrow>
      \<exists>q'. push q p cum = (True, q') \<and> inv (cum + 1) q' \<and> content q' = (content q)(pd_tsn p \<mapsto> p)"
    and push_old: "inv (cum + 1) q \<Longrightarrow> content q (pd_tsn p) \<noteq> None \<or> \<not> in_window (cum + 1) (pd_tsn p) \<Longrightarrow>
      \<exists>q'. push q p cum = (False, q') \<and> inv (cum + 1) q' \<and> content q' = content q"
    and pop_hit: "inv c q \<Longrightarrow> content q c = Some p \<Longrightarrow>
      \<exists>q'. pop q c = (Some p, q') \<and> inv c q' \<and> content q' = (content q)(c := None)"
    and pop_miss: "inv c q \<Longrightarrow> content q c = None \<Longrightarrow> pop q c = (None, q)"
    and advance: "inv c q \<Longrightarrow> content q c = None \<Longrightarrow> inv (c + 1) q"

text \<open>
  The loop \<^verbatim>\<open>while queue.pop(cum + 1).is_some() { cum += 1 }\<close> as a relation between its start
  and its end, for any \<^verbatim>\<open>pop\<close>.
\<close>

inductive pop_run :: "('q \<Rightarrow> u32 \<Rightarrow> payload_data option \<times> 'q) \<Rightarrow> u32 \<Rightarrow> 'q \<Rightarrow> u32 \<Rightarrow> 'q \<Rightarrow> bool"
  for pop where
  stop: "pop q (cum + 1) = (None, q') \<Longrightarrow> pop_run pop cum q cum q'"
| step: "pop q (cum + 1) = (Some p, q') \<Longrightarrow> pop_run pop (cum + 1) q' cum' q'' \<Longrightarrow>
    pop_run pop cum q cum' q''"

context tsn_queue begin

lemma push_iff: "inv (cum + 1) q \<Longrightarrow>
    fst (push q p cum) \<longleftrightarrow> content q (pd_tsn p) = None \<and> in_window (cum + 1) (pd_tsn p)"
  using push_new [of cum q p] push_old [of cum q p] by fastforce

text \<open>The loop takes exactly the contiguous run above the cumulative TSN.\<close>

lemma run_takes_prefix:
  "pop_run pop cum q cum' q' \<Longrightarrow> inv (cum + 1) q \<Longrightarrow>
    inv (cum' + 1) q' \<and> content q' (cum' + 1) = None \<and>
    (\<exists>n. cum' = cum + of_nat n \<and> (\<forall>i<n. content q (cum + 1 + of_nat i) \<noteq> None) \<and>
      content q' = (\<lambda>t. if \<exists>i<n. t = cum + 1 + of_nat i then None else content q t))"
proof (induction rule: pop_run.induct)
  case (stop q cum q')
  then have "content q (cum + 1) = None"
    using pop_hit [OF stop(2)] by (cases "content q (cum + 1)") fastforce+
  with stop pop_miss [OF stop(2)] show ?case by (auto intro!: exI [of _ 0])
next
  case (step q cum p q' cum' q'')
  then have c: "content q (cum + 1) = Some p" "inv (cum + 1) q'"
      "content q' = (content q)(cum + 1 := None)"
    using pop_hit [OF step(4)] pop_miss [OF step(4)] by (cases "content q (cum + 1)"; fastforce)+
  then have "inv (cum + 1 + 1) q'" using advance [of "cum + 1" q'] by (simp only: fun_upd_same)
  from step.IH [OF this] obtain n where n: "inv (cum' + 1) q''" "content q'' (cum' + 1) = None"
      "cum' = cum + 1 + of_nat n" "\<forall>i<n. content q' (cum + 1 + 1 + of_nat i) \<noteq> None"
      "content q'' = (\<lambda>t. if \<exists>i<n. t = cum + 1 + 1 + of_nat i then None else content q' t)"
    by auto
  have all: "(\<forall>i<Suc n. content q (cum + 1 + of_nat i) \<noteq> None)"
    using n(4) c by (auto simp: less_Suc_eq_0_disj add.assoc split: if_splits)
  have "(\<exists>i<Suc n. t = cum + 1 + of_nat i) \<longleftrightarrow> t = cum + 1 \<or> (\<exists>i<n. t = cum + 1 + 1 + of_nat i)" for t
    by (auto simp: less_Suc_eq_0_disj add.assoc)
  then have "content q'' = (\<lambda>t. if \<exists>i<Suc n. t = cum + 1 + of_nat i then None else content q t)"
    by (auto simp: n(5) c(3) fun_eq_iff)
  moreover have "cum' = cum + of_nat (Suc n)" by (simp add: n(3))
  ultimately show ?case using n(1,2) all by blast
qed

text \<open>It advances by less than half the number space and never goes back.\<close>

lemma run_window:
  assumes "inv (cum + 1) q" and "\<forall>i<n. content q (cum + 1 + of_nat i) \<noteq> None"
  shows "n \<le> 2 ^ 31"
proof (rule ccontr)
  assume "\<not> n \<le> 2 ^ 31"
  then obtain p where "content q (cum + 1 + of_nat (2 ^ 31)) = Some p"
    using assms(2) [rule_format, of "2 ^ 31"] by force
  then have "in_window (cum + 1) (cum + 1 + of_nat (2 ^ 31))" using window [OF assms(1)] by blast
  then show False by (simp add: s32.window_unat)
qed

end

interpretation pq: tsn_queue pq_inv "\<lambda>q. hm_get (pq_chunk_map q)" payload_queue_push payload_queue_pop
proof (unfold_locales, goal_cases)
  case (1 c q t p)
  then show ?case using pq_inv_keys(3) by blast
next
  case (2 cum q p)
  then show ?case
    using pq_inv_push_no_check [of "cum + 1" q p]
    by (simp add: push_eq can_push_iff) (simp add: payload_queue_push_no_check_def update_sorted_keys_def
        update_conv')
next
  case (3 cum q p)
  then show ?case by (auto simp: push_eq can_push_iff pq_inv_def)
next
  case (4 c q p)
  then show ?case
    using pq_pop_base(2) [OF 4] pq_pop_Some [OF 4(1)] by (metis delete_conv')
next
  case (5 c q)
  then show ?case using pq_pop_base(1) by simp
next
  case (6 c q)
  then show ?case by (rule pq_inv_advance)
qed

section \<open>Gap acknowledgement blocks\<close>

text \<open>The offsets from the cumulative TSN that a list of blocks reports.\<close>

definition gap_covered :: "gap_ack_block list \<Rightarrow> nat \<Rightarrow> bool" where
  "gap_covered bs x \<longleftrightarrow> list_ex (\<lambda>b. unat (gab_start b) \<le> x \<and> x \<le> unat (gab_end b)) bs"

definition gap_separated :: "gap_ack_block list \<Rightarrow> bool" where
  "gap_separated bs \<longleftrightarrow> list_all (\<lambda>b. gab_start b \<le> gab_end b) bs \<and>
     sorted_wrt (\<lambda>b b'. unat (gab_end b) + 1 < unat (gab_start b')) bs"

definition gap_offset :: "u32 \<Rightarrow> u32 \<Rightarrow> nat" where
  "gap_offset cum t = unat (t - cum)"

lemma unat_gap_diff: "cum \<le> t \<Longrightarrow> gap_offset cum t < 65536 \<Longrightarrow> unat (gap_diff cum t) = gap_offset cum t"
  by (simp add: gap_diff_def gap_offset_def unsigned_ucast_eq unsigned_take_bit_eq take_bit_eq_mod)

lemma gap_loop_spec:
  assumes "\<forall>t \<in> set ts. cum \<le> t \<and> gap_offset cum t < 65536"
    and "sorted_wrt (<) (map (gap_offset cum) ts)"
    and "\<forall>t \<in> set ts. unat (gab_end b) < gap_offset cum t" and "gab_start b \<le> gab_end b"
  shows "gap_covered (gap_ack_blocks_loop cum b ts) x \<longleftrightarrow>
      unat (gab_start b) \<le> x \<and> x \<le> unat (gab_end b) \<or> x \<in> gap_offset cum ` set ts"
    and "gap_separated (gap_ack_blocks_loop cum b ts)"
    and "gab_start (hd (gap_ack_blocks_loop cum b ts)) = gab_start b"
    and "gap_ack_blocks_loop cum b ts \<noteq> []"
proof -
  have "(gap_covered (gap_ack_blocks_loop cum b ts) x \<longleftrightarrow>
      unat (gab_start b) \<le> x \<and> x \<le> unat (gab_end b) \<or> x \<in> gap_offset cum ` set ts) \<and>
    gap_separated (gap_ack_blocks_loop cum b ts) \<and>
    gab_start (hd (gap_ack_blocks_loop cum b ts)) = gab_start b \<and> gap_ack_blocks_loop cum b ts \<noteq> []"
    using assms
  proof (induction ts arbitrary: b)
    case Nil
    then show ?case by (simp add: gap_covered_def gap_separated_def)
  next
    case (Cons t ts)
    have d: "unat (gap_diff cum t) = gap_offset cum t" "gap_offset cum t < 65536"
      using Cons.prems by (simp_all add: unat_gap_diff)
    have later: "\<forall>u \<in> set ts. gap_offset cum t < gap_offset cum u" using Cons.prems(2) by simp
    have e: "unat (gab_end b) < gap_offset cum t" using Cons.prems(3) by simp
    show ?case
    proof (cases "gab_end b + 1 = gap_diff cum t")
      case True
      have u: "unat (gab_end b + 1) = gap_offset cum t" using True d by simp
      have v: "gap_offset cum t = unat (gab_end b) + 1"
        using u e d unatSuc [of "gab_end b"] by (cases "1 + gab_end b = 0") (simp_all add: add.commute)
      have "gap_ack_blocks_loop cum b (t # ts) = gap_ack_blocks_loop cum (b\<lparr>gab_end := gab_end b + 1\<rparr>) ts"
        using True by (simp add: Let_def)
      moreover have "gab_start b \<le> gab_end b + 1"
        using Cons.prems(4) u v by (simp add: word_le_nat_alt)
      ultimately show ?thesis
        using Cons.IH [of "b\<lparr>gab_end := gab_end b + 1\<rparr>"] Cons.prems later u v
        by (auto simp: le_Suc_eq word_le_nat_alt)
    next
      case False
      let ?c = "\<lparr>gab_start = gap_diff cum t, gab_end = gap_diff cum t\<rparr>"
      let ?r = "gap_ack_blocks_loop cum ?c ts"
      have ih: "(gap_covered ?r x \<longleftrightarrow> x = gap_offset cum t \<or> x \<in> gap_offset cum ` set ts)"
          "gap_separated ?r" "gab_start (hd ?r) = gap_diff cum t" "?r \<noteq> []"
        using Cons.IH [of ?c] Cons.prems later d by auto
      have "unat (gab_end b) + 1 \<noteq> gap_offset cum t"
      proof
        assume a: "unat (gab_end b) + 1 = gap_offset cum t"
        then have "unat (gab_end b + 1) = unat (gap_diff cum t)"
          using d by (simp add: unat_word_ariths)
        with False show False unfolding word_unat_eq_iff by (elim notE)
      qed
      then have lt: "unat (gab_end b) + 1 < gap_offset cum t" using e by simp
      have sep: "\<forall>c \<in> set ?r. unat (gab_end b) + 1 < unat (gab_start c)"
      proof -
        obtain h r where r: "?r = h # r" using ih(4) by (cases ?r) auto
        have "\<forall>c \<in> set r. unat (gab_end h) + 1 < unat (gab_start c)" "gab_start h \<le> gab_end h"
          using ih(2) by (simp_all add: r gap_separated_def)
        moreover have "gab_start h = gap_diff cum t" using ih(3) by (simp add: r)
        ultimately show ?thesis using lt d by (auto simp: r word_le_nat_alt)
      qed
      have "gap_ack_blocks_loop cum b (t # ts) = b # ?r" using False by (simp add: Let_def)
      then show ?thesis
        using ih Cons.prems(4) sep by (auto simp: gap_covered_def gap_separated_def)
    qed
  qed
  then show "gap_covered (gap_ack_blocks_loop cum b ts) x \<longleftrightarrow>
      unat (gab_start b) \<le> x \<and> x \<le> unat (gab_end b) \<or> x \<in> gap_offset cum ` set ts"
    "gap_separated (gap_ack_blocks_loop cum b ts)"
    "gab_start (hd (gap_ack_blocks_loop cum b ts)) = gab_start b"
    "gap_ack_blocks_loop cum b ts \<noteq> []" by blast+
qed

text \<open>C23: as long as no queued TSN has wrapped around and all are within 65535 of the
  cumulative TSN, the gap blocks of a SACK report exactly the queued TSNs, in increasing blocks
  with at least one missing TSN between two of them.\<close>

theorem gap_ack_blocks_exact:
  assumes "pq_inv (cum + 1) q"
    and "\<forall>t \<in> set (pq_sorted q). cum \<le> t \<and> gap_offset cum t < 65536"
  shows "gap_separated (payload_queue_get_gap_ack_blocks q cum) \<and>
    (\<forall>x. gap_covered (payload_queue_get_gap_ack_blocks q cum) x \<longleftrightarrow>
      (\<exists>t \<in> set (pq_sorted q). gap_offset cum t = x))"
proof (cases "pq_sorted q")
  case Nil
  then have "pq_chunk_map q = []" using assms(1) by (simp add: pq_inv_def)
  then show ?thesis
    by (simp add: payload_queue_get_gap_ack_blocks_def gap_covered_def gap_separated_def Nil)
next
  case (Cons t ts)
  have ne: "pq_chunk_map q \<noteq> []" using assms(1) Cons by (auto simp: pq_inv_def)
  have w: "u \<noteq> cum" if "u \<in> set (pq_sorted q)" for u
  proof -
    have "in_window (cum + 1) u" using that assms(1) by (simp add: pq_inv_def list_all_iff)
    then show ?thesis using sna32lte_window [of u cum] by (auto simp: sna32lte_def)
  qed
  have "sorted_wrt (\<lambda>x y. x - (cum + 1) \<le> y - (cum + 1) \<and> x \<noteq> y) (pq_sorted q)"
    using assms(1) pq_inv_keys(2) [OF assms(1)]
    by (auto simp: pq_inv_def sorted_wrt_map distinct_conv_nth sorted_wrt_iff_nth_less)
  then have "sorted_wrt (\<lambda>x y. gap_offset cum x < gap_offset cum y) (pq_sorted q)"
  proof (rule sorted_wrt_mono_rel [rotated])
    fix x y assume h: "x \<in> set (pq_sorted q)" "y \<in> set (pq_sorted q)"
      "x - (cum + 1) \<le> y - (cum + 1) \<and> x \<noteq> y"
    then have "unat (x - cum) - 1 \<le> unat (y - cum) - 1" and "x - cum \<noteq> y - cum"
        "x - cum \<noteq> 0" "y - cum \<noteq> 0"
      using w by (simp_all add: word_le_nat_alt unat_diff_succ)
    then show "gap_offset cum x < gap_offset cum y"
      unfolding gap_offset_def word_unat_eq_iff by simp
  qed
  then have s: "sorted_wrt (<) (map (gap_offset cum) ts)" "\<forall>u \<in> set ts. gap_offset cum t < gap_offset cum u"
    by (simp_all add: Cons sorted_wrt_map)
  let ?b = "\<lparr>gab_start = gap_diff cum t, gab_end = gap_diff cum t\<rparr>"
  have d: "unat (gap_diff cum t) = gap_offset cum t" using assms(2) Cons by (simp add: unat_gap_diff)
  have "payload_queue_get_gap_ack_blocks q cum = gap_ack_blocks_loop cum ?b ts"
    using ne by (simp add: payload_queue_get_gap_ack_blocks_def Cons Let_def)
  then show ?thesis
    using gap_loop_spec [of ts cum ?b] assms(2) s d by (auto simp: Cons)
qed

text \<open>Two received chunks above a hole.\<close>

definition data_with_tsn :: "u32 \<Rightarrow> bytes \<Rightarrow> payload_data" where
  "data_with_tsn tsn user_data = (payload_data_default 0)\<lparr>pd_tsn := tsn, pd_user_data := user_data\<rparr>"

lemma data_with_tsn_fields [simp]:
  "pd_tsn (data_with_tsn t u) = t" "pd_user_data (data_with_tsn t u) = u"
  by (simp_all add: data_with_tsn_def)

definition queue_of :: "u32 \<Rightarrow> u32 list \<Rightarrow> payload_queue" where
  "queue_of cum tsns =
     foldl (\<lambda>q t. snd (payload_queue_push q (data_with_tsn t [1, 2]) cum)) payload_queue_new tsns"

lemma queue_of_inv: "pq_inv (cum + 1) (queue_of cum tsns)"
proof -
  have "pq_inv (cum + 1) (snd (payload_queue_push q p cum))" if "pq_inv (cum + 1) q" for q p
    using pq.push_new [OF that, of p] pq.push_old [OF that, of p]
    by (cases "hm_get (pq_chunk_map q) (pd_tsn p) = None \<and> in_window (cum + 1) (pd_tsn p)") auto
  then have "pq_inv (cum + 1) (foldl (\<lambda>q t. snd (payload_queue_push q (data_with_tsn t [1, 2]) cum)) q tsns)"
    if "pq_inv (cum + 1) q" for q
    using that by (induction tsns arbitrary: q) auto
  then show ?thesis by (simp add: queue_of_def pq_inv_new)
qed

lemmas payload_queue_eval =
  queue_of_def data_with_tsn_def payload_data_default_def payload_queue_push_def
  payload_queue_new_def update_sorted_keys_def sort_by_def sna32lte_def sna32lt_def

theorem gap_ack_blocks_exact_witness:
  "gap_separated (payload_queue_get_gap_ack_blocks (queue_of 10 [14, 12, 13]) 10) \<and>
    (\<forall>x. gap_covered (payload_queue_get_gap_ack_blocks (queue_of 10 [14, 12, 13]) 10) x \<longleftrightarrow>
      (\<exists>t \<in> set (pq_sorted (queue_of 10 [14, 12, 13])). gap_offset 10 t = x))"
proof (rule gap_ack_blocks_exact)
  have "pq_inv (10 + 1) (queue_of 10 [14, 12, 13])" by (rule queue_of_inv)
  then show "pq_inv (10 + 1) (queue_of 10 [14, 12, 13])" .
  show "\<forall>t \<in> set (pq_sorted (queue_of 10 [14, 12, 13])). 10 \<le> t \<and> gap_offset 10 t < 65536"
    by (simp add: payload_queue_eval gap_offset_def)
qed

text \<open>Across the wrap of the TSN the blocks are wrong: with the cumulative TSN at
  4294967294 and TSN 0 received, the SACK reports the offset 0 instead of 2, because the code
  compares the TSNs as plain numbers.\<close>

theorem gap_ack_blocks_wrap:
  "payload_queue_get_gap_ack_blocks (queue_of 4294967294 [0]) 4294967294 =
    [\<lparr>gab_start = 0, gab_end = 0\<rparr>] \<and> gap_offset 4294967294 0 = 2"
  by (simp add: payload_queue_eval payload_queue_get_gap_ack_blocks_def gap_diff_def gap_offset_def)

section \<open>Accounting\<close>

lemma hm_values_insert_list_all:
  "list_all (\<lambda>(t, p). pd_tsn p = t) m \<Longrightarrow> map_of m t = Some p \<Longrightarrow> pd_tsn p' = t \<Longrightarrow>
    list_all (\<lambda>(t, p). pd_tsn p = t) (hm_insert t p' m)"
  by (rule list_all_tsn_insert)

text \<open>Updating a queued chunk without its TSN and its data keeps the queue's invariant.\<close>

lemma pq_inv_update:
  assumes "pq_inv c q" and "\<And>p. pd_tsn (f p) = pd_tsn p" and "\<And>p. length (pd_user_data (f p)) = length (pd_user_data p)"
  shows "pq_inv c (payload_queue_update q t f)"
proof (cases "hm_get (pq_chunk_map q) t")
  case (Some p)
  have wf: "hm_wf (pq_chunk_map q)" using assms(1) by (simp add: pq_inv_def)
  have k: "hm_keys (hm_insert t (f p) (pq_chunk_map q)) = hm_keys (pq_chunk_map q)"
    using Some by (intro keys_insert_old) simp
  then have l: "length (hm_insert t (f p) (pq_chunk_map q)) = length (pq_chunk_map q)"
    by (metis length_map)
  have "pd_tsn p = t" using pq_inv_keys(3) [OF assms(1) Some] by simp
  then show ?thesis
    using assms queued_bytes_update [OF wf Some, of "f p"] l
    unfolding pq_inv_def payload_queue_update_def
    by (simp add: Some k list_all_tsn_insert del: mset_map)
qed (use assms in \<open>simp add: payload_queue_update_def\<close>)

lemma mark_as_acked_facts:
  assumes "pq_inv c q" and "payload_queue_get q t = Some p"
  shows "\<exists>q'. payload_queue_mark_as_acked q t = (of_nat (length (pd_user_data p)), q') \<and>
    pq_inv c q' \<and> pq_n_bytes q' + of_nat (length (pd_user_data p)) = pq_n_bytes q \<and>
    payload_queue_get q' t = Some (p\<lparr>pd_acked := True, pd_retransmit := False, pd_user_data := []\<rparr>) \<and>
    payload_queue_mark_as_acked q' t = (0, q')"
proof -
  let ?p = "p\<lparr>pd_acked := True, pd_retransmit := False, pd_user_data := []\<rparr>"
  let ?m = "hm_insert t ?p (pq_chunk_map q)"
  have p: "hm_get (pq_chunk_map q) t = Some p" using assms(2) by (simp add: payload_queue_get_def)
  have wf: "hm_wf (pq_chunk_map q)" using assms(1) by (simp add: pq_inv_def)
  have k: "hm_keys ?m = hm_keys (pq_chunk_map q)" using p by (intro keys_insert_old) simp
  then have l: "length ?m = length (pq_chunk_map q)" by (metis length_map)
  have b: "queued_bytes (pq_chunk_map q) = queued_bytes ?m + length (pd_user_data p)"
    using queued_bytes_update [OF wf p, of ?p] by simp
  have "pd_tsn p = t" using pq_inv_keys(3) [OF assms(1) p] by simp
  moreover define q' where "q' = q\<lparr>pq_n_bytes := pq_n_bytes q - of_nat (length (pd_user_data p)), pq_chunk_map := ?m\<rparr>"
  ultimately have "pq_inv c q'"
    using assms(1) l b unfolding pq_inv_def by (simp add: k list_all_tsn_insert del: mset_map)
  moreover have "payload_queue_mark_as_acked q t = (of_nat (length (pd_user_data p)), q')"
    by (simp add: payload_queue_mark_as_acked_def p q'_def Let_def)
  moreover have g: "payload_queue_get q' t = Some ?p" by (simp add: payload_queue_get_def q'_def update_conv')
  moreover have "payload_queue_mark_as_acked q' t = (0, q')"
    using g by (simp add: payload_queue_mark_as_acked_def payload_queue_get_def Let_def update_triv)
  ultimately show ?thesis by (auto simp: q'_def)
qed

text \<open>Acknowledging a TSN gives back the bytes of its chunk, keeps the queue consistent and
  leaves the chunk in it, acknowledged, with no data, and not to be retransmitted; acknowledging
  it again gives back nothing.\<close>

theorem mark_as_acked_spec:
  assumes "pq_inv c q" and "payload_queue_get q t = Some p"
  shows "\<exists>q'. payload_queue_mark_as_acked q t = (of_nat (length (pd_user_data p)), q') \<and>
    pq_inv c q' \<and> pq_n_bytes q' + of_nat (length (pd_user_data p)) = pq_n_bytes q \<and>
    payload_queue_get q' t = Some (p\<lparr>pd_acked := True, pd_retransmit := False, pd_user_data := []\<rparr>) \<and>
    payload_queue_mark_as_acked q' t = (0, q')"
  using assms by (rule mark_as_acked_facts)

theorem mark_as_acked_spec_witness:
  "\<exists>q'. payload_queue_mark_as_acked (queue_of 10 [12]) 12 = (of_nat 2, q') \<and>
    pq_inv (10 + 1) q' \<and> pq_n_bytes q' + of_nat 2 = pq_n_bytes (queue_of 10 [12]) \<and>
    payload_queue_get q' 12 =
      Some ((data_with_tsn 12 [1, 2])\<lparr>pd_acked := True, pd_retransmit := False, pd_user_data := []\<rparr>) \<and>
    payload_queue_mark_as_acked q' 12 = (0, q')"
proof -
  have "payload_queue_get (queue_of 10 [12]) 12 = Some (data_with_tsn 12 [1, 2])"
    by (simp add: payload_queue_eval payload_queue_get_def)
  from mark_as_acked_spec [OF queue_of_inv this] show ?thesis by simp
qed

text \<open>A received chunk is queued exactly when its TSN is in the window above the cumulative
  TSN and not queued yet; otherwise it is recorded as a duplicate and nothing else changes.  The
  queue stays consistent: its counters are the number and the bytes of the queued chunks.\<close>

theorem payload_queue_push_spec:
  assumes "pq_inv (cum + 1) q"
  shows "let (ok, q') = payload_queue_push q p cum in
    (ok \<longleftrightarrow> payload_queue_get q (pd_tsn p) = None \<and> in_window (cum + 1) (pd_tsn p)) \<and>
    pq_inv (cum + 1) q' \<and>
    payload_queue_get q' = (if ok then (payload_queue_get q)(pd_tsn p \<mapsto> p) else payload_queue_get q) \<and>
    pq_dup_tsn q' = (if ok then pq_dup_tsn q else pq_dup_tsn q @ [pd_tsn p])"
proof -
  have get: "payload_queue_get q = hm_get (pq_chunk_map q)" for q
    by (simp add: payload_queue_get_def fun_eq_iff)
  show ?thesis
    using pq.push_new [OF assms, of p] pq.push_old [OF assms, of p] pq.push_iff [OF assms, of p]
    by (cases "payload_queue_can_push q p cum")
      (auto simp: get can_push_iff push_eq payload_queue_push_no_check_def update_sorted_keys_def)
qed

theorem payload_queue_push_spec_witness:
  "let (ok, q') = payload_queue_push (queue_of 10 [12]) (data_with_tsn 11 [5]) 10 in
    (ok \<longleftrightarrow> payload_queue_get (queue_of 10 [12]) 11 = None \<and> in_window (10 + 1) (11 :: u32)) \<and>
    pq_inv (10 + 1) q' \<and>
    payload_queue_get q' = (if ok then (payload_queue_get (queue_of 10 [12]))(11 \<mapsto> data_with_tsn 11 [5])
      else payload_queue_get (queue_of 10 [12])) \<and>
    pq_dup_tsn q' = (if ok then pq_dup_tsn (queue_of 10 [12]) else pq_dup_tsn (queue_of 10 [12]) @ [11])"
  using payload_queue_push_spec [OF queue_of_inv, of 10 "[12]" "data_with_tsn 11 [5]"]
  unfolding data_with_tsn_fields .

end
