(* ===== verification/Pending_Queue.thy ===== *)
theory Pending_Queue
  imports Payload_Queue
begin

text \<open>
  src/src/queue/pending\_queue.rs: the chunks the application has written and that are not
  sent yet, ordered and unordered apart.  Once the first fragment of a message has been
  popped, the queue it came from stays selected until its last fragment is popped.  The
  mutexes and atomics are taken one after the other by one writer and one reader of the
  association's lock, so that an operation is a function of the state.
\<close>

record pending_queue =
  pg_unordered_queue :: "payload_data list"
  pg_ordered_queue :: "payload_data list"
  pg_queue_len :: usize
  pg_n_bytes :: usize
  pg_selected :: bool
  pg_unordered_is_selected :: bool

definition pending_queue_new :: pending_queue where
  "pending_queue_new =
     \<lparr>pg_unordered_queue = [], pg_ordered_queue = [], pg_queue_len = 0, pg_n_bytes = 0,
      pg_selected = False, pg_unordered_is_selected = False\<rparr>"

definition pending_queue_push :: "pending_queue \<Rightarrow> payload_data \<Rightarrow> pending_queue" where
  "pending_queue_push q c =
     (let q = q\<lparr>pg_n_bytes := pg_n_bytes q + of_nat (length (pd_user_data c))\<rparr>;
          q = (if pd_unordered c then q\<lparr>pg_unordered_queue := pg_unordered_queue q @ [c]\<rparr>
               else q\<lparr>pg_ordered_queue := pg_ordered_queue q @ [c]\<rparr>) in
      q\<lparr>pg_queue_len := pg_queue_len q + 1\<rparr>)"

fun front :: "'a list \<Rightarrow> 'a option" where
  "front [] = None"
| "front (x # xs) = Some x"

definition pending_queue_peek :: "pending_queue \<Rightarrow> payload_data option" where
  "pending_queue_peek q =
     (if pg_selected q then
        if pg_unordered_is_selected q then front (pg_unordered_queue q)
        else front (pg_ordered_queue q)
      else
        case front (pg_unordered_queue q) of
          Some c \<Rightarrow> Some c
        | None \<Rightarrow> front (pg_ordered_queue q))"

definition pop_front_unordered :: "pending_queue \<Rightarrow> payload_data option \<times> pending_queue" where
  "pop_front_unordered q =
     (front (pg_unordered_queue q), q\<lparr>pg_unordered_queue := tl (pg_unordered_queue q)\<rparr>)"

definition pop_front_ordered :: "pending_queue \<Rightarrow> payload_data option \<times> pending_queue" where
  "pop_front_ordered q =
     (front (pg_ordered_queue q), q\<lparr>pg_ordered_queue := tl (pg_ordered_queue q)\<rparr>)"

text \<open>The two atomic counters are lowered when a chunk was popped.\<close>

definition pending_queue_popped :: "payload_data option \<times> pending_queue \<Rightarrow> payload_data option \<times> pending_queue"
where
  "pending_queue_popped r =
     (case r of
        (Some p, q) \<Rightarrow> (Some p, q\<lparr>pg_n_bytes := pg_n_bytes q - of_nat (length (pd_user_data p)),
                                  pg_queue_len := pg_queue_len q - 1\<rparr>)
      | (None, q) \<Rightarrow> (None, q))"

definition pending_queue_pop ::
  "pending_queue \<Rightarrow> bool \<Rightarrow> bool \<Rightarrow> payload_data option \<times> pending_queue" where
  "pending_queue_pop q beginning_fragment unordered =
     (if pg_selected q then
        pending_queue_popped
          (let (popped, q) =
             (if pg_unordered_is_selected q then pop_front_unordered q else pop_front_ordered q) in
           case popped of
             Some p \<Rightarrow> (popped, if pd_ending_fragment p then q\<lparr>pg_selected := False\<rparr> else q)
           | None \<Rightarrow> (popped, q))
      else if \<not> beginning_fragment then (None, q)
      else if unordered then
        pending_queue_popped
          (let (popped, q) = pop_front_unordered q in
           case popped of
             Some p \<Rightarrow>
               (popped, if \<not> pd_ending_fragment p
                        then q\<lparr>pg_selected := True, pg_unordered_is_selected := True\<rparr> else q)
           | None \<Rightarrow> (popped, q))
      else
        pending_queue_popped
          (let (popped, q) = pop_front_ordered q in
           case popped of
             Some p \<Rightarrow>
               (popped, if \<not> pd_ending_fragment p
                        then q\<lparr>pg_selected := True, pg_unordered_is_selected := False\<rparr> else q)
           | None \<Rightarrow> (popped, q)))"

definition pending_queue_get_num_bytes :: "pending_queue \<Rightarrow> usize" where
  "pending_queue_get_num_bytes q = pg_n_bytes q"

definition pending_queue_len :: "pending_queue \<Rightarrow> usize" where
  "pending_queue_len q = pg_queue_len q"

definition pending_queue_is_empty :: "pending_queue \<Rightarrow> bool" where
  "pending_queue_is_empty q \<longleftrightarrow> pending_queue_len q = 0"

section \<open>The invariant\<close>

text \<open>
  A list of chunks made of whole messages, the first one perhaps begun already: \<open>parse\<close> is
  the state after reading the list, \<open>Some True\<close> inside a message.
\<close>

fun parse :: "bool \<Rightarrow> payload_data list \<Rightarrow> bool option" where
  "parse inside [] = Some inside"
| "parse inside (c # cs) =
     (if pd_beginning_fragment c = (\<not> inside) then parse (\<not> pd_ending_fragment c) cs else None)"

definition message_ok :: "payload_data list \<Rightarrow> bool" where
  "message_ok m \<longleftrightarrow> m \<noteq> [] \<and> parse False m = Some False \<and>
     (list_all pd_unordered m \<or> list_all (\<lambda>c. \<not> pd_unordered c) m)"

definition data_bytes :: "payload_data list \<Rightarrow> nat" where
  "data_bytes cs = sum_list (map (\<lambda>c. length (pd_user_data c)) cs)"

definition pending_inv :: "pending_queue \<Rightarrow> bool" where
  "pending_inv q \<longleftrightarrow>
     parse (pg_selected q \<and> pg_unordered_is_selected q) (pg_unordered_queue q) = Some False \<and>
     parse (pg_selected q \<and> \<not> pg_unordered_is_selected q) (pg_ordered_queue q) = Some False \<and>
     list_all pd_unordered (pg_unordered_queue q) \<and>
     list_all (\<lambda>c. \<not> pd_unordered c) (pg_ordered_queue q) \<and>
     pg_queue_len q = of_nat (length (pg_unordered_queue q) + length (pg_ordered_queue q)) \<and>
     pg_n_bytes q = of_nat (data_bytes (pg_unordered_queue q) + data_bytes (pg_ordered_queue q))"

lemma parse_append:
  "parse i (xs @ ys) = (case parse i xs of Some j \<Rightarrow> parse j ys | None \<Rightarrow> None)"
  by (induction xs arbitrary: i) auto

lemma data_bytes_simps [simp]:
  "data_bytes [] = 0" "data_bytes (c # cs) = length (pd_user_data c) + data_bytes cs"
  "data_bytes (xs @ ys) = data_bytes xs + data_bytes ys"
  by (simp_all add: data_bytes_def)

lemma pending_inv_new: "pending_inv pending_queue_new"
  by (simp add: pending_inv_def pending_queue_new_def)

definition pending_push_all :: "pending_queue \<Rightarrow> payload_data list \<Rightarrow> pending_queue" where
  "pending_push_all q cs = foldl pending_queue_push q cs"

lemma pending_push_all_fields:
  "pg_unordered_queue (pending_push_all q cs) = pg_unordered_queue q @ filter pd_unordered cs"
  "pg_ordered_queue (pending_push_all q cs) = pg_ordered_queue q @ filter (\<lambda>c. \<not> pd_unordered c) cs"
  "pg_queue_len (pending_push_all q cs) = pg_queue_len q + of_nat (length cs)"
  "pg_n_bytes (pending_push_all q cs) = pg_n_bytes q + of_nat (data_bytes cs)"
  "pg_selected (pending_push_all q cs) = pg_selected q"
  "pg_unordered_is_selected (pending_push_all q cs) = pg_unordered_is_selected q"
  unfolding pending_push_all_def
  by (induction cs arbitrary: q) (auto simp: pending_queue_push_def Let_def)

lemma message_uniform:
  assumes "message_ok m"
  obtains (unordered) "filter pd_unordered m = m" "filter (\<lambda>c. \<not> pd_unordered c) m = []"
      "list_all pd_unordered m"
  | (ordered) "filter pd_unordered m = []" "filter (\<lambda>c. \<not> pd_unordered c) m = m"
      "list_all (\<lambda>c. \<not> pd_unordered c) m"
  using assms by (auto simp: message_ok_def filter_id_conv filter_empty_conv list_all_iff)

lemma pending_inv_push_message:
  assumes "pending_inv q" and "message_ok m"
  shows "pending_inv (pending_push_all q m)"
proof -
  have "parse False m = Some False" using assms(2) by (simp add: message_ok_def)
  with assms(2) show ?thesis
    by (cases rule: message_uniform)
      (use assms(1) in \<open>simp_all add: pending_inv_def pending_push_all_fields parse_append algebra_simps\<close>)
qed

text \<open>The chunk that is peeked is the one that is popped, with the flags the caller passes.\<close>

lemma pending_pop_peeked:
  assumes "pending_inv q" and "pending_queue_peek q = Some c"
  obtains q' where "pending_queue_pop q (pd_beginning_fragment c) (pd_unordered c) = (Some c, q')"
    and "pending_inv q'"
    and "pg_n_bytes q' = pg_n_bytes q - of_nat (length (pd_user_data c))"
    and "pd_beginning_fragment c \<longleftrightarrow> \<not> pg_selected q"
    and "pg_selected q' \<longleftrightarrow> \<not> pd_ending_fragment c"
    and "if pd_unordered c then pg_unordered_queue q = c # pg_unordered_queue q' \<and>
        pg_ordered_queue q' = pg_ordered_queue q
      else pg_ordered_queue q = c # pg_ordered_queue q' \<and> pg_unordered_queue q' = pg_unordered_queue q"
proof -
  define q' where "q' = snd (pending_queue_pop q (pd_beginning_fragment c) (pd_unordered c))"
  have "fst (pending_queue_pop q (pd_beginning_fragment c) (pd_unordered c)) = Some c \<and>
    pending_inv q' \<and> pg_n_bytes q' = pg_n_bytes q - of_nat (length (pd_user_data c)) \<and>
    (pd_beginning_fragment c \<longleftrightarrow> \<not> pg_selected q) \<and> (pg_selected q' \<longleftrightarrow> \<not> pd_ending_fragment c) \<and>
    (if pd_unordered c then pg_unordered_queue q = c # pg_unordered_queue q' \<and>
        pg_ordered_queue q' = pg_ordered_queue q
      else pg_ordered_queue q = c # pg_ordered_queue q' \<and> pg_unordered_queue q' = pg_unordered_queue q)"
    using assms
    by (cases "pg_unordered_queue q"; cases "pg_ordered_queue q"; cases "pg_selected q";
        cases "pg_unordered_is_selected q"; cases "pd_ending_fragment c")
      (simp_all add: q'_def pending_inv_def pending_queue_peek_def pending_queue_pop_def
        pending_queue_popped_def pop_front_unordered_def pop_front_ordered_def Let_def split: if_splits)
  then show thesis
    by (intro that [of q']) (auto simp: q'_def prod_eq_iff)
qed

section \<open>What holds whatever is pushed\<close>

text \<open>
  Fragments of different messages may be pushed in any order when messages are written at the same
  time.  Then the queues need not consist of whole messages, but the counters are right, each
  queue holds the chunks of its own kind, and a chunk without data, the request to reset a stream,
  is a message of its own.
\<close>

definition empty_starts :: "payload_data \<Rightarrow> bool" where
  "empty_starts c \<longleftrightarrow> (pd_user_data c = [] \<longrightarrow> pd_beginning_fragment c)"

definition pending_base :: "pending_queue \<Rightarrow> bool" where
  "pending_base q \<longleftrightarrow>
     list_all (\<lambda>c. pd_unordered c \<and> empty_starts c) (pg_unordered_queue q) \<and>
     list_all (\<lambda>c. \<not> pd_unordered c \<and> empty_starts c) (pg_ordered_queue q) \<and>
     pg_queue_len q = of_nat (length (pg_unordered_queue q) + length (pg_ordered_queue q)) \<and>
     pg_n_bytes q = of_nat (data_bytes (pg_unordered_queue q) + data_bytes (pg_ordered_queue q))"

lemma pending_base_new: "pending_base pending_queue_new"
  by (simp add: pending_base_def pending_queue_new_def)

lemma pending_base_push: "pending_base q \<Longrightarrow> empty_starts c \<Longrightarrow> pending_base (pending_queue_push q c)"
  by (simp add: pending_base_def pending_queue_push_def Let_def)

lemma pending_base_push_all:
  "pending_base q \<Longrightarrow> list_all empty_starts cs \<Longrightarrow> pending_base (pending_push_all q cs)"
  unfolding pending_push_all_def by (induction cs arbitrary: q) (simp_all add: pending_base_push)

text \<open>The chunk that is peeked is popped, or, if it is in the middle of a message that is not selected, refused.\<close>

lemma pending_base_pop:
  assumes "pending_base q" and "pending_queue_peek q = Some c"
  obtains (popped) q' where "pending_queue_pop q (pd_beginning_fragment c) (pd_unordered c) = (Some c, q')"
      and "pending_base q'"
      and "if pd_unordered c then pg_unordered_queue q = c # pg_unordered_queue q' \<and>
          pg_ordered_queue q' = pg_ordered_queue q
        else pg_ordered_queue q = c # pg_ordered_queue q' \<and> pg_unordered_queue q' = pg_unordered_queue q"
  | (refused) "pending_queue_pop q (pd_beginning_fragment c) (pd_unordered c) = (None, q)"
      and "pd_user_data c \<noteq> []"
proof (cases "pg_selected q \<or> pd_beginning_fragment c")
  case True
  define q' where "q' = snd (pending_queue_pop q (pd_beginning_fragment c) (pd_unordered c))"
  have "fst (pending_queue_pop q (pd_beginning_fragment c) (pd_unordered c)) = Some c \<and> pending_base q' \<and>
    (if pd_unordered c then pg_unordered_queue q = c # pg_unordered_queue q' \<and>
        pg_ordered_queue q' = pg_ordered_queue q
      else pg_ordered_queue q = c # pg_ordered_queue q' \<and> pg_unordered_queue q' = pg_unordered_queue q)"
    using assms True
    by (cases "pg_unordered_queue q"; cases "pg_ordered_queue q"; cases "pg_selected q";
        cases "pg_unordered_is_selected q"; cases "pd_ending_fragment c")
      (simp_all add: q'_def pending_base_def pending_queue_peek_def pending_queue_pop_def
        pending_queue_popped_def pop_front_unordered_def pop_front_ordered_def Let_def split: if_splits)
  then show thesis by (intro popped [of q']) (auto simp: q'_def prod_eq_iff)
next
  case False
  have "empty_starts c"
    using assms False
    by (cases "pg_unordered_queue q"; cases "pg_ordered_queue q")
      (auto simp: pending_base_def pending_queue_peek_def split: if_splits)
  then show thesis using False by (intro refused) (auto simp: pending_queue_pop_def empty_starts_def)
qed

section \<open>The contract of the send queue\<close>

text \<open>
  What the sender relies on: a message pushed whole keeps the queue well formed, what is
  peeked can be popped, and popping accounts for its bytes.
\<close>

locale send_queue =
  fixes inv :: "'q \<Rightarrow> bool"
    and push :: "'q \<Rightarrow> payload_data list \<Rightarrow> 'q"
    and peek :: "'q \<Rightarrow> payload_data option"
    and pop :: "'q \<Rightarrow> bool \<Rightarrow> bool \<Rightarrow> payload_data option \<times> 'q"
    and n_bytes :: "'q \<Rightarrow> usize"
    and inside :: "'q \<Rightarrow> bool"
    and unordered :: "'q \<Rightarrow> payload_data list"
    and ordered :: "'q \<Rightarrow> payload_data list"
  assumes push_inv: "inv q \<Longrightarrow> message_ok m \<Longrightarrow> inv (push q m)"
    and push_inside: "inside (push q m) = inside q"
    and push_unordered: "unordered (push q m) = unordered q @ filter pd_unordered m"
    and push_ordered: "ordered (push q m) = ordered q @ filter (\<lambda>c. \<not> pd_unordered c) m"
    and pop_peeked: "inv q \<Longrightarrow> peek q = Some c \<Longrightarrow>
      \<exists>q'. pop q (pd_beginning_fragment c) (pd_unordered c) = (Some c, q') \<and> inv q' \<and>
        n_bytes q' = n_bytes q - of_nat (length (pd_user_data c)) \<and>
        (pd_beginning_fragment c \<longleftrightarrow> \<not> inside q) \<and> (inside q' \<longleftrightarrow> \<not> pd_ending_fragment c) \<and>
        unordered q = (if pd_unordered c then c # unordered q' else unordered q') \<and>
        ordered q = (if pd_unordered c then ordered q' else c # ordered q')"
    and peek_None: "inv q \<Longrightarrow> peek q = None \<longleftrightarrow> unordered q = [] \<and> ordered q = []"
begin

lemma pop_never_None:
  "inv q \<Longrightarrow> peek q = Some c \<Longrightarrow> fst (pop q (pd_beginning_fragment c) (pd_unordered c)) = Some c"
  using pop_peeked by fastforce

end

lemma pending_peek_None:
  assumes "pending_inv q"
  shows "pending_queue_peek q = None \<longleftrightarrow> pg_unordered_queue q = [] \<and> pg_ordered_queue q = []"
  using assms
  by (cases "pg_unordered_queue q"; cases "pg_ordered_queue q")
    (auto simp: pending_inv_def pending_queue_peek_def)

interpretation pending: send_queue
  pending_inv pending_push_all pending_queue_peek pending_queue_pop pg_n_bytes pg_selected
  pg_unordered_queue pg_ordered_queue
proof (unfold_locales, goal_cases)
  case (5 q c)
  then show ?case
    by (elim pending_pop_peeked [of q c]) (auto split: if_splits)
qed (simp_all add: pending_inv_push_message pending_push_all_fields pending_peek_None)

section \<open>Messages are not interleaved\<close>

text \<open>
  A history of the queue: the writer pushes whole messages, the sender takes the chunk it
  peeks.  The second component is what the sender has taken.
\<close>

datatype pending_op = PushMessage "payload_data list" | PopNext

fun pending_step :: "pending_op \<Rightarrow> pending_queue \<times> payload_data list \<Rightarrow> pending_queue \<times> payload_data list"
where
  "pending_step (PushMessage m) (q, out) = (pending_push_all q m, out)"
| "pending_step PopNext (q, out) =
     (case pending_queue_peek q of
        None \<Rightarrow> (q, out)
      | Some c \<Rightarrow>
          case pending_queue_pop q (pd_beginning_fragment c) (pd_unordered c) of
            (Some p, q') \<Rightarrow> (q', out @ [p])
          | (None, q') \<Rightarrow> (q', out))"

definition pending_run :: "pending_op list \<Rightarrow> pending_queue \<times> payload_data list" where
  "pending_run ops = fold pending_step ops (pending_queue_new, [])"

fun pushed :: "pending_op list \<Rightarrow> payload_data list" where
  "pushed [] = []"
| "pushed (PushMessage m # ops) = m @ pushed ops"
| "pushed (PopNext # ops) = pushed ops"

fun ops_ok :: "pending_op list \<Rightarrow> bool" where
  "ops_ok [] = True"
| "ops_ok (PushMessage m # ops) = (message_ok m \<and> ops_ok ops)"
| "ops_ok (PopNext # ops) = ops_ok ops"

lemma pending_run_general:
  assumes "ops_ok ops" and "pending_inv q" and "parse False out = Some (pg_selected q)"
    and "filter pd_unordered out @ pg_unordered_queue q = us"
    and "filter (\<lambda>c. \<not> pd_unordered c) out @ pg_ordered_queue q = os"
  shows "let (q', out') = fold pending_step ops (q, out) in
    pending_inv q' \<and> parse False out' = Some (pg_selected q') \<and>
    filter pd_unordered out' @ pg_unordered_queue q' = us @ filter pd_unordered (pushed ops) \<and>
    filter (\<lambda>c. \<not> pd_unordered c) out' @ pg_ordered_queue q' = os @ filter (\<lambda>c. \<not> pd_unordered c) (pushed ops)"
  using assms
proof (induction ops arbitrary: q out us os)
  case (Cons op ops)
  show ?case
  proof (cases op)
    case (PushMessage m)
    have "pending_inv (pending_push_all q m)"
      using Cons.prems by (intro pending.push_inv) (simp_all add: PushMessage)
    then show ?thesis
      using Cons.prems
        Cons.IH [of "pending_push_all q m" out "us @ filter pd_unordered m"
          "os @ filter (\<lambda>c. \<not> pd_unordered c) m"]
      by (auto simp: PushMessage pending_push_all_fields)
  next
    case PopNext
    show ?thesis
    proof (cases "pending_queue_peek q")
      case None
      then show ?thesis using Cons by (simp add: PopNext)
    next
      case (Some c)
      obtain q' where q': "pending_queue_pop q (pd_beginning_fragment c) (pd_unordered c) = (Some c, q')"
          "pending_inv q'" "pd_beginning_fragment c \<longleftrightarrow> \<not> pg_selected q"
          "pg_selected q' \<longleftrightarrow> \<not> pd_ending_fragment c"
          "pg_unordered_queue q = (if pd_unordered c then c # pg_unordered_queue q' else pg_unordered_queue q')"
          "pg_ordered_queue q = (if pd_unordered c then pg_ordered_queue q' else c # pg_ordered_queue q')"
        using pending.pop_peeked [OF Cons.prems(2) Some] by blast
      have "parse False (out @ [c]) = Some (pg_selected q')"
        using Cons.prems(3) q'(3,4) by (simp add: parse_append)
      then have "let (q', out') = fold pending_step ops (q', out @ [c]) in
          pending_inv q' \<and> parse False out' = Some (pg_selected q') \<and>
          filter pd_unordered out' @ pg_unordered_queue q' = us @ filter pd_unordered (pushed ops) \<and>
          filter (\<lambda>c. \<not> pd_unordered c) out' @ pg_ordered_queue q' =
            os @ filter (\<lambda>c. \<not> pd_unordered c) (pushed ops)"
        using Cons.prems q' by (intro Cons.IH) (auto simp: PopNext)
      then show ?thesis using Some q'(1) by (simp add: PopNext)
    qed
  qed
qed simp

text \<open>C24: whatever the order in which whole messages are pushed and chunks taken, the chunks come
  out message by message: a fragment is first of its message exactly when the previous message
  has ended; and each of the two queues is first in, first out.\<close>

theorem pending_no_interleaving:
  assumes "ops_ok ops"
  shows "let (q, out) = pending_run ops in
    pending_inv q \<and> parse False out = Some (pg_selected q) \<and>
    filter pd_unordered out @ pg_unordered_queue q = filter pd_unordered (pushed ops) \<and>
    filter (\<lambda>c. \<not> pd_unordered c) out @ pg_ordered_queue q = filter (\<lambda>c. \<not> pd_unordered c) (pushed ops)"
  using pending_run_general [of ops pending_queue_new "[]" "[]" "[]"] assms
  by (simp add: pending_run_def pending_inv_new) (simp add: pending_queue_new_def)

definition example_fragment :: "bool \<Rightarrow> bool \<Rightarrow> bool \<Rightarrow> u16 \<Rightarrow> u8 \<Rightarrow> payload_data" where
  "example_fragment b e u si x = (payload_data_default 0)\<lparr>pd_beginning_fragment := b,
     pd_ending_fragment := e, pd_unordered := u, pd_stream_identifier := si, pd_user_data := [x]\<rparr>"

definition example_message :: "bool \<Rightarrow> u16 \<Rightarrow> payload_data list" where
  "example_message u si = [example_fragment True False u si 1, example_fragment False True u si 2]"

lemma example_message_ok: "message_ok (example_message u si)"
  by (cases u) (simp_all add: message_ok_def example_message_def example_fragment_def payload_data_default_def)

theorem pending_no_interleaving_witness:
  "let ops = [PushMessage (example_message False 1), PopNext, PushMessage (example_message True 2),
      PopNext, PopNext]; (q, out) = pending_run ops in
    pending_inv q \<and> parse False out = Some (pg_selected q) \<and>
    filter pd_unordered out @ pg_unordered_queue q = filter pd_unordered (pushed ops) \<and>
    filter (\<lambda>c. \<not> pd_unordered c) out @ pg_ordered_queue q = filter (\<lambda>c. \<not> pd_unordered c) (pushed ops)"
  unfolding Let_def by (rule pending_no_interleaving [unfolded Let_def]) (simp add: example_message_ok)

text \<open>
  \<^verbatim>\<open>Stream::write_sctp\<close> does not push its message whole, though: it pushes one fragment at a
  time, and gives other tasks the chance to run in between.
\<close>

definition interleaved_writes :: pending_queue where
  "interleaved_writes = pending_push_all pending_queue_new
     [example_fragment True False False 1 1, example_fragment True False False 2 1,
      example_fragment False True False 1 2, example_fragment False True False 2 2]"

text \<open>Two streams writing a two-fragment message each at the same time: the sender takes the
  second message's first fragment in the middle of the first message, and then comes to a chunk
  it can peek but never pop, because it is no first fragment and no message is selected.\<close>

theorem concurrent_writes_interleave:
  "let (q, out) = fold pending_step [PopNext, PopNext, PopNext] (interleaved_writes, []) in
    map pd_stream_identifier out = [1, 2, 1] \<and> parse False out = None \<and>
    (case pending_queue_peek q of
       Some c \<Rightarrow> pending_queue_pop q (pd_beginning_fragment c) (pd_unordered c) = (None, q)
     | None \<Rightarrow> False)"
  by (simp add: interleaved_writes_def pending_push_all_def pending_queue_push_def pending_queue_new_def
      example_fragment_def payload_data_default_def pending_queue_peek_def pending_queue_pop_def
      pending_queue_popped_def pop_front_ordered_def pop_front_unordered_def)

end
