(* ===== verification/Reassembly_Queue.thy ===== *)
theory Reassembly_Queue
  imports Pending_Queue
begin

text \<open>
  src/src/queue/reassembly\_queue.rs: the received fragments of one stream, ordered messages
  by their SSN, unordered ones by their TSN.
\<close>

section \<open>Chunk sets\<close>

definition sort_chunks_by_tsn :: "payload_data list \<Rightarrow> payload_data list" where
  "sort_chunks_by_tsn c = sort_by (\<lambda>a b. sna32lt (pd_tsn a) (pd_tsn b)) c"

record chunk_set =
  cs_ssn :: u16
  cs_ppi :: payload_protocol_identifier
  cs_chunks :: "payload_data list"

definition sort_chunks_by_ssn :: "chunk_set list \<Rightarrow> chunk_set list" where
  "sort_chunks_by_ssn c = sort_by (\<lambda>a b. sna16lt (cs_ssn a) (cs_ssn b)) c"

definition chunk_set_new :: "u16 \<Rightarrow> payload_protocol_identifier \<Rightarrow> chunk_set" where
  "chunk_set_new ssn ppi = \<lparr>cs_ssn = ssn, cs_ppi = ppi, cs_chunks = []\<rparr>"

text \<open>The third check of \<^verbatim>\<open>is_complete\<close>: its loop after the first chunk.\<close>

fun contiguous_from :: "u32 \<Rightarrow> payload_data list \<Rightarrow> bool" where
  "contiguous_from last_tsn [] = True"
| "contiguous_from last_tsn (c # cs) =
     (if pd_tsn c \<noteq> last_tsn + 1 then False else contiguous_from (pd_tsn c) cs)"

definition chunk_set_is_complete :: "chunk_set \<Rightarrow> bool" where
  "chunk_set_is_complete s =
     (let n_chunks = length (cs_chunks s) in
      if n_chunks = 0 then False
      else if \<not> pd_beginning_fragment (cs_chunks s ! 0) then False
      else if \<not> pd_ending_fragment (cs_chunks s ! (n_chunks - 1)) then False
      else contiguous_from (pd_tsn (cs_chunks s ! 0)) (tl (cs_chunks s)))"

definition chunk_set_push :: "chunk_set \<Rightarrow> payload_data \<Rightarrow> bool \<times> chunk_set" where
  "chunk_set_push s chunk =
     (if list_ex (\<lambda>c. pd_tsn c = pd_tsn chunk) (cs_chunks s) then (False, s)
      else
        let s = s\<lparr>cs_chunks := sort_chunks_by_tsn (cs_chunks s @ [chunk])\<rparr> in
        (chunk_set_is_complete s, s))"

section \<open>The queue\<close>

record reassembly_queue =
  rq_si :: u16
  rq_next_ssn :: u16
  rq_ordered :: "chunk_set list"
  rq_unordered :: "chunk_set list"
  rq_unordered_chunks :: "payload_data list"
  rq_n_bytes :: usize

definition reassembly_queue_new :: "u16 \<Rightarrow> reassembly_queue" where
  "reassembly_queue_new si =
     \<lparr>rq_si = si, rq_next_ssn = 0, rq_ordered = [], rq_unordered = [], rq_unordered_chunks = [],
      rq_n_bytes = 0\<rparr>"

text \<open>
  The scan for a complete unordered message: the loop state is the index, the start of the
  candidate (\<open>None\<close> for -1), its number of chunks and its last TSN; the result is the start
  and the number of chunks of the first complete message.
\<close>

fun scan_unordered :: "nat \<Rightarrow> nat option \<Rightarrow> nat \<Rightarrow> u32 \<Rightarrow> payload_data list \<Rightarrow> (nat \<times> nat) option" where
  "scan_unordered i start_idx n_chunks last_tsn [] = None"
| "scan_unordered i start_idx n_chunks last_tsn (c # cs) =
     (if pd_beginning_fragment c then
        if pd_ending_fragment c then Some (i, 1)
        else scan_unordered (i + 1) (Some i) 1 (pd_tsn c) cs
      else
        case start_idx of
          None \<Rightarrow> scan_unordered (i + 1) start_idx n_chunks last_tsn cs
        | Some s \<Rightarrow>
            if pd_tsn c \<noteq> last_tsn + 1 then scan_unordered (i + 1) None n_chunks last_tsn cs
            else if pd_ending_fragment c then Some (s, n_chunks + 1)
            else scan_unordered (i + 1) (Some s) (n_chunks + 1) (pd_tsn c) cs)"

definition find_complete_unordered_chunk_set ::
  "reassembly_queue \<Rightarrow> chunk_set option \<times> reassembly_queue" where
  "find_complete_unordered_chunk_set q =
     (case scan_unordered 0 None 0 0 (rq_unordered_chunks q) of
        None \<Rightarrow> (None, q)
      | Some (start_idx, n_chunks) \<Rightarrow>
          let chunks = take n_chunks (drop start_idx (rq_unordered_chunks q)) in
          (Some ((chunk_set_new 0 (pd_payload_type (chunks ! 0)))\<lparr>cs_chunks := chunks\<rparr>),
           q\<lparr>rq_unordered_chunks := take start_idx (rq_unordered_chunks q)
               @ drop (start_idx + n_chunks) (rq_unordered_chunks q)\<rparr>))"

text \<open>The search for the SSN's chunk set, and the push into it.\<close>

fun push_into_existing :: "payload_data \<Rightarrow> chunk_set list \<Rightarrow> (bool \<times> chunk_set list) option" where
  "push_into_existing chunk [] = None"
| "push_into_existing chunk (s # ss) =
     (if cs_ssn s = pd_stream_sequence_number chunk
      then (case chunk_set_push s chunk of (ok, s) \<Rightarrow> Some (ok, s # ss))
      else
        case push_into_existing chunk ss of
          None \<Rightarrow> None
        | Some (ok, ss) \<Rightarrow> Some (ok, s # ss))"

definition reassembly_queue_push :: "reassembly_queue \<Rightarrow> payload_data \<Rightarrow> bool \<times> reassembly_queue" where
  "reassembly_queue_push q chunk =
     (if pd_stream_identifier chunk \<noteq> rq_si q then (False, q)
      else if pd_unordered chunk then
        let q = q\<lparr>rq_n_bytes := rq_n_bytes q + of_nat (length (pd_user_data chunk)),
                  rq_unordered_chunks := sort_chunks_by_tsn (rq_unordered_chunks q @ [chunk])\<rparr> in
        case find_complete_unordered_chunk_set q of
          (Some cset, q) \<Rightarrow> (True, q\<lparr>rq_unordered := rq_unordered q @ [cset]\<rparr>)
        | (None, q) \<Rightarrow> (False, q)
      else if sna16lt (pd_stream_sequence_number chunk) (rq_next_ssn q) then (False, q)
      else
        let q = q\<lparr>rq_n_bytes := rq_n_bytes q + of_nat (length (pd_user_data chunk))\<rparr> in
        case push_into_existing chunk (rq_ordered q) of
          Some (ok, ss) \<Rightarrow> (ok, q\<lparr>rq_ordered := ss\<rparr>)
        | None \<Rightarrow>
            let cset = chunk_set_new (pd_stream_sequence_number chunk) (pd_payload_type chunk);
                unordered = pd_unordered chunk;
                (ok, cset) = chunk_set_push cset chunk;
                ordered = rq_ordered q @ [cset] in
            (ok, q\<lparr>rq_ordered := (if \<not> unordered then sort_chunks_by_ssn ordered else ordered)\<rparr>))"

definition reassembly_queue_is_readable :: "reassembly_queue \<Rightarrow> bool" where
  "reassembly_queue_is_readable q =
     (if rq_unordered q \<noteq> [] then True
      else if rq_ordered q \<noteq> [] then
        let cset = rq_ordered q ! 0 in
        chunk_set_is_complete cset \<and> sna16lte (cs_ssn cset) (rq_next_ssn q)
      else False)"

definition subtract_num_bytes :: "usize \<Rightarrow> reassembly_queue \<Rightarrow> reassembly_queue" where
  "subtract_num_bytes n_bytes q =
     (if rq_n_bytes q \<ge> n_bytes then q\<lparr>rq_n_bytes := rq_n_bytes q - n_bytes\<rparr>
      else q\<lparr>rq_n_bytes := 0\<rparr>)"

text \<open>
  The copy of the fragments into the reader's buffer of \<open>buf_len\<close> bytes: what has been
  written so far, and whether the buffer was too short.
\<close>

fun copy_fragments ::
  "nat \<Rightarrow> payload_data list \<Rightarrow> bytes \<Rightarrow> bool \<Rightarrow> reassembly_queue \<Rightarrow> bytes \<times> bool \<times> reassembly_queue" where
  "copy_fragments buf_len [] written short q = (written, short, q)"
| "copy_fragments buf_len (c # cs) written short q =
     (let to_copy = length (pd_user_data c);
          q = subtract_num_bytes (of_nat to_copy) q in
      if \<not> short then
        let n = min to_copy (buf_len - length written) in
        copy_fragments buf_len cs (written @ take n (pd_user_data c)) (n < to_copy) q
      else copy_fragments buf_len cs written short q)"

definition reassembly_queue_read ::
  "reassembly_queue \<Rightarrow> nat \<Rightarrow> (bytes \<times> payload_protocol_identifier) outcome \<times> reassembly_queue" where
  "reassembly_queue_read q buf_len =
     (let deliver = (\<lambda>cset q.
        case copy_fragments buf_len (cs_chunks cset) [] False q of
          (written, short, q) \<Rightarrow>
            (if short then Err ErrShortBuffer else Ok (written, cs_ppi cset), q)) in
      if rq_unordered q \<noteq> [] then
        deliver (rq_unordered q ! 0) (q\<lparr>rq_unordered := tl (rq_unordered q)\<rparr>)
      else if rq_ordered q \<noteq> [] then
        let cset = rq_ordered q ! 0 in
        if \<not> chunk_set_is_complete cset then (Err ErrTryAgain, q)
        else if sna16gt (cs_ssn cset) (rq_next_ssn q) then (Err ErrTryAgain, q)
        else
          let q = (if cs_ssn cset = rq_next_ssn q then q\<lparr>rq_next_ssn := rq_next_ssn q + 1\<rparr> else q) in
          deliver cset (q\<lparr>rq_ordered := tl (rq_ordered q)\<rparr>)
      else (Err ErrTryAgain, q))"

definition reassembly_queue_forward_tsn_for_ordered :: "reassembly_queue \<Rightarrow> u16 \<Rightarrow> reassembly_queue" where
  "reassembly_queue_forward_tsn_for_ordered q last_ssn =
     (let num_bytes = foldl (\<lambda>n s. n + foldl (\<lambda>acc c. acc + of_nat (length (pd_user_data c))) 0 (cs_chunks s))
            0 (filter (\<lambda>s. sna16lte (cs_ssn s) last_ssn \<and> \<not> chunk_set_is_complete s) (rq_ordered q));
          q = subtract_num_bytes num_bytes q;
          q = q\<lparr>rq_ordered := filter (\<lambda>s. \<not> sna16lte (cs_ssn s) last_ssn \<or> chunk_set_is_complete s)
                 (rq_ordered q)\<rparr> in
      if sna16lte (rq_next_ssn q) last_ssn then q\<lparr>rq_next_ssn := last_ssn + 1\<rparr> else q)"

text \<open>The loop that finds the last index to drop is a \<open>takeWhile\<close>.\<close>

definition reassembly_queue_forward_tsn_for_unordered :: "reassembly_queue \<Rightarrow> u32 \<Rightarrow> reassembly_queue" where
  "reassembly_queue_forward_tsn_for_unordered q new_cumulative_tsn =
     (let dropped = takeWhile (\<lambda>c. \<not> sna32gt (pd_tsn c) new_cumulative_tsn) (rq_unordered_chunks q);
          q = foldl (\<lambda>q c. subtract_num_bytes (of_nat (length (pd_user_data c))) q) q dropped in
      q\<lparr>rq_unordered_chunks := drop (length dropped) (rq_unordered_chunks q)\<rparr>)"

definition reassembly_queue_get_num_bytes :: "reassembly_queue \<Rightarrow> usize" where
  "reassembly_queue_get_num_bytes q = rq_n_bytes q"

section \<open>Fragments in any order\<close>

text \<open>
  The fragments of one message: consecutive TSNs from \<open>t\<close>, the B bit on the first one only
  and the E bit on the last one only.
\<close>

definition fragments_of :: "u32 \<Rightarrow> payload_data list \<Rightarrow> bool" where
  "fragments_of t m \<longleftrightarrow> m \<noteq> [] \<and> length m \<le> 2 ^ 31 \<and>
     list_all (\<lambda>i. pd_tsn (m ! i) = t + of_nat i \<and> (pd_beginning_fragment (m ! i) \<longleftrightarrow> i = 0) \<and>
       (pd_ending_fragment (m ! i) \<longleftrightarrow> i = length m - 1)) [0..<length m]"

lemma fragments_of_nth:
  assumes "fragments_of t m" and "i < length m"
  shows "pd_tsn (m ! i) = t + of_nat i" and "pd_beginning_fragment (m ! i) \<longleftrightarrow> i = 0"
    and "pd_ending_fragment (m ! i) \<longleftrightarrow> i = length m - 1" and "unat (pd_tsn (m ! i) - t) = i"
proof -
  have l: "length m \<le> 2 ^ 31" and n: "pd_tsn (m ! i) = t + of_nat i \<and>
      (pd_beginning_fragment (m ! i) \<longleftrightarrow> i = 0) \<and> (pd_ending_fragment (m ! i) \<longleftrightarrow> i = length m - 1)"
    using assms unfolding fragments_of_def list_all_iff by auto
  then show "pd_tsn (m ! i) = t + of_nat i" "pd_beginning_fragment (m ! i) \<longleftrightarrow> i = 0"
      "pd_ending_fragment (m ! i) \<longleftrightarrow> i = length m - 1" by blast+
  then show "unat (pd_tsn (m ! i) - t) = i"
    using assms(2) l by (simp add: unat_of_nat_less)
qed

lemma fragments_of_in_window: "fragments_of t m \<Longrightarrow> c \<in> set m \<Longrightarrow> in_window t (pd_tsn c)"
  using fragments_of_nth(4) by (fastforce simp: in_set_conv_nth s32.window_unat fragments_of_def)

lemma fragments_of_sorted:
  assumes "fragments_of t m"
  shows "sorted (map (\<lambda>c. pd_tsn c - t) m)" and "distinct (map pd_tsn m)"
proof -
  have k: "unat (pd_tsn (m ! i) - t) = i" if "i < length m" for i
    using fragments_of_nth(4) [OF assms that] .
  show "sorted (map (\<lambda>c. pd_tsn c - t) m)"
    by (auto simp: sorted_iff_nth_mono word_le_nat_alt k)
  show "distinct (map pd_tsn m)"
    unfolding distinct_conv_nth by (auto) (metis k)
qed

text \<open>A chunk set is sorted by the distance from any TSN whose window holds its chunks.\<close>

definition tsn_sorted :: "u32 \<Rightarrow> payload_data list \<Rightarrow> bool" where
  "tsn_sorted c xs \<longleftrightarrow> sorted (map (\<lambda>p. pd_tsn p - c) xs) \<and> distinct (map pd_tsn xs) \<and>
     (\<forall>p \<in> set xs. in_window c (pd_tsn p))"

lemma sort_chunks_tsn_sorted:
  assumes "distinct (map pd_tsn xs)" and "\<forall>p \<in> set xs. in_window c (pd_tsn p)"
  shows "tsn_sorted c (sort_chunks_by_tsn xs)"
proof -
  have "sorted (map (\<lambda>p. pd_tsn p - c) (sort_chunks_by_tsn xs))"
    unfolding sort_chunks_by_tsn_def
    by (rule sorted_sort_by) (use assms in \<open>simp add: s32.window_lt [of c]\<close>)
  moreover have "distinct (map pd_tsn (sort_chunks_by_tsn xs))"
    using assms(1) by (metis mset_map mset_sort_by mset_eq_imp_distinct_iff sort_chunks_by_tsn_def)
  ultimately show ?thesis using assms(2) by (simp add: tsn_sorted_def sort_chunks_by_tsn_def)
qed

lemma tsn_sorted_unique:
  assumes "tsn_sorted c xs" and "tsn_sorted c ys" and "mset xs = mset ys"
  shows "xs = ys"
proof -
  let ?k = "\<lambda>p. pd_tsn p - c"
  have "sorted (map ?k xs)" "sorted (map ?k ys)"
    using assms by (simp_all add: tsn_sorted_def)
  moreover have "mset (map ?k xs) = mset (map ?k ys)" using assms(3) by simp
  ultimately have m: "map ?k xs = map ?k ys"
    using properties_for_sort [of "map ?k xs" "map ?k ys"] properties_for_sort [of "map ?k ys" "map ?k ys"]
    by (metis (no_types))
  have "inj_on pd_tsn (set xs)" using assms(1) by (simp add: tsn_sorted_def distinct_map)
  then have "inj_on ?k (set xs \<union> set ys)"
    using assms(3) by (auto simp: inj_on_def dest: mset_eq_setD)
  with m show ?thesis by (simp add: inj_on_map_eq_map)
qed

lemma contiguous_from_nth:
  "contiguous_from t cs \<Longrightarrow> i < length cs \<Longrightarrow> pd_tsn (cs ! i) = t + of_nat (Suc i)"
proof (induction cs arbitrary: t i)
  case (Cons c cs)
  then show ?case by (cases i) (auto simp: algebra_simps split: if_splits)
qed simp

lemma contiguous_from_intro:
  "(\<And>i. i < length cs \<Longrightarrow> pd_tsn (cs ! i) = t + of_nat (Suc i)) \<Longrightarrow> contiguous_from t cs"
proof (induction cs arbitrary: t)
  case (Cons c cs)
  have "pd_tsn c = t + 1" using Cons.prems [of 0] by simp
  moreover have "contiguous_from (pd_tsn c) cs"
  proof (rule Cons.IH)
    fix i assume "i < length cs"
    then show "pd_tsn (cs ! i) = pd_tsn c + of_nat (Suc i)"
      using Cons.prems [of "Suc i"] \<open>pd_tsn c = t + 1\<close> by (simp add: algebra_simps)
  qed
  ultimately show ?case by simp
qed simp

lemma complete_fragments: "fragments_of t m \<Longrightarrow> cs_chunks s = m \<Longrightarrow> chunk_set_is_complete s"
proof -
  assume f: "fragments_of t m" and s: "cs_chunks s = m"
  then have ne: "m \<noteq> []" by (simp add: fragments_of_def)
  have "contiguous_from (pd_tsn (m ! 0)) (tl m)"
  proof (rule contiguous_from_intro)
    fix i assume "i < length (tl m)"
    then show "pd_tsn (tl m ! i) = pd_tsn (m ! 0) + of_nat (Suc i)"
      using fragments_of_nth(1) [OF f, of "Suc i"] fragments_of_nth(1) [OF f, of 0] ne
      by (simp add: nth_tl)
  qed
  then show ?thesis
    using fragments_of_nth(2) [OF f, of 0] fragments_of_nth(3) [OF f, of "length m - 1"] ne
    by (simp add: chunk_set_is_complete_def s)
qed

text \<open>A sorted part of a message that looks complete is the whole message.\<close>

lemma complete_is_whole:
  assumes f: "fragments_of t m" and xs: "tsn_sorted t xs" "set xs \<subseteq> set m"
    and c: "chunk_set_is_complete s" "cs_chunks s = xs"
  shows "xs = m"
proof -
  have ne: "xs \<noteq> []" and b: "pd_beginning_fragment (xs ! 0)"
    and e: "pd_ending_fragment (xs ! (length xs - 1))"
    and k: "contiguous_from (pd_tsn (xs ! 0)) (tl xs)"
    using c by (auto simp: chunk_set_is_complete_def split: if_splits)
  have "\<forall>j. \<exists>i. j < length xs \<longrightarrow> i < length m \<and> xs ! j = m ! i"
    using xs(2) by (metis in_set_conv_nth subset_iff)
  from choice [OF this] obtain f where "\<forall>j. j < length xs \<longrightarrow> f j < length m \<and> xs ! j = m ! f j" ..
  then have f': "f j < length m" "xs ! j = m ! f j" if "j < length xs" for j using that by auto
  have "f 0 = 0" using f' [of 0] b ne fragments_of_nth(2) [OF f] by auto
  then have t0: "pd_tsn (xs ! 0) = t"
    using f' [of 0] ne fragments_of_nth(1) [OF f, of 0] by simp
  have tsn: "pd_tsn (xs ! j) = t + of_nat j" if "j < length xs" for j
  proof (cases j)
    case (Suc i)
    then show ?thesis
      using contiguous_from_nth [OF k, of i] that by (simp add: nth_tl t0)
  qed (use t0 in simp)
  have len: "length xs \<le> length m"
  proof -
    have "distinct xs" using xs(1) by (simp add: tsn_sorted_def distinct_map)
    then show ?thesis using xs(2) by (metis card_length card_mono distinct_card finite_set le_trans)
  qed
  have fj: "f j = j" if "j < length xs" for j
  proof -
    have "unat (pd_tsn (xs ! j) - t) = f j"
      using f' [OF that] fragments_of_nth(4) [OF f] by simp
    moreover have "j < 2 ^ 32" using that len f by (simp add: fragments_of_def)
    ultimately show ?thesis using tsn [OF that] by (simp add: unat_of_nat_less)
  qed
  have "f (length xs - 1) = length m - 1"
    using f' [of "length xs - 1"] e ne fragments_of_nth(3) [OF f] by simp
  then have l: "length xs = length m" using fj [of "length xs - 1"] ne f by (cases m) (auto simp: fragments_of_def)
  show ?thesis
  proof (rule nth_equalityI [OF l])
    fix j assume "j < length xs"
    then show "xs ! j = m ! j" using f'(2) fj by simp
  qed
qed

lemma fragments_tsn_sorted:
  assumes f: "fragments_of t m" and w: "\<forall>p \<in> set m. in_window c (pd_tsn p)"
  shows "tsn_sorted c m"
proof -
  have "pd_tsn (m ! i) - c \<le> pd_tsn (m ! j) - c" if "i \<le> j" "j < length m" for i j
  proof (cases "i = j")
    case False
    have "unat (pd_tsn (m ! i) - t) < unat (pd_tsn (m ! j) - t)"
      using that False fragments_of_nth(4) [OF f] by simp
    then have "sna32lt (pd_tsn (m ! i)) (pd_tsn (m ! j))"
      using fragments_of_in_window [OF f] that s32.window_lt [of t]
      by (simp add: word_less_nat_alt)
    then show ?thesis
      using w that s32.window_lt [of c "pd_tsn (m ! i)" "pd_tsn (m ! j)"] by simp
  qed simp
  then show ?thesis
    using w fragments_of_sorted(2) [OF f] by (simp add: tsn_sorted_def sorted_iff_nth_mono)
qed

lemma push_chunk_set:
  assumes "tsn_sorted c (cs_chunks s)" and "pd_tsn p \<notin> pd_tsn ` set (cs_chunks s)"
    and "in_window c (pd_tsn p)"
  obtains s' where "chunk_set_push s p = (chunk_set_is_complete s', s')"
    and "s' = s\<lparr>cs_chunks := sort_chunks_by_tsn (cs_chunks s @ [p])\<rparr>"
    and "tsn_sorted c (cs_chunks s')" and "mset (cs_chunks s') = add_mset p (mset (cs_chunks s))"
proof -
  let ?s = "s\<lparr>cs_chunks := sort_chunks_by_tsn (cs_chunks s @ [p])\<rparr>"
  have "\<not> list_ex (\<lambda>c. pd_tsn c = pd_tsn p) (cs_chunks s)"
  proof
    assume "list_ex (\<lambda>c. pd_tsn c = pd_tsn p) (cs_chunks s)"
    then obtain x where "x \<in> set (cs_chunks s)" and e: "pd_tsn x = pd_tsn p" by (auto simp: list_ex_iff)
    then have "pd_tsn x \<in> pd_tsn ` set (cs_chunks s)" by (rule_tac imageI)
    with assms(2) e show False by (simp only:)
  qed
  then have "chunk_set_push s p = (chunk_set_is_complete ?s, ?s)"
    by (simp add: chunk_set_push_def Let_def)
  moreover have "tsn_sorted c (cs_chunks ?s)"
    using sort_chunks_tsn_sorted [of "cs_chunks s @ [p]" c] assms by (auto simp: tsn_sorted_def)
  ultimately show thesis by (intro that [of ?s]) (simp_all add: sort_chunks_by_tsn_def)
qed

fun chunk_set_push_all :: "chunk_set \<Rightarrow> payload_data list \<Rightarrow> bool list \<times> chunk_set" where
  "chunk_set_push_all s [] = ([], s)"
| "chunk_set_push_all s (p # ps) =
     (case chunk_set_push s p of (ok, s) \<Rightarrow>
        case chunk_set_push_all s ps of (oks, s) \<Rightarrow> (ok # oks, s))"

lemma chunk_set_push_all_general:
  assumes f: "fragments_of t m"
  shows "tsn_sorted t (cs_chunks s) \<Longrightarrow> mset (cs_chunks s) + mset ps = mset m \<Longrightarrow> ps \<noteq> [] \<Longrightarrow>
    chunk_set_push_all s ps = (replicate (length ps - 1) False @ [True], s\<lparr>cs_chunks := m\<rparr>)"
proof (induction ps arbitrary: s)
  case (Cons p ps)
  have d: "distinct (map pd_tsn (cs_chunks s @ p # ps))"
    using fragments_of_sorted(2) [OF f] Cons.prems(2)
    by (metis mset_append mset_map mset_eq_imp_distinct_iff)
  have p: "p \<in> set m" and sub: "set (cs_chunks s) \<subseteq> set m"
    using Cons.prems(2) by (metis UnCI list.set_intros(1) set_append set_mset_mset mset_append,
      metis Un_upper1 set_append set_mset_mset mset_append)
  obtain s' where s': "chunk_set_push s p = (chunk_set_is_complete s', s')"
      "s' = s\<lparr>cs_chunks := sort_chunks_by_tsn (cs_chunks s @ [p])\<rparr>"
      "tsn_sorted t (cs_chunks s')" "mset (cs_chunks s') = add_mset p (mset (cs_chunks s))"
    by (rule push_chunk_set [OF Cons.prems(1), of p])
      (use d fragments_of_in_window [OF f p] in auto)
  have m: "mset (cs_chunks s') + mset ps = mset m" using s'(4) Cons.prems(2) by simp
  show ?case
  proof (cases "ps = []")
    case True
    then have "cs_chunks s' = m"
      using m tsn_sorted_unique [OF s'(3)] fragments_tsn_sorted [OF f] fragments_of_in_window [OF f] by simp
    then show ?thesis
      using True s'(1,2) complete_fragments [OF f, of s'] by simp
  next
    case False
    have "\<not> chunk_set_is_complete s'"
    proof
      assume "chunk_set_is_complete s'"
      moreover have "set (cs_chunks s') \<subseteq> set m"
        using m by (metis Un_upper1 set_append set_mset_mset mset_append)
      ultimately have "cs_chunks s' = m" using complete_is_whole [OF f s'(3)] by simp
      then show False using m False by simp
    qed
    moreover have "chunk_set_push_all s' ps =
        (replicate (length ps - 1) False @ [True], s'\<lparr>cs_chunks := m\<rparr>)"
      using s'(3) m False by (rule Cons.IH)
    ultimately show ?thesis
      using s'(1,2) False by (cases ps) simp_all
  qed
qed simp

text \<open>The fragments of one message may arrive in any order: the set is reported complete with
  the last missing one, never before, and then holds the fragments in their order.\<close>

theorem fragments_any_order:
  assumes "fragments_of t m" and "mset ps = mset m"
  shows "chunk_set_push_all (chunk_set_new ssn ppi) ps =
    (replicate (length m - 1) False @ [True], \<lparr>cs_ssn = ssn, cs_ppi = ppi, cs_chunks = m\<rparr>)"
proof -
  have "length ps = length m" using assms(2) by (metis size_mset)
  moreover have "ps \<noteq> []" using assms by (auto simp: fragments_of_def)
  ultimately show ?thesis
    using chunk_set_push_all_general [OF assms(1), of "chunk_set_new ssn ppi" ps] assms(2)
    by (simp add: chunk_set_new_def tsn_sorted_def)
qed

definition example_fragments :: "payload_data list" where
  "example_fragments = map (\<lambda>i. (example_fragment (i = 0) (i = 2) False 1 (of_nat i))\<lparr>pd_tsn := 4294967295 + of_nat i\<rparr>) [0, 1, 2]"

lemma example_fragments_ok: "fragments_of 4294967295 example_fragments"
  by (simp add: fragments_of_def example_fragments_def example_fragment_def payload_data_default_def
      upt_rec)

text \<open>The witness: three fragments whose TSNs wrap around, the last one first.\<close>

theorem fragments_any_order_witness:
  "chunk_set_push_all (chunk_set_new 5 PPI_Binary) (rev example_fragments) =
    ([False, False, True], \<lparr>cs_ssn = 5, cs_ppi = PPI_Binary, cs_chunks = example_fragments\<rparr>)"
  using fragments_any_order [OF example_fragments_ok, of "rev example_fragments" 5 PPI_Binary]
  by (simp add: example_fragments_def)

section \<open>Ordered delivery\<close>

definition all_chunks :: "chunk_set list \<Rightarrow> payload_data list" where
  "all_chunks os = concat (map cs_chunks os)"

text \<open>
  The ordered chunk sets of a queue whose next SSN is \<open>next\<close>: one per SSN, in the window and
  in the order of the SSNs, each holding chunks of that SSN in TSN order.
\<close>

definition set_inv :: "u32 \<Rightarrow> (u16 \<Rightarrow> payload_protocol_identifier) \<Rightarrow> chunk_set \<Rightarrow> bool" where
  "set_inv c ppi_of s \<longleftrightarrow> tsn_sorted c (cs_chunks s) \<and> cs_ppi s = ppi_of (cs_ssn s) \<and>
     (\<forall>p \<in> set (cs_chunks s). pd_stream_sequence_number p = cs_ssn s)"

definition ordered_inv ::
  "u16 \<Rightarrow> u32 \<Rightarrow> (u16 \<Rightarrow> payload_protocol_identifier) \<Rightarrow> chunk_set list \<Rightarrow> bool" where
  "ordered_inv next c ppi_of os \<longleftrightarrow> sorted (map (\<lambda>s. cs_ssn s - next) os) \<and>
     distinct (map cs_ssn os) \<and>
     (\<forall>s \<in> set os. in_window next (cs_ssn s) \<and> cs_chunks s \<noteq> [] \<and> set_inv c ppi_of s)"

definition chunk_fits :: "u16 \<Rightarrow> u32 \<Rightarrow> (u16 \<Rightarrow> payload_protocol_identifier) \<Rightarrow> payload_data \<Rightarrow> bool" where
  "chunk_fits next c ppi_of p \<longleftrightarrow> \<not> pd_unordered p \<and> in_window next (pd_stream_sequence_number p) \<and>
     in_window c (pd_tsn p) \<and> pd_payload_type p = ppi_of (pd_stream_sequence_number p)"

lemma push_into_existing_None:
  "push_into_existing p os = None \<longleftrightarrow> pd_stream_sequence_number p \<notin> cs_ssn ` set os"
  by (induction os) (auto split: prod.splits option.splits)

lemma push_into_existing_Some:
  assumes "push_into_existing p os = Some (ok, os')" and "pd_tsn p \<notin> pd_tsn ` set (all_chunks os)"
    and "\<forall>s \<in> set os. set_inv c ppi_of s" and "in_window c (pd_tsn p)"
  shows "map cs_ssn os' = map cs_ssn os \<and> mset (all_chunks os') = add_mset p (mset (all_chunks os)) \<and>
    (\<forall>s \<in> set os'. set_inv c ppi_of s) \<and> ((\<forall>s \<in> set os. cs_chunks s \<noteq> []) \<longrightarrow> (\<forall>s \<in> set os'. cs_chunks s \<noteq> []))"
  using assms
proof (induction os arbitrary: ok os')
  case (Cons s os)
  show ?case
  proof (cases "cs_ssn s = pd_stream_sequence_number p")
    case True
    have s: "tsn_sorted c (cs_chunks s)" "cs_ppi s = ppi_of (cs_ssn s)"
        "\<forall>q \<in> set (cs_chunks s). pd_stream_sequence_number q = cs_ssn s"
      using Cons.prems(3) by (simp_all add: set_inv_def)
    have n: "pd_tsn p \<notin> pd_tsn ` set (cs_chunks s)"
      using Cons.prems(2) by (auto simp: all_chunks_def)
    obtain s' where s': "chunk_set_push s p = (chunk_set_is_complete s', s')"
        "s' = s\<lparr>cs_chunks := sort_chunks_by_tsn (cs_chunks s @ [p])\<rparr>"
        "tsn_sorted c (cs_chunks s')" "mset (cs_chunks s') = add_mset p (mset (cs_chunks s))"
      by (rule push_chunk_set [OF s(1) n Cons.prems(4)])
    have set: "set (cs_chunks s') = insert p (set (cs_chunks s))"
      using s'(4) by (metis set_mset_add_mset_insert set_mset_mset)
    have "os' = s' # os" using Cons.prems(1) True s'(1) by simp
    moreover have "set_inv c ppi_of s'" using s s'(3) set True by (simp add: set_inv_def s'(2))
    moreover have "cs_chunks s' \<noteq> []" using set by auto
    ultimately show ?thesis
      using Cons.prems(3) s'(4) by (simp add: all_chunks_def) (simp add: s'(2))
  next
    case False
    then obtain os'' where r: "push_into_existing p os = Some (ok, os'')" "os' = s # os''"
      using Cons.prems(1) by (auto split: option.splits prod.splits)
    have "pd_tsn p \<notin> pd_tsn ` set (all_chunks os)"
      using Cons.prems(2) by (auto simp: all_chunks_def)
    from Cons.IH [OF r(1) this] show ?thesis
      using Cons.prems(3,4) by (auto simp: r(2) all_chunks_def)
  qed
qed simp

lemma mset_all_chunks: "mset os = mset os' \<Longrightarrow> mset (all_chunks os) = mset (all_chunks os')"
proof -
  have "mset (all_chunks os) = sum_mset (image_mset (\<lambda>s. mset (cs_chunks s)) (mset os))" for os
    by (induction os) (simp_all add: all_chunks_def)
  then show "mset os = mset os' \<Longrightarrow> ?thesis" by simp
qed

text \<open>Pushing one ordered chunk keeps the invariant and adds the chunk and its bytes.\<close>

lemma push_ordered:
  assumes inv: "ordered_inv (rq_next_ssn q) c ppi_of (rq_ordered q)"
    and fit: "chunk_fits (rq_next_ssn q) c ppi_of p" and si: "pd_stream_identifier p = rq_si q"
    and new: "pd_tsn p \<notin> pd_tsn ` set (all_chunks (rq_ordered q))"
  obtains ok q' where "reassembly_queue_push q p = (ok, q')"
    and "ordered_inv (rq_next_ssn q) c ppi_of (rq_ordered q')"
    and "mset (all_chunks (rq_ordered q')) = add_mset p (mset (all_chunks (rq_ordered q)))"
    and "rq_n_bytes q' = rq_n_bytes q + of_nat (length (pd_user_data p))"
    and "rq_next_ssn q' = rq_next_ssn q" and "rq_si q' = rq_si q" and "rq_unordered q' = rq_unordered q"
    and "rq_unordered_chunks q' = rq_unordered_chunks q"
proof -
  let ?n = "rq_next_ssn q" and ?ssn = "pd_stream_sequence_number p"
  let ?q = "q\<lparr>rq_n_bytes := rq_n_bytes q + of_nat (length (pd_user_data p))\<rparr>"
  have f: "\<not> pd_unordered p" "in_window ?n ?ssn" "in_window c (pd_tsn p)" "pd_payload_type p = ppi_of ?ssn"
    using fit by (simp_all add: chunk_fits_def)
  have "\<not> sna16lt ?ssn ?n"
    using f(2) s16.lt_base [OF f(2)] s16.asym by (cases "?ssn = ?n") (auto simp: s16.irrefl)
  note pushed = this
  show thesis
  proof (cases "push_into_existing p (rq_ordered q)")
    case (Some r)
    obtain ok os where r: "r = (ok, os)" by fastforce
    have *: "map cs_ssn os = map cs_ssn (rq_ordered q) \<and>
        mset (all_chunks os) = add_mset p (mset (all_chunks (rq_ordered q))) \<and>
        (\<forall>s \<in> set os. set_inv c ppi_of s) \<and>
        ((\<forall>s \<in> set (rq_ordered q). cs_chunks s \<noteq> []) \<longrightarrow> (\<forall>s \<in> set os. cs_chunks s \<noteq> []))"
      by (rule push_into_existing_Some [OF Some [unfolded r] new _ f(3)])
        (use inv in \<open>simp add: ordered_inv_def\<close>)
    have m: "map (\<lambda>s. cs_ssn s - ?n) os = map (\<lambda>s. cs_ssn s - ?n) (rq_ordered q)"
    proof -
      have "map (\<lambda>x. x - ?n) (map cs_ssn os) = map (\<lambda>x. x - ?n) (map cs_ssn (rq_ordered q))"
        using * by (simp only:)
      then show ?thesis by (simp add: comp_def)
    qed
    have w: "\<forall>s \<in> set os. in_window ?n (cs_ssn s)"
    proof
      fix s assume "s \<in> set os"
      then have "cs_ssn s \<in> cs_ssn ` set (rq_ordered q)" using * by (metis image_eqI image_set)
      then show "in_window ?n (cs_ssn s)" using inv by (auto simp: ordered_inv_def)
    qed
    have "ordered_inv ?n c ppi_of os"
    proof -
      have "\<forall>s \<in> set os. cs_chunks s \<noteq> []" "\<forall>s \<in> set os. set_inv c ppi_of s"
        using * inv by (simp_all add: ordered_inv_def)
      moreover have "distinct (map cs_ssn os)"
        using * inv by (simp add: ordered_inv_def)
      ultimately show ?thesis using inv w by (simp add: ordered_inv_def m)
    qed
    then show thesis
      using * Some by (intro that [of ok "?q\<lparr>rq_ordered := os\<rparr>"])
        (simp_all add: reassembly_queue_push_def si f(1) pushed r)
  next
    case None
    then have ns: "?ssn \<notin> cs_ssn ` set (rq_ordered q)" by (simp add: push_into_existing_None)
    let ?s0 = "chunk_set_new ?ssn (pd_payload_type p)"
    obtain s' where s': "chunk_set_push ?s0 p = (chunk_set_is_complete s', s')"
        "s' = ?s0\<lparr>cs_chunks := sort_chunks_by_tsn (cs_chunks ?s0 @ [p])\<rparr>"
        "tsn_sorted c (cs_chunks s')" "mset (cs_chunks s') = add_mset p (mset (cs_chunks ?s0))"
      by (rule push_chunk_set [of c ?s0 p]) (simp_all add: chunk_set_new_def tsn_sorted_def f)
    have ch: "cs_chunks s' = [p]" using s'(4) by (simp add: chunk_set_new_def)
    have sv: "set_inv c ppi_of s'" using s'(3) ch by (simp add: set_inv_def s'(2) chunk_set_new_def f)
    let ?os = "sort_chunks_by_ssn (rq_ordered q @ [s'])"
    have ssn: "cs_ssn s' = ?ssn" by (simp add: s'(2) chunk_set_new_def)
    have w: "\<forall>s \<in> set (rq_ordered q @ [s']). in_window ?n (cs_ssn s)"
      using inv f(2) ssn by (auto simp: ordered_inv_def)
    have "sorted (map (\<lambda>s. cs_ssn s - ?n) ?os)"
      unfolding sort_chunks_by_ssn_def by (rule sorted_sort_by) (use w s16.window_lt in blast)
    moreover have "distinct (map cs_ssn ?os)"
    proof -
      have "distinct (map cs_ssn (rq_ordered q @ [s']))"
        using inv ns ssn by (auto simp: ordered_inv_def)
      then show ?thesis
        by (metis mset_map mset_sort_by mset_eq_imp_distinct_iff sort_chunks_by_ssn_def)
    qed
    ultimately have "ordered_inv ?n c ppi_of ?os"
      using inv w sv ch by (auto simp: ordered_inv_def sort_chunks_by_ssn_def)
    moreover have "mset (all_chunks ?os) = add_mset p (mset (all_chunks (rq_ordered q)))"
    proof -
      have "mset (all_chunks ?os) = mset (all_chunks (rq_ordered q @ [s']))"
        by (rule mset_all_chunks) (simp add: sort_chunks_by_ssn_def)
      then show ?thesis by (simp add: all_chunks_def ch)
    qed
    ultimately show thesis
      using None s'(1) by (intro that [of "chunk_set_is_complete s'" "?q\<lparr>rq_ordered := ?os\<rparr>"])
        (simp_all add: reassembly_queue_push_def si f(1) pushed Let_def)
  qed
qed

text \<open>Pushing many chunks, reading many messages.\<close>

definition reassembly_push_all :: "reassembly_queue \<Rightarrow> payload_data list \<Rightarrow> reassembly_queue" where
  "reassembly_push_all q ps = foldl (\<lambda>q p. snd (reassembly_queue_push q p)) q ps"

fun reassembly_reads ::
  "nat \<Rightarrow> nat \<Rightarrow> reassembly_queue \<Rightarrow> (bytes \<times> payload_protocol_identifier) outcome list \<times> reassembly_queue"
where
  "reassembly_reads 0 buf_len q = ([], q)"
| "reassembly_reads (Suc n) buf_len q =
     (case reassembly_queue_read q buf_len of (r, q) \<Rightarrow>
        case reassembly_reads n buf_len q of (rs, q) \<Rightarrow> (r # rs, q))"

lemma push_all_ordered:
  assumes "ordered_inv (rq_next_ssn q) c ppi_of (rq_ordered q)"
    and "\<forall>p \<in> set ps. chunk_fits (rq_next_ssn q) c ppi_of p \<and> pd_stream_identifier p = rq_si q"
    and "distinct (map pd_tsn (all_chunks (rq_ordered q) @ ps))"
  shows "let q' = reassembly_push_all q ps in
    ordered_inv (rq_next_ssn q) c ppi_of (rq_ordered q') \<and>
    mset (all_chunks (rq_ordered q')) = mset (all_chunks (rq_ordered q) @ ps) \<and>
    rq_n_bytes q' = rq_n_bytes q + of_nat (data_bytes ps) \<and> rq_next_ssn q' = rq_next_ssn q \<and>
    rq_unordered q' = rq_unordered q \<and> rq_si q' = rq_si q"
  using assms
proof (induction ps arbitrary: q)
  case (Cons p ps)
  obtain ok q' where q': "reassembly_queue_push q p = (ok, q')"
      "ordered_inv (rq_next_ssn q) c ppi_of (rq_ordered q')"
      "mset (all_chunks (rq_ordered q')) = add_mset p (mset (all_chunks (rq_ordered q)))"
      "rq_n_bytes q' = rq_n_bytes q + of_nat (length (pd_user_data p))"
      "rq_next_ssn q' = rq_next_ssn q" "rq_si q' = rq_si q" "rq_unordered q' = rq_unordered q"
    by (rule push_ordered [of q c ppi_of p]) (use Cons.prems in auto)
  have "mset (all_chunks (rq_ordered q') @ ps) = mset (all_chunks (rq_ordered q) @ p # ps)"
    using q'(3) by simp
  then have "distinct (map pd_tsn (all_chunks (rq_ordered q') @ ps))"
    using Cons.prems(3) by (metis mset_map mset_eq_imp_distinct_iff)
  then show ?case
    using Cons.IH [of q'] Cons.prems q' by (simp add: reassembly_push_all_def Let_def add.assoc)
qed (simp add: reassembly_push_all_def)

definition message_data :: "payload_data list \<Rightarrow> bytes" where
  "message_data m = concat (map pd_user_data m)"

lemma message_data_simps [simp]:
  "message_data [] = []" "message_data (p # m) = pd_user_data p @ message_data m"
  by (simp_all add: message_data_def)

lemma length_message_data: "length (message_data m) = data_bytes m"
  by (induction m) simp_all

lemma copy_fragments_fits:
  assumes "length written + data_bytes cs \<le> buf_len" and "rq_n_bytes q = of_nat n"
    and "data_bytes cs \<le> n" and "n < 2 ^ 64"
  shows "copy_fragments buf_len cs written False q =
    (written @ message_data cs, False, q\<lparr>rq_n_bytes := of_nat (n - data_bytes cs)\<rparr>)"
  using assms
proof (induction cs arbitrary: written q n)
  case (Cons c cs)
  let ?k = "length (pd_user_data c)"
  have "(of_nat ?k :: usize) \<le> of_nat n"
    using Cons.prems by (simp add: word_le_nat_alt unat_of_nat_less)
  then have s: "subtract_num_bytes (of_nat ?k) q = q\<lparr>rq_n_bytes := of_nat (n - ?k)\<rparr>"
    using Cons.prems by (simp add: subtract_num_bytes_def)
  then show ?case
    using Cons.prems
      Cons.IH [of "written @ pd_user_data c" "q\<lparr>rq_n_bytes := of_nat (n - ?k)\<rparr>" "n - ?k"]
    by (simp add: Let_def)
qed simp

text \<open>Messages with consecutive SSNs, their fragments in the window of one TSN.\<close>

fun messages_from ::
  "u16 \<Rightarrow> u32 \<Rightarrow> (u16 \<Rightarrow> payload_protocol_identifier) \<Rightarrow> payload_data list list \<Rightarrow> bool" where
  "messages_from ssn c ppi_of [] \<longleftrightarrow> True"
| "messages_from ssn c ppi_of (m # ms) \<longleftrightarrow> fragments_of (pd_tsn (hd m)) m \<and>
     list_all (\<lambda>p. pd_stream_sequence_number p = ssn \<and> \<not> pd_unordered p \<and> in_window c (pd_tsn p) \<and>
       pd_payload_type p = ppi_of ssn) m \<and>
     messages_from (ssn + 1) c ppi_of ms"

lemma messages_from_ssn:
  "messages_from ssn c ppi_of ms \<Longrightarrow> p \<in> set (concat ms) \<Longrightarrow>
    \<exists>k < length ms. pd_stream_sequence_number p = ssn + of_nat k"
proof (induction ms arbitrary: ssn)
  case (Cons m ms)
  show ?case
  proof (cases "p \<in> set m")
    case True
    then show ?thesis using Cons.prems by (auto simp: list_all_iff intro!: exI [of _ 0])
  next
    case False
    then obtain k where "k < length ms" "pd_stream_sequence_number p = ssn + 1 + of_nat k"
      using Cons by auto
    then show ?thesis by (intro exI [of _ "Suc k"]) (simp add: algebra_simps)
  qed
qed simp

lemma in_window_next_u16: "in_window c x \<Longrightarrow> x \<noteq> c \<Longrightarrow> in_window (c + 1) x" for c x :: u16
proof -
  assume "in_window c x" and ne: "x \<noteq> c"
  then have w: "unat (x - c) < 2 ^ 15" by (simp add: s16.window_unat)
  have "unat (x - c) \<noteq> 0" using ne by (simp add: unat_eq_0)
  then have "unat (x - c - 1) = unat (x - c) - 1" by (simp add: unat_diff_if)
  then show ?thesis using w by (simp add: s16.window_unat diff_diff_eq)
qed

lemma unat_diff_succ_u16: "x \<noteq> c \<Longrightarrow> unat (x - (c + 1)) = unat (x - c) - 1" for c x :: u16
proof -
  assume "x \<noteq> c"
  then have "unat (x - c) \<noteq> 0" by (simp add: unat_eq_0)
  then have "unat (x - c - 1) = unat (x - c) - 1" by (simp add: unat_diff_if)
  then show ?thesis by (simp add: diff_diff_eq)
qed

text \<open>When all fragments of the messages have arrived, the first set is the first message.\<close>

lemma first_set_is_first_message:
  assumes inv: "ordered_inv next c ppi_of os" and ms: "messages_from next c ppi_of (m # ms)"
    and len: "length ms < 2 ^ 15" and all: "mset (all_chunks os) = mset (concat (m # ms))"
  obtains os' where "os = \<lparr>cs_ssn = next, cs_ppi = ppi_of next, cs_chunks = m\<rparr> # os'"
    and "ordered_inv (next + 1) c ppi_of os'" and "mset (all_chunks os') = mset (concat ms)"
proof -
  have ne: "m \<noteq> []" and fr: "fragments_of (pd_tsn (hd m)) m"
    and mp: "\<forall>p \<in> set m. pd_stream_sequence_number p = next \<and> in_window c (pd_tsn p)"
    using ms by (auto simp: list_all_iff fragments_of_def)
  have later: "pd_stream_sequence_number p \<noteq> next" if pin: "p \<in> set (concat ms)" for p
  proof -
    obtain k where k: "k < length ms" "pd_stream_sequence_number p = next + 1 + of_nat k"
      using messages_from_ssn [OF _ pin, of "next + 1" c ppi_of] ms by auto
    have "(of_nat (Suc k) :: u16) \<noteq> 0"
    proof
      assume "(of_nat (Suc k) :: u16) = 0"
      then have "unat (of_nat (Suc k) :: u16) = 0" by (simp only: unat_0)
      moreover have "unat (of_nat (Suc k) :: u16) = Suc k"
        using k(1) len by (intro unat_of_nat_u16) simp
      ultimately show False by simp
    qed
    then show ?thesis by (simp add: k(2) add.assoc)
  qed
  have sets: "s \<in> set os \<Longrightarrow> cs_chunks s \<noteq> [] \<and> set_inv c ppi_of s \<and> in_window next (cs_ssn s)" for s
    using inv by (simp add: ordered_inv_def)
  obtain p where p: "p \<in> set m" using ne by fastforce
  then have "p \<in> set (all_chunks os)" using all by (metis set_mset_mset UnCI concat.simps(2) set_append)
  then obtain s where s: "s \<in> set os" "p \<in> set (cs_chunks s)" by (auto simp: all_chunks_def)
  have ssn: "cs_ssn s = next" using sets [OF s(1)] s(2) p mp by (auto simp: set_inv_def)
  obtain h os' where os: "os = h # os'" using s(1) by (cases os) auto
  have h: "cs_ssn h = next"
  proof -
    have "cs_ssn h - next \<le> cs_ssn s - next" using inv s(1) by (auto simp: os ordered_inv_def)
    then show ?thesis by (simp add: ssn)
  qed
  have rest: "cs_ssn u \<noteq> next" if "u \<in> set os'" for u
  proof -
    have "cs_ssn h \<notin> cs_ssn ` set os'" using inv by (simp add: ordered_inv_def os)
    then show ?thesis using that h by (metis imageI)
  qed
  have cp: "pd_stream_sequence_number q = cs_ssn u" if "u \<in> set os" "q \<in> set (cs_chunks u)" for u q
    using sets [OF that(1)] that(2) by (simp add: set_inv_def)
  let ?f = "\<lambda>p. pd_stream_sequence_number p = next"
  have "filter ?f (all_chunks os) = cs_chunks h"
  proof -
    have "filter ?f (cs_chunks h) = cs_chunks h" using cp [of h] h by (simp add: os filter_id_conv)
    moreover have "filter ?f (all_chunks os') = []"
    proof -
      have "pd_stream_sequence_number q \<noteq> next" if "u \<in> set os'" "q \<in> set (cs_chunks u)" for u q
        using cp [of u q] rest [of u] that by (simp add: os)
      then show ?thesis by (auto simp: filter_empty_conv all_chunks_def)
    qed
    ultimately show ?thesis by (simp add: os all_chunks_def)
  qed
  moreover have "filter ?f (concat (m # ms)) = m"
  proof -
    have "filter ?f m = m" using mp by (simp add: filter_id_conv)
    moreover have "filter ?f (concat ms) = []" using later by (auto simp: filter_empty_conv)
    ultimately show ?thesis by simp
  qed
  ultimately have mm: "mset (cs_chunks h) = mset m" by (metis all mset_filter)
  have "set_inv c ppi_of h" using sets [of h] by (simp add: os)
  then have "tsn_sorted c (cs_chunks h)" and ppi: "cs_ppi h = ppi_of next" by (simp_all add: set_inv_def h)
  then have ch: "cs_chunks h = m"
    using tsn_sorted_unique fragments_tsn_sorted [OF fr] mp mm by blast
  have "ordered_inv (next + 1) c ppi_of os'"
  proof -
    have "sorted_wrt (\<lambda>x y. x - next \<le> y - next) (map cs_ssn os')"
      using inv by (simp add: ordered_inv_def os sorted_wrt_map)
    then have "sorted_wrt (\<lambda>x y. x - (next + 1) \<le> y - (next + 1)) (map cs_ssn os')"
      by (elim sorted_wrt_mono_rel [rotated])
        (use rest in \<open>auto simp: word_le_nat_alt unat_diff_succ_u16 diff_le_mono\<close>)
    then have "sorted (map (\<lambda>s. cs_ssn s - (next + 1)) os')" by (simp add: sorted_wrt_map)
    then show ?thesis
      using inv rest by (auto simp: ordered_inv_def os in_window_next_u16)
  qed
  moreover have "mset (all_chunks os') = mset (concat ms)"
    using all by (simp add: os all_chunks_def ch)
  ultimately show thesis
    using h ppi ch by (intro that [of os']) (cases h, simp_all add: os)
qed

lemma read_ordered_message:
  assumes "rq_ordered q = \<lparr>cs_ssn = rq_next_ssn q, cs_ppi = ppi, cs_chunks = m\<rparr> # os"
    and "rq_unordered q = []" and "fragments_of t m" and "data_bytes m \<le> buf_len"
    and "rq_n_bytes q = of_nat n" and "data_bytes m \<le> n" and "n < 2 ^ 64"
  shows "reassembly_queue_read q buf_len =
    (Ok (message_data m, ppi), q\<lparr>rq_next_ssn := rq_next_ssn q + 1, rq_ordered := os,
       rq_n_bytes := of_nat (n - data_bytes m)\<rparr>)"
proof -
  let ?s = "\<lparr>cs_ssn = rq_next_ssn q, cs_ppi = ppi, cs_chunks = m\<rparr>"
  have "chunk_set_is_complete ?s" by (rule complete_fragments [OF assms(3)]) simp
  then show ?thesis
    using assms copy_fragments_fits [of "[]" m buf_len
        "q\<lparr>rq_next_ssn := rq_next_ssn q + 1, rq_ordered := os\<rparr>" n]
    by (simp add: reassembly_queue_read_def Let_def s16.gt_iff)
qed

lemma reads_deliver:
  assumes "messages_from (rq_next_ssn q) c ppi_of ms"
    and "ordered_inv (rq_next_ssn q) c ppi_of (rq_ordered q)"
    and "mset (all_chunks (rq_ordered q)) = mset (concat ms)" and "length ms \<le> 2 ^ 15"
    and "rq_unordered q = []" and "\<forall>m \<in> set ms. data_bytes m \<le> buf_len"
    and "rq_n_bytes q = of_nat (data_bytes (concat ms))" and "data_bytes (concat ms) < 2 ^ 64"
  shows "\<exists>q'. reassembly_reads (length ms) buf_len q =
      (map (\<lambda>m. Ok (message_data m, pd_payload_type (hd m))) ms, q') \<and>
    rq_ordered q' = [] \<and> rq_unordered q' = [] \<and> rq_n_bytes q' = 0 \<and> rq_si q' = rq_si q \<and>
    rq_next_ssn q' = rq_next_ssn q + of_nat (length ms)"
  using assms
proof (induction ms arbitrary: q)
  case Nil
  then have "rq_ordered q = []" by (cases "rq_ordered q") (auto simp: all_chunks_def ordered_inv_def)
  then show ?case using Nil by simp
next
  case (Cons m ms)
  have f: "fragments_of (pd_tsn (hd m)) m" using Cons.prems(1) by simp
  then have ne: "m \<noteq> []" by (simp add: fragments_of_def)
  have ppi: "pd_payload_type (hd m) = ppi_of (rq_next_ssn q)"
    using Cons.prems(1) ne by (auto simp: list_all_iff)
  obtain os' where os': "rq_ordered q =
        \<lparr>cs_ssn = rq_next_ssn q, cs_ppi = ppi_of (rq_next_ssn q), cs_chunks = m\<rparr> # os'"
      "ordered_inv (rq_next_ssn q + 1) c ppi_of os'" "mset (all_chunks os') = mset (concat ms)"
    by (rule first_set_is_first_message [OF Cons.prems(2,1) _ Cons.prems(3)])
      (use Cons.prems(4) in auto)
  define q' where "q' = q\<lparr>rq_next_ssn := rq_next_ssn q + 1, rq_ordered := os',
    rq_n_bytes := of_nat (data_bytes (concat ms))\<rparr>"
  have r: "reassembly_queue_read q buf_len = (Ok (message_data m, ppi_of (rq_next_ssn q)), q')"
    using read_ordered_message [OF os'(1) Cons.prems(5) f _ Cons.prems(7)] Cons.prems(6,8)
    by (simp add: q'_def)
  have "\<exists>q''. reassembly_reads (length ms) buf_len q' =
      (map (\<lambda>m. Ok (message_data m, pd_payload_type (hd m))) ms, q'') \<and>
    rq_ordered q'' = [] \<and> rq_unordered q'' = [] \<and> rq_n_bytes q'' = 0 \<and> rq_si q'' = rq_si q' \<and>
    rq_next_ssn q'' = rq_next_ssn q' + of_nat (length ms)"
    by (rule Cons.IH) (use Cons.prems os' in \<open>simp_all add: q'_def\<close>)
  then show ?case using r by (auto simp: ppi q'_def algebra_simps)
qed

lemma messages_fit:
  assumes "messages_from next c ppi_of ms" and "length ms \<le> 2 ^ 15" and "p \<in> set (concat ms)"
  shows "chunk_fits next c ppi_of p"
proof -
  obtain k where k: "k < length ms" "pd_stream_sequence_number p = next + of_nat k"
    using messages_from_ssn [OF assms(1,3)] by auto
  have "in_window next (pd_stream_sequence_number p)"
    using k assms(2) by (simp add: s16.window_unat unat_of_nat_u16)
  moreover have "\<not> pd_unordered p \<and> in_window c (pd_tsn p) \<and>
      pd_payload_type p = ppi_of (pd_stream_sequence_number p)"
    if "messages_from ssn c ppi_of ms" for ssn
    using that assms(3) by (induction ms arbitrary: ssn) (auto simp: list_all_iff)
  ultimately show ?thesis using assms(1) by (simp add: chunk_fits_def)
qed

text \<open>A queue with nothing to read.\<close>

definition queue_drained :: "reassembly_queue \<Rightarrow> bool" where
  "queue_drained q \<longleftrightarrow> rq_ordered q = [] \<and> rq_unordered q = [] \<and> rq_n_bytes q = 0"

lemma queue_drained_new [simp]: "queue_drained (reassembly_queue_new si)"
  by (simp add: queue_drained_def reassembly_queue_new_def)

lemma deliver_next_messages:
  assumes "queue_drained q" and "messages_from (rq_next_ssn q) c ppi_of ms" and "mset ps = mset (concat ms)"
    and "length ms \<le> 2 ^ 15" and "distinct (map pd_tsn ps)"
    and "list_all (\<lambda>p. pd_stream_identifier p = rq_si q) ps"
    and "list_all (\<lambda>m. data_bytes m \<le> buf_len) ms" and "data_bytes ps < 2 ^ 64"
  shows "\<exists>q'. reassembly_reads (length ms) buf_len (reassembly_push_all q ps) =
      (map (\<lambda>m. Ok (message_data m, pd_payload_type (hd m))) ms, q') \<and>
    queue_drained q' \<and> rq_si q' = rq_si q \<and> rq_next_ssn q' = rq_next_ssn q + of_nat (length ms)"
proof -
  have e: "rq_ordered q = []" "rq_unordered q = []" "rq_n_bytes q = 0"
    using assms(1) by (simp_all add: queue_drained_def)
  have b: "data_bytes ps = data_bytes (concat ms)"
    using assms(3) by (metis data_bytes_def mset_map sum_mset_sum_list)
  have fit: "chunk_fits (rq_next_ssn q) c ppi_of p" if "p \<in> set ps" for p
    using that assms(3) by (intro messages_fit [OF assms(2,4)]) (metis mset_eq_setD)
  define q1 where "q1 = reassembly_push_all q ps"
  have q1: "ordered_inv (rq_next_ssn q) c ppi_of (rq_ordered q1)"
      "mset (all_chunks (rq_ordered q1)) = mset (concat ms)"
      "rq_n_bytes q1 = of_nat (data_bytes (concat ms))" "rq_next_ssn q1 = rq_next_ssn q"
      "rq_unordered q1 = []" "rq_si q1 = rq_si q"
    using push_all_ordered [of q c ppi_of ps] assms fit b
    by (simp_all add: e q1_def Let_def ordered_inv_def all_chunks_def list_all_iff)
  show ?thesis
    using reads_deliver [of q1 c ppi_of ms buf_len] q1 assms b
    by (simp add: q1_def [symmetric] list_all_iff queue_drained_def)
qed

lemma deliver_messages:
  assumes "messages_from 0 c ppi_of ms" and "mset ps = mset (concat ms)" and "length ms \<le> 2 ^ 15"
    and "distinct (map pd_tsn ps)" and "list_all (\<lambda>p. pd_stream_identifier p = si) ps"
    and "list_all (\<lambda>m. data_bytes m \<le> buf_len) ms" and "data_bytes ps < 2 ^ 64"
  shows "\<exists>q'. reassembly_reads (length ms) buf_len (reassembly_push_all (reassembly_queue_new si) ps) =
      (map (\<lambda>m. Ok (message_data m, pd_payload_type (hd m))) ms, q') \<and>
    rq_ordered q' = [] \<and> rq_n_bytes q' = 0 \<and> rq_next_ssn q' = of_nat (length ms)"
  using deliver_next_messages [of "reassembly_queue_new si" c ppi_of ms ps buf_len] assms
  by (auto simp: reassembly_queue_new_def queue_drained_def)


text \<open>C20: when a stream's queue has nothing left to read and the fragments of its next messages, at
  most 2^15 of them and less than 2^64 bytes, have arrived, in whatever order, then reading (into a
  buffer that holds the longest of them) returns the messages one by one in the order of their
  stream sequence numbers, from whatever number the queue has reached and across its wrap, each
  with its fragments put together in the right order and its payload type.  Afterwards the queue
  has again nothing to read, its byte count is back to zero, and the next sequence number has
  advanced by the number of messages, so that the same holds for the messages after them.\<close>

theorem ordered_delivery:
  assumes "queue_drained q" and "messages_from (rq_next_ssn q) c ppi_of ms" and "mset ps = mset (concat ms)"
    and "length ms \<le> 2 ^ 15" and "distinct (map pd_tsn ps)"
    and "list_all (\<lambda>p. pd_stream_identifier p = rq_si q) ps"
    and "list_all (\<lambda>m. data_bytes m \<le> buf_len) ms" and "data_bytes ps < 2 ^ 64"
  shows "\<exists>q'. reassembly_reads (length ms) buf_len (reassembly_push_all q ps) =
      (map (\<lambda>m. Ok (message_data m, pd_payload_type (hd m))) ms, q') \<and>
    queue_drained q' \<and> rq_si q' = rq_si q \<and> rq_next_ssn q' = rq_next_ssn q + of_nat (length ms)"
  using assms by (rule deliver_next_messages)

definition example_ordered :: "bool \<Rightarrow> bool \<Rightarrow> u32 \<Rightarrow> u16 \<Rightarrow> u8 \<Rightarrow> payload_data" where
  "example_ordered b e tsn ssn x =
     (example_fragment b e False 7 x)\<lparr>pd_tsn := tsn, pd_stream_sequence_number := ssn\<rparr>"

lemma example_ordered_fields [simp]:
  "pd_tsn (example_ordered b e t n x) = t" "pd_stream_sequence_number (example_ordered b e t n x) = n"
  "pd_beginning_fragment (example_ordered b e t n x) = b" "pd_ending_fragment (example_ordered b e t n x) = e"
  "\<not> pd_unordered (example_ordered b e t n x)" "pd_stream_identifier (example_ordered b e t n x) = 7"
  "pd_user_data (example_ordered b e t n x) = [x]" "pd_payload_type (example_ordered b e t n x) = PPI_Unknown"
  by (simp_all add: example_ordered_def example_fragment_def payload_data_default_def)

text \<open>The witness: two messages of two fragments and one, the last fragment first; the sequence
  numbers and the TSNs wrap.\<close>

theorem ordered_delivery_witness:
  "fst (reassembly_reads 2 10 (reassembly_push_all ((reassembly_queue_new 7)\<lparr>rq_next_ssn := 65535\<rparr>)
      [example_ordered True True 0 0 30, example_ordered False True 4294967295 65535 20,
       example_ordered True False 4294967294 65535 10])) =
    [Ok ([10, 20], PPI_Unknown), Ok ([30], PPI_Unknown)]"
proof -
  let ?q = "(reassembly_queue_new 7)\<lparr>rq_next_ssn := 65535\<rparr>"
  let ?a = "example_ordered True False 4294967294 65535 10"
  let ?b = "example_ordered False True 4294967295 65535 20"
  let ?c = "example_ordered True True 0 0 30"
  have "queue_drained ?q" "rq_next_ssn ?q = 65535" "rq_si ?q = 7" by (simp_all add: queue_drained_def reassembly_queue_new_def)
  moreover have "fragments_of 4294967294 [?a, ?b]" "fragments_of 0 [?c]"
    by (simp_all add: fragments_of_def upt_rec)
  then have "messages_from 65535 4294967294 (\<lambda>_. PPI_Unknown) [[?a, ?b], [?c]]"
    by (simp add: s32.window_unat)
  ultimately obtain q'
    where "reassembly_reads (length [[?a, ?b], [?c]]) 10 (reassembly_push_all ?q [?c, ?b, ?a]) =
        ([Ok ([10, 20], PPI_Unknown), Ok ([30], PPI_Unknown)], q')"
    using ordered_delivery [of ?q 4294967294 "\<lambda>_. PPI_Unknown" "[[?a, ?b], [?c]]" "[?c, ?b, ?a]" 10] by auto
  moreover have "length [[?a, ?b], [?c]] = 2" by simp
  ultimately show ?thesis by (metis fst_conv)
qed

end
