(* ===== verification/Stream.thy ===== *)
theory Stream
  imports Reassembly_Queue
begin

text \<open>
  src/src/stream/mod.rs: the two halves of a stream.  Writing splits a message into fragments
  and puts them on the association's pending queue; reading takes messages from the stream's
  reassembly queue.  A stream holds clones of some of the association's fields
  (\<^verbatim>\<open>state\<close>, \<^verbatim>\<open>max_message_size\<close>, \<^verbatim>\<open>awake_write_loop_ch\<close>, \<^verbatim>\<open>pending_queue\<close>): they are the
  record \<open>shared\<close>, which the association's record extends.
\<close>

section \<open>What a stream shares with its association\<close>

datatype association_state =
  Closed | CookieWait | CookieEchoed | Established | ShutdownAckSent | ShutdownPending
| ShutdownReceived | ShutdownSent

fun u8_of_association_state :: "association_state \<Rightarrow> u8" where
  "u8_of_association_state Closed = 0"
| "u8_of_association_state CookieWait = 1"
| "u8_of_association_state CookieEchoed = 2"
| "u8_of_association_state Established = 3"
| "u8_of_association_state ShutdownAckSent = 4"
| "u8_of_association_state ShutdownPending = 5"
| "u8_of_association_state ShutdownReceived = 6"
| "u8_of_association_state ShutdownSent = 7"

definition association_state_of_u8 :: "u8 \<Rightarrow> association_state" where
  "association_state_of_u8 v =
     (if v = 1 then CookieWait else if v = 2 then CookieEchoed else if v = 3 then Established
      else if v = 4 then ShutdownAckSent else if v = 5 then ShutdownPending
      else if v = 6 then ShutdownReceived else if v = 7 then ShutdownSent else Closed)"

lemma association_state_inverse [simp]: "association_state_of_u8 (u8_of_association_state s) = s"
  by (cases s) (simp_all add: association_state_of_u8_def)

text \<open>
  \<open>sh_state\<close> is the byte of the \<^verbatim>\<open>AtomicU8\<close>, \<open>sh_awake\<close> whether the channel of capacity one that
  wakes the write loop is full, and \<open>sh_next_cell\<close> the next address for a new
  \<^verbatim>\<open>Arc<AtomicBool>\<close> of the store \<open>sh_cells\<close>.
\<close>

record shared =
  sh_state :: u8
  sh_max_message_size :: u32
  sh_awake :: bool
  sh_pending_queue :: pending_queue
  sh_cells :: cells
  sh_next_cell :: cell

definition get_state :: "'a shared_scheme \<Rightarrow> association_state" where
  "get_state sh = association_state_of_u8 (sh_state sh)"

definition set_state :: "association_state \<Rightarrow> 'a shared_scheme \<Rightarrow> 'a shared_scheme" where
  "set_state new_state sh = sh\<lparr>sh_state := u8_of_association_state new_state\<rparr>"

definition awake_write_loop :: "'a shared_scheme \<Rightarrow> 'a shared_scheme" where
  "awake_write_loop sh = sh\<lparr>sh_awake := True\<rparr>"

text \<open>Two new flags, one after the other, both unset.\<close>

definition new_cells :: "'a shared_scheme \<Rightarrow> cell \<times> cell \<times> 'a shared_scheme" where
  "new_cells sh =
     (let n = sh_next_cell sh in
      (n, n + 1, sh\<lparr>sh_cells := (sh_cells sh)(n := False, n + 1 := False), sh_next_cell := n + 2\<rparr>))"

section \<open>The stream\<close>

datatype reliability_type = Reliable | Rexmit | Timed

definition reliability_type_of_u8 :: "u8 \<Rightarrow> reliability_type" where
  "reliability_type_of_u8 v = (if v = 1 then Rexmit else if v = 2 then Timed else Reliable)"

fun u8_of_reliability_type :: "reliability_type \<Rightarrow> u8" where
  "u8_of_reliability_type Reliable = 0"
| "u8_of_reliability_type Rexmit = 1"
| "u8_of_reliability_type Timed = 2"

lemma reliability_type_inverse [simp]: "reliability_type_of_u8 (u8_of_reliability_type t) = t"
  by (cases t) (simp_all add: reliability_type_of_u8_def)

text \<open>
  \<^verbatim>\<open>tokio::sync::Notify\<close> with one reader: whether a permit is stored and whether the reader is
  registered.  \<^verbatim>\<open>notify_one\<close> wakes a registered reader or stores the permit;
  \<^verbatim>\<open>notify_waiters\<close> wakes a registered reader and stores nothing.
\<close>

record notify =
  nt_permit :: bool
  nt_waiting :: bool

definition notify_one :: "notify \<Rightarrow> notify" where
  "notify_one n = (if nt_waiting n then n\<lparr>nt_waiting := False\<rparr> else n\<lparr>nt_permit := True\<rparr>)"

definition notify_waiters :: "notify \<Rightarrow> notify" where
  "notify_waiters n = n\<lparr>nt_waiting := False\<rparr>"

record stream =
  st_max_payload_size :: u32
  st_stream_identifier :: u16
  st_default_payload_type :: u32
  st_reassembly_queue :: reassembly_queue
  st_sequence_number :: u16
  st_read_notifier :: notify
  st_read_shutdown :: bool
  st_write_shutdown :: bool
  st_unordered :: bool
  st_reliability_type :: u8
  st_reliability_value :: u32
  st_buffered_amount :: usize
  st_buffered_amount_low :: usize
  st_on_buffered_amount_low :: bool

definition stream_new :: "u16 \<Rightarrow> u32 \<Rightarrow> stream" where
  "stream_new stream_identifier max_payload_size =
     \<lparr>st_max_payload_size = max_payload_size, st_stream_identifier = stream_identifier,
      st_default_payload_type = 0, st_reassembly_queue = reassembly_queue_new stream_identifier,
      st_sequence_number = 0, st_read_notifier = \<lparr>nt_permit = False, nt_waiting = False\<rparr>,
      st_read_shutdown = False, st_write_shutdown = False, st_unordered = False,
      st_reliability_type = 0, st_reliability_value = 0, st_buffered_amount = 0,
      st_buffered_amount_low = 0, st_on_buffered_amount_low = False\<rparr>"

definition set_default_payload_type :: "payload_protocol_identifier \<Rightarrow> stream \<Rightarrow> stream" where
  "set_default_payload_type ppi s = s\<lparr>st_default_payload_type := u32_of_ppi ppi\<rparr>"

definition set_reliability_params :: "bool \<Rightarrow> reliability_type \<Rightarrow> u32 \<Rightarrow> stream \<Rightarrow> stream" where
  "set_reliability_params unordered rel_type rel_val s =
     s\<lparr>st_unordered := unordered, st_reliability_type := u8_of_reliability_type rel_type,
       st_reliability_value := rel_val\<rparr>"

text \<open>The received data: the part under the queue's lock, and the notification after it.\<close>

definition stream_push_data :: "stream \<Rightarrow> payload_data \<Rightarrow> bool \<times> stream" where
  "stream_push_data s pd =
     (case reassembly_queue_push (st_reassembly_queue s) pd of
        (ok, q) \<Rightarrow> (ok \<and> reassembly_queue_is_readable q, s\<lparr>st_reassembly_queue := q\<rparr>))"

definition stream_notify_one :: "stream \<Rightarrow> stream" where
  "stream_notify_one s = s\<lparr>st_read_notifier := notify_one (st_read_notifier s)\<rparr>"

definition stream_handle_data :: "stream \<Rightarrow> payload_data \<Rightarrow> stream" where
  "stream_handle_data s pd =
     (case stream_push_data s pd of (readable, s) \<Rightarrow> if readable then stream_notify_one s else s)"

definition stream_forward_ordered :: "stream \<Rightarrow> u16 \<Rightarrow> bool \<times> stream" where
  "stream_forward_ordered s ssn =
     (if st_unordered s then (False, s)
      else
        let q = reassembly_queue_forward_tsn_for_ordered (st_reassembly_queue s) ssn in
        (reassembly_queue_is_readable q, s\<lparr>st_reassembly_queue := q\<rparr>))"

definition stream_handle_forward_tsn_for_ordered :: "stream \<Rightarrow> u16 \<Rightarrow> stream" where
  "stream_handle_forward_tsn_for_ordered s ssn =
     (case stream_forward_ordered s ssn of (readable, s) \<Rightarrow> if readable then stream_notify_one s else s)"

definition stream_forward_unordered :: "stream \<Rightarrow> u32 \<Rightarrow> bool \<times> stream" where
  "stream_forward_unordered s new_cumulative_tsn =
     (if \<not> st_unordered s then (False, s)
      else
        let q = reassembly_queue_forward_tsn_for_unordered (st_reassembly_queue s) new_cumulative_tsn in
        (reassembly_queue_is_readable q, s\<lparr>st_reassembly_queue := q\<rparr>))"

definition stream_handle_forward_tsn_for_unordered :: "stream \<Rightarrow> u32 \<Rightarrow> stream" where
  "stream_handle_forward_tsn_for_unordered s new_cumulative_tsn =
     (case stream_forward_unordered s new_cumulative_tsn of
        (readable, s) \<Rightarrow> if readable then stream_notify_one s else s)"

section \<open>Writing\<close>

text \<open>
  The loop of \<^verbatim>\<open>packetize\<close>.  With a payload size of 0 it never ends (\<open>None\<close>); every stream of
  an association has the payload size 1200.
\<close>

partial_function (option) packetize_loop ::
  "stream \<Rightarrow> time_ms \<Rightarrow> bytes \<Rightarrow> payload_protocol_identifier \<Rightarrow> bool \<Rightarrow> cell \<Rightarrow> cell \<Rightarrow> nat \<Rightarrow> nat
    \<Rightarrow> payload_data list \<Rightarrow> payload_data list option" where
  "packetize_loop s now raw ppi unordered head_abandoned head_all_inflight i remaining chunks =
     (if remaining = 0 then Some chunks
      else
        let fragment_size = min (unat (st_max_payload_size s)) remaining;
            user_data = take fragment_size (drop i raw);
            chunk = (payload_data_default now)
              \<lparr>pd_stream_identifier := st_stream_identifier s, pd_user_data := user_data,
               pd_unordered := unordered, pd_beginning_fragment := (i = 0),
               pd_ending_fragment := (remaining - fragment_size = 0), pd_immediate_sack := False,
               pd_payload_type := ppi, pd_stream_sequence_number := st_sequence_number s,
               pd_abandoned := head_abandoned, pd_all_inflight := head_all_inflight\<rparr> in
        packetize_loop s now raw ppi unordered head_abandoned head_all_inflight
          (i + fragment_size) (remaining - fragment_size) (chunks @ [chunk]))"

definition packetize ::
  "stream \<Rightarrow> 'a shared_scheme \<Rightarrow> time_ms \<Rightarrow> bytes \<Rightarrow> payload_protocol_identifier
    \<Rightarrow> (payload_data list \<times> stream \<times> 'a shared_scheme) option" where
  "packetize s sh now raw ppi =
     (let unordered = (ppi \<noteq> PPI_Dcep \<and> st_unordered s);
          (head_abandoned, head_all_inflight, sh) = new_cells sh in
      case packetize_loop s now raw ppi unordered head_abandoned head_all_inflight 0 (length raw) [] of
        None \<Rightarrow> None
      | Some chunks \<Rightarrow>
          let s = (if \<not> unordered then s\<lparr>st_sequence_number := st_sequence_number s + 1\<rparr> else s);
              s = s\<lparr>st_buffered_amount := st_buffered_amount s + of_nat (length raw)\<rparr> in
          Some (chunks, s, sh))"

text \<open>The pushes await the queue's locks one after the other; here no other writer comes between.\<close>

definition send_payload_data :: "'a shared_scheme \<Rightarrow> payload_data list \<Rightarrow> unit outcome \<times> 'a shared_scheme" where
  "send_payload_data sh chunks =
     (if get_state sh \<noteq> Established then (Err ErrPayloadDataStateNotExist, sh)
      else (Ok (), awake_write_loop (sh\<lparr>sh_pending_queue := pending_push_all (sh_pending_queue sh) chunks\<rparr>)))"

definition write_sctp ::
  "stream \<Rightarrow> 'a shared_scheme \<Rightarrow> time_ms \<Rightarrow> bytes \<Rightarrow> payload_protocol_identifier
    \<Rightarrow> (nat outcome \<times> stream \<times> 'a shared_scheme) option" where
  "write_sctp s sh now p ppi =
     (if st_write_shutdown s then Some (Err ErrStreamClosed, s, sh)
      else if length p > unat (sh_max_message_size sh) then Some (Err ErrOutboundPacketTooLarge, s, sh)
      else if get_state sh \<in> {ShutdownSent, ShutdownAckSent, ShutdownPending, ShutdownReceived}
      then Some (Err ErrStreamClosed, s, sh)
      else
        case packetize s sh now p ppi of
          None \<Rightarrow> None
        | Some (chunks, s, sh) \<Rightarrow>
            (case send_payload_data sh chunks of
               (r, sh) \<Rightarrow> Some (and_then r (\<lambda>_. Ok (length p)), s, sh)))"

definition stream_write ::
  "stream \<Rightarrow> 'a shared_scheme \<Rightarrow> time_ms \<Rightarrow> bytes \<Rightarrow> (nat outcome \<times> stream \<times> 'a shared_scheme) option" where
  "stream_write s sh now p = write_sctp s sh now p (ppi_of_u32 (st_default_payload_type s))"

text \<open>
  A write step by step: everything up to the first push, which is not interrupted; then one
  fragment after the other, each under the queue's lock, with other tasks in between; then the
  write loop is woken.
\<close>

definition write_start ::
  "stream \<Rightarrow> 'a shared_scheme \<Rightarrow> time_ms \<Rightarrow> bytes \<Rightarrow> payload_protocol_identifier
    \<Rightarrow> (payload_data list outcome \<times> stream \<times> 'a shared_scheme) option" where
  "write_start s sh now p ppi =
     (if st_write_shutdown s then Some (Err ErrStreamClosed, s, sh)
      else if length p > unat (sh_max_message_size sh) then Some (Err ErrOutboundPacketTooLarge, s, sh)
      else if get_state sh \<in> {ShutdownSent, ShutdownAckSent, ShutdownPending, ShutdownReceived}
      then Some (Err ErrStreamClosed, s, sh)
      else
        case packetize s sh now p ppi of
          None \<Rightarrow> None
        | Some (chunks, s, sh) \<Rightarrow>
            Some (if get_state sh \<noteq> Established then Err ErrPayloadDataStateNotExist else Ok chunks, s, sh))"

fun push_next :: "payload_data list \<Rightarrow> 'a shared_scheme \<Rightarrow> payload_data list option \<times> 'a shared_scheme" where
  "push_next [] sh = (None, awake_write_loop sh)"
| "push_next (c # cs) sh = (Some cs, sh\<lparr>sh_pending_queue := pending_queue_push (sh_pending_queue sh) c\<rparr>)"

fun push_rest :: "payload_data list \<Rightarrow> 'a shared_scheme \<Rightarrow> 'a shared_scheme" where
  "push_rest [] sh = snd (push_next [] sh)"
| "push_rest (c # cs) sh = push_rest cs (snd (push_next (c # cs) sh))"

text \<open>When nothing comes in between, this is \<open>write_sctp\<close>.\<close>

lemma push_rest_all:
  "push_rest cs sh = awake_write_loop (sh\<lparr>sh_pending_queue := pending_push_all (sh_pending_queue sh) cs\<rparr>)"
  by (induction cs arbitrary: sh) (simp_all add: pending_push_all_def)

theorem write_sctp_step_by_step:
  "write_sctp s sh now p ppi =
     (case write_start s sh now p ppi of
        None \<Rightarrow> None
      | Some (Ok cs, s', sh') \<Rightarrow> Some (Ok (length p), s', push_rest cs sh')
      | Some (Err e, s', sh') \<Rightarrow> Some (Err e, s', sh')
      | Some (Panic, s', sh') \<Rightarrow> Some (Panic, s', sh'))"
  by (auto simp: write_sctp_def write_start_def send_payload_data_def push_rest_all split: option.split)

section \<open>Closing\<close>

definition send_reset_request :: "'a shared_scheme \<Rightarrow> time_ms \<Rightarrow> u16 \<Rightarrow> unit outcome \<times> 'a shared_scheme" where
  "send_reset_request sh now stream_identifier =
     (if get_state sh \<noteq> Established then (Err ErrResetPacketInStateNotExist, sh)
      else
        let (abandoned, all_inflight, sh) = new_cells sh;
            c = (payload_data_default now)
              \<lparr>pd_stream_identifier := stream_identifier, pd_beginning_fragment := True,
               pd_ending_fragment := True, pd_user_data := [],
               pd_abandoned := abandoned, pd_all_inflight := all_inflight\<rparr> in
        (Ok (), awake_write_loop (sh\<lparr>sh_pending_queue := pending_queue_push (sh_pending_queue sh) c\<rparr>)))"

datatype shutdown_how = Shutdown_Read | Shutdown_Write | Shutdown_Both

definition stream_shutdown ::
  "stream \<Rightarrow> 'a shared_scheme \<Rightarrow> time_ms \<Rightarrow> shutdown_how \<Rightarrow> unit outcome \<times> stream \<times> 'a shared_scheme" where
  "stream_shutdown s sh now how =
     (if st_read_shutdown s \<and> st_write_shutdown s then (Ok (), s, sh)
      else
        let s = (if how = Shutdown_Write \<or> how = Shutdown_Both then s\<lparr>st_write_shutdown := True\<rparr> else s);
            s = (if (how = Shutdown_Read \<or> how = Shutdown_Both) \<and> \<not> st_read_shutdown s
                 then s\<lparr>st_read_shutdown := True, st_read_notifier := notify_waiters (st_read_notifier s)\<rparr>
                 else s) in
        if how = Shutdown_Both \<or> st_read_shutdown s \<and> st_write_shutdown s then
          (case send_reset_request sh now (st_stream_identifier s) of
             (r, sh) \<Rightarrow> (and_then r (\<lambda>_. Ok ()), s, sh))
        else (Ok (), s, sh))"

text \<open>
  The release of acknowledged bytes; the first result says whether the callback is called.
  \<open>n_bytes_released\<close> is an \<^verbatim>\<open>i64\<close>.
\<close>

definition on_buffer_released :: "stream \<Rightarrow> int \<Rightarrow> bool \<times> stream" where
  "on_buffer_released s n_bytes_released =
     (if n_bytes_released \<le> 0 then (False, s)
      else
        let from_amount = st_buffered_amount s;
            (new_amount, s) =
              (if from_amount < of_int n_bytes_released then (0, s\<lparr>st_buffered_amount := 0\<rparr>)
               else (from_amount - of_int n_bytes_released,
                     s\<lparr>st_buffered_amount := st_buffered_amount s - of_int n_bytes_released\<rparr>));
            buffered_amount_low = st_buffered_amount_low s in
        (from_amount > buffered_amount_low \<and> new_amount \<le> buffered_amount_low
           \<and> st_on_buffered_amount_low s, s))"

definition stream_get_num_bytes_in_reassembly_queue :: "stream \<Rightarrow> usize" where
  "stream_get_num_bytes_in_reassembly_queue s = reassembly_queue_get_num_bytes (st_reassembly_queue s)"

section \<open>The fragments of a message\<close>

text \<open>
  The fragments \<^verbatim>\<open>packetize\<close> makes: the B bit on the first one (if the list starts the message),
  the E bit on the last one, none empty and none above the payload size, and all with the same
  identifiers and the same two flags.
\<close>

definition fragment_fields ::
  "stream \<Rightarrow> payload_protocol_identifier \<Rightarrow> bool \<Rightarrow> cell \<Rightarrow> cell \<Rightarrow> payload_data \<Rightarrow> bool" where
  "fragment_fields s ppi unordered abandoned all_inflight c \<longleftrightarrow>
     pd_stream_identifier c = st_stream_identifier s \<and>
     pd_stream_sequence_number c = st_sequence_number s \<and> pd_unordered c = unordered \<and>
     pd_payload_type c = ppi \<and> pd_abandoned c = abandoned \<and> pd_all_inflight c = all_inflight \<and>
     0 < length (pd_user_data c) \<and> length (pd_user_data c) \<le> unat (st_max_payload_size s)"

fun bits_ok :: "bool \<Rightarrow> payload_data list \<Rightarrow> bool" where
  "bits_ok first [] = True"
| "bits_ok first (c # cs) \<longleftrightarrow>
     pd_beginning_fragment c = first \<and> pd_ending_fragment c = (cs = []) \<and> bits_ok False cs"

lemma packetize_loop_spec:
  assumes "0 < unat (st_max_payload_size s)" and "i + remaining = length raw"
  shows "\<exists>cs. packetize_loop s now raw ppi u ha hi i remaining chunks = Some (chunks @ cs) \<and>
    message_data cs = drop i raw \<and> (cs = [] \<longleftrightarrow> remaining = 0) \<and> bits_ok (i = 0) cs \<and>
    list_all (fragment_fields s ppi u ha hi) cs"
  using assms(2)
proof (induction remaining arbitrary: i chunks rule: less_induct)
  case (less remaining)
  show ?case
  proof (cases "remaining = 0")
    case True
    then show ?thesis using less.prems by (subst packetize_loop.simps) (auto intro!: exI [of _ "[]"])
  next
    case False
    define n where "n = min (unat (st_max_payload_size s)) remaining"
    define c where "c = (payload_data_default now)
              \<lparr>pd_stream_identifier := st_stream_identifier s, pd_user_data := take n (drop i raw),
               pd_unordered := u, pd_beginning_fragment := (i = 0),
               pd_ending_fragment := (remaining - n = 0), pd_immediate_sack := False,
               pd_payload_type := ppi, pd_stream_sequence_number := st_sequence_number s,
               pd_abandoned := ha, pd_all_inflight := hi\<rparr>"
    have n: "0 < n" "n \<le> remaining" "n \<le> unat (st_max_payload_size s)"
      using assms(1) False by (auto simp: n_def)
    have c: "pd_user_data c = take n (drop i raw)" "pd_beginning_fragment c \<longleftrightarrow> i = 0"
        "pd_ending_fragment c \<longleftrightarrow> remaining - n = 0" "fragment_fields s ppi u ha hi c"
      using n less.prems by (simp_all add: c_def fragment_fields_def)
    have "remaining - n < remaining" "(i + n) + (remaining - n) = length raw"
      using n less.prems by linarith+
    from less.IH [OF this, of "chunks @ [c]"] obtain cs where
      cs: "packetize_loop s now raw ppi u ha hi (i + n) (remaining - n) (chunks @ [c]) = Some ((chunks @ [c]) @ cs)"
        "message_data cs = drop (i + n) raw" "cs = [] \<longleftrightarrow> remaining - n = 0"
        "bits_ok (i + n = 0) cs" "list_all (fragment_fields s ppi u ha hi) cs"
      by (elim exE conjE) (rule that; assumption)
    have "packetize_loop s now raw ppi u ha hi i remaining chunks = Some (chunks @ c # cs)"
      using False cs(1) [unfolded c_def]
      by (subst packetize_loop.simps) (simp add: Let_def n_def [symmetric], simp add: c_def)
    moreover have "message_data (c # cs) = drop i raw"
      using append_take_drop_id [of n "drop i raw"] by (simp add: cs(2) c(1) add.commute)
    moreover have "bits_ok (i = 0) (c # cs)" using n cs(3,4) c by simp
    ultimately show ?thesis
      using cs(5) c(4) False by (intro exI [of _ "c # cs"]) simp
  qed
qed


lemma packetize_Some:
  assumes "0 < unat (st_max_payload_size s)"
  obtains cs where "packetize s sh now raw ppi =
      Some (cs, s\<lparr>st_sequence_number := (if ppi \<noteq> PPI_Dcep \<and> st_unordered s then st_sequence_number s
                                          else st_sequence_number s + 1),
                  st_buffered_amount := st_buffered_amount s + of_nat (length raw)\<rparr>,
            snd (snd (new_cells sh)))"
    and "message_data cs = raw" and "cs = [] \<longleftrightarrow> raw = []" and "bits_ok True cs"
    and "list_all (fragment_fields s ppi (ppi \<noteq> PPI_Dcep \<and> st_unordered s) (sh_next_cell sh) (sh_next_cell sh + 1)) cs"
proof -
  from packetize_loop_spec [OF assms, of 0 "length raw" raw now ppi "ppi \<noteq> PPI_Dcep \<and> st_unordered s"
      "sh_next_cell sh" "sh_next_cell sh + 1" "[]"] obtain cs where cs:
    "packetize_loop s now raw ppi (ppi \<noteq> PPI_Dcep \<and> st_unordered s) (sh_next_cell sh) (sh_next_cell sh + 1)
       0 (length raw) [] = Some cs"
    "message_data cs = raw" "cs = [] \<longleftrightarrow> raw = []" "bits_ok True cs"
    "list_all (fragment_fields s ppi (ppi \<noteq> PPI_Dcep \<and> st_unordered s) (sh_next_cell sh) (sh_next_cell sh + 1)) cs"
    by auto
  then show thesis by (intro that [of cs]) (auto simp: packetize_def new_cells_def Let_def)
qed

text \<open>C25: \<^verbatim>\<open>packetize\<close> returns, and what it returns is the message cut into fragments: their data
  put together is the message, the B bit is on the first one only and the E bit on the last one
  only, none is empty or longer than the payload size, all have the stream's identifier and next
  sequence number, and they share two flags that no other message has.  The sequence number
  advances for an ordered message only (a DCEP message is always ordered), and the stream's
  buffered amount grows by the length of the message.\<close>

theorem packetize_fragments:
  assumes "0 < unat (st_max_payload_size s)"
  shows "\<exists>cs s' sh'. packetize s sh now raw ppi = Some (cs, s', sh') \<and> message_data cs = raw \<and>
    bits_ok True cs \<and>
    list_all (fragment_fields s ppi (ppi \<noteq> PPI_Dcep \<and> st_unordered s) (sh_next_cell sh) (sh_next_cell sh + 1)) cs \<and>
    st_sequence_number s' =
      (if ppi \<noteq> PPI_Dcep \<and> st_unordered s then st_sequence_number s else st_sequence_number s + 1) \<and>
    st_buffered_amount s' = st_buffered_amount s + of_nat (length raw) \<and>
    sh_next_cell sh' = sh_next_cell sh + 2 \<and> sh_pending_queue sh' = sh_pending_queue sh"
  by (rule packetize_Some [OF assms, of sh now raw ppi]) (auto simp: new_cells_def Let_def)

definition example_shared :: shared where
  "example_shared =
     \<lparr>sh_state = 3, sh_max_message_size = 65536, sh_awake = False, sh_pending_queue = pending_queue_new,
      sh_cells = \<lambda>_. False, sh_next_cell = 1\<rparr>"

theorem packetize_fragments_witness:
  "\<exists>cs s' sh'. packetize (stream_new 7 2) example_shared 0 [1, 2, 3, 4, 5] PPI_Binary = Some (cs, s', sh') \<and>
    message_data cs = [1, 2, 3, 4, 5] \<and> bits_ok True cs \<and> st_sequence_number s' = 1"
  using packetize_fragments [of "stream_new 7 2" example_shared 0 "[1, 2, 3, 4, 5]" PPI_Binary]
  by (auto simp: stream_new_def)

section \<open>From the writer to the reader\<close>

text \<open>The association numbers the chunks it sends; the receiver decodes its own view of them.\<close>

fun assign_tsns :: "u32 \<Rightarrow> payload_data list \<Rightarrow> payload_data list" where
  "assign_tsns t [] = []"
| "assign_tsns t (c # cs) = c\<lparr>pd_tsn := t\<rparr> # assign_tsns (t + 1) cs"

lemma length_assign_tsns [simp]: "length (assign_tsns t cs) = length cs"
  by (induction cs arbitrary: t) simp_all

lemma assign_tsns_Nil [simp]: "assign_tsns t cs = [] \<longleftrightarrow> cs = []"
  by (cases cs) simp_all

lemma assign_tsns_append:
  "assign_tsns t (xs @ ys) = assign_tsns t xs @ assign_tsns (t + of_nat (length xs)) ys"
  by (induction xs arbitrary: t) (simp_all add: algebra_simps)

lemma assign_tsns_nth:
  "i < length cs \<Longrightarrow> assign_tsns t cs ! i = (cs ! i)\<lparr>pd_tsn := t + of_nat i\<rparr>"
  by (induction cs arbitrary: t i) (auto simp: nth_Cons algebra_simps split: nat.splits)

lemma map_assign_tsns [simp]: "map pd_user_data (assign_tsns t cs) = map pd_user_data cs"
  by (induction cs arbitrary: t) simp_all

lemma set_assign_tsns:
  "c \<in> set (assign_tsns t cs) \<Longrightarrow> \<exists>d \<in> set cs. \<exists>i < length cs. c = d\<lparr>pd_tsn := t + of_nat i\<rparr>"
  using nth_mem by (fastforce simp: in_set_conv_nth assign_tsns_nth)

lemma bits_ok_nth:
  "bits_ok first cs \<Longrightarrow> i < length cs \<Longrightarrow>
    (pd_beginning_fragment (cs ! i) \<longleftrightarrow> first \<and> i = 0) \<and> (pd_ending_fragment (cs ! i) \<longleftrightarrow> i = length cs - 1)"
  by (induction cs arbitrary: first i) (auto simp: nth_Cons split: nat.splits)

lemma payload_data_view_fields [simp]:
  "pd_tsn (payload_data_view now c) = pd_tsn c"
  "pd_beginning_fragment (payload_data_view now c) = pd_beginning_fragment c"
  "pd_ending_fragment (payload_data_view now c) = pd_ending_fragment c"
  "pd_unordered (payload_data_view now c) = pd_unordered c"
  "pd_stream_identifier (payload_data_view now c) = pd_stream_identifier c"
  "pd_stream_sequence_number (payload_data_view now c) = pd_stream_sequence_number c"
  "pd_payload_type (payload_data_view now c) = pd_payload_type c"
  "pd_user_data (payload_data_view now c) = pd_user_data c"
  by (simp_all add: payload_data_view_def)

lemma fragments_of_received:
  assumes "cs \<noteq> []" and "bits_ok True cs" and "length cs \<le> 2 ^ 31"
  shows "fragments_of t (map (payload_data_view now) (assign_tsns t cs))"
  using assms bits_ok_nth [OF assms(2)]
  by (auto simp: fragments_of_def list_all_iff assign_tsns_nth)

lemma message_data_received [simp]:
  "message_data (map (payload_data_view now) (assign_tsns t cs)) = message_data cs"
  by (simp add: message_data_def comp_def)

text \<open>A list of messages written one after the other.\<close>

fun stream_write_all ::
  "stream \<Rightarrow> 'a shared_scheme \<Rightarrow> time_ms \<Rightarrow> (bytes \<times> payload_protocol_identifier) list
    \<Rightarrow> (nat outcome list \<times> stream \<times> 'a shared_scheme) option" where
  "stream_write_all s sh now [] = Some ([], s, sh)"
| "stream_write_all s sh now ((p, ppi) # ms) =
     (case write_sctp s sh now p ppi of
        None \<Rightarrow> None
      | Some (r, s, sh) \<Rightarrow>
          (case stream_write_all s sh now ms of
             None \<Rightarrow> None
           | Some (rs, s, sh) \<Rightarrow> Some (r # rs, s, sh)))"

definition writable :: "stream \<Rightarrow> 'a shared_scheme \<Rightarrow> bool" where
  "writable s sh \<longleftrightarrow> 0 < unat (st_max_payload_size s) \<and> \<not> st_write_shutdown s \<and>
     \<not> st_unordered s \<and> get_state sh = Established"

lemma write_sctp_Ok:
  assumes "writable s sh" and "length p \<le> unat (sh_max_message_size sh)"
  obtains cs s' sh' where "write_sctp s sh now p ppi = Some (Ok (length p), s', sh')"
    and "message_data cs = p" and "cs = [] \<longleftrightarrow> p = []" and "bits_ok True cs"
    and "list_all (\<lambda>c. pd_stream_identifier c = st_stream_identifier s \<and> \<not> pd_unordered c \<and>
      pd_stream_sequence_number c = st_sequence_number s \<and> pd_payload_type c = ppi \<and>
      pd_user_data c \<noteq> []) cs"
    and "sh_pending_queue sh' = pending_push_all (sh_pending_queue sh) cs"
    and "st_sequence_number s' = st_sequence_number s + 1"
    and "st_stream_identifier s' = st_stream_identifier s" and "writable s' sh'"
    and "sh_max_message_size sh' = sh_max_message_size sh" and "sh_awake sh'"
proof (rule packetize_Some [of s sh now p ppi])
  show "0 < unat (st_max_payload_size s)" using assms(1) by (simp add: writable_def)
next
  fix cs
  let ?s' = "s\<lparr>st_sequence_number := st_sequence_number s + 1,
      st_buffered_amount := st_buffered_amount s + of_nat (length p)\<rparr>"
  let ?sh = "snd (snd (new_cells sh))"
  let ?sh' = "awake_write_loop (?sh\<lparr>sh_pending_queue := pending_push_all (sh_pending_queue sh) cs\<rparr>)"
  assume "packetize s sh now p ppi =
      Some (cs, s\<lparr>st_sequence_number := (if ppi \<noteq> PPI_Dcep \<and> st_unordered s then st_sequence_number s
                                          else st_sequence_number s + 1),
                  st_buffered_amount := st_buffered_amount s + of_nat (length p)\<rparr>, ?sh)"
    and cs: "message_data cs = p" "(cs = []) = (p = [])" "bits_ok True cs"
    "list_all (fragment_fields s ppi (ppi \<noteq> PPI_Dcep \<and> st_unordered s) (sh_next_cell sh) (sh_next_cell sh + 1)) cs"
  then have p: "packetize s sh now p ppi = Some (cs, ?s', ?sh)"
    using assms(1) by (simp add: writable_def)
  have "get_state ?sh = Established" "sh_pending_queue ?sh = sh_pending_queue sh"
    using assms(1) by (simp_all add: writable_def new_cells_def Let_def get_state_def)
  then have "send_payload_data ?sh cs = (Ok (), ?sh')" by (simp add: send_payload_data_def)
  then have "write_sctp s sh now p ppi = Some (Ok (length p), ?s', ?sh')"
    using assms p by (simp add: write_sctp_def writable_def)
  moreover have "writable ?s' ?sh'"
    using assms(1) by (simp add: writable_def new_cells_def Let_def get_state_def awake_write_loop_def)
  ultimately show thesis
    using cs assms(1)
    by (intro that [of ?s' ?sh' cs])
      (auto simp: list_all_iff fragment_fields_def writable_def new_cells_def Let_def awake_write_loop_def)
qed

text \<open>What the pending queue receives: one list of fragments per message.\<close>

fun written ::
  "u16 \<Rightarrow> u16 \<Rightarrow> (bytes \<times> payload_protocol_identifier) list \<Rightarrow> payload_data list list \<Rightarrow> bool" where
  "written si ssn [] css \<longleftrightarrow> css = []"
| "written si ssn ((p, ppi) # ms) css \<longleftrightarrow>
     (case css of
        [] \<Rightarrow> False
      | cs # css \<Rightarrow> cs \<noteq> [] \<and> message_data cs = p \<and> bits_ok True cs \<and>
          list_all (\<lambda>c. pd_stream_identifier c = si \<and> \<not> pd_unordered c \<and>
            pd_stream_sequence_number c = ssn \<and> pd_payload_type c = ppi \<and> pd_user_data c \<noteq> []) cs \<and>
          written si (ssn + 1) ms css)"

lemma stream_write_all_Ok:
  assumes "writable s sh"
    and "list_all (\<lambda>(p, ppi). p \<noteq> [] \<and> length p \<le> unat (sh_max_message_size sh)) ms"
  shows "\<exists>css s' sh'. stream_write_all s sh now ms = Some (map (\<lambda>(p, ppi). Ok (length p)) ms, s', sh') \<and>
    written (st_stream_identifier s) (st_sequence_number s) ms css \<and>
    sh_pending_queue sh' = pending_push_all (sh_pending_queue sh) (concat css)"
  using assms
proof (induction ms arbitrary: s sh)
  case Nil
  then show ?case by (auto simp: pending_push_all_def intro!: exI [of _ "[]"])
next
  case (Cons m ms)
  obtain p ppi where m: "m = (p, ppi)" by fastforce
  have p: "p \<noteq> []" "length p \<le> unat (sh_max_message_size sh)" using Cons.prems(2) by (simp_all add: m)
  show ?case
  proof (rule write_sctp_Ok [OF Cons.prems(1) p(2), of now ppi])
    fix cs s' sh'
    assume w: "write_sctp s sh now p ppi = Some (Ok (length p), s', sh')"
      "message_data cs = p" "(cs = []) = (p = [])" "bits_ok True cs"
      "list_all (\<lambda>c. pd_stream_identifier c = st_stream_identifier s \<and> \<not> pd_unordered c \<and>
        pd_stream_sequence_number c = st_sequence_number s \<and> pd_payload_type c = ppi \<and>
        pd_user_data c \<noteq> []) cs"
      "sh_pending_queue sh' = pending_push_all (sh_pending_queue sh) cs"
      "st_sequence_number s' = st_sequence_number s + 1"
      "st_stream_identifier s' = st_stream_identifier s" "writable s' sh'"
      "sh_max_message_size sh' = sh_max_message_size sh"
    have "list_all (\<lambda>(p, ppi). p \<noteq> [] \<and> length p \<le> unat (sh_max_message_size sh')) ms"
      using Cons.prems(2) w(10) by simp
    from Cons.IH [OF w(9) this] obtain css s'' sh'' where
      "stream_write_all s' sh' now ms = Some (map (\<lambda>(p, ppi). Ok (length p)) ms, s'', sh'')"
      "written (st_stream_identifier s') (st_sequence_number s') ms css"
      "sh_pending_queue sh'' = pending_push_all (sh_pending_queue sh') (concat css)"
      by blast
    then show ?thesis
      using w p by (intro exI [of _ "cs # css"] exI [of _ s''] exI [of _ sh''])
        (simp add: m pending_push_all_def)
  qed
qed


lemma written_messages: "written si ssn ms css \<Longrightarrow> map message_data css = map fst ms"
  by (induction si ssn ms css rule: written.induct) (auto split: list.splits)

text \<open>What the receiver decodes, message by message.\<close>

fun received :: "time_ms \<Rightarrow> u32 \<Rightarrow> payload_data list list \<Rightarrow> payload_data list list" where
  "received now t [] = []"
| "received now t (cs # css) =
     map (payload_data_view now) (assign_tsns t cs) # received now (t + of_nat (length cs)) css"

lemma concat_received:
  "concat (received now t css) = map (payload_data_view now) (assign_tsns t (concat css))"
  by (induction css arbitrary: t) (simp_all add: assign_tsns_append)

lemma map_message_data_received:
  "written si ssn ms css \<Longrightarrow>
    map (\<lambda>m. Ok (message_data m, pd_payload_type (hd m))) (received now t css) = map Ok ms"
proof (induction ms arbitrary: ssn css t)
  case (Cons m ms)
  obtain p ppi where m: "m = (p, ppi)" by fastforce
  obtain cs css' where css: "css = cs # css'" using Cons.prems by (auto simp: m split: list.splits)
  have cs: "cs \<noteq> []" "message_data cs = p" "pd_payload_type (hd cs) = ppi" "written si (ssn + 1) ms css'"
    using Cons.prems by (auto simp: m css list_all_iff)
  then have "pd_payload_type (hd (map (payload_data_view now) (assign_tsns t cs))) = ppi"
    by (cases cs) simp_all
  then show ?case using Cons.IH [OF cs(4)] cs(2) by (simp add: css m)
qed simp

lemma length_received [simp]: "length (received now t css) = length css"
  by (induction css arbitrary: t) simp_all

lemma written_length: "written si ssn ms css \<Longrightarrow> length css = length ms"
  by (induction si ssn ms css rule: written.induct) (auto split: list.splits)

lemma written_bounds:
  "written si ssn ms css \<Longrightarrow>
    length (concat css) \<le> length (concat (map fst ms)) \<and>
    list_all (\<lambda>c. \<not> pd_unordered c \<and> pd_stream_identifier c = si) (concat css) \<and>
    message_data (concat css) = concat (map fst ms)"
proof (induction ms arbitrary: ssn css)
  case (Cons m ms)
  obtain p ppi where m: "m = (p, ppi)" by fastforce
  obtain cs css' where css: "css = cs # css'" using Cons.prems by (auto simp: m split: list.splits)
  have "length cs \<le> data_bytes cs" if "list_all (\<lambda>c. pd_user_data c \<noteq> []) cs" for cs
    using that by (induction cs) (auto simp: Suc_le_eq add_strict_increasing)
  then have "length cs \<le> length p"
    using Cons.prems by (auto simp: m css length_message_data [symmetric] list_all_iff)
  then show ?case
    using Cons.IH [of "ssn + 1" css'] Cons.prems
    by (auto simp: m css list_all_iff message_data_def)
qed simp

lemma messages_from_received:
  assumes "written si ssn ms css" and "k + length (concat css) \<le> 2 ^ 31"
    and "\<And>j. j < length ms \<Longrightarrow> ppi_of (ssn + of_nat j) = snd (ms ! j)"
  shows "messages_from ssn c ppi_of (received now (c + of_nat k) css)"
  using assms
proof (induction ms arbitrary: ssn css k)
  case (Cons m ms)
  obtain p ppi where m: "m = (p, ppi)" by fastforce
  obtain cs css' where css: "css = cs # css'" using Cons.prems(1) by (auto simp: m split: list.splits)
  have cs: "cs \<noteq> []" "bits_ok True cs" "written si (ssn + 1) ms css'"
      "list_all (\<lambda>c. pd_stream_identifier c = si \<and> \<not> pd_unordered c \<and>
        pd_stream_sequence_number c = ssn \<and> pd_payload_type c = ppi \<and> pd_user_data c \<noteq> []) cs"
    using Cons.prems(1) by (simp_all add: m css)
  let ?t = "c + of_nat k"
  let ?cs = "map (payload_data_view now) (assign_tsns ?t cs)"
  have len: "length cs \<le> 2 ^ 31" using Cons.prems(2) by (simp add: css)
  have fr: "fragments_of ?t ?cs" by (rule fragments_of_received [OF cs(1,2) len])
  have "pd_tsn (hd ?cs) = ?t" using cs(1) by (cases cs) simp_all
  moreover have "list_all (\<lambda>p. pd_stream_sequence_number p = ssn \<and> \<not> pd_unordered p \<and>
      in_window c (pd_tsn p) \<and> pd_payload_type p = ppi_of ssn) ?cs"
  proof -
    have "ppi_of ssn = ppi" using Cons.prems(3) [of 0] by (simp add: m)
    moreover have "in_window c (?t + of_nat i)" if "i < length cs" for i
    proof -
      have "k + i < 2 ^ 31" using that Cons.prems(2) by (simp add: css)
      moreover have "?t + of_nat i - c = of_nat (k + i)" by simp
      ultimately show ?thesis by (simp add: s32.window_unat unat_of_nat_less del: of_nat_add)
    qed
    ultimately show ?thesis
      using cs(4) by (auto simp: list_all_iff dest!: set_assign_tsns)
  qed
  moreover have "messages_from (ssn + 1) c ppi_of (received now (c + of_nat (k + length cs)) css')"
  proof (rule Cons.IH [OF cs(3)])
    show "k + length cs + length (concat css') \<le> 2 ^ 31" using Cons.prems(2) by (simp add: css)
    show "ppi_of (ssn + 1 + of_nat j) = snd (ms ! j)" if "j < length ms" for j
      using Cons.prems(3) [of "Suc j"] that by (simp add: add.assoc)
  qed
  ultimately show ?case using fr by (simp add: css algebra_simps)
qed simp

lemma distinct_assign_tsns:
  assumes "length cs \<le> 2 ^ 31"
  shows "distinct (map pd_tsn (assign_tsns t cs))"
proof -
  have "i = j" if "i < length cs" "j < length cs" "t + of_nat i = t + of_nat j" for i j
  proof -
    have "unat (of_nat i :: u32) = unat (of_nat j :: u32)" using that(3) by simp
    then show ?thesis using that(1,2) assms by (simp add: unat_of_nat_less)
  qed
  then show ?thesis by (auto simp: distinct_conv_nth assign_tsns_nth)
qed

lemma received_identifier:
  "p \<in> set (map (payload_data_view now) (assign_tsns t cs)) \<Longrightarrow>
    \<exists>c \<in> set cs. pd_stream_identifier p = pd_stream_identifier c"
  by (auto dest!: set_assign_tsns)

lemma stream_write_all_messages:
  assumes "writable (stream_new si max_payload) sh"
    and "pg_ordered_queue (sh_pending_queue sh) = []"
    and "list_all (\<lambda>(p, ppi). p \<noteq> [] \<and> length p \<le> unat (sh_max_message_size sh) \<and> length p \<le> buf_len) ms"
    and "length ms \<le> 2 ^ 15" and "length (concat (map fst ms)) \<le> 2 ^ 31"
  obtains css s' sh' ppi_of where
    "stream_write_all (stream_new si max_payload) sh now ms = Some (map (\<lambda>(p, ppi). Ok (length p)) ms, s', sh')"
    and "pg_ordered_queue (sh_pending_queue sh') = concat css" and "length css = length ms" and "length (concat css) \<le> 2 ^ 31"
    and "\<And>c. c \<in> set (concat css) \<Longrightarrow> pd_stream_identifier c = si"
    and "data_bytes (concat css) = length (concat (map fst ms))"
    and "messages_from 0 t ppi_of (received now' t css)"
    and "map (\<lambda>m. Ok (message_data m, pd_payload_type (hd m))) (received now' t css) = map Ok ms"
    and "\<And>m. m \<in> set (received now' t css) \<Longrightarrow> data_bytes m \<le> buf_len"
proof -
  let ?s = "stream_new si max_payload"
  have "list_all (\<lambda>(p, ppi). p \<noteq> [] \<and> length p \<le> unat (sh_max_message_size sh)) ms"
    using assms(3) by (auto simp: list_all_iff)
  from stream_write_all_Ok [OF assms(1) this, of now] obtain css s' sh' where
    w: "stream_write_all ?s sh now ms = Some (map (\<lambda>(p, ppi). Ok (length p)) ms, s', sh')"
      "written si 0 ms css" "sh_pending_queue sh' = pending_push_all (sh_pending_queue sh) (concat css)"
    by (auto simp: stream_new_def)
  let ?cs = "concat css"
  let ?rs = "received now' t css"
  have n: "length ?cs \<le> 2 ^ 31" "list_all (\<lambda>c. \<not> pd_unordered c \<and> pd_stream_identifier c = si) ?cs"
      "message_data ?cs = concat (map fst ms)"
    using written_bounds [OF w(2)] assms(5) by simp_all
  then have o': "pg_ordered_queue (sh_pending_queue sh') = ?cs"
    by (auto simp: w(3) pending_push_all_fields assms(2) filter_id_conv list_all_iff)
  define ppi_of where "ppi_of = (\<lambda>n :: u16. snd (ms ! unat n))"
  have "messages_from 0 t ppi_of (received now' (t + of_nat 0) css)"
    by (rule messages_from_received [OF w(2)])
      (use n(1) assms(4) in \<open>simp_all add: ppi_of_def unat_of_nat_less\<close>)
  then have mf: "messages_from 0 t ppi_of ?rs" by simp
  note rs = map_message_data_received [OF w(2), of now' t]
  have le: "data_bytes m \<le> buf_len" if m: "m \<in> set ?rs" for m
  proof -
    have "map fst ms = map message_data ?rs"
      using arg_cong [OF rs, of "map (\<lambda>r. case r of Ok (d, _) \<Rightarrow> d | _ \<Rightarrow> [])"]
      by (simp add: comp_def case_prod_beta)
    then have "message_data m \<in> set (map fst ms)" using m by simp
    then have "length (message_data m) \<le> buf_len" using assms(3) by (fastforce simp: list_all_iff)
    then show ?thesis by (simp add: length_message_data)
  qed
  have db: "data_bytes ?cs = length (concat (map fst ms))" by (simp add: length_message_data [symmetric] n(3))
  have id: "pd_stream_identifier c = si" if "c \<in> set ?cs" for c using n(2) that by (auto simp: list_all_iff)
  show thesis by (rule that [OF w(1) o' written_length [OF w(2)] n(1) id db mf rs le])
qed

text \<open>Messages written to an ordered stream are read by the peer, whole and in the order they
  were written, with their payload types, however the network reorders the DATA chunks: the
  writes put fragments on the pending queue, the association numbers them consecutively (from any
  TSN, also across the wrap), the peer decodes them in any order and pushes them into the
  stream's reassembly queue.\<close>

theorem write_read_roundtrip:
  assumes "writable (stream_new si max_payload) sh"
    and "pg_ordered_queue (sh_pending_queue sh) = []"
    and "list_all (\<lambda>(p, ppi). p \<noteq> [] \<and> length p \<le> unat (sh_max_message_size sh) \<and> length p \<le> buf_len) ms"
    and "length ms \<le> 2 ^ 15" and "length (concat (map fst ms)) \<le> 2 ^ 31"
  shows "\<exists>s' sh'. stream_write_all (stream_new si max_payload) sh now ms =
      Some (map (\<lambda>(p, ppi). Ok (length p)) ms, s', sh') \<and>
    (\<forall>ps. mset ps = mset (map (payload_data_view now') (assign_tsns t (pg_ordered_queue (sh_pending_queue sh')))) \<longrightarrow>
      fst (reassembly_reads (length ms) buf_len (reassembly_push_all (reassembly_queue_new si) ps)) = map Ok ms)"
proof -
  obtain css s' sh' ppi_of where
    w: "stream_write_all (stream_new si max_payload) sh now ms = Some (map (\<lambda>(p, ppi). Ok (length p)) ms, s', sh')"
      "pg_ordered_queue (sh_pending_queue sh') = concat css" "length css = length ms" "length (concat css) \<le> 2 ^ 31"
      "\<And>c. c \<in> set (concat css) \<Longrightarrow> pd_stream_identifier c = si"
      "data_bytes (concat css) = length (concat (map fst ms))" "messages_from 0 t ppi_of (received now' t css)"
      "map (\<lambda>m. Ok (message_data m, pd_payload_type (hd m))) (received now' t css) = map Ok ms"
      "\<And>m. m \<in> set (received now' t css) \<Longrightarrow> data_bytes m \<le> buf_len"
    by (rule stream_write_all_messages [OF assms, of now t now']) (rule that; assumption)
  let ?fs = "map (payload_data_view now') (assign_tsns t (concat css))"
  have "fst (reassembly_reads (length ms) buf_len (reassembly_push_all (reassembly_queue_new si) ps)) = map Ok ms"
    if ps: "mset ps = mset ?fs" for ps
  proof -
    have "distinct (map pd_tsn ?fs)" using distinct_assign_tsns [OF w(4), of t] by (simp add: comp_def)
    then have d: "distinct (map pd_tsn ps)" using ps by (metis mset_map mset_eq_imp_distinct_iff)
    have si: "list_all (\<lambda>p. pd_stream_identifier p = si) ps"
      unfolding list_all_iff mset_eq_setD [OF ps] using w(5) received_identifier by blast
    have "data_bytes ps = data_bytes ?fs" using ps by (metis data_bytes_def mset_map sum_mset_sum_list)
    also have "\<dots> = data_bytes (concat css)" by (simp add: length_message_data [symmetric])
    finally have "data_bytes ps < 2 ^ 64" using assms(5) w(6) by simp
    moreover have "list_all (\<lambda>m. data_bytes m \<le> buf_len) (received now' t css)" using w(9) by (simp add: list_all_iff)
    ultimately show ?thesis
      using deliver_messages [OF w(7) _ _ d si, of buf_len] ps assms(4) w(3,8) by (auto simp: concat_received)
  qed
  then show ?thesis using w(1) by (auto simp: w(2))
qed


theorem write_read_roundtrip_witness:
  "\<exists>s' sh'. stream_write_all (stream_new 7 2) example_shared 0 [([1, 2, 3], PPI_Binary), ([4], PPI_String)] =
      Some ([Ok 3, Ok 1], s', sh') \<and>
    fst (reassembly_reads 2 10 (reassembly_push_all (reassembly_queue_new 7)
      (rev (map (payload_data_view 5) (assign_tsns 4294967295 (pg_ordered_queue (sh_pending_queue sh'))))))) =
      [Ok ([1, 2, 3], PPI_Binary), Ok ([4], PPI_String)]"
proof -
  let ?ms = "[([1, 2, 3], PPI_Binary), ([4], PPI_String)] :: (bytes \<times> payload_protocol_identifier) list"
  have "writable (stream_new 7 2) example_shared" "pg_ordered_queue (sh_pending_queue example_shared) = []"
    by (simp_all add: writable_def stream_new_def example_shared_def get_state_def
        association_state_of_u8_def pending_queue_new_def)
  moreover have "list_all (\<lambda>(p, ppi). p \<noteq> [] \<and> length p \<le> unat (sh_max_message_size example_shared) \<and>
      length p \<le> 10) ?ms"
    by (simp add: example_shared_def)
  ultimately obtain s' sh' where w: "stream_write_all (stream_new 7 2) example_shared 0 ?ms =
      Some (map (\<lambda>(p, ppi). Ok (length p)) ?ms, s', sh')"
    and r: "\<forall>ps. mset ps = mset (map (payload_data_view 5) (assign_tsns 4294967295 (pg_ordered_queue (sh_pending_queue sh')))) \<longrightarrow>
      fst (reassembly_reads (length ?ms) 10 (reassembly_push_all (reassembly_queue_new 7) ps)) = map Ok ?ms"
    using write_read_roundtrip [of 7 2 example_shared 10 ?ms 0 5 4294967295] by auto
  have "length ?ms = 2" by simp
  with w r [rule_format, of "rev (map (payload_data_view 5) (assign_tsns 4294967295 (pg_ordered_queue (sh_pending_queue sh'))))"]
  show ?thesis
    by (intro exI [of _ s'] exI [of _ sh']) (simp add: eval_nat_numeral del: reassembly_reads.simps stream_write_all.simps)
qed

section \<open>What a write that sends nothing leaves behind\<close>

text \<open>A queue that holds only messages later than the one it waits for.\<close>

definition later_only :: "u16 \<Rightarrow> reassembly_queue \<Rightarrow> bool" where
  "later_only n q \<longleftrightarrow> rq_next_ssn q = n \<and> rq_unordered q = [] \<and>
     (\<forall>x \<in> set (rq_ordered q). in_window n (cs_ssn x) \<and> cs_ssn x \<noteq> n)"

lemma later_only_read:
  assumes "later_only n q"
  shows "reassembly_queue_read q buf_len = (Err ErrTryAgain, q)"
proof (cases "rq_ordered q")
  case Nil
  then show ?thesis using assms by (simp add: reassembly_queue_read_def later_only_def Let_def)
next
  case (Cons h os)
  then have h: "in_window n (cs_ssn h)" "cs_ssn h \<noteq> n" using assms by (simp_all add: later_only_def)
  then have "sna16gt (cs_ssn h) n" using s16.asym [OF s16.lt_base [OF h(1)]] s16.not_gt_iff by blast
  then show ?thesis
    using assms Cons by (simp add: reassembly_queue_read_def later_only_def Let_def)
qed

lemma push_into_existing_ssns:
  assumes "push_into_existing c ss = Some (ok, ss')"
  shows "cs_ssn ` set ss' = cs_ssn ` set ss"
proof -
  have "map cs_ssn ss' = map cs_ssn ss"
    using assms by (induction ss arbitrary: ss')
      (auto simp: chunk_set_push_def Let_def split: if_splits prod.splits option.splits)
  then show ?thesis by (metis image_set)
qed

lemma later_only_push:
  assumes "later_only n q" and "\<not> pd_unordered p"
    and "in_window n (pd_stream_sequence_number p)" and "pd_stream_sequence_number p \<noteq> n"
  shows "later_only n (snd (reassembly_queue_push q p))"
proof (cases "push_into_existing p (rq_ordered q)")
  case None
  obtain b c where "chunk_set_push (chunk_set_new (pd_stream_sequence_number p) (pd_payload_type p)) p = (b, c)"
    by fastforce
  moreover from this have "cs_ssn c = pd_stream_sequence_number p"
    by (auto simp: chunk_set_push_def chunk_set_new_def Let_def split: if_splits)
  ultimately show ?thesis
    using assms None
    by (auto simp: later_only_def reassembly_queue_push_def Let_def sort_chunks_by_ssn_def)
next
  case (Some r)
  obtain ok ss where r: "r = (ok, ss)" by fastforce
  then have ss: "cs_ssn ` set ss = cs_ssn ` set (rq_ordered q)"
    using Some push_into_existing_ssns by simp
  have "in_window n (cs_ssn x) \<and> cs_ssn x \<noteq> n" if "x \<in> set ss" for x
  proof -
    have "cs_ssn x \<in> cs_ssn ` set (rq_ordered q)" using that ss by blast
    then show ?thesis using assms(1) by (auto simp: later_only_def)
  qed
  then show ?thesis
    using assms Some by (auto simp: r later_only_def reassembly_queue_push_def)
qed

lemma later_only_push_all:
  assumes "later_only n q"
    and "\<forall>p \<in> set ps. \<not> pd_unordered p \<and> in_window n (pd_stream_sequence_number p) \<and> pd_stream_sequence_number p \<noteq> n"
  shows "later_only n (reassembly_push_all q ps)"
  using assms
  by (induction ps arbitrary: q) (auto simp: reassembly_push_all_def later_only_push)

lemma written_ssns:
  "written si ssn ms css \<Longrightarrow> c \<in> set (concat css) \<Longrightarrow>
    \<not> pd_unordered c \<and> (\<exists>k < length ms. pd_stream_sequence_number c = ssn + of_nat k)"
proof (induction ms arbitrary: ssn css)
  case (Cons m ms)
  obtain p ppi where m: "m = (p, ppi)" by fastforce
  obtain cs css' where css: "css = cs # css'" using Cons.prems(1) by (auto simp: m split: list.splits)
  show ?case
  proof (cases "c \<in> set cs")
    case True
    then show ?thesis using Cons.prems(1) by (auto simp: m css list_all_iff intro!: exI [of _ 0])
  next
    case False
    then obtain k where "\<not> pd_unordered c" "k < length ms" "pd_stream_sequence_number c = ssn + 1 + of_nat k"
      using Cons.IH [of "ssn + 1" css'] Cons.prems by (auto simp: m css)
    then show ?thesis by (intro conjI exI [of _ "Suc k"]) (simp_all add: algebra_simps)
  qed
qed simp

text \<open>C39: an empty message is accepted by an ordered stream (the write returns 0), puts nothing on
  the pending queue and still takes a stream sequence number, so the peer waits for a message
  that is never sent.  For up to 2^15 - 1 non-empty messages written after it: all of them are
  accepted, and when the peer, whose queue for the stream had nothing to read when the empty
  message was written, has received any of their chunks, in whatever order, with whatever TSNs and
  however often, a read finds nothing and leaves the queue as it is.\<close>

theorem empty_write_stalls_stream:
  assumes "writable s sh" and "queue_drained q" and "rq_next_ssn q = st_sequence_number s"
  shows "\<exists>s1 sh1. write_sctp s sh now [] ppi' = Some (Ok 0, s1, sh1) \<and>
    sh_pending_queue sh1 = sh_pending_queue sh \<and> st_sequence_number s1 = st_sequence_number s + 1 \<and>
    (\<forall>ms. length ms < 2 ^ 15 \<and>
        list_all (\<lambda>(p, ppi). p \<noteq> [] \<and> length p \<le> unat (sh_max_message_size sh)) ms \<longrightarrow>
      (\<exists>css s2 sh2. stream_write_all s1 sh1 now ms = Some (map (\<lambda>(p, ppi). Ok (length p)) ms, s2, sh2) \<and>
        sh_pending_queue sh2 = pending_push_all (sh_pending_queue sh) (concat css) \<and>
        map message_data css = map fst ms \<and>
        (\<forall>ps. (\<forall>p \<in> set ps. \<exists>c \<in> set (concat css). \<exists>t now'. p = payload_data_view now' (c\<lparr>pd_tsn := t\<rparr>)) \<longrightarrow>
          reassembly_queue_read (reassembly_push_all q ps) buf_len =
            (Err ErrTryAgain, reassembly_push_all q ps))))"
proof (rule write_sctp_Ok [OF assms(1), of "[]" now ppi'])
  fix cs s1 sh1
  let ?n = "st_sequence_number s"
  assume w: "write_sctp s sh now [] ppi' = Some (Ok (length ([] :: bytes)), s1, sh1)"
    "(cs = []) = (([] :: bytes) = [])" "sh_pending_queue sh1 = pending_push_all (sh_pending_queue sh) cs"
    "st_sequence_number s1 = ?n + 1" "writable s1 sh1" "sh_max_message_size sh1 = sh_max_message_size sh"
  then have pq: "sh_pending_queue sh1 = sh_pending_queue sh" by (simp add: pending_push_all_def)
  have "\<exists>css s2 sh2. stream_write_all s1 sh1 now ms = Some (map (\<lambda>(p, ppi). Ok (length p)) ms, s2, sh2) \<and>
      sh_pending_queue sh2 = pending_push_all (sh_pending_queue sh) (concat css) \<and>
      map message_data css = map fst ms \<and>
      (\<forall>ps. (\<forall>p \<in> set ps. \<exists>c \<in> set (concat css). \<exists>t now'. p = payload_data_view now' (c\<lparr>pd_tsn := t\<rparr>)) \<longrightarrow>
        reassembly_queue_read (reassembly_push_all q ps) buf_len = (Err ErrTryAgain, reassembly_push_all q ps))"
    if ms: "length ms < 2 ^ 15" "list_all (\<lambda>(p, ppi). p \<noteq> [] \<and> length p \<le> unat (sh_max_message_size sh)) ms" for ms
  proof -
    obtain css s2 sh2 where
      r: "stream_write_all s1 sh1 now ms = Some (map (\<lambda>(p, ppi). Ok (length p)) ms, s2, sh2)"
        "written (st_stream_identifier s1) (?n + 1) ms css"
        "sh_pending_queue sh2 = pending_push_all (sh_pending_queue sh1) (concat css)"
      using stream_write_all_Ok [OF w(5), of ms now] ms(2) w(4,6) by auto
    have later: "\<not> pd_unordered c \<and> in_window ?n (pd_stream_sequence_number c) \<and> pd_stream_sequence_number c \<noteq> ?n"
      if c: "c \<in> set (concat css)" for c
    proof -
      obtain k where k: "\<not> pd_unordered c" "k < length ms" "pd_stream_sequence_number c = ?n + 1 + of_nat k"
        using written_ssns [OF r(2) c] by blast
      then have "pd_stream_sequence_number c - ?n = of_nat (Suc k)" by simp
      moreover have "unat (of_nat (Suc k) :: u16) = Suc k" using k(2) ms(1) by (intro unat_of_nat_u16) simp
      ultimately have d: "unat (pd_stream_sequence_number c - ?n) = Suc k" by metis
      then have "pd_stream_sequence_number c \<noteq> ?n" by auto
      then show ?thesis using d k ms(1) by (simp add: s16.window_unat)
    qed
    have "later_only ?n q" using assms(2,3) by (simp add: later_only_def queue_drained_def)
    then have "reassembly_queue_read (reassembly_push_all q ps) buf_len = (Err ErrTryAgain, reassembly_push_all q ps)"
      if "\<forall>p \<in> set ps. \<exists>c \<in> set (concat css). \<exists>t now'. p = payload_data_view now' (c\<lparr>pd_tsn := t\<rparr>)" for ps
      by (rule later_only_read [OF later_only_push_all]) (use that later in fastforce)
    then show ?thesis
      using r(1,3) pq written_messages [OF r(2)]
      by (intro exI [of _ css] exI [of _ s2] exI [of _ sh2]) (simp del: set_concat)
  qed
  then show ?thesis using w(1,4) pq by (intro exI [of _ s1] exI [of _ sh1]) simp
qed simp

theorem empty_write_stalls_stream_witness:
  "\<exists>s1 sh1 css s2 sh2. write_sctp (stream_new 7 2) example_shared 0 [] PPI_Binary = Some (Ok 0, s1, sh1) \<and>
    stream_write_all s1 sh1 0 [([1, 2, 3], PPI_Binary), ([4], PPI_String)] = Some ([Ok 3, Ok 1], s2, sh2) \<and>
    map message_data css = [[1, 2, 3], [4]] \<and>
    fst (reassembly_queue_read (reassembly_push_all (reassembly_queue_new 7)
      (map (payload_data_view 5) (assign_tsns 9 (concat css)))) 10) = Err ErrTryAgain"
proof -
  let ?q = "reassembly_queue_new 7" 
  let ?ms = "[([1, 2, 3], PPI_Binary), ([4], PPI_String)] :: (bytes \<times> payload_protocol_identifier) list"
  have "writable (stream_new 7 2) example_shared" "rq_next_ssn ?q = st_sequence_number (stream_new 7 2)"
    "length ?ms < 2 ^ 15"
    "list_all (\<lambda>(p, ppi). p \<noteq> [] \<and> length p \<le> unat (sh_max_message_size example_shared)) ?ms"
    by (simp_all add: writable_def stream_new_def example_shared_def get_state_def
        association_state_of_u8_def reassembly_queue_new_def)
  then obtain s1 sh1 css s2 sh2 where
    w: "write_sctp (stream_new 7 2) example_shared 0 [] PPI_Binary = Some (Ok 0, s1, sh1)"
      "stream_write_all s1 sh1 0 ?ms = Some (map (\<lambda>(p, ppi). Ok (length p)) ?ms, s2, sh2)"
      "map message_data css = map fst ?ms"
    and r: "\<forall>ps. (\<forall>p \<in> set ps. \<exists>c \<in> set (concat css). \<exists>t now'. p = payload_data_view now' (c\<lparr>pd_tsn := t\<rparr>)) \<longrightarrow>
        reassembly_queue_read (reassembly_push_all ?q ps) 10 = (Err ErrTryAgain, reassembly_push_all ?q ps)"
    using empty_write_stalls_stream [OF _ queue_drained_new, of "stream_new 7 2" example_shared 7 0 PPI_Binary 10]
    by blast
  have "\<forall>p \<in> set (map (payload_data_view 5) (assign_tsns 9 (concat css))).
      \<exists>c \<in> set (concat css). \<exists>t now'. p = payload_data_view now' (c\<lparr>pd_tsn := t\<rparr>)"
    by (auto dest!: set_assign_tsns) blast
  then show ?thesis
    using w r by (intro exI [of _ s1] exI [of _ sh1] exI [of _ css] exI [of _ s2] exI [of _ sh2]) simp
qed


text \<open>A write before the association is established fails, but only after the message has been
  cut up: the stream sequence number it took and the bytes it added to the buffered amount stay,
  although nothing was put on the pending queue.\<close>

theorem write_before_established_leaks:
  assumes "get_state sh \<in> {Closed, CookieWait, CookieEchoed}" and "\<not> st_write_shutdown s"
    and "0 < unat (st_max_payload_size s)" and "\<not> st_unordered s"
    and "length p \<le> unat (sh_max_message_size sh)"
  shows "\<exists>s' sh'. write_sctp s sh now p ppi = Some (Err ErrPayloadDataStateNotExist, s', sh') \<and>
    st_sequence_number s' = st_sequence_number s + 1 \<and>
    st_buffered_amount s' = st_buffered_amount s + of_nat (length p) \<and>
    sh_pending_queue sh' = sh_pending_queue sh"
proof (rule packetize_Some [OF assms(3), of sh now p ppi])
  fix cs
  let ?sh = "snd (snd (new_cells sh))"
  assume "packetize s sh now p ppi =
      Some (cs, s\<lparr>st_sequence_number := (if ppi \<noteq> PPI_Dcep \<and> st_unordered s then st_sequence_number s
                                          else st_sequence_number s + 1),
                  st_buffered_amount := st_buffered_amount s + of_nat (length p)\<rparr>, ?sh)"
  moreover have "get_state ?sh = get_state sh" "sh_pending_queue ?sh = sh_pending_queue sh"
    by (simp_all add: get_state_def new_cells_def Let_def)
  ultimately show ?thesis
    using assms by (auto simp: write_sctp_def send_payload_data_def)
qed

theorem write_before_established_leaks_witness:
  "\<exists>s' sh'. write_sctp (stream_new 7 2) (example_shared\<lparr>sh_state := 1\<rparr>) 0 [1, 2, 3] PPI_Binary =
      Some (Err ErrPayloadDataStateNotExist, s', sh') \<and> st_sequence_number s' = 1 \<and> st_buffered_amount s' = 3"
  using write_before_established_leaks [of "example_shared\<lparr>sh_state := 1\<rparr>" "stream_new 7 2" "[1, 2, 3]" 0 PPI_Binary]
  by (auto simp: get_state_def association_state_of_u8_def stream_new_def example_shared_def)

section \<open>The buffered amount\<close>

text \<open>When acknowledged bytes are released, the buffered amount goes down by that many bytes and
  never below zero, and the callback is called exactly when the amount passes the threshold from
  above (it was above it and is now at most the threshold).\<close>

theorem on_buffer_released_spec:
  assumes "n < 2 ^ 63" and "on_buffer_released s n = (called, s')"
  shows "unat (st_buffered_amount s') = unat (st_buffered_amount s) - nat n \<and>
    (called \<longleftrightarrow> st_on_buffered_amount_low s \<and> st_buffered_amount_low s < st_buffered_amount s \<and>
       st_buffered_amount s' \<le> st_buffered_amount_low s) \<and>
    s'\<lparr>st_buffered_amount := st_buffered_amount s\<rparr> = s"
proof (cases "n \<le> 0")
  case True
  then show ?thesis using assms(2) by (auto simp: on_buffer_released_def)
next
  case False
  have "(of_int n :: usize) = of_nat (nat n)" using False by simp
  then have n: "unat (of_int n :: usize) = nat n" using assms(1) by (simp add: unat_of_nat_less)
  show ?thesis
  proof (cases "st_buffered_amount s < of_int n")
    case True
    then have "unat (st_buffered_amount s) < nat n" by (simp add: word_less_nat_alt n)
    then show ?thesis using assms(2) False True by (auto simp: on_buffer_released_def Let_def)
  next
    case ge: False
    then have "unat (st_buffered_amount s - of_int n) = unat (st_buffered_amount s) - nat n"
      using n by (simp add: unat_sub word_le_nat_alt not_less)
    then show ?thesis using assms(2) False ge by (auto simp: on_buffer_released_def Let_def)
  qed
qed

theorem on_buffer_released_spec_witness:
  "let s = (stream_new 7 2)\<lparr>st_buffered_amount := 10, st_buffered_amount_low := 4, st_on_buffered_amount_low := True\<rparr> in
   unat (st_buffered_amount (snd (on_buffer_released s 7))) = 3 \<and> fst (on_buffer_released s 7)"
  using on_buffer_released_spec [of 7 "(stream_new 7 2)\<lparr>st_buffered_amount := 10, st_buffered_amount_low := 4,
      st_on_buffered_amount_low := True\<rparr>", OF _ surjective_pairing]
  by (simp add: Let_def word_le_nat_alt stream_new_def)

section \<open>Closing\<close>

text \<open>Shutting both halves down on an established association puts exactly one empty chunk, the
  request to reset the stream, behind what is pending; a second call changes nothing; and no
  message can be written any more.\<close>

theorem shutdown_both:
  assumes "get_state sh = Established" and "\<not> (st_read_shutdown s \<and> st_write_shutdown s)"
    and "stream_shutdown s sh now Shutdown_Both = (r, s', sh')"
  shows "r = Ok () \<and> st_read_shutdown s' \<and> st_write_shutdown s' \<and>
    (\<exists>c. sh_pending_queue sh' = pending_queue_push (sh_pending_queue sh) c \<and> pd_user_data c = [] \<and>
       pd_stream_identifier c = st_stream_identifier s \<and> message_ok [c]) \<and>
    stream_shutdown s' sh' now' how = (Ok (), s', sh') \<and>
    write_sctp s' sh' now' p ppi = Some (Err ErrStreamClosed, s', sh')"
proof -
  obtain c sh1 where "send_reset_request sh now (st_stream_identifier s) = (Ok (), sh1)"
    and c: "sh_pending_queue sh1 = pending_queue_push (sh_pending_queue sh) c" "pd_user_data c = []"
      "pd_stream_identifier c = st_stream_identifier s" "message_ok [c]"
    using assms(1)
    by (auto simp: send_reset_request_def new_cells_def Let_def awake_write_loop_def message_ok_def
        payload_data_default_def)
  then have "r = Ok () \<and> st_read_shutdown s' \<and> st_write_shutdown s' \<and> sh' = sh1"
    using assms(2,3) by (auto simp: stream_shutdown_def Let_def split: if_splits)
  then show ?thesis using c by (auto simp: stream_shutdown_def write_sctp_def)
qed

theorem shutdown_both_witness:
  "case stream_shutdown (stream_new 7 2) example_shared 0 Shutdown_Both of
     (r, s', sh') \<Rightarrow> r = Ok () \<and> st_write_shutdown s' \<and>
       write_sctp s' sh' 1 [1] PPI_Binary = Some (Err ErrStreamClosed, s', sh')"
  using shutdown_both [of example_shared "stream_new 7 2" 0 "fst (stream_shutdown (stream_new 7 2) example_shared 0 Shutdown_Both)"
      "fst (snd (stream_shutdown (stream_new 7 2) example_shared 0 Shutdown_Both))"
      "snd (snd (stream_shutdown (stream_new 7 2) example_shared 0 Shutdown_Both))" 1 Shutdown_Read "[1]" PPI_Binary]
  by (simp add: case_prod_beta get_state_def association_state_of_u8_def example_shared_def stream_new_def)

section \<open>The reader and its wake-ups\<close>

text \<open>
  The loop of \<^verbatim>\<open>read_sctp\<close> interleaved with the tasks that change the stream: the reader tests
  \<^verbatim>\<open>read_shutdown\<close>, then reads under the queue's lock, then waits for a notification.  A
  chunk is pushed under the lock and the reader is notified in a later step.  The stream
  sequence numbers in the queue and the next one span less than half of their range when a
  chunk is pushed, so that the order of the queue does not depend on the sort's algorithm.
\<close>

definition ssn_span :: "reassembly_queue \<Rightarrow> u16 \<Rightarrow> bool" where
  "ssn_span q ssn \<longleftrightarrow> (\<exists>b. \<forall>x \<in> set (ssn # rq_next_ssn q # map cs_ssn (rq_ordered q)). in_window b x)"

datatype reader_phase =
  Reader_check | Reader_read | Reader_await | Reader_waiting
| Reader_done "(bytes \<times> payload_protocol_identifier) outcome"

record reader_system =
  ys_stream :: stream
  ys_phase :: reader_phase
  ys_notifications :: nat

definition reader_check :: "stream \<Rightarrow> reader_phase" where
  "reader_check s = (if st_read_shutdown s then Reader_done (Ok ([], PPI_Unknown)) else Reader_read)"

definition reader_read :: "nat \<Rightarrow> stream \<Rightarrow> reader_phase \<times> stream" where
  "reader_read buf_len s =
     (case reassembly_queue_read (st_reassembly_queue s) buf_len of
        (result, q) \<Rightarrow>
          (case result of
             Ok r \<Rightarrow> Reader_done (Ok r)
           | Err e \<Rightarrow> if e = ErrShortBuffer then Reader_done (Err ErrShortBuffer) else Reader_await
           | Panic \<Rightarrow> Reader_done Panic,
           s\<lparr>st_reassembly_queue := q\<rparr>))"

text \<open>\<^verbatim>\<open>notified().await\<close> takes the permit, if there is one, or registers the reader.\<close>

definition reader_await :: "stream \<Rightarrow> reader_phase \<times> stream" where
  "reader_await s =
     (if nt_permit (st_read_notifier s)
      then (Reader_check, s\<lparr>st_read_notifier := (st_read_notifier s)\<lparr>nt_permit := False\<rparr>\<rparr>)
      else (Reader_waiting, s\<lparr>st_read_notifier := (st_read_notifier s)\<lparr>nt_waiting := True\<rparr>\<rparr>))"

definition with_notification :: "bool \<times> stream \<Rightarrow> reader_system \<Rightarrow> reader_system" where
  "with_notification r y =
     y\<lparr>ys_stream := snd r, ys_notifications := ys_notifications y + (if fst r then 1 else 0)\<rparr>"

inductive reader_step :: "nat \<Rightarrow> reader_system \<Rightarrow> reader_system \<Rightarrow> bool" for buf_len where
  call: "ys_phase y = Reader_done r \<Longrightarrow> reader_step buf_len y (y\<lparr>ys_phase := Reader_check\<rparr>)"
| check: "ys_phase y = Reader_check \<Longrightarrow> reader_step buf_len y (y\<lparr>ys_phase := reader_check (ys_stream y)\<rparr>)"
| read: "ys_phase y = Reader_read \<Longrightarrow> reader_read buf_len (ys_stream y) = (p, s) \<Longrightarrow>
    reader_step buf_len y (y\<lparr>ys_phase := p, ys_stream := s\<rparr>)"
| await: "ys_phase y = Reader_await \<Longrightarrow> reader_await (ys_stream y) = (p, s) \<Longrightarrow>
    reader_step buf_len y (y\<lparr>ys_phase := p, ys_stream := s\<rparr>)"
| wake: "ys_phase y = Reader_waiting \<Longrightarrow> \<not> nt_waiting (st_read_notifier (ys_stream y)) \<Longrightarrow>
    reader_step buf_len y (y\<lparr>ys_phase := Reader_check\<rparr>)"
| data: "ssn_span (st_reassembly_queue (ys_stream y)) (pd_stream_sequence_number pd) \<Longrightarrow>
    reader_step buf_len y (with_notification (stream_push_data (ys_stream y) pd) y)"
| forward_ordered: "reader_step buf_len y (with_notification (stream_forward_ordered (ys_stream y) ssn) y)"
| forward_unordered: "reader_step buf_len y (with_notification (stream_forward_unordered (ys_stream y) tsn) y)"
| notify: "0 < ys_notifications y \<Longrightarrow>
    reader_step buf_len y (y\<lparr>ys_stream := stream_notify_one (ys_stream y), ys_notifications := ys_notifications y - 1\<rparr>)"
| shutdown: "stream_shutdown (ys_stream y) (sh :: shared) now how = (r, s, sh') \<Longrightarrow>
    reader_step buf_len y (y\<lparr>ys_stream := s\<rparr>)"
| reliability: "reader_step buf_len y (y\<lparr>ys_stream := set_reliability_params u t v (ys_stream y)\<rparr>)"

inductive reader_reachable :: "nat \<Rightarrow> reader_system \<Rightarrow> bool" for buf_len where
  new: "reader_reachable buf_len \<lparr>ys_stream = stream_new si mps, ys_phase = Reader_check, ys_notifications = 0\<rparr>"
| step: "reader_reachable buf_len y \<Longrightarrow> reader_step buf_len y y' \<Longrightarrow> reader_reachable buf_len y'"

text \<open>The reader will test the queue again without a further event.\<close>

definition wakeup_pending :: "reader_system \<Rightarrow> bool" where
  "wakeup_pending y \<longleftrightarrow>
     (case ys_phase y of
        Reader_await \<Rightarrow> 0 < ys_notifications y \<or> nt_permit (st_read_notifier (ys_stream y))
      | Reader_waiting \<Rightarrow> 0 < ys_notifications y \<or> \<not> nt_waiting (st_read_notifier (ys_stream y))
      | _ \<Rightarrow> True)"

definition readable :: "stream \<Rightarrow> bool" where
  "readable s \<longleftrightarrow> reassembly_queue_is_readable (st_reassembly_queue s)"


definition ssn_ok :: "reassembly_queue \<Rightarrow> bool" where
  "ssn_ok q \<longleftrightarrow> distinct (map cs_ssn (rq_ordered q)) \<and>
     sorted_wrt (\<lambda>a b. \<not> sna16lt b a) (map cs_ssn (rq_ordered q))"

lemma chunk_set_push_False:
  "chunk_set_push s c = (ok, s') \<Longrightarrow> cs_ssn s' = cs_ssn s \<and> (\<not> ok \<longrightarrow> s' = s \<or> \<not> chunk_set_is_complete s')"
  by (auto simp: chunk_set_push_def Let_def split: if_splits)

lemma push_into_existing_False:
  "push_into_existing c ss = Some (ok, ss') \<Longrightarrow> map cs_ssn ss' = map cs_ssn ss \<and> ss \<noteq> [] \<and>
    (\<not> ok \<longrightarrow> hd ss' = hd ss \<or> \<not> chunk_set_is_complete (hd ss'))"
  by (induction ss arbitrary: ss')
    (auto split: if_splits prod.splits option.splits dest!: chunk_set_push_False)

lemma readable_head:
  "reassembly_queue_is_readable q \<longleftrightarrow> rq_unordered q \<noteq> [] \<or>
    (rq_ordered q \<noteq> [] \<and> chunk_set_is_complete (hd (rq_ordered q)) \<and>
     sna16lte (cs_ssn (hd (rq_ordered q))) (rq_next_ssn q))"
  by (cases "rq_ordered q") (auto simp: reassembly_queue_is_readable_def Let_def)

lemma window_not_lt: "in_window b x \<Longrightarrow> in_window b y \<Longrightarrow> \<not> sna16lt y x \<longleftrightarrow> x - b \<le> y - b"
  using s16.window_lt [of b y x] by (simp add: not_less)

lemma sort_chunks_by_ssn_head:
  assumes "ssn_ok q" and "ssn_span q (cs_ssn n)" and "cs_ssn n \<notin> set (map cs_ssn (rq_ordered q))"
  shows "ssn_ok (q\<lparr>rq_ordered := sort_chunks_by_ssn (rq_ordered q @ [n])\<rparr>) \<and>
    (hd (sort_chunks_by_ssn (rq_ordered q @ [n])) = n \<or>
     rq_ordered q \<noteq> [] \<and> hd (sort_chunks_by_ssn (rq_ordered q @ [n])) = hd (rq_ordered q))"
proof -
  let ?os = "rq_ordered q" and ?ns = "sort_chunks_by_ssn (rq_ordered q @ [n])"
  obtain b where b: "in_window b (cs_ssn n)" "\<forall>s \<in> set ?os. in_window b (cs_ssn s)"
    using assms(2) by (auto simp: ssn_span_def)
  have set: "set ?ns = insert n (set ?os)" by (simp add: sort_chunks_by_ssn_def)
  have sorted: "sorted (map (\<lambda>s. cs_ssn s - b) ?ns)"
    unfolding sort_chunks_by_ssn_def
    by (rule sorted_sort_by) (rule s16.window_lt; use b in auto)
  have d: "distinct (map cs_ssn ?ns)"
  proof -
    have "distinct (map cs_ssn (?os @ [n]))" using assms(1,3) by (simp add: ssn_ok_def)
    then show ?thesis by (metis mset_map mset_sort_by mset_eq_imp_distinct_iff sort_chunks_by_ssn_def)
  qed
  have "sorted_wrt (\<lambda>s u. \<not> sna16lt (cs_ssn u) (cs_ssn s)) ?ns"
    using sorted unfolding sorted_map
    by (rule sorted_wrt_mono_rel [rotated]) (subst window_not_lt [of b]; use b set in auto)
  then have ok: "ssn_ok (q\<lparr>rq_ordered := ?ns\<rparr>)" using d by (simp add: ssn_ok_def sorted_wrt_map)
  obtain h hs where h: "?ns = h # hs" using set by (cases ?ns) auto
  have "h = hd ?os \<and> ?os \<noteq> []" if "h \<noteq> n"
  proof -
    have in_os: "h \<in> set ?os" using that set h by auto
    then obtain o1 os1 where os: "?os = o1 # os1" by (cases ?os) auto
    have "cs_ssn o1 - b \<le> cs_ssn h - b"
      using assms(1) in_os b by (auto simp: os ssn_ok_def window_not_lt)
    moreover have "o1 \<in> set (h # hs)" using set [unfolded h] by (simp add: os)
    then have "cs_ssn h - b \<le> cs_ssn o1 - b" using sorted [unfolded h] by auto
    ultimately have "cs_ssn h = cs_ssn o1" by simp
    then show ?thesis using assms(1) in_os by (auto simp: os ssn_ok_def) (metis image_eqI)
  qed
  then show ?thesis using ok h by auto
qed

text \<open>A push that does not complete a message does not make the queue readable.\<close>

lemma push_readable:
  assumes "ssn_ok q" and "ssn_span q (pd_stream_sequence_number p)"
    and "reassembly_queue_push q p = (ok, q')"
  shows "ssn_ok q' \<and> (reassembly_queue_is_readable q' \<longrightarrow> ok \<or> reassembly_queue_is_readable q)"
proof -
  consider (same) "q' = q"
    | (unordered) "pd_unordered p" "\<not> pd_stream_identifier p \<noteq> rq_si q"
    | (ordered) "\<not> pd_unordered p" "pd_stream_identifier p = rq_si q"
      "\<not> sna16lt (pd_stream_sequence_number p) (rq_next_ssn q)"
    using assms(3) by (auto simp: reassembly_queue_push_def split: if_splits)
  then show ?thesis
  proof cases
    case same
    then show ?thesis using assms(1) by simp
  next
    case unordered
    then show ?thesis using assms(1,3)
      by (auto simp: reassembly_queue_push_def find_complete_unordered_chunk_set_def Let_def ssn_ok_def
          readable_head split: option.splits prod.splits)
  next
    case ordered
    show ?thesis
    proof (cases "push_into_existing p (rq_ordered q)")
      case (Some r)
      then show ?thesis
        using assms(1,3) ordered
        by (cases r) (auto simp: reassembly_queue_push_def ssn_ok_def readable_head
            dest!: push_into_existing_False; metis hd_map map_is_Nil_conv)
    next
      case None
      let ?s0 = "chunk_set_new (pd_stream_sequence_number p) (pd_payload_type p)"
      obtain b n where n: "chunk_set_push ?s0 p = (b, n)" by fastforce
      have ssn: "cs_ssn n = pd_stream_sequence_number p" and nc: "\<not> b \<longrightarrow> \<not> chunk_set_is_complete n"
        using n by (auto simp: chunk_set_push_def chunk_set_new_def Let_def)
      have "pd_stream_sequence_number p \<notin> set (map cs_ssn (rq_ordered q))"
        using None by (auto simp: push_into_existing_None)
      then have h: "ssn_ok (q\<lparr>rq_ordered := sort_chunks_by_ssn (rq_ordered q @ [n])\<rparr>) \<and>
          (hd (sort_chunks_by_ssn (rq_ordered q @ [n])) = n \<or>
           rq_ordered q \<noteq> [] \<and> hd (sort_chunks_by_ssn (rq_ordered q @ [n])) = hd (rq_ordered q))"
        using sort_chunks_by_ssn_head [of q n] assms(1,2) by (simp add: ssn)
      have "ok = b \<and> rq_ordered q' = sort_chunks_by_ssn (rq_ordered q @ [n]) \<and>
          rq_unordered q' = rq_unordered q \<and> rq_next_ssn q' = rq_next_ssn q"
        using assms(3) ordered None n by (auto simp: reassembly_queue_push_def Let_def)
      then show ?thesis using h nc by (auto simp: ssn_ok_def readable_head)
    qed
  qed
qed


lemma subtract_num_bytes_fields [simp]:
  "rq_ordered (subtract_num_bytes n q) = rq_ordered q"
  "rq_unordered (subtract_num_bytes n q) = rq_unordered q"
  "rq_next_ssn (subtract_num_bytes n q) = rq_next_ssn q"
  by (simp_all add: subtract_num_bytes_def)

lemma ssn_ok_ordered: "rq_ordered q' = rq_ordered q \<Longrightarrow> ssn_ok q' = ssn_ok q"
  by (simp add: ssn_ok_def)

lemma ssn_ok_forward_ordered: "ssn_ok q \<Longrightarrow> ssn_ok (reassembly_queue_forward_tsn_for_ordered q ssn)"
  by (auto simp: ssn_ok_def reassembly_queue_forward_tsn_for_ordered_def Let_def distinct_map_filter
      sorted_wrt_map intro: sorted_wrt_filter)

lemma ssn_ok_forward_unordered: "ssn_ok q \<Longrightarrow> ssn_ok (reassembly_queue_forward_tsn_for_unordered q tsn)"
proof -
  have "rq_ordered (foldl (\<lambda>q c. subtract_num_bytes (of_nat (length (pd_user_data c))) q) q cs) = rq_ordered q" for cs :: "payload_data list"
    by (induction cs arbitrary: q) simp_all
  then show "ssn_ok q \<Longrightarrow> ssn_ok (reassembly_queue_forward_tsn_for_unordered q tsn)"
    by (simp add: ssn_ok_def reassembly_queue_forward_tsn_for_unordered_def Let_def)
qed

lemma copy_fragments_ordered:
  "copy_fragments n cs w b q = (w', b', q') \<Longrightarrow> rq_ordered q' = rq_ordered q"
  by (induction n cs w b q rule: copy_fragments.induct) (auto simp: Let_def split: if_splits)

lemma ssn_ok_read: "ssn_ok q \<Longrightarrow> reassembly_queue_read q n = (r, q') \<Longrightarrow> ssn_ok q'"
  by (cases "rq_ordered q")
    (auto simp: reassembly_queue_read_def Let_def ssn_ok_def split: if_splits prod.splits
      dest!: copy_fragments_ordered)

text \<open>A read that has to wait leaves the queue as it is, and the queue is not readable.\<close>

lemma read_waits:
  assumes "reader_read n s = (Reader_await, s')"
  shows "s' = s \<and> \<not> readable s"
proof -
  obtain e q where r: "reassembly_queue_read (st_reassembly_queue s) n = (Err e, q)" "e \<noteq> ErrShortBuffer"
      "s' = s\<lparr>st_reassembly_queue := q\<rparr>"
    using assms by (auto simp: reader_read_def split: prod.splits outcome.splits if_splits)
  then show ?thesis
    by (cases "rq_ordered (st_reassembly_queue s)")
      (auto simp: readable_def reassembly_queue_read_def reassembly_queue_is_readable_def Let_def
        sna16lte_def s16.gt_iff s16.lt_iff split: if_splits prod.splits)
qed

definition reader_inv :: "reader_system \<Rightarrow> bool" where
  "reader_inv y \<longleftrightarrow> ssn_ok (st_reassembly_queue (ys_stream y)) \<and>
     (nt_waiting (st_read_notifier (ys_stream y)) \<longrightarrow>
       ys_phase y = Reader_waiting \<and> \<not> nt_permit (st_read_notifier (ys_stream y))) \<and>
     (readable (ys_stream y) \<longrightarrow> wakeup_pending y)"

lemma reader_inv_event:
  assumes "reader_inv y" and "st_read_notifier s = st_read_notifier (ys_stream y)"
    and "ssn_ok (st_reassembly_queue s)" and "readable s \<longrightarrow> r \<or> readable (ys_stream y)"
  shows "reader_inv (with_notification (r, s) y)"
  using assms by (auto simp: reader_inv_def with_notification_def wakeup_pending_def split: reader_phase.splits)

lemma reader_inv_step:
  assumes "reader_inv y" and "reader_step n y y'"
  shows "reader_inv y'"
  using assms(2)
proof (cases rule: reader_step.cases)
  case (read p s)
  then obtain q where s: "s = (ys_stream y)\<lparr>st_reassembly_queue := q\<rparr>" "ssn_ok q"
    using assms(1) ssn_ok_read by (auto simp: reader_read_def reader_inv_def split: prod.splits)
  have "readable s \<longrightarrow> p \<noteq> Reader_await" using read(3) read_waits by blast
  moreover have "p \<noteq> Reader_waiting" using read(3) by (auto simp: reader_read_def split: prod.splits outcome.splits if_splits)
  ultimately show ?thesis
    using assms(1) read s by (auto simp: reader_inv_def wakeup_pending_def split: reader_phase.splits)
next
  case (await p s)
  then show ?thesis
    using assms(1)
    by (auto simp: reader_inv_def reader_await_def wakeup_pending_def readable_def split: if_splits)
next
  case (data pd)
  obtain ok q where q: "reassembly_queue_push (st_reassembly_queue (ys_stream y)) pd = (ok, q)" by fastforce
  have "ssn_ok q \<and> (reassembly_queue_is_readable q \<longrightarrow> ok \<or> readable (ys_stream y))"
    using push_readable [OF _ data(2) q] assms(1) by (simp add: reader_inv_def readable_def)
  then show ?thesis
    unfolding data(1) stream_push_data_def q
    by (auto intro!: reader_inv_event [OF assms(1)] simp: readable_def)
next
  case (forward_ordered ssn)
  then show ?thesis
    using assms(1) ssn_ok_forward_ordered
    by (auto simp: stream_forward_ordered_def Let_def readable_def reader_inv_def [of y]
        intro!: reader_inv_event [OF assms(1)])
next
  case (forward_unordered tsn)
  then show ?thesis
    using assms(1) ssn_ok_forward_unordered
    by (auto simp: stream_forward_unordered_def Let_def readable_def reader_inv_def [of y]
        intro!: reader_inv_event [OF assms(1)])
next
  case (shutdown sh now how r s sh')
  then have "st_reassembly_queue s = st_reassembly_queue (ys_stream y) \<and>
      st_read_notifier s \<in> {st_read_notifier (ys_stream y), notify_waiters (st_read_notifier (ys_stream y))}"
    by (auto simp: stream_shutdown_def Let_def split: if_splits prod.splits)
  then show ?thesis
    using assms(1) shutdown(1)
    by (auto simp: reader_inv_def readable_def wakeup_pending_def notify_waiters_def split: reader_phase.splits)
qed (use assms(1) in \<open>auto simp: reader_inv_def wakeup_pending_def reader_check_def readable_def
    stream_notify_one_def notify_one_def set_reliability_params_def split: reader_phase.splits if_splits\<close>)

lemma reader_inv_reachable: "reader_reachable n y \<Longrightarrow> reader_inv y"
proof (induction rule: reader_reachable.induct)
  case (new si mps)
  then show ?case
    by (simp add: reader_inv_def stream_new_def ssn_ok_def reassembly_queue_new_def wakeup_pending_def)
next
  case (step y y')
  then show ?case using reader_inv_step by blast
qed

text \<open>C22: however the loop of a stream's one reader is interleaved with the arrival of chunks, forwarded
  TSNs and notifications, the reader never sleeps while a message can be read: when the queue is
  readable, the reader is about to test it, has been woken, or a notification is on its way.  This
  is for peers whose stream sequence numbers stay together: when a chunk is pushed, its number, the
  next one to read and those in the queue lie in one window of half the range (the hypothesis
  \<open>ssn_span\<close> of the step \<open>data\<close>; the order of the queue is not defined otherwise).\<close>

theorem no_lost_wakeup:
  assumes "reader_reachable buf_len y" and "readable (ys_stream y)"
  shows "wakeup_pending y"
  using reader_inv_reachable [OF assms(1)] assms(2) by (simp add: reader_inv_def)

definition example_reader :: reader_system where
  "example_reader = \<lparr>ys_stream = stream_new 7 1200, ys_phase = Reader_check, ys_notifications = 0\<rparr>"

theorem no_lost_wakeup_witness:
  "readable (ys_stream (with_notification (stream_push_data (ys_stream example_reader)
      (example_ordered True True 0 0 9)) example_reader)) \<and>
   wakeup_pending (with_notification (stream_push_data (ys_stream example_reader)
      (example_ordered True True 0 0 9)) example_reader)"
proof -
  let ?y = "with_notification (stream_push_data (ys_stream example_reader)
      (example_ordered True True 0 0 9)) example_reader"
  have "reader_reachable 10 example_reader"
    unfolding example_reader_def by (rule reader_reachable.new)
  moreover have "reader_step 10 example_reader ?y"
    by (rule reader_step.data)
      (auto simp: ssn_span_def example_reader_def stream_new_def reassembly_queue_new_def
        s16.window_unat intro!: exI [of _ 0])
  ultimately have "reader_reachable 10 ?y" by (rule reader_reachable.step)
  moreover have "readable (ys_stream ?y)"
    by (simp add: readable_def with_notification_def stream_push_data_def example_reader_def
        stream_new_def reassembly_queue_new_def reassembly_queue_push_def chunk_set_new_def
        chunk_set_push_def sort_chunks_by_tsn_def sort_chunks_by_ssn_def sort_by_def
        reassembly_queue_is_readable_def chunk_set_is_complete_def sna16lt_def sna16lte_def Let_def)
  ultimately show ?thesis using no_lost_wakeup by blast
qed

text \<open>Shutting the read half down can be missed: when it happens after the reader has tested
  \<^verbatim>\<open>read_shutdown\<close> and before it is registered with the notifier, \<^verbatim>\<open>notify_waiters\<close> wakes
  nobody and stores no permit, and the reader sleeps on a stream that is shut down.\<close>

theorem shutdown_lost_wakeup:
  "\<exists>y. reader_reachable buf_len y \<and> st_read_shutdown (ys_stream y) \<and>
    ys_phase y = Reader_waiting \<and> \<not> wakeup_pending y"
proof -
  let ?s0 = "stream_new 7 1200"
  let ?y = "\<lambda>s p. \<lparr>ys_stream = s, ys_phase = p, ys_notifications = 0\<rparr>"
  let ?s1 = "?s0\<lparr>st_read_shutdown := True\<rparr>"
  let ?s2 = "?s1\<lparr>st_read_notifier := \<lparr>nt_permit = False, nt_waiting = True\<rparr>\<rparr>"
  have "reader_reachable buf_len (?y ?s0 Reader_check)" by (rule reader_reachable.new)
  moreover have "reader_step buf_len (?y ?s0 Reader_check) (?y ?s0 Reader_read)"
    using reader_step.check [of "?y ?s0 Reader_check" buf_len] by (simp add: reader_check_def stream_new_def)
  moreover have "reader_step buf_len (?y ?s0 Reader_read) (?y ?s0 Reader_await)"
    using reader_step.read [of "?y ?s0 Reader_read" buf_len Reader_await ?s0]
    by (simp add: reader_read_def stream_new_def reassembly_queue_new_def reassembly_queue_read_def Let_def)
  moreover have "reader_step buf_len (?y ?s0 Reader_await) (?y ?s1 Reader_await)"
    using reader_step.shutdown [of "?y ?s0 Reader_await" example_shared 0 Shutdown_Read "Ok ()" ?s1 example_shared buf_len]
    by (simp add: stream_shutdown_def stream_new_def notify_waiters_def Let_def)
  moreover have "reader_step buf_len (?y ?s1 Reader_await) (?y ?s2 Reader_waiting)"
    using reader_step.await [of "?y ?s1 Reader_await" Reader_waiting ?s2 buf_len]
    by (simp add: reader_await_def stream_new_def)
  ultimately have "reader_reachable buf_len (?y ?s2 Reader_waiting)" by (meson reader_reachable.step)
  then show ?thesis
    by (intro exI [of _ "?y ?s2 Reader_waiting"]) (simp add: wakeup_pending_def)
qed

end
