(* ===== verification/Timers.thy ===== *)
theory Timers
  imports Prelude Complex_Main
begin

text \<open>
  src/src/timer: the retransmission timeout (\<^verbatim>\<open>RtoManager\<close>), the retransmission timer
  (\<^verbatim>\<open>RtxTimer\<close>) and the timer of delayed acknowledgements (\<^verbatim>\<open>AckTimer\<close>).

  The manager computes its variance in \<^verbatim>\<open>f64\<close>.  The model keeps it as a real and rounds the
  result of every operation with a function \<open>rnd\<close>, the rounding of the floating-point unit,
  which is a parameter: the theorems hold for every \<open>rnd\<close>.  A timer is a task that sleeps; the
  tasks of a timer are part of its state, and what they do is a step relation that interleaves
  them with \<open>start\<close> and \<open>stop\<close>.
\<close>

section \<open>The retransmission timeout\<close>

definition RTO_INITIAL :: u64 where "RTO_INITIAL = 3000"
definition RTO_MIN :: u64 where "RTO_MIN = 1000"
definition RTO_MAX :: u64 where "RTO_MAX = 60000"
definition RTO_ALPHA :: u64 where "RTO_ALPHA = 1"
definition RTO_BETA :: u64 where "RTO_BETA = 2"
definition RTO_BASE :: u64 where "RTO_BASE = 8"
definition MAX_INIT_RETRANS :: usize where "MAX_INIT_RETRANS = 8"
definition NO_MAX_RETRANS :: usize where "NO_MAX_RETRANS = 0"

lemmas rto_consts = RTO_INITIAL_def RTO_MIN_def RTO_MAX_def RTO_ALPHA_def RTO_BETA_def RTO_BASE_def

record rto_manager =
  rm_srtt :: u64
  rm_rttvar :: real
  rm_rto :: u64
  rm_no_update :: bool

definition rto_manager_new :: rto_manager where
  "rto_manager_new = \<lparr>rm_srtt = 0, rm_rttvar = 0, rm_rto = RTO_INITIAL, rm_no_update = False\<rparr>"

text \<open>
  The casts: an unsigned or a signed integer to \<^verbatim>\<open>f64\<close>, and \<^verbatim>\<open>f64\<close> to \<^verbatim>\<open>u64\<close>, which truncates
  and saturates; \<^verbatim>\<open>abs\<close> of an \<^verbatim>\<open>i64\<close> leaves the least integer as it is.
\<close>

definition u64_to_f64 :: "(real \<Rightarrow> real) \<Rightarrow> u64 \<Rightarrow> real" where
  "u64_to_f64 rnd w = rnd (real (unat w))"

definition i64_to_f64 :: "(real \<Rightarrow> real) \<Rightarrow> u64 \<Rightarrow> real" where
  "i64_to_f64 rnd w = rnd (real_of_int (sint w))"

definition f64_to_u64 :: "real \<Rightarrow> u64" where
  "f64_to_u64 x =
     (if x \<le> 0 then 0 else if x \<ge> 2 ^ 64 then - 1 else of_nat (nat \<lfloor>x\<rfloor>))"

definition i64_abs :: "u64 \<Rightarrow> u64" where
  "i64_abs w = (if sint w < 0 then - w else w)"

definition rto_manager_set_new_rtt :: "(real \<Rightarrow> real) \<Rightarrow> rto_manager \<Rightarrow> u64 \<Rightarrow> u64 \<times> rto_manager" where
  "rto_manager_set_new_rtt rnd m rtt =
     (if rm_no_update m then (rm_srtt m, m)
      else
        let m =
          (if rm_srtt m = 0 then
             m\<lparr>rm_srtt := rtt, rm_rttvar := rnd (u64_to_f64 rnd rtt / 2)\<rparr>
           else
             m\<lparr>rm_rttvar :=
                  rnd (rnd (rnd (u64_to_f64 rnd (RTO_BASE - RTO_BETA) * rm_rttvar m)
                        + rnd (u64_to_f64 rnd RTO_BETA * i64_to_f64 rnd (i64_abs (rm_srtt m - rtt))))
                       / u64_to_f64 rnd RTO_BASE),
               rm_srtt := ((RTO_BASE - RTO_ALPHA) * rm_srtt m + RTO_ALPHA * rtt) div RTO_BASE\<rparr>);
          m = m\<lparr>rm_rto := min (max (rm_srtt m + f64_to_u64 (rnd (4 * rm_rttvar m))) RTO_MIN) RTO_MAX\<rparr> in
        (rm_srtt m, m))"

definition rto_manager_get_rto :: "rto_manager \<Rightarrow> u64" where
  "rto_manager_get_rto m = rm_rto m"

definition rto_manager_reset :: "rto_manager \<Rightarrow> rto_manager" where
  "rto_manager_reset m =
     (if rm_no_update m then m
      else m\<lparr>rm_srtt := 0, rm_rttvar := 0, rm_rto := RTO_INITIAL\<rparr>)"

definition rto_manager_set_rto :: "rto_manager \<Rightarrow> u64 \<Rightarrow> bool \<Rightarrow> rto_manager" where
  "rto_manager_set_rto m rto no_update = m\<lparr>rm_rto := rto, rm_no_update := no_update\<rparr>"

definition calculate_next_timeout :: "u64 \<Rightarrow> usize \<Rightarrow> u64" where
  "calculate_next_timeout rto n_rtos =
     (if n_rtos < 31 then min (push_bit (unat n_rtos) rto) RTO_MAX else RTO_MAX)"

text \<open>The managers a program gets from \<open>new\<close> with the operations that are not for tests.\<close>

definition rto_in_range :: "rto_manager \<Rightarrow> bool" where
  "rto_in_range m \<longleftrightarrow> RTO_MIN \<le> rto_manager_get_rto m \<and> rto_manager_get_rto m \<le> RTO_MAX"

definition rto_manager_run :: "(real \<Rightarrow> real) \<Rightarrow> u64 list \<Rightarrow> rto_manager" where
  "rto_manager_run rnd rtts = foldl (\<lambda>m rtt. snd (rto_manager_set_new_rtt rnd m rtt)) rto_manager_new rtts"

lemma rto_in_range_set_new_rtt:
  "rto_in_range m \<Longrightarrow> rto_in_range (snd (rto_manager_set_new_rtt rnd m rtt))"
  by (simp add: rto_in_range_def rto_manager_set_new_rtt_def rto_manager_get_rto_def Let_def)
    (simp add: rto_consts)

lemma rto_in_range_new: "rto_in_range rto_manager_new"
  by (simp add: rto_in_range_def rto_manager_new_def rto_manager_get_rto_def rto_consts)

lemma rto_in_range_reset: "rto_in_range m \<Longrightarrow> rto_in_range (rto_manager_reset m)"
  by (simp add: rto_in_range_def rto_manager_reset_def rto_manager_get_rto_def rto_consts)

text \<open>C28: whatever round-trip times are measured, and however the floating-point unit rounds,
  the retransmission timeout stays between one second and one minute.\<close>

theorem rto_stays_in_range: "rto_in_range (rto_manager_run rnd rtts)"
proof -
  have "rto_in_range m \<Longrightarrow>
      rto_in_range (foldl (\<lambda>m rtt. snd (rto_manager_set_new_rtt rnd m rtt)) m rtts)" for m
    by (induction rtts arbitrary: m) (simp_all add: rto_in_range_set_new_rtt)
  then show ?thesis by (simp add: rto_manager_run_def rto_in_range_new)
qed

text \<open>The timer backs off exponentially: the interval before the \<open>n\<close>-th expiry is the timeout
  doubled \<open>n\<close> times and capped at one minute, with no overflow in the shift.\<close>

theorem calculate_next_timeout_backoff:
  assumes "rto \<le> RTO_MAX" and "RTO_MIN \<le> rto"
  shows "unat (calculate_next_timeout rto n) = min (unat rto * 2 ^ unat n) 60000"
proof (cases "n < 31")
  case True
  have r: "unat rto \<le> 60000" using assms by (simp add: RTO_MAX_def word_le_nat_alt)
  have n: "unat n < 31" using True by (simp add: word_less_nat_alt)
  have "(2::nat) ^ unat n \<le> 2 ^ 30" using n by (intro power_increasing) auto
  then have "unat rto * 2 ^ unat n \<le> 60000 * 2 ^ 30" using r by (intro mult_le_mono)
  then have "unat rto * 2 ^ unat n < 2 ^ 64" by simp
  then have "unat (push_bit (unat n) rto) = unat rto * 2 ^ unat n"
    by (subst unsigned_push_bit_eq) (simp add: take_bit_eq_mod push_bit_eq_mult)
  then show ?thesis
    using True by (simp add: calculate_next_timeout_def RTO_MAX_def min_def word_le_nat_alt)
next
  case False
  have "31 \<le> unat n" using False by (simp add: word_less_nat_alt not_less)
  then have "(2::nat) ^ 31 \<le> 2 ^ unat n" by (intro power_increasing) auto
  moreover have "1000 \<le> unat rto" using assms by (simp add: RTO_MIN_def word_le_nat_alt)
  ultimately have "(1000::nat) * 2 ^ 31 \<le> unat rto * 2 ^ unat n" by (intro mult_le_mono)
  then show ?thesis using False by (simp add: calculate_next_timeout_def RTO_MAX_def)
qed

theorem calculate_next_timeout_backoff_witness:
  "unat (calculate_next_timeout 3000 3) = 24000 \<and> unat (calculate_next_timeout 3000 40) = 60000"
  using calculate_next_timeout_backoff [of 3000 3] calculate_next_timeout_backoff [of 3000 40]
  by (simp add: RTO_MAX_def RTO_MIN_def)

section \<open>The retransmission timer\<close>

text \<open>
  A task of the timer: it sleeps for the interval, or its sleep is over and it is waiting for
  the observer's lock, or it has reported the failure and is about to clear \<^verbatim>\<open>close_tx\<close>.  The
  channel a task listens on is named by the task's number; \<open>rt_close\<close> is the sender that the
  timer holds, and dropping it closes the channel.
\<close>

datatype task_phase = Sleeping | Expired | Failing

record rtx_task =
  rk_id :: nat
  rk_rto :: u64
  rk_n_rtos :: usize
  rk_phase :: task_phase

record rtx_timer =
  rt_max_retrans :: usize
  rt_close :: "nat option"
  rt_next :: nat
  rt_tasks :: "rtx_task list"

definition rtx_timer_new :: "usize \<Rightarrow> rtx_timer" where
  "rtx_timer_new max_retrans =
     \<lparr>rt_max_retrans = max_retrans, rt_close = None, rt_next = 0, rt_tasks = []\<rparr>"

definition rtx_timer_start :: "rtx_timer \<Rightarrow> u64 \<Rightarrow> bool \<times> rtx_timer" where
  "rtx_timer_start t rto =
     (if rt_close t \<noteq> None then (False, t)
      else
        (True, t\<lparr>rt_close := Some (rt_next t), rt_next := rt_next t + 1,
                 rt_tasks := rt_tasks t @ [\<lparr>rk_id = rt_next t, rk_rto = rto, rk_n_rtos = 0, rk_phase = Sleeping\<rparr>]\<rparr>))"

definition rtx_timer_stop :: "rtx_timer \<Rightarrow> rtx_timer" where
  "rtx_timer_stop t = t\<lparr>rt_close := None\<rparr>"

definition rtx_timer_is_running :: "rtx_timer \<Rightarrow> bool" where
  "rtx_timer_is_running t \<longleftrightarrow> rt_close t \<noteq> None"

definition rtx_task_interval :: "rtx_task \<Rightarrow> u64" where
  "rtx_task_interval k = calculate_next_timeout (rk_rto k) (rk_n_rtos k)"

text \<open>What the observer is told; nothing when the observer is gone.\<close>

datatype rtx_event = Rtx_timeout usize | Rtx_failure | Rtx_gone

definition rtx_task_fire :: "usize \<Rightarrow> bool \<Rightarrow> rtx_task \<Rightarrow> rtx_event \<times> rtx_task" where
  "rtx_task_fire max_retrans observer_alive k =
     (if observer_alive then
        if max_retrans = 0 \<or> rk_n_rtos k \<le> max_retrans
        then (Rtx_timeout (rk_n_rtos k), k\<lparr>rk_phase := Sleeping\<rparr>)
        else (Rtx_failure, k\<lparr>rk_phase := Failing\<rparr>)
      else (Rtx_gone, k\<lparr>rk_phase := Failing\<rparr>))"

definition rtx_task_update :: "nat \<Rightarrow> (rtx_task \<Rightarrow> rtx_task) \<Rightarrow> rtx_timer \<Rightarrow> rtx_timer" where
  "rtx_task_update i f t = t\<lparr>rt_tasks := map (\<lambda>k. if rk_id k = i then f k else k) (rt_tasks t)\<rparr>"

definition rtx_task_end :: "nat \<Rightarrow> rtx_timer \<Rightarrow> rtx_timer" where
  "rtx_task_end i t = t\<lparr>rt_tasks := filter (\<lambda>k. rk_id k \<noteq> i) (rt_tasks t)\<rparr>"

datatype rtx_label =
  Rtx_start u64 | Rtx_stop | Rtx_expire nat | Rtx_fire nat rtx_event | Rtx_clear nat | Rtx_closed nat

inductive rtx_step :: "rtx_timer \<Rightarrow> rtx_label \<Rightarrow> rtx_timer \<Rightarrow> bool" where
  start: "rtx_step t (Rtx_start rto) (snd (rtx_timer_start t rto))"
| stop: "rtx_step t Rtx_stop (rtx_timer_stop t)"
| expire: "k \<in> set (rt_tasks t) \<Longrightarrow> rk_phase k = Sleeping \<Longrightarrow>
    rtx_step t (Rtx_expire (rk_id k))
      (rtx_task_update (rk_id k) (\<lambda>k. k\<lparr>rk_n_rtos := rk_n_rtos k + 1, rk_phase := Expired\<rparr>) t)"
| fire: "k \<in> set (rt_tasks t) \<Longrightarrow> rk_phase k = Expired \<Longrightarrow>
    rtx_step t (Rtx_fire (rk_id k) (fst (rtx_task_fire (rt_max_retrans t) alive k)))
      (rtx_task_update (rk_id k) (\<lambda>k. snd (rtx_task_fire (rt_max_retrans t) alive k)) t)"
| clear: "k \<in> set (rt_tasks t) \<Longrightarrow> rk_phase k = Failing \<Longrightarrow>
    rtx_step t (Rtx_clear (rk_id k)) (rtx_task_end (rk_id k) (t\<lparr>rt_close := None\<rparr>))"
| closed: "k \<in> set (rt_tasks t) \<Longrightarrow> rk_phase k = Sleeping \<Longrightarrow> rt_close t \<noteq> Some (rk_id k) \<Longrightarrow>
    rtx_step t (Rtx_closed (rk_id k)) (rtx_task_end (rk_id k) t)"

inductive_cases rtx_stepE: "rtx_step t l t'"

inductive rtx_reachable :: "usize \<Rightarrow> rtx_timer \<Rightarrow> bool" for max_retrans where
  new: "rtx_reachable max_retrans (rtx_timer_new max_retrans)"
| step: "rtx_reachable max_retrans t \<Longrightarrow> rtx_step t l t' \<Longrightarrow> rtx_reachable max_retrans t'"

text \<open>
  The invariant: the tasks have different numbers, the sender the timer holds is that of one
  of its tasks, and a task has counted at most one expiry more than it may retransmit.
\<close>

definition rtx_task_ok :: "usize \<Rightarrow> rtx_task \<Rightarrow> bool" where
  "rtx_task_ok max_retrans k \<longleftrightarrow> max_retrans = 0 \<or>
     (case rk_phase k of
        Sleeping \<Rightarrow> unat (rk_n_rtos k) \<le> unat max_retrans
      | _ \<Rightarrow> unat (rk_n_rtos k) \<le> unat max_retrans + 1)"

definition rtx_inv :: "usize \<Rightarrow> rtx_timer \<Rightarrow> bool" where
  "rtx_inv max_retrans t \<longleftrightarrow>
     rt_max_retrans t = max_retrans \<and> distinct (map rk_id (rt_tasks t)) \<and>
     list_all (\<lambda>k. rk_id k < rt_next t \<and> rtx_task_ok max_retrans k) (rt_tasks t) \<and>
     (\<forall>i. rt_close t = Some i \<longrightarrow> i \<in> rk_id ` set (rt_tasks t))"

lemma rtx_task_update_ids [simp]:
  "(\<And>k. rk_id (f k) = rk_id k) \<Longrightarrow> map rk_id (rt_tasks (rtx_task_update i f t)) = map rk_id (rt_tasks t)"
  by (auto simp: rtx_task_update_def)

lemma rtx_inv_update:
  assumes "rtx_inv m t" and "\<And>k. rk_id (f k) = rk_id k"
    and "\<And>k. k \<in> set (rt_tasks t) \<Longrightarrow> rk_id k = i \<Longrightarrow> rtx_task_ok m k \<Longrightarrow> rtx_task_ok m (f k)"
  shows "rtx_inv m (rtx_task_update i f t)"
proof -
  have "rk_id ` set (rt_tasks (rtx_task_update i f t)) = rk_id ` set (rt_tasks t)"
    using rtx_task_update_ids [of f i t] assms(2) by (metis image_set)
  then show ?thesis
    using assms rtx_task_update_ids [of f i t]
    by (auto simp: rtx_inv_def list_all_iff) (auto simp: rtx_task_update_def)
qed

lemma rtx_inv_end:
  "rtx_inv m t \<Longrightarrow> rt_close t \<noteq> Some i \<Longrightarrow> rtx_inv m (rtx_task_end i t)"
  unfolding rtx_inv_def rtx_task_end_def
  by (auto simp: list_all_iff image_iff distinct_map_filter)

lemma same_task:
  "distinct (map rk_id ks) \<Longrightarrow> k \<in> set ks \<Longrightarrow> k' \<in> set ks \<Longrightarrow> rk_id k = rk_id k' \<Longrightarrow> k = k'"
  by (auto simp: distinct_map inj_on_def)

lemma rtx_task_ok_expire:
  assumes "rtx_task_ok m k" and "rk_phase k = Sleeping" and "m < - 1"
  shows "rtx_task_ok m (k\<lparr>rk_n_rtos := rk_n_rtos k + 1, rk_phase := Expired\<rparr>)"
proof -
  have "unat (rk_n_rtos k + 1) \<le> unat (rk_n_rtos k) + 1"
    by (simp add: unat_word_ariths mod_less_eq_dividend)
  then show ?thesis using assms by (auto simp: rtx_task_ok_def)
qed

lemma rtx_inv_step:
  assumes "rtx_inv m t" and "rtx_step t l t'" and "m < - 1"
  shows "rtx_inv m t'"
  using assms(2)
proof (cases rule: rtx_step.cases)
  case (start rto)
  then show ?thesis
    using assms(1) by (auto simp: rtx_inv_def rtx_timer_start_def list_all_iff rtx_task_ok_def)
next
  case stop
  then show ?thesis using assms(1) by (simp add: rtx_inv_def rtx_timer_stop_def)
next
  case (expire k)
  have d: "distinct (map rk_id (rt_tasks t))" using assms(1) by (simp add: rtx_inv_def)
  show ?thesis unfolding expire(2)
  proof (rule rtx_inv_update [OF assms(1)])
    fix j assume j: "j \<in> set (rt_tasks t)" "rk_id j = rk_id k" "rtx_task_ok m j"
    with same_task [OF d] expire have "j = k" by blast
    then show "rtx_task_ok m (j\<lparr>rk_n_rtos := rk_n_rtos j + 1, rk_phase := Expired\<rparr>)"
      using rtx_task_ok_expire j(3) assms(3) expire by simp
  qed simp
next
  case (fire k alive)
  have d: "distinct (map rk_id (rt_tasks t))" using assms(1) by (simp add: rtx_inv_def)
  have m: "rt_max_retrans t = m" using assms(1) by (simp add: rtx_inv_def)
  show ?thesis unfolding fire(2)
  proof (rule rtx_inv_update [OF assms(1)])
    fix j assume j: "j \<in> set (rt_tasks t)" "rk_id j = rk_id k" "rtx_task_ok m j"
    with same_task [OF d] fire have "j = k" by blast
    then show "rtx_task_ok m (snd (rtx_task_fire (rt_max_retrans t) alive j))"
      using j(3) fire by (auto simp: rtx_task_ok_def rtx_task_fire_def m word_le_nat_alt)
  qed (simp add: rtx_task_fire_def)
next
  case (clear k)
  have "rtx_inv m (t\<lparr>rt_close := None\<rparr>)" using assms(1) by (simp add: rtx_inv_def)
  then show ?thesis unfolding clear(2) by (rule rtx_inv_end) simp
next
  case (closed k)
  then show ?thesis using rtx_inv_end [OF assms(1)] by simp
qed

lemma rtx_inv_reachable:
  assumes "rtx_reachable m t" and "m < - 1"
  shows "rtx_inv m t"
  using assms(1)
proof induction
  case new
  then show ?case by (simp add: rtx_inv_def rtx_timer_new_def)
next
  case (step t l t')
  then show ?case using rtx_inv_step assms(2) by blast
qed

text \<open>
  The runs of a timer with their labels, what a task has told the observer, and the reports it
  has to make: timeouts counted from one, and after \<open>max_retrans\<close> of them, if that is not 0, the
  failure.
\<close>

inductive rtx_run :: "usize \<Rightarrow> rtx_label list \<Rightarrow> rtx_timer \<Rightarrow> bool" for max_retrans where
  new: "rtx_run max_retrans [] (rtx_timer_new max_retrans)"
| step: "rtx_run max_retrans ls t \<Longrightarrow> rtx_step t l t' \<Longrightarrow> rtx_run max_retrans (ls @ [l]) t'"

fun rtx_told :: "nat \<Rightarrow> rtx_label list \<Rightarrow> rtx_event list" where
  "rtx_told i [] = []"
| "rtx_told i (Rtx_fire j e # ls) = (if j = i then e # rtx_told i ls else rtx_told i ls)"
| "rtx_told i (l # ls) = rtx_told i ls"

definition rtx_report :: "usize \<Rightarrow> nat \<Rightarrow> rtx_event" where
  "rtx_report max_retrans n =
     (if max_retrans = 0 \<or> n \<le> unat max_retrans then Rtx_timeout (of_nat n) else Rtx_failure)"

definition rtx_reports :: "usize \<Rightarrow> nat \<Rightarrow> rtx_event list" where
  "rtx_reports max_retrans n = map (rtx_report max_retrans) [1..<Suc n]"

lemma rtx_reports_Suc: "rtx_reports m (Suc n) = rtx_reports m n @ [rtx_report m (Suc n)]"
  by (simp add: rtx_reports_def)

lemma rtx_told_append: "rtx_told i (ls @ ls') = rtx_told i ls @ rtx_told i ls'"
  by (induction i ls rule: rtx_told.induct) simp_all

lemma rtx_run_reachable: "rtx_run m ls t \<Longrightarrow> rtx_reachable m t"
  by (induction rule: rtx_run.induct) (auto intro: rtx_reachable.intros)

text \<open>What a task has told, by its phase; \<open>n\<close> counts the reports that are due and made.\<close>

definition report_due :: "usize \<Rightarrow> nat \<Rightarrow> bool" where
  "report_due m n \<longleftrightarrow> m = 0 \<or> n \<le> unat m"

definition rtx_over :: "usize \<Rightarrow> rtx_event list \<Rightarrow> bool" where
  "rtx_over m es \<longleftrightarrow> m \<noteq> 0 \<and> es = rtx_reports m (Suc (unat m)) \<or>
     (\<exists>n. report_due m n \<and> es = rtx_reports m n @ [Rtx_gone])"

definition rtx_task_told :: "usize \<Rightarrow> rtx_event list \<Rightarrow> rtx_task \<Rightarrow> bool" where
  "rtx_task_told m es k \<longleftrightarrow>
     (case rk_phase k of
        Sleeping \<Rightarrow> \<exists>n. report_due m n \<and> rk_n_rtos k = of_nat n \<and> es = rtx_reports m n
      | Expired \<Rightarrow> \<exists>n. report_due m n \<and> rk_n_rtos k = of_nat (Suc n) \<and> es = rtx_reports m n
      | Failing \<Rightarrow> rtx_over m es)"

definition rtx_told_inv :: "usize \<Rightarrow> rtx_label list \<Rightarrow> rtx_timer \<Rightarrow> bool" where
  "rtx_told_inv m ls t \<longleftrightarrow>
     (\<forall>k \<in> set (rt_tasks t). rtx_task_told m (rtx_told (rk_id k) ls) k) \<and>
     (\<forall>i \<ge> rt_next t. rtx_told i ls = []) \<and>
     (\<forall>i. rtx_over m (rtx_told i ls) \<or> (\<exists>n. report_due m n \<and> rtx_told i ls = rtx_reports m n))"

lemma rtx_task_fire_told:
  assumes "rtx_task_told m es k" and "rk_phase k = Expired" and "m < - 1"
  shows "rtx_task_told m (es @ [fst (rtx_task_fire m alive k)]) (snd (rtx_task_fire m alive k))"
proof -
  obtain n where n: "report_due m n" "rk_n_rtos k = of_nat (Suc n)" "es = rtx_reports m n"
    using assms(1,2) by (auto simp: rtx_task_told_def)
  have le: "rk_n_rtos k \<le> m \<longleftrightarrow> Suc n \<le> unat m" if "m \<noteq> 0"
  proof -
    have "unat m + 1 < 2 ^ 64" using assms(3) by (simp add: word_less_nat_alt unsigned_minus_1_eq_mask mask_eq_exp_minus_1)
    then have "unat (of_nat (Suc n) :: usize) = Suc n"
      using n(1) that by (simp add: report_due_def unat_of_nat_less del: of_nat_Suc)
    then show ?thesis by (simp add: n(2) word_le_nat_alt del: of_nat_Suc)
  qed
  show ?thesis
  proof (cases "m = 0 \<or> Suc n \<le> unat m")
    case True
    then have "report_due m (Suc n)" by (simp add: report_due_def)
    moreover have "rtx_report m (Suc n) = Rtx_timeout (of_nat (Suc n))" using True by (simp add: rtx_report_def)
    ultimately show ?thesis
      using True le n
      by (auto simp: rtx_task_told_def rtx_task_fire_def rtx_over_def rtx_reports_Suc simp del: of_nat_Suc)
  next
    case False
    then have "n = unat m" "m \<noteq> 0" using n(1) by (auto simp: report_due_def)
    then show ?thesis
      using False le n
      by (auto simp: rtx_task_told_def rtx_task_fire_def rtx_over_def rtx_reports_Suc rtx_report_def simp del: of_nat_Suc)
  qed
qed

lemma rtx_told_inv_quiet:
  assumes "rtx_told_inv m ls t" and "rtx_told_inv m ls t'" and "\<And>i. rtx_told i [l] = []"
  shows "rtx_told_inv m (ls @ [l]) t'"
  using assms by (simp add: rtx_told_inv_def rtx_told_append)

lemma rtx_told_inv_step:
  assumes "rtx_told_inv m ls t" and "rtx_inv m t" and "rtx_step t l t'" and "m < - 1"
  shows "rtx_told_inv m (ls @ [l]) t'"
  using assms(3)
proof (cases rule: rtx_step.cases)
  case (start rto)
  have "rtx_told_inv m ls t'"
    using assms(1)
    by (auto simp: start rtx_told_inv_def rtx_timer_start_def rtx_task_told_def rtx_reports_def report_due_def
        intro!: exI [of _ 0])
  then show ?thesis using rtx_told_inv_quiet [OF assms(1)] start by simp
next
  case stop
  then have "rtx_told_inv m ls t'" using assms(1) by (simp add: rtx_told_inv_def rtx_timer_stop_def)
  then show ?thesis using rtx_told_inv_quiet [OF assms(1)] stop by simp
next
  case (expire k)
  have d: "distinct (map rk_id (rt_tasks t))" using assms(2) by (simp add: rtx_inv_def)
  have "rtx_task_told m (rtx_told (rk_id j) ls) (j\<lparr>rk_n_rtos := rk_n_rtos j + 1, rk_phase := Expired\<rparr>)"
    if "j \<in> set (rt_tasks t)" "rk_id j = rk_id k" for j
  proof -
    have "j = k" using same_task [OF d] that expire by blast
    then show ?thesis
      using assms(1) that expire by (force simp: rtx_told_inv_def rtx_task_told_def add.commute)
  qed
  then have "rtx_told_inv m ls t'"
    using assms(1) by (auto simp: expire(2) rtx_told_inv_def rtx_task_update_def)
  then show ?thesis using rtx_told_inv_quiet [OF assms(1)] expire by simp
next
  case (fire k alive)
  have d: "distinct (map rk_id (rt_tasks t))" and m: "rt_max_retrans t = m" and old: "rk_id k < rt_next t"
    using assms(2) fire by (auto simp: rtx_inv_def list_all_iff)
  let ?es = "rtx_told (rk_id k) ls @ [fst (rtx_task_fire m alive k)]"
  have k: "rtx_task_told m ?es (snd (rtx_task_fire m alive k))"
    using rtx_task_fire_told assms(1,4) fire by (auto simp: rtx_told_inv_def)
  then have over: "rtx_over m ?es \<or> (\<exists>n. report_due m n \<and> ?es = rtx_reports m n)"
    by (auto simp: rtx_task_told_def rtx_task_fire_def split: if_splits)
  have told: "rtx_told i (ls @ [l]) = (if i = rk_id k then ?es else rtx_told i ls)" for i
    by (simp add: fire rtx_told_append m)
  have id: "rk_id (snd (rtx_task_fire m alive j)) = rk_id j" for j by (simp add: rtx_task_fire_def)
  have "rtx_task_told m (rtx_told (rk_id k) (ls @ [l])) (snd (rtx_task_fire m alive j))"
    if "j \<in> set (rt_tasks t)" "rk_id j = rk_id k" for j
    using k same_task [OF d] that fire by (metis told)
  then show ?thesis
    using assms(1) old over
    by (auto simp: fire(2) rtx_told_inv_def rtx_task_update_def m id told)
next
  case (clear k)
  then have "rtx_told_inv m ls t'" using assms(1) by (auto simp: rtx_told_inv_def rtx_task_end_def)
  then show ?thesis using rtx_told_inv_quiet [OF assms(1)] clear by simp
next
  case (closed k)
  then have "rtx_told_inv m ls t'" using assms(1) by (auto simp: rtx_told_inv_def rtx_task_end_def)
  then show ?thesis using rtx_told_inv_quiet [OF assms(1)] closed by simp
qed

lemma rtx_told_inv_run:
  assumes "rtx_run m ls t" and "m < - 1"
  shows "rtx_told_inv m ls t"
  using assms(1)
proof induction
  case new
  then show ?case
    by (simp add: rtx_told_inv_def rtx_timer_new_def rtx_reports_def report_due_def exI [of _ 0])
next
  case (step ls t l t')
  then show ?case using rtx_told_inv_step rtx_inv_reachable [OF rtx_run_reachable] assms(2) by blast
qed

text \<open>C32: the retransmission timer, however its starts and stops and the steps of its tasks are
  interleaved.  What one task tells the observer is always a beginning of the sequence timeout 1,
  timeout 2 and so on, in which, when the number of retransmissions is limited, timeout
  \<open>max_retrans\<close> is followed by the failure and nothing more; only a task that finds the observer
  gone stops earlier.  And a timer that says it is running has the task whose channel it holds, and
  that task has a step of its own: it expires, it fires, or it has reported the failure or found
  the observer gone and clears the channel, after which the timer is not running.\<close>

theorem rtx_timer_live:
  assumes "rtx_run max_retrans ls t" and "max_retrans < - 1"
  shows "((\<exists>n. (max_retrans = 0 \<or> n \<le> unat max_retrans + 1) \<and> rtx_told i ls = rtx_reports max_retrans n) \<or>
      (\<exists>n. (max_retrans = 0 \<or> n \<le> unat max_retrans) \<and> rtx_told i ls = rtx_reports max_retrans n @ [Rtx_gone])) \<and>
    (rtx_timer_is_running t \<longrightarrow> (\<exists>k \<in> set (rt_tasks t). rt_close t = Some (rk_id k) \<and>
      ((\<exists>t'. rtx_step t (Rtx_expire (rk_id k)) t') \<or> (\<exists>e t'. rtx_step t (Rtx_fire (rk_id k) e) t') \<or>
       last (rtx_told (rk_id k) ls) \<in> {Rtx_failure, Rtx_gone} \<and>
       (\<exists>t'. rtx_step t (Rtx_clear (rk_id k)) t' \<and> \<not> rtx_timer_is_running t'))))"
proof -
  have inv: "rtx_inv max_retrans t" by (rule rtx_inv_reachable [OF rtx_run_reachable [OF assms(1)] assms(2)])
  have told: "rtx_told_inv max_retrans ls t" by (rule rtx_told_inv_run [OF assms])
  have moves: "(\<exists>t'. rtx_step t (Rtx_expire (rk_id k)) t') \<or> (\<exists>e t'. rtx_step t (Rtx_fire (rk_id k) e) t') \<or>
       last (rtx_told (rk_id k) ls) \<in> {Rtx_failure, Rtx_gone} \<and>
       (\<exists>t'. rtx_step t (Rtx_clear (rk_id k)) t' \<and> \<not> rtx_timer_is_running t')"
    if k: "k \<in> set (rt_tasks t)" for k
  proof (cases "rk_phase k")
    case Sleeping
    then show ?thesis using rtx_step.expire [OF k] by blast
  next
    case Expired
    then show ?thesis using rtx_step.fire [OF k] by blast
  next
    case Failing
    then have "rtx_over max_retrans (rtx_told (rk_id k) ls)"
      using told k by (auto simp: rtx_told_inv_def rtx_task_told_def)
    then have "last (rtx_told (rk_id k) ls) \<in> {Rtx_failure, Rtx_gone}"
      by (auto simp: rtx_over_def rtx_reports_Suc rtx_report_def)
    then show ?thesis
      using rtx_step.clear [OF k Failing] by (auto simp: rtx_timer_is_running_def rtx_task_end_def)
  qed
  have "\<exists>k \<in> set (rt_tasks t). rt_close t = Some (rk_id k)" if "rtx_timer_is_running t"
    using that inv by (auto simp: rtx_timer_is_running_def rtx_inv_def)
  moreover have "rtx_over max_retrans (rtx_told i ls) \<or> (\<exists>n. report_due max_retrans n \<and> rtx_told i ls = rtx_reports max_retrans n)"
    using told by (simp add: rtx_told_inv_def)
  then have "(\<exists>n. (max_retrans = 0 \<or> n \<le> unat max_retrans + 1) \<and> rtx_told i ls = rtx_reports max_retrans n) \<or>
      (\<exists>n. (max_retrans = 0 \<or> n \<le> unat max_retrans) \<and> rtx_told i ls = rtx_reports max_retrans n @ [Rtx_gone])"
    unfolding rtx_over_def report_due_def by (metis Suc_eq_plus1 le_Suc_eq order_refl)
  ultimately show ?thesis using moves by blast
qed

text \<open>The witness: with one retransmission, the first expiry reports timeout 1, the second the
  failure, and the timer still runs until its task clears the channel.\<close>

definition example_rtx_timer :: "usize \<Rightarrow> task_phase \<Rightarrow> rtx_timer" where
  "example_rtx_timer n phase =
     \<lparr>rt_max_retrans = 1, rt_close = Some 0, rt_next = 1,
      rt_tasks = [\<lparr>rk_id = 0, rk_rto = RTO_INITIAL, rk_n_rtos = n, rk_phase = phase\<rparr>]\<rparr>"

lemma example_rtx_run:
  "rtx_run 1 [Rtx_start RTO_INITIAL, Rtx_expire 0, Rtx_fire 0 (Rtx_timeout 1), Rtx_expire 0, Rtx_fire 0 Rtx_failure]
     (example_rtx_timer 2 Failing)"
proof -
  have "rtx_step (rtx_timer_new 1) (Rtx_start RTO_INITIAL) (example_rtx_timer 0 Sleeping)"
    using rtx_step.start [of "rtx_timer_new 1" RTO_INITIAL]
    by (simp add: example_rtx_timer_def rtx_timer_start_def rtx_timer_new_def)
  moreover have "rtx_step (example_rtx_timer n Sleeping) (Rtx_expire 0) (example_rtx_timer (n + 1) Expired)" for n
    using rtx_step.expire [of "hd (rt_tasks (example_rtx_timer n Sleeping))" "example_rtx_timer n Sleeping"]
    by (simp add: example_rtx_timer_def rtx_task_update_def)
  from this [of 0] this [of 1] have
    "rtx_step (example_rtx_timer 0 Sleeping) (Rtx_expire 0) (example_rtx_timer 1 Expired)"
    "rtx_step (example_rtx_timer 1 Sleeping) (Rtx_expire 0) (example_rtx_timer 2 Expired)" by simp_all
  moreover have "rtx_step (example_rtx_timer 1 Expired) (Rtx_fire 0 (Rtx_timeout 1)) (example_rtx_timer 1 Sleeping)"
    using rtx_step.fire [of "hd (rt_tasks (example_rtx_timer 1 Expired))" "example_rtx_timer 1 Expired" True]
    by (simp add: example_rtx_timer_def rtx_task_update_def rtx_task_fire_def)
  moreover have "rtx_step (example_rtx_timer 2 Expired) (Rtx_fire 0 Rtx_failure) (example_rtx_timer 2 Failing)"
    using rtx_step.fire [of "hd (rt_tasks (example_rtx_timer 2 Expired))" "example_rtx_timer 2 Expired" True]
    by (simp add: example_rtx_timer_def rtx_task_update_def rtx_task_fire_def word_le_nat_alt)
  ultimately show ?thesis
    using rtx_run.step [OF rtx_run.step [OF rtx_run.step [OF rtx_run.step [OF rtx_run.step [OF rtx_run.new]]]]]
    by fastforce
qed

theorem rtx_timer_live_witness:
  "rtx_timer_is_running (example_rtx_timer 2 Failing) \<and>
   (\<exists>t'. rtx_step (example_rtx_timer 2 Failing) (Rtx_clear 0) t' \<and> \<not> rtx_timer_is_running t')"
proof -
  have run: "rtx_timer_is_running (example_rtx_timer 2 Failing)"
    by (simp add: example_rtx_timer_def rtx_timer_is_running_def)
  have one: "(1 :: usize) < - 1" by (simp add: word_less_nat_alt unsigned_minus_1_eq_mask mask_eq_exp_minus_1)
  have "\<not> rtx_step (example_rtx_timer 2 Failing) (Rtx_expire 0) t'" for t'
    by (auto elim!: rtx_stepE simp: example_rtx_timer_def)
  moreover have "\<not> rtx_step (example_rtx_timer 2 Failing) (Rtx_fire 0 e) t'" for e t'
    by (auto elim!: rtx_stepE simp: example_rtx_timer_def)
  ultimately show ?thesis
    using rtx_timer_live [OF example_rtx_run one, of 0] run by (auto simp: example_rtx_timer_def)
qed

section \<open>The acknowledgement timer\<close>

record ack_timer =
  at_close :: "nat option"
  at_next :: nat
  at_tasks :: "nat list"

definition ack_timer_new :: ack_timer where
  "ack_timer_new = \<lparr>at_close = None, at_next = 0, at_tasks = []\<rparr>"

definition ack_timer_start :: "ack_timer \<Rightarrow> bool \<times> ack_timer" where
  "ack_timer_start t =
     (if at_close t \<noteq> None then (False, t)
      else (True, t\<lparr>at_close := Some (at_next t), at_next := at_next t + 1, at_tasks := at_tasks t @ [at_next t]\<rparr>))"

definition ack_timer_stop :: "ack_timer \<Rightarrow> ack_timer" where
  "ack_timer_stop t = t\<lparr>at_close := None\<rparr>"

definition ack_timer_is_running :: "ack_timer \<Rightarrow> bool" where
  "ack_timer_is_running t \<longleftrightarrow> at_close t \<noteq> None"

text \<open>A task ends when its sleep is over (it tells the observer) or when its channel is closed.\<close>

definition ack_task_end :: "nat \<Rightarrow> ack_timer \<Rightarrow> ack_timer" where
  "ack_task_end i t = t\<lparr>at_tasks := filter (\<lambda>k. k \<noteq> i) (at_tasks t)\<rparr>"

inductive ack_step :: "ack_timer \<Rightarrow> bool \<Rightarrow> ack_timer \<Rightarrow> bool" where
  start: "ack_step t False (snd (ack_timer_start t))"
| stop: "ack_step t False (ack_timer_stop t)"
| fire: "i \<in> set (at_tasks t) \<Longrightarrow> ack_step t True (ack_task_end i t)"
| closed: "i \<in> set (at_tasks t) \<Longrightarrow> at_close t \<noteq> Some i \<Longrightarrow> ack_step t False (ack_task_end i t)"

text \<open>The steps without a call of \<open>stop\<close>.\<close>

inductive ack_run_without_stop :: "ack_timer \<Rightarrow> bool list \<Rightarrow> ack_timer \<Rightarrow> bool" where
  refl: "ack_run_without_stop t [] t"
| start: "ack_run_without_stop (snd (ack_timer_start t)) es t' \<Longrightarrow> ack_run_without_stop t es t'"
| fire: "i \<in> set (at_tasks t) \<Longrightarrow> ack_run_without_stop (ack_task_end i t) es t' \<Longrightarrow>
    ack_run_without_stop t (True # es) t'"
| closed: "i \<in> set (at_tasks t) \<Longrightarrow> at_close t \<noteq> Some i \<Longrightarrow>
    ack_run_without_stop (ack_task_end i t) es t' \<Longrightarrow> ack_run_without_stop t es t'"

text \<open>The acknowledgement timer fires once: its task ends without clearing the channel, so that
  until somebody calls \<open>stop\<close> every later \<open>start\<close> returns \<open>False\<close> and no timeout is ever
  reported again, while \<open>is_running\<close> keeps saying that the timer runs.\<close>

theorem ack_timer_fires_once:
  assumes "ack_run_without_stop (ack_task_end 0 (snd (ack_timer_start ack_timer_new))) es t"
  shows "es = [] \<and> ack_timer_is_running t \<and> \<not> fst (ack_timer_start t)"
proof -
  have "ack_run_without_stop s es t \<Longrightarrow> at_close s \<noteq> None \<Longrightarrow> at_tasks s = [] \<Longrightarrow>
      es = [] \<and> at_close t \<noteq> None" for s
    by (induction rule: ack_run_without_stop.induct) (simp_all add: ack_timer_start_def)
  from this [OF assms] show ?thesis
    by (simp add: ack_timer_start_def ack_timer_new_def ack_task_end_def ack_timer_is_running_def)
qed

theorem ack_timer_fires_once_witness:
  "\<not> fst (ack_timer_start (snd (ack_timer_start (ack_task_end 0 (snd (ack_timer_start ack_timer_new))))))"
  using ack_timer_fires_once [OF ack_run_without_stop.start [OF ack_run_without_stop.refl]] by blast

end
