(* ===== verification/Association.thy ===== *)
theory Association
  imports Stream Timers
begin

text \<open>
  The state of an association (src/src/association/association\_internal.rs, with the tasks of
  src/src/association/mod.rs that own it) and the operations every handler uses: the state
  byte, packets, streams, timers, closing.  The record extends \<open>shared\<close>, the fields its
  streams hold clones of.

  A handler is a function of the association; all of them run under the association's lock.
  \<^verbatim>\<open>SystemTime::now()\<close> and \<^verbatim>\<open>rand\<close> are arguments.  The six timers, which the code sets right
  after it has made the association, are present from the start.  The three channels are what
  they hold: \<open>as_close_loop\<close> whether the sender that keeps the loops running is still there,
  \<open>as_accept_ch\<close> the streams that wait to be accepted, \<open>as_handshake_completed_ch\<close> what was sent to
  the task that waits for the handshake.
\<close>

section \<open>Outcomes with a state\<close>

definition then_do ::
  "'a outcome \<times> 's \<Rightarrow> ('a \<Rightarrow> 's \<Rightarrow> 'b outcome \<times> 's) \<Rightarrow> 'b outcome \<times> 's" where
  "then_do r f =
     (case fst r of
        Ok x \<Rightarrow> f x (snd r)
      | Err e \<Rightarrow> (Err e, snd r)
      | Panic \<Rightarrow> (Panic, snd r))"

lemma then_do_simps [simp]:
  "then_do (Ok x, s) f = f x s" "then_do (Err e, s) f = (Err e, s)" "then_do (Panic, s) f = (Panic, s)"
  by (simp_all add: then_do_def)

section \<open>The state\<close>

datatype ack_mode = Ack_Normal | Ack_NoDelay | Ack_AlwaysDelay
datatype ack_state = Ack_Idle | Ack_Immediate | Ack_Delay
datatype rtx_timer_id = T1Init | T1Cookie | T2Shutdown | T3RTX | Reconfig_timer

record association_stats =
  n_datas :: u64
  n_sacks :: u64
  n_t3timeouts :: u64
  n_ack_timeouts :: u64
  n_fast_retrans :: u64

definition association_stats_new :: association_stats where
  "association_stats_new =
     \<lparr>n_datas = 0, n_sacks = 0, n_t3timeouts = 0, n_ack_timeouts = 0, n_fast_retrans = 0\<rparr>"

definition inc_datas :: "association_stats \<Rightarrow> association_stats" where
  "inc_datas s = s\<lparr>n_datas := n_datas s + 1\<rparr>"
definition inc_sacks :: "association_stats \<Rightarrow> association_stats" where
  "inc_sacks s = s\<lparr>n_sacks := n_sacks s + 1\<rparr>"
definition inc_t3timeouts :: "association_stats \<Rightarrow> association_stats" where
  "inc_t3timeouts s = s\<lparr>n_t3timeouts := n_t3timeouts s + 1\<rparr>"
definition inc_ack_timeouts :: "association_stats \<Rightarrow> association_stats" where
  "inc_ack_timeouts s = s\<lparr>n_ack_timeouts := n_ack_timeouts s + 1\<rparr>"
definition inc_fast_retrans :: "association_stats \<Rightarrow> association_stats" where
  "inc_fast_retrans s = s\<lparr>n_fast_retrans := n_fast_retrans s + 1\<rparr>"

record association = shared +
  as_will_send_shutdown :: bool
  as_peer_verification_tag :: u32
  as_my_verification_tag :: u32
  as_my_next_tsn :: u32
  as_peer_last_tsn :: u32
  as_min_tsn2measure_rtt :: u32
  as_will_send_forward_tsn :: bool
  as_will_retransmit_fast :: bool
  as_will_retransmit_reconfig :: bool
  as_will_send_shutdown_ack :: bool
  as_will_send_shutdown_complete :: bool
  as_my_next_rsn :: u32
  as_reconfigs :: "(u32, chunk_reconfig) hmap"
  as_reconfig_requests :: "(u32, outgoing_reset_request) hmap"
  as_source_port :: u16
  as_destination_port :: u16
  as_my_max_num_inbound_streams :: u16
  as_my_max_num_outbound_streams :: u16
  as_my_cookie :: "bytes option"
  as_payload_queue :: payload_queue
  as_inflight_queue :: payload_queue
  as_control_queue :: "packet list"
  as_mtu :: u32
  as_max_payload_size :: u32
  as_cumulative_tsn_ack_point :: u32
  as_advanced_peer_tsn_ack_point :: u32
  as_use_forward_tsn :: bool
  as_max_receive_buffer_size :: u32
  as_cwnd :: u32
  as_rwnd :: u32
  as_ssthresh :: u32
  as_partial_bytes_acked :: u32
  as_in_fast_recovery :: bool
  as_fast_recover_exit_point :: u32
  as_rto_mgr :: rto_manager
  as_t1init :: rtx_timer
  as_t1cookie :: rtx_timer
  as_t2shutdown :: rtx_timer
  as_t3rtx :: rtx_timer
  as_treconfig :: rtx_timer
  as_ack_timer :: ack_timer
  as_stored_init :: "chunk_init option"
  as_stored_cookie_echo :: "bytes option"
  as_streams :: "(u16, stream) hmap"
  as_detached_streams :: "stream list"
  as_close_loop :: bool
  as_accept_ch :: "u16 list"
  as_handshake_completed_ch :: "error option list"
  as_delayed_ack_triggered :: bool
  as_immediate_ack_triggered :: bool
  as_stats :: association_stats
  as_ack_state :: ack_state
  as_ack_mode :: ack_mode

definition RECEIVE_MTU :: nat where "RECEIVE_MTU = 8192"
definition INITIAL_MTU :: u32 where "INITIAL_MTU = 1228"
definition INITIAL_RECV_BUF_SIZE :: u32 where "INITIAL_RECV_BUF_SIZE = 1024 * 1024"
definition COMMON_HEADER_SIZE :: u32 where "COMMON_HEADER_SIZE = 12"
definition DATA_CHUNK_HEADER_SIZE :: u32 where "DATA_CHUNK_HEADER_SIZE = 16"
definition DEFAULT_MAX_MESSAGE_SIZE :: u32 where "DEFAULT_MAX_MESSAGE_SIZE = 65536"
definition ACCEPT_CH_SIZE :: nat where "ACCEPT_CH_SIZE = 16"

lemmas association_consts =
  INITIAL_MTU_def INITIAL_RECV_BUF_SIZE_def COMMON_HEADER_SIZE_def DATA_CHUNK_HEADER_SIZE_def
  DEFAULT_MAX_MESSAGE_SIZE_def ACCEPT_CH_SIZE_def

record config =
  cf_max_receive_buffer_size :: u32
  cf_max_message_size :: u32

definition association_internal_new :: "config \<Rightarrow> u32 \<Rightarrow> u32 \<Rightarrow> association" where
  "association_internal_new config random_tsn random_tag =
     (let max_receive_buffer_size =
            (if cf_max_receive_buffer_size config = 0 then INITIAL_RECV_BUF_SIZE
             else cf_max_receive_buffer_size config);
          max_message_size =
            (if cf_max_message_size config = 0 then DEFAULT_MAX_MESSAGE_SIZE
             else cf_max_message_size config);
          tsn = (if random_tsn = 0 then random_tsn + 1 else random_tsn);
          mtu = INITIAL_MTU in
      \<lparr>sh_state = u8_of_association_state Closed, sh_max_message_size = max_message_size,
       sh_awake = False, sh_pending_queue = pending_queue_new, sh_cells = \<lambda>_. False, sh_next_cell = 1,
       as_will_send_shutdown = False, as_peer_verification_tag = 0,
       as_my_verification_tag = random_tag, as_my_next_tsn = tsn, as_peer_last_tsn = 0,
       as_min_tsn2measure_rtt = tsn, as_will_send_forward_tsn = False,
       as_will_retransmit_fast = False, as_will_retransmit_reconfig = False,
       as_will_send_shutdown_ack = False, as_will_send_shutdown_complete = False,
       as_my_next_rsn = tsn, as_reconfigs = [], as_reconfig_requests = [],
       as_source_port = 0, as_destination_port = 0, as_my_max_num_inbound_streams = - 1,
       as_my_max_num_outbound_streams = - 1, as_my_cookie = None,
       as_payload_queue = payload_queue_new, as_inflight_queue = payload_queue_new,
       as_control_queue = [], as_mtu = mtu,
       as_max_payload_size = INITIAL_MTU - (COMMON_HEADER_SIZE + DATA_CHUNK_HEADER_SIZE),
       as_cumulative_tsn_ack_point = tsn - 1, as_advanced_peer_tsn_ack_point = tsn - 1,
       as_use_forward_tsn = False, as_max_receive_buffer_size = max_receive_buffer_size,
       as_cwnd = min (4 * mtu) (max (2 * mtu) 4380), as_rwnd = 0, as_ssthresh = 0,
       as_partial_bytes_acked = 0, as_in_fast_recovery = False, as_fast_recover_exit_point = 0,
       as_rto_mgr = rto_manager_new, as_t1init = rtx_timer_new MAX_INIT_RETRANS,
       as_t1cookie = rtx_timer_new MAX_INIT_RETRANS, as_t2shutdown = rtx_timer_new NO_MAX_RETRANS,
       as_t3rtx = rtx_timer_new NO_MAX_RETRANS, as_treconfig = rtx_timer_new NO_MAX_RETRANS,
       as_ack_timer = ack_timer_new, as_stored_init = None, as_stored_cookie_echo = None,
       as_streams = [], as_detached_streams = [], as_close_loop = True, as_accept_ch = [],
       as_handshake_completed_ch = [], as_delayed_ack_triggered = False,
       as_immediate_ack_triggered = False, as_stats = association_stats_new,
       as_ack_state = Ack_Idle, as_ack_mode = Ack_Normal\<rparr>)"

section \<open>Operations of every handler\<close>

definition create_packet :: "association \<Rightarrow> chunk list \<Rightarrow> packet" where
  "create_packet a chunks =
     \<lparr>pk_source_port = as_source_port a, pk_destination_port = as_destination_port a,
      pk_verification_tag = as_peer_verification_tag a, pk_chunks = chunks\<rparr>"

definition generate_next_tsn :: "association \<Rightarrow> u32 \<times> association" where
  "generate_next_tsn a = (as_my_next_tsn a, a\<lparr>as_my_next_tsn := as_my_next_tsn a + 1\<rparr>)"

definition generate_next_rsn :: "association \<Rightarrow> u32 \<times> association" where
  "generate_next_rsn a = (as_my_next_rsn a, a\<lparr>as_my_next_rsn := as_my_next_rsn a + 1\<rparr>)"

definition start_t3rtx :: "association \<Rightarrow> association" where
  "start_t3rtx a = a\<lparr>as_t3rtx := snd (rtx_timer_start (as_t3rtx a) (rto_manager_get_rto (as_rto_mgr a)))\<rparr>"

definition start_t2shutdown :: "association \<Rightarrow> association" where
  "start_t2shutdown a =
     a\<lparr>as_t2shutdown := snd (rtx_timer_start (as_t2shutdown a) (rto_manager_get_rto (as_rto_mgr a)))\<rparr>"

definition close_all_timers :: "association \<Rightarrow> association" where
  "close_all_timers a =
     a\<lparr>as_t1init := rtx_timer_stop (as_t1init a), as_t1cookie := rtx_timer_stop (as_t1cookie a),
       as_t2shutdown := rtx_timer_stop (as_t2shutdown a), as_t3rtx := rtx_timer_stop (as_t3rtx a),
       as_treconfig := rtx_timer_stop (as_treconfig a), as_ack_timer := ack_timer_stop (as_ack_timer a)\<rparr>"

text \<open>
  A stream that is unregistered leaves the map; its user still holds it, shut down.
\<close>

definition stream_unregistered :: "stream \<Rightarrow> stream" where
  "stream_unregistered s =
     (let s = (if \<not> st_read_shutdown s
               then s\<lparr>st_read_shutdown := True, st_read_notifier := notify_waiters (st_read_notifier s)\<rparr>
               else s) in
      s\<lparr>st_write_shutdown := True\<rparr>)"

definition unregister_stream :: "u16 \<Rightarrow> association \<Rightarrow> association" where
  "unregister_stream stream_identifier a =
     (case hm_get (as_streams a) stream_identifier of
        None \<Rightarrow> a
      | Some s \<Rightarrow>
          a\<lparr>as_streams := hm_remove stream_identifier (as_streams a),
            as_detached_streams := as_detached_streams a @ [stream_unregistered s]\<rparr>)"

definition unregister_streams :: "u16 list \<Rightarrow> association \<Rightarrow> association" where
  "unregister_streams sis a = foldl (\<lambda>a si. unregister_stream si a) a sis"

definition association_close :: "association \<Rightarrow> association" where
  "association_close a =
     (if get_state a \<noteq> Closed then
        let a = set_state Closed a;
            a = close_all_timers a;
            a = a\<lparr>as_close_loop := False\<rparr> in
        unregister_streams (hm_keys (as_streams a)) a
      else a)"

definition create_stream :: "u16 \<Rightarrow> bool \<Rightarrow> association \<Rightarrow> bool \<times> association" where
  "create_stream stream_identifier accept a =
     (let s = stream_new stream_identifier (as_max_payload_size a) in
      if accept then
        if length (as_accept_ch a) < ACCEPT_CH_SIZE
        then (True, a\<lparr>as_accept_ch := as_accept_ch a @ [stream_identifier],
                      as_streams := hm_insert stream_identifier s (as_streams a)\<rparr>)
        else (False, a)
      else (True, a\<lparr>as_streams := hm_insert stream_identifier s (as_streams a)\<rparr>))"

definition get_or_create_stream :: "u16 \<Rightarrow> association \<Rightarrow> bool \<times> association" where
  "get_or_create_stream stream_identifier a =
     (if hm_contains (as_streams a) stream_identifier then (True, a)
      else create_stream stream_identifier True a)"

text \<open>The stream a call of the code gets by its identifier, updated in place.\<close>

definition update_stream :: "u16 \<Rightarrow> (stream \<Rightarrow> stream) \<Rightarrow> association \<Rightarrow> association" where
  "update_stream si f a =
     (case hm_get (as_streams a) si of
        None \<Rightarrow> a
      | Some s \<Rightarrow> a\<lparr>as_streams := hm_insert si (f s) (as_streams a)\<rparr>)"

definition open_stream :: "u16 \<Rightarrow> payload_protocol_identifier \<Rightarrow> association \<Rightarrow> unit outcome \<times> association" where
  "open_stream stream_identifier default_payload_type a =
     (if hm_contains (as_streams a) stream_identifier then (Err ErrStreamAlreadyExist, a)
      else
        case create_stream stream_identifier False a of
          (True, a) \<Rightarrow>
            (Ok (), update_stream stream_identifier (set_default_payload_type default_payload_type) a)
        | (False, a) \<Rightarrow> (Err ErrStreamCreateFailed, a))"

definition accept_stream :: "association \<Rightarrow> u16 option \<times> association" where
  "accept_stream a =
     (case as_accept_ch a of
        [] \<Rightarrow> (None, a)
      | si # sis \<Rightarrow> (Some si, a\<lparr>as_accept_ch := sis\<rparr>))"

text \<open>The sum wraps around in \<^verbatim>\<open>u32\<close>.\<close>

definition get_my_receiver_window_credit :: "association \<Rightarrow> u32" where
  "get_my_receiver_window_credit a =
     (let bytes_queued =
        foldl (\<lambda>n s. n + ucast (stream_get_num_bytes_in_reassembly_queue s)) 0 (hm_values (as_streams a)) in
      if bytes_queued \<ge> as_max_receive_buffer_size a then 0
      else as_max_receive_buffer_size a - bytes_queued)"

section \<open>The handshake's packets\<close>

definition push_control :: "packet \<Rightarrow> association \<Rightarrow> association" where
  "push_control p a = awake_write_loop (a\<lparr>as_control_queue := as_control_queue a @ [p]\<rparr>)"

definition send_init :: "association \<Rightarrow> unit outcome \<times> association" where
  "send_init a =
     (case as_stored_init a of
        Some stored_init \<Rightarrow>
          let a = a\<lparr>as_source_port := 5000, as_destination_port := 5000\<rparr>;
              outbound = create_packet a [ChunkInit stored_init] in
          (Ok (), push_control outbound a)
      | None \<Rightarrow> (Err ErrInitNotStoredToSend, a))"

definition send_cookie_echo :: "association \<Rightarrow> unit outcome \<times> association" where
  "send_cookie_echo a =
     (case as_stored_cookie_echo a of
        Some stored_cookie_echo \<Rightarrow>
          let outbound = create_packet a [ChunkCookieEcho stored_cookie_echo] in
          (Ok (), push_control outbound a)
      | None \<Rightarrow> (Err ErrCookieEchoNotStoredToSend, a))"

text \<open>
  \<^verbatim>\<open>Association::new\<close>: the INIT is built from the new state; the loops are started; then a client takes
  the lock, sends the INIT and starts the T1-init timer.  \<open>association_open\<close> is that last part, which the
  loops may come before; \<open>association_new\<close> is the whole when they do not.
\<close>

definition association_init :: "association \<Rightarrow> chunk_init" where
  "association_init ai =
     init_set_supported_extensions
       (chunk_init_default
          \<lparr>ci_initial_tsn := as_my_next_tsn ai,
           ci_num_outbound_streams := as_my_max_num_outbound_streams ai,
           ci_num_inbound_streams := as_my_max_num_inbound_streams ai,
           ci_initiate_tag := as_my_verification_tag ai,
           ci_advertised_receiver_window_credit := as_max_receive_buffer_size ai\<rparr>)"

definition association_open :: "chunk_init \<Rightarrow> association \<Rightarrow> unit outcome \<times> association" where
  "association_open init ai =
     (let ai = set_state CookieWait ai;
          ai = ai\<lparr>as_stored_init := Some init\<rparr> in
      then_do (send_init ai) (\<lambda>_ ai.
        let rto = rto_manager_get_rto (as_rto_mgr ai) in
        (Ok (), ai\<lparr>as_t1init := snd (rtx_timer_start (as_t1init ai) rto)\<rparr>)))"

definition association_new :: "config \<Rightarrow> bool \<Rightarrow> u32 \<Rightarrow> u32 \<Rightarrow> unit outcome \<times> association" where
  "association_new config is_client random_tsn random_tag =
     (let ai = association_internal_new config random_tsn random_tag;
          init = association_init ai in
      if is_client then association_open init ai else (Ok (), ai))"

text \<open>\<^verbatim>\<open>Association::shutdown\<close>, up to the point where it waits for the loops to end.\<close>

definition association_shutdown :: "association \<Rightarrow> unit outcome \<times> association" where
  "association_shutdown a =
     (if get_state a \<noteq> Established then (Err ErrShutdownNonEstablished, a)
      else
        let a = set_state ShutdownPending a;
            a = (if pq_length (as_inflight_queue a) = 0
                 then set_state ShutdownSent (awake_write_loop (a\<lparr>as_will_send_shutdown := True\<rparr>))
                 else a) in
        (Ok (), a))"

section \<open>Frame rules\<close>

lemma get_set_state [simp]: "get_state (set_state s a) = s"
  by (simp add: get_state_def set_state_def)

lemma get_state_update [simp]:
  "get_state (sh\<lparr>sh_awake := x1\<rparr>) = get_state sh"
  "get_state (sh\<lparr>sh_pending_queue := x2\<rparr>) = get_state sh"
  "get_state (sh\<lparr>sh_cells := x3\<rparr>) = get_state sh"
  "get_state (sh\<lparr>sh_next_cell := x4\<rparr>) = get_state sh"
  "get_state (awake_write_loop sh) = get_state sh"
  by (simp_all add: get_state_def awake_write_loop_def)

end
