(* ===== verification/Handshake.thy ===== *)
theory Handshake
  imports Association
begin

text \<open>
  The four-way handshake (\<^verbatim>\<open>handle_init\<close>, \<^verbatim>\<open>handle_init_ack\<close>, \<^verbatim>\<open>handle_cookie_echo\<close>,
  \<^verbatim>\<open>handle_cookie_ack\<close>) and heartbeats.
\<close>

type_synonym handler = "packet list outcome \<times> association"

section \<open>The handlers\<close>

text \<open>A parameter of an unknown type is to be reported when bit 14 of its type is set.\<close>

definition unrecognized_params :: "param list \<Rightarrow> param list" where
  "unrecognized_params ps =
     map ParamUnrecognized (filter (\<lambda>p.
       case ph_typ (param_header_of p) of
         PT_Unknown param_type \<Rightarrow> drop_bit 14 param_type AND 1 = 1
       | _ \<Rightarrow> False) ps)"

definition supports_forward_tsn :: "param list \<Rightarrow> bool" where
  "supports_forward_tsn ps \<longleftrightarrow>
     list_ex (\<lambda>p. case p of
         ParamSupportedExtensions chunk_types \<Rightarrow> list_ex (\<lambda>t. t = CT_FORWARD_TSN) chunk_types
       | _ \<Rightarrow> False) ps"

definition last_tsn_before :: "u32 \<Rightarrow> u32" where
  "last_tsn_before initial_tsn = (if initial_tsn = 0 then - 1 else initial_tsn - 1)"

definition handle_init :: "bytes \<Rightarrow> packet \<Rightarrow> chunk_init \<Rightarrow> association \<Rightarrow> handler" where
  "handle_init random32 p i a =
     (if get_state a \<noteq> Closed \<and> get_state a \<noteq> CookieWait \<and> get_state a \<noteq> CookieEchoed
      then (Err ErrHandleInitState, a)
      else
        let a = a\<lparr>as_my_max_num_inbound_streams :=
                    min (ci_num_inbound_streams i) (as_my_max_num_inbound_streams a),
                  as_my_max_num_outbound_streams :=
                    min (ci_num_outbound_streams i) (as_my_max_num_outbound_streams a),
                  as_peer_verification_tag := ci_initiate_tag i,
                  as_source_port := pk_destination_port p, as_destination_port := pk_source_port p,
                  as_peer_last_tsn := last_tsn_before (ci_initial_tsn i)\<rparr>;
            a = (if supports_forward_tsn (ci_params i) then a\<lparr>as_use_forward_tsn := True\<rparr> else a);
            outbound = create_packet a [];
            init_ack = chunk_init_default
              \<lparr>ci_is_ack := True, ci_initial_tsn := as_my_next_tsn a,
               ci_num_outbound_streams := as_my_max_num_outbound_streams a,
               ci_num_inbound_streams := as_my_max_num_inbound_streams a,
               ci_initiate_tag := as_my_verification_tag a,
               ci_advertised_receiver_window_credit := as_max_receive_buffer_size a,
               ci_params := unrecognized_params (ci_params i)\<rparr>;
            a = (if as_my_cookie a = None
                 then a\<lparr>as_my_cookie := Some (param_state_cookie_new random32)\<rparr> else a);
            init_ack = (case as_my_cookie a of
                          Some my_cookie \<Rightarrow> init_ack\<lparr>ci_params := [ParamStateCookie my_cookie]\<rparr>
                        | None \<Rightarrow> init_ack);
            init_ack = init_set_supported_extensions init_ack in
        (Ok [outbound\<lparr>pk_chunks := [ChunkInit init_ack]\<rparr>], a))"

text \<open>The last cookie of the list, as the loop leaves it.\<close>

definition cookie_param :: "param list \<Rightarrow> bytes option" where
  "cookie_param ps =
     foldl (\<lambda>r p. case p of ParamStateCookie v \<Rightarrow> Some v | _ \<Rightarrow> r) None ps"

definition handle_init_ack :: "packet \<Rightarrow> chunk_init \<Rightarrow> association \<Rightarrow> handler" where
  "handle_init_ack p i a =
     (if get_state a \<noteq> CookieWait then (Ok [], a)
      else
        let a = a\<lparr>as_my_max_num_inbound_streams :=
                    min (ci_num_inbound_streams i) (as_my_max_num_inbound_streams a),
                  as_my_max_num_outbound_streams :=
                    min (ci_num_outbound_streams i) (as_my_max_num_outbound_streams a),
                  as_peer_verification_tag := ci_initiate_tag i,
                  as_peer_last_tsn := last_tsn_before (ci_initial_tsn i)\<rparr> in
        if as_source_port a \<noteq> pk_destination_port p \<or> as_destination_port a \<noteq> pk_source_port p
        then (Ok [], a)
        else
          let a = a\<lparr>as_rwnd := ci_advertised_receiver_window_credit i\<rparr>;
              a = a\<lparr>as_ssthresh := as_rwnd a\<rparr>;
              a = a\<lparr>as_t1init := rtx_timer_stop (as_t1init a), as_stored_init := None\<rparr>;
              a = (if supports_forward_tsn (ci_params i) then a\<lparr>as_use_forward_tsn := True\<rparr> else a) in
          case cookie_param (ci_params i) of
            Some v \<Rightarrow>
              then_do (send_cookie_echo (a\<lparr>as_stored_cookie_echo := Some v\<rparr>)) (\<lambda>_ a.
                let a = a\<lparr>as_t1cookie :=
                          snd (rtx_timer_start (as_t1cookie a) (rto_manager_get_rto (as_rto_mgr a)))\<rparr> in
                (Ok [], set_state CookieEchoed a))
          | None \<Rightarrow> (Err ErrInitAckNoCookie, a))"

definition handle_heartbeat :: "param list \<Rightarrow> association \<Rightarrow> handler" where
  "handle_heartbeat params a =
     (case params of
        ParamHeartbeatInfo hbi # _ \<Rightarrow>
          (Ok [create_packet a [ChunkHeartbeatAck [ParamHeartbeatInfo hbi]]], a)
      | _ \<Rightarrow> (Ok [], a))"

definition handshake_completed :: "association \<Rightarrow> association" where
  "handshake_completed a =
     (let a = set_state Established a in
      a\<lparr>as_handshake_completed_ch := as_handshake_completed_ch a @ [None]\<rparr>)"

definition handle_cookie_echo :: "bytes \<Rightarrow> association \<Rightarrow> handler" where
  "handle_cookie_echo cookie a =
     (case as_my_cookie a of
        Some my_cookie \<Rightarrow>
          let cookie_ack = (\<lambda>a. (Ok [create_packet a [ChunkCookieAck]], a)) in
          if get_state a = Established then
            if my_cookie \<noteq> cookie then (Ok [], a) else cookie_ack a
          else if get_state a = Closed \<or> get_state a = CookieWait \<or> get_state a = CookieEchoed then
            if my_cookie \<noteq> cookie then (Ok [], a)
            else
              let a = a\<lparr>as_t1init := rtx_timer_stop (as_t1init a), as_stored_init := None\<rparr>;
                  a = a\<lparr>as_t1cookie := rtx_timer_stop (as_t1cookie a), as_stored_cookie_echo := None\<rparr> in
              cookie_ack (handshake_completed a)
          else (Ok [], a)
      | None \<Rightarrow> (Ok [], a))"

definition handle_cookie_ack :: "association \<Rightarrow> handler" where
  "handle_cookie_ack a =
     (if get_state a \<noteq> CookieEchoed then (Ok [], a)
      else
        let a = a\<lparr>as_t1cookie := rtx_timer_stop (as_t1cookie a), as_stored_cookie_echo := None\<rparr> in
        (Ok [], handshake_completed a))"

end
