(* ===== verification/Receive.thy ===== *)
theory Receive
  imports Handshake
begin

text \<open>
  The receiving half of the association: DATA, FORWARD-TSN and RE-CONFIG chunks, the cumulative
  TSN (\<^verbatim>\<open>peer_last_tsn\<close>) and the SACK that reports it.
\<close>

section \<open>Resetting streams\<close>

text \<open>The identifier of the stream that is found is used, not the one that is looked up.\<close>

definition reset_streams :: "u16 list \<Rightarrow> association \<Rightarrow> association" where
  "reset_streams ids a =
     foldl (\<lambda>a id. case hm_get (as_streams a) id of
                     Some s \<Rightarrow> unregister_stream (st_stream_identifier s) a
                   | None \<Rightarrow> a) a ids"

definition reset_streams_if_any :: "outgoing_reset_request \<Rightarrow> association \<Rightarrow> packet \<times> association" where
  "reset_streams_if_any p a =
     (let (result, a) =
        (if sna32lte (sender_last_tsn p) (as_peer_last_tsn a) then
           let a = reset_streams (stream_identifiers p) a in
           (SuccessPerformed,
            a\<lparr>as_reconfig_requests := hm_remove (reconfig_request_sequence_number p) (as_reconfig_requests a)\<rparr>)
         else (InProgress, a)) in
      (create_packet a
         [ChunkReconfig \<lparr>cr_param_a = Some (ParamReconfigResponse
            \<lparr>rr_reconfig_response_sequence_number = reconfig_request_sequence_number p, rr_result = result\<rparr>),
            cr_param_b = None\<rparr>], a))"

fun reset_all_requests :: "outgoing_reset_request list \<Rightarrow> association \<Rightarrow> packet list \<times> association" where
  "reset_all_requests [] a = ([], a)"
| "reset_all_requests (rst_req # rst_reqs) a =
     (case reset_streams_if_any rst_req a of
        (resp, a) \<Rightarrow>
          (case reset_all_requests rst_reqs a of (reply, a) \<Rightarrow> (resp # reply, a)))"

definition handle_reconfig_param :: "param \<Rightarrow> association \<Rightarrow> packet option outcome \<times> association" where
  "handle_reconfig_param raw a =
     (case raw of
        ParamOutgoingResetRequest p \<Rightarrow>
          let a = a\<lparr>as_reconfig_requests :=
                      hm_insert (reconfig_request_sequence_number p) p (as_reconfig_requests a)\<rparr> in
          (case reset_streams_if_any p a of (packet, a) \<Rightarrow> (Ok (Some packet), a))
      | ParamReconfigResponse p \<Rightarrow>
          let a = a\<lparr>as_reconfigs := hm_remove (rr_reconfig_response_sequence_number p) (as_reconfigs a)\<rparr>;
              a = (if as_reconfigs a = [] then a\<lparr>as_treconfig := rtx_timer_stop (as_treconfig a)\<rparr> else a) in
          (Ok None, a)
      | _ \<Rightarrow> (Err ErrParamterType, a))"

definition handle_reconfig :: "chunk_reconfig \<Rightarrow> association \<Rightarrow> handler" where
  "handle_reconfig c a =
     then_do (case cr_param_a c of
                Some param_a \<Rightarrow>
                  then_do (handle_reconfig_param param_a a) (\<lambda>p a. (Ok (case p of Some p \<Rightarrow> [p] | None \<Rightarrow> []), a))
              | None \<Rightarrow> (Ok [], a))
       (\<lambda>pp a.
         case cr_param_b c of
           Some param_b \<Rightarrow>
             then_do (handle_reconfig_param param_b a) (\<lambda>p a. (Ok (pp @ (case p of Some p \<Rightarrow> [p] | None \<Rightarrow> [])), a))
         | None \<Rightarrow> (Ok pp, a))"

section \<open>The cumulative TSN\<close>

lemma unregister_stream_payload_queue [simp]:
  "as_payload_queue (unregister_stream si a) = as_payload_queue a"
  by (simp add: unregister_stream_def split: option.splits)

lemma reset_streams_payload_queue [simp]:
  "as_payload_queue (reset_streams ids a) = as_payload_queue a"
  unfolding reset_streams_def by (induction ids arbitrary: a) (auto split: option.splits)

lemma reset_streams_if_any_payload_queue [simp]:
  "as_payload_queue (snd (reset_streams_if_any p a)) = as_payload_queue a"
  by (simp add: reset_streams_if_any_def Let_def)

lemma reset_all_requests_payload_queue [simp]:
  "as_payload_queue (snd (reset_all_requests rs a)) = as_payload_queue a"
  by (induction rs arbitrary: a) (auto simp: case_prod_beta)

lemma reset_all_requests_queue:
  "reset_all_requests rs a = (r, a') \<Longrightarrow> as_payload_queue a' = as_payload_queue a"
  using reset_all_requests_payload_queue [of rs a] by simp

lemma payload_queue_pop_shrinks:
  "payload_queue_pop q t = (Some p, q') \<Longrightarrow> length (pq_sorted q') < length (pq_sorted q)"
  by (cases "pq_sorted q") (auto simp: payload_queue_pop_def Let_def split: if_splits option.splits)

text \<open>The loop: while the next TSN has been received, take it and retry the pending stream resets.\<close>

function advance_peer_last_tsn :: "association \<Rightarrow> packet list \<times> association" where
  "advance_peer_last_tsn a =
     (case payload_queue_pop (as_payload_queue a) (as_peer_last_tsn a + 1) of
        (None, q) \<Rightarrow> ([], a\<lparr>as_payload_queue := q\<rparr>)
      | (Some p, q) \<Rightarrow>
          let a = a\<lparr>as_payload_queue := q, as_peer_last_tsn := as_peer_last_tsn a + 1\<rparr>;
              (resps, a) = reset_all_requests (hm_values (as_reconfig_requests a)) a;
              (reply, a) = advance_peer_last_tsn a in
          (resps @ reply, a))"
  by pat_completeness auto
termination
  by (relation "measure (\<lambda>a. length (pq_sorted (as_payload_queue a)))")
    (auto, drule payload_queue_pop_shrinks [OF sym], drule reset_all_requests_queue [OF sym], simp)

declare advance_peer_last_tsn.simps [simp del]

definition handle_peer_last_tsn_and_acknowledgement :: "bool \<Rightarrow> association \<Rightarrow> handler" where
  "handle_peer_last_tsn_and_acknowledgement sack_immediately a =
     (case advance_peer_last_tsn a of
        (reply, a) \<Rightarrow>
          (case payload_queue_is_empty (as_payload_queue a) of
             Ok no_loss \<Rightarrow>
               let has_packet_loss = \<not> no_loss in
               if (as_ack_state a \<noteq> Ack_Immediate \<and> \<not> sack_immediately \<and> \<not> has_packet_loss
                     \<and> as_ack_mode a = Ack_Normal) \<or> as_ack_mode a = Ack_AlwaysDelay
               then if as_ack_state a = Ack_Idle then (Ok reply, a\<lparr>as_delayed_ack_triggered := True\<rparr>)
                    else (Ok reply, a\<lparr>as_immediate_ack_triggered := True\<rparr>)
               else (Ok reply, a\<lparr>as_immediate_ack_triggered := True\<rparr>)
           | Err e \<Rightarrow> (Err e, a)
           | Panic \<Rightarrow> (Panic, a)))"

section \<open>DATA\<close>

text \<open>
  Whether a DATA chunk goes to its stream, and the state after it was queued; \<open>None\<close> when no
  stream could be made for it.
\<close>

definition accept_data :: "payload_data \<Rightarrow> association \<Rightarrow> bool option \<times> association" where
  "accept_data d a =
     (if payload_queue_can_push (as_payload_queue a) d (as_peer_last_tsn a) then
        case get_or_create_stream (pd_stream_identifier d) a of
          (True, a) \<Rightarrow>
            let pushed = a\<lparr>as_payload_queue := snd (payload_queue_push (as_payload_queue a) d (as_peer_last_tsn a))\<rparr> in
            if get_my_receiver_window_credit a > 0 then (Some True, pushed)
            else
              (case payload_queue_get_last_tsn_received (as_payload_queue a) of
                 Some last_tsn \<Rightarrow>
                   if sna32lt (pd_tsn d) last_tsn then (Some True, pushed) else (Some False, a)
               | None \<Rightarrow> (Some False, a))
        | (False, a) \<Rightarrow> (None, a)
      else (Some False, a))"

definition handle_data :: "payload_data \<Rightarrow> association \<Rightarrow> handler" where
  "handle_data d a =
     (let a = a\<lparr>as_stats := inc_datas (as_stats a)\<rparr> in
      case accept_data d a of
        (None, a) \<Rightarrow> (Ok [], a)
      | (Some deliver, a) \<Rightarrow>
          let immediate_sack = pd_immediate_sack d;
              a = (if deliver
                   then update_stream (pd_stream_identifier d) (\<lambda>s. stream_handle_data s d) a
                   else a) in
          handle_peer_last_tsn_and_acknowledgement immediate_sack a)"

section \<open>FORWARD-TSN\<close>

function forward_peer_last_tsn :: "u32 \<Rightarrow> association \<Rightarrow> association" where
  "forward_peer_last_tsn new_cumulative_tsn a =
     (if sna32lt (as_peer_last_tsn a) new_cumulative_tsn then
        forward_peer_last_tsn new_cumulative_tsn
          (a\<lparr>as_payload_queue := snd (payload_queue_pop (as_payload_queue a) (as_peer_last_tsn a + 1)),
             as_peer_last_tsn := as_peer_last_tsn a + 1\<rparr>)
      else a)"
  by pat_completeness auto
termination
proof (relation "measure (\<lambda>(n, a). unat (n - as_peer_last_tsn a))", goal_cases)
  case (2 n a)
  then have "n \<noteq> as_peer_last_tsn a" by (auto simp: s32.lt_iff)
  then show ?case using unat_diff_succ [of n "as_peer_last_tsn a"] by (simp add: unat_gt_0)
qed simp

declare forward_peer_last_tsn.simps [simp del]

definition handle_forward_tsn :: "chunk_forward_tsn \<Rightarrow> association \<Rightarrow> handler" where
  "handle_forward_tsn c a =
     (if \<not> as_use_forward_tsn a then
        (Ok [create_packet a [ChunkError [\<lparr>ec_code = 0, ec_raw = []\<rparr>]]], a)
      else if sna32lte (ft_new_cumulative_tsn c) (as_peer_last_tsn a) then
        (Ok [], awake_write_loop (a\<lparr>as_ack_state := Ack_Immediate, as_ack_timer := ack_timer_stop (as_ack_timer a)\<rparr>))
      else
        let a = forward_peer_last_tsn (ft_new_cumulative_tsn c) a;
            a = foldl (\<lambda>a forwarded. update_stream (fs_identifier forwarded)
                  (\<lambda>s. stream_handle_forward_tsn_for_ordered s (fs_sequence forwarded)) a) a (ft_streams c);
            a = a\<lparr>as_streams := map (\<lambda>(si, s).
                  (si, stream_handle_forward_tsn_for_unordered s (ft_new_cumulative_tsn c))) (as_streams a)\<rparr> in
        handle_peer_last_tsn_and_acknowledgement False a)"

section \<open>SACK\<close>

definition create_selective_ack_chunk :: "association \<Rightarrow> selective_ack \<times> association" where
  "create_selective_ack_chunk a =
     (case payload_queue_pop_duplicates (as_payload_queue a) of
        (duplicates, q) \<Rightarrow>
          (\<lparr>sa_cumulative_tsn_ack = as_peer_last_tsn a,
            sa_advertised_receiver_window_credit = get_my_receiver_window_credit a,
            sa_gap_ack_blocks = payload_queue_get_gap_ack_blocks (as_payload_queue a) (as_peer_last_tsn a),
            sa_duplicate_tsn = duplicates\<rparr>, a\<lparr>as_payload_queue := q\<rparr>))"

text \<open>At the start and at the end of an inbound packet.\<close>

definition handle_chunk_start :: "association \<Rightarrow> association" where
  "handle_chunk_start a = a\<lparr>as_delayed_ack_triggered := False, as_immediate_ack_triggered := False\<rparr>"

definition handle_chunk_end :: "association \<Rightarrow> association" where
  "handle_chunk_end a =
     (if as_immediate_ack_triggered a then
        awake_write_loop (a\<lparr>as_ack_state := Ack_Immediate, as_ack_timer := ack_timer_stop (as_ack_timer a)\<rparr>)
      else if as_delayed_ack_triggered a then
        a\<lparr>as_ack_state := Ack_Delay, as_ack_timer := snd (ack_timer_start (as_ack_timer a))\<rparr>
      else a)"

definition on_ack_timeout :: "association \<Rightarrow> association" where
  "on_ack_timeout a =
     awake_write_loop (a\<lparr>as_stats := inc_ack_timeouts (as_stats a), as_ack_state := Ack_Immediate\<rparr>)"


section \<open>The receiver's invariant\<close>

definition tsns_above :: "association \<Rightarrow> u32 set" where
  "tsns_above a = dom (map_of (pq_chunk_map (as_payload_queue a)))"

definition receiver_inv :: "association \<Rightarrow> bool" where
  "receiver_inv a \<longleftrightarrow> pq_inv (as_peer_last_tsn a + 1) (as_payload_queue a) \<and>
     as_peer_last_tsn a + 1 \<notin> tsns_above a"

text \<open>
  The specification of a receiver: a cumulative TSN and the set of TSNs received above it.
  Advancing takes the contiguous run above the cumulative TSN out of the set.
\<close>

definition advanced :: "u32 \<times> u32 set \<Rightarrow> u32 \<times> u32 set \<Rightarrow> bool" where
  "advanced s s' \<longleftrightarrow>
     (\<exists>n. n \<le> 2 ^ 31 \<and> fst s' = fst s + of_nat n \<and> (\<forall>i < n. fst s + 1 + of_nat i \<in> snd s) \<and>
        fst s' + 1 \<notin> snd s' \<and> snd s' = snd s - (\<lambda>i. fst s + 1 + of_nat i) ` {..<n})"

definition receiver_abs :: "association \<Rightarrow> u32 \<times> u32 set" where
  "receiver_abs a = (as_peer_last_tsn a, tsns_above a)"

lemma advanced_idle:
  assumes "advanced s s'" and "fst s + 1 \<notin> snd s"
  shows "s' = s"
proof -
  obtain n where n: "\<forall>i < n. fst s + 1 + of_nat i \<in> snd s" "fst s' = fst s + of_nat n"
      "snd s' = snd s - (\<lambda>i. fst s + 1 + of_nat i) ` {..<n}"
    using assms(1) unfolding advanced_def by blast
  have "n = 0"
  proof (rule ccontr)
    assume "n \<noteq> 0"
    then show False using n(1) [rule_format, of 0] assms(2) by simp
  qed
  then show ?thesis using n by (simp add: prod_eq_iff)
qed

lemma unregister_stream_peer_last_tsn [simp]:
  "as_peer_last_tsn (unregister_stream si a) = as_peer_last_tsn a"
  by (simp add: unregister_stream_def split: option.splits)

lemma reset_streams_peer_last_tsn [simp]:
  "as_peer_last_tsn (reset_streams ids a) = as_peer_last_tsn a"
  unfolding reset_streams_def by (induction ids arbitrary: a) (auto split: option.splits)

lemma reset_all_requests_peer_last_tsn:
  "reset_all_requests rs a = (r, a') \<Longrightarrow> as_peer_last_tsn a' = as_peer_last_tsn a"
proof (induction rs arbitrary: a r a')
  case (Cons x rs)
  have "as_peer_last_tsn (snd (reset_streams_if_any x a)) = as_peer_last_tsn a"
    by (simp add: reset_streams_if_any_def Let_def)
  with Cons show ?case by (auto split: prod.splits)
qed simp

lemma advance_pop_run:
  "advance_peer_last_tsn a = (r, a') \<Longrightarrow>
    pop_run payload_queue_pop (as_peer_last_tsn a) (as_payload_queue a) (as_peer_last_tsn a') (as_payload_queue a')"
proof (induction a arbitrary: r a' rule: advance_peer_last_tsn.induct)
  case (1 a)
  obtain o1 q where pop: "payload_queue_pop (as_payload_queue a) (as_peer_last_tsn a + 1) = (o1, q)"
    by fastforce
  show ?case
  proof (cases o1)
    case None
    then show ?thesis
      using 1(2) pop by (auto simp: advance_peer_last_tsn.simps [of a] intro: pop_run.stop)
  next
    case (Some p)
    let ?a1 = "a\<lparr>as_payload_queue := q, as_peer_last_tsn := as_peer_last_tsn a + 1\<rparr>"
    obtain r1 a2 where r1: "reset_all_requests (hm_values (as_reconfig_requests ?a1)) ?a1 = (r1, a2)" by fastforce
    obtain r2 a3 where r2: "advance_peer_last_tsn a2 = (r2, a3)" by fastforce
    have a3: "a3 = a'" using 1(2) pop Some r1 r2 by (simp add: advance_peer_last_tsn.simps [of a] Let_def)
    have "as_payload_queue a2 = q" "as_peer_last_tsn a2 = as_peer_last_tsn a + 1"
      using reset_all_requests_queue [OF r1] reset_all_requests_peer_last_tsn [OF r1] by simp_all
    moreover have "pop_run payload_queue_pop (as_peer_last_tsn a2) (as_payload_queue a2)
        (as_peer_last_tsn a') (as_payload_queue a')"
      by (rule 1(1) [where x = "Some p" and y = q and xa = ?a1 and xb = "(r1, a2)" and xc = r1 and ya = a2]) (use pop Some r1 [symmetric] r2 a3 in simp_all)
    ultimately show ?thesis using pop Some by (auto intro: pop_run.step)
  qed
qed

lemma advance_advanced:
  assumes "advance_peer_last_tsn a = (r, a')"
    and "pq_inv (as_peer_last_tsn a + 1) (as_payload_queue a)"
  shows "receiver_inv a' \<and> advanced (receiver_abs a) (receiver_abs a')"
proof -
  note run = pq.run_takes_prefix [OF advance_pop_run [OF assms(1)] assms(2)]
  then obtain n where n: "as_peer_last_tsn a' = as_peer_last_tsn a + of_nat n"
      "\<forall>i<n. hm_get (pq_chunk_map (as_payload_queue a)) (as_peer_last_tsn a + 1 + of_nat i) \<noteq> None"
      "map_of (pq_chunk_map (as_payload_queue a')) = (\<lambda>t. if \<exists>i<n. t = as_peer_last_tsn a + 1 + of_nat i then None
        else map_of (pq_chunk_map (as_payload_queue a)) t)"
    by blast
  have inv: "receiver_inv a'" using run by (simp add: receiver_inv_def tsns_above_def domIff)
  have "n \<le> 2 ^ 31" by (rule pq.run_window [OF assms(2) n(2)])
  moreover have "tsns_above a' = tsns_above a - (\<lambda>i. as_peer_last_tsn a + 1 + of_nat i) ` {..<n}"
    by (auto simp: tsns_above_def n(3) dom_def split: if_splits)
  ultimately show ?thesis
    using n(1,2) inv by (auto simp: advanced_def receiver_abs_def receiver_inv_def tsns_above_def dom_def)
qed

lemma ack_handler_refines:
  assumes "handle_peer_last_tsn_and_acknowledgement b a = (r, a')"
    and "pq_inv (as_peer_last_tsn a + 1) (as_payload_queue a)"
  shows "receiver_inv a' \<and> advanced (receiver_abs a) (receiver_abs a') \<and> is_ok r \<and>
    (as_delayed_ack_triggered a' \<or> as_immediate_ack_triggered a')"
proof -
  obtain reply a1 where a1: "advance_peer_last_tsn a = (reply, a1)" by fastforce
  have inv: "receiver_inv a1" "advanced (receiver_abs a) (receiver_abs a1)"
    using advance_advanced [OF a1 assms(2)] by simp_all
  then have "payload_queue_is_empty (as_payload_queue a1) = Ok (pq_length (as_payload_queue a1) = 0)"
    by (auto simp: payload_queue_is_empty_def receiver_inv_def dest: pq_inv_len)
  then show ?thesis
    using assms(1) a1 inv
    by (auto simp: handle_peer_last_tsn_and_acknowledgement_def Let_def receiver_inv_def receiver_abs_def
        tsns_above_def split: if_splits)
qed

lemma update_stream_frame [simp]:
  "as_peer_last_tsn (update_stream si f a) = as_peer_last_tsn a"
  "as_payload_queue (update_stream si f a) = as_payload_queue a"
  by (simp_all add: update_stream_def split: option.splits)

lemma accept_data_cases:
  assumes "accept_data d a = (r, a')"
  shows "as_peer_last_tsn a' = as_peer_last_tsn a \<and>
    (if r = Some True
     then payload_queue_can_push (as_payload_queue a) d (as_peer_last_tsn a) \<and>
       as_payload_queue a' = payload_queue_push_no_check (as_payload_queue a) d
     else as_payload_queue a' = as_payload_queue a)"
  using assms
  by (auto simp: accept_data_def get_or_create_stream_def create_stream_def Let_def push_eq
      split: if_splits option.splits bool.splits prod.splits)

text \<open>C11: the receiver's bookkeeping refines its specification: handling a DATA chunk never fails or
  panics, adds the chunk's TSN to the received set exactly when the chunk was accepted (then it was
  new and in the window above the cumulative TSN), and then advances the cumulative TSN over the
  contiguous run above it and no further; the invariant that the next TSN is never in the queue is
  kept.\<close>

theorem handle_data_refines:
  assumes "receiver_inv a" and "handle_data d a = (r, a')"
  shows "receiver_inv a' \<and> is_ok r \<and>
    (if fst (accept_data d (a\<lparr>as_stats := inc_datas (as_stats a)\<rparr>)) = Some True
     then pd_tsn d \<notin> tsns_above a \<and> in_window (as_peer_last_tsn a + 1) (pd_tsn d) \<and>
       advanced (as_peer_last_tsn a, insert (pd_tsn d) (tsns_above a)) (receiver_abs a')
     else receiver_abs a' = receiver_abs a)"
proof -
  let ?a = "a\<lparr>as_stats := inc_datas (as_stats a)\<rparr>"
  obtain acc a1 where acc: "accept_data d ?a = (acc, a1)" by fastforce
  note c = accept_data_cases [OF acc]
  have inv: "pq_inv (as_peer_last_tsn a + 1) (as_payload_queue a)" using assms(1) by (simp add: receiver_inv_def)
  show ?thesis
  proof (cases acc)
    case None
    then show ?thesis
      using assms acc c by (auto simp: handle_data_def Let_def receiver_inv_def receiver_abs_def tsns_above_def)
  next
    case (Some deliver)
    let ?a2 = "if deliver then update_stream (pd_stream_identifier d) (\<lambda>s. stream_handle_data s d) a1 else a1"
    have h: "handle_peer_last_tsn_and_acknowledgement (pd_immediate_sack d) ?a2 = (r, a')"
      using assms(2) acc Some by (simp add: handle_data_def Let_def)
    have p: "as_peer_last_tsn ?a2 = as_peer_last_tsn a" using c by simp
    have q: "as_payload_queue ?a2 = (if deliver then payload_queue_push_no_check (as_payload_queue a) d
        else as_payload_queue a)"
      using c Some by simp
    have new: "hm_get (pq_chunk_map (as_payload_queue a)) (pd_tsn d) = None \<and>
        in_window (as_peer_last_tsn a + 1) (pd_tsn d)" if deliver
      using c Some that by (simp add: can_push_iff)
    then have "pq_inv (as_peer_last_tsn ?a2 + 1) (as_payload_queue ?a2)"
      using inv pq_inv_push_no_check p q by simp
    note refines = ack_handler_refines [OF h this]
    show ?thesis
    proof (cases deliver)
      case True
      have "tsns_above ?a2 = insert (pd_tsn d) (tsns_above a)"
        using True c Some
        by (simp add: tsns_above_def payload_queue_push_no_check_def update_sorted_keys_def update_conv')
      then show ?thesis
        using refines new True acc Some p by (simp add: receiver_abs_def tsns_above_def domIff)
    next
      case False
      then have "receiver_abs a1 = receiver_abs a" using c Some by (simp add: receiver_abs_def tsns_above_def)
      then show ?thesis
        using refines False acc Some advanced_idle [of "receiver_abs a" "receiver_abs a'"] assms(1)
        by (simp add: receiver_inv_def receiver_abs_def)
    qed
  qed
qed


definition example_receiver :: association where
  "example_receiver =
     (association_internal_new \<lparr>cf_max_receive_buffer_size = 0, cf_max_message_size = 0\<rparr> 1 7)
       \<lparr>as_peer_last_tsn := 10, as_use_forward_tsn := True\<rparr>"

definition example_data :: "u32 \<Rightarrow> payload_data" where
  "example_data tsn = (payload_data_default 0)
     \<lparr>pd_tsn := tsn, pd_beginning_fragment := True, pd_ending_fragment := True, pd_user_data := [1, 2, 3]\<rparr>"

lemma example_receiver_inv: "receiver_inv example_receiver" "tsns_above example_receiver = {}"
  "as_peer_last_tsn example_receiver = 10" "as_use_forward_tsn example_receiver"
  by (simp_all add: receiver_inv_def tsns_above_def example_receiver_def association_internal_new_def
      Let_def pq_inv_new payload_queue_new_def) (simp add: pq_inv_new payload_queue_new_def [symmetric])

theorem handle_data_refines_witness:
  "advanced (10, {11}) (receiver_abs (snd (handle_data (example_data 11) example_receiver)))"
proof -
  have "fst (accept_data (example_data 11)
      (example_receiver\<lparr>as_stats := inc_datas (as_stats example_receiver)\<rparr>)) = Some True"
    by code_simp
  then show ?thesis
    using handle_data_refines [OF example_receiver_inv(1), of "example_data 11"]
    by (simp add: prod_eq_iff example_receiver_inv example_data_def)
qed

section \<open>FORWARD-TSN\<close>

lemma pop_next:
  assumes "pq_inv (cum + 1) q" and "payload_queue_pop q (cum + 1) = (o1, q')"
  shows "pq_inv (cum + 1 + 1) q'"
    and "dom (hm_get (pq_chunk_map q')) = dom (hm_get (pq_chunk_map q)) - {cum + 1}"
proof -
  have "pq_inv (cum + 1) q' \<and> hm_get (pq_chunk_map q') = (hm_get (pq_chunk_map q))(cum + 1 := None)"
  proof (cases "hm_get (pq_chunk_map q) (cum + 1)")
    case None
    then show ?thesis using pq.pop_miss [OF assms(1) None] assms by (simp add: fun_upd_idem)
  next
    case (Some p)
    then show ?thesis using pq.pop_hit [OF assms(1) Some] assms by auto
  qed
  then show "pq_inv (cum + 1 + 1) q'"
    and "dom (hm_get (pq_chunk_map q')) = dom (hm_get (pq_chunk_map q)) - {cum + 1}"
    using pq.advance [of "cum + 1" q'] by (auto simp: dom_def split: if_splits)
qed

lemma sna32lt_succ:
  assumes "sna32lt i n"
  shows "sna32lte (i + 1) n"
proof -
  have "n \<noteq> i" using assms by (auto simp: s32.lt_iff)
  then have "0 < unat (n - i)" by (simp add: unat_gt_0)
  then have "unat (n - i) = Suc (unat (n - (i + 1)))" using \<open>n \<noteq> i\<close> by (simp add: unat_diff_succ)
  then show ?thesis using assms by (auto simp: sna32lte_def s32.lt_iff_unat)
qed

lemma forward_peer_last_tsn_spec:
  assumes "pq_inv (as_peer_last_tsn a + 1) (as_payload_queue a)" and "sna32lte (as_peer_last_tsn a) n"
  shows "as_peer_last_tsn (forward_peer_last_tsn n a) = n \<and>
    pq_inv (n + 1) (as_payload_queue (forward_peer_last_tsn n a)) \<and>
    tsns_above (forward_peer_last_tsn n a) = {t \<in> tsns_above a. \<not> sna32lte t n}"
  using assms
proof (induction n a rule: forward_peer_last_tsn.induct)
  case (1 n a)
  show ?case
  proof (cases "sna32lt (as_peer_last_tsn a) n")
    case True
    obtain o1 q where pop: "payload_queue_pop (as_payload_queue a) (as_peer_last_tsn a + 1) = (o1, q)"
      by fastforce
    let ?a = "a\<lparr>as_payload_queue := q, as_peer_last_tsn := as_peer_last_tsn a + 1\<rparr>"
    note q = pop_next [OF 1(2) pop]
    have up: "sna32lte (as_peer_last_tsn a + 1) n" using sna32lt_succ [OF True] .
    have step: "forward_peer_last_tsn n a = forward_peer_last_tsn n ?a"
      using True pop by (subst forward_peer_last_tsn.simps) simp
    have "as_peer_last_tsn (forward_peer_last_tsn n ?a) = n \<and>
      pq_inv (n + 1) (as_payload_queue (forward_peer_last_tsn n ?a)) \<and>
      tsns_above (forward_peer_last_tsn n ?a) = {t \<in> tsns_above ?a. \<not> sna32lte t n}"
      using 1(1) [OF True] up q(1) pop by simp
    moreover have "tsns_above ?a = tsns_above a - {as_peer_last_tsn a + 1}"
      using q(2) by (simp add: tsns_above_def)
    ultimately show ?thesis using up step by auto
  next
    case False
    then have n: "as_peer_last_tsn a = n" using 1(3) by (simp add: sna32lte_def)
    have "\<not> sna32lte t n" if "t \<in> tsns_above a" for t
      using that 1(2) pq_inv_keys(3) n by (auto simp: tsns_above_def sna32lte_window)
    then show ?thesis using n 1(2) False by (auto simp: forward_peer_last_tsn.simps [of n a])
  qed
qed

lemma forward_streams_frame:
  "as_peer_last_tsn (foldl (\<lambda>a x. update_stream (f x) (g x) a) a xs) = as_peer_last_tsn a"
  "as_payload_queue (foldl (\<lambda>a x. update_stream (f x) (g x) a) a xs) = as_payload_queue a"
  by (induction xs arbitrary: a) simp_all

text \<open>C12: FORWARD-TSN in the receiver's specification, which is the cumulative TSN and the set of
  TSNs received above it.  The handler never fails.  When the extension was not negotiated, the
  specification's state and the streams stay as they are; so they do for an old TSN, which is
  answered with a SACK at once.  A new cumulative TSN ahead of the old one becomes the cumulative
  TSN, the received TSNs that are not above it are forgotten, and the cumulative TSN then advances
  over what was already received above it.  For a TSN exactly half of the range ahead, which is
  neither old nor new, the cumulative TSN and the received TSNs stay as they are (nothing is said
  there of the streams, which the code does forward).\<close>

theorem handle_forward_tsn_refines:
  assumes "receiver_inv a" and "handle_forward_tsn c a = (r, a')"
  shows "receiver_inv a' \<and> is_ok r \<and>
    (if \<not> as_use_forward_tsn a then receiver_abs a' = receiver_abs a \<and> as_streams a' = as_streams a
     else if sna32lte (ft_new_cumulative_tsn c) (as_peer_last_tsn a)
     then receiver_abs a' = receiver_abs a \<and> as_streams a' = as_streams a \<and> as_ack_state a' = Ack_Immediate \<and> sh_awake a'
     else if sna32lt (as_peer_last_tsn a) (ft_new_cumulative_tsn c)
     then advanced (ft_new_cumulative_tsn c, {t \<in> tsns_above a. \<not> sna32lte t (ft_new_cumulative_tsn c)}) (receiver_abs a')
     else receiver_abs a' = receiver_abs a)"
proof -
  let ?n = "ft_new_cumulative_tsn c"
  consider (ignored) "\<not> as_use_forward_tsn a \<or> sna32lte ?n (as_peer_last_tsn a)"
    | (forward) "as_use_forward_tsn a" "\<not> sna32lte ?n (as_peer_last_tsn a)" by blast
  then show ?thesis
  proof cases
    case ignored
    then show ?thesis
      using assms
      by (auto simp: handle_forward_tsn_def receiver_inv_def receiver_abs_def tsns_above_def awake_write_loop_def split: if_splits)
  next
    case forward
    then obtain b where b: "handle_peer_last_tsn_and_acknowledgement False b = (r, a')"
        "as_peer_last_tsn b = as_peer_last_tsn (forward_peer_last_tsn ?n a)"
        "as_payload_queue b = as_payload_queue (forward_peer_last_tsn ?n a)"
      using assms(2) by (auto simp: handle_forward_tsn_def Let_def forward_streams_frame)
    show ?thesis
    proof (cases "sna32lt (as_peer_last_tsn a) ?n")
      case True
      have f: "as_peer_last_tsn b = ?n" "pq_inv (?n + 1) (as_payload_queue b)"
          "tsns_above b = {t \<in> tsns_above a. \<not> sna32lte t ?n}"
        using forward_peer_last_tsn_spec [of a ?n] assms(1) True b
        by (simp_all add: receiver_inv_def sna32lte_def tsns_above_def)
      then show ?thesis using ack_handler_refines [OF b(1)] forward True by (simp add: receiver_abs_def)
    next
      case False
      then have same: "receiver_abs b = receiver_abs a" "as_payload_queue b = as_payload_queue a"
        using b(2,3) by (simp_all add: forward_peer_last_tsn.simps [of ?n a] receiver_abs_def tsns_above_def)
      then have r: "receiver_inv a'" "advanced (receiver_abs a) (receiver_abs a')" "is_ok r"
        using ack_handler_refines [OF b(1)] assms(1) by (simp_all add: receiver_inv_def receiver_abs_def)
      moreover have "fst (receiver_abs a) + 1 \<notin> snd (receiver_abs a)"
        using assms(1) by (simp add: receiver_inv_def receiver_abs_def)
      ultimately show ?thesis using forward False advanced_idle [OF r(2)] by simp
    qed
  qed
qed

theorem handle_forward_tsn_refines_witness:
  "advanced (20, {}) (receiver_abs (snd (handle_forward_tsn
     \<lparr>ft_new_cumulative_tsn = 20, ft_streams = []\<rparr> example_receiver)))"
  using handle_forward_tsn_refines [OF example_receiver_inv(1),
      of "\<lparr>ft_new_cumulative_tsn = 20, ft_streams = []\<rparr>"]
  by (simp add: prod_eq_iff example_receiver_inv sna32lt_iff sna32lte_def)

end
