(* ===== verification/Send.thy ===== *)
theory Send
  imports Receive
begin

text \<open>
  The sending half of the association: from the pending queue to the inflight queue, bundling
  into packets, retransmission, FORWARD-TSN, and \<^verbatim>\<open>gather_outbound\<close>, which collects what the
  write loop sends.

  The loop over the pending queue is a partial function: when the queue's front cannot be popped, it tries
  again, with a smaller window of the peer; that it ends is \<open>pop_pending_loop_any\<close>.  The
  loops over the inflight queue visit one TSN after the other until one is missing.  They are written
  as they stand, as partial functions, and once more with fuel, one more than the number of chunks
  in flight: every round but the last finds a different chunk (\<open>scan_stops\<close>).
\<close>

section \<open>Partial reliability\<close>

definition set_chunk_abandoned :: "payload_data \<Rightarrow> association \<Rightarrow> association" where
  "set_chunk_abandoned c a = a\<lparr>sh_cells := payload_data_set_abandoned c True (sh_cells a)\<rparr>"

definition check_partial_reliability_status :: "time_ms \<Rightarrow> payload_data \<Rightarrow> association \<Rightarrow> association" where
  "check_partial_reliability_status now c a =
     (if \<not> as_use_forward_tsn a then a
      else if pd_payload_type c = PPI_Dcep then a
      else
        case hm_get (as_streams a) (pd_stream_identifier c) of
          Some s \<Rightarrow>
            let reliability_type = reliability_type_of_u8 (st_reliability_type s);
                reliability_value = st_reliability_value s in
            if reliability_type = Rexmit then
              (if pd_nsent c \<ge> reliability_value then set_chunk_abandoned c a else a)
            else if reliability_type = Timed then
              (if pd_since c \<le> now then
                 let elapsed = now - pd_since c in
                 if of_nat elapsed \<ge> reliability_value then set_chunk_abandoned c a else a
               else a)
            else a
        | None \<Rightarrow> a)"

section \<open>New data\<close>

definition move_pending_data_chunk_to_inflight_queue ::
  "time_ms \<Rightarrow> bool \<Rightarrow> bool \<Rightarrow> association \<Rightarrow> payload_data option \<times> association" where
  "move_pending_data_chunk_to_inflight_queue now beginning_fragment unordered a =
     (case pending_queue_pop (sh_pending_queue a) beginning_fragment unordered of
        (Some c, q) \<Rightarrow>
          let a = a\<lparr>sh_pending_queue := q\<rparr>;
              a = (if pd_ending_fragment c
                   then a\<lparr>sh_cells := payload_data_set_all_inflight c (sh_cells a)\<rparr> else a);
              (tsn, a) = generate_next_tsn a;
              c = c\<lparr>pd_tsn := tsn, pd_since := now, pd_nsent := 1\<rparr>;
              a = check_partial_reliability_status now c a in
          (Some c, a\<lparr>as_inflight_queue := payload_queue_push_no_check (as_inflight_queue a) c\<rparr>)
      | (None, q) \<Rightarrow> (None, a\<lparr>sh_pending_queue := q\<rparr>))"

partial_function (option) pop_pending_loop ::
  "time_ms \<Rightarrow> association \<Rightarrow> payload_data list \<Rightarrow> u16 list
    \<Rightarrow> (payload_data list \<times> u16 list \<times> association) option" where
  "pop_pending_loop now a chunks sis_to_reset =
     (case pending_queue_peek (sh_pending_queue a) of
        None \<Rightarrow> Some (chunks, sis_to_reset, a)
      | Some c \<Rightarrow>
          let data_len = of_nat (length (pd_user_data c)) in
          if data_len = 0 then
            pop_pending_loop now
              (a\<lparr>sh_pending_queue :=
                   snd (pending_queue_pop (sh_pending_queue a) (pd_beginning_fragment c) (pd_unordered c))\<rparr>)
              chunks (sis_to_reset @ [pd_stream_identifier c])
          else if payload_queue_get_num_bytes (as_inflight_queue a) + data_len > ucast (as_cwnd a)
          then Some (chunks, sis_to_reset, a)
          else if data_len > ucast (as_rwnd a) then Some (chunks, sis_to_reset, a)
          else
            case move_pending_data_chunk_to_inflight_queue now (pd_beginning_fragment c) (pd_unordered c)
                   (a\<lparr>as_rwnd := as_rwnd a - ucast data_len\<rparr>) of
              (Some chunk, a) \<Rightarrow> pop_pending_loop now a (chunks @ [chunk]) sis_to_reset
            | (None, a) \<Rightarrow> pop_pending_loop now a chunks sis_to_reset)"

definition zero_window_probe :: "time_ms \<Rightarrow> association \<Rightarrow> payload_data list \<times> association" where
  "zero_window_probe now a =
     (case pending_queue_peek (sh_pending_queue a) of
        Some c \<Rightarrow>
          (case move_pending_data_chunk_to_inflight_queue now (pd_beginning_fragment c) (pd_unordered c) a of
             (Some chunk, a) \<Rightarrow> ([chunk], a)
           | (None, a) \<Rightarrow> ([], a))
      | None \<Rightarrow> ([], a))"

definition pop_pending_data_chunks_to_send ::
  "time_ms \<Rightarrow> association \<Rightarrow> ((payload_data list \<times> u16 list) outcome \<times> association) option" where
  "pop_pending_data_chunks_to_send now a =
     (if pending_queue_len (sh_pending_queue a) = 0 then Some (Ok ([], []), a)
      else
        case pop_pending_loop now a [] [] of
          None \<Rightarrow> None
        | Some (chunks, sis_to_reset, a) \<Rightarrow>
            Some (if chunks \<noteq> [] then (Ok (chunks, sis_to_reset), a)
                  else
                    then_do (payload_queue_is_empty (as_inflight_queue a), a) (\<lambda>none_inflight a.
                      if none_inflight then
                        (case zero_window_probe now a of (chunks, a) \<Rightarrow> (Ok (chunks, sis_to_reset), a))
                      else (Ok ([], sis_to_reset), a))))"

section \<open>Bundling\<close>

fun bundle_loop :: "association \<Rightarrow> payload_data list \<Rightarrow> chunk list \<Rightarrow> u32 \<Rightarrow> packet list" where
  "bundle_loop a [] chunks_to_send bytes_in_packet =
     (if chunks_to_send \<noteq> [] then [create_packet a chunks_to_send] else [])"
| "bundle_loop a (c # cs) chunks_to_send bytes_in_packet =
     (let len = of_nat (length (pd_user_data c)) in
      if bytes_in_packet + len > as_mtu a
      then create_packet a chunks_to_send
             # bundle_loop a cs [ChunkPayloadData c] (COMMON_HEADER_SIZE + (DATA_CHUNK_HEADER_SIZE + len))
      else bundle_loop a cs (chunks_to_send @ [ChunkPayloadData c])
             (bytes_in_packet + (DATA_CHUNK_HEADER_SIZE + len)))"

definition bundle_data_chunks_into_packets :: "payload_data list \<Rightarrow> association \<Rightarrow> packet list" where
  "bundle_data_chunks_into_packets chunks a = bundle_loop a chunks [] COMMON_HEADER_SIZE"

section \<open>Retransmission\<close>

definition inflight_fuel :: "association \<Rightarrow> nat" where
  "inflight_fuel a = Suc (length (pq_chunk_map (as_inflight_queue a)))"

text \<open>What a retransmission changes in the chunk.\<close>

definition retransmitted :: "payload_data \<Rightarrow> payload_data" where
  "retransmitted c = c\<lparr>pd_retransmit := False, pd_nsent := pd_nsent c + 1\<rparr>"

definition fast_retransmitted :: "payload_data \<Rightarrow> payload_data" where
  "fast_retransmitted c = c\<lparr>pd_nsent := pd_nsent c + 1\<rparr>"

text \<open>
  The loop as it is written, until a TSN is missing or the window is full: \<open>None\<close> if it never ends.
  The functions below use \<open>retransmit_loop\<close>, the same loop with fuel; \<open>inflight_loops_end\<close> shows that both
  are the same.
\<close>

partial_function (option) retransmit_while ::
  "time_ms \<Rightarrow> u32 \<Rightarrow> u32 \<Rightarrow> usize \<Rightarrow> payload_data list \<Rightarrow> association
    \<Rightarrow> (payload_data list \<times> association) option" where
  "retransmit_while now awnd i bytes_to_send chunks a =
     (let tsn = as_cumulative_tsn_ack_point a + i + 1 in
      case payload_queue_get (as_inflight_queue a) tsn of
        None \<Rightarrow> Some (chunks, a)
      | Some c \<Rightarrow>
          if \<not> pd_retransmit c then retransmit_while now awnd (i + 1) bytes_to_send chunks a
          else
            let done = (i = 0 \<and> as_rwnd a < of_nat (length (pd_user_data c))) in
            if \<not> done \<and> bytes_to_send + of_nat (length (pd_user_data c)) > ucast awnd then Some (chunks, a)
            else
              let a = a\<lparr>as_inflight_queue := payload_queue_update (as_inflight_queue a) tsn retransmitted\<rparr>;
                  bytes_to_send = bytes_to_send + of_nat (length (pd_user_data c));
                  a = check_partial_reliability_status now (retransmitted c) a;
                  chunks = chunks @ [retransmitted c] in
              if done then Some (chunks, a)
              else retransmit_while now awnd (i + 1) bytes_to_send chunks a)"

fun retransmit_loop ::
  "nat \<Rightarrow> time_ms \<Rightarrow> u32 \<Rightarrow> u32 \<Rightarrow> usize \<Rightarrow> payload_data list \<Rightarrow> association
    \<Rightarrow> payload_data list \<times> association" where
  "retransmit_loop 0 now awnd i bytes_to_send chunks a = (chunks, a)"
| "retransmit_loop (Suc fuel) now awnd i bytes_to_send chunks a =
     (let tsn = as_cumulative_tsn_ack_point a + i + 1 in
      case payload_queue_get (as_inflight_queue a) tsn of
        None \<Rightarrow> (chunks, a)
      | Some c \<Rightarrow>
          if \<not> pd_retransmit c then retransmit_loop fuel now awnd (i + 1) bytes_to_send chunks a
          else
            let done = (i = 0 \<and> as_rwnd a < of_nat (length (pd_user_data c))) in
            if \<not> done \<and> bytes_to_send + of_nat (length (pd_user_data c)) > ucast awnd then (chunks, a)
            else
              let a = a\<lparr>as_inflight_queue := payload_queue_update (as_inflight_queue a) tsn retransmitted\<rparr>;
                  bytes_to_send = bytes_to_send + of_nat (length (pd_user_data c));
                  a = check_partial_reliability_status now (retransmitted c) a;
                  chunks = chunks @ [retransmitted c] in
              if done then (chunks, a)
              else retransmit_loop fuel now awnd (i + 1) bytes_to_send chunks a)"

definition get_data_packets_to_retransmit :: "time_ms \<Rightarrow> association \<Rightarrow> packet list \<times> association" where
  "get_data_packets_to_retransmit now a =
     (let awnd = min (as_cwnd a) (as_rwnd a);
          (chunks, a) = retransmit_loop (inflight_fuel a) now awnd 0 0 [] a in
      (bundle_data_chunks_into_packets chunks a, a))"

partial_function (option) fast_retransmit_while ::
  "time_ms \<Rightarrow> u32 \<Rightarrow> u32 \<Rightarrow> payload_data list \<Rightarrow> association \<Rightarrow> (payload_data list \<times> association) option" where
  "fast_retransmit_while now i fast_retrans_size to_fast_retrans a =
     (let tsn = as_cumulative_tsn_ack_point a + i + 1 in
      case payload_queue_get (as_inflight_queue a) tsn of
        None \<Rightarrow> Some (to_fast_retrans, a)
      | Some c \<Rightarrow>
          if pd_acked c \<or> payload_data_abandoned (sh_cells a) c \<or> pd_nsent c > 1 \<or> pd_miss_indicator c < 3
          then fast_retransmit_while now (i + 1) fast_retrans_size to_fast_retrans a
          else
            let data_chunk_size = DATA_CHUNK_HEADER_SIZE + of_nat (length (pd_user_data c)) in
            if as_mtu a < fast_retrans_size + data_chunk_size then Some (to_fast_retrans, a)
            else
              let a = a\<lparr>as_stats := inc_fast_retrans (as_stats a),
                        as_inflight_queue := payload_queue_update (as_inflight_queue a) tsn fast_retransmitted\<rparr>;
                  a = check_partial_reliability_status now (fast_retransmitted c) a in
              fast_retransmit_while now (i + 1) (fast_retrans_size + data_chunk_size)
                (to_fast_retrans @ [fast_retransmitted c]) a)"

fun fast_retransmit_loop ::
  "nat \<Rightarrow> time_ms \<Rightarrow> u32 \<Rightarrow> u32 \<Rightarrow> payload_data list \<Rightarrow> association \<Rightarrow> payload_data list \<times> association" where
  "fast_retransmit_loop 0 now i fast_retrans_size to_fast_retrans a = (to_fast_retrans, a)"
| "fast_retransmit_loop (Suc fuel) now i fast_retrans_size to_fast_retrans a =
     (let tsn = as_cumulative_tsn_ack_point a + i + 1 in
      case payload_queue_get (as_inflight_queue a) tsn of
        None \<Rightarrow> (to_fast_retrans, a)
      | Some c \<Rightarrow>
          if pd_acked c \<or> payload_data_abandoned (sh_cells a) c \<or> pd_nsent c > 1 \<or> pd_miss_indicator c < 3
          then fast_retransmit_loop fuel now (i + 1) fast_retrans_size to_fast_retrans a
          else
            let data_chunk_size = DATA_CHUNK_HEADER_SIZE + of_nat (length (pd_user_data c)) in
            if as_mtu a < fast_retrans_size + data_chunk_size then (to_fast_retrans, a)
            else
              let a = a\<lparr>as_stats := inc_fast_retrans (as_stats a),
                        as_inflight_queue := payload_queue_update (as_inflight_queue a) tsn fast_retransmitted\<rparr>;
                  a = check_partial_reliability_status now (fast_retransmitted c) a in
              fast_retransmit_loop fuel now (i + 1) (fast_retrans_size + data_chunk_size)
                (to_fast_retrans @ [fast_retransmitted c]) a)"

section \<open>FORWARD-TSN\<close>

text \<open>The largest stream sequence number of every stream among the abandoned chunks.\<close>

definition report_ssn :: "payload_data \<Rightarrow> (u16, u16) hmap \<Rightarrow> (u16, u16) hmap" where
  "report_ssn c stream_map =
     (case hm_get stream_map (pd_stream_identifier c) of
        Some ssn \<Rightarrow>
          if sna16lt ssn (pd_stream_sequence_number c)
          then hm_insert (pd_stream_identifier c) (pd_stream_sequence_number c) stream_map else stream_map
      | None \<Rightarrow> hm_insert (pd_stream_identifier c) (pd_stream_sequence_number c) stream_map)"

function forward_tsn_loop :: "payload_queue \<Rightarrow> u32 \<Rightarrow> u32 \<Rightarrow> (u16, u16) hmap \<Rightarrow> (u16, u16) hmap" where
  "forward_tsn_loop q advanced_point i stream_map =
     (if sna32lte i advanced_point then
        case payload_queue_get q i of
          Some c \<Rightarrow> forward_tsn_loop q advanced_point (i + 1) (report_ssn c stream_map)
        | None \<Rightarrow> stream_map
      else stream_map)"
  by pat_completeness auto
termination
proof (relation "measure (\<lambda>(q, n, i, m). unat (n + 1 - i))", goal_cases)
  case (2 q n i m c)
  then have "n + 1 \<noteq> i" using s32.asym s32.lt_succ by (auto simp: sna32lte_def)
  then have "0 < unat (n + 1 - i)" by (simp add: unat_gt_0)
  then show ?case using \<open>n + 1 \<noteq> i\<close> unat_diff_succ [of "n + 1" i] by simp
qed simp

declare forward_tsn_loop.simps [simp del]

definition create_forward_tsn :: "association \<Rightarrow> chunk_forward_tsn" where
  "create_forward_tsn a =
     (let stream_map = forward_tsn_loop (as_inflight_queue a) (as_advanced_peer_tsn_ack_point a)
            (as_cumulative_tsn_ack_point a + 1) [] in
      \<lparr>ft_new_cumulative_tsn = as_advanced_peer_tsn_ack_point a,
       ft_streams = map (\<lambda>(si, ssn). \<lparr>fs_identifier = si, fs_sequence = ssn\<rparr>) stream_map\<rparr>)"

text \<open>\<^verbatim>\<open>Advanced.Peer.Ack.Point\<close> of RFC 3758: over the abandoned chunks above it.\<close>

partial_function (option) advance_peer_ack_while :: "u32 \<Rightarrow> association \<Rightarrow> association option" where
  "advance_peer_ack_while i a =
     (case payload_queue_get (as_inflight_queue a) i of
        None \<Rightarrow> Some a
      | Some c \<Rightarrow>
          if \<not> payload_data_abandoned (sh_cells a) c then Some a
          else advance_peer_ack_while (i + 1) (a\<lparr>as_advanced_peer_tsn_ack_point := i\<rparr>))"

fun advance_peer_ack_loop :: "nat \<Rightarrow> u32 \<Rightarrow> association \<Rightarrow> association" where
  "advance_peer_ack_loop 0 i a = a"
| "advance_peer_ack_loop (Suc fuel) i a =
     (case payload_queue_get (as_inflight_queue a) i of
        None \<Rightarrow> a
      | Some c \<Rightarrow>
          if \<not> payload_data_abandoned (sh_cells a) c then a
          else advance_peer_ack_loop fuel (i + 1) (a\<lparr>as_advanced_peer_tsn_ack_point := i\<rparr>))"

section \<open>Collecting the outbound packets\<close>

text \<open>A packet that cannot be encoded is logged and left out; encoding never panics.\<close>

definition push_raw :: "(bytes \<Rightarrow> u32) \<Rightarrow> bytes list \<Rightarrow> packet \<Rightarrow> bytes list" where
  "push_raw crc raw_packets p =
     (case packet_marshal crc p of Ok raw \<Rightarrow> raw_packets @ [raw] | _ \<Rightarrow> raw_packets)"

type_synonym gather = "bytes list outcome \<times> association"

definition gather_data_packets_to_retransmit ::
  "(bytes \<Rightarrow> u32) \<Rightarrow> time_ms \<Rightarrow> bytes list \<Rightarrow> association \<Rightarrow> bytes list \<times> association" where
  "gather_data_packets_to_retransmit crc now raw_packets a =
     (case get_data_packets_to_retransmit now a of
        (ps, a) \<Rightarrow> (foldl (push_raw crc) raw_packets ps, a))"

definition gather_reconfig_packets ::
  "(bytes \<Rightarrow> u32) \<Rightarrow> u16 list \<Rightarrow> bytes list \<Rightarrow> association \<Rightarrow> bytes list \<times> association" where
  "gather_reconfig_packets crc sis_to_reset raw_packets a =
     (if sis_to_reset \<noteq> [] \<or> as_will_retransmit_reconfig a then
        let (raw_packets, a) =
              (if as_will_retransmit_reconfig a then
                 let a = a\<lparr>as_will_retransmit_reconfig := False\<rparr> in
                 (foldl (\<lambda>r c. push_raw crc r (create_packet a [ChunkReconfig c])) raw_packets
                    (hm_values (as_reconfigs a)), a)
               else (raw_packets, a));
            (raw_packets, a) =
              (if sis_to_reset \<noteq> [] then
                 let (rsn, a) = generate_next_rsn a;
                     tsn = as_my_next_tsn a - 1;
                     c = \<lparr>cr_param_a = Some (ParamOutgoingResetRequest
                            \<lparr>reconfig_request_sequence_number = rsn, orr_reconfig_response_sequence_number = 0,
                             sender_last_tsn = tsn, stream_identifiers = sis_to_reset\<rparr>),
                          cr_param_b = None\<rparr>;
                     a = a\<lparr>as_reconfigs := hm_insert rsn c (as_reconfigs a)\<rparr> in
                 (push_raw crc raw_packets (create_packet a [ChunkReconfig c]), a)
               else (raw_packets, a)) in
        (raw_packets,
         if as_reconfigs a \<noteq> []
         then a\<lparr>as_treconfig := snd (rtx_timer_start (as_treconfig a) (rto_manager_get_rto (as_rto_mgr a)))\<rparr>
         else a)
      else (raw_packets, a))"

definition gather_outbound_data_and_reconfig_packets ::
  "(bytes \<Rightarrow> u32) \<Rightarrow> time_ms \<Rightarrow> bytes list \<Rightarrow> association \<Rightarrow> gather option" where
  "gather_outbound_data_and_reconfig_packets crc now raw_packets a =
     (case pop_pending_data_chunks_to_send now a of
        None \<Rightarrow> None
      | Some r \<Rightarrow>
          Some (then_do r (\<lambda>(chunks, sis_to_reset) a.
            let (raw_packets, a) =
                  (if chunks \<noteq> [] then
                     let a = start_t3rtx a in
                     (foldl (push_raw crc) raw_packets (bundle_data_chunks_into_packets chunks a), a)
                   else (raw_packets, a));
                (raw_packets, a) = gather_reconfig_packets crc sis_to_reset raw_packets a in
            (Ok raw_packets, a))))"

definition gather_outbound_fast_retransmission_packets ::
  "(bytes \<Rightarrow> u32) \<Rightarrow> time_ms \<Rightarrow> bytes list \<Rightarrow> association \<Rightarrow> bytes list \<times> association" where
  "gather_outbound_fast_retransmission_packets crc now raw_packets a =
     (if as_will_retransmit_fast a then
        let a = a\<lparr>as_will_retransmit_fast := False\<rparr>;
            (to_fast_retrans, a) = fast_retransmit_loop (inflight_fuel a) now 0 COMMON_HEADER_SIZE [] a in
        (if to_fast_retrans \<noteq> []
         then push_raw crc raw_packets (create_packet a (map ChunkPayloadData to_fast_retrans))
         else raw_packets, a)
      else (raw_packets, a))"

definition gather_outbound_sack_packets ::
  "(bytes \<Rightarrow> u32) \<Rightarrow> bytes list \<Rightarrow> association \<Rightarrow> bytes list \<times> association" where
  "gather_outbound_sack_packets crc raw_packets a =
     (if as_ack_state a = Ack_Immediate then
        let a = a\<lparr>as_ack_state := Ack_Idle\<rparr>;
            (sack, a) = create_selective_ack_chunk a in
        (push_raw crc raw_packets (create_packet a [ChunkSelectiveAck sack]), a)
      else (raw_packets, a))"

definition gather_outbound_forward_tsn_packets ::
  "(bytes \<Rightarrow> u32) \<Rightarrow> bytes list \<Rightarrow> association \<Rightarrow> bytes list \<times> association" where
  "gather_outbound_forward_tsn_packets crc raw_packets a =
     (if as_will_send_forward_tsn a then
        let a = a\<lparr>as_will_send_forward_tsn := False\<rparr> in
        if sna32gt (as_advanced_peer_tsn_ack_point a) (as_cumulative_tsn_ack_point a)
        then (push_raw crc raw_packets (create_packet a [ChunkForwardTsn (create_forward_tsn a)]), a)
        else (raw_packets, a)
      else (raw_packets, a))"

text \<open>The second result says whether the write loop goes on.\<close>

definition gather_outbound_shutdown_packets ::
  "(bytes \<Rightarrow> u32) \<Rightarrow> bytes list \<Rightarrow> association \<Rightarrow> bytes list \<times> bool \<times> association" where
  "gather_outbound_shutdown_packets crc raw_packets a =
     (if as_will_send_shutdown a then
        let a = a\<lparr>as_will_send_shutdown := False\<rparr>;
            shutdown = \<lparr>sd_cumulative_tsn_ack = as_cumulative_tsn_ack_point a\<rparr> in
        case packet_marshal crc (create_packet a [ChunkShutdown shutdown]) of
          Ok raw \<Rightarrow> (raw_packets @ [raw], True, start_t2shutdown a)
        | _ \<Rightarrow> (raw_packets, True, a)
      else if as_will_send_shutdown_ack a then
        let a = a\<lparr>as_will_send_shutdown_ack := False\<rparr> in
        case packet_marshal crc (create_packet a [ChunkShutdownAck]) of
          Ok raw \<Rightarrow> (raw_packets @ [raw], True, start_t2shutdown a)
        | _ \<Rightarrow> (raw_packets, True, a)
      else if as_will_send_shutdown_complete a then
        let a = a\<lparr>as_will_send_shutdown_complete := False\<rparr> in
        case packet_marshal crc (create_packet a [ChunkShutdownComplete]) of
          Ok raw \<Rightarrow> (raw_packets @ [raw], False, a)
        | _ \<Rightarrow> (raw_packets, True, a)
      else (raw_packets, True, a))"

definition gather_outbound ::
  "(bytes \<Rightarrow> u32) \<Rightarrow> time_ms \<Rightarrow> association \<Rightarrow> ((bytes list \<times> bool) outcome \<times> association) option" where
  "gather_outbound crc now a =
     (let raw_packets = foldl (push_raw crc) [] (as_control_queue a);
          a = a\<lparr>as_control_queue := []\<rparr> in
      if get_state a = Established then
        let (raw_packets, a) = gather_data_packets_to_retransmit crc now raw_packets a in
        case gather_outbound_data_and_reconfig_packets crc now raw_packets a of
          None \<Rightarrow> None
        | Some r \<Rightarrow>
            Some (then_do r (\<lambda>raw_packets a.
              let (raw_packets, a) = gather_outbound_fast_retransmission_packets crc now raw_packets a;
                  (raw_packets, a) = gather_outbound_sack_packets crc raw_packets a;
                  (raw_packets, a) = gather_outbound_forward_tsn_packets crc raw_packets a in
              (Ok (raw_packets, True), a)))
      else if get_state a \<in> {ShutdownPending, ShutdownSent, ShutdownReceived} then
        let (raw_packets, a) = gather_data_packets_to_retransmit crc now raw_packets a;
            (raw_packets, a) = gather_outbound_fast_retransmission_packets crc now raw_packets a;
            (raw_packets, a) = gather_outbound_sack_packets crc raw_packets a;
            (raw_packets, ok, a) = gather_outbound_shutdown_packets crc raw_packets a in
        Some (Ok (raw_packets, ok), a)
      else if get_state a = ShutdownAckSent then
        let (raw_packets, ok, a) = gather_outbound_shutdown_packets crc raw_packets a in
        Some (Ok (raw_packets, ok), a)
      else Some (Ok (raw_packets, True), a))"


section \<open>The loops over the inflight queue\<close>

text \<open>More TSNs in a row than the queue has chunks cannot all be queued.\<close>

lemma scan_stops:
  fixes m :: "(u32, 'v) hmap"
  assumes "hm_wf m" and "length m < 2 ^ 32"
  shows "\<exists>j < Suc (length m). hm_get m (t + of_nat j) = None"
proof (rule ccontr)
  assume "\<not> ?thesis"
  then have sub: "(\<lambda>j. t + of_nat j) ` {..<Suc (length m)} \<subseteq> dom (hm_get m)" by auto
  have inj: "inj_on (\<lambda>j. t + of_nat j) {..<Suc (length m)}"
  proof
    fix i j assume "i \<in> {..<Suc (length m)}" "j \<in> {..<Suc (length m)}"
      and e: "t + of_nat i = t + (of_nat j :: u32)"
    then have b: "i < 2 ^ 32" "j < 2 ^ 32" using assms(2) by auto
    have "unat (of_nat i :: u32) = unat (of_nat j :: u32)" using e by simp
    then show "i = j" using b unat_of_nat_less [where 'w = 32] by simp
  qed
  have "card (dom (hm_get m)) = length m"
    using assms(1) by (metis dom_map_of_conv_image_fst distinct_card length_map set_map)
  then show False
    using card_mono [OF finite_dom_map_of sub] card_image [OF inj] by simp
qed

lemma update_keys [simp]:
  "dom (hm_get (pq_chunk_map (payload_queue_update q t f))) = dom (hm_get (pq_chunk_map q))"
  "length (pq_chunk_map (payload_queue_update q t f)) = length (pq_chunk_map q)"
  "pq_n_bytes (payload_queue_update q t f) = pq_n_bytes q"
proof -
  show "length (pq_chunk_map (payload_queue_update q t f)) = length (pq_chunk_map q)"
    by (auto simp: payload_queue_update_def split: option.splits)
      (metis keys_insert_old length_map option.distinct(1))
qed (auto simp: payload_queue_update_def update_conv' split: option.splits if_splits)

lemma update_None [simp]:
  "hm_get (pq_chunk_map (payload_queue_update q t f)) u = None \<longleftrightarrow> hm_get (pq_chunk_map q) u = None"
  using update_keys(1) [of q t f] by (metis domIff)

text \<open>The check of partial reliability writes flags and nothing else.\<close>

lemma check_partial_reliability_fields [simp]:
  "as_inflight_queue (check_partial_reliability_status now c a) = as_inflight_queue a"
  "as_cumulative_tsn_ack_point (check_partial_reliability_status now c a) = as_cumulative_tsn_ack_point a"
  "as_my_next_tsn (check_partial_reliability_status now c a) = as_my_next_tsn a"
  "sh_pending_queue (check_partial_reliability_status now c a) = sh_pending_queue a"
  "sh_state (check_partial_reliability_status now c a) = sh_state a"
  "as_cwnd (check_partial_reliability_status now c a) = as_cwnd a"
  "as_rwnd (check_partial_reliability_status now c a) = as_rwnd a"
  "as_mtu (check_partial_reliability_status now c a) = as_mtu a"
  "as_payload_queue (check_partial_reliability_status now c a) = as_payload_queue a"
  "as_peer_last_tsn (check_partial_reliability_status now c a) = as_peer_last_tsn a"
  by (simp_all add: check_partial_reliability_status_def set_chunk_abandoned_def Let_def split: option.splits)

lemma check_partial_reliability_idem [simp]:
  "check_partial_reliability_status now c a\<lparr>as_inflight_queue := q\<rparr> =
    (check_partial_reliability_status now c (a\<lparr>as_inflight_queue := q\<rparr>))"
  by (simp add: check_partial_reliability_status_def set_chunk_abandoned_def Let_def split: option.splits)

text \<open>The loops end, within the fuel, and with its result.\<close>

lemma retransmit_while_ends:
  assumes "\<exists>j < fuel. hm_get (pq_chunk_map (as_inflight_queue a))
      (as_cumulative_tsn_ack_point a + i + 1 + of_nat j) = None"
  shows "retransmit_while now awnd i b cs a = Some (retransmit_loop fuel now awnd i b cs a)"
  using assms
proof (induction fuel arbitrary: i b cs a)
  case (Suc fuel)
  obtain j where j: "j < Suc fuel"
      "hm_get (pq_chunk_map (as_inflight_queue a)) (as_cumulative_tsn_ack_point a + i + 1 + of_nat j) = None"
    using Suc.prems by blast
  show ?case
  proof (cases j)
    case 0
    then show ?thesis using j by (subst retransmit_while.simps) (simp add: payload_queue_get_def)
  next
    case (Suc n)
    have IH: "retransmit_while now awnd (i + 1) b cs x = Some (retransmit_loop fuel now awnd (i + 1) b cs x)"
      if "as_cumulative_tsn_ack_point x = as_cumulative_tsn_ack_point a"
        "hm_get (pq_chunk_map (as_inflight_queue x)) (as_cumulative_tsn_ack_point a + i + 1 + of_nat j) = None"
      for b cs x
      by (rule Suc.IH) (use that j(1) in \<open>auto simp: Suc algebra_simps intro!: exI [of _ n]\<close>)
    then show ?thesis using j(2)
      by (subst retransmit_while.simps) (simp add: IH Let_def split: option.splits)
  qed
qed simp

lemma fast_retransmit_while_ends:
  assumes "\<exists>j < fuel. hm_get (pq_chunk_map (as_inflight_queue a))
      (as_cumulative_tsn_ack_point a + i + 1 + of_nat j) = None"
  shows "fast_retransmit_while now i b cs a = Some (fast_retransmit_loop fuel now i b cs a)"
  using assms
proof (induction fuel arbitrary: i b cs a)
  case (Suc fuel)
  obtain j where j: "j < Suc fuel"
      "hm_get (pq_chunk_map (as_inflight_queue a)) (as_cumulative_tsn_ack_point a + i + 1 + of_nat j) = None"
    using Suc.prems by blast
  show ?case
  proof (cases j)
    case 0
    then show ?thesis using j by (subst fast_retransmit_while.simps) (simp add: payload_queue_get_def)
  next
    case (Suc n)
    have IH: "fast_retransmit_while now (i + 1) b cs x = Some (fast_retransmit_loop fuel now (i + 1) b cs x)"
      if "as_cumulative_tsn_ack_point x = as_cumulative_tsn_ack_point a"
        "hm_get (pq_chunk_map (as_inflight_queue x)) (as_cumulative_tsn_ack_point a + i + 1 + of_nat j) = None"
      for b cs x
      by (rule Suc.IH) (use that j(1) in \<open>auto simp: Suc algebra_simps intro!: exI [of _ n]\<close>)
    then show ?thesis using j(2)
      by (subst fast_retransmit_while.simps) (simp add: IH Let_def split: option.splits)
  qed
qed simp

lemma advance_peer_ack_while_ends:
  assumes "\<exists>j < fuel. hm_get (pq_chunk_map (as_inflight_queue a)) (i + of_nat j) = None"
  shows "advance_peer_ack_while i a = Some (advance_peer_ack_loop fuel i a)"
  using assms
proof (induction fuel arbitrary: i a)
  case (Suc fuel)
  obtain j where j: "j < Suc fuel" "hm_get (pq_chunk_map (as_inflight_queue a)) (i + of_nat j) = None"
    using Suc.prems by blast
  show ?case
  proof (cases j)
    case 0
    then show ?thesis using j by (subst advance_peer_ack_while.simps) (simp add: payload_queue_get_def)
  next
    case (Suc n)
    have "advance_peer_ack_while (i + 1) (a\<lparr>as_advanced_peer_tsn_ack_point := i\<rparr>) =
        Some (advance_peer_ack_loop fuel (i + 1) (a\<lparr>as_advanced_peer_tsn_ack_point := i\<rparr>))"
      by (rule Suc.IH) (use j Suc in \<open>auto simp: algebra_simps intro!: exI [of _ n]\<close>)
    then show ?thesis by (subst advance_peer_ack_while.simps) (simp split: option.splits)
  qed
qed simp

text \<open>C40: the three loops over the inflight queue end.  They are written with no bound: each goes from one
  TSN to the next until one is missing.  With fewer than \<open>2 ^ 32\<close> chunks in flight each of them
  returns, from whatever offset and whatever was collected before; and what it returns is what the
  functions with fuel compute, which stand for them in the rest of the model.\<close>

theorem inflight_loops_end:
  assumes "hm_wf (pq_chunk_map (as_inflight_queue a))"
    and "length (pq_chunk_map (as_inflight_queue a)) < 2 ^ 32"
  shows "retransmit_while now awnd i b cs a = Some (retransmit_loop (inflight_fuel a) now awnd i b cs a) \<and>
    fast_retransmit_while now i' b' cs a = Some (fast_retransmit_loop (inflight_fuel a) now i' b' cs a) \<and>
    advance_peer_ack_while t a = Some (advance_peer_ack_loop (inflight_fuel a) t a)"
  unfolding inflight_fuel_def
  by (intro conjI retransmit_while_ends fast_retransmit_while_ends advance_peer_ack_while_ends
      scan_stops [OF assms])

text \<open>A chunk in flight that is not marked is passed over, and the loop ends behind it.\<close>

definition example_in_flight :: association where
  "example_in_flight = example_receiver\<lparr>as_cumulative_tsn_ack_point := 4,
     as_inflight_queue := payload_queue_push_no_check payload_queue_new ((example_data 5)\<lparr>pd_tsn := 5\<rparr>)\<rparr>"

theorem inflight_loops_end_witness:
  "retransmit_while 0 9 0 0 [] example_in_flight = Some ([], example_in_flight)"
proof -
  have f: "pq_chunk_map (as_inflight_queue example_in_flight) = [(5, (example_data 5)\<lparr>pd_tsn := 5\<rparr>)]"
    "as_cumulative_tsn_ack_point example_in_flight = 4"
    by (simp_all add: example_in_flight_def payload_queue_push_no_check_def payload_queue_new_def
        update_sorted_keys_def)
  have "\<not> pd_retransmit ((example_data 5)\<lparr>pd_tsn := 5\<rparr>)" by (simp add: example_data_def payload_data_default_def)
  then show ?thesis
    using inflight_loops_end [of example_in_flight 0 9 0 0 "[]" 0 0 0]
    by (simp add: f inflight_fuel_def payload_queue_get_def)
qed

section \<open>The sender's invariant\<close>

text \<open>
  The inflight queue holds exactly the TSNs from the cumulative TSN ack point (excluded) to the
  next TSN (excluded); the pending queue counts what it holds; chunks are shorter than \<open>2 ^ 32\<close> bytes.
\<close>

definition short :: "payload_data \<Rightarrow> bool" where
  "short c \<longleftrightarrow> length (pd_user_data c) < 2 ^ 32"

definition flight_base :: "association \<Rightarrow> u32" where
  "flight_base a = as_cumulative_tsn_ack_point a + 1"

definition flight_length :: "association \<Rightarrow> nat" where
  "flight_length a = unat (as_my_next_tsn a - flight_base a)"

definition pending_length :: "association \<Rightarrow> nat" where
  "pending_length a =
     length (pg_unordered_queue (sh_pending_queue a)) + length (pg_ordered_queue (sh_pending_queue a))"

definition contiguous :: "u32 \<Rightarrow> u32 \<Rightarrow> payload_queue \<Rightarrow> bool" where
  "contiguous base next q \<longleftrightarrow> (\<forall>t. hm_get (pq_chunk_map q) t \<noteq> None \<longleftrightarrow> t - base < next - base)"

definition flight_inv :: "association \<Rightarrow> bool" where
  "flight_inv a \<longleftrightarrow>
     pq_inv (flight_base a) (as_inflight_queue a) \<and>
     contiguous (flight_base a) (as_my_next_tsn a) (as_inflight_queue a) \<and>
     (\<forall>t c. hm_get (pq_chunk_map (as_inflight_queue a)) t = Some c \<longrightarrow> short c) \<and>
     pending_base (sh_pending_queue a) \<and>
     list_all short (pg_unordered_queue (sh_pending_queue a)) \<and>
     list_all short (pg_ordered_queue (sh_pending_queue a))"

lemma contiguousD: "contiguous base next q \<Longrightarrow>
    hm_get (pq_chunk_map q) t = None \<longleftrightarrow> \<not> t - base < next - base"
  by (metis contiguous_def)

lemma contiguous_length:
  assumes "contiguous base next q" and "hm_wf (pq_chunk_map q)"
  shows "length (pq_chunk_map q) = unat (next - base)"
proof -
  let ?n = "unat (next - base)"
  have n: "?n < 2 ^ 32" using unat_less_pow [of "next - base"] by simp
  have "dom (hm_get (pq_chunk_map q)) = (\<lambda>i. base + of_nat i) ` {..<?n}"
  proof (intro set_eqI iffI)
    fix t assume "t \<in> dom (hm_get (pq_chunk_map q))"
    then have "t - base < next - base" using assms(1) by (auto simp: contiguous_def)
    then have "unat (t - base) < ?n" by (simp add: word_less_nat_alt)
    moreover have "t = base + of_nat (unat (t - base))" by simp
    ultimately show "t \<in> (\<lambda>i. base + of_nat i) ` {..<?n}" by blast
  next
    fix t assume "t \<in> (\<lambda>i. base + of_nat i) ` {..<?n}"
    then obtain i where i: "i < ?n" "t = base + of_nat i" by blast
    then have "t - base < next - base"
      using n by (simp add: word_less_nat_alt unat_of_nat_less)
    then show "t \<in> dom (hm_get (pq_chunk_map q))" using assms(1) by (auto simp: contiguous_def)
  qed
  moreover have "inj_on (\<lambda>i. base + of_nat i) {..<?n}"
  proof
    fix i j assume b: "i \<in> {..<?n}" "j \<in> {..<?n}" and "base + of_nat i = base + (of_nat j :: u32)"
    then have "unat (of_nat i :: u32) = unat (of_nat j :: u32)" by simp
    moreover have "i < 2 ^ 32" "j < 2 ^ 32" using b n by auto
    ultimately show "i = j" using unat_of_nat_less [where 'w = 32] by simp
  qed
  ultimately have "card (dom (hm_get (pq_chunk_map q))) = ?n" by (simp add: card_image)
  moreover have "card (dom (hm_get (pq_chunk_map q))) = length (pq_chunk_map q)"
    using assms(2) by (metis dom_map_of_conv_image_fst distinct_card length_map set_map)
  ultimately show ?thesis by simp
qed

lemma flight_length_eq: "flight_inv a \<Longrightarrow> length (pq_chunk_map (as_inflight_queue a)) = flight_length a"
  using contiguous_length by (auto simp: flight_inv_def flight_length_def pq_inv_def)

lemma usize_of_nat_eq_0: "n < 2 ^ 64 \<Longrightarrow> (of_nat n :: usize) = 0 \<longleftrightarrow> n = 0"
  using unat_of_nat_less [where 'w = 64, of n] by (cases "n = 0") auto

lemma flight_is_empty:
  "flight_inv a \<Longrightarrow> payload_queue_is_empty (as_inflight_queue a) = Ok (pq_chunk_map (as_inflight_queue a) = [])"
proof -
  assume a: "flight_inv a"
  have "length (pq_chunk_map (as_inflight_queue a)) < 2 ^ 32"
    using flight_length_eq [OF a] unat_less_pow [of "as_my_next_tsn a - flight_base a"] by (simp add: flight_length_def)
  then have "(of_nat (length (pq_chunk_map (as_inflight_queue a))) :: usize) = 0 \<longleftrightarrow>
      pq_chunk_map (as_inflight_queue a) = []"
    by (simp add: usize_of_nat_eq_0)
  moreover have "payload_queue_len (as_inflight_queue a) = Ok (of_nat (length (pq_chunk_map (as_inflight_queue a))))"
    using a by (simp add: flight_inv_def pq_inv_def payload_queue_len_def)
  ultimately show ?thesis by (simp add: payload_queue_is_empty_def)
qed

lemma unat_succ: "unat d < 2 ^ 32 - 1 \<Longrightarrow> unat (d + 1) = Suc (unat d)" for d :: u32
  by (simp add: unat_word_ariths)

lemma contiguous_push:
  assumes "contiguous base next q" and "pd_tsn c = next" and "unat (next - base) < 2 ^ 31"
  shows "contiguous base (next + 1) (payload_queue_push_no_check q c)"
proof -
  have u: "unat (next + 1 - base) = Suc (unat (next - base))"
    using assms(3) unat_succ [of "next - base"] by (simp add: algebra_simps)
  have "t - base < next + 1 - base \<longleftrightarrow> t = next \<or> t - base < next - base" for t
    using word_unat_eq_iff [of "t - base" "next - base"] by (auto simp: word_less_nat_alt u less_Suc_eq)
  then show ?thesis
    using assms(1,2) by (simp add: contiguous_def payload_queue_push_no_check_def update_sorted_keys_def update_conv')
qed

text \<open>One chunk from the pending to the inflight queue.\<close>

definition sent :: "u32 \<Rightarrow> time_ms \<Rightarrow> payload_data \<Rightarrow> payload_data" where
  "sent tsn now c = c\<lparr>pd_tsn := tsn, pd_since := now, pd_nsent := 1\<rparr>"

lemma sent_fields [simp]:
  "pd_tsn (sent tsn now c) = tsn" "pd_user_data (sent tsn now c) = pd_user_data c"
  "pd_unordered (sent tsn now c) = pd_unordered c" "pd_nsent (sent tsn now c) = 1"
  "short (sent tsn now c) = short c"
  by (simp_all add: sent_def short_def)

lemma pending_peeked_short:
  assumes "flight_inv a" and "pending_queue_peek (sh_pending_queue a) = Some c"
  shows "short c"
  using assms
  by (cases "pg_unordered_queue (sh_pending_queue a)"; cases "pg_ordered_queue (sh_pending_queue a)")
    (auto simp: flight_inv_def pending_queue_peek_def split: if_splits)

lemma move_pending:
  assumes "flight_inv a" and "pending_queue_peek (sh_pending_queue a) = Some c" and "flight_length a < 2 ^ 31"
    and pop: "fst (pending_queue_pop (sh_pending_queue a) (pd_beginning_fragment c) (pd_unordered c)) = Some c"
  obtains a' q where
    "move_pending_data_chunk_to_inflight_queue now (pd_beginning_fragment c) (pd_unordered c) a
      = (Some (sent (as_my_next_tsn a) now c), a')"
    and "pending_queue_pop (sh_pending_queue a) (pd_beginning_fragment c) (pd_unordered c) = (Some c, q)"
    and "sh_pending_queue a' = q" and "flight_inv a'"
    and "as_my_next_tsn a' = as_my_next_tsn a + 1"
    and "as_inflight_queue a' = payload_queue_push_no_check (as_inflight_queue a) (sent (as_my_next_tsn a) now c)"
    and "as_cumulative_tsn_ack_point a' = as_cumulative_tsn_ack_point a" and "sh_state a' = sh_state a"
    and "as_cwnd a' = as_cwnd a" and "as_rwnd a' = as_rwnd a" and "as_mtu a' = as_mtu a"
proof -
  have inv: "pending_base (sh_pending_queue a)" using assms(1) by (simp add: flight_inv_def)
  obtain q where q: "pending_queue_pop (sh_pending_queue a) (pd_beginning_fragment c) (pd_unordered c) = (Some c, q)"
      "pending_base q"
      "if pd_unordered c then pg_unordered_queue (sh_pending_queue a) = c # pg_unordered_queue q \<and>
        pg_ordered_queue q = pg_ordered_queue (sh_pending_queue a)
      else pg_ordered_queue (sh_pending_queue a) = c # pg_ordered_queue q \<and>
        pg_unordered_queue q = pg_unordered_queue (sh_pending_queue a)"
    using pop by (cases rule: pending_base_pop [OF inv assms(2)]) auto
  let ?c = "sent (as_my_next_tsn a) now c"
  define a' where "a' = snd (move_pending_data_chunk_to_inflight_queue now (pd_beginning_fragment c) (pd_unordered c) a)"
  have m: "move_pending_data_chunk_to_inflight_queue now (pd_beginning_fragment c) (pd_unordered c) a = (Some ?c, a')"
    by (simp add: a'_def move_pending_data_chunk_to_inflight_queue_def q(1) generate_next_tsn_def Let_def sent_def)
  have f: "sh_pending_queue a' = q" "as_my_next_tsn a' = as_my_next_tsn a + 1"
      "as_inflight_queue a' = payload_queue_push_no_check (as_inflight_queue a) ?c"
      "as_cumulative_tsn_ack_point a' = as_cumulative_tsn_ack_point a" "sh_state a' = sh_state a"
      "as_cwnd a' = as_cwnd a" "as_rwnd a' = as_rwnd a" "as_mtu a' = as_mtu a"
    by (simp_all add: a'_def move_pending_data_chunk_to_inflight_queue_def q(1) generate_next_tsn_def Let_def sent_def)
  have c: "contiguous (flight_base a) (as_my_next_tsn a) (as_inflight_queue a)"
    using assms(1) by (simp add: flight_inv_def)
  have new: "hm_get (pq_chunk_map (as_inflight_queue a)) (pd_tsn ?c) = None"
    using contiguousD [OF c] by simp
  have "in_window (flight_base a) (pd_tsn ?c)"
    using assms(3) by (simp add: s32.window_unat flight_length_def)
  then have "pq_inv (flight_base a) (as_inflight_queue a')"
    using assms(1) new by (simp add: f flight_inv_def pq_inv_push_no_check)
  moreover have "contiguous (flight_base a) (as_my_next_tsn a') (as_inflight_queue a')"
    using assms(3) contiguous_push [OF c] by (simp add: f flight_length_def)
  moreover have "\<forall>t c. hm_get (pq_chunk_map (as_inflight_queue a')) t = Some c \<longrightarrow> short c"
    using assms(1) pending_peeked_short [OF assms(1,2)]
    by (simp add: f flight_inv_def payload_queue_push_no_check_def update_sorted_keys_def update_conv')
  moreover have "list_all short (pg_unordered_queue q)" "list_all short (pg_ordered_queue q)"
    using assms(1) q(3) by (auto simp: flight_inv_def split: if_splits)
  ultimately have "flight_inv a'" using q(2) f by (simp add: flight_inv_def flight_base_def)
  then show thesis using that [OF m q(1)] f by blast
qed


section \<open>What is sent\<close>

definition untag :: "payload_data \<Rightarrow> payload_data" where
  "untag c = c\<lparr>pd_tsn := 0, pd_since := 0, pd_nsent := 0\<rparr>"

definition sent_from :: "payload_data list \<Rightarrow> payload_data list \<Rightarrow> payload_data list \<Rightarrow> bool" where
  "sent_from before after cs \<longleftrightarrow>
     (\<exists>taken. before = taken @ after \<and>
        map untag cs = map untag (filter (\<lambda>c. pd_user_data c \<noteq> []) taken))"

definition consecutive :: "u32 \<Rightarrow> payload_data list \<Rightarrow> bool" where
  "consecutive t cs \<longleftrightarrow> map pd_tsn cs = map (\<lambda>i. t + of_nat i) [0..<length cs]"

text \<open>
  The chunks \<open>cs\<close> went from the pending to the inflight queue: with consecutive TSNs, from the
  front of the two pending queues, in their order, and nothing with data was left out.
\<close>

definition moved :: "association \<Rightarrow> payload_data list \<Rightarrow> association \<Rightarrow> bool" where
  "moved a cs a' \<longleftrightarrow>
     flight_inv a' \<and> pending_inv (sh_pending_queue a') \<and>
     as_cumulative_tsn_ack_point a' = as_cumulative_tsn_ack_point a \<and>
     as_cwnd a' = as_cwnd a \<and> as_mtu a' = as_mtu a \<and> sh_state a' = sh_state a \<and>
     as_my_next_tsn a' = as_my_next_tsn a + of_nat (length cs) \<and> consecutive (as_my_next_tsn a) cs \<and>
     pq_n_bytes (as_inflight_queue a') = pq_n_bytes (as_inflight_queue a) + of_nat (data_bytes cs) \<and>
     pending_length a' + flight_length a' \<le> pending_length a + flight_length a \<and>
     sent_from (pg_unordered_queue (sh_pending_queue a)) (pg_unordered_queue (sh_pending_queue a'))
       (filter pd_unordered cs) \<and>
     sent_from (pg_ordered_queue (sh_pending_queue a)) (pg_ordered_queue (sh_pending_queue a'))
       (filter (\<lambda>c. \<not> pd_unordered c) cs)"

lemma sent_from_refl [simp]: "sent_from xs xs []"
  by (simp add: sent_from_def)

lemma sent_from_trans: "sent_from xs ys cs \<Longrightarrow> sent_from ys zs ds \<Longrightarrow> sent_from xs zs (cs @ ds)"
  unfolding sent_from_def by (force simp del: append_assoc simp: append_assoc [symmetric])

lemma consecutive_append:
  assumes "consecutive t cs" and "consecutive (t + of_nat (length cs)) ds"
  shows "consecutive t (cs @ ds)"
proof -
  have "map (\<lambda>i. t + of_nat i) [0..<length cs + length ds] =
      map (\<lambda>i. t + of_nat i) [0..<length cs] @ map (\<lambda>i. t + of_nat (length cs) + of_nat i) [0..<length ds]"
    by (rule nth_equalityI) (auto simp: nth_append of_nat_diff)
  then show ?thesis using assms by (simp add: consecutive_def)
qed

lemma moved_refl: "flight_inv a \<Longrightarrow> pending_inv (sh_pending_queue a) \<Longrightarrow> moved a [] a"
  by (simp add: moved_def consecutive_def)

lemma moved_trans: "moved a cs b \<Longrightarrow> moved b ds c \<Longrightarrow> moved a (cs @ ds) c"
  unfolding moved_def by (auto simp: algebra_simps intro: sent_from_trans dest: consecutive_append)

lemma movedD:
  assumes "moved a cs b"
  shows "flight_inv b" and "pending_length b + flight_length b \<le> pending_length a + flight_length a"
    and "as_cwnd b = as_cwnd a" and "pending_inv (sh_pending_queue b)"
  using assms by (simp_all add: moved_def)

lemma flight_rwnd [simp]:
  "flight_inv (a\<lparr>as_rwnd := w\<rparr>) = flight_inv a" "flight_length (a\<lparr>as_rwnd := w\<rparr>) = flight_length a"
  "pending_length (a\<lparr>as_rwnd := w\<rparr>) = pending_length a" "moved (a\<lparr>as_rwnd := w\<rparr>) cs b = moved a cs b"
  by (simp_all add: flight_inv_def flight_base_def flight_length_def pending_length_def moved_def)

lemma pop_queue_cases:
  assumes "pending_inv q" and "pending_queue_peek q = Some c"
    and "pending_queue_pop q (pd_beginning_fragment c) (pd_unordered c) = (Some c, q')"
  shows "pending_inv q' \<and>
    (if pd_unordered c then pg_unordered_queue q = c # pg_unordered_queue q' \<and>
        pg_ordered_queue q' = pg_ordered_queue q
      else pg_ordered_queue q = c # pg_ordered_queue q' \<and> pg_unordered_queue q' = pg_unordered_queue q)"
  using pending_pop_peeked [OF assms(1,2)] assms(3) by (metis prod.inject)

lemma move_moved:
  assumes "flight_inv a" and "pending_queue_peek (sh_pending_queue a) = Some c" and "flight_length a < 2 ^ 31"
    and "pd_user_data c \<noteq> []" and inv: "pending_inv (sh_pending_queue a)"
  obtains a' where
    "move_pending_data_chunk_to_inflight_queue now (pd_beginning_fragment c) (pd_unordered c) a
      = (Some (sent (as_my_next_tsn a) now c), a')"
    and "moved a [sent (as_my_next_tsn a) now c] a'" and "as_rwnd a' = as_rwnd a"
    and "pending_length a = Suc (pending_length a')"
proof -
  obtain a' q where m: "move_pending_data_chunk_to_inflight_queue now (pd_beginning_fragment c) (pd_unordered c) a
      = (Some (sent (as_my_next_tsn a) now c), a')"
    and q: "pending_queue_pop (sh_pending_queue a) (pd_beginning_fragment c) (pd_unordered c) = (Some c, q)"
      "sh_pending_queue a' = q" "flight_inv a'"
    and f: "as_my_next_tsn a' = as_my_next_tsn a + 1"
      "as_inflight_queue a' = payload_queue_push_no_check (as_inflight_queue a) (sent (as_my_next_tsn a) now c)"
      "as_cumulative_tsn_ack_point a' = as_cumulative_tsn_ack_point a" "sh_state a' = sh_state a"
      "as_cwnd a' = as_cwnd a" "as_rwnd a' = as_rwnd a" "as_mtu a' = as_mtu a"
    by (rule move_pending [OF assms(1-3) pending.pop_never_None [OF inv assms(2)], of now])
  note c = pop_queue_cases [OF inv assms(2) q(1)]
  have u: "untag (sent t now c) = untag c" for t by (simp add: untag_def sent_def)
  have b: "flight_base a' = flight_base a" by (simp add: flight_base_def f)
  have l: "flight_length a' = Suc (flight_length a)"
    using assms(3) unat_succ [of "as_my_next_tsn a - flight_base a"]
    by (simp add: flight_length_def b f algebra_simps)
  have p: "pending_length a = Suc (pending_length a')"
    using c by (auto simp: pending_length_def q(2) split: if_splits)
  have "sent_from (pg_unordered_queue (sh_pending_queue a)) (pg_unordered_queue q)
       (filter pd_unordered [sent (as_my_next_tsn a) now c])"
    "sent_from (pg_ordered_queue (sh_pending_queue a)) (pg_ordered_queue q)
       (filter (\<lambda>c. \<not> pd_unordered c) [sent (as_my_next_tsn a) now c])"
    using c assms(4) by (auto simp: sent_from_def u intro!: exI [of _ "[c]"])
  then have "moved a [sent (as_my_next_tsn a) now c] a'"
    using q(2,3) f l p c
    by (simp add: moved_def consecutive_def payload_queue_push_no_check_def update_sorted_keys_def)
  then show thesis using that [OF m] f p by blast
qed

lemma pop_empty_moved:
  assumes "flight_inv a" and "pending_queue_peek (sh_pending_queue a) = Some c" and "pd_user_data c = []"
    and "a' = a\<lparr>sh_pending_queue :=
       snd (pending_queue_pop (sh_pending_queue a) (pd_beginning_fragment c) (pd_unordered c))\<rparr>"
    and inv: "pending_inv (sh_pending_queue a)"
  shows "moved a [] a' \<and> as_rwnd a' = as_rwnd a \<and> pending_length a = Suc (pending_length a')"
proof -
  obtain q where q: "pending_queue_pop (sh_pending_queue a) (pd_beginning_fragment c) (pd_unordered c) = (Some c, q)"
    using pending_pop_peeked [OF inv assms(2)] by metis
  have base: "pending_base (sh_pending_queue a)" using assms(1) by (simp add: flight_inv_def)
  have "pending_base q" using q by (cases rule: pending_base_pop [OF base assms(2)]) auto
  note c = this pop_queue_cases [OF inv assms(2) q]
  have s: "list_all short (pg_unordered_queue q)" "list_all short (pg_ordered_queue q)"
    using c assms(1) by (auto simp: flight_inv_def split: if_splits)
  have "sent_from (pg_unordered_queue (sh_pending_queue a)) (pg_unordered_queue q) []"
    "sent_from (pg_ordered_queue (sh_pending_queue a)) (pg_ordered_queue q) []"
    using c assms(3) by (auto simp: sent_from_def split: if_splits)
  then show ?thesis
    using assms(1,4) q c s
    by (auto simp: moved_def consecutive_def flight_inv_def flight_base_def flight_length_def pending_length_def
        split: if_splits)
qed


section \<open>Flow and congestion control\<close>

text \<open>The bytes sent stay in the two windows.\<close>

definition in_windows :: "association \<Rightarrow> payload_data list \<Rightarrow> association \<Rightarrow> bool" where
  "in_windows a cs a' \<longleftrightarrow>
     data_bytes cs \<le> unat (as_rwnd a) \<and> as_rwnd a' = as_rwnd a - of_nat (data_bytes cs) \<and>
     (cs \<noteq> [] \<longrightarrow> payload_queue_get_num_bytes (as_inflight_queue a') \<le> ucast (as_cwnd a))"

lemma in_windows_refl: "in_windows a [] a"
  by (simp add: in_windows_def)

lemma unat_usize_of_nat: "n < 2 ^ 32 \<Longrightarrow> unat (of_nat n :: usize) = n"
  by (rule unat_of_nat_less) simp

lemma unat_ucast_usize: "unat (ucast w :: usize) = unat w" for w :: u32
  using unat_less_pow [of w] by (simp add: unsigned_ucast_eq unsigned_take_bit_eq take_bit_eq_mod)

lemma in_windows_step:
  assumes "in_windows a1 cs a'" and "as_cwnd a1 = as_cwnd a" and "as_rwnd a1 = as_rwnd a - of_nat (data_bytes [c])"
    and "data_bytes [c] \<le> unat (as_rwnd a)"
    and "payload_queue_get_num_bytes (as_inflight_queue a1) \<le> ucast (as_cwnd a)"
    and "cs = [] \<Longrightarrow> as_inflight_queue a' = as_inflight_queue a1"
  shows "in_windows a (c # cs) a'"
proof -
  have l: "data_bytes [c] < 2 ^ 32" using assms(4) unat_less_pow [of "as_rwnd a"] by simp
  then have u: "unat (of_nat (data_bytes [c]) :: u32) = data_bytes [c]" by (intro unat_of_nat_less) simp
  then have "unat (as_rwnd a1) = unat (as_rwnd a) - data_bytes [c]"
    using assms(3,4) by (simp add: unat_sub word_le_nat_alt)
  then show ?thesis
    using assms by (cases "cs = []") (auto simp: in_windows_def algebra_simps)
qed

lemma pop_pending_loop_spec:
  assumes "flight_inv a" and "pending_length a + flight_length a < 2 ^ 31" and "pending_inv (sh_pending_queue a)"
  shows "\<exists>cs ss a'. pop_pending_loop now a chunks sis = Some (chunks @ cs, sis @ ss, a') \<and>
    moved a cs a' \<and> in_windows a cs a' \<and> (cs = [] \<longrightarrow> as_inflight_queue a' = as_inflight_queue a) \<and>
    (\<forall>c. pending_queue_peek (sh_pending_queue a') = Some c \<longrightarrow> pd_user_data c \<noteq> [])"
  using assms
proof (induction "pending_length a" arbitrary: a chunks sis rule: less_induct)
  case less
  note inv = less.prems(1)
  have room: "flight_length a < 2 ^ 31" using less.prems(2) by simp
  have stop: "moved a [] a \<and> in_windows a [] a" using moved_refl [OF inv less.prems(3)] in_windows_refl by simp
  show ?case
  proof (cases "pending_queue_peek (sh_pending_queue a)")
    case None
    then show ?thesis
      using stop by (subst pop_pending_loop.simps) auto
  next
    case (Some c)
    let ?len = "of_nat (length (pd_user_data c)) :: usize"
    have short: "length (pd_user_data c) < 2 ^ 32"
      using pending_peeked_short [OF inv Some] by (simp add: short_def)
    have len: "unat ?len = length (pd_user_data c)" "unat (ucast ?len :: u32) = length (pd_user_data c)"
      using short unat_usize_of_nat [OF short] by (simp_all add: unsigned_ucast_eq unsigned_take_bit_eq take_bit_eq_mod)
    have zero: "?len = 0 \<longleftrightarrow> pd_user_data c = []" using short by (simp add: usize_of_nat_eq_0)
    show ?thesis
    proof (cases "pd_user_data c = []")
      case True
      define a1 where "a1 = a\<lparr>sh_pending_queue :=
         snd (pending_queue_pop (sh_pending_queue a) (pd_beginning_fragment c) (pd_unordered c))\<rparr>"
      have a1: "moved a [] a1" "as_rwnd a1 = as_rwnd a" "pending_length a = Suc (pending_length a1)"
          "as_inflight_queue a1 = as_inflight_queue a"
        using pop_empty_moved [OF inv Some True a1_def less.prems(3)] by (simp_all add: a1_def)
      have step: "pop_pending_loop now a chunks sis =
          pop_pending_loop now a1 chunks (sis @ [pd_stream_identifier c])"
        using Some zero True by (subst pop_pending_loop.simps) (simp add: a1_def)
      have room1: "pending_length a1 < pending_length a" "pending_length a1 + flight_length a1 < 2 ^ 31"
        using a1(3) movedD(2) [OF a1(1)] less.prems(2) by linarith+
      from less.hyps [OF room1(1) movedD(1) [OF a1(1)] room1(2) movedD(4) [OF a1(1)]]
      obtain cs ss a' where r: "pop_pending_loop now a1 chunks (sis @ [pd_stream_identifier c]) =
            Some (chunks @ cs, (sis @ [pd_stream_identifier c]) @ ss, a')"
          "moved a1 cs a'" "in_windows a1 cs a'" "cs = [] \<longrightarrow> as_inflight_queue a' = as_inflight_queue a1"
          "\<forall>c. pending_queue_peek (sh_pending_queue a') = Some c \<longrightarrow> pd_user_data c \<noteq> []"
        by blast
      have "moved a cs a'" using moved_trans [OF a1(1) r(2)] by simp
      moreover have "in_windows a cs a'" using r(3) a1 by (simp add: in_windows_def moved_def)
      ultimately show ?thesis using r step a1(4) by auto
    next
      case False
      consider (cwnd) "payload_queue_get_num_bytes (as_inflight_queue a) + ?len > ucast (as_cwnd a)"
        | (rwnd) "payload_queue_get_num_bytes (as_inflight_queue a) + ?len \<le> ucast (as_cwnd a)" "?len > ucast (as_rwnd a)"
        | (send) "payload_queue_get_num_bytes (as_inflight_queue a) + ?len \<le> ucast (as_cwnd a)" "?len \<le> ucast (as_rwnd a)"
        by (meson not_le)
      then show ?thesis
      proof cases
        case send
        let ?a0 = "a\<lparr>as_rwnd := as_rwnd a - ucast ?len\<rparr>"
        let ?c = "sent (as_my_next_tsn a) now c"
        obtain a1 where m: "move_pending_data_chunk_to_inflight_queue now (pd_beginning_fragment c) (pd_unordered c) ?a0
              = (Some ?c, a1)"
            "moved a [?c] a1" "as_rwnd a1 = as_rwnd a - ucast ?len" "pending_length a = Suc (pending_length a1)"
          using move_moved [of ?a0 c now] inv Some room False less.prems(3) by auto
        have step: "pop_pending_loop now a chunks sis = pop_pending_loop now a1 (chunks @ [?c]) sis"
          using Some zero False m(1) send [THEN leD] by (subst pop_pending_loop.simps) (simp add: Let_def)
        have room1: "pending_length a1 < pending_length a" "pending_length a1 + flight_length a1 < 2 ^ 31"
          using m(4) movedD(2) [OF m(2)] less.prems(2) by linarith+
        from less.hyps [OF room1(1) movedD(1) [OF m(2)] room1(2) movedD(4) [OF m(2)]]
        obtain cs ss a' where r: "pop_pending_loop now a1 (chunks @ [?c]) sis =
              Some ((chunks @ [?c]) @ cs, sis @ ss, a')"
            "moved a1 cs a'" "in_windows a1 cs a'" "cs = [] \<longrightarrow> as_inflight_queue a' = as_inflight_queue a1"
            "\<forall>c. pending_queue_peek (sh_pending_queue a') = Some c \<longrightarrow> pd_user_data c \<noteq> []"
          by blast
        have w: "length (pd_user_data c) \<le> unat (as_rwnd a)"
          using send(2) len(1) by (simp add: word_le_nat_alt unat_ucast_usize)
        have u: "ucast ?len = (of_nat (length (pd_user_data c)) :: u32)"
          using len(2) short by (simp add: word_unat_eq_iff unat_of_nat_less)
        have n: "payload_queue_get_num_bytes (as_inflight_queue a1) \<le> ucast (as_cwnd a)"
          using m(2) send(1) by (simp add: moved_def payload_queue_get_num_bytes_def)
        have "in_windows a (?c # cs) a'"
          by (rule in_windows_step [OF r(3)]) (use m w u n r(4) in \<open>simp_all add: moved_def\<close>)
        moreover have "moved a (?c # cs) a'" using moved_trans [OF m(2) r(2)] by simp
        ultimately show ?thesis using r step by auto
      next
        case cwnd
        then have "pop_pending_loop now a chunks sis = Some (chunks, sis, a)"
          using Some zero False by (subst pop_pending_loop.simps) (simp add: Let_def)
        then show ?thesis using stop False Some by auto
      next
        case rwnd
        then have "pop_pending_loop now a chunks sis = Some (chunks, sis, a)"
          using Some zero False by (subst pop_pending_loop.simps) (simp add: Let_def)
        then show ?thesis using stop False Some by auto
      qed
    qed
  qed
qed


lemma pop_pending_sends:
  assumes "flight_inv a" and "pending_length a + flight_length a < 2 ^ 31" and "pending_inv (sh_pending_queue a)"
  shows "\<exists>chunks sis a'. pop_pending_data_chunks_to_send now a = Some (Ok (chunks, sis), a') \<and>
    moved a chunks a' \<and>
    (in_windows a chunks a' \<or> (\<exists>c. chunks = [c]) \<and> pq_chunk_map (as_inflight_queue a) = [])"
proof (cases "pending_queue_len (sh_pending_queue a) = 0")
  case True
  then show ?thesis
    using moved_refl [OF assms(1,3)] in_windows_refl [of a] by (auto simp: pop_pending_data_chunks_to_send_def)
next
  case False
  obtain cs ss a1 where r: "pop_pending_loop now a [] [] = Some (cs, ss, a1)" "moved a cs a1" "in_windows a cs a1"
      "cs = [] \<longrightarrow> as_inflight_queue a1 = as_inflight_queue a"
      "\<forall>c. pending_queue_peek (sh_pending_queue a1) = Some c \<longrightarrow> pd_user_data c \<noteq> []"
    using pop_pending_loop_spec [OF assms, of now "[]" "[]"] by auto
  show ?thesis
  proof (cases "cs = [] \<and> pq_chunk_map (as_inflight_queue a1) = []")
    case empty: True
    show ?thesis
    proof (cases "pending_queue_peek (sh_pending_queue a1)")
      case None
      then show ?thesis
        using False empty r flight_is_empty [OF movedD(1) [OF r(2)]]
        by (auto simp: pop_pending_data_chunks_to_send_def zero_window_probe_def)
    next
      case (Some c)
      have "flight_length a1 < 2 ^ 31" using movedD(2) [OF r(2)] assms(2) by simp
      then obtain a2 where m: "move_pending_data_chunk_to_inflight_queue now (pd_beginning_fragment c) (pd_unordered c) a1
            = (Some (sent (as_my_next_tsn a1) now c), a2)" "moved a1 [sent (as_my_next_tsn a1) now c] a2"
        using move_moved [OF movedD(1) [OF r(2)] Some _ _ movedD(4) [OF r(2)]] r(5) Some by blast
      have "moved a [sent (as_my_next_tsn a1) now c] a2" using moved_trans [OF r(2) m(2)] empty by simp
      then show ?thesis
        using False empty r(1,4) Some m(1) flight_is_empty [OF movedD(1) [OF r(2)]]
        by (auto simp: pop_pending_data_chunks_to_send_def zero_window_probe_def)
    qed
  next
    case nonempty: False
    then show ?thesis
      using False r flight_is_empty [OF movedD(1) [OF r(2)]]
      by (auto simp: pop_pending_data_chunks_to_send_def)
  qed
qed

section \<open>What is taken when messages are written at the same time\<close>

text \<open>
  Then the front of the pending queue may be the middle of a message, which cannot be popped.  The
  loop lowers the peer's window by the length of the chunk all the same, every time it
  tries, so that it ends.
\<close>

definition flowed :: "association \<Rightarrow> association \<Rightarrow> bool" where
  "flowed a a' \<longleftrightarrow> flight_inv a' \<and> sh_state a' = sh_state a \<and>
     pending_length a' + flight_length a' \<le> pending_length a + flight_length a"

lemma flowed_refl: "flight_inv a \<Longrightarrow> flowed a a"
  by (simp add: flowed_def)

lemma flowed_trans: "flowed a b \<Longrightarrow> flowed b c \<Longrightarrow> flowed a c"
  by (simp add: flowed_def)

lemma flowed_rwnd [simp]: "flowed (a\<lparr>as_rwnd := w\<rparr>) b = flowed a b"
  by (simp add: flowed_def)

lemma move_any:
  assumes "flight_inv a" and "pending_queue_peek (sh_pending_queue a) = Some c" and "flight_length a < 2 ^ 31"
  obtains (popped) d a' where
      "move_pending_data_chunk_to_inflight_queue now (pd_beginning_fragment c) (pd_unordered c) a = (Some d, a')"
      and "flowed a a'" and "pending_length a = Suc (pending_length a')"
  | (refused) "move_pending_data_chunk_to_inflight_queue now (pd_beginning_fragment c) (pd_unordered c) a = (None, a)"
      and "pd_user_data c \<noteq> []"
proof -
  have base: "pending_base (sh_pending_queue a)" using assms(1) by (simp add: flight_inv_def)
  show thesis
  proof (cases rule: pending_base_pop [OF base assms(2)])
    case (1 q)
    then have pop: "fst (pending_queue_pop (sh_pending_queue a) (pd_beginning_fragment c) (pd_unordered c)) = Some c"
      by simp
    obtain a' where m: "move_pending_data_chunk_to_inflight_queue now (pd_beginning_fragment c) (pd_unordered c) a
          = (Some (sent (as_my_next_tsn a) now c), a')"
        "sh_pending_queue a' = q" "flight_inv a'" "as_my_next_tsn a' = as_my_next_tsn a + 1"
        "as_cumulative_tsn_ack_point a' = as_cumulative_tsn_ack_point a" "sh_state a' = sh_state a"
      by (rule move_pending [OF assms pop, of now]) (use 1(1) that in auto)
    have "flight_length a' = Suc (flight_length a)"
      using assms(3) unat_succ [of "as_my_next_tsn a - flight_base a"]
      by (simp add: flight_length_def flight_base_def m algebra_simps)
    moreover have "pending_length a = Suc (pending_length a')"
      using 1(3) by (auto simp: pending_length_def m(2) split: if_splits)
    ultimately show thesis using m by (intro popped) (simp_all add: flowed_def)
  next
    case 2
    then show thesis by (intro refused) (simp_all add: move_pending_data_chunk_to_inflight_queue_def)
  qed
qed

lemma pop_empty_any:
  assumes "flight_inv a" and "pending_queue_peek (sh_pending_queue a) = Some c" and "pd_user_data c = []"
    and "a' = a\<lparr>sh_pending_queue :=
       snd (pending_queue_pop (sh_pending_queue a) (pd_beginning_fragment c) (pd_unordered c))\<rparr>"
  shows "flowed a a'" and "pending_length a = Suc (pending_length a')"
proof -
  have base: "pending_base (sh_pending_queue a)" using assms(1) by (simp add: flight_inv_def)
  have "flowed a a' \<and> pending_length a = Suc (pending_length a')"
  proof (cases rule: pending_base_pop [OF base assms(2)])
    case (1 q)
    then show ?thesis
      using assms(1,4)
      by (auto simp: flowed_def flight_inv_def flight_base_def flight_length_def pending_length_def split: if_splits)
  qed (use assms(3) in simp)
  then show "flowed a a'" "pending_length a = Suc (pending_length a')" by simp_all
qed

lemma pop_pending_loop_any:
  assumes "flight_inv a" and "pending_length a + flight_length a < 2 ^ 31"
  shows "\<exists>r a'. pop_pending_loop now a chunks sis = Some (fst r, snd r, a') \<and> flowed a a'"
  using assms
proof (induction "pending_length a * 2 ^ 32 + unat (as_rwnd a)" arbitrary: a chunks sis rule: less_induct)
  case less
  note inv = less.prems(1)
  have room: "flight_length a < 2 ^ 31" using less.prems(2) by simp
  have rwnd: "unat (as_rwnd b) < 2 ^ 32" for b using unat_less_pow [of "as_rwnd b"] by simp
  have shorter: "\<exists>r a'. pop_pending_loop now b cs ss = Some (fst r, snd r, a') \<and> flowed a a'"
    if "flowed a b" and "pending_length b < pending_length a \<or>
      pending_length b = pending_length a \<and> unat (as_rwnd b) < unat (as_rwnd a)" for b cs ss
  proof -
    have "pending_length b * 2 ^ 32 + unat (as_rwnd b) < pending_length a * 2 ^ 32 + unat (as_rwnd a)"
      using that(2) rwnd [of b] by (elim disjE conjE) (simp_all add: less_iff_Suc_add [of "pending_length b"], auto)
    from less.hyps [OF this] show ?thesis
      using that(1) less.prems(2) flowed_trans [OF that(1)] by (fastforce simp: flowed_def [of a b])
  qed
  show ?case
  proof (cases "pending_queue_peek (sh_pending_queue a)")
    case None
    then show ?thesis using flowed_refl [OF inv] by (subst pop_pending_loop.simps) auto
  next
    case (Some c)
    let ?len = "of_nat (length (pd_user_data c)) :: usize"
    have short: "length (pd_user_data c) < 2 ^ 32"
      using pending_peeked_short [OF inv Some] by (simp add: short_def)
    have len: "unat (ucast ?len :: u32) = length (pd_user_data c)"
      using short unat_usize_of_nat [OF short] by (simp_all add: unsigned_ucast_eq unsigned_take_bit_eq take_bit_eq_mod)
    have zero: "?len = 0 \<longleftrightarrow> pd_user_data c = []" using short by (simp add: usize_of_nat_eq_0)
    consider (stop) "pop_pending_loop now a chunks sis = Some (chunks, sis, a)"
      | (empty) "pd_user_data c = []"
      | (send) "pd_user_data c \<noteq> []" "?len \<le> ucast (as_rwnd a)"
          "\<not> payload_queue_get_num_bytes (as_inflight_queue a) + ?len > ucast (as_cwnd a)"
    proof -
      have "pop_pending_loop now a chunks sis = Some (chunks, sis, a) \<or> pd_user_data c = [] \<or>
          pd_user_data c \<noteq> [] \<and> ?len \<le> ucast (as_rwnd a) \<and>
          \<not> payload_queue_get_num_bytes (as_inflight_queue a) + ?len > ucast (as_cwnd a)"
        using Some zero by (subst pop_pending_loop.simps) (auto simp: Let_def not_less)
      then show thesis using that by blast
    qed
    then show ?thesis
    proof cases
      case stop
      then show ?thesis using flowed_refl [OF inv] by auto
    next
      case empty
      define a1 where "a1 = a\<lparr>sh_pending_queue :=
         snd (pending_queue_pop (sh_pending_queue a) (pd_beginning_fragment c) (pd_unordered c))\<rparr>"
      note a1 = pop_empty_any [OF inv Some empty a1_def]
      have "pop_pending_loop now a chunks sis = pop_pending_loop now a1 chunks (sis @ [pd_stream_identifier c])"
        using Some zero empty by (subst pop_pending_loop.simps) (simp add: a1_def)
      then show ?thesis using shorter [OF a1(1)] a1(2) by simp
    next
      case send
      let ?a0 = "a\<lparr>as_rwnd := as_rwnd a - ucast ?len\<rparr>"
      have a0: "flight_inv ?a0" "pending_queue_peek (sh_pending_queue ?a0) = Some c" "flight_length ?a0 < 2 ^ 31"
        using inv Some room by simp_all
      show ?thesis
      proof (cases rule: move_any [OF a0, of now])
        case (1 d b)
        then have "pop_pending_loop now a chunks sis = pop_pending_loop now b (chunks @ [d]) sis"
          using Some zero send(1,3) leD [OF send(2)] by (subst pop_pending_loop.simps) (simp add: Let_def)
        then show ?thesis using shorter [of b] 1(2,3) by simp
      next
        case 2
        then have "pop_pending_loop now a chunks sis = pop_pending_loop now ?a0 chunks sis"
          using Some zero send(1,3) leD [OF send(2)] by (subst pop_pending_loop.simps) (simp add: Let_def)
        moreover have "length (pd_user_data c) \<le> unat (as_rwnd a)"
          using send(2) short by (simp add: word_le_nat_alt unat_ucast_usize unat_usize_of_nat)
        then have "unat (as_rwnd ?a0) < unat (as_rwnd a)"
          using len send(1) by (cases "pd_user_data c") (simp_all add: unat_sub word_le_nat_alt)
        ultimately show ?thesis using shorter [of ?a0] flowed_refl [OF inv] by (simp add: flowed_def)
      qed
    qed
  qed
qed

lemma pop_pending_any:
  assumes "flight_inv a" and "pending_length a + flight_length a < 2 ^ 31"
  shows "\<exists>chunks sis a'. pop_pending_data_chunks_to_send now a = Some (Ok (chunks, sis), a') \<and> flowed a a'"
proof (cases "pending_queue_len (sh_pending_queue a) = 0")
  case True
  then show ?thesis using flowed_refl [OF assms(1)] by (auto simp: pop_pending_data_chunks_to_send_def)
next
  case False
  obtain cs ss b where r: "pop_pending_loop now a [] [] = Some (cs, ss, b)" "flowed a b"
    using pop_pending_loop_any [OF assms, of now "[]" "[]"] by auto
  have b: "flight_inv b" "flight_length b < 2 ^ 31" using r(2) assms(2) by (simp_all add: flowed_def)
  have "flowed b (snd (zero_window_probe now b))"
  proof (cases "pending_queue_peek (sh_pending_queue b)")
    case (Some c)
    then show ?thesis
      by (cases rule: move_any [OF b(1) Some b(2), of now]) (simp_all add: zero_window_probe_def flowed_refl b(1))
  qed (simp add: zero_window_probe_def flowed_refl b(1))
  then have "flowed a (snd (zero_window_probe now b))" using flowed_trans [OF r(2)] by simp
  then show ?thesis
    using False r flight_is_empty [OF b(1)]
    by (cases "cs = []") (auto simp: pop_pending_data_chunks_to_send_def split: prod.split)
qed

text \<open>An association with a message of two fragments to send.\<close>

definition example_fragments :: "payload_data list" where
  "example_fragments =
     [(example_data 0)\<lparr>pd_ending_fragment := False\<rparr>, (example_data 0)\<lparr>pd_beginning_fragment := False\<rparr>]"

definition example_sender :: association where
  "example_sender =
     (set_state Established
       (association_internal_new \<lparr>cf_max_receive_buffer_size = 0, cf_max_message_size = 0\<rparr> 1 7))
       \<lparr>as_rwnd := 10000, sh_pending_queue := pending_push_all pending_queue_new example_fragments\<rparr>"

lemma flight_inv_new:
  assumes "as_inflight_queue a = payload_queue_new" and "as_my_next_tsn a = as_cumulative_tsn_ack_point a + 1"
    and "pending_base (sh_pending_queue a)" and "list_all short (pg_unordered_queue (sh_pending_queue a))"
    and "list_all short (pg_ordered_queue (sh_pending_queue a))"
  shows "flight_inv a"
  using assms
  by (simp add: flight_inv_def flight_base_def contiguous_def pq_inv_new)
    (simp add: payload_queue_new_def)

lemma example_fragments_facts:
  "message_ok example_fragments" "filter pd_unordered example_fragments = []"
  "filter (\<lambda>c. \<not> pd_unordered c) example_fragments = example_fragments" "list_all short example_fragments"
  "length example_fragments = 2" "list_all empty_starts example_fragments"
  by (simp_all add: empty_starts_def example_fragments_def example_data_def payload_data_default_def message_ok_def short_def)

lemma example_sender_fields:
  "as_inflight_queue example_sender = payload_queue_new" "as_my_next_tsn example_sender = 1"
  "as_cumulative_tsn_ack_point example_sender = 0" "get_state example_sender = Established"
  "sh_pending_queue example_sender = pending_push_all pending_queue_new example_fragments"
  by (simp_all add: example_sender_def association_internal_new_def Let_def set_state_def get_state_def
      association_state_of_u8_def)

lemma example_sender_inv: "flight_inv example_sender" "flight_length example_sender = 0"
  "pending_length example_sender = 2" "pending_inv (sh_pending_queue example_sender)"
proof -
  show "flight_inv example_sender"
    by (rule flight_inv_new)
      (simp_all add: example_sender_fields pending_base_push_all pending_base_new example_fragments_facts
        pending_push_all_fields, simp_all add: pending_queue_new_def)
  show "pending_inv (sh_pending_queue example_sender)"
    by (simp add: example_sender_fields pending_inv_push_message pending_inv_new example_fragments_facts)
qed (simp_all add: flight_length_def flight_base_def pending_length_def example_sender_fields
    pending_push_all_fields example_fragments_facts, simp add: pending_queue_new_def)

text \<open>C13: what is taken from the pending queue to be sent, when it consists of whole messages: the loop ends and nothing fails; the
  chunks leave the two pending queues from the front, in order, all of those with data, and enter
  the inflight queue with consecutive TSNs; their bytes fit the peer's receive window and, with
  what is in flight already, the congestion window, but for a single chunk sent as a probe when
  nothing is in flight.\<close>

theorem pop_pending_flow_control:
  assumes "flight_inv a" and "pending_length a + flight_length a < 2 ^ 31" and "pending_inv (sh_pending_queue a)"
  shows "\<exists>chunks sis a'. pop_pending_data_chunks_to_send now a = Some (Ok (chunks, sis), a') \<and>
    moved a chunks a' \<and>
    (in_windows a chunks a' \<or> (\<exists>c. chunks = [c]) \<and> pq_chunk_map (as_inflight_queue a) = [])"
  by (rule pop_pending_sends [OF assms])


theorem pop_pending_flow_control_witness:
  "\<exists>chunks sis a'. pop_pending_data_chunks_to_send 0 example_sender = Some (Ok (chunks, sis), a') \<and>
    moved example_sender chunks a' \<and>
    (in_windows example_sender chunks a' \<or>
      (\<exists>c. chunks = [c]) \<and> pq_chunk_map (as_inflight_queue example_sender) = [])"
  by (rule pop_pending_flow_control) (simp_all add: example_sender_inv)

end
