(* ===== verification/Outbound.thy ===== *)
theory Outbound
  imports Send
begin

text \<open>
  What the write loop gets from \<^verbatim>\<open>gather_outbound\<close>: how DATA chunks are bundled into packets,
  what a retransmission may send, and that collecting always ends, fails never, and keeps the
  sender's invariant.
\<close>

section \<open>Bundling\<close>

text \<open>The bytes of a packet with the padding of its chunks, and without it.\<close>

definition padded_chunk_bytes :: "chunk \<Rightarrow> nat" where
  "padded_chunk_bytes c = 4 + chunk_value_length c + get_padding_size (chunk_value_length c)"

definition packet_bytes :: "packet \<Rightarrow> nat" where
  "packet_bytes p = 12 + sum_list (map (\<lambda>c. 4 + chunk_value_length c) (pk_chunks p))"

lemma bundle_loop_chunks:
  "concat (map pk_chunks (bundle_loop a cs chunks n)) = chunks @ map ChunkPayloadData cs"
  by (induction a cs chunks n rule: bundle_loop.induct) (auto simp: Let_def create_packet_def)

lemma bundle_loop_header: "p \<in> set (bundle_loop a cs chunks n) \<Longrightarrow> p = create_packet a (pk_chunks p)"
  by (induction a cs chunks n rule: bundle_loop.induct)
    (auto simp: Let_def create_packet_def split: if_splits)

lemma bundle_loop_size:
  assumes "list_all (\<lambda>c. 12 + length (pd_user_data c) \<le> unat (as_mtu a)) cs" and "unat (as_mtu a) < 2 ^ 30"
    and "unat n = 12 + sum_list (map (\<lambda>c. 4 + chunk_value_length c) chunks)"
    and "unat n \<le> unat (as_mtu a) + 16" and "chunks \<noteq> [] \<or> n = 12 \<and> cs \<noteq> []"
  shows "list_all (\<lambda>p. pk_chunks p \<noteq> [] \<and> packet_bytes p \<le> unat (as_mtu a) + 16) (bundle_loop a cs chunks n)"
  using assms
proof (induction a cs chunks n rule: bundle_loop.induct)
  case (1 a chunks n)
  then show ?case by (simp add: create_packet_def packet_bytes_def)
next
  case (2 a c cs chunks n)
  let ?l = "length (pd_user_data c)"
  let ?w = "of_nat ?l :: u32"
  have l: "12 + ?l \<le> unat (as_mtu a)" using 2(3) by simp
  have w: "unat ?w = ?l" using l 2(4) by (intro unat_of_nat_less) simp
  have nw: "unat (n + ?w) = unat n + ?l" using l w 2(4,6) by (simp add: unat_word_ariths)
  have h: "unat (DATA_CHUNK_HEADER_SIZE + ?w) = 16 + ?l"
    using l w 2(4) by (simp add: unat_word_ariths DATA_CHUNK_HEADER_SIZE_def)
  have nh: "unat (n + (DATA_CHUNK_HEADER_SIZE + ?w)) = unat n + 16 + ?l"
    using l h 2(4,6) by (simp add: unat_word_ariths)
  have ch: "unat (COMMON_HEADER_SIZE + (DATA_CHUNK_HEADER_SIZE + ?w)) = 28 + ?l"
    using l h 2(4) by (simp add: unat_word_ariths COMMON_HEADER_SIZE_def)
  have v: "4 + chunk_value_length (ChunkPayloadData c) = 16 + ?l"
    by (simp add: payload_data_value_length_def PAYLOAD_DATA_HEADER_SIZE_def)
  show ?case
  proof (cases "as_mtu a < n + ?w")
    case True
    have "chunks \<noteq> []" using True 2(7) l w by (auto simp: word_less_nat_alt unat_word_ariths nw)
    moreover have "list_all (\<lambda>p. pk_chunks p \<noteq> [] \<and> packet_bytes p \<le> unat (as_mtu a) + 16)
        (bundle_loop a cs [ChunkPayloadData c] (COMMON_HEADER_SIZE + (DATA_CHUNK_HEADER_SIZE + ?w)))"
      by (rule 2(1)) (use True 2(3,4) l ch v in simp_all)
    ultimately show ?thesis
      using True 2(5,6) by (simp add: Let_def create_packet_def packet_bytes_def)
  next
    case False
    have "unat n + ?l \<le> unat (as_mtu a)" using False nw by (simp add: not_less word_le_nat_alt)
    then have "list_all (\<lambda>p. pk_chunks p \<noteq> [] \<and> packet_bytes p \<le> unat (as_mtu a) + 16)
        (bundle_loop a cs (chunks @ [ChunkPayloadData c]) (n + (DATA_CHUNK_HEADER_SIZE + ?w)))"
      by (intro 2(2)) (use False 2(3-5) nh v in simp_all)
    then show ?thesis using False by (simp add: Let_def)
  qed
qed

lemma bundle_spec:
  assumes "list_all (\<lambda>c. 12 + length (pd_user_data c) \<le> unat (as_mtu a)) cs"
    and "unat (as_mtu a) < 2 ^ 30"
  shows "concat (map pk_chunks (bundle_data_chunks_into_packets cs a)) = map ChunkPayloadData cs \<and>
    list_all (\<lambda>p. p = create_packet a (pk_chunks p) \<and> pk_chunks p \<noteq> [] \<and>
      packet_bytes p \<le> unat (as_mtu a) + 16) (bundle_data_chunks_into_packets cs a)"
proof (cases "cs = []")
  case False
  have "list_all (\<lambda>p. pk_chunks p \<noteq> [] \<and> packet_bytes p \<le> unat (as_mtu a) + 16)
      (bundle_data_chunks_into_packets cs a)"
    unfolding bundle_data_chunks_into_packets_def
    by (rule bundle_loop_size [OF assms]) (use False assms in \<open>auto simp: COMMON_HEADER_SIZE_def neq_Nil_conv\<close>)
  then show ?thesis
    using bundle_loop_header by (auto simp: bundle_data_chunks_into_packets_def bundle_loop_chunks list_all_iff)
qed (simp add: bundle_data_chunks_into_packets_def)

text \<open>C18: bundling loses, duplicates and reorders nothing: the packets' chunks are the chunks, in
  order; every packet has the association's ports and tag, has at least one chunk, and is, without
  padding, at most 16 bytes larger than the MTU.\<close>

theorem bundle_keeps_chunks:
  assumes "list_all (\<lambda>c. 12 + length (pd_user_data c) \<le> unat (as_mtu a)) cs"
    and "unat (as_mtu a) < 2 ^ 30"
  shows "concat (map pk_chunks (bundle_data_chunks_into_packets cs a)) = map ChunkPayloadData cs \<and>
    list_all (\<lambda>p. p = create_packet a (pk_chunks p) \<and> pk_chunks p \<noteq> [] \<and>
      packet_bytes p \<le> unat (as_mtu a) + 16) (bundle_data_chunks_into_packets cs a)"
  by (rule bundle_spec [OF assms])

definition data_of_length :: "nat \<Rightarrow> payload_data" where
  "data_of_length n = (payload_data_default 0)\<lparr>pd_user_data := replicate n 0\<rparr>"

lemma example_mtu: "as_mtu example_sender = 1228"
  by (simp add: example_sender_def association_internal_new_def Let_def INITIAL_MTU_def set_state_def)

theorem bundle_keeps_chunks_witness:
  "concat (map pk_chunks (bundle_data_chunks_into_packets [data_of_length 100, data_of_length 1200] example_sender))
    = map ChunkPayloadData [data_of_length 100, data_of_length 1200]"
  using bundle_keeps_chunks [of example_sender "[data_of_length 100, data_of_length 1200]"]
  by (simp add: example_mtu data_of_length_def)

text \<open>The check against the MTU leaves the header of the chunk that is added out.\<close>

lemma write_chunks_length:
  "chunks_wf cs \<Longrightarrow> 4 dvd length w \<Longrightarrow>
    \<exists>m. write_chunks cs w = Ok (w @ m) \<and> length m = sum_list (map padded_chunk_bytes cs)"
proof (induction cs arbitrary: w)
  case (Cons c cs)
  obtain m where m: "write_chunks (c # cs) w = write_chunks cs (w @ m @ padding (length m))"
      "length (m @ padding (length m)) = padded_chunk_bytes c" "4 dvd length (w @ m @ padding (length m))"
    using Cons.prems by (auto intro: write_chunks_Cons [of c w cs] simp: padded_chunk_bytes_def)
  obtain r where "write_chunks cs (w @ m @ padding (length m)) = Ok ((w @ m @ padding (length m)) @ r)"
      "length r = sum_list (map padded_chunk_bytes cs)"
    using Cons.IH [OF _ m(3)] Cons.prems by auto
  then show ?case using m by (intro exI [of _ "(m @ padding (length m)) @ r"]) (simp del: length_padding)
qed simp

lemma packet_marshal_length:
  assumes "chunks_wf (pk_chunks p)"
  obtains raw where "packet_marshal crc p = Ok raw" and "length raw = 12 + sum_list (map padded_chunk_bytes (pk_chunks p))"
  using write_chunks_length [OF assms, of "[]"]
  by (auto simp: packet_marshal_def packet_marshal_to_def Let_def)

text \<open>A packet larger than the path MTU: two chunks whose encoding takes 1244 bytes are
  bundled into one packet of an association whose MTU is 1228.\<close>

theorem bundle_exceeds_mtu:
  "\<exists>a cs p raw. as_mtu a = 1228 \<and> bundle_data_chunks_into_packets cs a = [p] \<and>
    packet_marshal crc p = Ok raw \<and> length raw = 1244"
proof -
  let ?cs = "[data_of_length 100, data_of_length 1100]"
  let ?p = "create_packet example_sender (map ChunkPayloadData ?cs)"
  have "chunks_wf (pk_chunks ?p)"
    by (simp add: create_packet_def data_of_length_def payload_data_value_length_def
        PAYLOAD_DATA_HEADER_SIZE_def)
  then obtain raw where "packet_marshal crc ?p = Ok raw"
      "length raw = 12 + sum_list (map padded_chunk_bytes (pk_chunks ?p))"
    by (rule packet_marshal_length)
  moreover have "bundle_data_chunks_into_packets ?cs example_sender = [?p]"
    by (simp add: bundle_data_chunks_into_packets_def Let_def example_mtu COMMON_HEADER_SIZE_def
        DATA_CHUNK_HEADER_SIZE_def data_of_length_def)
  moreover have "12 + sum_list (map padded_chunk_bytes (pk_chunks ?p)) = 1244"
    by (simp add: create_packet_def padded_chunk_bytes_def data_of_length_def payload_data_value_length_def
        PAYLOAD_DATA_HEADER_SIZE_def get_padding_size_def PADDING_MULTIPLE_def)
  ultimately show ?thesis using example_mtu by metis
qed


section \<open>What does not touch the sender's state\<close>

text \<open>The fields the sender's invariant is about, and those that stay when chunks are resent.\<close>

definition sender_view :: "association \<Rightarrow> u32 \<times> u32 \<times> pending_queue" where
  "sender_view a = (as_my_next_tsn a, as_cumulative_tsn_ack_point a, sh_pending_queue a)"

definition window_view :: "association \<Rightarrow> u8 \<times> u32 \<times> u32 \<times> u32" where
  "window_view a = (sh_state a, as_cwnd a, as_rwnd a, as_mtu a)"

lemma view_eqD:
  assumes "sender_view b = sender_view a"
  shows "flight_base b = flight_base a" "flight_length b = flight_length a" "pending_length b = pending_length a"
  using assms by (simp_all add: sender_view_def flight_base_def flight_length_def pending_length_def)

lemma flight_inv_view:
  assumes "sender_view b = sender_view a" and "as_inflight_queue b = as_inflight_queue a"
  shows "flight_inv b = flight_inv a"
  using assms by (simp add: sender_view_def flight_inv_def flight_base_def)

lemma payload_queue_get_update:
  "payload_queue_get (payload_queue_update q t f) u =
    (if u = t then map_option f (payload_queue_get q t) else payload_queue_get q u)"
  by (auto simp: payload_queue_get_def payload_queue_update_def update_conv' split: option.splits)

lemma flight_inv_update:
  assumes "flight_inv a" and "\<And>c. pd_tsn (f c) = pd_tsn c" and "\<And>c. pd_user_data (f c) = pd_user_data c"
    and "sender_view b = sender_view a" and "as_inflight_queue b = payload_queue_update (as_inflight_queue a) t f"
  shows "flight_inv b"
proof -
  have "pq_inv (flight_base a) (as_inflight_queue b)"
    using assms by (simp add: pq_inv_update flight_inv_def)
  moreover have "contiguous (flight_base a) (as_my_next_tsn a) (as_inflight_queue b)"
    using assms(1,5) by (simp add: flight_inv_def contiguous_def)
  moreover have "short c" if "hm_get (pq_chunk_map (as_inflight_queue b)) u = Some c" for u c
  proof -
    have "\<exists>c0 v. hm_get (pq_chunk_map (as_inflight_queue a)) v = Some c0 \<and> pd_user_data c = pd_user_data c0"
      using that assms(3) payload_queue_get_update [of "as_inflight_queue a" t f u, THEN sym]
      by (cases "u = t"; cases "hm_get (pq_chunk_map (as_inflight_queue a)) t")
        (auto simp: assms(5) payload_queue_get_def)
    then show ?thesis using assms(1) by (auto simp: flight_inv_def short_def)
  qed
  ultimately show ?thesis
    using assms(1) view_eqD(1) [OF assms(4)] assms(4) by (simp add: flight_inv_def sender_view_def)
qed

lemma resent_fields [simp]:
  "pd_tsn (retransmitted c) = pd_tsn c" "pd_user_data (retransmitted c) = pd_user_data c"
  "pd_tsn (fast_retransmitted c) = pd_tsn c" "pd_user_data (fast_retransmitted c) = pd_user_data c"
  "\<not> pd_retransmit (retransmitted c)"
  by (simp_all add: retransmitted_def fast_retransmitted_def)

lemma check_partial_reliability_views [simp]:
  "sender_view (check_partial_reliability_status now c a) = sender_view a"
  "window_view (check_partial_reliability_status now c a) = window_view a"
  by (simp_all add: sender_view_def window_view_def)

lemma inflight_views [simp]:
  "sender_view (a\<lparr>as_inflight_queue := q\<rparr>) = sender_view a"
  "window_view (a\<lparr>as_inflight_queue := q\<rparr>) = window_view a"
  "sender_view (a\<lparr>as_stats := st\<rparr>) = sender_view a"
  "window_view (a\<lparr>as_stats := st\<rparr>) = window_view a"
  by (simp_all add: sender_view_def window_view_def)

section \<open>Retransmission\<close>

lemma flight_get:
  "flight_inv a \<Longrightarrow> payload_queue_get (as_inflight_queue a) t = Some c \<Longrightarrow>
    pd_tsn c = t \<and> t - flight_base a < as_my_next_tsn a - flight_base a \<and> short c"
  using pq_inv_keys(3) by (fastforce simp: flight_inv_def payload_queue_get_def contiguous_def)

text \<open>A chunk of the result: it was in flight, marked, at the offset \<open>i\<close> or above, and is not marked any more.\<close>

definition resent_ok :: "association \<Rightarrow> association \<Rightarrow> u32 \<Rightarrow> payload_data \<Rightarrow> bool" where
  "resent_ok a a' i d \<longleftrightarrow> i \<le> pd_tsn d - flight_base a \<and>
     (\<exists>c. payload_queue_get (as_inflight_queue a) (pd_tsn d) = Some c \<and> pd_retransmit c \<and> d = retransmitted c) \<and>
     payload_queue_get (as_inflight_queue a') (pd_tsn d) = Some d"

definition resent :: "association \<Rightarrow> u32 \<Rightarrow> payload_data list \<Rightarrow> association \<Rightarrow> bool" where
  "resent a i ds a' \<longleftrightarrow>
     flight_inv a' \<and> sender_view a' = sender_view a \<and> window_view a' = window_view a \<and>
     (\<forall>t. t - flight_base a < i \<longrightarrow>
        payload_queue_get (as_inflight_queue a') t = payload_queue_get (as_inflight_queue a) t) \<and>
     list_all (resent_ok a a' i) ds \<and>
     sorted_wrt (\<lambda>c d. pd_tsn c - flight_base a < pd_tsn d - flight_base a) ds"

lemma resent_skip:
  assumes "resent a (i + 1) ds a'" and "i < i + 1"
  shows "resent a i ds a'"
  using assms by (auto simp: resent_def resent_ok_def list_all_iff)

lemma resent_Cons:
  assumes "flight_inv a" and c: "payload_queue_get (as_inflight_queue a) t = Some c" and "pd_retransmit c"
    and t: "t - flight_base a = i" and "i < i + 1"
    and b: "sender_view b = sender_view a" "window_view b = window_view a"
      "as_inflight_queue b = payload_queue_update (as_inflight_queue a) t retransmitted"
    and ds: "resent b (i + 1) ds a'"
  shows "resent a i (retransmitted c # ds) a'"
proof -
  have base: "flight_base b = flight_base a" using view_eqD(1) [OF b(1)] .
  have tsn: "pd_tsn c = t" using flight_get [OF assms(1) c] by simp
  have below: "payload_queue_get (as_inflight_queue a') u = payload_queue_get (as_inflight_queue b) u"
    if "u - flight_base a < i + 1" for u
    using ds that by (simp add: resent_def base)
  have "payload_queue_get (as_inflight_queue a') t = Some (retransmitted c)"
    using below [of t] t assms(5) c by (simp add: b(3) payload_queue_get_update)
  then have "resent_ok a a' i (retransmitted c)" using c assms(3) t tsn by (auto simp: resent_ok_def)
  moreover have later: "resent_ok a a' i d \<and> i < pd_tsn d - flight_base a" if "d \<in> set ds" for d
  proof -
    have d: "resent_ok b a' (i + 1) d" using ds that by (auto simp: resent_def list_all_iff)
    then have "pd_tsn d \<noteq> t" using t assms(5) by (auto simp: resent_ok_def base)
    then show ?thesis
      using d assms(5) by (auto simp: resent_ok_def base b(3) payload_queue_get_update)
  qed
  moreover have "payload_queue_get (as_inflight_queue a') u = payload_queue_get (as_inflight_queue a) u"
    if "u - flight_base a < i" for u
    using below [of u] that t assms(5) by (auto simp: b(3) payload_queue_get_update)
  ultimately show ?thesis
    using ds b t tsn by (auto simp: resent_def base list_all_iff)
qed

lemma retransmit_loop_spec:
  assumes "flight_inv a" and "b = of_nat (data_bytes cs)" and "data_bytes cs \<le> unat awnd"
    and "retransmit_loop fuel now awnd i b cs a = (cs', a')"
  shows "\<exists>ds. cs' = cs @ ds \<and> resent a i ds a' \<and>
    (data_bytes cs' \<le> unat awnd \<or> i = 0 \<and> (\<exists>d. ds = [d] \<and> as_rwnd a < of_nat (length (pd_user_data d))))"
  using assms
proof (induction fuel arbitrary: i b cs a cs' a')
  case 0
  then show ?case by (auto simp: resent_def)
next
  case (Suc fuel)
  let ?t = "as_cumulative_tsn_ack_point a + i + 1"
  have t: "?t - flight_base a = i" by (simp add: flight_base_def)
  have stop: "?case" if "cs' = cs" "a' = a" using that Suc.prems by (auto simp: resent_def)
  show ?case
  proof (cases "payload_queue_get (as_inflight_queue a) ?t")
    case None
    then show ?thesis using Suc.prems(4) stop by simp
  next
    case (Some c)
    have "i < as_my_next_tsn a - flight_base a" using flight_get [OF Suc.prems(1) Some] t by simp
    then have "unat i < 2 ^ 32 - 1"
      using unat_less_pow [of "as_my_next_tsn a - flight_base a"] by (simp add: word_less_nat_alt)
    then have i: "i < i + 1" by (simp add: word_less_nat_alt unat_succ)
    have short: "length (pd_user_data c) < 2 ^ 32" using flight_get [OF Suc.prems(1) Some] by (simp add: short_def)
    show ?thesis
    proof (cases "pd_retransmit c")
      case False
      then have "retransmit_loop fuel now awnd (i + 1) b cs a = (cs', a')" using Suc.prems(4) Some by simp
      from Suc.IH [OF Suc.prems(1-3) this] i show ?thesis
        by (auto intro: resent_skip)
    next
      case True
      let ?len = "of_nat (length (pd_user_data c))"
      define pr where "pr \<longleftrightarrow> i = 0 \<and> as_rwnd a < ?len"
      define a1 where "a1 = check_partial_reliability_status now (retransmitted c)
        (a\<lparr>as_inflight_queue := payload_queue_update (as_inflight_queue a) ?t retransmitted\<rparr>)"
      have a1: "sender_view a1 = sender_view a" "window_view a1 = window_view a"
          "as_inflight_queue a1 = payload_queue_update (as_inflight_queue a) ?t retransmitted"
        by (simp_all add: a1_def)
      have inv1: "flight_inv a1" by (rule flight_inv_update [OF Suc.prems(1) _ _ a1(1,3)]) simp_all
      have d1: "data_bytes (cs @ [retransmitted c]) = data_bytes cs + length (pd_user_data c)" by simp
      have "resent a1 (i + 1) [] a1" using inv1 by (simp add: resent_def)
      note one = resent_Cons [OF Suc.prems(1) Some True t i a1 this]
      consider (probe) "pr" | (full) "\<not> pr" "b + ?len > ucast awnd" | (more) "\<not> pr" "\<not> b + ?len > ucast awnd"
        by blast
      then show ?thesis
      proof cases
        case probe
        then have "cs' = cs @ [retransmitted c]" "a' = a1"
          using Suc.prems(4) Some True by (simp_all add: a1_def pr_def Let_def)
        then show ?thesis using one probe by (auto simp: pr_def)
      next
        case full
        then have "cs' = cs" "a' = a" using Suc.prems(4) Some True by (simp_all add: pr_def Let_def)
        then show ?thesis by (rule stop)
      next
        case more
        then have r: "retransmit_loop fuel now awnd (i + 1) (b + ?len) (cs @ [retransmitted c]) a1 = (cs', a')"
          using Suc.prems(4) Some True by (auto simp: a1_def pr_def Let_def)
        have "data_bytes cs + length (pd_user_data c) < 2 ^ 33"
          using Suc.prems(3) short unat_less_pow [of awnd] by simp
        then have "unat (b + ?len) = data_bytes cs + length (pd_user_data c)"
          unfolding Suc.prems(2) of_nat_add [symmetric] by (intro unat_of_nat_less) simp
        then have "data_bytes (cs @ [retransmitted c]) \<le> unat awnd"
          using more(2) by (simp add: not_less word_le_nat_alt unat_ucast_usize)
        from Suc.IH [OF inv1 _ this r] obtain ds where ds: "cs' = (cs @ [retransmitted c]) @ ds"
            "resent a1 (i + 1) ds a'"
            "data_bytes cs' \<le> unat awnd \<or> i + 1 = 0 \<and> (\<exists>d. ds = [d] \<and> as_rwnd a1 < of_nat (length (pd_user_data d)))"
          using Suc.prems(2) by auto
        have "data_bytes cs' \<le> unat awnd" using ds(3) i by auto
        then show ?thesis
          using ds(1) resent_Cons [OF Suc.prems(1) Some True t i a1 ds(2)] by auto
      qed
    qed
  qed
qed


lemma retransmission_resends:
  assumes "flight_inv a" and "get_data_packets_to_retransmit now a = (ps, a')"
  shows "\<exists>cs. concat (map pk_chunks ps) = map ChunkPayloadData cs \<and> resent a 0 cs a' \<and>
    (data_bytes cs \<le> unat (min (as_cwnd a) (as_rwnd a)) \<or>
      (\<exists>d. cs = [d] \<and> as_rwnd a < of_nat (length (pd_user_data d))))"
proof -
  obtain cs where cs: "retransmit_loop (inflight_fuel a) now (min (as_cwnd a) (as_rwnd a)) 0 0 [] a = (cs, a')"
      "ps = bundle_data_chunks_into_packets cs a'"
    using assms(2) by (auto simp: get_data_packets_to_retransmit_def Let_def split: prod.splits)
  have "concat (map pk_chunks ps) = map ChunkPayloadData cs"
    by (simp add: cs(2) bundle_data_chunks_into_packets_def bundle_loop_chunks)
  then show ?thesis
    using retransmit_loop_spec [OF assms(1) _ _ cs(1)] by auto
qed

text \<open>C19: a retransmission sends chunks that are in flight and marked, each once and in the order of
  their TSNs; in the queue they are counted as sent once more and not marked any longer, and the
  sender's invariant is kept.  Their bytes fit both windows, unless a single chunk that the
  receive window does not admit is sent as a probe.\<close>

theorem retransmission_bounded:
  assumes "flight_inv a" and "get_data_packets_to_retransmit now a = (ps, a')"
  shows "\<exists>cs. concat (map pk_chunks ps) = map ChunkPayloadData cs \<and> resent a 0 cs a' \<and>
    (data_bytes cs \<le> unat (min (as_cwnd a) (as_rwnd a)) \<or>
      (\<exists>d. cs = [d] \<and> as_rwnd a < of_nat (length (pd_user_data d))))"
  by (rule retransmission_resends [OF assms])

theorem retransmission_bounded_witness:
  "\<exists>cs. concat (map pk_chunks (fst (get_data_packets_to_retransmit 0 example_sender))) = map ChunkPayloadData cs \<and>
    resent example_sender 0 cs (snd (get_data_packets_to_retransmit 0 example_sender))"
  using retransmission_bounded [OF example_sender_inv(1), of 0] by (metis prod.collapse)

section \<open>Collecting the outbound packets\<close>

definition kept :: "association \<Rightarrow> association \<Rightarrow> bool" where
  "kept a a' \<longleftrightarrow> flight_inv a' \<and> sender_view a' = sender_view a \<and> sh_state a' = sh_state a"

lemma kept_refl: "flight_inv a \<Longrightarrow> kept a a"
  by (simp add: kept_def)

lemma kept_trans: "kept a b \<Longrightarrow> kept b c \<Longrightarrow> kept a c"
  by (simp add: kept_def)

lemma kept_frame:
  assumes "flight_inv a" and "sender_view b = sender_view a" and "as_inflight_queue b = as_inflight_queue a"
    and "sh_state b = sh_state a"
  shows "kept a b"
  using assms by (simp add: kept_def flight_inv_view [OF assms(2,3)])

lemma kept_retransmit:
  "flight_inv a \<Longrightarrow> gather_data_packets_to_retransmit crc now raws a = (r, a') \<Longrightarrow> kept a a'"
  using retransmission_resends [of a now]
  by (fastforce simp: gather_data_packets_to_retransmit_def kept_def resent_def window_view_def split: prod.splits)

lemma fast_retransmit_kept:
  "flight_inv a \<Longrightarrow> fast_retransmit_loop fuel now i n cs a = (cs', a') \<Longrightarrow> kept a a'"
proof (induction fuel arbitrary: i n cs a)
  case (Suc fuel)
  let ?t = "as_cumulative_tsn_ack_point a + i + 1"
  show ?case
  proof (cases "payload_queue_get (as_inflight_queue a) ?t")
    case (Some c)
    define a1 where "a1 = check_partial_reliability_status now (fast_retransmitted c)
      (a\<lparr>as_stats := inc_fast_retrans (as_stats a),
        as_inflight_queue := payload_queue_update (as_inflight_queue a) ?t fast_retransmitted\<rparr>)"
    have "flight_inv a1"
      by (rule flight_inv_update [OF Suc.prems(1), of fast_retransmitted _ ?t]) (simp_all add: a1_def)
    then have a1: "kept a a1" by (simp add: kept_def a1_def)
    show ?thesis
      using Suc.prems Some Suc.IH [of a] Suc.IH [of a1] a1 kept_trans [of a a1 a'] kept_refl [of a]
      by (auto simp: Let_def kept_def [of a a1] a1_def [symmetric] split: if_splits)
  qed (use Suc.prems kept_refl in simp)
qed (simp add: kept_refl)

lemma kept_fast:
  assumes "flight_inv a" and "gather_outbound_fast_retransmission_packets crc now raws a = (r, a')"
  shows "kept a a'"
proof (cases "as_will_retransmit_fast a")
  case True
  let ?a = "a\<lparr>as_will_retransmit_fast := False\<rparr>"
  have k: "kept a ?a" by (rule kept_frame [OF assms(1)]) (simp_all add: sender_view_def)
  obtain cs where "fast_retransmit_loop (inflight_fuel ?a) now 0 COMMON_HEADER_SIZE [] ?a = (cs, a')"
    using assms(2) True by (auto simp: gather_outbound_fast_retransmission_packets_def Let_def split: prod.splits)
  then have "kept ?a a'" using fast_retransmit_kept k by (auto simp: kept_def)
  then show ?thesis using kept_trans [OF k] by simp
qed (use assms kept_refl in \<open>simp add: gather_outbound_fast_retransmission_packets_def\<close>)

lemma kept_sack:
  "flight_inv a \<Longrightarrow> gather_outbound_sack_packets crc raws a = (r, a') \<Longrightarrow> kept a a'"
  by (rule kept_frame)
    (auto simp: gather_outbound_sack_packets_def create_selective_ack_chunk_def sender_view_def Let_def
      payload_queue_pop_duplicates_def split: if_splits)

lemma kept_forward:
  "flight_inv a \<Longrightarrow> gather_outbound_forward_tsn_packets crc raws a = (r, a') \<Longrightarrow> kept a a'"
  by (rule kept_frame) (auto simp: gather_outbound_forward_tsn_packets_def sender_view_def Let_def split: if_splits)

lemma kept_shutdown:
  "flight_inv a \<Longrightarrow> gather_outbound_shutdown_packets crc raws a = (r, ok, a') \<Longrightarrow> kept a a'"
  by (rule kept_frame)
    (auto simp: gather_outbound_shutdown_packets_def sender_view_def Let_def start_t2shutdown_def
      split: if_splits outcome.splits)

lemma kept_reconfig:
  "flight_inv a \<Longrightarrow> gather_reconfig_packets crc sis raws a = (r, a') \<Longrightarrow> kept a a'"
  by (rule kept_frame)
    (auto simp: gather_reconfig_packets_def sender_view_def Let_def generate_next_rsn_def split: if_splits)

lemma kept_t3rtx: "flight_inv a \<Longrightarrow> kept a (start_t3rtx a)"
  by (rule kept_frame) (simp_all add: start_t3rtx_def sender_view_def)


lemma kept_room:
  "kept a b \<Longrightarrow> flight_inv b \<and> pending_length b + flight_length b = pending_length a + flight_length a"
  using view_eqD [of b a] by (simp add: kept_def)

lemma gather_data_total:
  assumes "flight_inv a" and "pending_length a + flight_length a < 2 ^ 31"
  shows "\<exists>raws' a'. gather_outbound_data_and_reconfig_packets crc now raws a = Some (Ok raws', a') \<and>
    flight_inv a' \<and> sh_state a' = sh_state a \<and>
    pending_length a' + flight_length a' \<le> pending_length a + flight_length a"
proof -
  obtain cs sis b where b: "pop_pending_data_chunks_to_send now a = Some (Ok (cs, sis), b)" "flowed a b"
    using pop_pending_any [OF assms] by blast
  define c where "c = (if cs \<noteq> [] then start_t3rtx b else b)"
  have c: "kept b c" using b(2) kept_t3rtx kept_refl by (simp add: c_def flowed_def)
  define r1 where "r1 = (if cs \<noteq> [] then foldl (push_raw crc) raws (bundle_data_chunks_into_packets cs c) else raws)"
  obtain r2 d where d: "gather_reconfig_packets crc sis r1 c = (r2, d)" by fastforce
  have k: "kept b d" using kept_trans [OF c] kept_reconfig [OF _ d] c by (simp add: kept_def [of b c])
  have "gather_outbound_data_and_reconfig_packets crc now raws a = Some (Ok r2, d)"
    using d by (auto simp: gather_outbound_data_and_reconfig_packets_def b(1) Let_def c_def r1_def)
  then show ?thesis
    using k kept_room [OF k] b(2) by (auto simp: kept_def flowed_def)
qed

definition shutting_down :: "association \<Rightarrow> bool" where
  "shutting_down a \<longleftrightarrow> get_state a \<in> {ShutdownPending, ShutdownSent, ShutdownReceived, ShutdownAckSent}"

lemma get_state_eqD: "sh_state b = sh_state a \<Longrightarrow> get_state b = get_state a"
  by (simp add: get_state_def)

lemma gather_outbound_established:
  assumes "flight_inv a" and "pending_length a + flight_length a < 2 ^ 31" and "get_state a = Established"
  shows "\<exists>raws a'. gather_outbound crc now a = Some (Ok (raws, True), a') \<and> flight_inv a' \<and>
    sh_state a' = sh_state a \<and> pending_length a' + flight_length a' \<le> pending_length a + flight_length a"
proof -
  define a0 where "a0 = a\<lparr>as_control_queue := []\<rparr>"
  define r0 where "r0 = foldl (push_raw crc) [] (as_control_queue a)"
  have k0: "kept a a0" by (rule kept_frame [OF assms(1)]) (simp_all add: a0_def sender_view_def)
  obtain r1 a1 where g1: "gather_data_packets_to_retransmit crc now r0 a0 = (r1, a1)" by fastforce
  have k1: "kept a a1" using k0 kept_retransmit [OF _ g1] kept_trans [OF k0] by (simp add: kept_def [of a a0])
  obtain r2 a2 where g2: "gather_outbound_data_and_reconfig_packets crc now r1 a1 = Some (Ok r2, a2)"
      "flight_inv a2" "sh_state a2 = sh_state a1"
      "pending_length a2 + flight_length a2 \<le> pending_length a1 + flight_length a1"
    using gather_data_total [of a1 crc now r1] kept_room [OF k1] assms(2) by auto
  obtain r3 a3 where g3: "gather_outbound_fast_retransmission_packets crc now r2 a2 = (r3, a3)" by fastforce
  obtain r4 a4 where g4: "gather_outbound_sack_packets crc r3 a3 = (r4, a4)" by fastforce
  obtain r5 a5 where g5: "gather_outbound_forward_tsn_packets crc r4 a4 = (r5, a5)" by fastforce
  have k3: "kept a2 a3" by (rule kept_fast [OF g2(2) g3])
  have k4: "kept a2 a4" using k3 kept_sack [OF _ g4] kept_trans [OF k3] by (simp add: kept_def [of a2 a3])
  have k5: "kept a2 a5" using k4 kept_forward [OF _ g5] kept_trans [OF k4] by (simp add: kept_def [of a2 a4])
  have s0: "get_state a0 = Established" using assms(3) by (simp add: a0_def get_state_def)
  have "gather_outbound crc now a = Some (Ok (r5, True), a5)"
    unfolding gather_outbound_def Let_def a0_def [symmetric] r0_def [symmetric]
    by (simp add: s0 g1 g2(1) g3 g4 g5)
  then show ?thesis
    using k1 kept_room [OF k1] k5 kept_room [OF k5] g2 by (auto simp: kept_def)
qed

lemma gather_outbound_other:
  assumes "flight_inv a" and "get_state a \<noteq> Established"
  shows "\<exists>raws ok a'. gather_outbound crc now a = Some (Ok (raws, ok), a') \<and> kept a a'"
proof -
  define a0 where "a0 = a\<lparr>as_control_queue := []\<rparr>"
  define r0 where "r0 = foldl (push_raw crc) [] (as_control_queue a)"
  have k0: "kept a a0" by (rule kept_frame [OF assms(1)]) (simp_all add: a0_def sender_view_def)
  have s0: "get_state a0 = get_state a" by (simp add: a0_def get_state_def)
  have g: "gather_outbound crc now a =
      (if get_state a \<in> {ShutdownPending, ShutdownSent, ShutdownReceived} then
        let (raw_packets, a) = gather_data_packets_to_retransmit crc now r0 a0;
            (raw_packets, a) = gather_outbound_fast_retransmission_packets crc now raw_packets a;
            (raw_packets, a) = gather_outbound_sack_packets crc raw_packets a;
            (raw_packets, ok, a) = gather_outbound_shutdown_packets crc raw_packets a in
        Some (Ok (raw_packets, ok), a)
      else if get_state a = ShutdownAckSent then
        let (raw_packets, ok, a) = gather_outbound_shutdown_packets crc r0 a0 in
        Some (Ok (raw_packets, ok), a)
      else Some (Ok (r0, True), a0))"
    using assms(2) s0 by (simp add: gather_outbound_def Let_def a0_def [symmetric] r0_def [symmetric])
  consider (sd) "get_state a \<in> {ShutdownPending, ShutdownSent, ShutdownReceived}"
    | (ack) "get_state a = ShutdownAckSent" | (rest) "\<not> shutting_down a"
    by (auto simp: shutting_down_def)
  then show ?thesis
  proof cases
    case sd
    obtain r1 a1 where g1: "gather_data_packets_to_retransmit crc now r0 a0 = (r1, a1)" by fastforce
    obtain r3 a3 where g3: "gather_outbound_fast_retransmission_packets crc now r1 a1 = (r3, a3)" by fastforce
    obtain r4 a4 where g4: "gather_outbound_sack_packets crc r3 a3 = (r4, a4)" by fastforce
    obtain r5 ok a5 where g5: "gather_outbound_shutdown_packets crc r4 a4 = (r5, ok, a5)" by (metis prod_cases3)
    have k1: "kept a a1" using k0 kept_retransmit [OF _ g1] kept_trans [OF k0] by (simp add: kept_def [of a a0])
    have k3: "kept a a3" using k1 kept_fast [OF _ g3] kept_trans [OF k1] by (simp add: kept_def [of a a1])
    have k4: "kept a a4" using k3 kept_sack [OF _ g4] kept_trans [OF k3] by (simp add: kept_def [of a a3])
    have k5: "kept a a5" using k4 kept_shutdown [OF _ g5] kept_trans [OF k4] by (simp add: kept_def [of a a4])
    have "gather_outbound crc now a = Some (Ok (r5, ok), a5)" using sd by (auto simp: g g1 g3 g4 g5)
    then show ?thesis using k5 by blast
  next
    case ack
    obtain r5 ok a5 where g5: "gather_outbound_shutdown_packets crc r0 a0 = (r5, ok, a5)" by (metis prod_cases3)
    have "kept a a5" using k0 kept_shutdown [OF _ g5] kept_trans [OF k0] by (simp add: kept_def [of a a0])
    moreover have "gather_outbound crc now a = Some (Ok (r5, ok), a5)" using ack by (simp add: g g5)
    ultimately show ?thesis by blast
  next
    case rest
    then have "gather_outbound crc now a = Some (Ok (r0, True), a0)" by (auto simp: g shutting_down_def)
    then show ?thesis using k0 by blast
  qed
qed

lemma gather_outbound_ok:
  assumes "flight_inv a" and "pending_length a + flight_length a < 2 ^ 31"
  shows "\<exists>raws ok a'. gather_outbound crc now a = Some (Ok (raws, ok), a') \<and> flight_inv a' \<and>
    get_state a' = get_state a \<and> pending_length a' + flight_length a' \<le> pending_length a + flight_length a"
proof (cases "get_state a = Established")
  case True
  obtain raws a' where "gather_outbound crc now a = Some (Ok (raws, True), a')" "flight_inv a'"
      "sh_state a' = sh_state a" "pending_length a' + flight_length a' \<le> pending_length a + flight_length a"
    using gather_outbound_established [OF assms True] by blast
  then show ?thesis
    using assms(2) get_state_eqD [of a' a]
    by (intro exI [of _ raws] exI [of _ True] exI [of _ a']) simp
next
  case False
  obtain raws ok a' where g: "gather_outbound crc now a = Some (Ok (raws, ok), a')" and k: "kept a a'"
    using gather_outbound_other [OF assms(1) False] by blast
  then show ?thesis using assms(2) kept_room [OF k] get_state_eqD [of a' a] by (auto simp: kept_def)
qed

text \<open>C14: collecting the outbound packets always ends, and neither fails nor panics, from every state
  that keeps the sender's invariant and in any state of the association; the invariant and the
  state are kept.\<close>

theorem gather_outbound_total:
  assumes "flight_inv a" and "pending_length a + flight_length a < 2 ^ 31"
  shows "\<exists>raws ok a'. gather_outbound crc now a = Some (Ok (raws, ok), a') \<and> flight_inv a' \<and>
    get_state a' = get_state a \<and> pending_length a' + flight_length a' < 2 ^ 31"
  using gather_outbound_ok [OF assms, of crc now] assms(2) by (meson le_less_trans)

theorem gather_outbound_total_witness:
  "\<exists>raws ok a'. gather_outbound (\<lambda>_. 0) 5 example_sender = Some (Ok (raws, ok), a') \<and> flight_inv a' \<and>
    get_state a' = get_state example_sender \<and> pending_length a' + flight_length a' < 2 ^ 31"
  by (rule gather_outbound_total) (simp_all add: example_sender_inv)

lemma shutdown_views:
  assumes "association_shutdown a = (Ok (), b)"
  shows "get_state b \<in> {ShutdownPending, ShutdownSent}" and "sender_view b = sender_view a"
    and "as_inflight_queue b = as_inflight_queue a"
  using assms
  by (auto simp: association_shutdown_def sender_view_def Let_def set_state_def get_state_def
      association_state_of_u8_def awake_write_loop_def split: if_splits)

end
