(* ===== verification/Sack.thy ===== *)
theory Sack
  imports Outbound
begin

text \<open>
  SACK: what the peer has received leaves the inflight queue or is marked in it, the round-trip
  time is measured, the congestion window follows, chunks reported missing three times are
  retransmitted, and an association that is shutting down goes on when nothing is outstanding.

  The clock (\<open>now\<close>) and the rounding of the floating-point unit (\<open>rnd\<close>) are arguments; byte
  counts that the code keeps in an \<^verbatim>\<open>i64\<close> are integers.
\<close>

section \<open>The acknowledged chunks\<close>

definition add_bytes_acked :: "u16 \<Rightarrow> int \<Rightarrow> (u16, int) hmap \<Rightarrow> (u16, int) hmap" where
  "add_bytes_acked si n_bytes_acked bytes_acked =
     (case hm_get bytes_acked si of
        Some amount \<Rightarrow> hm_insert si (amount + n_bytes_acked) bytes_acked
      | None \<Rightarrow> hm_insert si n_bytes_acked bytes_acked)"

definition measure_rtt :: "(real \<Rightarrow> real) \<Rightarrow> time_ms \<Rightarrow> payload_data \<Rightarrow> association \<Rightarrow> unit outcome \<times> association"
where
  "measure_rtt rnd now c a =
     (let a = a\<lparr>as_min_tsn2measure_rtt := as_my_next_tsn a\<rparr> in
      if now < pd_since c then (Err ErrInvalidSystemTime, a)
      else
        let rtt = now - pd_since c;
            (srtt, m) = rto_manager_set_new_rtt rnd (as_rto_mgr a) (of_nat rtt) in
        (Ok (), a\<lparr>as_rto_mgr := m\<rparr>))"

definition ack_popped_chunk ::
  "(real \<Rightarrow> real) \<Rightarrow> time_ms \<Rightarrow> u32 \<Rightarrow> payload_data \<Rightarrow> (u16, int) hmap \<Rightarrow> association
    \<Rightarrow> (u16, int) hmap outcome \<times> association" where
  "ack_popped_chunk rnd now i c bytes_acked a =
     (if pd_acked c then (Ok bytes_acked, a)
      else
        let a = (if i = as_cumulative_tsn_ack_point a + 1
                 then a\<lparr>as_t3rtx := rtx_timer_stop (as_t3rtx a)\<rparr> else a);
            n_bytes_acked = int (length (pd_user_data c));
            bytes_acked = add_bytes_acked (pd_stream_identifier c) n_bytes_acked bytes_acked in
        if pd_nsent c = 1 \<and> sna32gte (pd_tsn c) (as_min_tsn2measure_rtt a)
        then then_do (measure_rtt rnd now c a) (\<lambda>_ a. (Ok bytes_acked, a))
        else (Ok bytes_acked, a))"

definition leave_fast_recovery :: "payload_data \<Rightarrow> association \<Rightarrow> association" where
  "leave_fast_recovery c a =
     (if as_in_fast_recovery a \<and> pd_tsn c = as_fast_recover_exit_point a
      then a\<lparr>as_in_fast_recovery := False\<rparr> else a)"

function ack_cumulative_loop ::
  "(real \<Rightarrow> real) \<Rightarrow> time_ms \<Rightarrow> u32 \<Rightarrow> u32 \<Rightarrow> (u16, int) hmap \<Rightarrow> association
    \<Rightarrow> (u16, int) hmap outcome \<times> association" where
  "ack_cumulative_loop rnd now cum i bytes_acked a =
     (if sna32lte i cum then
        case payload_queue_pop (as_inflight_queue a) i of
          (Some c, q) \<Rightarrow>
            then_do (ack_popped_chunk rnd now i c bytes_acked (a\<lparr>as_inflight_queue := q\<rparr>)) (\<lambda>bytes_acked a.
              ack_cumulative_loop rnd now cum (i + 1) bytes_acked (leave_fast_recovery c a))
        | (None, q) \<Rightarrow> (Err ErrInflightQueueTsnPop, a\<lparr>as_inflight_queue := q\<rparr>)
      else (Ok bytes_acked, a))"
  by pat_completeness auto
termination
proof (relation "measure (\<lambda>(rnd, now, n, i, m, a). unat (n + 1 - i))", goal_cases)
  case (2 rnd now n i)
  then have "n + 1 \<noteq> i" using s32.asym s32.lt_succ by (auto simp: sna32lte_def)
  then have "0 < unat (n + 1 - i)" by (simp add: unat_gt_0)
  then show ?case using \<open>n + 1 \<noteq> i\<close> unat_diff_succ [of "n + 1" i] by simp
qed simp

declare ack_cumulative_loop.simps [simp del]

text \<open>The TSNs of the gap blocks, in the order of the two loops.\<close>

definition gap_tsns :: "u32 \<Rightarrow> gap_ack_block list \<Rightarrow> u32 list" where
  "gap_tsns cum gs = concat (map (\<lambda>g. map (\<lambda>i. cum + of_nat i) [unat (gab_start g)..<Suc (unat (gab_end g))]) gs)"

fun ack_gap_loop ::
  "(real \<Rightarrow> real) \<Rightarrow> time_ms \<Rightarrow> u32 list \<Rightarrow> (u16, int) hmap \<Rightarrow> u32 \<Rightarrow> association
    \<Rightarrow> ((u16, int) hmap \<times> u32) outcome \<times> association" where
  "ack_gap_loop rnd now [] bytes_acked htna a = (Ok (bytes_acked, htna), a)"
| "ack_gap_loop rnd now (tsn # tsns) bytes_acked htna a =
     (let (is_existed, is_acked) =
            (case payload_queue_get (as_inflight_queue a) tsn of
               Some c \<Rightarrow> (True, pd_acked c)
             | None \<Rightarrow> (False, False));
          (n_bytes_acked, q) =
            (if is_existed \<and> \<not> is_acked then payload_queue_mark_as_acked (as_inflight_queue a) tsn
             else (0, as_inflight_queue a));
          a = a\<lparr>as_inflight_queue := q\<rparr> in
      case payload_queue_get q tsn of
        None \<Rightarrow> (Err ErrTsnRequestNotExist, a)
      | Some c \<Rightarrow>
          if \<not> is_acked then
            let bytes_acked = add_bytes_acked (pd_stream_identifier c) (sint n_bytes_acked) bytes_acked in
            then_do (if pd_nsent c = 1 then measure_rtt rnd now c a else (Ok (), a)) (\<lambda>_ a.
              ack_gap_loop rnd now tsns bytes_acked (if sna32lt htna tsn then tsn else htna) a)
          else ack_gap_loop rnd now tsns bytes_acked htna a)"

definition process_selective_ack ::
  "(real \<Rightarrow> real) \<Rightarrow> time_ms \<Rightarrow> selective_ack \<Rightarrow> association
    \<Rightarrow> ((u16, int) hmap \<times> u32) outcome \<times> association" where
  "process_selective_ack rnd now d a =
     then_do (ack_cumulative_loop rnd now (sa_cumulative_tsn_ack d) (as_cumulative_tsn_ack_point a + 1) [] a)
       (\<lambda>bytes_acked a.
          ack_gap_loop rnd now (gap_tsns (sa_cumulative_tsn_ack d) (sa_gap_ack_blocks d)) bytes_acked
            (sa_cumulative_tsn_ack d) a)"

section \<open>Congestion control\<close>

definition update_congestion_window :: "int \<Rightarrow> association \<Rightarrow> association" where
  "update_congestion_window total_bytes_acked a =
     (if as_cwnd a \<le> as_ssthresh a then
        (if \<not> as_in_fast_recovery a \<and> pending_queue_len (sh_pending_queue a) > 0
         then a\<lparr>as_cwnd := as_cwnd a + min (of_int total_bytes_acked) (as_cwnd a)\<rparr> else a)
      else
        let a = a\<lparr>as_partial_bytes_acked := as_partial_bytes_acked a + of_int total_bytes_acked\<rparr> in
        if as_partial_bytes_acked a \<ge> as_cwnd a \<and> pending_queue_len (sh_pending_queue a) > 0
        then a\<lparr>as_partial_bytes_acked := as_partial_bytes_acked a - as_cwnd a, as_cwnd := as_cwnd a + as_mtu a\<rparr>
        else a)"

definition on_cumulative_tsn_ack_point_advanced :: "int \<Rightarrow> association \<Rightarrow> unit outcome \<times> association" where
  "on_cumulative_tsn_ack_point_advanced total_bytes_acked a =
     then_do (payload_queue_is_empty (as_inflight_queue a), a) (\<lambda>none_inflight a.
       let a = (if none_inflight then a\<lparr>as_t3rtx := rtx_timer_stop (as_t3rtx a)\<rparr> else start_t3rtx a) in
       (Ok (), update_congestion_window total_bytes_acked a))"

section \<open>Missing chunks\<close>

definition enter_fast_recovery :: "u32 \<Rightarrow> association \<Rightarrow> association" where
  "enter_fast_recovery htna a =
     (let a = a\<lparr>as_in_fast_recovery := True, as_fast_recover_exit_point := htna,
                as_ssthresh := max (as_cwnd a div 2) (4 * as_mtu a)\<rparr> in
      a\<lparr>as_cwnd := as_ssthresh a, as_partial_bytes_acked := 0, as_will_retransmit_fast := True\<rparr>)"

definition chunk_missed :: "payload_data \<Rightarrow> payload_data" where
  "chunk_missed c = c\<lparr>pd_miss_indicator := pd_miss_indicator c + 1\<rparr>"

function miss_loop :: "u32 \<Rightarrow> u32 \<Rightarrow> u32 \<Rightarrow> association \<Rightarrow> unit outcome \<times> association" where
  "miss_loop htna max_tsn tsn a =
     (if sna32lt tsn max_tsn then
        case payload_queue_get (as_inflight_queue a) tsn of
          Some c \<Rightarrow>
            miss_loop htna max_tsn (tsn + 1)
              (if \<not> pd_acked c \<and> \<not> payload_data_abandoned (sh_cells a) c \<and> pd_miss_indicator c < 3 then
                 let a = a\<lparr>as_inflight_queue := payload_queue_update (as_inflight_queue a) tsn chunk_missed\<rparr> in
                 if pd_miss_indicator (chunk_missed c) = 3 \<and> \<not> as_in_fast_recovery a
                 then enter_fast_recovery htna a else a
               else a)
        | None \<Rightarrow> (Err ErrTsnRequestNotExist, a)
      else (Ok (), a))"
  by pat_completeness auto
termination
proof (relation "measure (\<lambda>(h, n, i, a). unat (n - i))", goal_cases)
  case (2 h n i)
  then have "n \<noteq> i" by (auto simp: s32.irrefl)
  then have "0 < unat (n - i)" by (simp add: unat_gt_0)
  then show ?case using \<open>n \<noteq> i\<close> unat_diff_succ [of n i] by simp
qed simp

declare miss_loop.simps [simp del]

definition process_fast_retransmission :: "u32 \<Rightarrow> u32 \<Rightarrow> bool \<Rightarrow> association \<Rightarrow> unit outcome \<times> association" where
  "process_fast_retransmission cum_tsn_ack_point htna cum_tsn_ack_point_advanced a =
     then_do
       (if \<not> as_in_fast_recovery a \<or> cum_tsn_ack_point_advanced then
          then_do
            (if \<not> as_in_fast_recovery a then (Ok htna, a)
             else (and_then (payload_queue_len (as_inflight_queue a)) (\<lambda>len.
                     Ok (cum_tsn_ack_point + ucast len + 1)), a))
            (\<lambda>max_tsn a. miss_loop htna max_tsn (cum_tsn_ack_point + 1) a)
        else (Ok (), a))
       (\<lambda>_ a. (Ok (), if as_in_fast_recovery a \<and> cum_tsn_ack_point_advanced
                      then a\<lparr>as_will_retransmit_fast := True\<rparr> else a))"

section \<open>The handler\<close>

definition postprocess_sack :: "association_state \<Rightarrow> bool \<Rightarrow> association \<Rightarrow> unit outcome \<times> association" where
  "postprocess_sack state should_awake_write_loop a =
     then_do (payload_queue_is_empty (as_inflight_queue a), a) (\<lambda>none_inflight a.
       let (should_awake_write_loop, a) =
         (if \<not> none_inflight then (should_awake_write_loop, start_t3rtx a)
          else if state = ShutdownPending then
            (True, set_state ShutdownSent (a\<lparr>as_will_send_shutdown := True\<rparr>))
          else if state = ShutdownReceived then
            (True, set_state ShutdownAckSent (a\<lparr>as_will_send_shutdown_ack := True\<rparr>))
          else (should_awake_write_loop, a)) in
       (Ok (), if should_awake_write_loop then awake_write_loop a else a))"

definition release_buffers :: "(u16, int) hmap \<Rightarrow> association \<Rightarrow> association" where
  "release_buffers bytes_acked a =
     foldl (\<lambda>a (si, n). update_stream si (\<lambda>s. snd (on_buffer_released s n)) a) a bytes_acked"

definition update_rwnd :: "u32 \<Rightarrow> association \<Rightarrow> association" where
  "update_rwnd credit a =
     (let bytes_outstanding = ucast (payload_queue_get_num_bytes (as_inflight_queue a)) in
      a\<lparr>as_rwnd := (if bytes_outstanding \<ge> credit then 0 else credit - bytes_outstanding)\<rparr>)"

definition advance_peer_ack_point :: "association \<Rightarrow> association" where
  "advance_peer_ack_point a =
     (let a = advance_peer_ack_loop (inflight_fuel a) (as_advanced_peer_tsn_ack_point a + 1) a in
      if sna32gt (as_advanced_peer_tsn_ack_point a) (as_cumulative_tsn_ack_point a)
      then a\<lparr>as_will_send_forward_tsn := True\<rparr> else a)"

definition forward_ack_point :: "association \<Rightarrow> association" where
  "forward_ack_point a =
     (if as_use_forward_tsn a then
        let a = (if sna32lt (as_advanced_peer_tsn_ack_point a) (as_cumulative_tsn_ack_point a)
                 then a\<lparr>as_advanced_peer_tsn_ack_point := as_cumulative_tsn_ack_point a\<rparr> else a) in
        awake_write_loop (advance_peer_ack_point a)
      else a)"

definition handle_sack :: "(real \<Rightarrow> real) \<Rightarrow> time_ms \<Rightarrow> selective_ack \<Rightarrow> association \<Rightarrow> handler" where
  "handle_sack rnd now d a =
     (let state = get_state a in
      if state \<noteq> Established \<and> state \<noteq> ShutdownPending \<and> state \<noteq> ShutdownReceived then (Ok [], a)
      else
        let a = a\<lparr>as_stats := inc_sacks (as_stats a)\<rparr> in
        if sna32gt (as_cumulative_tsn_ack_point a) (sa_cumulative_tsn_ack d) then (Ok [], a)
        else
          then_do (process_selective_ack rnd now d a) (\<lambda>(bytes_acked, htna) a.
          let total_bytes_acked = sum_list (hm_values bytes_acked);
              advanced_point = sna32lt (as_cumulative_tsn_ack_point a) (sa_cumulative_tsn_ack d) in
          then_do
            (if advanced_point
             then on_cumulative_tsn_ack_point_advanced total_bytes_acked
                    (a\<lparr>as_cumulative_tsn_ack_point := sa_cumulative_tsn_ack d\<rparr>)
             else (Ok (), a)) (\<lambda>_ a.
          let a = release_buffers bytes_acked a;
              a = update_rwnd (sa_advertised_receiver_window_credit d) a in
          then_do (process_fast_retransmission (sa_cumulative_tsn_ack d) htna advanced_point a) (\<lambda>_ a.
          then_do (postprocess_sack state advanced_point (forward_ack_point a)) (\<lambda>_ a. (Ok [], a))))))"


section \<open>Acknowledging keeps the window contiguous\<close>

definition clock_ok :: "time_ms \<Rightarrow> association \<Rightarrow> bool" where
  "clock_ok now a \<longleftrightarrow> (\<forall>t c. payload_queue_get (as_inflight_queue a) t = Some c \<longrightarrow> pd_since c \<le> now)"

definition rest_view :: "association \<Rightarrow> (u16, stream) hmap \<times> cells \<times> bool \<times> u32" where
  "rest_view a = (as_streams a, sh_cells a, as_use_forward_tsn a, as_ssthresh a)"

lemma measure_rtt_ok:
  assumes "pd_since c \<le> now"
  obtains a' where "measure_rtt rnd now c a = (Ok (), a')" and "sender_view a' = sender_view a"
    and "window_view a' = window_view a" and "rest_view a' = rest_view a"
    and "as_inflight_queue a' = as_inflight_queue a"
  using assms
  by (cases "rto_manager_set_new_rtt rnd (as_rto_mgr a) (of_nat (now - pd_since c))")
    (simp add: measure_rtt_def Let_def sender_view_def window_view_def rest_view_def)

lemma ack_popped_chunk_ok:
  assumes "pd_since c \<le> now"
  obtains m' a' where "ack_popped_chunk rnd now i c m a = (Ok m', a')" and "sender_view a' = sender_view a"
    and "window_view a' = window_view a" and "rest_view a' = rest_view a"
    and "as_inflight_queue a' = as_inflight_queue a"
proof -
  define b where "b = (if i = as_cumulative_tsn_ack_point a + 1
      then a\<lparr>as_t3rtx := rtx_timer_stop (as_t3rtx a)\<rparr> else a)"
  have b: "sender_view b = sender_view a" "window_view b = window_view a" "rest_view b = rest_view a"
      "as_inflight_queue b = as_inflight_queue a"
    by (simp_all add: b_def sender_view_def window_view_def rest_view_def)
  obtain a' where "measure_rtt rnd now c b = (Ok (), a')" "sender_view a' = sender_view a"
      "window_view a' = window_view a" "rest_view a' = rest_view a" "as_inflight_queue a' = as_inflight_queue a"
    using measure_rtt_ok [OF assms, of rnd b] b by metis
  then show thesis
    using that b unfolding ack_popped_chunk_def Let_def b_def [symmetric]
    by (cases "pd_acked c"; cases "pd_nsent c = 1 \<and> sna32gte (pd_tsn c) (as_min_tsn2measure_rtt b)") auto
qed

lemma leave_fast_recovery_views [simp]:
  "sender_view (leave_fast_recovery c a) = sender_view a" "window_view (leave_fast_recovery c a) = window_view a"
  "rest_view (leave_fast_recovery c a) = rest_view a"
  "as_inflight_queue (leave_fast_recovery c a) = as_inflight_queue a"
  by (simp_all add: leave_fast_recovery_def sender_view_def window_view_def rest_view_def)

text \<open>Popping the base of a contiguous window moves the base.\<close>

lemma pop_base:
  assumes "pq_inv i q" and "contiguous i n q" and "n \<noteq> i"
  obtains c q' where "payload_queue_pop q i = (Some c, q')" and "payload_queue_get q i = Some c"
    and "pq_inv (i + 1) q'" and "contiguous (i + 1) n q'"
    and "payload_queue_get q' = (payload_queue_get q)(i := None)"
proof -
  have "0 < n - i" using assms(3) by (simp add: word_gt_0)
  then obtain c where c: "hm_get (pq_chunk_map q) i = Some c"
    using assms(2) [unfolded contiguous_def, rule_format, of i] by auto
  obtain q' where q': "payload_queue_pop q i = (Some c, q')" "pq_inv i q'"
      "hm_get (pq_chunk_map q') = (hm_get (pq_chunk_map q))(i := None)"
    using pq.pop_hit [OF assms(1) c] by blast
  have "pq_inv (i + 1) q'" using pq.advance [of i q'] q' by simp
  moreover have "t - (i + 1) < n - (i + 1) \<longleftrightarrow> t \<noteq> i \<and> t - i < n - i" for t
  proof (cases "t = i")
    case True
    have "i - (i + 1) = - 1" by simp
    then have "\<not> i - (i + 1) < n - (i + 1)" by (simp only: not_less word_n1_ge simp_thms)
    then show ?thesis using True by simp
  next
    case False
    have "0 < unat (t - i)" "0 < unat (n - i)" using False assms(3) by (simp_all add: unat_gt_0)
    then show ?thesis using False assms(3) by (auto simp: word_less_nat_alt unat_diff_succ)
  qed
  then have "contiguous (i + 1) n q'" using assms(2) q'(3) by (simp add: contiguous_def)
  moreover have "payload_queue_get q' = (payload_queue_get q)(i := None)"
    using q'(3) by (simp add: payload_queue_get_def fun_eq_iff)
  ultimately show thesis using that [OF q'(1)] c by (simp add: payload_queue_get_def)
qed

lemma unat_window_diff:
  fixes y b n :: u32
  assumes "unat (y - b) \<le> unat (n - b)"
  shows "unat (n - y) = unat (n - b) - unat (y - b)"
proof -
  have "n - y = (n - b) - (y - b)" by simp
  then have "unat (n - y) = unat ((n - b) - (y - b))" by (rule arg_cong)
  also have "\<dots> = unat (n - b) - unat (y - b)" by (subst unat_diff_if) (simp only: assms if_True)
  finally show ?thesis .
qed

lemma ack_cumulative_ok:
  assumes "pq_inv i (as_inflight_queue a)" and "contiguous i (as_my_next_tsn a) (as_inflight_queue a)"
    and "cum + 1 - i \<le> as_my_next_tsn a - i" and "unat (as_my_next_tsn a - i) < 2 ^ 31" and "clock_ok now a"
  shows "\<exists>m' a'. ack_cumulative_loop rnd now cum i m a = (Ok m', a') \<and> pq_inv (cum + 1) (as_inflight_queue a') \<and>
    contiguous (cum + 1) (as_my_next_tsn a) (as_inflight_queue a') \<and>
    sender_view a' = sender_view a \<and> window_view a' = window_view a \<and> rest_view a' = rest_view a \<and>
    (\<forall>t. t - (cum + 1) < as_my_next_tsn a - (cum + 1) \<longrightarrow>
      payload_queue_get (as_inflight_queue a') t = payload_queue_get (as_inflight_queue a) t)"
  using assms
proof (induction "unat (cum + 1 - i)" arbitrary: i m a)
  case 0
  then have i: "i = cum + 1" by (simp add: unat_eq_0)
  then have "\<not> sna32lte i cum" using s32.lt_succ s32.asym by (auto simp: sna32lte_def)
  then show ?case using 0 i by (subst ack_cumulative_loop.simps) auto
next
  case (Suc k)
  let ?n = "as_my_next_tsn a"
  have i: "cum + 1 \<noteq> i" using Suc.hyps(2) by auto
  have lt: "unat (cum + 1 - i) \<le> unat (?n - i)" using Suc.prems(3) by (simp add: word_le_nat_alt)
  have n: "?n \<noteq> i" using lt Suc.hyps(2) by auto
  have ci: "unat (cum - i) = unat (cum + 1 - i) - 1"
    using i unat_minus_one [of "cum + 1 - i"] by (simp add: algebra_simps)
  have "unat (cum - i) < 2 ^ 31" using ci lt Suc.prems(4) by simp
  then have lte: "sna32lte i cum" by (auto simp: sna32lte_def s32.lt_iff_unat)
  obtain c q' where pop: "payload_queue_pop (as_inflight_queue a) i = (Some c, q')"
      "payload_queue_get (as_inflight_queue a) i = Some c" "pq_inv (i + 1) q'" "contiguous (i + 1) ?n q'"
      "payload_queue_get q' = (payload_queue_get (as_inflight_queue a))(i := None)"
    using pop_base [OF Suc.prems(1,2) n] by metis
  have since: "pd_since c \<le> now" using Suc.prems(5) pop(2) by (simp add: clock_ok_def)
  obtain m1 a1 where p: "ack_popped_chunk rnd now i c m (a\<lparr>as_inflight_queue := q'\<rparr>) = (Ok m1, a1)"
      "sender_view a1 = sender_view (a\<lparr>as_inflight_queue := q'\<rparr>)"
      "window_view a1 = window_view (a\<lparr>as_inflight_queue := q'\<rparr>)"
      "rest_view a1 = rest_view (a\<lparr>as_inflight_queue := q'\<rparr>)" "as_inflight_queue a1 = q'"
    using ack_popped_chunk_ok [OF since, of rnd i m "a\<lparr>as_inflight_queue := q'\<rparr>"] by auto
  let ?a2 = "leave_fast_recovery c a1"
  have a2: "as_my_next_tsn ?a2 = ?n" "as_inflight_queue ?a2 = q'" "sender_view ?a2 = sender_view a"
      "window_view ?a2 = window_view a" "rest_view ?a2 = rest_view a"
    using p leave_fast_recovery_views(1) [of c a1]
    by (simp_all add: sender_view_def) (simp_all add: rest_view_def)
  have step: "ack_cumulative_loop rnd now cum i m a = ack_cumulative_loop rnd now cum (i + 1) m1 ?a2"
    using lte pop(1) p(1) by (subst ack_cumulative_loop.simps) simp
  have "k = unat (cum + 1 - (i + 1))" using Suc.hyps(2) ci by simp
  moreover have "cum + 1 - (i + 1) \<le> as_my_next_tsn ?a2 - (i + 1)"
    using lt n ci by (simp add: word_le_nat_alt unat_diff_succ a2)
  moreover have "unat (as_my_next_tsn ?a2 - (i + 1)) < 2 ^ 31"
    using Suc.prems(4) n by (simp add: unat_diff_succ a2)
  moreover have "clock_ok now ?a2" using Suc.prems(5) by (simp add: clock_ok_def p(5) pop(5))
  ultimately obtain m' a' where r: "ack_cumulative_loop rnd now cum (i + 1) m1 ?a2 = (Ok m', a')"
      "pq_inv (cum + 1) (as_inflight_queue a')" "contiguous (cum + 1) ?n (as_inflight_queue a')"
      "sender_view a' = sender_view a" "window_view a' = window_view a" "rest_view a' = rest_view a"
      "\<forall>t. t - (cum + 1) < ?n - (cum + 1) \<longrightarrow>
        payload_queue_get (as_inflight_queue a') t = payload_queue_get q' t"
    using Suc.hyps(1) [of "i + 1" ?a2 m1] pop(3,4) a2 by auto
  have "t \<noteq> i" if "t - (cum + 1) < ?n - (cum + 1)" for t
  proof
    assume "t = i"
    then have "unat (i - (cum + 1)) < unat (?n - (cum + 1))" using that by (simp add: word_less_nat_alt)
    moreover have "unat (i - (cum + 1)) = 2 ^ 32 - unat (cum + 1 - i)"
      using i unat_diff_if [of 0 "cum + 1 - i"] Suc.hyps(2) by simp
    moreover have "unat (?n - (cum + 1)) = unat (?n - i) - unat (cum + 1 - i)"
      using lt by (rule unat_window_diff)
    moreover have "(2::nat) ^ 31 < 2 ^ 32" by simp
    ultimately show False using lt Suc.prems(4) by linarith
  qed
  then show ?case using r step pop(5) by auto
qed


section \<open>Gap blocks\<close>

definition acked_chunk :: "payload_data \<Rightarrow> payload_data" where
  "acked_chunk c = c\<lparr>pd_acked := True, pd_retransmit := False, pd_user_data := []\<rparr>"

lemma acked_chunk_fields [simp]:
  "pd_tsn (acked_chunk c) = pd_tsn c" "pd_acked (acked_chunk c)" "pd_nsent (acked_chunk c) = pd_nsent c"
  "pd_since (acked_chunk c) = pd_since c" "pd_user_data (acked_chunk c) = []"
  by (simp_all add: acked_chunk_def)

lemma mark_as_acked_get:
  "payload_queue_get (snd (payload_queue_mark_as_acked q t)) u =
    (if u = t then map_option acked_chunk (payload_queue_get q t) else payload_queue_get q u)"
  by (auto simp: payload_queue_get_def payload_queue_mark_as_acked_def update_conv' Let_def acked_chunk_def
      split: option.splits)

lemma contiguous_get: "contiguous b n q \<longleftrightarrow> (\<forall>t. payload_queue_get q t \<noteq> None \<longleftrightarrow> t - b < n - b)"
  by (simp add: contiguous_def payload_queue_get_def)

lemma mark_as_acked_inv:
  assumes "pq_inv b q" and "contiguous b n q"
  shows "pq_inv b (snd (payload_queue_mark_as_acked q t))"
    and "contiguous b n (snd (payload_queue_mark_as_acked q t))"
proof -
  show "pq_inv b (snd (payload_queue_mark_as_acked q t))"
  proof (cases "payload_queue_get q t")
    case None
    then show ?thesis
      using assms(1) by (simp add: payload_queue_mark_as_acked_def payload_queue_get_def)
  next
    case (Some c)
    then show ?thesis using mark_as_acked_facts [OF assms(1)] by fastforce
  qed
  show "contiguous b n (snd (payload_queue_mark_as_acked q t))"
    using assms(2) by (auto simp: contiguous_get mark_as_acked_get split: if_splits)
qed

lemma ack_gap_ok:
  assumes "pq_inv b (as_inflight_queue a)" and "contiguous b (as_my_next_tsn a) (as_inflight_queue a)"
    and "\<forall>t \<in> set tsns. t - b < as_my_next_tsn a - b" and "clock_ok now a"
  shows "\<exists>m' h' a'. ack_gap_loop rnd now tsns m h a = (Ok (m', h'), a') \<and>
    pq_inv b (as_inflight_queue a') \<and> contiguous b (as_my_next_tsn a) (as_inflight_queue a') \<and>
    sender_view a' = sender_view a \<and> window_view a' = window_view a \<and> rest_view a' = rest_view a \<and>
    (\<forall>t. payload_queue_get (as_inflight_queue a') t =
      (if t \<in> set tsns then map_option (\<lambda>c. if pd_acked c then c else acked_chunk c)
         (payload_queue_get (as_inflight_queue a) t)
       else payload_queue_get (as_inflight_queue a) t)) \<and>
    (h' = h \<or> h' \<in> set tsns)"
  using assms
proof (induction tsns arbitrary: m h a)
  case (Cons t tsns)
  obtain c where c: "payload_queue_get (as_inflight_queue a) t = Some c"
    using Cons.prems(2,3) by (fastforce simp: contiguous_get)
  show ?case
  proof (cases "pd_acked c")
    case True
    have "ack_gap_loop rnd now (t # tsns) m h a = ack_gap_loop rnd now tsns m h a"
      using c True by simp
    then show ?thesis using Cons.IH [of a m h] Cons.prems c True by auto
  next
    case False
    define q where "q = snd (payload_queue_mark_as_acked (as_inflight_queue a) t)"
    define n where "n = fst (payload_queue_mark_as_acked (as_inflight_queue a) t)"
    have q: "pq_inv b q" "contiguous b (as_my_next_tsn a) q"
      using mark_as_acked_inv [OF Cons.prems(1,2)] by (simp_all add: q_def)
    have get: "payload_queue_get q u = (if u = t then Some (acked_chunk c) else payload_queue_get (as_inflight_queue a) u)" for u
      by (simp add: q_def mark_as_acked_get c)
    have since: "pd_since c \<le> now" using Cons.prems(4) c by (simp add: clock_ok_def)
    obtain a1 where a1: "(if pd_nsent c = 1 then measure_rtt rnd now (acked_chunk c) (a\<lparr>as_inflight_queue := q\<rparr>)
          else (Ok (), a\<lparr>as_inflight_queue := q\<rparr>)) = (Ok (), a1)"
        "sender_view a1 = sender_view a" "window_view a1 = window_view a" "rest_view a1 = rest_view a"
        "as_inflight_queue a1 = q"
    proof (cases "pd_nsent c = 1")
      case True
      obtain a1 where "measure_rtt rnd now (acked_chunk c) (a\<lparr>as_inflight_queue := q\<rparr>) = (Ok (), a1)"
          "sender_view a1 = sender_view (a\<lparr>as_inflight_queue := q\<rparr>)"
          "window_view a1 = window_view (a\<lparr>as_inflight_queue := q\<rparr>)"
          "rest_view a1 = rest_view (a\<lparr>as_inflight_queue := q\<rparr>)" "as_inflight_queue a1 = q"
        using measure_rtt_ok [of "acked_chunk c" now rnd "a\<lparr>as_inflight_queue := q\<rparr>"] since by auto
      then show thesis using that True by (simp add: rest_view_def)
    qed (use that in \<open>simp add: rest_view_def\<close>)
    let ?m = "add_bytes_acked (pd_stream_identifier (acked_chunk c)) (sint n) m"
    let ?h = "if sna32lt h t then t else h"
    have step: "ack_gap_loop rnd now (t # tsns) m h a = ack_gap_loop rnd now tsns ?m ?h a1"
    proof -
      have nq: "payload_queue_mark_as_acked (as_inflight_queue a) t = (n, q)" by (simp add: q_def n_def)
      show ?thesis using c False a1(1) get [of t] nq by (cases "pd_nsent c = 1") simp_all
    qed
    have next_tsn: "as_my_next_tsn a1 = as_my_next_tsn a" using a1(2) by (simp add: sender_view_def)
    have "clock_ok now a1" using Cons.prems(4) since by (simp add: clock_ok_def a1(5) get)
    then obtain m' h' a' where r: "ack_gap_loop rnd now tsns ?m ?h a1 = (Ok (m', h'), a')"
        "pq_inv b (as_inflight_queue a')" "contiguous b (as_my_next_tsn a) (as_inflight_queue a')"
        "sender_view a' = sender_view a" "window_view a' = window_view a" "rest_view a' = rest_view a"
        "\<forall>u. payload_queue_get (as_inflight_queue a') u =
          (if u \<in> set tsns then map_option (\<lambda>c. if pd_acked c then c else acked_chunk c) (payload_queue_get q u)
           else payload_queue_get q u)" "h' = ?h \<or> h' \<in> set tsns"
      using Cons.IH [of a1 ?m ?h] Cons.prems(3) q a1 next_tsn by auto
    then show ?thesis using step get c False by (auto split: if_splits)
  qed
qed simp

section \<open>The congestion window and the missing chunks\<close>

definition stable_view :: "association \<Rightarrow> (u32 \<times> u32 \<times> pending_queue) \<times> u8 \<times> u32 \<times> bool" where
  "stable_view a = (sender_view a, sh_state a, as_rwnd a, as_use_forward_tsn a)"

definition acked_at :: "association \<Rightarrow> u32 \<Rightarrow> bool option" where
  "acked_at a t = map_option pd_acked (payload_queue_get (as_inflight_queue a) t)"

lemma enter_fast_recovery_views [simp]:
  "stable_view (enter_fast_recovery h a) = stable_view a" "sender_view (enter_fast_recovery h a) = sender_view a"
  "as_inflight_queue (enter_fast_recovery h a) = as_inflight_queue a"
  by (simp_all add: enter_fast_recovery_def stable_view_def sender_view_def Let_def)

lemma chunk_missed_fields [simp]:
  "pd_tsn (chunk_missed c) = pd_tsn c" "pd_user_data (chunk_missed c) = pd_user_data c"
  "pd_acked (chunk_missed c) = pd_acked c"
  by (simp_all add: chunk_missed_def)

lemma miss_loop_ok:
  assumes "flight_inv a" and "flight_length a < 2 ^ 31"
    and "tsn - flight_base a \<le> max_tsn - flight_base a"
    and "max_tsn - flight_base a \<le> as_my_next_tsn a - flight_base a"
  shows "\<exists>a'. miss_loop htna max_tsn tsn a = (Ok (), a') \<and> flight_inv a' \<and> stable_view a' = stable_view a \<and>
    pq_n_bytes (as_inflight_queue a') = pq_n_bytes (as_inflight_queue a) \<and> acked_at a' = acked_at a"
  using assms
proof (induction "unat (max_tsn - tsn)" arbitrary: tsn a)
  case 0
  then have "tsn = max_tsn" by (simp add: unat_eq_0)
  then show ?case using 0 by (subst miss_loop.simps) (simp add: s32.irrefl)
next
  case (Suc k)
  let ?b = "flight_base a"
  have ne: "max_tsn \<noteq> tsn" using Suc.hyps(2) by auto
  have u: "unat (tsn - ?b) < unat (max_tsn - ?b)" "unat (max_tsn - ?b) \<le> unat (as_my_next_tsn a - ?b)"
    using Suc.prems(3,4) ne word_unat_eq_iff [of "tsn - ?b" "max_tsn - ?b"] by (auto simp: word_le_nat_alt)
  have w: "in_window ?b tsn" "in_window ?b max_tsn"
    using u Suc.prems(2) by (simp_all add: s32.window_unat flight_length_def)
  have lt: "sna32lt tsn max_tsn" using s32.window_lt [OF w] u(1) by (simp add: word_less_nat_alt)
  have "tsn - ?b < as_my_next_tsn a - ?b" using u by (simp add: word_less_nat_alt)
  then obtain c where c: "payload_queue_get (as_inflight_queue a) tsn = Some c"
    using Suc.prems(1) by (fastforce simp: flight_inv_def contiguous_get)
  let ?q = "payload_queue_update (as_inflight_queue a) tsn chunk_missed"
  define a1 where "a1 = (if \<not> pd_acked c \<and> \<not> payload_data_abandoned (sh_cells a) c \<and> pd_miss_indicator c < 3 then
       let a = a\<lparr>as_inflight_queue := ?q\<rparr> in
       if pd_miss_indicator (chunk_missed c) = 3 \<and> \<not> as_in_fast_recovery a
       then enter_fast_recovery htna a else a
     else a)"
  have a1: "stable_view a1 = stable_view a" "as_inflight_queue a1 \<in> {as_inflight_queue a, ?q}"
    by (auto simp: a1_def Let_def) (simp_all add: stable_view_def)
  then have s1: "sender_view a1 = sender_view a" by (simp add: stable_view_def)
  note b1 = view_eqD [OF s1]
  have inv: "flight_inv a1"
    using a1(2) flight_inv_update [OF Suc.prems(1), of chunk_missed a1 tsn] flight_inv_view [OF s1] Suc.prems(1) s1
    by auto
  have get: "pq_n_bytes (as_inflight_queue a1) = pq_n_bytes (as_inflight_queue a) \<and> acked_at a1 = acked_at a"
    using a1(2) c by (auto simp: acked_at_def fun_eq_iff payload_queue_get_update)
  have step: "miss_loop htna max_tsn tsn a = miss_loop htna max_tsn (tsn + 1) a1"
    using lt c by (subst miss_loop.simps) (simp add: a1_def)
  have next_tsn: "as_my_next_tsn a1 = as_my_next_tsn a" using s1 by (simp add: sender_view_def)
  have "unat (max_tsn - (tsn + 1)) = unat (max_tsn - tsn) - 1" using ne by (rule unat_diff_succ)
  then have k: "k = unat (max_tsn - (tsn + 1))" using Suc.hyps(2) by simp
  have "unat (tsn + 1 - ?b) = Suc (unat (tsn - ?b))"
    using unat_succ [of "tsn - ?b"] u Suc.prems(2) by (simp add: flight_length_def algebra_simps)
  then have "tsn + 1 - ?b \<le> max_tsn - ?b" using u(1) by (simp add: word_le_nat_alt)
  then obtain a' where "miss_loop htna max_tsn (tsn + 1) a1 = (Ok (), a')" "flight_inv a'"
      "stable_view a' = stable_view a" "pq_n_bytes (as_inflight_queue a') = pq_n_bytes (as_inflight_queue a)"
      "acked_at a' = acked_at a"
    using Suc.hyps(1) [OF k inv] Suc.prems(2,4) a1(1) b1 get next_tsn by auto
  then show ?case using step by auto
qed


section \<open>A valid SACK\<close>

text \<open>
  What the rest of the handler keeps, once the ack point has moved.
\<close>

definition sack_kept :: "association \<Rightarrow> association \<Rightarrow> bool" where
  "sack_kept a a' \<longleftrightarrow> flight_inv a' \<and> sender_view a' = sender_view a \<and> as_rwnd a' = as_rwnd a \<and>
     pq_n_bytes (as_inflight_queue a') = pq_n_bytes (as_inflight_queue a) \<and> acked_at a' = acked_at a"

lemma sack_kept_trans: "sack_kept a b \<Longrightarrow> sack_kept b c \<Longrightarrow> sack_kept a c"
  by (simp add: sack_kept_def)

lemma sack_kept_frame:
  assumes "flight_inv a" and "sender_view b = sender_view a" and "as_inflight_queue b = as_inflight_queue a"
    and "as_rwnd b = as_rwnd a"
  shows "sack_kept a b"
  using assms flight_inv_view [OF assms(2,3)] by (simp add: sack_kept_def acked_at_def fun_eq_iff)

lemma queue_is_empty:
  assumes "pq_inv b q" and "contiguous b n q"
  shows "payload_queue_is_empty q = Ok (pq_chunk_map q = [])"
    and "payload_queue_len q = Ok (of_nat (unat (n - b)))"
proof -
  have l: "length (pq_chunk_map q) = unat (n - b)"
    using contiguous_length [OF assms(2)] assms(1) by (simp add: pq_inv_def)
  then have "length (pq_chunk_map q) < 2 ^ 64" using unat_less_pow [of "n - b"] by simp
  then show "payload_queue_is_empty q = Ok (pq_chunk_map q = [])"
    using assms(1) by (simp add: payload_queue_is_empty_def payload_queue_len_def pq_inv_def usize_of_nat_eq_0)
  show "payload_queue_len q = Ok (of_nat (unat (n - b)))"
    using assms(1) l by (simp add: payload_queue_len_def pq_inv_def)
qed

lemma update_congestion_window_views [simp]:
  "sender_view (update_congestion_window n a) = sender_view a" "sh_state (update_congestion_window n a) = sh_state a"
  "as_inflight_queue (update_congestion_window n a) = as_inflight_queue a"
  "as_rwnd (update_congestion_window n a) = as_rwnd a"
  by (simp_all add: update_congestion_window_def sender_view_def Let_def)

lemma advanced_ok:
  assumes "pq_inv b (as_inflight_queue a)" and "contiguous b n (as_inflight_queue a)"
  obtains a' where "on_cumulative_tsn_ack_point_advanced tba a = (Ok (), a')" and "sender_view a' = sender_view a"
    and "sh_state a' = sh_state a" and "as_inflight_queue a' = as_inflight_queue a"
proof -
  define c where "c = (if pq_chunk_map (as_inflight_queue a) = [] then a\<lparr>as_t3rtx := rtx_timer_stop (as_t3rtx a)\<rparr>
      else start_t3rtx a)"
  have "on_cumulative_tsn_ack_point_advanced tba a = (Ok (), update_congestion_window tba c)"
    using queue_is_empty(1) [OF assms] by (simp add: on_cumulative_tsn_ack_point_advanced_def c_def Let_def)
  moreover have "sender_view c = sender_view a" "sh_state c = sh_state a" "as_inflight_queue c = as_inflight_queue a"
    by (simp_all add: c_def start_t3rtx_def sender_view_def)
  ultimately show thesis using that by simp
qed

lemma release_buffers_frame [simp]:
  "sender_view (release_buffers m a) = sender_view a" "sh_state (release_buffers m a) = sh_state a"
  "as_inflight_queue (release_buffers m a) = as_inflight_queue a"
proof -
  have "sender_view (update_stream si f a) = sender_view a \<and> sh_state (update_stream si f a) = sh_state a \<and>
      as_inflight_queue (update_stream si f a) = as_inflight_queue a" for si f a
    by (simp add: update_stream_def sender_view_def split: option.splits)
  then have "sender_view (release_buffers m a) = sender_view a \<and> sh_state (release_buffers m a) = sh_state a \<and>
      as_inflight_queue (release_buffers m a) = as_inflight_queue a"
    unfolding release_buffers_def by (induction m arbitrary: a) (auto simp: case_prod_beta)
  then show "sender_view (release_buffers m a) = sender_view a" "sh_state (release_buffers m a) = sh_state a"
    "as_inflight_queue (release_buffers m a) = as_inflight_queue a"
    by simp_all
qed

lemma update_rwnd_frame [simp]:
  "sender_view (update_rwnd w a) = sender_view a" "sh_state (update_rwnd w a) = sh_state a"
  "as_inflight_queue (update_rwnd w a) = as_inflight_queue a"
  by (simp_all add: update_rwnd_def sender_view_def Let_def)

lemma ucast_of_nat_u32: "k < 2 ^ 32 \<Longrightarrow> (ucast (of_nat k :: usize) :: u32) = of_nat k"
  by (simp add: word_unat_eq_iff unsigned_ucast_eq unsigned_take_bit_eq take_bit_eq_mod unat_usize_of_nat unat_of_nat_less)

lemma process_fast_ok:
  assumes "flight_inv a" and "flight_length a < 2 ^ 31" and "cum = as_cumulative_tsn_ack_point a"
    and "htna = cum \<or> htna - flight_base a < as_my_next_tsn a - flight_base a"
  obtains a' where "process_fast_retransmission cum htna adv a = (Ok (), a')" and "sack_kept a a'"
    and "sh_state a' = sh_state a"
proof -
  have base: "flight_base a = cum + 1" by (simp add: flight_base_def assms(3))
  have miss: "\<exists>a'. miss_loop htna max_tsn (cum + 1) a = (Ok (), a') \<and> sack_kept a a' \<and> sh_state a' = sh_state a"
    if "max_tsn = cum \<or> max_tsn - flight_base a \<le> as_my_next_tsn a - flight_base a" for max_tsn
  proof (cases "max_tsn = cum")
    case True
    have "\<not> sna32lt (cum + 1) cum" using s32.lt_succ s32.asym by blast
    then show ?thesis
      using True sack_kept_frame [OF assms(1), of a] by (subst miss_loop.simps) simp
  next
    case False
    then show ?thesis
      using miss_loop_ok [OF assms(1,2), of "cum + 1" max_tsn htna] that base
      by (auto simp: sack_kept_def stable_view_def)
  qed
  have len: "payload_queue_len (as_inflight_queue a) = Ok (of_nat (flight_length a))"
    using queue_is_empty(2) assms(1) by (simp add: flight_inv_def flight_length_def)
  have "(of_nat (flight_length a) :: u32) = as_my_next_tsn a - flight_base a" by (simp add: flight_length_def)
  then have max: "cum + ucast (of_nat (flight_length a) :: usize) + 1 = as_my_next_tsn a"
    using assms(2) by (simp add: ucast_of_nat_u32 base)
  have "\<exists>a1. (if \<not> as_in_fast_recovery a \<or> adv then
          then_do
            (if \<not> as_in_fast_recovery a then (Ok htna, a)
             else (and_then (payload_queue_len (as_inflight_queue a)) (\<lambda>len. Ok (cum + ucast len + 1)), a))
            (\<lambda>max_tsn a. miss_loop htna max_tsn (cum + 1) a)
        else (Ok (), a)) = (Ok (), a1) \<and> sack_kept a a1 \<and> sh_state a1 = sh_state a"
  proof (cases "\<not> as_in_fast_recovery a \<or> adv")
    case True
    have "htna = cum \<or> htna - flight_base a \<le> as_my_next_tsn a - flight_base a"
      using assms(4) less_imp_le by blast
    then show ?thesis
      using miss [of htna] miss [of "as_my_next_tsn a"] True max len
      by (cases "as_in_fast_recovery a") auto
  next
    case False
    then show ?thesis using sack_kept_frame [OF assms(1), of a] by simp
  qed
  then obtain a1 where a1: "process_fast_retransmission cum htna adv a = (Ok (), if as_in_fast_recovery a1 \<and> adv
        then a1\<lparr>as_will_retransmit_fast := True\<rparr> else a1)" "sack_kept a a1" "sh_state a1 = sh_state a"
    unfolding process_fast_retransmission_def by auto
  have "sack_kept a1 (if as_in_fast_recovery a1 \<and> adv then a1\<lparr>as_will_retransmit_fast := True\<rparr> else a1)"
    by (rule sack_kept_frame) (use a1(2) in \<open>auto simp: sack_kept_def sender_view_def\<close>)
  then show thesis
    by (intro that [OF a1(1)] sack_kept_trans [OF a1(2)]) (simp_all add: a1(3))
qed

lemma advance_peer_ack_loop_frame:
  "sender_view (advance_peer_ack_loop n i a) = sender_view a \<and> sh_state (advance_peer_ack_loop n i a) = sh_state a \<and>
   as_inflight_queue (advance_peer_ack_loop n i a) = as_inflight_queue a \<and>
   as_rwnd (advance_peer_ack_loop n i a) = as_rwnd a"
  by (induction n i a rule: advance_peer_ack_loop.induct) (auto simp: sender_view_def split: option.splits)

lemma advance_peer_ack_point_frame [simp]:
  "sender_view (advance_peer_ack_point a) = sender_view a" "sh_state (advance_peer_ack_point a) = sh_state a"
  "as_inflight_queue (advance_peer_ack_point a) = as_inflight_queue a"
  "as_rwnd (advance_peer_ack_point a) = as_rwnd a"
  using advance_peer_ack_loop_frame [of "inflight_fuel a" "as_advanced_peer_tsn_ack_point a + 1" a]
  by (simp_all add: advance_peer_ack_point_def Let_def) (simp_all add: sender_view_def)

lemma postprocess_ok:
  assumes "flight_inv a"
  obtains a' where "postprocess_sack state awake a = (Ok (), a')" and "sack_kept a a'"
    and "get_state a' = (if pq_chunk_map (as_inflight_queue a) \<noteq> [] then get_state a
      else if state = ShutdownPending then ShutdownSent
      else if state = ShutdownReceived then ShutdownAckSent else get_state a)"
proof -
  have e: "payload_queue_is_empty (as_inflight_queue a) = Ok (pq_chunk_map (as_inflight_queue a) = [])"
    by (rule flight_is_empty [OF assms])
  define a' where "a' = snd (postprocess_sack state awake a)"
  have "postprocess_sack state awake a = (Ok (), a')"
    by (simp add: a'_def postprocess_sack_def e Let_def split: prod.splits)
  moreover have "sack_kept a a'"
    by (rule sack_kept_frame [OF assms])
      (simp_all add: a'_def postprocess_sack_def e Let_def sender_view_def start_t3rtx_def awake_write_loop_def
        set_state_def split: prod.splits)
  moreover have "get_state a' = (if pq_chunk_map (as_inflight_queue a) \<noteq> [] then get_state a
      else if state = ShutdownPending then ShutdownSent
      else if state = ShutdownReceived then ShutdownAckSent else get_state a)"
    by (simp add: a'_def postprocess_sack_def e Let_def start_t3rtx_def)
      (simp add: get_state_def)
  ultimately show thesis by (rule that)
qed


text \<open>
  A SACK that acknowledges nothing that was not sent: the cumulative TSN is not before the ack
  point and not beyond the last TSN that was sent, and the gap blocks lie between them.
\<close>

definition sack_valid :: "selective_ack \<Rightarrow> association \<Rightarrow> bool" where
  "sack_valid d a \<longleftrightarrow>
     unat (sa_cumulative_tsn_ack d - as_cumulative_tsn_ack_point a) \<le> flight_length a \<and>
     (\<forall>t \<in> set (gap_tsns (sa_cumulative_tsn_ack d) (sa_gap_ack_blocks d)).
        t - (sa_cumulative_tsn_ack d + 1) < as_my_next_tsn a - (sa_cumulative_tsn_ack d + 1))"

definition sack_states :: "association \<Rightarrow> bool" where
  "sack_states a \<longleftrightarrow> get_state a \<in> {Established, ShutdownPending, ShutdownReceived}"

lemma process_sack_ok:
  assumes "flight_inv a" and "flight_length a < 2 ^ 31" and "clock_ok now a" and "sack_valid d a"
  defines "cum \<equiv> sa_cumulative_tsn_ack d"
  defines "gaps \<equiv> gap_tsns cum (sa_gap_ack_blocks d)"
  obtains m h a' where "process_selective_ack rnd now d a = (Ok (m, h), a')"
    and "pq_inv (cum + 1) (as_inflight_queue a')"
    and "contiguous (cum + 1) (as_my_next_tsn a) (as_inflight_queue a')"
    and "sender_view a' = sender_view a" and "window_view a' = window_view a" and "rest_view a' = rest_view a"
    and "h = cum \<or> h \<in> set gaps"
    and "\<And>t c. payload_queue_get (as_inflight_queue a') t = Some c \<Longrightarrow>
      \<exists>c0. payload_queue_get (as_inflight_queue a) t = Some c0 \<and>
        c = (if t \<in> set gaps \<and> \<not> pd_acked c0 then acked_chunk c0 else c0)"
proof -
  let ?i = "as_cumulative_tsn_ack_point a + 1"
  have base: "flight_base a = ?i" by (simp add: flight_base_def)
  have le: "cum + 1 - ?i \<le> as_my_next_tsn a - ?i"
    using assms(4) by (simp add: sack_valid_def cum_def flight_length_def base word_le_nat_alt)
  obtain m1 a1 where a1: "ack_cumulative_loop rnd now cum ?i [] a = (Ok m1, a1)"
      "pq_inv (cum + 1) (as_inflight_queue a1)" "contiguous (cum + 1) (as_my_next_tsn a) (as_inflight_queue a1)"
      "sender_view a1 = sender_view a" "window_view a1 = window_view a" "rest_view a1 = rest_view a"
      "\<And>t. t - (cum + 1) < as_my_next_tsn a - (cum + 1) \<Longrightarrow>
        payload_queue_get (as_inflight_queue a1) t = payload_queue_get (as_inflight_queue a) t"
    using ack_cumulative_ok [of ?i a cum now rnd "[]"] assms(1-3) le
    by (auto simp: flight_inv_def flight_length_def base)
  have next_tsn: "as_my_next_tsn a1 = as_my_next_tsn a" using a1(4) by (simp add: sender_view_def)
  have get1: "payload_queue_get (as_inflight_queue a) t = Some c"
    if "payload_queue_get (as_inflight_queue a1) t = Some c" for t c
    using that a1(3,7) by (fastforce simp: contiguous_get)
  have "clock_ok now a1" using assms(3) get1 by (auto simp: clock_ok_def)
  then obtain m2 h a2 where a2: "ack_gap_loop rnd now gaps m1 cum a1 = (Ok (m2, h), a2)"
      "pq_inv (cum + 1) (as_inflight_queue a2)" "contiguous (cum + 1) (as_my_next_tsn a) (as_inflight_queue a2)"
      "sender_view a2 = sender_view a1" "window_view a2 = window_view a1" "rest_view a2 = rest_view a1"
      "\<forall>t. payload_queue_get (as_inflight_queue a2) t =
        (if t \<in> set gaps then map_option (\<lambda>c. if pd_acked c then c else acked_chunk c)
           (payload_queue_get (as_inflight_queue a1) t)
         else payload_queue_get (as_inflight_queue a1) t)" "h = cum \<or> h \<in> set gaps"
    using ack_gap_ok [of "cum + 1" a1 gaps now rnd m1 cum] a1(2,3) next_tsn assms(4)
    by (auto simp: sack_valid_def cum_def gaps_def)
  have "process_selective_ack rnd now d a = (Ok (m2, h), a2)"
    using a1(1) a2(1) by (simp add: process_selective_ack_def cum_def gaps_def)
  moreover have "\<exists>c0. payload_queue_get (as_inflight_queue a) t = Some c0 \<and>
        c = (if t \<in> set gaps \<and> \<not> pd_acked c0 then acked_chunk c0 else c0)"
    if "payload_queue_get (as_inflight_queue a2) t = Some c" for t c
    using that a2(7) get1 by (cases "t \<in> set gaps") auto
  ultimately show thesis using that a1 a2 by auto
qed


text \<open>The state after the queue has run empty.\<close>

definition drained :: "association_state \<Rightarrow> association_state" where
  "drained s = (if s = ShutdownPending then ShutdownSent
     else if s = ShutdownReceived then ShutdownAckSent else s)"

lemma flight_empty_iff:
  assumes "flight_inv a"
  shows "pq_chunk_map (as_inflight_queue a) = [] \<longleftrightarrow> as_my_next_tsn a = as_cumulative_tsn_ack_point a + 1"
proof -
  have "pq_chunk_map (as_inflight_queue a) = [] \<longleftrightarrow> flight_length a = 0"
    using flight_length_eq [OF assms] by (metis length_0_conv)
  then show ?thesis by (auto simp: flight_length_def flight_base_def unat_eq_0)
qed

lemma forward_ack_point_kept:
  assumes "flight_inv a"
  shows "sack_kept a (forward_ack_point a)" and "get_state (forward_ack_point a) = get_state a"
proof -
  define b where "b = (if sna32lt (as_advanced_peer_tsn_ack_point a) (as_cumulative_tsn_ack_point a)
      then a\<lparr>as_advanced_peer_tsn_ack_point := as_cumulative_tsn_ack_point a\<rparr> else a)"
  have b: "sender_view b = sender_view a" "as_inflight_queue b = as_inflight_queue a" "as_rwnd b = as_rwnd a"
      "sh_state b = sh_state a"
    by (simp_all add: b_def sender_view_def)
  have f: "forward_ack_point a = (if as_use_forward_tsn a then awake_write_loop (advance_peer_ack_point b) else a)"
    by (simp add: forward_ack_point_def b_def Let_def)
  have v: "sender_view (awake_write_loop x) = sender_view x" "as_inflight_queue (awake_write_loop x) = as_inflight_queue x"
      "as_rwnd (awake_write_loop x) = as_rwnd x" "sh_state (awake_write_loop x) = sh_state x" for x :: association
    by (simp_all add: awake_write_loop_def sender_view_def)
  show "sack_kept a (forward_ack_point a)"
    by (rule sack_kept_frame [OF assms]) (simp_all add: f v b)
  show "get_state (forward_ack_point a) = get_state a"
    by (simp add: f get_state_def v b)
qed

text \<open>From the point where the queue and the ack point are up to date.\<close>

definition after_ack ::
  "association_state \<Rightarrow> u32 \<Rightarrow> u32 \<Rightarrow> u32 \<Rightarrow> bool \<Rightarrow> (u16, int) hmap \<Rightarrow> association \<Rightarrow> handler" where
  "after_ack state cum credit htna adv bytes_acked a =
     (let a = update_rwnd credit (release_buffers bytes_acked a) in
      then_do (process_fast_retransmission cum htna adv a) (\<lambda>_ a.
        then_do (postprocess_sack state adv (forward_ack_point a)) (\<lambda>_ a. (Ok [], a))))"

lemma after_ack_ok:
  assumes "flight_inv a" and "flight_length a < 2 ^ 31" and "cum = as_cumulative_tsn_ack_point a"
    and "htna = cum \<or> htna - flight_base a < as_my_next_tsn a - flight_base a" and "state = get_state a"
  obtains a' where "after_ack state cum credit htna adv m a = (Ok [], a')" and "flight_inv a'"
    and "sender_view a' = sender_view a" and "acked_at a' = acked_at a"
    and "as_rwnd a' = (let n = ucast (pq_n_bytes (as_inflight_queue a')) in if n \<ge> credit then 0 else credit - n)"
    and "get_state a' = (if as_my_next_tsn a = cum + 1 then drained state else state)"
proof -
  define b where "b = update_rwnd credit (release_buffers m a)"
  have b: "sender_view b = sender_view a" "as_inflight_queue b = as_inflight_queue a" "sh_state b = sh_state a"
      "as_rwnd b = (let n = ucast (pq_n_bytes (as_inflight_queue a)) in if n \<ge> credit then 0 else credit - n)"
    by (simp_all add: b_def) (simp add: update_rwnd_def Let_def payload_queue_get_num_bytes_def)
  have binv: "flight_inv b" using flight_inv_view [OF b(1,2)] assms(1) by simp
  have bcum: "cum = as_cumulative_tsn_ack_point b" "as_my_next_tsn b = as_my_next_tsn a"
    using b(1) assms(3) by (simp_all add: sender_view_def)
  obtain c where c: "process_fast_retransmission cum htna adv b = (Ok (), c)" "sack_kept b c" "sh_state c = sh_state b"
    using process_fast_ok [OF binv _ bcum(1), of htna adv] assms(2,4) view_eqD [OF b(1)] bcum(2) by auto
  let ?d = "forward_ack_point c"
  have cinv: "flight_inv c" using c(2) by (simp add: sack_kept_def)
  have d: "sack_kept b ?d" "get_state ?d = get_state a"
    using sack_kept_trans [OF c(2) forward_ack_point_kept(1) [OF cinv]] forward_ack_point_kept(2) [OF cinv]
      get_state_eqD [of c a] c(3) b(3) by simp_all
  have dinv: "flight_inv ?d" using d(1) by (simp add: sack_kept_def)
  obtain e where e: "postprocess_sack state adv ?d = (Ok (), e)" "sack_kept ?d e"
      "get_state e = (if pq_chunk_map (as_inflight_queue ?d) \<noteq> [] then get_state ?d
        else if state = ShutdownPending then ShutdownSent
        else if state = ShutdownReceived then ShutdownAckSent else get_state ?d)"
    using postprocess_ok [OF dinv] by blast
  have k: "sack_kept b e" using sack_kept_trans [OF d(1) e(2)] .
  have "after_ack state cum credit htna adv m a = (Ok [], e)"
    using c(1) e(1) by (simp add: after_ack_def b_def [symmetric])
  moreover have "acked_at e = acked_at a"
    using k b(2) by (simp add: sack_kept_def acked_at_def fun_eq_iff)
  moreover have "pq_chunk_map (as_inflight_queue ?d) = [] \<longleftrightarrow> as_my_next_tsn a = cum + 1"
    using flight_empty_iff [OF dinv] d(1) b(1) assms(3) by (simp add: sack_kept_def sender_view_def)
  ultimately show thesis
    using that k b e(3) d(2) assms(5) by (auto simp: sack_kept_def drained_def)
qed

text \<open>What \<^verbatim>\<open>process_selective_ack\<close> leaves when it succeeds.\<close>

definition sack_processed :: "selective_ack \<Rightarrow> association \<Rightarrow> u32 \<Rightarrow> association \<Rightarrow> bool" where
  "sack_processed d a h a' \<longleftrightarrow>
     (let cum = sa_cumulative_tsn_ack d; gaps = gap_tsns cum (sa_gap_ack_blocks d) in
      pq_inv (cum + 1) (as_inflight_queue a') \<and>
      contiguous (cum + 1) (as_my_next_tsn a) (as_inflight_queue a') \<and>
      sender_view a' = sender_view a \<and> window_view a' = window_view a \<and> (h = cum \<or> h \<in> set gaps) \<and>
      (\<forall>t c. payload_queue_get (as_inflight_queue a') t = Some c \<longrightarrow>
        (\<exists>c0. payload_queue_get (as_inflight_queue a) t = Some c0 \<and>
          c = (if t \<in> set gaps \<and> \<not> pd_acked c0 then acked_chunk c0 else c0))))"

lemma handle_sack_continues:
  assumes "flight_inv a" and "flight_length a < 2 ^ 31" and "sack_valid d a" and "sack_states a"
    and "process_selective_ack rnd now d (a\<lparr>as_stats := inc_sacks (as_stats a)\<rparr>) = (Ok (m, h), a1)"
    and "sack_processed d a h a1"
  defines "cum \<equiv> sa_cumulative_tsn_ack d"
  defines "gaps \<equiv> gap_tsns cum (sa_gap_ack_blocks d)"
  shows "\<exists>a'. handle_sack rnd now d a = (Ok [], a') \<and> flight_inv a' \<and>
    sender_view a' = (as_my_next_tsn a, cum, sh_pending_queue a) \<and>
    (\<forall>t. acked_at a' t =
      (if t - (cum + 1) < as_my_next_tsn a - (cum + 1) then map_option (\<lambda>acked. acked \<or> t \<in> set gaps) (acked_at a t)
       else None)) \<and>
    as_rwnd a' = (let n = ucast (pq_n_bytes (as_inflight_queue a')); credit = sa_advertised_receiver_window_credit d in
      if n \<ge> credit then 0 else credit - n) \<and>
    get_state a' = (if as_my_next_tsn a = cum + 1 then drained (get_state a) else get_state a)"
proof -
  let ?ack = "as_cumulative_tsn_ack_point a"
  have gt: "\<not> sna32gt ?ack cum"
    using assms(2,3) by (auto simp: s32.not_gt_iff s32.lt_iff_unat sack_valid_def cum_def)
    note p = assms(5)
  have a1: "pq_inv (cum + 1) (as_inflight_queue a1)" "contiguous (cum + 1) (as_my_next_tsn a) (as_inflight_queue a1)"
      "sender_view a1 = sender_view a" "sh_state a1 = sh_state a" "h = cum \<or> h \<in> set gaps"
    using assms(6) by (simp_all add: sack_processed_def cum_def gaps_def window_view_def Let_def)
  have get: "\<exists>c0. payload_queue_get (as_inflight_queue a) t = Some c0 \<and>
      c = (if t \<in> set gaps \<and> \<not> pd_acked c0 then acked_chunk c0 else c0)"
    if "payload_queue_get (as_inflight_queue a1) t = Some c" for t c
    using assms(6) that by (simp add: sack_processed_def cum_def gaps_def Let_def)
  have ack1: "as_cumulative_tsn_ack_point a1 = ?ack" "as_my_next_tsn a1 = as_my_next_tsn a"
      "sh_pending_queue a1 = sh_pending_queue a"
    using a1(3) by (simp_all add: sender_view_def)
  obtain a2 where a2: "(if sna32lt ?ack cum
        then on_cumulative_tsn_ack_point_advanced (sum_list (hm_values m)) (a1\<lparr>as_cumulative_tsn_ack_point := cum\<rparr>)
        else (Ok (), a1)) = (Ok (), a2)"
      "sender_view a2 = (as_my_next_tsn a, cum, sh_pending_queue a)" "as_inflight_queue a2 = as_inflight_queue a1"
      "sh_state a2 = sh_state a"
  proof (cases "sna32lt ?ack cum")
    case True
    show thesis
      by (rule advanced_ok [of "cum + 1" "a1\<lparr>as_cumulative_tsn_ack_point := cum\<rparr>" "as_my_next_tsn a" "sum_list (hm_values m)"])
        (use a1 ack1 True that in \<open>simp_all add: sender_view_def\<close>)
  next
    case False
    then have "?ack = cum" using gt by (simp add: s32.not_gt_iff)
    then show thesis using that False a1 ack1 by (simp add: sender_view_def)
  qed
  have f2: "as_cumulative_tsn_ack_point a2 = cum" "as_my_next_tsn a2 = as_my_next_tsn a" "flight_base a2 = cum + 1"
      "sh_pending_queue a2 = sh_pending_queue a"
    using a2(2) by (simp_all add: sender_view_def flight_base_def)
  have "short c" if "hm_get (pq_chunk_map (as_inflight_queue a1)) t = Some c" for t c
    using get [unfolded payload_queue_get_def, OF that] assms(1)
    by (auto simp: flight_inv_def short_def split: if_splits)
  then have inv2: "flight_inv a2" using assms(1) a1(1,2) by (simp add: flight_inv_def f2 a2(3))
  have len2: "flight_length a2 < 2 ^ 31"
    using assms(2,3) unat_window_diff [of "cum + 1" "flight_base a" "as_my_next_tsn a"]
    by (simp add: flight_length_def f2(2,3)) (simp add: flight_base_def sack_valid_def flight_length_def cum_def [symmetric])
  have h: "h = cum \<or> h - flight_base a2 < as_my_next_tsn a2 - flight_base a2"
    using a1(5) assms(3) by (auto simp: f2 sack_valid_def cum_def gaps_def)
  have st: "get_state a = get_state a2" using get_state_eqD [OF a2(4)] by simp
  have acked: "acked_at a2 t = (if t - (cum + 1) < as_my_next_tsn a - (cum + 1)
      then map_option (\<lambda>acked. acked \<or> t \<in> set gaps) (acked_at a t) else None)" for t
  proof (cases "payload_queue_get (as_inflight_queue a1) t")
    case None
    moreover have "\<not> t - (cum + 1) < as_my_next_tsn a - (cum + 1)"
      using a1(2) None by (metis contiguous_get)
    ultimately show ?thesis by (simp add: acked_at_def a2(3))
  next
    case (Some c)
    moreover have "t - (cum + 1) < as_my_next_tsn a - (cum + 1)"
      using a1(2) Some by (metis contiguous_get option.distinct(1))
    ultimately show ?thesis using get [OF Some] by (auto simp: acked_at_def a2(3))
  qed
  obtain e where e: "after_ack (get_state a) cum (sa_advertised_receiver_window_credit d) h (sna32lt ?ack cum) m a2
        = (Ok [], e)" "flight_inv e" "sender_view e = sender_view a2" "acked_at e = acked_at a2"
      "as_rwnd e = (let n = ucast (pq_n_bytes (as_inflight_queue e)); credit = sa_advertised_receiver_window_credit d in
        if n \<ge> credit then 0 else credit - n)"
      "get_state e = (if as_my_next_tsn a = cum + 1 then drained (get_state a) else get_state a)"
    using after_ack_ok [OF inv2 len2 f2(1) [symmetric] h st] f2(2) by (metis (no_types, lifting))
  have "handle_sack rnd now d a =
      after_ack (get_state a) cum (sa_advertised_receiver_window_credit d) h (sna32lt ?ack cum) m a2"
    using assms(4) gt p a2(1) ack1(1)
    by (auto simp: handle_sack_def sack_states_def Let_def after_ack_def cum_def [symmetric])
  then show ?thesis using e acked a2(2) by auto
qed

lemma handle_sack_ok:
  assumes "flight_inv a" and "flight_length a < 2 ^ 31" and "clock_ok now a" and "sack_valid d a" and "sack_states a"
  defines "cum \<equiv> sa_cumulative_tsn_ack d"
  defines "gaps \<equiv> gap_tsns cum (sa_gap_ack_blocks d)"
  shows "\<exists>a'. handle_sack rnd now d a = (Ok [], a') \<and> flight_inv a' \<and>
    sender_view a' = (as_my_next_tsn a, cum, sh_pending_queue a) \<and>
    (\<forall>t. acked_at a' t =
      (if t - (cum + 1) < as_my_next_tsn a - (cum + 1) then map_option (\<lambda>acked. acked \<or> t \<in> set gaps) (acked_at a t)
       else None)) \<and>
    as_rwnd a' = (let n = ucast (pq_n_bytes (as_inflight_queue a')); credit = sa_advertised_receiver_window_credit d in
      if n \<ge> credit then 0 else credit - n) \<and>
    get_state a' = (if as_my_next_tsn a = cum + 1 then drained (get_state a) else get_state a)"
proof -
  let ?a0 = "a\<lparr>as_stats := inc_sacks (as_stats a)\<rparr>"
  have v0: "sender_view ?a0 = sender_view a" "as_inflight_queue ?a0 = as_inflight_queue a" by simp_all
  have i0: "flight_inv ?a0" "flight_length ?a0 < 2 ^ 31" "clock_ok now ?a0" "sack_valid d ?a0"
    using assms(1-4) flight_inv_view [OF v0] view_eqD(2) [OF v0(1)] by (simp_all add: clock_ok_def sack_valid_def)
  show ?thesis
  proof (rule process_sack_ok [OF i0, of rnd], goal_cases)
    case (1 m h a1)
    have "window_view ?a0 = window_view a" by (simp add: window_view_def)
    then have "sack_processed d a h a1" using 1(2-8) by (auto simp: sack_processed_def Let_def)
    then show ?case
      unfolding cum_def gaps_def by (rule handle_sack_continues [OF assms(1,2,4,5) 1(1)])
  qed
qed


text \<open>C10: a SACK that acknowledges only what was sent is handled without an error or a panic: the
  cumulative TSN becomes the ack point, the inflight queue holds exactly the TSNs above it with
  those of the gap blocks marked in addition to those already marked, nothing that waits to be
  sent changes, the receive window is the advertised credit less what is outstanding, and an
  association that is shutting down goes on exactly when nothing is outstanding any more.\<close>

theorem handle_sack_acknowledges:
  assumes "flight_inv a" and "flight_length a < 2 ^ 31" and "clock_ok now a" and "sack_valid d a" and "sack_states a"
  shows "\<exists>a'. handle_sack rnd now d a = (Ok [], a') \<and> flight_inv a' \<and>
    sender_view a' = (as_my_next_tsn a, sa_cumulative_tsn_ack d, sh_pending_queue a) \<and>
    (\<forall>t. acked_at a' t =
      (if t - (sa_cumulative_tsn_ack d + 1) < as_my_next_tsn a - (sa_cumulative_tsn_ack d + 1)
       then map_option (\<lambda>acked. acked \<or> t \<in> set (gap_tsns (sa_cumulative_tsn_ack d) (sa_gap_ack_blocks d))) (acked_at a t)
       else None)) \<and>
    as_rwnd a' = (let n = ucast (pq_n_bytes (as_inflight_queue a')); credit = sa_advertised_receiver_window_credit d in
      if n \<ge> credit then 0 else credit - n) \<and>
    get_state a' = (if as_my_next_tsn a = sa_cumulative_tsn_ack d + 1 then drained (get_state a) else get_state a)"
  by (rule handle_sack_ok [OF assms])

text \<open>An association with the TSNs 1, 2 and 3 in flight.\<close>

definition example_flight :: association where
  "example_flight = example_sender\<lparr>as_inflight_queue := queue_of 0 [1, 2, 3], as_my_next_tsn := 4\<rparr>"

lemma example_queue_map:
  "pq_chunk_map (queue_of 0 [1, 2, 3]) = [(1, data_with_tsn 1 [1, 2]), (2, data_with_tsn 2 [1, 2]), (3, data_with_tsn 3 [1, 2])]"
  by (simp add: payload_queue_eval)

lemma example_queue_get:
  "payload_queue_get (queue_of 0 [1, 2, 3]) t = (if t \<in> {1, 2, 3} then Some (data_with_tsn t [1, 2]) else None)"
  by (simp add: payload_queue_get_def example_queue_map)

lemma example_flight_inv:
  "flight_inv example_flight" "flight_length example_flight = 3" "clock_ok 5 example_flight"
  "sack_states example_flight"
proof -
  have sub: "t - 1 < 3 \<longleftrightarrow> t \<in> {1, 2, 3}" for t :: u32
  proof -
    have "t - 1 < 3 \<longleftrightarrow> unat (t - 1) \<in> {0, 1, 2}" by (auto simp: word_less_nat_alt)
    also have "\<dots> \<longleftrightarrow> t - 1 \<in> {0, 1, 2}" by (auto simp: word_unat_eq_iff)
    also have "\<dots> \<longleftrightarrow> t \<in> {1, 2, 3}" by (auto simp: diff_eq_eq)
    finally show ?thesis .
  qed
  have e: "as_cumulative_tsn_ack_point example_flight = 0" "sh_pending_queue example_flight = sh_pending_queue example_sender"
      "as_inflight_queue example_flight = queue_of 0 [1, 2, 3]" "as_my_next_tsn example_flight = 4"
      "get_state example_flight = Established"
    using example_sender_fields by (simp_all add: example_flight_def get_state_def)
  have "contiguous 1 4 (queue_of 0 [1, 2, 3])"
    using sub by (auto simp: contiguous_get example_queue_get)
  moreover have "short c" if "hm_get (pq_chunk_map (queue_of 0 [1, 2, 3])) t = Some c" for t c
    using that example_queue_get [of t] by (auto simp: payload_queue_get_def short_def split: if_splits)
  ultimately show "flight_inv example_flight"
    using example_sender_inv(1) queue_of_inv [of 0 "[1, 2, 3]"]
    by (simp add: flight_inv_def flight_base_def e)
  show "flight_length example_flight = 3" by (simp add: flight_length_def flight_base_def e)
  show "clock_ok 5 example_flight"
    by (auto simp: clock_ok_def e example_queue_get data_with_tsn_def payload_data_default_def split: if_splits)
  show "sack_states example_flight" by (simp add: sack_states_def e)
qed

definition flight_sack :: "u32 \<Rightarrow> u32 \<Rightarrow> selective_ack" where
  "flight_sack cum credit =
     \<lparr>sa_cumulative_tsn_ack = cum, sa_advertised_receiver_window_credit = credit,
      sa_gap_ack_blocks = (if cum = 1 then [\<lparr>gab_start = 2, gab_end = 2\<rparr>] else []), sa_duplicate_tsn = []\<rparr>"

lemma example_flight_fields:
  "as_cumulative_tsn_ack_point example_flight = 0" "as_my_next_tsn example_flight = 4"
  by (simp_all add: example_flight_def example_sender_fields)

theorem handle_sack_acknowledges_witness:
  "\<exists>a'. handle_sack id 5 (flight_sack 1 9000) example_flight = (Ok [], a') \<and> flight_inv a' \<and>
    acked_at a' 1 = None \<and> acked_at a' 2 = Some False \<and> acked_at a' 3 = Some True"
proof -
  have gaps: "gap_tsns 1 (sa_gap_ack_blocks (flight_sack 1 9000)) = [3]"
    by (simp add: gap_tsns_def flight_sack_def)
  have valid: "sack_valid (flight_sack 1 9000) example_flight"
    using gaps by (simp add: sack_valid_def example_flight_inv example_flight_fields)
      (simp add: flight_sack_def)
  have at: "acked_at example_flight 2 = Some False" "acked_at example_flight 3 = Some False"
    by (simp_all add: acked_at_def example_flight_def example_queue_get data_with_tsn_def payload_data_default_def)
  have cum: "sa_cumulative_tsn_ack (flight_sack 1 9000) = 1" by (simp add: flight_sack_def)
  have "flight_length example_flight < 2 ^ 31" by (simp add: example_flight_inv)
  from handle_sack_acknowledges [OF example_flight_inv(1) this example_flight_inv(3) valid example_flight_inv(4), of id]
  show ?thesis by (auto simp: cum gaps at example_flight_fields)
qed

section \<open>A SACK beyond what was sent\<close>

lemma ack_cumulative_beyond:
  assumes "pq_inv i (as_inflight_queue a)" and "contiguous i (as_my_next_tsn a) (as_inflight_queue a)"
    and "unat (as_my_next_tsn a - i) < unat (cum + 1 - i)" and "unat (cum + 1 - i) \<le> 2 ^ 31" and "clock_ok now a"
  shows "\<exists>a'. ack_cumulative_loop rnd now cum i m a = (Err ErrInflightQueueTsnPop, a')"
  using assms
proof (induction "unat (as_my_next_tsn a - i)" arbitrary: i m a)
  case 0
  have i: "cum + 1 \<noteq> i" using 0 by auto
  have ci: "unat (cum - i) = unat (cum + 1 - i) - 1"
    using i unat_minus_one [of "cum + 1 - i"] by (simp add: algebra_simps)
  have lte: "sna32lte i cum" using ci 0 by (auto simp: sna32lte_def s32.lt_iff_unat)
  have "as_my_next_tsn a = i" using 0 by (simp add: unat_eq_0)
  then have "payload_queue_get (as_inflight_queue a) i = None"
    using 0(3) by (metis contiguous_get word_not_simps(1) diff_self)
  then have "payload_queue_pop (as_inflight_queue a) i = (None, as_inflight_queue a)"
    using pq.pop_miss [OF 0(2)] by (simp add: payload_queue_get_def)
  then show ?case using lte by (subst ack_cumulative_loop.simps) simp
next
  case (Suc k)
  let ?n = "as_my_next_tsn a"
  have i: "cum + 1 \<noteq> i" and n: "?n \<noteq> i" using Suc by auto
  have ci: "unat (cum - i) = unat (cum + 1 - i) - 1"
    using i unat_minus_one [of "cum + 1 - i"] by (simp add: algebra_simps)
  have lte: "sna32lte i cum" using ci Suc by (auto simp: sna32lte_def s32.lt_iff_unat)
  obtain c q' where pop: "payload_queue_pop (as_inflight_queue a) i = (Some c, q')"
      "payload_queue_get (as_inflight_queue a) i = Some c" "pq_inv (i + 1) q'" "contiguous (i + 1) ?n q'"
      "payload_queue_get q' = (payload_queue_get (as_inflight_queue a))(i := None)"
    using pop_base [OF Suc.prems(1,2) n] by metis
  have since: "pd_since c \<le> now" using Suc.prems(5) pop(2) by (simp add: clock_ok_def)
  obtain m1 a1 where p: "ack_popped_chunk rnd now i c m (a\<lparr>as_inflight_queue := q'\<rparr>) = (Ok m1, a1)"
      "sender_view a1 = sender_view (a\<lparr>as_inflight_queue := q'\<rparr>)"
      "window_view a1 = window_view (a\<lparr>as_inflight_queue := q'\<rparr>)"
      "rest_view a1 = rest_view (a\<lparr>as_inflight_queue := q'\<rparr>)" "as_inflight_queue a1 = q'"
    using ack_popped_chunk_ok [OF since, of rnd i m "a\<lparr>as_inflight_queue := q'\<rparr>"] by auto
  let ?a2 = "leave_fast_recovery c a1"
  have a2: "as_my_next_tsn ?a2 = ?n" "as_inflight_queue ?a2 = q'"
    using p leave_fast_recovery_views(1) [of c a1] by (simp_all add: sender_view_def)
  have step: "ack_cumulative_loop rnd now cum i m a = ack_cumulative_loop rnd now cum (i + 1) m1 ?a2"
    using lte pop(1) p(1) by (subst ack_cumulative_loop.simps) simp
  have u: "unat (?n - (i + 1)) = unat (?n - i) - 1" "unat (cum + 1 - (i + 1)) = unat (cum + 1 - i) - 1"
    using n ci by (simp_all add: unat_diff_succ)
  have "clock_ok now ?a2" using Suc.prems(5) by (simp add: clock_ok_def p(5) pop(5))
  then show ?case
    using Suc.hyps(1) [of ?a2 "i + 1" m1] Suc.hyps(2) Suc.prems(3,4) u pop(3,4) a2 step by auto
qed

section \<open>The congestion window\<close>

definition cwnd_view :: "association \<Rightarrow> u32 \<times> u32" where
  "cwnd_view a = (as_cwnd a, as_mtu a)"

lemma then_doE:
  assumes "then_do r f = (x, s)"
  obtains "s = snd r" | y where "r = (Ok y, snd r)" and "f y (snd r) = (x, s)"
  using assms by (cases r; cases "fst r") (auto simp: then_do_def)

lemma cwnd_view_updates [simp]:
  "cwnd_view (leave_fast_recovery c a) = cwnd_view a" "cwnd_view (update_rwnd w a) = cwnd_view a"
  "cwnd_view (a\<lparr>as_inflight_queue := q\<rparr>) = cwnd_view a" "cwnd_view (a\<lparr>as_stats := st\<rparr>) = cwnd_view a"
  "cwnd_view (a\<lparr>as_cumulative_tsn_ack_point := t\<rparr>) = cwnd_view a"
  by (simp_all add: cwnd_view_def leave_fast_recovery_def update_rwnd_def Let_def)

lemma cwnd_measure_rtt: "measure_rtt rnd now c a = (r, a') \<Longrightarrow> cwnd_view a' = cwnd_view a"
  by (auto simp: measure_rtt_def Let_def cwnd_view_def split: if_splits prod.splits)

lemma cwnd_measure_rtt_snd [simp]: "cwnd_view (snd (measure_rtt rnd now c a)) = cwnd_view a"
  using cwnd_measure_rtt [of rnd now c a] by (metis prod.collapse)

lemma cwnd_ack_popped: "ack_popped_chunk rnd now i c m a = (r, a') \<Longrightarrow> cwnd_view a' = cwnd_view a"
  unfolding ack_popped_chunk_def Let_def
  by (auto split: if_splits elim!: then_doE dest: cwnd_measure_rtt)
    (auto simp: cwnd_view_def measure_rtt_def Let_def split: if_splits prod.splits)

lemma cwnd_ack_cumulative: "ack_cumulative_loop rnd now cum i m a = (r, a') \<Longrightarrow> cwnd_view a' = cwnd_view a"
proof (induction "unat (cum + 1 - i)" arbitrary: i m a rule: less_induct)
  case less
  show ?case
  proof (cases "sna32lte i cum")
    case False
    then show ?thesis using less.prems by (subst (asm) ack_cumulative_loop.simps) simp
  next
    case True
    then have "cum + 1 \<noteq> i" using s32.asym s32.lt_succ by (auto simp: sna32lte_def)
    then have dec: "unat (cum + 1 - (i + 1)) < unat (cum + 1 - i)"
      using unat_diff_succ [of "cum + 1" i] unat_gt_0 [of "cum + 1 - i"] by simp
    obtain o1 q where pop: "payload_queue_pop (as_inflight_queue a) i = (o1, q)" by fastforce
    show ?thesis
    proof (cases o1)
      case None
      then show ?thesis using less.prems True pop by (subst (asm) ack_cumulative_loop.simps) auto
    next
      case (Some c)
      have "then_do (ack_popped_chunk rnd now i c m (a\<lparr>as_inflight_queue := q\<rparr>)) (\<lambda>bytes_acked a.
          ack_cumulative_loop rnd now cum (i + 1) bytes_acked (leave_fast_recovery c a)) = (r, a')"
        using less.prems True pop Some by (subst (asm) ack_cumulative_loop.simps) simp
      then show ?thesis
        by (rule then_doE)
          (use less.hyps [OF dec] cwnd_ack_popped [of rnd now i c m "a\<lparr>as_inflight_queue := q\<rparr>"] in
            \<open>(metis cwnd_view_updates(1,3) prod.collapse)+\<close>)
    qed
  qed
qed

lemma cwnd_ack_gap: "ack_gap_loop rnd now tsns m h a = (r, a') \<Longrightarrow> cwnd_view a' = cwnd_view a"
proof (induction tsns arbitrary: m h a)
  case (Cons t tsns)
  then show ?case
    by (auto simp: Let_def split: option.splits if_splits prod.splits elim!: then_doE dest!: cwnd_measure_rtt)
qed simp

lemma cwnd_process_sack: "process_selective_ack rnd now d a = (r, a') \<Longrightarrow> cwnd_view a' = cwnd_view a"
  unfolding process_selective_ack_def
  by (erule then_doE) (metis cwnd_ack_cumulative cwnd_ack_gap prod.collapse)+


lemma handle_sack_continue:
  assumes "sack_states a" and "\<not> sna32gt (as_cumulative_tsn_ack_point a) (sa_cumulative_tsn_ack d)"
  shows "handle_sack rnd now d a =
    then_do (process_selective_ack rnd now d (a\<lparr>as_stats := inc_sacks (as_stats a)\<rparr>)) (\<lambda>(m, h) b.
      let adv = sna32lt (as_cumulative_tsn_ack_point b) (sa_cumulative_tsn_ack d) in
      then_do
        (if adv
         then on_cumulative_tsn_ack_point_advanced (sum_list (hm_values m))
           (b\<lparr>as_cumulative_tsn_ack_point := sa_cumulative_tsn_ack d\<rparr>)
         else (Ok (), b))
        (\<lambda>_ c. after_ack (get_state a) (sa_cumulative_tsn_ack d) (sa_advertised_receiver_window_credit d) h adv m c))"
  using assms by (cases "get_state a") (simp_all add: sack_states_def handle_sack_def after_ack_def)

text \<open>What a SACK may do to the congestion window: growth by at most its own size or one MTU, then
  at most one halving.\<close>

definition grown :: "association \<Rightarrow> u32 set" where
  "grown a = {as_cwnd a, as_cwnd a + as_mtu a} \<union> {as_cwnd a + n | n. n \<le> as_cwnd a}"

definition halved :: "u32 \<Rightarrow> u32 \<Rightarrow> u32" where
  "halved mtu cwnd = max (cwnd div 2) (4 * mtu)"

lemma update_congestion_window_grown:
  "as_cwnd b = as_cwnd a \<Longrightarrow> as_mtu b = as_mtu a \<Longrightarrow>
    as_cwnd (update_congestion_window n b) \<in> grown a \<and> as_mtu (update_congestion_window n b) = as_mtu a"
  by (auto simp: update_congestion_window_def grown_def Let_def)

lemma advanced_grown:
  assumes "on_cumulative_tsn_ack_point_advanced n a = (r, a')"
  shows "as_cwnd a' \<in> grown a \<and> as_mtu a' = as_mtu a"
proof (rule then_doE [OF assms [unfolded on_cumulative_tsn_ack_point_advanced_def Let_def]])
  assume "a' = snd (payload_queue_is_empty (as_inflight_queue a), a)"
  then show ?thesis by (simp add: grown_def)
next
  fix e
  let ?b = "if e then a\<lparr>as_t3rtx := rtx_timer_stop (as_t3rtx a)\<rparr> else start_t3rtx a"
  assume "(Ok (), update_congestion_window n (if e then snd (payload_queue_is_empty (as_inflight_queue a), a)
        \<lparr>as_t3rtx := rtx_timer_stop (as_t3rtx (snd (payload_queue_is_empty (as_inflight_queue a), a)))\<rparr>
      else start_t3rtx (snd (payload_queue_is_empty (as_inflight_queue a), a)))) = (r, a')"
  then have "a' = update_congestion_window n ?b" by (simp split: if_splits)
  moreover have "as_cwnd ?b = as_cwnd a" "as_mtu ?b = as_mtu a" by (simp_all add: start_t3rtx_def)
  ultimately show ?thesis using update_congestion_window_grown by simp
qed

lemma miss_loop_halves:
  "miss_loop htna max_tsn tsn a = (r, a') \<Longrightarrow> as_mtu a' = as_mtu a \<and>
    (as_cwnd a' = as_cwnd a \<or> \<not> as_in_fast_recovery a \<and> as_cwnd a' = halved (as_mtu a) (as_cwnd a))"
proof (induction "unat (max_tsn - tsn)" arbitrary: tsn a rule: less_induct)
  case less
  show ?case
  proof (cases "sna32lt tsn max_tsn \<and> payload_queue_get (as_inflight_queue a) tsn \<noteq> None")
    case False
    then show ?thesis using less.prems by (subst (asm) miss_loop.simps) (auto split: if_splits)
  next
    case True
    then have "max_tsn \<noteq> tsn" by (auto simp: s32.irrefl)
    then have dec: "unat (max_tsn - (tsn + 1)) < unat (max_tsn - tsn)"
      using unat_diff_succ [of max_tsn tsn] unat_gt_0 [of "max_tsn - tsn"] by simp
    obtain c where c: "payload_queue_get (as_inflight_queue a) tsn = Some c" using True by auto
    define a1 where "a1 = (if \<not> pd_acked c \<and> \<not> payload_data_abandoned (sh_cells a) c \<and> pd_miss_indicator c < 3 then
         let a = a\<lparr>as_inflight_queue := payload_queue_update (as_inflight_queue a) tsn chunk_missed\<rparr> in
         if pd_miss_indicator (chunk_missed c) = 3 \<and> \<not> as_in_fast_recovery a
         then enter_fast_recovery htna a else a
       else a)"
    have "miss_loop htna max_tsn (tsn + 1) a1 = (r, a')"
      using less.prems True c by (subst (asm) miss_loop.simps) (simp add: a1_def)
    note IH = less.hyps [OF dec this]
    have "as_mtu a1 = as_mtu a \<and> (as_cwnd a1 = as_cwnd a \<and> as_in_fast_recovery a1 = as_in_fast_recovery a \<or>
        \<not> as_in_fast_recovery a \<and> as_in_fast_recovery a1 \<and> as_cwnd a1 = halved (as_mtu a) (as_cwnd a))"
      by (simp add: a1_def Let_def enter_fast_recovery_def halved_def)
    then show ?thesis using IH by auto
  qed
qed

lemma process_fast_halves:
  assumes "process_fast_retransmission cum htna adv a = (r, a')"
  shows "as_mtu a' = as_mtu a \<and> (as_cwnd a' = as_cwnd a \<or> as_cwnd a' = halved (as_mtu a) (as_cwnd a))"
proof -
  define inner where "inner = (if \<not> as_in_fast_recovery a \<or> adv then
      then_do
        (if \<not> as_in_fast_recovery a then (Ok htna, a)
         else (and_then (payload_queue_len (as_inflight_queue a)) (\<lambda>len. Ok (cum + ucast len + 1)), a))
        (\<lambda>max_tsn a. miss_loop htna max_tsn (cum + 1) a)
    else (Ok (), a))"
  have i: "as_mtu s = as_mtu a \<and> (as_cwnd s = as_cwnd a \<or> as_cwnd s = halved (as_mtu a) (as_cwnd a))"
    if "inner = (x, s)" for x s
    using that by (auto simp: inner_def split: if_splits elim!: then_doE dest!: miss_loop_halves)
  have f: "as_mtu (snd inner) = as_mtu a \<and>
      (as_cwnd (snd inner) = as_cwnd a \<or> as_cwnd (snd inner) = halved (as_mtu a) (as_cwnd a))"
    by (rule i [of "fst inner"]) simp
  have "then_do inner (\<lambda>_ a. (Ok (), if as_in_fast_recovery a \<and> adv
      then a\<lparr>as_will_retransmit_fast := True\<rparr> else a)) = (r, a')"
    using assms by (simp add: process_fast_retransmission_def inner_def)
  then show ?thesis
  proof (rule then_doE)
    fix y
    assume "(Ok (), if as_in_fast_recovery (snd inner) \<and> adv
      then snd inner\<lparr>as_will_retransmit_fast := True\<rparr> else snd inner) = (r, a')"
    then show ?thesis using f by (auto split: if_splits)
  qed (use f in simp)
qed

lemma release_buffers_cwnd [simp]:
  "as_cwnd (release_buffers m a) = as_cwnd a" "as_mtu (release_buffers m a) = as_mtu a"
proof -
  have "as_cwnd (update_stream si f a) = as_cwnd a \<and> as_mtu (update_stream si f a) = as_mtu a" for si f a
    by (simp add: update_stream_def split: option.splits)
  then have "as_cwnd (release_buffers m a) = as_cwnd a \<and> as_mtu (release_buffers m a) = as_mtu a"
    unfolding release_buffers_def by (induction m arbitrary: a) (auto simp: case_prod_beta)
  then show "as_cwnd (release_buffers m a) = as_cwnd a" "as_mtu (release_buffers m a) = as_mtu a" by simp_all
qed

lemma tail_cwnd [simp]:
  "as_cwnd (update_rwnd w a) = as_cwnd a" "as_mtu (update_rwnd w a) = as_mtu a"
  "as_cwnd (forward_ack_point a) = as_cwnd a"
  "as_cwnd (snd (postprocess_sack state aw a)) = as_cwnd a"
proof -
  have "as_cwnd (advance_peer_ack_loop n i a) = as_cwnd a" for n i a
    by (induction n i a rule: advance_peer_ack_loop.induct) (auto split: option.splits)
  then show "as_cwnd (forward_ack_point a) = as_cwnd a"
    by (simp add: forward_ack_point_def advance_peer_ack_point_def awake_write_loop_def Let_def)
  show "as_cwnd (snd (postprocess_sack state aw a)) = as_cwnd a"
    by (cases "payload_queue_is_empty (as_inflight_queue a)")
      (simp_all add: postprocess_sack_def Let_def start_t3rtx_def set_state_def awake_write_loop_def)
qed (simp_all add: update_rwnd_def Let_def)

lemma then_do_last: "snd (then_do r (\<lambda>_ a. (Ok k, a))) = snd r"
  by (cases r; cases "fst r") simp_all

lemma handle_sack_cwnd:
  assumes "handle_sack rnd now d a = (r, a')"
  shows "as_cwnd a' \<in> grown a \<union> halved (as_mtu a) ` grown a"
proof -
  have g: "as_cwnd a \<in> grown a" by (simp add: grown_def)
  let ?P = "\<lambda>b. as_mtu b = as_mtu a \<and> as_cwnd b \<in> grown a"
  let ?Q = "\<lambda>b. as_cwnd b \<in> grown a \<union> halved (as_mtu a) ` grown a"
  have tail: "?Q s" if p: "?P b" and t: "after_ack st cum credit h adv m b = (x, s)" for b st cum credit h adv m x s
  proof -
    define c where "c = update_rwnd credit (release_buffers m b)"
    have c: "?P c" using p by (simp add: c_def)
    obtain y e where e: "process_fast_retransmission cum h adv c = (y, e)" by fastforce
    have "?Q e" using process_fast_halves [OF e] c by auto
    moreover have "then_do (y, e) (\<lambda>_ a. then_do (postprocess_sack st adv (forward_ack_point a)) (\<lambda>_ a. (Ok [], a))) = (x, s)"
      using t by (simp add: after_ack_def c_def [symmetric] e)
    moreover have "as_cwnd s = as_cwnd e"
      if "then_do (y, e) (\<lambda>_ a. then_do (postprocess_sack st adv (forward_ack_point a)) (\<lambda>_ a. (Ok [], a))) = (x, s)"
    proof (cases y)
      case (Ok u)
      then have "then_do (postprocess_sack st adv (forward_ack_point e)) (\<lambda>_ a. (Ok [], a)) = (x, s)"
        using that by simp
      from arg_cong [OF this, of "\<lambda>r. as_cwnd (snd r)"] show ?thesis by (simp add: then_do_last)
    qed (use that in simp_all)
    ultimately show ?thesis by simp
  qed
  let ?a0 = "a\<lparr>as_stats := inc_sacks (as_stats a)\<rparr>" and ?st = "get_state a"
  show ?thesis
  proof (cases "sack_states a \<and> \<not> sna32gt (as_cumulative_tsn_ack_point a) (sa_cumulative_tsn_ack d)")
    case False
    have "handle_sack rnd now d a = (Ok [], a)" if "\<not> sack_states a"
      using that by (simp add: handle_sack_def sack_states_def)
    moreover have "handle_sack rnd now d a = (Ok [], ?a0)" if "sack_states a"
    proof -
      have "sna32gt (as_cumulative_tsn_ack_point a) (sa_cumulative_tsn_ack d)" using False that by simp
      then show ?thesis using that by (auto simp: handle_sack_def sack_states_def)
    qed
    ultimately have "as_cwnd a' = as_cwnd a" using assms by (cases "sack_states a") auto
    then show ?thesis using g by simp
  next
    case True
    obtain x1 a1 where a1: "process_selective_ack rnd now d ?a0 = (x1, a1)" by fastforce
    have p1: "?P a1" using cwnd_process_sack [OF a1] g by (simp add: cwnd_view_def)
    show ?thesis
    proof (cases x1)
      case (Ok mh)
      obtain m h where mh: "mh = (m, h)" by fastforce
      let ?adv = "sna32lt (as_cumulative_tsn_ack_point a1) (sa_cumulative_tsn_ack d)"
      define R where "R = (if ?adv
          then on_cumulative_tsn_ack_point_advanced (sum_list (hm_values m))
            (a1\<lparr>as_cumulative_tsn_ack_point := sa_cumulative_tsn_ack d\<rparr>)
          else (Ok (), a1))"
      have "grown (a1\<lparr>as_cumulative_tsn_ack_point := t\<rparr>) = grown a" for t
        using cwnd_process_sack [OF a1] by (simp add: grown_def cwnd_view_def)
      then have pR: "?P (snd R)"
        using p1 advanced_grown [of "sum_list (hm_values m)" "a1\<lparr>as_cumulative_tsn_ack_point := sa_cumulative_tsn_ack d\<rparr>"]
        by (cases "on_cumulative_tsn_ack_point_advanced (sum_list (hm_values m))
            (a1\<lparr>as_cumulative_tsn_ack_point := sa_cumulative_tsn_ack d\<rparr>)") (auto simp: R_def)
      have "handle_sack rnd now d a = then_do R (\<lambda>_ a.
          after_ack ?st (sa_cumulative_tsn_ack d) (sa_advertised_receiver_window_credit d) h ?adv m a)"
        using True a1 Ok mh by (simp add: handle_sack_continue R_def)
      with assms have "then_do R (\<lambda>_ a.
          after_ack ?st (sa_cumulative_tsn_ack d) (sa_advertised_receiver_window_credit d) h ?adv m a) = (r, a')"
        by simp
      then show ?thesis
        by (rule then_doE) (use pR tail in auto)
    qed (use True assms a1 p1 in \<open>simp_all add: handle_sack_continue\<close>)
  qed
qed


lemma grown_bounds:
  assumes "w \<in> grown a" and "as_mtu a \<le> as_cwnd a" and "unat (as_cwnd a) < 2 ^ 31"
  shows "unat (as_cwnd a) \<le> unat w" and "unat w \<le> 2 * unat (as_cwnd a)"
proof -
  obtain n where n: "w = as_cwnd a + n" "n \<le> as_cwnd a"
    using assms(1,2) unfolding grown_def by force
  then have "unat n \<le> unat (as_cwnd a)" by (simp add: word_le_nat_alt)
  moreover have "unat w = unat (as_cwnd a) + unat n"
    using calculation assms(3) by (simp add: n(1) unat_word_ariths)
  ultimately show "unat (as_cwnd a) \<le> unat w" and "unat w \<le> 2 * unat (as_cwnd a)" by simp_all
qed

text \<open>C21: whatever a SACK says, valid or not, the congestion window stays between one MTU and the
  larger of its double and four MTUs, as long as it is below half the range of its type.\<close>

theorem congestion_window_bounds:
  assumes "handle_sack rnd now d a = (r, a')" and "as_mtu a \<le> as_cwnd a" and "unat (as_cwnd a) < 2 ^ 31"
    and "unat (as_mtu a) < 2 ^ 29"
  shows "as_mtu a \<le> as_cwnd a' \<and> unat (as_cwnd a') \<le> max (2 * unat (as_cwnd a)) (4 * unat (as_mtu a))"
proof -
  have m4: "unat (4 * as_mtu a) = 4 * unat (as_mtu a)" using assms(4) by (simp add: unat_word_ariths)
  have le: "unat (as_mtu a) \<le> unat (as_cwnd a)" using assms(2) by (simp add: word_le_nat_alt)
  consider "as_cwnd a' \<in> grown a" | w where "w \<in> grown a" "as_cwnd a' = halved (as_mtu a) w"
    using handle_sack_cwnd [OF assms(1)] by auto
  then show ?thesis
  proof cases
    case 1
    note b = grown_bounds [OF 1 assms(2,3)]
    then show ?thesis using le by (simp add: word_le_nat_alt)
  next
    case 2
    note b = grown_bounds [OF 2(1) assms(2,3)]
    have "unat (as_cwnd a') = max (unat w div 2) (4 * unat (as_mtu a))"
      using m4 by (auto simp: 2(2) halved_def max_def word_le_nat_alt unat_div_distrib)
    then show ?thesis using b by (auto simp: word_le_nat_alt)
  qed
qed

theorem congestion_window_bounds_witness:
  "as_mtu example_flight \<le> as_cwnd (snd (handle_sack id 5 (flight_sack 1 9000) example_flight))"
proof -
  have "as_cwnd example_flight = 4380" "as_mtu example_flight = 1228"
    by (simp_all add: example_flight_def example_sender_def association_internal_new_def Let_def INITIAL_MTU_def
        set_state_def max_def min_def)
  then show ?thesis
    using congestion_window_bounds [OF prod.collapse [symmetric], of example_flight id 5 "flight_sack 1 9000"] by simp
qed

end
