(* ===== verification/Dispatch.thy ===== *)
theory Dispatch
  imports Sack
begin

text \<open>
  The rest of the association: the shutdown handlers, the dispatch on the chunks of an inbound
  packet, the timers' callbacks, and one round of the read loop and of the write loop of
  src/src/association/mod.rs.  The clock, the rounding of the floating-point unit, the CRC, and
  the 32 random bytes of a new cookie are arguments.
\<close>

section \<open>Shutdown\<close>

definition handle_shutdown :: "association \<Rightarrow> handler" where
  "handle_shutdown a =
     (let state = get_state a in
      if state = Established then
        then_do (payload_queue_is_empty (as_inflight_queue a), a) (\<lambda>none_inflight a.
          if \<not> none_inflight then (Ok [], set_state ShutdownReceived a)
          else (Ok [], awake_write_loop (set_state ShutdownAckSent (a\<lparr>as_will_send_shutdown_ack := True\<rparr>))))
      else if state = ShutdownSent
      then (Ok [], awake_write_loop (set_state ShutdownAckSent (a\<lparr>as_will_send_shutdown_ack := True\<rparr>)))
      else (Ok [], a))"

definition handle_shutdown_ack :: "association \<Rightarrow> handler" where
  "handle_shutdown_ack a =
     (let state = get_state a in
      if state = ShutdownSent \<or> state = ShutdownAckSent then
        (Ok [], awake_write_loop (a\<lparr>as_t2shutdown := rtx_timer_stop (as_t2shutdown a),
                                    as_will_send_shutdown_complete := True\<rparr>))
      else (Ok [], a))"

definition handle_shutdown_complete :: "association \<Rightarrow> handler" where
  "handle_shutdown_complete a =
     (if get_state a = ShutdownAckSent
      then (Ok [], association_close (a\<lparr>as_t2shutdown := rtx_timer_stop (as_t2shutdown a)\<rparr>))
      else (Ok [], a))"

section \<open>Inbound packets\<close>

definition report_unrecognized :: "chunk \<Rightarrow> association \<Rightarrow> packet outcome" where
  "report_unrecognized chunk a =
     and_then (chunk_marshal chunk) (\<lambda>raw.
       Ok (create_packet a [ChunkError [\<lparr>ec_code = UNRECOGNIZED_CHUNK_TYPE, ec_raw = raw\<rparr>]]))"

text \<open>The two upper bits of an unknown chunk's type say what to do with it.\<close>

definition handle_unknown_chunk :: "chunk \<Rightarrow> association \<Rightarrow> handler" where
  "handle_unknown_chunk chunk a =
     (let handle_code = drop_bit 6 (chunk_typ chunk) in
      if handle_code = 0 then (Err ErrChunkTypeUnhandled, a)
      else if handle_code = 1 then
        then_do (report_unrecognized chunk a, a) (\<lambda>packet a. (Err ErrChunkTypeUnhandled, push_control packet a))
      else if handle_code = 2 then (Ok [], a)
      else then_do (report_unrecognized chunk a, a) (\<lambda>packet a. (Ok [packet], a)))"

definition handle_checked_chunk ::
  "(real \<Rightarrow> real) \<Rightarrow> time_ms \<Rightarrow> bytes \<Rightarrow> packet \<Rightarrow> chunk \<Rightarrow> association \<Rightarrow> handler" where
  "handle_checked_chunk rnd now random32 p chunk a =
     (case chunk of
        ChunkInit c \<Rightarrow> if ci_is_ack c then handle_init_ack p c a else handle_init random32 p c a
      | ChunkAbort _ \<Rightarrow> (Err ErrChunk, a)
      | ChunkError _ \<Rightarrow> (Err ErrChunk, a)
      | ChunkHeartbeat c \<Rightarrow> handle_heartbeat c a
      | ChunkCookieEcho c \<Rightarrow> handle_cookie_echo c a
      | ChunkCookieAck \<Rightarrow> handle_cookie_ack a
      | ChunkPayloadData c \<Rightarrow> handle_data c a
      | ChunkSelectiveAck c \<Rightarrow> handle_sack rnd now c a
      | ChunkReconfig c \<Rightarrow> handle_reconfig c a
      | ChunkForwardTsn c \<Rightarrow> handle_forward_tsn c a
      | ChunkShutdown _ \<Rightarrow> handle_shutdown a
      | ChunkShutdownAck \<Rightarrow> handle_shutdown_ack a
      | ChunkShutdownComplete \<Rightarrow> handle_shutdown_complete a
      | ChunkHeartbeatAck _ \<Rightarrow> handle_unknown_chunk chunk a
      | ChunkUnknown _ \<Rightarrow> handle_unknown_chunk chunk a)"

definition handle_chunk ::
  "(real \<Rightarrow> real) \<Rightarrow> time_ms \<Rightarrow> bytes \<Rightarrow> packet \<Rightarrow> chunk \<Rightarrow> association \<Rightarrow> unit outcome \<times> association" where
  "handle_chunk rnd now random32 p chunk a =
     then_do (chunk_check chunk, a) (\<lambda>_ a.
       then_do (handle_checked_chunk rnd now random32 p chunk a) (\<lambda>packets a.
         (Ok (), if packets \<noteq> []
                 then awake_write_loop (a\<lparr>as_control_queue := as_control_queue a @ packets\<rparr>) else a)))"

fun handle_chunks ::
  "(real \<Rightarrow> real) \<Rightarrow> time_ms \<Rightarrow> bytes \<Rightarrow> packet \<Rightarrow> chunk list \<Rightarrow> association \<Rightarrow> unit outcome \<times> association" where
  "handle_chunks rnd now random32 p [] a = (Ok (), a)"
| "handle_chunks rnd now random32 p (c # cs) a =
     then_do (handle_chunk rnd now random32 p c a) (\<lambda>_ a. handle_chunks rnd now random32 p cs a)"

definition handle_inbound ::
  "(bytes \<Rightarrow> u32) \<Rightarrow> (real \<Rightarrow> real) \<Rightarrow> time_ms \<Rightarrow> bytes \<Rightarrow> bytes \<Rightarrow> association \<Rightarrow> unit outcome \<times> association" where
  "handle_inbound crc rnd now random32 raw a =
     (case packet_unmarshal crc now raw of
        Panic \<Rightarrow> (Panic, a)
      | Err _ \<Rightarrow> (Ok (), a)
      | Ok p \<Rightarrow>
          (case check_packet p of
             Panic \<Rightarrow> (Panic, a)
           | Err _ \<Rightarrow> (Ok (), a)
           | Ok _ \<Rightarrow>
               then_do (handle_chunks rnd now random32 p (pk_chunks p) (handle_chunk_start a)) (\<lambda>_ a.
                 (Ok (), handle_chunk_end a))))"

section \<open>Timers\<close>

definition on_retransmission_timeout :: "rtx_timer_id \<Rightarrow> association \<Rightarrow> association" where
  "on_retransmission_timeout i a =
     (case i of
        T1Init \<Rightarrow> snd (send_init a)
      | T1Cookie \<Rightarrow> snd (send_cookie_echo a)
      | T2Shutdown \<Rightarrow>
          if get_state a = ShutdownSent then awake_write_loop (a\<lparr>as_will_send_shutdown := True\<rparr>)
          else if get_state a = ShutdownAckSent then awake_write_loop (a\<lparr>as_will_send_shutdown_ack := True\<rparr>)
          else a
      | T3RTX \<Rightarrow>
          let a = a\<lparr>as_stats := inc_t3timeouts (as_stats a),
                    as_ssthresh := max (as_cwnd a div 2) (4 * as_mtu a), as_cwnd := as_mtu a\<rparr>;
              a = (if as_use_forward_tsn a then advance_peer_ack_point a else a);
              a = a\<lparr>as_inflight_queue := payload_queue_mark_all_to_retrasmit (sh_cells a) (as_inflight_queue a)\<rparr> in
          awake_write_loop a
      | Reconfig_timer \<Rightarrow> awake_write_loop (a\<lparr>as_will_retransmit_reconfig := True\<rparr>))"

definition on_retransmission_failure :: "rtx_timer_id \<Rightarrow> association \<Rightarrow> association" where
  "on_retransmission_failure i a =
     (case i of
        T1Init \<Rightarrow> a\<lparr>as_handshake_completed_ch := as_handshake_completed_ch a @ [Some ErrHandshakeInitAck]\<rparr>
      | T1Cookie \<Rightarrow> a\<lparr>as_handshake_completed_ch := as_handshake_completed_ch a @ [Some ErrHandshakeCookieEcho]\<rparr>
      | _ \<Rightarrow> a)"

section \<open>The two loops\<close>

text \<open>
  One round of the read loop, after a datagram: the result says whether the loop goes on; when
  it does not, the association is closed.  A panic ends the task without that.
\<close>

definition read_loop_round ::
  "(bytes \<Rightarrow> u32) \<Rightarrow> (real \<Rightarrow> real) \<Rightarrow> time_ms \<Rightarrow> bytes \<Rightarrow> bytes \<Rightarrow> association \<Rightarrow> bool outcome \<times> association" where
  "read_loop_round crc rnd now random32 inbound a =
     (case handle_inbound crc rnd now random32 inbound a of
        (Ok _, a) \<Rightarrow> (Ok True, a)
      | (Err _, a) \<Rightarrow> (Ok False, association_close a)
      | (Panic, a) \<Rightarrow> (Panic, a))"

text \<open>One round of the write loop; \<open>net_ok\<close> says whether the connection took the packets.\<close>

definition write_loop_round ::
  "(bytes \<Rightarrow> u32) \<Rightarrow> time_ms \<Rightarrow> bool \<Rightarrow> association \<Rightarrow> ((bytes list \<times> bool) outcome \<times> association) option" where
  "write_loop_round crc now net_ok a =
     (case gather_outbound crc now a of
        None \<Rightarrow> None
      | Some r \<Rightarrow>
          Some (then_do r (\<lambda>(raw_packets, ok) a.
            if ok \<and> net_ok then (Ok (raw_packets, True), a)
            else (Ok (raw_packets, False), association_close a))))"

section \<open>The state machine\<close>

text \<open>The transitions that a chunk may cause.\<close>

fun chunk_transition :: "chunk \<Rightarrow> association_state \<Rightarrow> association_state \<Rightarrow> bool" where
  "chunk_transition (ChunkInit c) s s' \<longleftrightarrow> ci_is_ack c \<and> s = CookieWait \<and> s' = CookieEchoed"
| "chunk_transition (ChunkCookieEcho _) s s' \<longleftrightarrow> s \<in> {Closed, CookieWait, CookieEchoed} \<and> s' = Established"
| "chunk_transition ChunkCookieAck s s' \<longleftrightarrow> s = CookieEchoed \<and> s' = Established"
| "chunk_transition (ChunkSelectiveAck _) s s' \<longleftrightarrow>
     s = ShutdownPending \<and> s' = ShutdownSent \<or> s = ShutdownReceived \<and> s' = ShutdownAckSent"
| "chunk_transition (ChunkShutdown _) s s' \<longleftrightarrow>
     s = Established \<and> s' \<in> {ShutdownReceived, ShutdownAckSent} \<or> s = ShutdownSent \<and> s' = ShutdownAckSent"
| "chunk_transition ChunkShutdownComplete s s' \<longleftrightarrow> s = ShutdownAckSent \<and> s' = Closed"
| "chunk_transition _ s s' \<longleftrightarrow> False"


section \<open>Handlers that leave the state alone\<close>

lemma then_do_sh_state:
  assumes "sh_state (snd r) = st" and "\<And>x b. sh_state b = st \<Longrightarrow> sh_state (snd (f x b)) = st"
  shows "sh_state (snd (then_do r f)) = st"
  using assms by (cases r; cases "fst r") auto

lemma state_updates [simp]:
  "sh_state (set_state s sh) = u8_of_association_state s" "sh_state (awake_write_loop sh) = sh_state sh"
  by (simp_all add: set_state_def awake_write_loop_def)

lemma update_stream_sh_state [simp]: "sh_state (update_stream si f a) = sh_state a"
  by (simp add: update_stream_def split: option.split)

lemma foldl_sh_state:
  assumes "\<And>b x. sh_state (f b x) = sh_state b"
  shows "sh_state (foldl f a xs) = sh_state a"
  by (induction xs arbitrary: a) (simp_all add: assms)

lemma unregister_stream_sh_state [simp]: "sh_state (unregister_stream si a) = sh_state a"
  by (simp add: unregister_stream_def split: option.splits)

lemma get_or_create_stream_sh_state [simp]: "sh_state (snd (get_or_create_stream si a)) = sh_state a"
  by (simp add: get_or_create_stream_def create_stream_def Let_def)

lemma reset_streams_if_any_sh_state [simp]: "sh_state (snd (reset_streams_if_any p a)) = sh_state a"
  by (auto simp: reset_streams_if_any_def reset_streams_def Let_def foldl_sh_state split: option.split)

lemma reset_all_requests_sh_state [simp]: "sh_state (snd (reset_all_requests rs a)) = sh_state a"
  by (induction rs arbitrary: a) (auto simp: case_prod_beta)

lemma handle_reconfig_param_sh_state [simp]: "sh_state (snd (handle_reconfig_param p a)) = sh_state a"
  by (cases p) (simp_all add: handle_reconfig_param_def Let_def case_prod_beta)

lemma handle_reconfig_sh_state [simp]: "sh_state (snd (handle_reconfig c a)) = sh_state a"
  unfolding handle_reconfig_def by (intro then_do_sh_state) (auto intro!: then_do_sh_state split: option.split)

lemma advance_peer_last_tsn_sh_state [simp]: "sh_state (snd (advance_peer_last_tsn a)) = sh_state a"
proof (induction a rule: advance_peer_last_tsn.induct)
  case (1 a)
  obtain o1 q where q: "payload_queue_pop (as_payload_queue a) (as_peer_last_tsn a + 1) = (o1, q)"
    by fastforce
  show ?case
  proof (cases o1)
    case None
    then show ?thesis by (simp add: advance_peer_last_tsn.simps [of a] q)
  next
    case (Some c)
    let ?b = "a\<lparr>as_payload_queue := q, as_peer_last_tsn := as_peer_last_tsn a + 1\<rparr>"
    obtain r1 d where d: "reset_all_requests (hm_values (as_reconfig_requests ?b)) ?b = (r1, d)" by fastforce
    have "sh_state d = sh_state a"
      using reset_all_requests_sh_state [of "hm_values (as_reconfig_requests ?b)" ?b] by (simp only: d) simp
    moreover have "sh_state (snd (advance_peer_last_tsn d)) = sh_state d"
      by (rule 1 [where x = "Some c" and y = q and xa = ?b and xb = "(r1, d)" and xc = r1 and ya = d])
        (use q Some d in simp_all)
    ultimately show ?thesis using q Some d by (simp add: advance_peer_last_tsn.simps [of a] Let_def case_prod_beta)
  qed
qed

lemma peer_last_tsn_ack_sh_state [simp]:
  "sh_state (snd (handle_peer_last_tsn_and_acknowledgement b a)) = sh_state a"
proof (cases "advance_peer_last_tsn a")
  case (Pair r b)
  then have "sh_state b = sh_state a" using advance_peer_last_tsn_sh_state [of a] by simp
  then show ?thesis
    using Pair by (auto simp: handle_peer_last_tsn_and_acknowledgement_def Let_def split: outcome.splits)
qed

lemma accept_data_sh_state [simp]: "sh_state (snd (accept_data d a)) = sh_state a"
proof -
  obtain ok b where b: "get_or_create_stream (pd_stream_identifier d) a = (ok, b)" by fastforce
  then have "sh_state b = sh_state a" using get_or_create_stream_sh_state [of "pd_stream_identifier d" a] by simp
  then show ?thesis using b by (auto simp: accept_data_def Let_def split: option.split bool.split)
qed

lemma handle_data_sh_state [simp]: "sh_state (snd (handle_data d a)) = sh_state a"
proof -
  let ?a = "a\<lparr>as_stats := inc_datas (as_stats a)\<rparr>"
  obtain deliver b where b: "accept_data d ?a = (deliver, b)" by fastforce
  then have "sh_state b = sh_state a" using accept_data_sh_state [of d ?a] by simp
  then show ?thesis using b by (auto simp: handle_data_def Let_def split: option.split)
qed

lemma forward_peer_last_tsn_sh_state [simp]: "sh_state (forward_peer_last_tsn n a) = sh_state a"
  by (induction n a rule: forward_peer_last_tsn.induct) (subst forward_peer_last_tsn.simps, simp)

lemma handle_forward_tsn_sh_state [simp]: "sh_state (snd (handle_forward_tsn c a)) = sh_state a"
  by (auto simp: handle_forward_tsn_def Let_def foldl_sh_state)

lemma handle_heartbeat_sh_state [simp]: "sh_state (snd (handle_heartbeat ps a)) = sh_state a"
  by (simp add: handle_heartbeat_def split: list.split param.split)

lemma report_sh_state: "sh_state (snd (report_unrecognized c a, a)) = sh_state a"
  by simp

lemma handle_unknown_chunk_sh_state [simp]: "sh_state (snd (handle_unknown_chunk c a)) = sh_state a"
  by (auto simp: handle_unknown_chunk_def push_control_def Let_def intro!: then_do_sh_state)

lemma handle_init_sh_state [simp]: "sh_state (snd (handle_init random32 p c a)) = sh_state a"
  by (simp add: handle_init_def Let_def)

section \<open>SACK changes the state only when nothing is outstanding\<close>

lemma rtx_sh_state [simp]: "sh_state (start_t3rtx a) = sh_state a"
  by (simp add: start_t3rtx_def)

lemma measure_rtt_sh_state [simp]: "sh_state (snd (measure_rtt rnd now c a)) = sh_state a"
  by (simp add: measure_rtt_def Let_def case_prod_beta)

lemma ack_popped_chunk_sh_state [simp]: "sh_state (snd (ack_popped_chunk rnd now i c m a)) = sh_state a"
  by (auto simp: ack_popped_chunk_def Let_def intro!: then_do_sh_state)

lemma leave_fast_recovery_sh_state [simp]: "sh_state (leave_fast_recovery c a) = sh_state a"
  by (simp add: leave_fast_recovery_def)

lemma ack_cumulative_loop_sh_state [simp]: "sh_state (snd (ack_cumulative_loop rnd now cum i m a)) = sh_state a"
proof (induction rnd now cum i m a rule: ack_cumulative_loop.induct)
  case (1 rnd now cum i m a)
  obtain o1 q where q: "payload_queue_pop (as_inflight_queue a) i = (o1, q)" by fastforce
  show ?case
  proof (cases o1)
    case (Some c)
    let ?r = "ack_popped_chunk rnd now i c m (a\<lparr>as_inflight_queue := q\<rparr>)"
    have "sh_state (snd ?r) = sh_state a" by simp
    then show ?thesis
      using 1 [OF _ q [symmetric] Some] q Some
      by (subst ack_cumulative_loop.simps, cases ?r; cases "fst ?r") auto
  qed (use q in \<open>subst ack_cumulative_loop.simps, simp\<close>)
qed

lemma ack_gap_loop_sh_state [simp]: "sh_state (snd (ack_gap_loop rnd now ts m h a)) = sh_state a"
proof (induction ts arbitrary: m h a)
  case (Cons t ts)
  show ?case
    by (auto simp: Let_def Cons case_prod_beta split: option.split intro!: then_do_sh_state)
qed simp

lemma process_selective_ack_sh_state [simp]: "sh_state (snd (process_selective_ack rnd now d a)) = sh_state a"
  by (auto simp: process_selective_ack_def intro!: then_do_sh_state)

lemma update_congestion_window_sh_state [simp]: "sh_state (update_congestion_window n a) = sh_state a"
  by (simp add: update_congestion_window_def Let_def)

lemma cumulative_advanced_sh_state [simp]:
  "sh_state (snd (on_cumulative_tsn_ack_point_advanced n a)) = sh_state a"
  by (auto simp: on_cumulative_tsn_ack_point_advanced_def Let_def intro!: then_do_sh_state)

lemma enter_fast_recovery_sh_state [simp]: "sh_state (enter_fast_recovery h a) = sh_state a"
  by (simp add: enter_fast_recovery_def Let_def)

lemma miss_loop_sh_state [simp]: "sh_state (snd (miss_loop h n i a)) = sh_state a"
  by (induction h n i a rule: miss_loop.induct)
    (subst miss_loop.simps, auto simp: Let_def split: option.split)

lemma fast_retransmission_sh_state [simp]:
  "sh_state (snd (process_fast_retransmission cum h adv a)) = sh_state a"
  by (auto simp: process_fast_retransmission_def intro!: then_do_sh_state)

lemma release_buffers_sh_state [simp]: "sh_state (release_buffers m a) = sh_state a"
  unfolding release_buffers_def by (rule foldl_sh_state) (simp add: case_prod_beta)

lemma update_rwnd_sh_state [simp]: "sh_state (update_rwnd c a) = sh_state a"
  by (simp add: update_rwnd_def Let_def)

lemma get_state_frame: "sh_state b = sh_state a \<Longrightarrow> get_state b = get_state a"
  by (simp add: get_state_def)

lemma forward_ack_point_sh_state [simp]: "sh_state (forward_ack_point a) = sh_state a"
  by (simp add: forward_ack_point_def Let_def)

lemma postprocess_sack_state:
  "get_state (snd (postprocess_sack st b a)) = get_state a \<or>
    st = ShutdownPending \<and> get_state (snd (postprocess_sack st b a)) = ShutdownSent \<or>
    st = ShutdownReceived \<and> get_state (snd (postprocess_sack st b a)) = ShutdownAckSent"
  by (cases "payload_queue_is_empty (as_inflight_queue a)")
    (auto simp: postprocess_sack_def Let_def get_state_def association_state_of_u8_def)



lemma send_cookie_echo_stored [simp]:
  "as_stored_cookie_echo a = Some v \<Longrightarrow>
    send_cookie_echo a = (Ok (), push_control (create_packet a [ChunkCookieEcho v]) a)"
  by (simp add: send_cookie_echo_def Let_def)

lemma association_close_state [simp]: "get_state (association_close a) = Closed"
proof -
  have "sh_state (unregister_streams sis b) = sh_state b" for sis b
    unfolding unregister_streams_def by (rule foldl_sh_state) simp
  then show ?thesis by (simp add: association_close_def Let_def get_state_def close_all_timers_def association_state_of_u8_def)
qed

lemma handle_sack_state:
  "get_state (snd (handle_sack rnd now d a)) = get_state a \<or>
    chunk_transition (ChunkSelectiveAck d) (get_state a) (get_state (snd (handle_sack rnd now d a)))"
proof (cases "sack_states a \<and> \<not> sna32gt (as_cumulative_tsn_ack_point a) (sa_cumulative_tsn_ack d)")
  case True
  define st where "st = get_state a"
  define fine where "fine b \<longleftrightarrow> get_state b = st \<or>
      st = ShutdownPending \<and> get_state b = ShutdownSent \<or> st = ShutdownReceived \<and> get_state b = ShutdownAckSent" for b :: association
  have frame: "fine b" if "sh_state b = sh_state a" for b
    using get_state_frame [OF that] by (simp add: fine_def st_def)
  have after: "fine (snd (after_ack st cum credit h adv m b))" if "sh_state b = sh_state a" for cum credit h adv m b
  proof -
    have p: "fine (snd (postprocess_sack st w c))" if "sh_state c = sh_state a" for w and c :: association
      using postprocess_sack_state [of st w c] get_state_frame [OF that] by (simp add: fine_def st_def)
    let ?b = "update_rwnd credit (release_buffers m b)"
    let ?f = "process_fast_retransmission cum h adv ?b"
    have f: "sh_state (snd ?f) = sh_state a" using that by simp
    show ?thesis
    proof (cases "fst ?f")
      case (Ok x)
      then obtain c where c: "?f = (Ok (), c)" by (cases ?f) simp
      have "fine (snd (postprocess_sack st adv (forward_ack_point c)))" using f by (intro p) (simp add: c)
      then show ?thesis
        by (cases "postprocess_sack st adv (forward_ack_point c)"; cases "fst (postprocess_sack st adv (forward_ack_point c))")
          (simp_all add: after_ack_def c)
    qed (use frame [OF f] in \<open>cases ?f; simp add: after_ack_def\<close>)+
  qed
  let ?r = "process_selective_ack rnd now d (a\<lparr>as_stats := inc_sacks (as_stats a)\<rparr>)"
  have r: "sh_state (snd ?r) = sh_state a" by simp
  have "fine (snd (handle_sack rnd now d a))"
  proof (cases "fst ?r")
    case (Ok x)
    obtain m h b where mh: "?r = (Ok (m, h), b)" using Ok by (metis prod.collapse surj_pair)
    have b: "sh_state b = sh_state a" using r by (simp add: mh)
    let ?c = "b\<lparr>as_cumulative_tsn_ack_point := sa_cumulative_tsn_ack d\<rparr>"
    let ?s = "on_cumulative_tsn_ack_point_advanced (sum_list (hm_values m)) ?c"
    have s: "sh_state (snd ?s) = sh_state a" using b by simp
    show ?thesis
      using True after b s frame [OF s]
      by (cases ?s; cases "fst ?s") (auto simp: handle_sack_continue mh st_def [symmetric] Let_def)
  next
    case (Err e)
    then show ?thesis using True frame [OF r] by (cases ?r) (simp add: handle_sack_continue)
  next
    case Panic
    then show ?thesis using True frame [OF r] by (cases ?r) (simp add: handle_sack_continue)
  qed
  then show ?thesis by (auto simp: fine_def st_def)
next
  case False
  then show ?thesis by (auto simp: sack_states_def handle_sack_def Let_def get_state_def)
qed

lemma handle_checked_chunk_state:
  "get_state (snd (handle_checked_chunk rnd now random32 p c a)) = get_state a \<or>
    chunk_transition c (get_state a) (get_state (snd (handle_checked_chunk rnd now random32 p c a)))"
proof (cases c)
  case (ChunkInit i)
  have "get_state (snd (handle_init_ack p i a)) = get_state a \<or>
      get_state a = CookieWait \<and> get_state (snd (handle_init_ack p i a)) = CookieEchoed"
    by (auto simp: handle_init_ack_def Let_def push_control_def split: option.split)
      (auto simp: get_state_def association_state_of_u8_def)
  moreover have "get_state (snd (handle_init random32 p i a)) = get_state a" by (rule get_state_frame) simp
  ultimately show ?thesis by (auto simp: ChunkInit handle_checked_chunk_def)
next
  case (ChunkCookieEcho ck)
  show ?thesis
    by (auto simp: ChunkCookieEcho handle_checked_chunk_def handle_cookie_echo_def handshake_completed_def
        Let_def split: option.split) (auto simp: get_state_def association_state_of_u8_def)
next
  case ChunkCookieAck
  show ?thesis
    by (auto simp: ChunkCookieAck handle_checked_chunk_def handle_cookie_ack_def handshake_completed_def Let_def)
      (auto simp: get_state_def association_state_of_u8_def)
next
  case (ChunkSelectiveAck d)
  then show ?thesis using handle_sack_state by (simp add: handle_checked_chunk_def)
next
  case (ChunkShutdown x)
  show ?thesis
    by (cases "payload_queue_is_empty (as_inflight_queue a)")
      (auto simp: ChunkShutdown handle_checked_chunk_def handle_shutdown_def Let_def)
next
  case ChunkShutdownAck
  show ?thesis
    by (auto simp: ChunkShutdownAck handle_checked_chunk_def handle_shutdown_ack_def Let_def) (auto simp: get_state_def association_state_of_u8_def)
next
  case ChunkShutdownComplete
  show ?thesis
    by (auto simp: ChunkShutdownComplete handle_checked_chunk_def handle_shutdown_complete_def Let_def)
qed (auto simp: handle_checked_chunk_def intro!: get_state_frame)

section \<open>The retransmission timeout\<close>

lemma mark_all_get:
  "payload_queue_get (payload_queue_mark_all_to_retrasmit cs q) t =
    map_option (\<lambda>c. if pd_acked c \<or> payload_data_abandoned cs c then c else c\<lparr>pd_retransmit := True\<rparr>)
      (payload_queue_get q t)"
proof -
  have "map_of (map (\<lambda>(t, c). (t, f c)) m) t = map_option f (map_of m t)" for f and m :: "(u32, payload_data) hmap"
    by (induction m) auto
  then show ?thesis by (simp add: payload_queue_get_def payload_queue_mark_all_to_retrasmit_def)
qed

lemma mark_all_inv:
  assumes "pq_inv b q"
  shows "pq_inv b (payload_queue_mark_all_to_retrasmit cs q)"
proof -
  let ?f = "\<lambda>(t, c). (t, if pd_acked c \<or> payload_data_abandoned cs c then c else c\<lparr>pd_retransmit := True\<rparr>)"
  have k: "map fst (map ?f m) = map fst m" for m :: "(u32, payload_data) hmap" by (induction m) auto
  have n: "queued_bytes (map ?f m) = queued_bytes m" for m :: "(u32, payload_data) hmap"
    by (induction m) (auto simp: queued_bytes_def)
  have l: "list_all (\<lambda>(t, p). pd_tsn p = t) (map ?f m) = list_all (\<lambda>(t, p). pd_tsn p = t) m"
    for m :: "(u32, payload_data) hmap" by (induction m) auto
  show ?thesis
    using assms unfolding pq_inv_def payload_queue_mark_all_to_retrasmit_def
    by (simp add: k n l del: list.map_comp map_map)
qed

lemma t3_timeout_effect:
  assumes "flight_inv a" and "a' = on_retransmission_timeout T3RTX a"
  shows "flight_inv a' \<and> get_state a' = get_state a \<and> sender_view a' = sender_view a \<and> sh_awake a' \<and>
    as_cwnd a' = as_mtu a \<and> as_ssthresh a' = max (as_cwnd a div 2) (4 * as_mtu a) \<and>
    (\<forall>t. payload_queue_get (as_inflight_queue a') t =
      map_option (\<lambda>c. if pd_acked c \<or> payload_data_abandoned (sh_cells a) c then c else c\<lparr>pd_retransmit := True\<rparr>)
        (payload_queue_get (as_inflight_queue a) t))"
proof -
  define b where "b = a\<lparr>as_stats := inc_t3timeouts (as_stats a),
      as_ssthresh := max (as_cwnd a div 2) (4 * as_mtu a), as_cwnd := as_mtu a\<rparr>"
  define c where "c = (if as_use_forward_tsn b then advance_peer_ack_point b else b)"
  have "sh_cells (advance_peer_ack_loop n i x) = sh_cells x \<and> as_cwnd (advance_peer_ack_loop n i x) = as_cwnd x \<and>
      as_ssthresh (advance_peer_ack_loop n i x) = as_ssthresh x \<and> as_mtu (advance_peer_ack_loop n i x) = as_mtu x" for n i x
    by (induction n i x rule: advance_peer_ack_loop.induct) (auto split: option.splits)
  then have p: "sh_cells (advance_peer_ack_point b) = sh_cells b" "as_cwnd (advance_peer_ack_point b) = as_cwnd b"
      "as_ssthresh (advance_peer_ack_point b) = as_ssthresh b"
    by (simp_all add: advance_peer_ack_point_def Let_def)
  have c: "sender_view c = sender_view a" "sh_state c = sh_state a" "as_inflight_queue c = as_inflight_queue a"
      "sh_cells c = sh_cells a" "as_cwnd c = as_mtu a" "as_ssthresh c = max (as_cwnd a div 2) (4 * as_mtu a)"
    by (simp_all add: c_def p) (simp_all add: b_def sender_view_def)
  have a': "a' = awake_write_loop (c\<lparr>as_inflight_queue :=
      payload_queue_mark_all_to_retrasmit (sh_cells c) (as_inflight_queue c)\<rparr>)"
    using assms(2) by (simp add: on_retransmission_timeout_def b_def [symmetric] c_def Let_def)
  have v: "sender_view a' = sender_view a" "as_inflight_queue a' = payload_queue_mark_all_to_retrasmit (sh_cells a) (as_inflight_queue a)"
    using c by (simp_all add: a' awake_write_loop_def sender_view_def)
  have "flight_inv a'"
    using assms(1) mark_all_get [of "sh_cells a" "as_inflight_queue a"] v(1)
    by (auto simp: flight_inv_def flight_base_def v(2) mark_all_inv contiguous_def sender_view_def short_def payload_queue_get_def
        split: if_splits)
  then show ?thesis using v c get_state_frame [of a' a] by (simp add: mark_all_get) (simp add: a' awake_write_loop_def)
qed

text \<open>C17: when the T3-rtx timer expires, the congestion window falls back to one MTU and the slow start
  threshold to half of it (but 4 MTU at least), every chunk in flight that is neither acknowledged
  nor abandoned is marked for retransmission, no chunk is lost, no TSN and nothing of the pending
  data is touched, and the write loop is woken; the sender's invariant and the state are kept.\<close>

theorem t3_timeout:
  assumes "flight_inv a" and "a' = on_retransmission_timeout T3RTX a"
  shows "flight_inv a' \<and> get_state a' = get_state a \<and> sender_view a' = sender_view a \<and> sh_awake a' \<and>
    as_cwnd a' = as_mtu a \<and> as_ssthresh a' = max (as_cwnd a div 2) (4 * as_mtu a) \<and>
    (\<forall>t. payload_queue_get (as_inflight_queue a') t =
      map_option (\<lambda>c. if pd_acked c \<or> payload_data_abandoned (sh_cells a) c then c else c\<lparr>pd_retransmit := True\<rparr>)
        (payload_queue_get (as_inflight_queue a) t))"
  using assms by (rule t3_timeout_effect)

theorem t3_timeout_witness:
  "as_cwnd (on_retransmission_timeout T3RTX example_flight) = as_mtu example_flight \<and>
    flight_inv (on_retransmission_timeout T3RTX example_flight)"
  using t3_timeout [OF example_flight_inv(1) HOL.refl] by simp

end
