(* ===== verification/Session.thy ===== *)
theory Session
  imports Dispatch
begin

text \<open>
  Two associations that exchange packets: what the write loop of one end encodes is what the read
  loop of the other end decodes.  The handlers, \<^verbatim>\<open>gather_outbound\<close>, the wire formats and
  the dispatch are the definitions of the other theories; only \<open>transmit\<close>, the network between
  two ends, is new here.
\<close>

section \<open>The state machine of inbound chunks\<close>

text \<open>C16: whatever chunk arrives in whatever state, and however its handler ends, the association is
  afterwards in the state it was in or in one that \<open>chunk_transition\<close> allows for this chunk: INIT-ACK
  takes CookieWait to CookieEchoed, COOKIE-ECHO and COOKIE-ACK establish, SACK and SHUTDOWN drive the
  shutdown, SHUTDOWN-COMPLETE closes, and nothing else changes it.\<close>

theorem handle_chunk_transition:
  "get_state (snd (handle_chunk rnd now random32 p c a)) = get_state a \<or>
    chunk_transition c (get_state a) (get_state (snd (handle_chunk rnd now random32 p c a)))"
proof (cases "chunk_check c")
  case (Ok u)
  obtain r b where r: "handle_checked_chunk rnd now random32 p c a = (r, b)" by fastforce
  then have "get_state (snd (handle_chunk rnd now random32 p c a)) = get_state b"
    by (cases r) (simp_all add: handle_chunk_def Ok get_state_def)
  then show ?thesis using handle_checked_chunk_state [of rnd now random32 p c a] r by simp
qed (simp_all add: handle_chunk_def)

section \<open>Packets between two ends\<close>

lemma check_packet_view:
  "check_packet (packet_view now p) = check_packet p"
proof -
  have "check_packet_chunks (packet_view now p) (map (chunk_view now) cs) = check_packet_chunks p cs" for cs
    by (induction cs) (auto simp: packet_view_def split: chunk.split)
  then show ?thesis by (simp add: check_packet_def) (simp add: packet_view_def)
qed

lemma handle_inbound_marshalled:
  assumes "packet_marshal crc p = Ok raw" and "chunks_wf (pk_chunks p)" and "check_packet p = Ok ()"
  shows "handle_inbound crc rnd now random32 raw a =
    then_do (handle_chunks rnd now random32 (packet_view now p) (map (chunk_view now) (pk_chunks p))
        (handle_chunk_start a)) (\<lambda>_ a. (Ok (), handle_chunk_end a))"
  using packet_marshal_unmarshal [OF assms(2), of crc now] assms(1,3)
  by (auto simp: handle_inbound_def check_packet_view) (simp add: packet_view_def)

lemma handle_chunks_tag:
  "handle_chunks rnd now random32 (p\<lparr>pk_verification_tag := t\<rparr>) cs a = handle_chunks rnd now random32 p cs a"
proof -
  have "handle_checked_chunk rnd now random32 (p\<lparr>pk_verification_tag := t\<rparr>) c a =
      handle_checked_chunk rnd now random32 p c a" for c a
    by (cases c) (simp_all add: handle_checked_chunk_def handle_init_def handle_init_ack_def)
  then have h: "handle_chunk rnd now random32 (p\<lparr>pk_verification_tag := t\<rparr>) c a =
      handle_chunk rnd now random32 p c a" for c a by (simp add: handle_chunk_def)
  have "handle_chunks rnd now random32 (p\<lparr>pk_verification_tag := t\<rparr>) cs =
      handle_chunks rnd now random32 p cs"
  proof (induction cs)
    case (Cons c cs)
    show ?case by (rule ext) (simp add: h Cons.IH)
  qed (simp add: fun_eq_iff)
  then show ?thesis by simp
qed

text \<open>C34: the verification tag of an inbound packet is not looked at: two packets that differ in it
  only, both well formed, have the same effect on every association.\<close>

theorem verification_tag_ignored:
  assumes "chunks_wf (pk_chunks p)" and "check_packet p = Ok ()" and "check_packet (p\<lparr>pk_verification_tag := t\<rparr>) = Ok ()"
    and "packet_marshal crc p = Ok raw" and "packet_marshal crc (p\<lparr>pk_verification_tag := t\<rparr>) = Ok raw'"
  shows "handle_inbound crc rnd now random32 raw' a = handle_inbound crc rnd now random32 raw a"
proof -
  have "packet_view now (p\<lparr>pk_verification_tag := t\<rparr>) = (packet_view now p)\<lparr>pk_verification_tag := t\<rparr>"
    by (simp add: packet_view_def)
  then show ?thesis
    using handle_inbound_marshalled [OF assms(5) _ assms(3)] handle_inbound_marshalled [OF assms(4,1,2)]
      assms(1) by (simp add: handle_chunks_tag)
qed

definition example_abort :: packet where
  "example_abort = \<lparr>pk_source_port = 5000, pk_destination_port = 5000, pk_verification_tag = 7,
     pk_chunks = [ChunkAbort []]\<rparr>"

theorem verification_tag_ignored_witness:
  "\<exists>raw raw'. packet_marshal (\<lambda>_. 0) example_abort = Ok raw \<and>
    packet_marshal (\<lambda>_. 0) (example_abort\<lparr>pk_verification_tag := 8\<rparr>) = Ok raw' \<and>
    handle_inbound (\<lambda>_. 0) (\<lambda>x. x) 0 [] raw' example_sender = handle_inbound (\<lambda>_. 0) (\<lambda>x. x) 0 [] raw example_sender"
proof -
  have wf: "chunks_wf (pk_chunks example_abort)" "chunks_wf (pk_chunks (example_abort\<lparr>pk_verification_tag := 8\<rparr>))"
    by (simp_all add: example_abort_def chunk_abort_value_length_def)
  obtain raw raw' where r: "packet_marshal (\<lambda>_. 0) example_abort = Ok raw"
      "packet_marshal (\<lambda>_. 0) (example_abort\<lparr>pk_verification_tag := 8\<rparr>) = Ok raw'"
    using packet_marshal_unmarshal [OF wf(1)] packet_marshal_unmarshal [OF wf(2)] by blast
  have "handle_inbound (\<lambda>_. 0) (\<lambda>x. x) 0 [] raw' example_sender = handle_inbound (\<lambda>_. 0) (\<lambda>x. x) 0 [] raw example_sender"
    by (rule verification_tag_ignored [OF wf(1) _ _ r]) (simp_all add: example_abort_def check_packet_def)
  then show ?thesis using r by blast
qed

section \<open>The network between two ends\<close>

text \<open>
  The read loop over the datagrams that arrive, until one ends it; a transmission is a round of
  the sender's write loop whose packets all reach the receiver's read loop, in order.
\<close>

fun read_loop ::
  "(bytes \<Rightarrow> u32) \<Rightarrow> (real \<Rightarrow> real) \<Rightarrow> time_ms \<Rightarrow> bytes \<Rightarrow> bytes list \<Rightarrow> association \<Rightarrow> association" where
  "read_loop crc rnd now random32 [] b = b"
| "read_loop crc rnd now random32 (raw # raws) b =
     (case read_loop_round crc rnd now random32 raw b of
        (Ok True, b) \<Rightarrow> read_loop crc rnd now random32 raws b
      | (_, b) \<Rightarrow> b)"

definition transmit ::
  "(bytes \<Rightarrow> u32) \<Rightarrow> (real \<Rightarrow> real) \<Rightarrow> time_ms \<Rightarrow> bytes \<Rightarrow> association \<Rightarrow> association
    \<Rightarrow> (association \<times> association) option" where
  "transmit crc rnd now random32 a b =
     (case write_loop_round crc now True a of
        Some (Ok (raws, _), a) \<Rightarrow> Some (a, read_loop crc rnd now random32 raws b)
      | _ \<Rightarrow> None)"

text \<open>What a packet that is decoded does.\<close>

definition receive ::
  "(real \<Rightarrow> real) \<Rightarrow> time_ms \<Rightarrow> bytes \<Rightarrow> packet \<Rightarrow> association \<Rightarrow> association" where
  "receive rnd now random32 p b =
     (case then_do (handle_chunks rnd now random32 p (pk_chunks p) (handle_chunk_start b))
             (\<lambda>_ b. (Ok (), handle_chunk_end b)) of
        (Ok _, b) \<Rightarrow> b
      | (Err _, b) \<Rightarrow> association_close b
      | (Panic, b) \<Rightarrow> b)"

lemma read_loop_one:
  assumes "packet_marshal crc p = Ok raw" and "chunks_wf (pk_chunks p)" and "check_packet p = Ok ()"
  shows "read_loop crc rnd now random32 [raw] b = receive rnd now random32 (packet_view now p) b"
proof -
  let ?r = "then_do (handle_chunks rnd now random32 (packet_view now p) (map (chunk_view now) (pk_chunks p))
        (handle_chunk_start b)) (\<lambda>_ b. (Ok (), handle_chunk_end b))"
  have "pk_chunks (packet_view now p) = map (chunk_view now) (pk_chunks p)" by (simp add: packet_view_def)
  then show ?thesis
    by (cases ?r; cases "fst ?r")
      (simp_all add: handle_inbound_marshalled [OF assms] read_loop_round_def receive_def)
qed

text \<open>An association with nothing to send but its control packets.\<close>

definition quiet :: "association \<Rightarrow> bool" where
  "quiet a \<longleftrightarrow> as_inflight_queue a = payload_queue_new \<and> sh_pending_queue a = pending_queue_new \<and>
     \<not> as_will_retransmit_fast a \<and> as_ack_state a = Ack_Idle \<and> \<not> as_will_send_forward_tsn a \<and>
     \<not> as_will_retransmit_reconfig a \<and> \<not> as_will_send_shutdown a \<and> \<not> as_will_send_shutdown_ack a \<and>
     \<not> as_will_send_shutdown_complete a"

lemma empty_queues [simp]:
  "payload_queue_get payload_queue_new t = None" "pending_queue_len pending_queue_new = 0"
  "pq_chunk_map payload_queue_new = []" "payload_queue_is_empty payload_queue_new = Ok True"
  by (simp_all add: payload_queue_get_def payload_queue_new_def payload_queue_is_empty_def payload_queue_len_def
      pending_queue_new_def pending_queue_len_def)

lemma gather_nothing:
  assumes "as_inflight_queue a = payload_queue_new"
  shows "gather_data_packets_to_retransmit crc now r a = (r, a)"
    and "\<not> as_will_retransmit_fast a \<Longrightarrow> gather_outbound_fast_retransmission_packets crc now r a = (r, a)"
    and "sh_pending_queue a = pending_queue_new \<Longrightarrow> \<not> as_will_retransmit_reconfig a \<Longrightarrow>
      gather_outbound_data_and_reconfig_packets crc now r a = Some (Ok r, a)"
    and "as_ack_state a = Ack_Idle \<Longrightarrow> gather_outbound_sack_packets crc r a = (r, a)"
    and "\<not> as_will_send_forward_tsn a \<Longrightarrow> gather_outbound_forward_tsn_packets crc r a = (r, a)"
  using assms
  by (simp_all add: gather_data_packets_to_retransmit_def get_data_packets_to_retransmit_def
      gather_outbound_fast_retransmission_packets_def gather_outbound_data_and_reconfig_packets_def
      gather_outbound_sack_packets_def gather_outbound_forward_tsn_packets_def gather_reconfig_packets_def
      pop_pending_data_chunks_to_send_def inflight_fuel_def bundle_data_chunks_into_packets_def Let_def)

lemma get_state_control [simp]: "get_state (a\<lparr>as_control_queue := ps\<rparr>) = get_state a"
  by (simp add: get_state_def)

lemma gather_quiet:
  assumes "quiet a"
  shows "gather_outbound crc now a =
    Some (Ok (foldl (push_raw crc) [] (as_control_queue a), True), a\<lparr>as_control_queue := []\<rparr>)"
  using assms
  by (cases "get_state a") (simp_all add: quiet_def gather_outbound_def gather_nothing
      gather_outbound_shutdown_packets_def Let_def)

lemma transmit_quiet:
  assumes "quiet a" and "as_control_queue a = [p]" and "chunks_wf (pk_chunks p)" and "check_packet p = Ok ()"
  shows "transmit crc rnd now random32 a b =
    Some (a\<lparr>as_control_queue := []\<rparr>, receive rnd now random32 (packet_view now p) b)"
proof -
  obtain raw where raw: "packet_marshal crc p = Ok raw" using packet_marshal_unmarshal [OF assms(3)] by blast
  then show ?thesis
    using read_loop_one [OF raw assms(3,4)] assms(2)
    by (simp add: transmit_def write_loop_round_def gather_quiet [OF assms(1)] push_raw_def)
qed

section \<open>The handshake\<close>

definition exchange ::
  "(bytes \<Rightarrow> u32) \<Rightarrow> (real \<Rightarrow> real) \<Rightarrow> time_ms \<Rightarrow> bytes \<Rightarrow> association \<times> association
    \<Rightarrow> (association \<times> association) option" where
  "exchange crc rnd now random32 = (\<lambda>(a, b).
     case transmit crc rnd now random32 a b of Some (a, b) \<Rightarrow> Some (b, a) | None \<Rightarrow> None)"

text \<open>Four packets, INIT, INIT-ACK, COOKIE-ECHO and COOKIE-ACK, the ends taking turns.\<close>

definition handshake ::
  "(bytes \<Rightarrow> u32) \<Rightarrow> (real \<Rightarrow> real) \<Rightarrow> time_ms \<Rightarrow> bytes \<Rightarrow> association \<times> association
    \<Rightarrow> (association \<times> association) option" where
  "handshake crc rnd now random32 ab =
     Option.bind (exchange crc rnd now random32 ab) (\<lambda>ab.
     Option.bind (exchange crc rnd now random32 ab) (\<lambda>ab.
     Option.bind (exchange crc rnd now random32 ab) (exchange crc rnd now random32)))"

definition half_open :: "association \<Rightarrow> association \<Rightarrow> bool" where
  "half_open a b \<longleftrightarrow> as_peer_verification_tag a = as_my_verification_tag b \<and>
     as_peer_last_tsn a = as_my_next_tsn b - 1"

definition ports_5000 :: "association \<Rightarrow> bool" where
  "ports_5000 a \<longleftrightarrow> as_source_port a = 5000 \<and> as_destination_port a = 5000"

definition all_streams :: "association \<Rightarrow> bool" where
  "all_streams a \<longleftrightarrow> as_my_max_num_inbound_streams a = - 1 \<and> as_my_max_num_outbound_streams a = - 1"

definition no_acks_due :: "association \<Rightarrow> bool" where
  "no_acks_due a \<longleftrightarrow> \<not> as_delayed_ack_triggered a \<and> \<not> as_immediate_ack_triggered a"

definition own :: "association \<Rightarrow> u32 \<times> u32 \<times> u32" where
  "own a = (as_my_verification_tag a, as_my_next_tsn a, as_max_receive_buffer_size a)"

text \<open>The data path as an association is created with.\<close>

definition fresh_data :: "config \<Rightarrow> association \<Rightarrow> bool" where
  "fresh_data cf a \<longleftrightarrow> as_mtu a = 1228 \<and> as_cwnd a = 4380 \<and> as_max_payload_size a = 1200 \<and>
     sh_max_message_size a =
       (if cf_max_message_size cf = 0 then DEFAULT_MAX_MESSAGE_SIZE else cf_max_message_size cf) \<and>
     as_streams a = [] \<and> as_accept_ch a = [] \<and> as_payload_queue a = payload_queue_new \<and>
     as_reconfig_requests a = [] \<and> as_ack_mode a = Ack_Normal \<and> as_ack_timer a = ack_timer_new \<and>
     as_cumulative_tsn_ack_point a = as_my_next_tsn a - 1 \<and>
     as_advanced_peer_tsn_ack_point a = as_my_next_tsn a - 1 \<and> \<not> as_in_fast_recovery a \<and> no_acks_due a"

lemmas session_preds = half_open_def ports_5000_def all_streams_def no_acks_due_def own_def quiet_def

definition credit_of :: "config \<Rightarrow> u32" where
  "credit_of cf = (if cf_max_receive_buffer_size cf = 0 then INITIAL_RECV_BUF_SIZE else cf_max_receive_buffer_size cf)"

definition tsn_of :: "u32 \<Rightarrow> u32" where
  "tsn_of random_tsn = (if random_tsn = 0 then 1 else random_tsn)"

definition init_of :: "association \<Rightarrow> chunk_init" where
  "init_of a = init_set_supported_extensions (chunk_init_default
     \<lparr>ci_initial_tsn := as_my_next_tsn a, ci_num_outbound_streams := - 1, ci_num_inbound_streams := - 1,
      ci_initiate_tag := as_my_verification_tag a, ci_advertised_receiver_window_credit := as_max_receive_buffer_size a\<rparr>)"

definition init_ack_of :: "bytes \<Rightarrow> association \<Rightarrow> chunk_init" where
  "init_ack_of random32 a = (init_of a)\<lparr>ci_is_ack := True,
     ci_params := ParamStateCookie (param_state_cookie_new random32) # ci_params (init_of a)\<rparr>"

definition packet_5000 :: "u32 \<Rightarrow> chunk \<Rightarrow> packet" where
  "packet_5000 tag c = \<lparr>pk_source_port = 5000, pk_destination_port = 5000, pk_verification_tag = tag, pk_chunks = [c]\<rparr>"

lemma association_new_client:
  assumes "association_new cf True random_tsn random_tag = (r, a)"
  shows "r = Ok ()" and "get_state a = CookieWait" and "quiet a" and "ports_5000 a" and "all_streams a"
    and "own a = (random_tag, tsn_of random_tsn, credit_of cf)"
    and "as_control_queue a = [packet_5000 0 (ChunkInit (init_of a))]"
    and "as_handshake_completed_ch a = []" and "fresh_data cf a"
  using assms
  by (auto simp: association_new_def association_open_def association_init_def Let_def association_internal_new_def send_init_def push_control_def
      create_packet_def session_preds get_state_def association_state_of_u8_def set_state_def awake_write_loop_def
      tsn_of_def credit_of_def packet_5000_def init_of_def fresh_data_def INITIAL_MTU_def COMMON_HEADER_SIZE_def
      DATA_CHUNK_HEADER_SIZE_def)

lemma association_new_server:
  assumes "association_new cf False random_tsn random_tag = (r, a)"
  shows "r = Ok ()" and "get_state a = Closed" and "quiet a" and "all_streams a"
    and "own a = (random_tag, tsn_of random_tsn, credit_of cf)"
    and "as_control_queue a = []" and "as_my_cookie a = None" and "as_rwnd a = 0" and "as_ssthresh a = 0"
    and "as_handshake_completed_ch a = []" and "fresh_data cf a"
  using assms
  by (auto simp: association_new_def association_open_def association_init_def Let_def association_internal_new_def
      session_preds get_state_def association_state_of_u8_def tsn_of_def credit_of_def fresh_data_def
      INITIAL_MTU_def COMMON_HEADER_SIZE_def DATA_CHUNK_HEADER_SIZE_def)

text \<open>The effect of each of the four packets.\<close>

lemma get_state_flags [simp]:
  "get_state (a\<lparr>as_delayed_ack_triggered := x, as_immediate_ack_triggered := y\<rparr>) = get_state a"
  by (simp add: get_state_def)

lemma awake_fields [simp]: "awake_write_loop (a :: association) = a\<lparr>sh_awake := True\<rparr>"
  by (simp add: awake_write_loop_def)

lemma receive_single:
  assumes "pk_chunks p = [c]" and "chunk_check c = Ok ()"
    and "handle_checked_chunk rnd now random32 p c (handle_chunk_start b) = (Ok ps, b')" and "no_acks_due b'"
  shows "receive rnd now random32 p b =
    (if ps \<noteq> [] then awake_write_loop (b'\<lparr>as_control_queue := as_control_queue b' @ ps\<rparr>) else b')"
  using assms(4)
  by (simp add: receive_def assms(1-3) handle_chunk_def handle_chunk_end_def no_acks_due_def)

definition init_received :: "bytes \<Rightarrow> association \<Rightarrow> association \<Rightarrow> association" where
  "init_received random32 a b = b\<lparr>as_delayed_ack_triggered := False, as_immediate_ack_triggered := False,
     as_peer_verification_tag := as_my_verification_tag a, as_source_port := 5000, as_destination_port := 5000,
     as_peer_last_tsn := as_my_next_tsn a - 1, as_use_forward_tsn := True,
     as_my_cookie := Some (param_state_cookie_new random32), sh_awake := True,
     as_control_queue := [packet_5000 (as_my_verification_tag a) (ChunkInit (init_ack_of random32 b))]\<rparr>"

lemma init_of_fields [simp]:
  "ci_is_ack (init_of a) = False" "ci_num_inbound_streams (init_of a) = - 1"
  "ci_num_outbound_streams (init_of a) = - 1" "ci_initiate_tag (init_of a) = as_my_verification_tag a"
  "ci_initial_tsn (init_of a) = as_my_next_tsn a" "supports_forward_tsn (ci_params (init_of a))"
  "ci_advertised_receiver_window_credit (init_of a) = as_max_receive_buffer_size a"
  "ci_params (init_of a) = [ParamSupportedExtensions [CT_RECONFIG, CT_FORWARD_TSN]]"
  by (simp_all add: init_of_def init_set_supported_extensions_def chunk_init_default_def supports_forward_tsn_def)

lemma last_tsn_before_eq [simp]: "last_tsn_before t = t - 1"
  by (simp add: last_tsn_before_def)

lemma receive_init:
  assumes "get_state b = Closed" and "all_streams b" and "as_control_queue b = []" and "as_my_cookie b = None"
    and "as_my_verification_tag a \<noteq> 0" and "1500 \<le> as_max_receive_buffer_size a"
  shows "receive rnd now random32 (packet_5000 0 (ChunkInit (init_of a))) b = init_received random32 a b"
proof -
  let ?p = "packet_5000 0 (ChunkInit (init_of a))"
  let ?reply = "packet_5000 (as_my_verification_tag a) (ChunkInit (init_ack_of random32 b))"
  have ack: "init_set_supported_extensions (chunk_init_default
      \<lparr>ci_is_ack := True, ci_initial_tsn := as_my_next_tsn b, ci_num_outbound_streams := - 1,
       ci_num_inbound_streams := - 1, ci_initiate_tag := as_my_verification_tag b,
       ci_advertised_receiver_window_credit := as_max_receive_buffer_size b,
       ci_params := [ParamStateCookie (param_state_cookie_new random32)]\<rparr>) = init_ack_of random32 b"
    by (simp add: init_ack_of_def) (simp add: init_of_def init_set_supported_extensions_def chunk_init_default_def)
  have sup: "supports_forward_tsn [ParamSupportedExtensions [CT_RECONFIG, CT_FORWARD_TSN]]"
    by (simp add: supports_forward_tsn_def)
  have "handle_checked_chunk rnd now random32 ?p (ChunkInit (init_of a)) (handle_chunk_start b) =
      (Ok [?reply], (init_received random32 a b)\<lparr>as_control_queue := [], sh_awake := sh_awake b\<rparr>)"
    using assms sup
    by (simp add: handle_checked_chunk_def handle_init_def handle_chunk_start_def Let_def create_packet_def
        packet_5000_def init_received_def all_streams_def ack)
  then show ?thesis
    using assms(5,6)
    by (subst receive_single [where c = "ChunkInit (init_of a)"])
      (auto simp: packet_5000_def init_check_iff no_acks_due_def init_received_def)
qed

definition init_ack_received :: "bytes \<Rightarrow> association \<Rightarrow> association \<Rightarrow> association" where
  "init_ack_received random32 b a = a\<lparr>as_delayed_ack_triggered := False, as_immediate_ack_triggered := False,
     as_peer_verification_tag := as_my_verification_tag b, as_peer_last_tsn := as_my_next_tsn b - 1,
     as_rwnd := as_max_receive_buffer_size b, as_ssthresh := as_max_receive_buffer_size b,
     as_t1init := rtx_timer_stop (as_t1init a), as_stored_init := None, as_use_forward_tsn := True,
     as_stored_cookie_echo := Some (param_state_cookie_new random32), sh_awake := True,
     as_control_queue := [packet_5000 (as_my_verification_tag b) (ChunkCookieEcho (param_state_cookie_new random32))],
     as_t1cookie := snd (rtx_timer_start (as_t1cookie a) (rto_manager_get_rto (as_rto_mgr a))),
     sh_state := u8_of_association_state CookieEchoed\<rparr>"

lemma receive_init_ack:
  assumes "get_state a = CookieWait" and "all_streams a" and "ports_5000 a" and "as_control_queue a = []"
    and "as_my_verification_tag b \<noteq> 0" and "1500 \<le> as_max_receive_buffer_size b"
  shows "receive rnd now random32' (packet_5000 t (ChunkInit (init_ack_of random32 b))) a =
    init_ack_received random32 b a"
proof -
  let ?c = "ChunkInit (init_ack_of random32 b)"
  let ?p = "packet_5000 t ?c"
  have "handle_checked_chunk rnd now random32' ?p ?c (handle_chunk_start a) =
      (Ok [], init_ack_received random32 b a)"
    using assms(1-4)
    by (simp add: handle_checked_chunk_def handle_init_ack_def handle_chunk_start_def Let_def create_packet_def
        packet_5000_def init_ack_received_def all_streams_def init_ack_of_def ports_5000_def set_state_def
        cookie_param_def push_control_def supports_forward_tsn_def)
  then show ?thesis
    using assms(5,6)
    by (subst receive_single [where c = ?c])
      (auto simp: packet_5000_def init_check_iff no_acks_due_def init_ack_received_def init_ack_of_def)
qed

definition cookie_echo_received :: "association \<Rightarrow> association" where
  "cookie_echo_received b = b\<lparr>as_delayed_ack_triggered := False, as_immediate_ack_triggered := False,
     as_t1init := rtx_timer_stop (as_t1init b), as_stored_init := None,
     as_t1cookie := rtx_timer_stop (as_t1cookie b), as_stored_cookie_echo := None,
     sh_state := u8_of_association_state Established,
     as_handshake_completed_ch := as_handshake_completed_ch b @ [None], sh_awake := True,
     as_control_queue := [packet_5000 (as_peer_verification_tag b) ChunkCookieAck]\<rparr>"

lemma receive_cookie_echo:
  assumes "get_state b = Closed" and "ports_5000 b" and "as_control_queue b = []" and "as_my_cookie b = Some cookie"
  shows "receive rnd now random32 (packet_5000 t (ChunkCookieEcho cookie)) b = cookie_echo_received b"
proof -
  let ?c = "ChunkCookieEcho cookie"
  have "handle_checked_chunk rnd now random32 (packet_5000 t ?c) ?c (handle_chunk_start b) =
      (Ok [packet_5000 (as_peer_verification_tag b) ChunkCookieAck],
       (cookie_echo_received b)\<lparr>as_control_queue := [], sh_awake := sh_awake b\<rparr>)"
    using assms
    by (simp add: handle_checked_chunk_def handle_cookie_echo_def handle_chunk_start_def Let_def create_packet_def
        packet_5000_def cookie_echo_received_def ports_5000_def set_state_def handshake_completed_def)
  then show ?thesis
    by (subst receive_single [where c = ?c]) (auto simp: packet_5000_def no_acks_due_def cookie_echo_received_def)
qed

definition cookie_ack_received :: "association \<Rightarrow> association" where
  "cookie_ack_received a = a\<lparr>as_delayed_ack_triggered := False, as_immediate_ack_triggered := False,
     as_t1cookie := rtx_timer_stop (as_t1cookie a), as_stored_cookie_echo := None,
     sh_state := u8_of_association_state Established,
     as_handshake_completed_ch := as_handshake_completed_ch a @ [None]\<rparr>"

lemma receive_cookie_ack:
  assumes "get_state a = CookieEchoed"
  shows "receive rnd now random32 (packet_5000 t ChunkCookieAck) a = cookie_ack_received a"
proof -
  have "handle_checked_chunk rnd now random32 (packet_5000 t ChunkCookieAck) ChunkCookieAck (handle_chunk_start a) =
      (Ok [], cookie_ack_received a)"
    using assms
    by (simp add: handle_checked_chunk_def handle_cookie_ack_def handle_chunk_start_def Let_def
        packet_5000_def cookie_ack_received_def set_state_def handshake_completed_def)
  then show ?thesis
    by (subst receive_single [where c = ChunkCookieAck]) (auto simp: packet_5000_def no_acks_due_def cookie_ack_received_def)
qed

lemma exchange_quiet:
  assumes "quiet a" and "as_control_queue a = [packet_5000 t c]" and "chunk_wf c" and "chunk_view now c = c"
    and "check_packet (packet_5000 t c) = Ok ()"
  shows "exchange crc rnd now random32 (a, b) =
    Some (receive rnd now random32 (packet_5000 t c) b, a\<lparr>as_control_queue := []\<rparr>)"
proof -
  have "packet_view now (packet_5000 t c) = packet_5000 t c" by (simp add: packet_view_def packet_5000_def assms(4))
  then show ?thesis
    using transmit_quiet [OF assms(1,2) _ assms(5)] assms(3) by (simp add: exchange_def) (simp add: packet_5000_def)
qed

lemma check_packet_5000:
  "check_packet (packet_5000 t c) = Ok () \<longleftrightarrow> (case c of ChunkInit i \<Rightarrow> ci_is_ack i \<or> t = 0 | _ \<Rightarrow> True)"
  by (cases c) (simp_all add: check_packet_def packet_5000_def)

definition connected :: "association \<Rightarrow> association \<Rightarrow> bool" where
  "connected a b \<longleftrightarrow> get_state a = Established \<and> as_control_queue a = [] \<and> quiet a \<and> ports_5000 a \<and>
     as_peer_verification_tag a = as_my_verification_tag b \<and> as_peer_last_tsn a = as_my_next_tsn b - 1 \<and>
     as_use_forward_tsn a \<and> as_handshake_completed_ch a = [None]"

lemma handshake_connects:
  assumes "association_new cf True ctsn ctag = (r1, c)" and "association_new sf False stsn stag = (r2, s)"
    and "ctag \<noteq> 0" and "stag \<noteq> 0" and "1500 \<le> credit_of cf" and "1500 \<le> credit_of sf" and "length random32 = 32"
  shows "\<exists>c' s'. handshake crc rnd now random32 (c, s) = Some (c', s') \<and> connected c' s' \<and> connected s' c' \<and>
    own c' = (ctag, tsn_of ctsn, credit_of cf) \<and> own s' = (stag, tsn_of stsn, credit_of sf) \<and>
    as_rwnd c' = credit_of sf \<and> as_rwnd s' = 0 \<and> fresh_data cf c' \<and> fresh_data sf s'"
proof -
  note c = association_new_client [OF assms(1)] and s = association_new_server [OF assms(2)]
  let ?k = "param_state_cookie_new random32"
  have own: "as_my_verification_tag c = ctag" "as_my_verification_tag s = stag" "as_my_next_tsn c = tsn_of ctsn"
      "as_my_next_tsn s = tsn_of stsn" "as_max_receive_buffer_size c = credit_of cf"
      "as_max_receive_buffer_size s = credit_of sf"
    using c(6) s(5) by (simp_all add: own_def)
  define c1 where "c1 = c\<lparr>as_control_queue := []\<rparr>"
  define s1 where "s1 = init_received random32 c s"
  define s2 where "s2 = s1\<lparr>as_control_queue := []\<rparr>"
  define c2 where "c2 = init_ack_received random32 s c1"
  define c3 where "c3 = c2\<lparr>as_control_queue := []\<rparr>"
  define s3 where "s3 = cookie_echo_received s2"
  define s4 where "s4 = s3\<lparr>as_control_queue := []\<rparr>"
  define c4 where "c4 = cookie_ack_received c3"
  note defs = c1_def s1_def s2_def c2_def c3_def s3_def s4_def c4_def init_received_def init_ack_received_def
    cookie_echo_received_def cookie_ack_received_def
  have wf: "chunk_wf (ChunkInit (init_of c))" "chunk_wf (ChunkInit (init_ack_of random32 s))"
      "chunk_wf (ChunkCookieEcho ?k)"
    using assms(7)
    by (simp_all add: init_wf_def init_ack_of_def init_value_length_def param_state_cookie_new_def wire_defs get_padding_size_def PADDING_MULTIPLE_def)
  have e1: "exchange crc rnd now random32 (c, s) = Some (s1, c1)"
    using exchange_quiet [OF c(3,7) wf(1)] receive_init [OF s(2,4,6,7), of c] assms(3,5) own
    by (simp add: check_packet_5000 s1_def c1_def)
  have e2: "exchange crc rnd now random32 (s1, c1) = Some (c2, s2)"
    using exchange_quiet [of s1 ctag "ChunkInit (init_ack_of random32 s)"] wf(2) s c assms(4,6) own
      receive_init_ack [of c1 s]
    by (simp add: check_packet_5000 defs init_ack_of_def session_preds get_state_def association_state_of_u8_def)
  have e3: "exchange crc rnd now random32 (c2, s2) = Some (s3, c3)"
    using exchange_quiet [of c2 stag "ChunkCookieEcho ?k"] wf(3) c s own receive_cookie_echo [of s2 ?k]
    by (simp add: check_packet_5000 defs session_preds get_state_def association_state_of_u8_def)
  have e4: "exchange crc rnd now random32 (s3, c3) = Some (c4, s4)"
    using exchange_quiet [of s3 ctag ChunkCookieAck] c s own receive_cookie_ack [of c3]
    by (simp add: check_packet_5000 defs session_preds get_state_def association_state_of_u8_def)
  have "connected c4 s4" "connected s4 c4"
    using c s own
    by (simp_all add: connected_def defs session_preds get_state_def association_state_of_u8_def)
  moreover have "own c4 = (ctag, tsn_of ctsn, credit_of cf)" "own s4 = (stag, tsn_of stsn, credit_of sf)"
    using c s own by (simp_all add: defs own_def)
  moreover have "as_rwnd c4 = credit_of sf" "as_rwnd s4 = 0" using c s own by (simp_all add: defs)
  moreover have "fresh_data cf c4" "fresh_data sf s4" using c s by (simp_all add: defs fresh_data_def no_acks_due_def)
  moreover have "handshake crc rnd now random32 (c, s) = Some (c4, s4)"
    by (simp add: handshake_def e1 e2 e3 e4)
  ultimately show ?thesis by blast
qed

text \<open>C5: between two fresh ends whose tags are not 0 and whose buffers are large enough to be
  advertised, the four packets of the handshake establish both: each knows the other's tag and the
  TSN before its first one, both have agreed on FORWARD-TSN, each has reported success once to the
  task that waits for it, and nothing is left to send.  The client's receiver window is the
  server's buffer; the server's window for the client is still 0, for \<^verbatim>\<open>handle_init\<close> does not look at
  the credit the client advertised.\<close>

theorem handshake_establishes:
  assumes "association_new cf True ctsn ctag = (r1, c)" and "association_new sf False stsn stag = (r2, s)"
    and "ctag \<noteq> 0" and "stag \<noteq> 0" and "1500 \<le> credit_of cf" and "1500 \<le> credit_of sf" and "length random32 = 32"
  shows "\<exists>c' s'. handshake crc rnd now random32 (c, s) = Some (c', s') \<and> connected c' s' \<and> connected s' c' \<and>
    own c' = (ctag, tsn_of ctsn, credit_of cf) \<and> own s' = (stag, tsn_of stsn, credit_of sf) \<and>
    as_rwnd c' = credit_of sf \<and> as_rwnd s' = 0"
  using handshake_connects [OF assms] by blast

definition example_config :: config where
  "example_config = \<lparr>cf_max_receive_buffer_size = 0, cf_max_message_size = 0\<rparr>"

theorem handshake_establishes_witness:
  "\<exists>c' s'. handshake (\<lambda>_. 0) (\<lambda>x. x) 0 (replicate 32 0)
      (snd (association_new example_config True 10 1), snd (association_new example_config False 20 2)) =
        Some (c', s') \<and> connected c' s' \<and> connected s' c' \<and>
    own c' = (1, 10, 1048576) \<and> own s' = (2, 20, 1048576) \<and> as_rwnd c' = 1048576 \<and> as_rwnd s' = 0"
proof -
  have n: "association_new example_config True 10 1 = (Ok (), snd (association_new example_config True 10 1))"
      "association_new example_config False 20 2 = (Ok (), snd (association_new example_config False 20 2))"
    using association_new_client(1) association_new_server(1) by (metis prod.collapse)+
  have f: "credit_of example_config = 1048576" "tsn_of 10 = 10" "tsn_of 20 = 20"
    by (simp_all add: credit_of_def example_config_def INITIAL_RECV_BUF_SIZE_def tsn_of_def)
  show ?thesis
    using handshake_establishes [OF n, of "replicate 32 0" "\<lambda>_. 0" "\<lambda>x. x" 0] by (simp add: f)
qed

section \<open>The orderly shutdown\<close>

text \<open>Three packets: SHUTDOWN, SHUTDOWN-ACK and SHUTDOWN-COMPLETE.\<close>

definition shutdown_sequence ::
  "(bytes \<Rightarrow> u32) \<Rightarrow> (real \<Rightarrow> real) \<Rightarrow> time_ms \<Rightarrow> bytes \<Rightarrow> association \<times> association
    \<Rightarrow> (association \<times> association) option" where
  "shutdown_sequence crc rnd now random32 = (\<lambda>(a, b).
     Option.bind (exchange crc rnd now random32 (snd (association_shutdown a), b)) (\<lambda>ba.
     Option.bind (exchange crc rnd now random32 ba) (exchange crc rnd now random32)))"

lemma gather_shutdown:
  assumes "as_inflight_queue a = payload_queue_new" and "\<not> as_will_retransmit_fast a"
    and "as_ack_state a = Ack_Idle" and "as_control_queue a = []" and "get_state a \<in> {ShutdownSent, ShutdownAckSent}"
  shows "gather_outbound crc now a = Some (case gather_outbound_shutdown_packets crc [] a of (r, ok, a) \<Rightarrow> (Ok (r, ok), a))"
proof -
  have same: "a\<lparr>as_control_queue := []\<rparr> = a" using assms(4) by (intro association.equality) simp_all
  show ?thesis
    using assms gather_nothing [OF assms(1)] by (auto simp: gather_outbound_def same split: prod.split)
qed

definition next_shutdown :: "association \<Rightarrow> chunk \<times> bool \<times> association" where
  "next_shutdown a =
     (if as_will_send_shutdown a
      then (ChunkShutdown \<lparr>sd_cumulative_tsn_ack = as_cumulative_tsn_ack_point a\<rparr>, True,
            start_t2shutdown (a\<lparr>as_will_send_shutdown := False\<rparr>))
      else if as_will_send_shutdown_ack a
      then (ChunkShutdownAck, True, start_t2shutdown (a\<lparr>as_will_send_shutdown_ack := False\<rparr>))
      else (ChunkShutdownComplete, False, a\<lparr>as_will_send_shutdown_complete := False\<rparr>))"

lemma exchange_shutdown:
  assumes "as_inflight_queue a = payload_queue_new" and "\<not> as_will_retransmit_fast a"
    and "as_ack_state a = Ack_Idle" and "as_control_queue a = []" and "get_state a \<in> {ShutdownSent, ShutdownAckSent}"
    and "ports_5000 a"
    and "as_will_send_shutdown a \<or> as_will_send_shutdown_ack a \<or> as_will_send_shutdown_complete a"
    and "next_shutdown a = (c, ok, a')"
  shows "exchange crc rnd now random32 (a, b) =
    Some (receive rnd now random32 (packet_5000 (as_peer_verification_tag a) c) b,
      if ok then a' else association_close a')"
proof -
  let ?p = "packet_5000 (as_peer_verification_tag a) c"
  have c: "chunk_wf c" "chunk_view now c = c" "check_packet ?p = Ok ()"
    using assms(8) by (auto simp: next_shutdown_def check_packet_5000 split: if_splits)
  then have wf: "chunks_wf (pk_chunks ?p)" "packet_view now ?p = ?p"
    by (simp_all add: packet_5000_def packet_view_def)
  obtain raw where raw: "packet_marshal crc ?p = Ok raw" using packet_marshal_unmarshal [OF wf(1)] by blast
  have "gather_outbound_shutdown_packets crc [] a = ([raw], ok, a')"
    using assms(6-8) raw
    by (auto simp: gather_outbound_shutdown_packets_def next_shutdown_def create_packet_def ports_5000_def
        packet_5000_def Let_def split: if_splits)
  then show ?thesis
    using read_loop_one [OF raw wf(1) c(3)] wf(2)
    by (simp add: exchange_def transmit_def write_loop_round_def gather_shutdown [OF assms(1-5)])
qed


lemma receive_shutdown:
  assumes "get_state b = Established" and "as_inflight_queue b = payload_queue_new"
  shows "receive rnd now random32 (packet_5000 t (ChunkShutdown sd)) b =
    b\<lparr>as_delayed_ack_triggered := False, as_immediate_ack_triggered := False, sh_awake := True,
      as_will_send_shutdown_ack := True, sh_state := u8_of_association_state ShutdownAckSent\<rparr>"
proof -
  let ?b = "b\<lparr>as_delayed_ack_triggered := False, as_immediate_ack_triggered := False, sh_awake := True,
      as_will_send_shutdown_ack := True, sh_state := u8_of_association_state ShutdownAckSent\<rparr>"
  have "handle_checked_chunk rnd now random32 (packet_5000 t (ChunkShutdown sd)) (ChunkShutdown sd)
      (handle_chunk_start b) = (Ok [], ?b)"
    using assms
    by (simp add: handle_checked_chunk_def handle_shutdown_def handle_chunk_start_def Let_def set_state_def)
  then show ?thesis
    by (subst receive_single [where c = "ChunkShutdown sd"]) (auto simp: packet_5000_def no_acks_due_def)
qed

lemma receive_shutdown_ack:
  assumes "get_state b = ShutdownSent"
  shows "receive rnd now random32 (packet_5000 t ChunkShutdownAck) b =
    b\<lparr>as_delayed_ack_triggered := False, as_immediate_ack_triggered := False, sh_awake := True,
      as_t2shutdown := rtx_timer_stop (as_t2shutdown b), as_will_send_shutdown_complete := True\<rparr>"
proof -
  let ?b = "b\<lparr>as_delayed_ack_triggered := False, as_immediate_ack_triggered := False, sh_awake := True,
      as_t2shutdown := rtx_timer_stop (as_t2shutdown b), as_will_send_shutdown_complete := True\<rparr>"
  have "handle_checked_chunk rnd now random32 (packet_5000 t ChunkShutdownAck) ChunkShutdownAck
      (handle_chunk_start b) = (Ok [], ?b)"
    using assms by (simp add: handle_checked_chunk_def handle_shutdown_ack_def handle_chunk_start_def Let_def)
  then show ?thesis
    by (subst receive_single [where c = ChunkShutdownAck]) (auto simp: packet_5000_def no_acks_due_def)
qed

lemma association_close_fields:
  "as_delayed_ack_triggered (association_close a) = as_delayed_ack_triggered a"
  "as_immediate_ack_triggered (association_close a) = as_immediate_ack_triggered a"
  "get_state a \<noteq> Closed \<Longrightarrow> \<not> as_close_loop (association_close a)"
proof -
  have u: "as_delayed_ack_triggered (unregister_streams sis b) = as_delayed_ack_triggered b \<and>
      as_immediate_ack_triggered (unregister_streams sis b) = as_immediate_ack_triggered b \<and>
      as_close_loop (unregister_streams sis b) = as_close_loop b" for sis b
    unfolding unregister_streams_def
    by (induction sis arbitrary: b) (auto simp: unregister_stream_def split: option.split)
  show "as_delayed_ack_triggered (association_close a) = as_delayed_ack_triggered a"
    "as_immediate_ack_triggered (association_close a) = as_immediate_ack_triggered a"
    "get_state a \<noteq> Closed \<Longrightarrow> \<not> as_close_loop (association_close a)"
    by (simp_all add: association_close_def Let_def u close_all_timers_def set_state_def)
qed

lemma receive_shutdown_complete:
  assumes "get_state b = ShutdownAckSent"
    and "b' = receive rnd now random32 (packet_5000 t ChunkShutdownComplete) b"
  shows "get_state b' = Closed" and "\<not> as_close_loop b'"
proof -
  let ?b = "association_close ((handle_chunk_start b)\<lparr>as_t2shutdown := rtx_timer_stop (as_t2shutdown b)\<rparr>)"
  have "handle_checked_chunk rnd now random32 (packet_5000 t ChunkShutdownComplete) ChunkShutdownComplete
      (handle_chunk_start b) = (Ok [], ?b)"
    using assms(1) by (simp add: handle_checked_chunk_def handle_shutdown_complete_def handle_chunk_start_def)
  then have "b' = ?b"
    unfolding assms(2)
    by (subst receive_single [where c = ChunkShutdownComplete])
      (auto simp: packet_5000_def no_acks_due_def association_close_fields handle_chunk_start_def)
  moreover have "get_state ((handle_chunk_start b)\<lparr>as_t2shutdown := rtx_timer_stop (as_t2shutdown b)\<rparr>) \<noteq> Closed"
    using assms(1) by (simp add: handle_chunk_start_def get_state_def)
  ultimately show "get_state b' = Closed" and "\<not> as_close_loop b'"
    by (simp_all add: association_close_fields)
qed

text \<open>C15: when one of two established ends that have nothing outstanding is shut down, the three packets
  of the shutdown end both associations: both are Closed, and the channel that keeps their loops
  running is gone.\<close>

theorem shutdown_closes_both:
  assumes "connected a b" and "connected b a"
  shows "\<exists>a' b'. shutdown_sequence crc rnd now random32 (a, b) = Some (b', a') \<and>
    get_state a' = Closed \<and> \<not> as_close_loop a' \<and> get_state b' = Closed \<and> \<not> as_close_loop b'"
proof -
  note a = assms(1) [unfolded connected_def quiet_def ports_5000_def]
  note b = assms(2) [unfolded connected_def quiet_def ports_5000_def]
  define a1 where "a1 = snd (association_shutdown a)"
  have a1: "a1 = a\<lparr>as_will_send_shutdown := True, sh_awake := True, sh_state := u8_of_association_state ShutdownSent\<rparr>"
    using a by (simp add: a1_def association_shutdown_def Let_def set_state_def payload_queue_new_def)
  define a2 where "a2 = start_t2shutdown (a1\<lparr>as_will_send_shutdown := False\<rparr>)"
  define b1 where "b1 = b\<lparr>as_delayed_ack_triggered := False, as_immediate_ack_triggered := False, sh_awake := True,
      as_will_send_shutdown_ack := True, sh_state := u8_of_association_state ShutdownAckSent\<rparr>"
  have e1: "exchange crc rnd now random32 (a1, b) = Some (b1, a2)"
    using exchange_shutdown [of a1 "ChunkShutdown \<lparr>sd_cumulative_tsn_ack = as_cumulative_tsn_ack_point a1\<rparr>" True a2]
      a b receive_shutdown [of b]
    by (simp add: a1 a2_def b1_def next_shutdown_def ports_5000_def get_state_def association_state_of_u8_def)
  define b2 where "b2 = start_t2shutdown (b1\<lparr>as_will_send_shutdown_ack := False\<rparr>)"
  define a3 where "a3 = a2\<lparr>as_delayed_ack_triggered := False, as_immediate_ack_triggered := False, sh_awake := True,
      as_t2shutdown := rtx_timer_stop (as_t2shutdown a2), as_will_send_shutdown_complete := True\<rparr>"
  have s: "get_state a2 = ShutdownSent" "get_state a3 = ShutdownSent" "get_state b2 = ShutdownAckSent"
    by (simp_all add: a1 a2_def a3_def b1_def b2_def start_t2shutdown_def get_state_def association_state_of_u8_def)
  have e2: "exchange crc rnd now random32 (b1, a2) = Some (a3, b2)"
    using exchange_shutdown [of b1 ChunkShutdownAck True b2] b receive_shutdown_ack [OF s(1)]
    by (simp add: b1_def b2_def a3_def next_shutdown_def ports_5000_def get_state_def association_state_of_u8_def)
  define a4 where "a4 = association_close (a3\<lparr>as_will_send_shutdown_complete := False\<rparr>)"
  define b3 where "b3 = receive rnd now random32 (packet_5000 (as_peer_verification_tag a3) ChunkShutdownComplete) b2"
  have f3: "as_inflight_queue a3 = payload_queue_new" "\<not> as_will_retransmit_fast a3" "as_ack_state a3 = Ack_Idle"
      "as_control_queue a3 = []" "ports_5000 a3" "\<not> as_will_send_shutdown a3" "\<not> as_will_send_shutdown_ack a3"
      "as_will_send_shutdown_complete a3"
    using a by (simp_all add: a3_def a2_def a1 start_t2shutdown_def ports_5000_def)
  then have "next_shutdown a3 = (ChunkShutdownComplete, False, a3\<lparr>as_will_send_shutdown_complete := False\<rparr>)"
    by (simp add: next_shutdown_def)
  from exchange_shutdown [OF f3(1-4) _ f3(5) _ this, of crc rnd now random32 b2]
  have "exchange crc rnd now random32 (a3, b2) = Some (b3, a4)"
    using s(2) f3(8) by (simp only: b3_def a4_def simp_thms if_False insert_iff)
  then have "shutdown_sequence crc rnd now random32 (a, b) = Some (b3, a4)"
    by (simp add: shutdown_sequence_def a1_def [symmetric] e1 e2)
  moreover have "get_state b3 = Closed" "\<not> as_close_loop b3"
    by (rule receive_shutdown_complete [OF s(3) b3_def])+
  moreover have "get_state a4 = Closed" "\<not> as_close_loop a4"
    using s(2) get_state_frame [of "a3\<lparr>as_will_send_shutdown_complete := False\<rparr>" a3]
    by (simp_all add: a4_def association_close_fields)
  ultimately show ?thesis by blast
qed


theorem shutdown_closes_both_witness:
  "\<exists>c s c' s'. handshake (\<lambda>_. 0) (\<lambda>x. x) 0 (replicate 32 0)
      (snd (association_new example_config True 10 1), snd (association_new example_config False 20 2)) = Some (c, s) \<and>
    shutdown_sequence (\<lambda>_. 0) (\<lambda>x. x) 0 [] (c, s) = Some (s', c') \<and>
    get_state c' = Closed \<and> \<not> as_close_loop c' \<and> get_state s' = Closed \<and> \<not> as_close_loop s'"
proof -
  have n: "association_new example_config True 10 1 = (Ok (), snd (association_new example_config True 10 1))"
      "association_new example_config False 20 2 = (Ok (), snd (association_new example_config False 20 2))"
    using association_new_client(1) association_new_server(1) by (metis prod.collapse)+
  have f: "1500 \<le> credit_of example_config"
    by (simp add: credit_of_def example_config_def INITIAL_RECV_BUF_SIZE_def)
  obtain c s where cs: "handshake (\<lambda>_. 0) (\<lambda>x. x) 0 (replicate 32 0)
      (snd (association_new example_config True 10 1), snd (association_new example_config False 20 2)) = Some (c, s)"
    "connected c s" "connected s c"
    using handshake_connects [OF n _ _ f f, of "replicate 32 0" "\<lambda>_. 0" "\<lambda>x. x" 0] by auto
  then show ?thesis
    using shutdown_closes_both [OF cs(2,3), of "\<lambda>_. 0" "\<lambda>x. x" 0 "[]"] by blast
qed

end
