(* ===== verification/Frames.thy ===== *)
theory Frames
  imports Session
begin

text \<open>
  What every handler keeps, whatever the peer sends: the sender's invariant, and the counters that
  the assertion of the receive queue tests.  A SACK may be anything here, and the system clock may
  be set back between two calls.
\<close>

section \<open>A SACK under any clock\<close>

text \<open>
  The clock only enters the round-trip time: when the handler succeeds under one clock it succeeds
  under every clock that is not behind the chunks in flight, and only the measured times differ.
\<close>

lemma measure_rtt_clock:
  assumes "measure_rtt rnd now c a = (Ok (), a1)" and "pd_since c \<le> late"
  shows "\<exists>x. measure_rtt rnd late c (a\<lparr>as_rto_mgr := y\<rparr>) = (Ok (), a1\<lparr>as_rto_mgr := x\<rparr>)"
  using assms
  by (cases "rto_manager_set_new_rtt rnd (as_rto_mgr a) (of_nat (now - pd_since c))";
      cases "rto_manager_set_new_rtt rnd y (of_nat (late - pd_since c))")
    (auto simp: measure_rtt_def Let_def split: if_splits)

lemma then_do_Ok: "then_do r f = (Ok x, s) \<longleftrightarrow> (\<exists>y b. r = (Ok y, b) \<and> f y b = (Ok x, s))"
  by (cases r; cases "fst r") auto

definition stop_t3_at :: "u32 \<Rightarrow> association \<Rightarrow> association" where
  "stop_t3_at i a = (if i = as_cumulative_tsn_ack_point a + 1 then a\<lparr>as_t3rtx := rtx_timer_stop (as_t3rtx a)\<rparr> else a)"

lemma stop_t3_at_clock:
  "stop_t3_at i (a\<lparr>as_rto_mgr := y\<rparr>) = (stop_t3_at i a)\<lparr>as_rto_mgr := y\<rparr>"
  by (simp add: stop_t3_at_def)

lemma ack_popped_chunk_eq:
  "ack_popped_chunk rnd now i c m a =
     (if pd_acked c then (Ok m, a)
      else
        let m = add_bytes_acked (pd_stream_identifier c) (int (length (pd_user_data c))) m; a = stop_t3_at i a in
        if pd_nsent c = 1 \<and> sna32gte (pd_tsn c) (as_min_tsn2measure_rtt a)
        then then_do (measure_rtt rnd now c a) (\<lambda>_ a. (Ok m, a)) else (Ok m, a))"
  by (simp add: ack_popped_chunk_def stop_t3_at_def Let_def)

lemma ack_popped_chunk_clock:
  assumes "ack_popped_chunk rnd now i c m a = (Ok m', a1)" and "pd_since c \<le> late"
  shows "\<exists>x. ack_popped_chunk rnd late i c m (a\<lparr>as_rto_mgr := y\<rparr>) = (Ok m', a1\<lparr>as_rto_mgr := x\<rparr>)"
proof -
  define b where "b = stop_t3_at i a"
  consider (acked) "pd_acked c" | (measured) "\<not> pd_acked c" "pd_nsent c = 1 \<and> sna32gte (pd_tsn c) (as_min_tsn2measure_rtt b)"
    | (other) "\<not> pd_acked c" "\<not> (pd_nsent c = 1 \<and> sna32gte (pd_tsn c) (as_min_tsn2measure_rtt b))"
    by blast
  then show ?thesis
  proof cases
    case measured
    then have "measure_rtt rnd now c b = (Ok (), a1)"
        "m' = add_bytes_acked (pd_stream_identifier c) (int (length (pd_user_data c))) m"
      using assms(1) by (auto simp: ack_popped_chunk_eq then_do_Ok b_def [symmetric])
    then show ?thesis
      using measure_rtt_clock [of rnd now c b a1 late y] assms(2) measured
      by (auto simp: ack_popped_chunk_eq stop_t3_at_clock b_def [symmetric])
  qed (use assms(1) in \<open>auto simp: ack_popped_chunk_eq stop_t3_at_clock b_def [symmetric]\<close>)
qed

lemma ack_popped_chunk_queue:
  "ack_popped_chunk rnd now i c m a = (Ok m', a1) \<Longrightarrow> as_inflight_queue a1 = as_inflight_queue a"
  by (auto simp: ack_popped_chunk_def measure_rtt_def Let_def case_prod_beta split: if_splits)

lemma leave_fast_recovery_clock [simp]:
  "leave_fast_recovery c (a\<lparr>as_rto_mgr := x\<rparr>) = (leave_fast_recovery c a)\<lparr>as_rto_mgr := x\<rparr>"
  by (simp add: leave_fast_recovery_def)

lemma clock_ok_pop:
  assumes "clock_ok late a" and "payload_queue_pop (as_inflight_queue a) i = (o1, q)"
  shows "clock_ok late (b\<lparr>as_inflight_queue := q\<rparr>)"
proof -
  have "payload_queue_get (as_inflight_queue a) t = Some c" if "payload_queue_get q t = Some c" for t c
    using assms(2) that
    by (auto simp: payload_queue_pop_def payload_queue_get_def Let_def delete_conv' split: if_splits option.splits)
  then show ?thesis using assms(1) by (auto simp: clock_ok_def)
qed

lemma ack_cumulative_clock:
  assumes "ack_cumulative_loop rnd now cum i m a = (Ok m', a1)" and "clock_ok late a"
  shows "(\<exists>x. ack_cumulative_loop rnd late cum i m (a\<lparr>as_rto_mgr := y\<rparr>) = (Ok m', a1\<lparr>as_rto_mgr := x\<rparr>)) \<and>
    clock_ok late a1"
  using assms
proof (induction rnd now cum i m a arbitrary: y rule: ack_cumulative_loop.induct)
  case (1 rnd now cum i m a)
  show ?case
  proof (cases "sna32lte i cum")
    case False
    then have "ack_cumulative_loop rnd now cum i m a = (Ok m, a)" for now a
      by (subst ack_cumulative_loop.simps) simp
    then show ?thesis using 1(2,3) by auto
  next
    case True
    obtain o1 q where q: "payload_queue_pop (as_inflight_queue a) i = (o1, q)" by fastforce
    have r: "(case o1 of Some c \<Rightarrow> then_do (ack_popped_chunk rnd now i c m (a\<lparr>as_inflight_queue := q\<rparr>))
          (\<lambda>m a. ack_cumulative_loop rnd now cum (i + 1) m (leave_fast_recovery c a))
        | None \<Rightarrow> (Err ErrInflightQueueTsnPop, a\<lparr>as_inflight_queue := q\<rparr>)) = (Ok m', a1)"
      using 1(2) ack_cumulative_loop.simps [of rnd now cum i m a] True q by (simp split: option.splits)
    then obtain c where c: "o1 = Some c" by (cases o1) simp_all
    have late: "pd_since c \<le> late"
      using 1(3) q c
      by (auto simp: payload_queue_pop_def Let_def clock_ok_def payload_queue_get_def split: if_splits option.splits)
    let ?a = "a\<lparr>as_inflight_queue := q\<rparr>"
    obtain m2 a2 where p: "ack_popped_chunk rnd now i c m ?a = (Ok m2, a2)"
        "ack_cumulative_loop rnd now cum (i + 1) m2 (leave_fast_recovery c a2) = (Ok m', a1)"
      using r by (auto simp: c then_do_Ok)
    have sw: "?a\<lparr>as_rto_mgr := y\<rparr> = a\<lparr>as_rto_mgr := y, as_inflight_queue := q\<rparr>" by simp
    obtain z where z: "ack_popped_chunk rnd late i c m (a\<lparr>as_rto_mgr := y, as_inflight_queue := q\<rparr>) =
        (Ok m2, a2\<lparr>as_rto_mgr := z\<rparr>)"
      using ack_popped_chunk_clock [OF p(1) late, of y] unfolding sw by blast
    have "as_inflight_queue a2 = q" using ack_popped_chunk_queue [OF p(1)] by simp
    then have "clock_ok late (leave_fast_recovery c a2)"
      using clock_ok_pop [OF 1(3) q, of a2] by (simp add: clock_ok_def)
    then obtain x where "clock_ok late a1" "ack_cumulative_loop rnd late cum (i + 1) m2
        ((leave_fast_recovery c a2)\<lparr>as_rto_mgr := z\<rparr>) = (Ok m', a1\<lparr>as_rto_mgr := x\<rparr>)"
      using 1(1) [OF True q [symmetric] c p(2)] by blast
    then have "clock_ok late a1 \<and>
        ack_cumulative_loop rnd late cum i m (a\<lparr>as_rto_mgr := y\<rparr>) = (Ok m', a1\<lparr>as_rto_mgr := x\<rparr>)"
      using ack_cumulative_loop.simps [of rnd late cum i m "a\<lparr>as_rto_mgr := y\<rparr>"] True q c z by simp
    then show ?thesis by blast
  qed
qed

lemma clock_ok_acked:
  assumes "clock_ok late a" and "payload_queue_mark_as_acked (as_inflight_queue a) t = (n, q)"
  shows "clock_ok late (b\<lparr>as_inflight_queue := q\<rparr>)"
proof -
  have "payload_queue_get q u =
      (if u = t then map_option acked_chunk (payload_queue_get (as_inflight_queue a) t)
       else payload_queue_get (as_inflight_queue a) u)" for u
    using mark_as_acked_get [of "as_inflight_queue a" t u] assms(2) by simp
  then show ?thesis using assms(1) by (auto simp: clock_ok_def split: if_splits)
qed

text \<open>One round of the loop over the gap blocks, for a TSN that is in flight.\<close>

definition gap_step ::
  "(real \<Rightarrow> real) \<Rightarrow> time_ms \<Rightarrow> u32 \<Rightarrow> payload_data \<Rightarrow> association \<Rightarrow> unit outcome \<times> association" where
  "gap_step rnd now tsn c a =
     (let a = a\<lparr>as_inflight_queue := snd (payload_queue_mark_as_acked (as_inflight_queue a) tsn)\<rparr> in
      if pd_nsent c = 1 then measure_rtt rnd now (acked_chunk c) a else (Ok (), a))"

lemma ack_gap_loop_Cons:
  assumes "payload_queue_get (as_inflight_queue a) tsn = Some c"
  shows "ack_gap_loop rnd now (tsn # tsns) m h a =
    (if pd_acked c then ack_gap_loop rnd now tsns m h a
     else then_do (gap_step rnd now tsn c a) (\<lambda>_ a. ack_gap_loop rnd now tsns
       (add_bytes_acked (pd_stream_identifier c) (sint (of_nat (length (pd_user_data c)) :: usize)) m)
       (if sna32lt h tsn then tsn else h) a))"
proof -
  obtain n q where q: "payload_queue_mark_as_acked (as_inflight_queue a) tsn = (n, q)" by fastforce
  have "payload_queue_get q tsn = Some (acked_chunk c)"
    using mark_as_acked_get [of "as_inflight_queue a" tsn tsn] q assms by simp
  moreover have "n = of_nat (length (pd_user_data c))"
    using q assms by (simp add: payload_queue_mark_as_acked_def payload_queue_get_def Let_def)
  moreover have "pd_stream_identifier (acked_chunk c) = pd_stream_identifier c" by (simp add: acked_chunk_def)
  ultimately show ?thesis using assms q by (simp add: gap_step_def Let_def)
qed

lemma ack_gap_loop_missing:
  "payload_queue_get (as_inflight_queue a) tsn = None \<Longrightarrow>
    ack_gap_loop rnd now (tsn # tsns) m h a = (Err ErrTsnRequestNotExist, a)"
  by simp

declare ack_gap_loop.simps(2) [simp del]

lemma gap_step_clock:
  assumes "gap_step rnd now t c a = (Ok (), a1)" and "payload_queue_get (as_inflight_queue a) t = Some c"
    and "clock_ok late a"
  shows "\<exists>x. gap_step rnd late t c (a\<lparr>as_rto_mgr := y\<rparr>) = (Ok (), a1\<lparr>as_rto_mgr := x\<rparr>)" and "clock_ok late a1"
proof -
  define q where "q = snd (payload_queue_mark_as_acked (as_inflight_queue a) t)"
  let ?a = "a\<lparr>as_inflight_queue := q\<rparr>"
  have sw: "a\<lparr>as_rto_mgr := y, as_inflight_queue := q\<rparr> = ?a\<lparr>as_rto_mgr := y\<rparr>" by simp
  have late: "pd_since (acked_chunk c) \<le> late" using assms(2,3) by (simp add: clock_ok_def)
  show "\<exists>x. gap_step rnd late t c (a\<lparr>as_rto_mgr := y\<rparr>) = (Ok (), a1\<lparr>as_rto_mgr := x\<rparr>)"
    using assms(1) measure_rtt_clock [OF _ late, of rnd now ?a a1 y]
    by (auto simp: gap_step_def Let_def q_def [symmetric] sw)
  have "as_inflight_queue a1 = q"
    using assms(1) by (auto simp: gap_step_def measure_rtt_def Let_def case_prod_beta q_def split: if_splits)
  then show "clock_ok late a1"
    using clock_ok_acked [OF assms(3), of t "fst (payload_queue_mark_as_acked (as_inflight_queue a) t)" q a1]
    by (simp add: clock_ok_def) (simp add: q_def)
qed

lemma ack_gap_clock:
  assumes "ack_gap_loop rnd now tsns m h a = (Ok r, a1)" and "clock_ok late a"
  shows "\<exists>x. ack_gap_loop rnd late tsns m h (a\<lparr>as_rto_mgr := y\<rparr>) = (Ok r, a1\<lparr>as_rto_mgr := x\<rparr>)"
  using assms
proof (induction tsns arbitrary: m h a y)
  case (Cons t tsns)
  obtain c where c: "payload_queue_get (as_inflight_queue a) t = Some c"
    using Cons.prems(1) ack_gap_loop_missing by (cases "payload_queue_get (as_inflight_queue a) t") fastforce+
  then have c': "payload_queue_get (as_inflight_queue (a\<lparr>as_rto_mgr := y\<rparr>)) t = Some c" by simp
  note step = ack_gap_loop_Cons [OF c] ack_gap_loop_Cons [OF c']
  show ?case
  proof (cases "pd_acked c")
    case True
    then show ?thesis using Cons.IH [of m h a y] Cons.prems step by simp
  next
    case False
    then obtain u a2 where a2: "gap_step rnd now t c a = (Ok u, a2)"
        "ack_gap_loop rnd now tsns (add_bytes_acked (pd_stream_identifier c) (sint (of_nat (length (pd_user_data c)) :: usize)) m)
          (if sna32lt h t then t else h) a2 = (Ok r, a1)"
      using Cons.prems(1) step(1) by (auto simp: then_do_Ok)
    obtain x where x: "gap_step rnd late t c (a\<lparr>as_rto_mgr := y\<rparr>) = (Ok (), a2\<lparr>as_rto_mgr := x\<rparr>)"
      using gap_step_clock(1) [of rnd now t c a a2 late y] a2(1) c Cons.prems(2) by auto
    have "clock_ok late a2" using gap_step_clock(2) [of rnd now t c a a2 late] a2(1) c Cons.prems(2) by auto
    from Cons.IH [OF a2(2) this, of x] show ?thesis by (simp only: step(2) False x then_do_simps if_False)
  qed
qed auto

text \<open>Neither loop panics, and a TSN that is not in flight makes the second one fail.\<close>

definition returns :: "'a outcome \<times> 's \<Rightarrow> bool" where
  "returns r \<longleftrightarrow> fst r \<noteq> Panic"

lemma returns_simps [simp]: "returns (Ok x, s)" "returns (Err e, s)" "\<not> returns (Panic, s)"
  by (simp_all add: returns_def)

lemma returns_then_do:
  "returns r \<Longrightarrow> (\<And>x b. r = (Ok x, b) \<Longrightarrow> returns (f x b)) \<Longrightarrow> returns (then_do r f)"
  by (cases r; cases "fst r") auto

lemma returns_measure_rtt: "returns (measure_rtt rnd now c a)"
  by (simp add: measure_rtt_def Let_def case_prod_beta)

lemma returns_ack_popped: "returns (ack_popped_chunk rnd now i c m a)"
  by (simp add: ack_popped_chunk_eq Let_def returns_then_do returns_measure_rtt)

lemma returns_ack_cumulative: "returns (ack_cumulative_loop rnd now cum i m a)"
proof (induction rnd now cum i m a rule: ack_cumulative_loop.induct)
  case (1 rnd now cum i m a)
  obtain o1 q where q: "payload_queue_pop (as_inflight_queue a) i = (o1, q)" by fastforce
  show ?case
    using 1 [OF _ q [symmetric]] q
    by (subst ack_cumulative_loop.simps, cases o1)
      (auto intro!: returns_then_do returns_ack_popped)
qed

lemma returns_gap_step: "returns (gap_step rnd now t c a)"
  by (simp add: gap_step_def Let_def returns_measure_rtt)

lemma returns_ack_gap: "returns (ack_gap_loop rnd now tsns m h a)"
proof (induction tsns arbitrary: m h a)
  case (Cons t tsns)
  show ?case
    by (cases "payload_queue_get (as_inflight_queue a) t")
      (auto simp: ack_gap_loop_Cons ack_gap_loop_missing intro!: Cons returns_then_do returns_gap_step)
qed simp

lemma returns_process_sack: "returns (process_selective_ack rnd now d a)"
  unfolding process_selective_ack_def by (intro returns_then_do returns_ack_cumulative returns_ack_gap)

lemma gap_step_get:
  "gap_step rnd now t c a = (r, a1) \<Longrightarrow>
    payload_queue_get (as_inflight_queue a1) u = None \<longleftrightarrow> payload_queue_get (as_inflight_queue a) u = None"
  by (auto simp: gap_step_def measure_rtt_def Let_def case_prod_beta mark_as_acked_get split: if_splits)

lemma ack_gap_loop_fails:
  assumes "t \<in> set tsns" and "payload_queue_get (as_inflight_queue a) t = None"
  shows "fst (ack_gap_loop rnd now tsns m h a) \<noteq> Ok r"
  using assms
proof (induction tsns arbitrary: m h a)
  case (Cons u tsns)
  show ?case
  proof (cases "payload_queue_get (as_inflight_queue a) u")
    case (Some c)
    then have t: "t \<in> set tsns" using Cons.prems by auto
    have "fst (ack_gap_loop rnd now tsns m h b) \<noteq> Ok r" if "gap_step rnd now u c a = (Ok (), b)" for m h b
      using Cons.IH [OF t] gap_step_get [OF that] Cons.prems(2) by simp
    then show ?thesis
      using Cons.IH [OF t Cons.prems(2)]
      by (cases "gap_step rnd now u c a"; cases "fst (gap_step rnd now u c a)")
        (auto simp: ack_gap_loop_Cons [OF Some])
  qed (simp add: ack_gap_loop_missing)
qed simp

text \<open>Some clock is late enough.\<close>

lemma clock_ok_ex: "\<exists>late. clock_ok late a"
proof -
  have "pd_since c \<le> sum_list (map (pd_since \<circ> snd) m)" if "map_of m t = Some c" for t c and m :: "(u32, payload_data) hmap"
    using member_le_sum_list [of "pd_since c" "map (pd_since \<circ> snd) m"] map_of_SomeD [OF that] by (force simp: image_iff)
  then show ?thesis by (auto simp: clock_ok_def payload_queue_get_def)
qed

lemma process_sack_any:
  assumes "flight_inv a" and "flight_length a < 2 ^ 31" and "\<not> sna32gt (as_cumulative_tsn_ack_point a) (sa_cumulative_tsn_ack d)"
    and "process_selective_ack rnd now d a = (Ok (m, h), a1)"
  shows "sack_valid d a \<and> sack_processed d a h a1"
proof -
  let ?cum = "sa_cumulative_tsn_ack d" and ?i = "as_cumulative_tsn_ack_point a + 1"
  let ?gaps = "gap_tsns ?cum (sa_gap_ack_blocks d)"
  obtain late where late: "clock_ok late a" using clock_ok_ex by blast
  obtain m1 b where b: "ack_cumulative_loop rnd now ?cum ?i [] a = (Ok m1, b)"
      "ack_gap_loop rnd now ?gaps m1 ?cum b = (Ok (m, h), a1)"
    using assms(4) by (auto simp: process_selective_ack_def then_do_Ok)
  have same: "a\<lparr>as_rto_mgr := as_rto_mgr a\<rparr> = a" by simp
  obtain x where x: "ack_cumulative_loop rnd late ?cum ?i [] a = (Ok m1, b\<lparr>as_rto_mgr := x\<rparr>)" "clock_ok late b"
    using ack_cumulative_clock [OF b(1) late, of "as_rto_mgr a"] unfolding same by blast
  obtain y where y: "ack_gap_loop rnd late ?gaps m1 ?cum (b\<lparr>as_rto_mgr := x\<rparr>) = (Ok (m, h), a1\<lparr>as_rto_mgr := y\<rparr>)"
    using ack_gap_clock [OF b(2) x(2)] by blast
  have base: "flight_base a = ?i" by (simp add: flight_base_def)
  have inv: "pq_inv ?i (as_inflight_queue a)" "contiguous ?i (as_my_next_tsn a) (as_inflight_queue a)"
    using assms(1) by (simp_all add: flight_inv_def base)
  have near: "unat (?cum - as_cumulative_tsn_ack_point a) < 2 ^ 31"
    using assms(3) by (auto simp: s32.not_gt_iff s32.lt_iff_unat)
  have dist: "unat (?cum - as_cumulative_tsn_ack_point a) \<le> flight_length a"
  proof (rule ccontr)
    assume "\<not> ?thesis"
    then have "\<exists>a'. ack_cumulative_loop rnd late ?cum ?i [] a = (Err ErrInflightQueueTsnPop, a')"
      using near by (intro ack_cumulative_beyond [OF inv _ _ late]) (simp_all add: flight_length_def base)
    then show False by (simp add: x(1))
  qed
  then have le: "?cum + 1 - ?i \<le> as_my_next_tsn a - ?i"
    by (simp add: flight_length_def base word_le_nat_alt)
  have "contiguous (?cum + 1) (as_my_next_tsn a) (as_inflight_queue b)"
    using ack_cumulative_ok [OF inv le _ late, of rnd "[]"] assms(2) x(1) by (auto simp: flight_length_def base)
  then have get: "payload_queue_get (as_inflight_queue b) t = None"
    if "\<not> t - (?cum + 1) < as_my_next_tsn a - (?cum + 1)" for t
    using that by (metis contiguous_get)
  have valid: "sack_valid d a"
    unfolding sack_valid_def
  proof (intro conjI ballI dist)
    fix t assume t: "t \<in> set ?gaps"
    show "t - (?cum + 1) < as_my_next_tsn a - (?cum + 1)"
    proof (rule ccontr)
      assume "\<not> ?thesis"
      from ack_gap_loop_fails [OF t get [OF this], of rnd now m1 ?cum "(m, h)"] show False by (simp add: b(2))
    qed
  qed
  have run: "process_selective_ack rnd late d a = (Ok (m, h), a1\<lparr>as_rto_mgr := y\<rparr>)"
    by (simp add: process_selective_ack_def x(1) y)
  have "sack_processed d a h a1"
    by (rule process_sack_ok [OF assms(1,2) late valid, of rnd])
      (auto simp: run sack_processed_def Let_def sender_view_def window_view_def)
  with valid show ?thesis ..
qed

text \<open>
  Whatever the SACK says: it fails, which ends the read loop, or it leaves the sender's invariant,
  with nothing new in flight and the pending queue as it was.
\<close>

lemma handle_sack_any:
  assumes "flight_inv a" and "flight_length a < 2 ^ 31"
  shows "(\<exists>e. fst (handle_sack rnd now d a) = Err e) \<or>
    (\<exists>a'. handle_sack rnd now d a = (Ok [], a') \<and> flight_inv a' \<and> flight_length a' \<le> flight_length a \<and>
      sh_pending_queue a' = sh_pending_queue a)"
proof -
  let ?a = "a\<lparr>as_stats := inc_sacks (as_stats a)\<rparr>"
  have v: "sender_view ?a = sender_view a" "as_inflight_queue ?a = as_inflight_queue a" by simp_all
  have inv: "flight_inv ?a" "flight_length ?a < 2 ^ 31"
    using assms flight_inv_view [OF v] view_eqD [OF v(1)] by simp_all
  consider (ignored) "\<not> sack_states a" | (old) "sack_states a" "sna32gt (as_cumulative_tsn_ack_point a) (sa_cumulative_tsn_ack d)"
    | (new) "sack_states a" "\<not> sna32gt (as_cumulative_tsn_ack_point a) (sa_cumulative_tsn_ack d)"
    by blast
  then show ?thesis
  proof cases
    case ignored
    then show ?thesis using assms by (simp add: handle_sack_def sack_states_def Let_def)
  next
    case old
    then show ?thesis
      using inv(1) view_eqD [OF v(1)] by (auto simp: handle_sack_def sack_states_def Let_def)
  next
    case new
    show ?thesis
    proof (cases "fst (process_selective_ack rnd now d ?a)")
      case (Ok mh)
      then obtain m h a1 where p: "process_selective_ack rnd now d ?a = (Ok (m, h), a1)"
        by (metis prod.collapse surj_pair)
      have ok: "sack_valid d ?a" "sack_processed d ?a h a1"
        using process_sack_any [OF inv _ p] new(2) by simp_all
      then have "sack_valid d a" "sack_processed d a h a1"
        using view_eqD [OF v(1)] by (simp_all add: sack_valid_def sack_processed_def Let_def window_view_def)
      from handle_sack_continues [OF assms this(1) new(1) p this(2)] obtain a' where
        a': "handle_sack rnd now d a = (Ok [], a')" "flight_inv a'"
          "sender_view a' = (as_my_next_tsn a, sa_cumulative_tsn_ack d, sh_pending_queue a)" by blast
      then have f: "flight_length a' = unat (as_my_next_tsn a - (sa_cumulative_tsn_ack d + 1))"
          "sh_pending_queue a' = sh_pending_queue a"
        by (simp_all add: sender_view_def flight_length_def flight_base_def)
      have "unat (sa_cumulative_tsn_ack d + 1 - flight_base a) \<le> flight_length a"
        using \<open>sack_valid d a\<close> by (simp add: sack_valid_def flight_base_def)
      then have "flight_length a' \<le> flight_length a"
        using unat_window_diff [of "sa_cumulative_tsn_ack d + 1" "flight_base a" "as_my_next_tsn a"]
        unfolding f(1) by (simp add: flight_length_def)
      then show ?thesis using a' f by blast
    next
      case (Err e)
      then have "fst (handle_sack rnd now d a) = Err e"
        using new by (cases "process_selective_ack rnd now d ?a") (simp add: handle_sack_continue)
      then show ?thesis by blast
    next
      case Panic
      then show ?thesis using returns_process_sack [of rnd now d ?a] by (simp add: returns_def)
    qed
  qed
qed

section \<open>What the other handlers leave alone\<close>

text \<open>The counter that the assertion of \<^verbatim>\<open>len\<close> compares with the map.\<close>

definition queue_counts :: "payload_queue \<Rightarrow> bool" where
  "queue_counts q \<longleftrightarrow> hm_wf (pq_chunk_map q) \<and> pq_length q = of_nat (length (pq_chunk_map q))"

lemma queue_counts_new: "queue_counts payload_queue_new"
  by (simp add: queue_counts_def payload_queue_new_def)

lemma length_insert_new: "map_of m t = None \<Longrightarrow> length (hm_insert t p m) = Suc (length m)"
  by (metis keys_insert_new length_append_singleton length_map)

lemma queue_counts_pop:
  assumes "queue_counts q" and "payload_queue_pop q t = (r, q')"
  shows "queue_counts q'"
proof (cases "hm_get (pq_chunk_map q) t")
  case None
  then show ?thesis
    using assms by (auto simp: payload_queue_pop_def queue_counts_def Let_def split: if_splits)
next
  case (Some c)
  have "length (pq_chunk_map q) = Suc (length (hm_remove t (pq_chunk_map q)))"
    using length_remove [of "pq_chunk_map q" t c] assms(1) Some by (simp add: queue_counts_def)
  then show ?thesis
    using assms Some by (auto simp: payload_queue_pop_def queue_counts_def Let_def distinct_delete split: if_splits)
qed

lemma queue_counts_push:
  assumes "queue_counts q"
  shows "queue_counts (snd (payload_queue_push q p t))"
proof (cases "hm_contains (pq_chunk_map q) (pd_tsn p)")
  case False
  then have "length (hm_insert (pd_tsn p) p (pq_chunk_map q)) = Suc (length (pq_chunk_map q))"
    by (simp add: length_insert_new)
  then show ?thesis
    using assms False by (auto simp: payload_queue_push_def queue_counts_def update_sorted_keys_def Let_def distinct_update)
qed (use assms in \<open>simp add: payload_queue_push_def queue_counts_def\<close>)

text \<open>
  A property of associations that depends on none of the fields that the handlers of an inbound
  packet write, SACK apart, and of the receive queue only on its counters.  Every such handler keeps it.
\<close>

locale inbound_invariant =
  fixes I :: "association \<Rightarrow> bool"
  assumes set_streams [simp]: "I (a\<lparr>as_streams := x1\<rparr>) = I a"
    and set_detached [simp]: "I (a\<lparr>as_detached_streams := x2\<rparr>) = I a"
    and set_accept [simp]: "I (a\<lparr>as_accept_ch := x3\<rparr>) = I a"
    and set_peer_last_tsn [simp]: "I (a\<lparr>as_peer_last_tsn := x4\<rparr>) = I a"
    and set_requests [simp]: "I (a\<lparr>as_reconfig_requests := x5\<rparr>) = I a"
    and set_reconfigs [simp]: "I (a\<lparr>as_reconfigs := x6\<rparr>) = I a"
    and set_treconfig [simp]: "I (a\<lparr>as_treconfig := x7\<rparr>) = I a"
    and set_stats [simp]: "I (a\<lparr>as_stats := x8\<rparr>) = I a"
    and set_delayed [simp]: "I (a\<lparr>as_delayed_ack_triggered := x9\<rparr>) = I a"
    and set_immediate [simp]: "I (a\<lparr>as_immediate_ack_triggered := x10\<rparr>) = I a"
    and set_ack_state [simp]: "I (a\<lparr>as_ack_state := x11\<rparr>) = I a"
    and set_ack_timer [simp]: "I (a\<lparr>as_ack_timer := x12\<rparr>) = I a"
    and set_awake [simp]: "I (a\<lparr>sh_awake := x13\<rparr>) = I a"
    and set_inbound [simp]: "I (a\<lparr>as_my_max_num_inbound_streams := x14\<rparr>) = I a"
    and set_outbound [simp]: "I (a\<lparr>as_my_max_num_outbound_streams := x15\<rparr>) = I a"
    and set_peer_tag [simp]: "I (a\<lparr>as_peer_verification_tag := x16\<rparr>) = I a"
    and set_source [simp]: "I (a\<lparr>as_source_port := x17\<rparr>) = I a"
    and set_destination [simp]: "I (a\<lparr>as_destination_port := x18\<rparr>) = I a"
    and set_forward [simp]: "I (a\<lparr>as_use_forward_tsn := x19\<rparr>) = I a"
    and set_cookie [simp]: "I (a\<lparr>as_my_cookie := x20\<rparr>) = I a"
    and set_rwnd [simp]: "I (a\<lparr>as_rwnd := x21\<rparr>) = I a"
    and set_ssthresh [simp]: "I (a\<lparr>as_ssthresh := x22\<rparr>) = I a"
    and set_t1init [simp]: "I (a\<lparr>as_t1init := x23\<rparr>) = I a"
    and set_t1cookie [simp]: "I (a\<lparr>as_t1cookie := x24\<rparr>) = I a"
    and set_t2shutdown [simp]: "I (a\<lparr>as_t2shutdown := x25\<rparr>) = I a"
    and set_t3rtx [simp]: "I (a\<lparr>as_t3rtx := x26\<rparr>) = I a"
    and set_stored_init [simp]: "I (a\<lparr>as_stored_init := x27\<rparr>) = I a"
    and set_stored_cookie [simp]: "I (a\<lparr>as_stored_cookie_echo := x28\<rparr>) = I a"
    and set_completed [simp]: "I (a\<lparr>as_handshake_completed_ch := x29\<rparr>) = I a"
    and set_state_byte [simp]: "I (a\<lparr>sh_state := x30\<rparr>) = I a"
    and set_control [simp]: "I (a\<lparr>as_control_queue := x31\<rparr>) = I a"
    and set_will_ack [simp]: "I (a\<lparr>as_will_send_shutdown_ack := x32\<rparr>) = I a"
    and set_will_complete [simp]: "I (a\<lparr>as_will_send_shutdown_complete := x33\<rparr>) = I a"
    and set_loop [simp]: "I (a\<lparr>as_close_loop := x34\<rparr>) = I a"
    and set_queue: "I a \<Longrightarrow> (queue_counts (as_payload_queue a) \<Longrightarrow> queue_counts q) \<Longrightarrow> I (a\<lparr>as_payload_queue := q\<rparr>)"
begin

lemma keeps_then_do:
  "I (snd r) \<Longrightarrow> (\<And>x b. I b \<Longrightarrow> I (snd (f x b))) \<Longrightarrow> I (snd (then_do r f))"
  by (cases r; cases "fst r") auto

lemma state_changes [simp]: "I (set_state s a) = I a" "I (awake_write_loop a) = I a" "I (push_control p a) = I a"
  by (simp_all add: set_state_def awake_write_loop_def push_control_def)

lemma keeps_update_stream [simp]: "I (update_stream si f a) = I a"
  by (simp add: update_stream_def split: option.split)

lemma keeps_unregister [simp]: "I (unregister_stream si a) = I a"
  by (simp add: unregister_stream_def split: option.splits)

lemma keeps_foldl: "(\<And>b x. I (f b x) = I b) \<Longrightarrow> I (foldl f a xs) = I a"
  by (induction xs arbitrary: a) simp_all

lemma keeps_get_or_create [simp]: "I (snd (get_or_create_stream si a)) = I a"
  by (simp add: get_or_create_stream_def create_stream_def Let_def)

lemma keeps_reset_streams_if_any [simp]: "I (snd (reset_streams_if_any p a)) = I a"
  by (auto simp: reset_streams_if_any_def reset_streams_def Let_def keeps_foldl split: option.split)

lemma keeps_reset_all [simp]: "I (snd (reset_all_requests rs a)) = I a"
  by (induction rs arbitrary: a) (auto simp: case_prod_beta)

lemma keeps_reconfig_param: "I a \<Longrightarrow> I (snd (handle_reconfig_param p a))"
  by (cases p) (simp_all add: handle_reconfig_param_def Let_def case_prod_beta)

lemma keeps_reconfig: "I a \<Longrightarrow> I (snd (handle_reconfig c a))"
  unfolding handle_reconfig_def
  by (intro keeps_then_do) (auto intro!: keeps_then_do keeps_reconfig_param split: option.split)

lemma keeps_pop: "I a \<Longrightarrow> payload_queue_pop (as_payload_queue a) t = (r, q) \<Longrightarrow> I (a\<lparr>as_payload_queue := q\<rparr>)"
  by (rule set_queue) (auto intro: queue_counts_pop)

lemma keeps_advance: "I a \<Longrightarrow> I (snd (advance_peer_last_tsn a))"
proof (induction a rule: advance_peer_last_tsn.induct)
  case (1 a)
  obtain o1 q where q: "payload_queue_pop (as_payload_queue a) (as_peer_last_tsn a + 1) = (o1, q)"
    by fastforce
  have pop: "I (a\<lparr>as_payload_queue := q\<rparr>)" by (rule keeps_pop [OF 1(2) q])
  show ?case
  proof (cases o1)
    case None
    then show ?thesis using pop by (simp add: advance_peer_last_tsn.simps [of a] q)
  next
    case (Some c)
    let ?b = "a\<lparr>as_payload_queue := q, as_peer_last_tsn := as_peer_last_tsn a + 1\<rparr>"
    obtain r1 d where d: "reset_all_requests (hm_values (as_reconfig_requests ?b)) ?b = (r1, d)" by fastforce
    have "I (snd (reset_all_requests (hm_values (as_reconfig_requests ?b)) ?b))" using pop by simp
    then have "I d" by (simp only: d snd_conv)
    then have "I (snd (advance_peer_last_tsn d))"
      by (intro 1(1) [where x = "Some c" and y = q and xa = ?b and xb = "(r1, d)" and xc = r1 and ya = d])
        (use q Some d in simp_all)
    then show ?thesis using q Some d by (simp add: advance_peer_last_tsn.simps [of a] Let_def case_prod_beta)
  qed
qed

lemma keeps_peer_last_tsn_ack: "I a \<Longrightarrow> I (snd (handle_peer_last_tsn_and_acknowledgement b a))"
  using keeps_advance [of a]
  by (cases "advance_peer_last_tsn a")
    (auto simp: handle_peer_last_tsn_and_acknowledgement_def Let_def split: outcome.splits)

lemma keeps_accept_data: "I a \<Longrightarrow> I (snd (accept_data d a))"
proof -
  assume a: "I a"
  obtain ok b where b: "get_or_create_stream (pd_stream_identifier d) a = (ok, b)" by fastforce
  have "I b" using a keeps_get_or_create [of "pd_stream_identifier d" a] by (simp add: b)
  then have "I (b\<lparr>as_payload_queue := snd (payload_queue_push (as_payload_queue b) d t)\<rparr>)" for t
    by (intro set_queue queue_counts_push)
  then show ?thesis using a b \<open>I b\<close> by (auto simp: accept_data_def Let_def split: option.split bool.split)
qed

lemma keeps_handle_data: "I a \<Longrightarrow> I (snd (handle_data d a))"
proof -
  assume "I a"
  then have "I (snd (accept_data d (a\<lparr>as_stats := inc_datas (as_stats a)\<rparr>)))" by (intro keeps_accept_data) simp
  then show ?thesis
    by (auto simp: handle_data_def Let_def case_prod_beta split: option.split intro!: keeps_peer_last_tsn_ack)
qed

lemma keeps_forward: "I a \<Longrightarrow> I (forward_peer_last_tsn n a)"
proof (induction n a rule: forward_peer_last_tsn.induct)
  case (1 n a)
  have "I (a\<lparr>as_payload_queue := snd (payload_queue_pop (as_payload_queue a) (as_peer_last_tsn a + 1))\<rparr>)"
    using keeps_pop [OF 1(2)] by (metis prod.collapse)
  then show ?case using 1 by (subst forward_peer_last_tsn.simps) simp
qed

lemma keeps_handle_forward_tsn: "I a \<Longrightarrow> I (snd (handle_forward_tsn c a))"
  by (auto simp: handle_forward_tsn_def Let_def keeps_foldl intro!: keeps_peer_last_tsn_ack keeps_forward)

lemma keeps_unknown: "I a \<Longrightarrow> I (snd (handle_unknown_chunk c a))"
  by (auto simp: handle_unknown_chunk_def Let_def intro!: keeps_then_do)

lemma keeps_heartbeat: "I a \<Longrightarrow> I (snd (handle_heartbeat ps a))"
  by (simp add: handle_heartbeat_def split: list.split param.split)

lemma keeps_init: "I a \<Longrightarrow> I (snd (handle_init random32 p c a))"
  by (simp add: handle_init_def Let_def)

lemma keeps_init_ack: "I a \<Longrightarrow> I (snd (handle_init_ack p i a))"
  by (auto simp: handle_init_ack_def send_cookie_echo_def Let_def split: option.split)

lemma keeps_cookie_echo: "I a \<Longrightarrow> I (snd (handle_cookie_echo cookie a))"
  by (auto simp: handle_cookie_echo_def handshake_completed_def Let_def split: option.split)

lemma keeps_cookie_ack: "I a \<Longrightarrow> I (snd (handle_cookie_ack a))"
  by (auto simp: handle_cookie_ack_def handshake_completed_def Let_def)

lemma keeps_close [simp]: "I (association_close a) = I a"
  by (simp add: association_close_def unregister_streams_def keeps_foldl close_all_timers_def Let_def)

lemma keeps_shutdown: "I a \<Longrightarrow> I (snd (handle_shutdown a))"
  by (auto simp: handle_shutdown_def Let_def intro!: keeps_then_do)

lemma keeps_shutdown_ack: "I a \<Longrightarrow> I (snd (handle_shutdown_ack a))"
  by (simp add: handle_shutdown_ack_def Let_def)

lemma keeps_shutdown_complete: "I a \<Longrightarrow> I (snd (handle_shutdown_complete a))"
  by (simp add: handle_shutdown_complete_def)

lemma keeps_start_end [simp]: "I (handle_chunk_start a) = I a" "I (handle_chunk_end a) = I a"
  by (simp_all add: handle_chunk_start_def handle_chunk_end_def)

lemma keeps_checked_chunk:
  assumes "I a" and "\<And>d. c = ChunkSelectiveAck d \<Longrightarrow> I (snd (handle_sack rnd now d a))"
  shows "I (snd (handle_checked_chunk rnd now random32 p c a))"
  using assms
  by (cases c)
    (simp_all add: handle_checked_chunk_def keeps_handle_data keeps_handle_forward_tsn keeps_unknown keeps_heartbeat
      keeps_init keeps_init_ack keeps_cookie_echo keeps_cookie_ack keeps_shutdown keeps_shutdown_ack
      keeps_shutdown_complete keeps_reconfig)

lemma keeps_chunk:
  assumes "I a" and "\<And>d. c = ChunkSelectiveAck d \<Longrightarrow> I (snd (handle_sack rnd now d a))"
  shows "I (snd (handle_chunk rnd now random32 p c a))"
proof -
  have "I (snd (handle_checked_chunk rnd now random32 p c a))" using assms by (rule keeps_checked_chunk)
  then show ?thesis
    using assms(1) by (cases "chunk_check c") (auto simp: handle_chunk_def intro!: keeps_then_do)
qed

end

section \<open>What the sender leaves alone\<close>

text \<open>The reassembly queues of a table of streams: all that the sender leaves alone of it.\<close>

definition queues_of :: "(u16, stream) hmap \<Rightarrow> (u16, reassembly_queue) hmap" where
  "queues_of ss = map (\<lambda>(si, s). (si, st_reassembly_queue s)) ss"

lemma queues_of_insert:
  "hm_get ss si = Some s \<Longrightarrow> st_reassembly_queue s' = st_reassembly_queue s \<Longrightarrow>
    queues_of (hm_insert si s' ss) = queues_of ss"
  by (induction ss) (auto simp: queues_of_def)

lemma buffer_released_queue: "st_reassembly_queue (snd (on_buffer_released s n)) = st_reassembly_queue s"
  by (simp add: on_buffer_released_def Let_def)

text \<open>
  A property that the handler of a SACK keeps: it depends on none of the fields that the handler
  writes, on the streams only through their reassembly queues, and on the inflight queue in a way
  that removing, acknowledging and reporting a chunk as missing keep.
\<close>

locale sack_invariant =
  fixes I :: "association \<Rightarrow> bool"
  assumes set_t3rtx [simp]: "I (a\<lparr>as_t3rtx := x2\<rparr>) = I a"
    and set_min_tsn [simp]: "I (a\<lparr>as_min_tsn2measure_rtt := x3\<rparr>) = I a"
    and set_rto [simp]: "I (a\<lparr>as_rto_mgr := x4\<rparr>) = I a"
    and set_recovery [simp]: "I (a\<lparr>as_in_fast_recovery := x5\<rparr>) = I a"
    and set_ack_point [simp]: "I (a\<lparr>as_cumulative_tsn_ack_point := x6\<rparr>) = I a"
    and set_cwnd [simp]: "I (a\<lparr>as_cwnd := x7\<rparr>) = I a"
    and set_partial [simp]: "I (a\<lparr>as_partial_bytes_acked := x8\<rparr>) = I a"
    and set_ssthresh [simp]: "I (a\<lparr>as_ssthresh := x9\<rparr>) = I a"
    and set_exit [simp]: "I (a\<lparr>as_fast_recover_exit_point := x10\<rparr>) = I a"
    and set_fast [simp]: "I (a\<lparr>as_will_retransmit_fast := x11\<rparr>) = I a"
    and set_rwnd [simp]: "I (a\<lparr>as_rwnd := x13\<rparr>) = I a"
    and set_advanced [simp]: "I (a\<lparr>as_advanced_peer_tsn_ack_point := x14\<rparr>) = I a"
    and set_will_forward [simp]: "I (a\<lparr>as_will_send_forward_tsn := x16\<rparr>) = I a"
    and set_awake [simp]: "I (a\<lparr>sh_awake := x17\<rparr>) = I a"
    and set_state_byte [simp]: "I (a\<lparr>sh_state := x18\<rparr>) = I a"
    and set_will_shutdown [simp]: "I (a\<lparr>as_will_send_shutdown := x19\<rparr>) = I a"
    and set_will_ack [simp]: "I (a\<lparr>as_will_send_shutdown_ack := x20\<rparr>) = I a"
    and set_stats [simp]: "I (a\<lparr>as_stats := x22\<rparr>) = I a"
    and set_streams: "queues_of ss = queues_of (as_streams a) \<Longrightarrow> I (a\<lparr>as_streams := ss\<rparr>) = I a"
    and set_popped: "I a \<Longrightarrow> payload_queue_pop (as_inflight_queue a) t = (r, q) \<Longrightarrow> I (a\<lparr>as_inflight_queue := q\<rparr>)"
    and set_acked: "I a \<Longrightarrow> I (a\<lparr>as_inflight_queue := snd (payload_queue_mark_as_acked (as_inflight_queue a) t)\<rparr>)"
    and set_missed: "I a \<Longrightarrow> I (a\<lparr>as_inflight_queue := payload_queue_update (as_inflight_queue a) t chunk_missed\<rparr>)"
begin

lemma keeps_then_do:
  "I (snd r) \<Longrightarrow> (\<And>x b. I b \<Longrightarrow> I (snd (f x b))) \<Longrightarrow> I (snd (then_do r f))"
  by (cases r; cases "fst r") auto

lemma state_changes [simp]: "I (set_state s a) = I a" "I (awake_write_loop a) = I a" "I (start_t3rtx a) = I a"
  by (simp_all add: set_state_def awake_write_loop_def start_t3rtx_def)

lemma keeps_buffer_released [simp]: "I (update_stream si (\<lambda>s. snd (on_buffer_released s n)) a) = I a"
  by (auto simp: update_stream_def buffer_released_queue intro!: set_streams queues_of_insert split: option.split)

lemma keeps_measure_rtt: "I a \<Longrightarrow> I (snd (measure_rtt rnd now c a))"
  by (simp add: measure_rtt_def Let_def case_prod_beta)

lemma keeps_ack_popped: "I a \<Longrightarrow> I (snd (ack_popped_chunk rnd now i c m a))"
  by (auto simp: ack_popped_chunk_def Let_def intro!: keeps_then_do keeps_measure_rtt)

lemma keeps_leave_recovery [simp]: "I (leave_fast_recovery c a) = I a"
  by (simp add: leave_fast_recovery_def)

lemma keeps_ack_cumulative: "I a \<Longrightarrow> I (snd (ack_cumulative_loop rnd now cum i m a))"
proof (induction rnd now cum i m a rule: ack_cumulative_loop.induct)
  case (1 rnd now cum i m a)
  obtain o1 q where q: "payload_queue_pop (as_inflight_queue a) i = (o1, q)" by fastforce
  show ?case
  proof (cases o1)
    case (Some c)
    let ?r = "ack_popped_chunk rnd now i c m (a\<lparr>as_inflight_queue := q\<rparr>)"
    have "I (snd ?r)" by (intro keeps_ack_popped set_popped [OF 1(2) q])
    then show ?thesis
      using 1(1) [OF _ q [symmetric] Some] 1(2) q Some
      by (subst ack_cumulative_loop.simps, cases ?r; cases "fst ?r") auto
  qed (use q 1(2) set_popped [OF 1(2) q] in \<open>subst ack_cumulative_loop.simps, simp\<close>)
qed

lemma keeps_ack_gap: "I a \<Longrightarrow> I (snd (ack_gap_loop rnd now ts m h a))"
proof (induction ts arbitrary: m h a)
  case (Cons t ts)
  have step: "I (snd (gap_step rnd now t c a))" for c
    using set_acked [OF Cons.prems, of t] by (simp add: gap_step_def Let_def keeps_measure_rtt)
  show ?case
    using Cons.prems Cons.IH step
    by (cases "payload_queue_get (as_inflight_queue a) t")
      (auto simp: ack_gap_loop_Cons ack_gap_loop_missing intro!: keeps_then_do)
qed simp

lemma keeps_process_sack: "I a \<Longrightarrow> I (snd (process_selective_ack rnd now d a))"
  by (auto simp: process_selective_ack_def intro!: keeps_then_do keeps_ack_cumulative keeps_ack_gap)

lemma keeps_congestion [simp]: "I (update_congestion_window n a) = I a"
  by (simp add: update_congestion_window_def Let_def)

lemma keeps_advanced: "I a \<Longrightarrow> I (snd (on_cumulative_tsn_ack_point_advanced n a))"
  by (auto simp: on_cumulative_tsn_ack_point_advanced_def Let_def intro!: keeps_then_do)

lemma keeps_miss_loop: "I a \<Longrightarrow> I (snd (miss_loop h n i a))"
proof (induction h n i a rule: miss_loop.induct)
  case (1 h n i a)
  then show ?case
    using set_missed [OF 1(2), of i]
    by (subst miss_loop.simps) (auto simp: enter_fast_recovery_def Let_def split: option.split)
qed

lemma keeps_fast_retransmission: "I a \<Longrightarrow> I (snd (process_fast_retransmission cum h adv a))"
  by (auto simp: process_fast_retransmission_def intro!: keeps_then_do keeps_miss_loop)

lemma keeps_release [simp]: "I (release_buffers m a) = I a"
  unfolding release_buffers_def by (induction m arbitrary: a) (simp_all add: case_prod_beta)

lemma keeps_update_rwnd [simp]: "I (update_rwnd c a) = I a"
  by (simp add: update_rwnd_def Let_def)

lemma keeps_ack_loop [simp]: "I (advance_peer_ack_loop n i a) = I a"
  by (induction n i a rule: advance_peer_ack_loop.induct) (auto split: option.splits)

lemma keeps_ack_points [simp]: "I (advance_peer_ack_point a) = I a" "I (forward_ack_point a) = I a"
  by (simp_all add: advance_peer_ack_point_def forward_ack_point_def Let_def)

lemma keeps_postprocess: "I a \<Longrightarrow> I (snd (postprocess_sack st b a))"
  by (auto simp: postprocess_sack_def Let_def intro!: keeps_then_do)

lemma keeps_handle_sack: "I a \<Longrightarrow> I (snd (handle_sack rnd now d a))"
  by (auto simp: handle_sack_def Let_def
      intro!: keeps_then_do keeps_process_sack keeps_advanced keeps_fast_retransmission keeps_postprocess)

end

text \<open>
  A property that the write loop keeps as well, as far as it sends no new data: it does not depend on
  the inflight queue, and of the receive queue the write loop only empties the list of duplicates.
\<close>

locale resend_invariant = sack_invariant +
  assumes set_inflight [simp]: "I (a\<lparr>as_inflight_queue := x1\<rparr>) = I a"
    and set_cells [simp]: "I (a\<lparr>sh_cells := x15\<rparr>) = I a"
    and set_will_complete [simp]: "I (a\<lparr>as_will_send_shutdown_complete := x21\<rparr>) = I a"
    and set_control [simp]: "I (a\<lparr>as_control_queue := x23\<rparr>) = I a"
    and set_next_rsn [simp]: "I (a\<lparr>as_my_next_rsn := x27\<rparr>) = I a"
    and set_reconfigs [simp]: "I (a\<lparr>as_reconfigs := x28\<rparr>) = I a"
    and set_will_reconfig [simp]: "I (a\<lparr>as_will_retransmit_reconfig := x29\<rparr>) = I a"
    and set_treconfig [simp]: "I (a\<lparr>as_treconfig := x30\<rparr>) = I a"
    and set_t2shutdown [simp]: "I (a\<lparr>as_t2shutdown := x31\<rparr>) = I a"
    and set_ack_state [simp]: "I (a\<lparr>as_ack_state := x32\<rparr>) = I a"
    and set_duplicates [simp]: "I (a\<lparr>as_payload_queue := as_payload_queue a\<lparr>pq_dup_tsn := ds\<rparr>\<rparr>) = I a"
begin

lemma timer_starts [simp]: "I (start_t2shutdown a) = I a"
  by (simp add: start_t2shutdown_def)

lemma keeps_reliability [simp]: "I (check_partial_reliability_status now c a) = I a"
  by (simp add: check_partial_reliability_status_def set_chunk_abandoned_def Let_def split: option.split)

lemma keeps_retransmit_loop: "I a \<Longrightarrow> I (snd (retransmit_loop fuel now awnd i b cs a))"
  by (induction fuel now awnd i b cs a rule: retransmit_loop.induct) (auto simp: Let_def split: option.split)

lemma keeps_gather_retransmit: "I a \<Longrightarrow> I (snd (gather_data_packets_to_retransmit crc now raws a))"
  using keeps_retransmit_loop [of a "inflight_fuel a" now "min (as_cwnd a) (as_rwnd a)" 0 0 "[]"]
  by (simp add: gather_data_packets_to_retransmit_def get_data_packets_to_retransmit_def Let_def case_prod_beta)

lemma keeps_fast_loop: "I a \<Longrightarrow> I (snd (fast_retransmit_loop fuel now i n cs a))"
  by (induction fuel now i n cs a rule: fast_retransmit_loop.induct) (auto simp: Let_def split: option.split)

lemma keeps_gather_fast: "I a \<Longrightarrow> I (snd (gather_outbound_fast_retransmission_packets crc now raws a))"
  by (simp add: gather_outbound_fast_retransmission_packets_def Let_def case_prod_beta keeps_fast_loop)

lemma keeps_gather_reconfig: "I a \<Longrightarrow> I (snd (gather_reconfig_packets crc sis raws a))"
  by (simp add: gather_reconfig_packets_def generate_next_rsn_def Let_def case_prod_beta)

lemma keeps_gather_sack: "I a \<Longrightarrow> I (snd (gather_outbound_sack_packets crc raws a))"
proof -
  assume a: "I a"
  have "I ((a\<lparr>as_ack_state := Ack_Idle\<rparr>)\<lparr>as_payload_queue :=
      as_payload_queue (a\<lparr>as_ack_state := Ack_Idle\<rparr>)\<lparr>pq_dup_tsn := []\<rparr>\<rparr>)"
    unfolding set_duplicates using a by simp
  then show ?thesis
    using a by (simp add: gather_outbound_sack_packets_def create_selective_ack_chunk_def
        payload_queue_pop_duplicates_def Let_def)
qed

lemma keeps_gather_forward: "I a \<Longrightarrow> I (snd (gather_outbound_forward_tsn_packets crc raws a))"
  by (simp add: gather_outbound_forward_tsn_packets_def Let_def)

lemma keeps_gather_shutdown: "I a \<Longrightarrow> I (snd (snd (gather_outbound_shutdown_packets crc raws a)))"
  by (simp add: gather_outbound_shutdown_packets_def Let_def split: outcome.split)

lemma keeps_gather_other:
  "gather_outbound crc now a = Some r \<Longrightarrow> get_state a \<noteq> Established \<Longrightarrow> I a \<Longrightarrow> I (snd r)"
  by (auto simp: gather_outbound_def get_state_def Let_def case_prod_beta split: if_splits option.splits
      intro!: keeps_gather_fast keeps_gather_sack keeps_gather_shutdown keeps_gather_retransmit)

end

text \<open>And one that new data keeps, too.\<close>

locale outbound_invariant = resend_invariant +
  assumes set_pending [simp]: "I (a\<lparr>sh_pending_queue := x24\<rparr>) = I a"
    and set_next_cell [simp]: "I (a\<lparr>sh_next_cell := x25\<rparr>) = I a"
    and set_next_tsn [simp]: "I (a\<lparr>as_my_next_tsn := x26\<rparr>) = I a"
begin

lemma keeps_move [simp]: "I (snd (move_pending_data_chunk_to_inflight_queue now b u a)) = I a"
  by (simp add: move_pending_data_chunk_to_inflight_queue_def generate_next_tsn_def Let_def
      split: prod.split option.split)

lemma keeps_moved: "move_pending_data_chunk_to_inflight_queue now b u a = (c, a') \<Longrightarrow> I a' = I a"
  by (metis keeps_move snd_conv)

lemma keeps_pop_loop:
  assumes "pop_pending_loop now a cs sis = Some (cs', sis', a')"
  shows "I a' = I a"
proof -
  have "I (snd (snd y)) = I a" if "pop_pending_loop now a cs sis = Some y" for y
  proof (rule pop_pending_loop.raw_induct [OF _ that, where P = "\<lambda>now a cs sis y. I (snd (snd y)) = I a"])
    fix loop now a cs sis y
    assume IH: "\<And>now b cs sis y. loop now b cs sis = Some y \<Longrightarrow> I (snd (snd y)) = I b"
      and 1: "(case pending_queue_peek (sh_pending_queue a) of
        None \<Rightarrow> Some (cs, sis, a)
      | Some c \<Rightarrow>
          let data_len = of_nat (length (pd_user_data c)) in
          if data_len = 0 then
            loop now
              (a\<lparr>sh_pending_queue :=
                   snd (pending_queue_pop (sh_pending_queue a) (pd_beginning_fragment c) (pd_unordered c))\<rparr>)
              cs (sis @ [pd_stream_identifier c])
          else if payload_queue_get_num_bytes (as_inflight_queue a) + data_len > ucast (as_cwnd a)
          then Some (cs, sis, a)
          else if data_len > ucast (as_rwnd a) then Some (cs, sis, a)
          else
            case move_pending_data_chunk_to_inflight_queue now (pd_beginning_fragment c) (pd_unordered c)
                   (a\<lparr>as_rwnd := as_rwnd a - ucast data_len\<rparr>) of
              (Some chunk, a) \<Rightarrow> loop now a (cs @ [chunk]) sis
            | (None, a) \<Rightarrow> loop now a cs sis) = Some y"
    show "I (snd (snd y)) = I a"
    proof (cases "pending_queue_peek (sh_pending_queue a)")
      case (Some c)
      obtain o1 b where b: "move_pending_data_chunk_to_inflight_queue now (pd_beginning_fragment c) (pd_unordered c)
          (a\<lparr>as_rwnd := as_rwnd a - ucast (of_nat (length (pd_user_data c)) :: usize)\<rparr>) = (o1, b)" by fastforce
      have "I b = I a" using keeps_moved [OF b] by simp
      then show ?thesis
        using 1 b Some IH by (cases o1) (auto simp: Let_def split: if_splits)
    qed (use 1 in auto)
  qed
  then show ?thesis using assms by fastforce
qed

lemma keeps_probe: "I a \<Longrightarrow> I (snd (zero_window_probe now a))"
  by (auto simp: zero_window_probe_def keeps_moved split: option.split prod.split)

lemma keeps_pop_pending:
  assumes "pop_pending_data_chunks_to_send now a = Some r" and "I a"
  shows "I (snd r)"
proof (cases "pop_pending_loop now a [] []")
  case None
  then show ?thesis using assms by (auto simp: pop_pending_data_chunks_to_send_def split: if_splits)
next
  case (Some t)
  obtain cs sis b where t: "t = (cs, sis, b)" by (cases t)
  have "I b" using keeps_pop_loop Some t assms(2) by blast
  then show ?thesis
    using assms Some t keeps_probe
    by (auto simp: pop_pending_data_chunks_to_send_def case_prod_beta split: if_splits intro!: keeps_then_do)
qed

lemma keeps_gather_data:
  "gather_outbound_data_and_reconfig_packets crc now raws a = Some r \<Longrightarrow> I a \<Longrightarrow> I (snd r)"
  by (auto simp: gather_outbound_data_and_reconfig_packets_def Let_def case_prod_beta
      split: option.splits intro!: keeps_then_do keeps_gather_reconfig dest: keeps_pop_pending)

lemma keeps_gather: "gather_outbound crc now a = Some r \<Longrightarrow> I a \<Longrightarrow> I (snd r)"
  by (auto simp: gather_outbound_def Let_def case_prod_beta split: if_splits option.splits
      intro!: keeps_then_do keeps_gather_fast keeps_gather_sack keeps_gather_forward keeps_gather_shutdown
        keeps_gather_retransmit dest!: keeps_gather_data)

end

text \<open>What the sender's invariant depends on.\<close>

definition flight_view :: "association \<Rightarrow> (u32 \<times> u32 \<times> pending_queue) \<times> payload_queue" where
  "flight_view a = (sender_view a, as_inflight_queue a)"

interpretation flight: inbound_invariant "\<lambda>a. flight_view a = w" for w
  by unfold_locales (simp_all add: flight_view_def sender_view_def)

interpretation counts: inbound_invariant "\<lambda>a. queue_counts (as_payload_queue a)"
  by unfold_locales simp_all

interpretation counts_out: outbound_invariant "\<lambda>a. queue_counts (as_payload_queue a)"
  by unfold_locales (simp_all add: queue_counts_def)

text \<open>What is pending, and the next TSN: only new data changes them.\<close>

definition unsent_view :: "association \<Rightarrow> u32 \<times> pending_queue" where
  "unsent_view a = (as_my_next_tsn a, sh_pending_queue a)"

interpretation unsent: resend_invariant "\<lambda>a. unsent_view a = w" for w
  by unfold_locales (simp_all add: unsent_view_def)

interpretation unsent_in: inbound_invariant "\<lambda>a. unsent_view a = w" for w
  by unfold_locales (simp_all add: unsent_view_def)

section \<open>No handler panics\<close>

lemma queue_counts_is_empty: "queue_counts q \<Longrightarrow> \<exists>b. payload_queue_is_empty q = Ok b"
  by (simp add: payload_queue_is_empty_def payload_queue_len_def queue_counts_def)

lemma returns_peer_last_tsn_ack:
  assumes "queue_counts (as_payload_queue a)"
  shows "returns (handle_peer_last_tsn_and_acknowledgement b a)"
proof -
  obtain r c where c: "advance_peer_last_tsn a = (r, c)" by fastforce
  have "queue_counts (as_payload_queue c)" using counts.keeps_advance [OF assms] by (simp add: c)
  then obtain n where "payload_queue_is_empty (as_payload_queue c) = Ok n" using queue_counts_is_empty by blast
  then show ?thesis using c by (simp add: handle_peer_last_tsn_and_acknowledgement_def Let_def)
qed

lemma returns_handle_data:
  assumes "queue_counts (as_payload_queue a)"
  shows "returns (handle_data d a)"
proof -
  let ?a = "a\<lparr>as_stats := inc_datas (as_stats a)\<rparr>"
  have "queue_counts (as_payload_queue (snd (accept_data d ?a)))"
    using assms by (intro counts.keeps_accept_data) simp
  then show ?thesis
    by (auto simp: handle_data_def Let_def case_prod_beta split: option.split intro!: returns_peer_last_tsn_ack)
qed

lemma returns_forward_tsn: "queue_counts (as_payload_queue a) \<Longrightarrow> returns (handle_forward_tsn c a)"
  by (auto simp: handle_forward_tsn_def Let_def counts.keeps_foldl
      intro!: returns_peer_last_tsn_ack counts.keeps_forward)

lemma returns_reconfig_param: "returns (handle_reconfig_param p a)"
  by (cases p) (simp_all add: handle_reconfig_param_def Let_def case_prod_beta)

lemma returns_reconfig: "returns (handle_reconfig c a)"
  by (auto simp: handle_reconfig_def intro!: returns_then_do returns_reconfig_param split: option.split)

lemma returns_shutdown: "flight_inv a \<Longrightarrow> returns (handle_shutdown a)"
  by (auto simp: handle_shutdown_def Let_def flight_is_empty)

lemma returns_unknown: "returns (handle_unknown_chunk (ChunkUnknown u) a)" "returns (handle_unknown_chunk (ChunkHeartbeatAck ps) a)"
  by (simp_all add: handle_unknown_chunk_def report_unrecognized_def chunk_marshal_def chunk_unknown_marshal_to_def
      chunk_header_marshal_to_def Let_def CT_HEARTBEAT_ACK_def)

lemma returns_init_ack: "returns (handle_init_ack p i a)"
  by (auto simp: handle_init_ack_def send_cookie_echo_def Let_def split: option.split)

text \<open>
  The invariant of both halves, and what a handler makes of it: it fails, or it keeps it, with nothing
  new in flight or pending.
\<close>

definition sane :: "association \<Rightarrow> bool" where
  "sane a \<longleftrightarrow> flight_inv a \<and> pending_length a + flight_length a < 2 ^ 31 \<and> queue_counts (as_payload_queue a)"

definition sane_after :: "association \<Rightarrow> 'a outcome \<times> association \<Rightarrow> bool" where
  "sane_after a r \<longleftrightarrow> (\<exists>e. fst r = Err e) \<or>
     is_ok (fst r) \<and> sane (snd r) \<and> flight_length (snd r) \<le> flight_length a \<and>
     sh_pending_queue (snd r) = sh_pending_queue a"

lemma sane_view:
  assumes "flight_view b = flight_view a" and "queue_counts (as_payload_queue b)" and "sane a"
  shows "sane b" and "flight_length b = flight_length a" and "sh_pending_queue b = sh_pending_queue a"
proof -
  have v: "sender_view b = sender_view a" "as_inflight_queue b = as_inflight_queue a"
    using assms(1) by (simp_all add: flight_view_def)
  show p: "sh_pending_queue b = sh_pending_queue a" using v(1) by (simp add: sender_view_def)
  show l: "flight_length b = flight_length a" by (rule view_eqD(2) [OF v(1)])
  have "pending_length b = pending_length a" by (simp add: pending_length_def p)
  then show "sane b" using assms(2,3) l flight_inv_view [OF v] by (simp add: sane_def)
qed

lemma sane_after_view:
  assumes "sane a" and "flight_view (snd r) = flight_view a" and "queue_counts (as_payload_queue (snd r))" and "returns r"
  shows "sane_after a r"
  using sane_view [OF assms(2,3,1)] assms(4) by (cases "fst r") (auto simp: sane_after_def returns_def)

lemma sane_after_sack: "sane a \<Longrightarrow> sane_after a (handle_sack rnd now d a)"
proof -
  assume a: "sane a"
  then have "queue_counts (as_payload_queue (snd (handle_sack rnd now d a)))"
    by (intro counts_out.keeps_handle_sack) (simp add: sane_def)
  moreover have "flight_inv a" "flight_length a < 2 ^ 31" using a by (simp_all add: sane_def)
  ultimately show ?thesis
    using handle_sack_any [of a rnd now d] a by (auto simp: sane_after_def sane_def pending_length_def)
qed

lemma returns_checked_chunk:
  assumes "sane a" and "\<And>d. c \<noteq> ChunkSelectiveAck d"
  shows "returns (handle_checked_chunk rnd now random32 p c a)"
proof -
  have a: "flight_inv a" "queue_counts (as_payload_queue a)" using assms(1) by (simp_all add: sane_def)
  show ?thesis
  proof (cases c)
    case (ChunkInit i)
    then show ?thesis by (simp add: handle_checked_chunk_def returns_init_ack) (simp add: handle_init_def Let_def)
  next
    case (ChunkHeartbeat ps)
    then show ?thesis by (simp add: handle_checked_chunk_def handle_heartbeat_def split: list.split param.split)
  next
    case (ChunkCookieEcho v)
    then show ?thesis by (simp add: handle_checked_chunk_def handle_cookie_echo_def Let_def split: option.split)
  next
    case ChunkCookieAck
    then show ?thesis by (simp add: handle_checked_chunk_def handle_cookie_ack_def Let_def)
  next
    case ChunkShutdownAck
    then show ?thesis by (simp add: handle_checked_chunk_def handle_shutdown_ack_def Let_def)
  next
    case ChunkShutdownComplete
    then show ?thesis by (simp add: handle_checked_chunk_def handle_shutdown_complete_def)
  qed (use assms(2) a in \<open>simp_all add: handle_checked_chunk_def returns_handle_data returns_forward_tsn
        returns_reconfig returns_shutdown returns_unknown\<close>)
qed

lemma sane_after_checked_chunk:
  assumes "sane a"
  shows "sane_after a (handle_checked_chunk rnd now random32 p c a)"
proof (cases "\<exists>d. c = ChunkSelectiveAck d")
  case True
  then show ?thesis using sane_after_sack [OF assms] by (auto simp: handle_checked_chunk_def)
next
  case False
  then show ?thesis
    using assms returns_checked_chunk [OF assms]
    by (intro sane_after_view) (auto simp: sane_def intro!: flight.keeps_checked_chunk counts.keeps_checked_chunk)
qed

text \<open>It composes, for a packet's chunks and for the packet.\<close>

lemma sane_after_bind:
  assumes "sane_after a r" and "\<And>x b. r = (Ok x, b) \<Longrightarrow> sane b \<Longrightarrow> sane_after b (f x b)"
  shows "sane_after a (then_do r f)"
proof (cases r)
  case (Pair o1 b)
  show ?thesis
  proof (cases o1)
    case (Ok x)
    then have b: "sane b" "flight_length b \<le> flight_length a" "sh_pending_queue b = sh_pending_queue a"
      using assms(1) Pair by (auto simp: sane_after_def)
    have "sane_after b (f x b)" using assms(2) Pair Ok b(1) by simp
    then show ?thesis using b Pair Ok by (auto simp: sane_after_def)
  qed (use assms(1) Pair in \<open>auto simp: sane_after_def\<close>)
qed

lemma sane_after_id: "sane a \<Longrightarrow> sane_after a (Ok x, a)"
  by (simp add: sane_after_def)

lemma sane_after_chunk:
  assumes "sane a"
  shows "sane_after a (handle_chunk rnd now random32 p c a)"
proof -
  have "sane_after a (chunk_check c, a)"
  proof (cases "chunk_check c")
    case Panic
    then show ?thesis by (cases c) (auto simp: init_check_def Let_def split: if_splits)
  qed (use assms in \<open>simp_all add: sane_after_def\<close>)
  moreover have "sane_after b (Ok (), if packets \<noteq> []
      then awake_write_loop (b\<lparr>as_control_queue := as_control_queue b @ packets\<rparr>) else b)" if "sane b" for packets b
    using that by (intro sane_after_view) (simp_all add: sane_def)
  ultimately show ?thesis
    unfolding handle_chunk_def by (intro sane_after_bind sane_after_checked_chunk)
qed

lemma sane_after_chunks:
  "sane a \<Longrightarrow> sane_after a (handle_chunks rnd now random32 p cs a)"
proof (induction cs arbitrary: a)
  case (Cons c cs)
  then show ?case by (simp add: sane_after_bind [OF sane_after_chunk])
qed (simp add: sane_after_id)

lemma check_packet_returns: "check_packet p \<noteq> Panic"
proof -
  have "check_packet_chunks p cs \<noteq> Panic" for cs
    by (induction cs) (simp_all split: chunk.split)
  then show ?thesis by (simp add: check_packet_def)
qed

lemma sane_after_inbound:
  assumes "sane a" and "packet_unmarshal crc now raw \<noteq> Panic"
  shows "sane_after a (handle_inbound crc rnd now random32 raw a)"
proof -
  have start: "sane_after a (Ok (), handle_chunk_start a)" if "sane a" for a
    using that by (intro sane_after_view) (simp_all add: sane_def)
  have fin: "sane_after a (Ok (), handle_chunk_end a)" if "sane a" for a
    using that by (intro sane_after_view) (simp_all add: sane_def)
  have "sane_after a (then_do (Ok (), handle_chunk_start a) (\<lambda>_ a.
      then_do (handle_chunks rnd now random32 p (pk_chunks p) a) (\<lambda>_ a. (Ok (), handle_chunk_end a))))" for p
    by (intro sane_after_bind start fin assms(1) sane_after_chunks)
  moreover note check_packet_returns
  ultimately show ?thesis
    using assms sane_after_id [OF assms(1)]
    by (auto simp: handle_inbound_def split: outcome.split)
qed

end
