(* ===== verification/Delivery.thy ===== *)
theory Delivery
  imports Session
begin

text \<open>
  From a write on one end to a read on the other: a message that fits one fragment is written,
  sent, received, read and acknowledged; what is left is a state from which the next message
  goes the same way.  All steps are the operations of the other theories.
\<close>

section \<open>Writing and reading through an association\<close>

definition write_message ::
  "time_ms \<Rightarrow> u16 \<Rightarrow> bytes \<Rightarrow> association \<Rightarrow> (nat outcome \<times> association) option" where
  "write_message now si p a =
     (case hm_get (as_streams a) si of
        None \<Rightarrow> None
      | Some s \<Rightarrow>
          (case stream_write s a now p of
             None \<Rightarrow> None
           | Some (r, s, a) \<Rightarrow> Some (r, a\<lparr>as_streams := hm_insert si s (as_streams a)\<rparr>)))"

definition read_message ::
  "u16 \<Rightarrow> nat \<Rightarrow> association \<Rightarrow> ((bytes \<times> payload_protocol_identifier) outcome \<times> association) option" where
  "read_message si buf_len b =
     (case hm_get (as_streams b) si of
        None \<Rightarrow> None
      | Some s \<Rightarrow>
          (case reader_check s of
             Reader_read \<Rightarrow>
               (case reader_read buf_len s of
                  (Reader_done r, s) \<Rightarrow> Some (r, b\<lparr>as_streams := hm_insert si s (as_streams b)\<rparr>)
                | _ \<Rightarrow> None)
           | _ \<Rightarrow> None))"

section \<open>The write\<close>

definition can_write :: "u16 \<Rightarrow> u16 \<Rightarrow> stream \<Rightarrow> bool" where
  "can_write si ssn s \<longleftrightarrow> st_stream_identifier s = si \<and> st_sequence_number s = ssn \<and>
     st_max_payload_size s = 1200 \<and> \<not> st_write_shutdown s \<and> \<not> st_unordered s \<and> st_reliability_type s = 0 \<and>
     st_buffered_amount s = 0"

definition message_chunk :: "time_ms \<Rightarrow> stream \<Rightarrow> cell \<Rightarrow> bytes \<Rightarrow> payload_data" where
  "message_chunk now s n p = (payload_data_default now)
     \<lparr>pd_stream_identifier := st_stream_identifier s, pd_user_data := p, pd_unordered := False,
      pd_beginning_fragment := True, pd_ending_fragment := True, pd_immediate_sack := False,
      pd_payload_type := ppi_of_u32 (st_default_payload_type s),
      pd_stream_sequence_number := st_sequence_number s, pd_abandoned := n, pd_all_inflight := n + 1\<rparr>"

definition sized :: "bytes \<Rightarrow> bool" where
  "sized p \<longleftrightarrow> p \<noteq> [] \<and> length p \<le> 1200"

lemma packetize_one:
  assumes "can_write si ssn s" and "sized p"
  shows "packetize s sh now p (ppi_of_u32 (st_default_payload_type s)) =
    Some ([message_chunk now s (sh_next_cell sh) p],
      s\<lparr>st_sequence_number := ssn + 1, st_buffered_amount := st_buffered_amount s + of_nat (length p)\<rparr>,
      snd (snd (new_cells sh)))"
proof -
  have "packetize_loop s now p ppi False h i 0 (length p) [] =
      Some [(message_chunk now s h p)\<lparr>pd_payload_type := ppi, pd_all_inflight := i\<rparr>]" for ppi h i
    using assms by (simp add: packetize_loop.simps [of s now p] can_write_def sized_def message_chunk_def min_absorb2)
  then show ?thesis
    using assms(1) by (simp add: packetize_def can_write_def new_cells_def Let_def message_chunk_def)
qed

definition message_written :: "time_ms \<Rightarrow> u16 \<Rightarrow> stream \<Rightarrow> bytes \<Rightarrow> association \<Rightarrow> association" where
  "message_written now si s p a = a
     \<lparr>sh_cells := (sh_cells a)(sh_next_cell a := False, sh_next_cell a + 1 := False), sh_next_cell := sh_next_cell a + 2,
      sh_pending_queue := pending_queue_push pending_queue_new (message_chunk now s (sh_next_cell a) p), sh_awake := True,
      as_streams := hm_insert si (s\<lparr>st_sequence_number := st_sequence_number s + 1,
        st_buffered_amount := st_buffered_amount s + of_nat (length p)\<rparr>) (as_streams a)\<rparr>"

lemma write_message_one:
  assumes "hm_get (as_streams a) si = Some s" and "can_write si ssn s" and "sized p" and "get_state a = Established"
    and "1200 \<le> sh_max_message_size a" and "sh_pending_queue a = pending_queue_new"
  shows "write_message now si p a = Some (Ok (length p), message_written now si s p a)"
proof -
  have "length p \<le> unat (sh_max_message_size a)"
    using assms(3,5) by (simp add: sized_def word_le_nat_alt)
  moreover have "get_state (snd (snd (new_cells a))) = Established"
    using assms(4) by (simp add: new_cells_def Let_def get_state_def)
  ultimately show ?thesis
    using assms(1,2,4,6)
    by (simp add: write_message_def stream_write_def write_sctp_def packetize_one [OF assms(2,3)]
        send_payload_data_def pending_push_all_def can_write_def)
      (simp add: new_cells_def Let_def message_written_def can_write_def)
qed

section \<open>Sending it\<close>

definition one_in_flight :: "payload_data \<Rightarrow> payload_queue" where
  "one_in_flight c = \<lparr>pq_length = 1, pq_chunk_map = [(pd_tsn c, c)], pq_sorted = [pd_tsn c], pq_dup_tsn = [],
     pq_n_bytes = of_nat (length (pd_user_data c))\<rparr>"

lemma push_no_check_new: "payload_queue_push_no_check payload_queue_new c = one_in_flight c"
  by (simp add: payload_queue_push_no_check_def payload_queue_new_def one_in_flight_def update_sorted_keys_def sort_by_def)

lemma pending_one:
  assumes "\<not> pd_unordered c" and "pd_beginning_fragment c" and "pd_ending_fragment c"
  shows "pending_queue_peek (pending_queue_push pending_queue_new c) = Some c"
    and "pending_queue_pop (pending_queue_push pending_queue_new c) True False = (Some c, pending_queue_new)"
    and "pending_queue_len (pending_queue_push pending_queue_new c) = 1"
  using assms
  by (simp_all add: pending_queue_peek_def pending_queue_push_def pending_queue_new_def pending_queue_pop_def
      pop_front_ordered_def pending_queue_popped_def pending_queue_len_def)

lemma peek_new [simp]: "pending_queue_peek pending_queue_new = None"
  by (simp add: pending_queue_peek_def pending_queue_new_def)

definition sent_chunk :: "time_ms \<Rightarrow> payload_data \<Rightarrow> association \<Rightarrow> payload_data" where
  "sent_chunk now c a = c\<lparr>pd_tsn := as_my_next_tsn a, pd_since := now, pd_nsent := 1\<rparr>"

definition message_sent :: "time_ms \<Rightarrow> payload_data \<Rightarrow> association \<Rightarrow> association" where
  "message_sent now c a = start_t3rtx (a
     \<lparr>as_rwnd := as_rwnd a - of_nat (length (pd_user_data c)), sh_pending_queue := pending_queue_new,
      sh_cells := payload_data_set_all_inflight c (sh_cells a), as_my_next_tsn := as_my_next_tsn a + 1,
      as_inflight_queue := one_in_flight (sent_chunk now c a)\<rparr>)"

lemma pop_pending_one:
  assumes "sh_pending_queue a = pending_queue_push pending_queue_new c" and "as_inflight_queue a = payload_queue_new"
    and "\<not> pd_unordered c" and "pd_beginning_fragment c" and "pd_ending_fragment c" and "sized (pd_user_data c)"
    and "1200 \<le> as_cwnd a" and "1200 \<le> as_rwnd a"
    and "hm_get (as_streams a) (pd_stream_identifier c) = Some s" and "st_reliability_type s = 0"
  shows "pop_pending_data_chunks_to_send now a = Some (Ok ([sent_chunk now c a], []),
    a\<lparr>as_rwnd := as_rwnd a - of_nat (length (pd_user_data c)), sh_pending_queue := pending_queue_new,
      sh_cells := payload_data_set_all_inflight c (sh_cells a), as_my_next_tsn := as_my_next_tsn a + 1,
      as_inflight_queue := one_in_flight (sent_chunk now c a)\<rparr>)"
proof -
  let ?n = "of_nat (length (pd_user_data c)) :: usize"
  have n: "unat ?n = length (pd_user_data c)" "?n \<noteq> 0"
    using assms(6) by (auto simp: sized_def unat_usize_of_nat usize_of_nat_eq_0)
  have "unat ?n \<le> unat (as_cwnd a)" "unat ?n \<le> unat (as_rwnd a)"
    using assms(6-8) n(1) by (auto simp: sized_def word_le_nat_alt)
  then have w: "\<not> ucast (as_cwnd a) < ?n" "\<not> ucast (as_rwnd a) < ?n"
    by (simp_all add: word_less_nat_alt unat_ucast_usize)
  have u: "(ucast ?n :: u32) = of_nat (length (pd_user_data c))"
    using assms(6) by (simp add: sized_def word_unat_eq_iff unsigned_ucast_eq unsigned_take_bit_eq take_bit_eq_mod n(1) unat_of_nat_less)
  have rel: "reliability_type_of_u8 (0 :: u8) = Reliable" by (simp add: reliability_type_of_u8_def)
  show ?thesis
    using assms w n(2)
    by (simp add: pop_pending_data_chunks_to_send_def pending_one pop_pending_loop.simps [of now]
        move_pending_data_chunk_to_inflight_queue_def generate_next_tsn_def check_partial_reliability_status_def
        sent_chunk_def push_no_check_new payload_queue_get_num_bytes_def payload_queue_new_def [THEN arg_cong, of pq_n_bytes]
        rel u Let_def)
qed

text \<open>An association with nothing to do but its pending data.\<close>

definition only_data :: "association \<Rightarrow> bool" where
  "only_data a \<longleftrightarrow> get_state a = Established \<and> as_inflight_queue a = payload_queue_new \<and>
     as_control_queue a = [] \<and> \<not> as_will_retransmit_fast a \<and> as_ack_state a = Ack_Idle \<and>
     \<not> as_will_send_forward_tsn a \<and> \<not> as_will_retransmit_reconfig a \<and> ports_5000 a \<and> as_mtu a = 1228"

lemma bundle_one:
  assumes "sized (pd_user_data c)" and "as_mtu a = 1228"
  shows "bundle_data_chunks_into_packets [c] a = [create_packet a [ChunkPayloadData c]]"
proof -
  have "unat (of_nat (length (pd_user_data c)) :: u32) = length (pd_user_data c)"
    using assms(1) by (simp add: sized_def unat_of_nat_less)
  then have l: "(of_nat (length (pd_user_data c)) :: u32) \<le> 1200"
    using assms(1) by (simp add: sized_def word_le_nat_alt)
  have "12 + x \<le> 1228" if "x \<le> 1200" for x :: u32
    using that unat_plus_if' [of 12 x] by (simp add: word_le_nat_alt)
  then show ?thesis
    using l assms(2)
    by (simp add: bundle_data_chunks_into_packets_def association_consts not_less Let_def)
qed

lemma gather_one:
  assumes "only_data a" and "sh_pending_queue a = pending_queue_push pending_queue_new c"
    and "\<not> pd_unordered c" and "pd_beginning_fragment c" and "pd_ending_fragment c" and "sized (pd_user_data c)"
    and "1200 \<le> as_cwnd a" and "1200 \<le> as_rwnd a"
    and "hm_get (as_streams a) (pd_stream_identifier c) = Some s" and "st_reliability_type s = 0"
    and "packet_marshal crc (packet_5000 (as_peer_verification_tag a) (ChunkPayloadData (sent_chunk now c a))) = Ok raw"
  shows "gather_outbound crc now a = Some (Ok ([raw], True), message_sent now c a)"
proof -
  note a = assms(1) [unfolded only_data_def ports_5000_def]
  have same: "a\<lparr>as_control_queue := []\<rparr> = a" using a by (intro association.equality) simp_all
  define b where "b = a\<lparr>as_rwnd := as_rwnd a - of_nat (length (pd_user_data c)), sh_pending_queue := pending_queue_new,
      sh_cells := payload_data_set_all_inflight c (sh_cells a), as_my_next_tsn := as_my_next_tsn a + 1,
      as_inflight_queue := one_in_flight (sent_chunk now c a)\<rparr>"
  define m where "m = start_t3rtx b"
  have m: "message_sent now c a = m" by (simp add: m_def b_def message_sent_def)
  have f: "as_will_retransmit_reconfig m = False" "as_mtu m = 1228"
      "create_packet m [ChunkPayloadData (sent_chunk now c a)] =
        packet_5000 (as_peer_verification_tag a) (ChunkPayloadData (sent_chunk now c a))"
    using a by (simp_all add: m_def b_def start_t3rtx_def create_packet_def packet_5000_def)
  have "sized (pd_user_data (sent_chunk now c a))" using assms(6) by (simp add: sent_chunk_def)
  then have "gather_outbound_data_and_reconfig_packets crc now [] a = Some (Ok [raw], message_sent now c a)"
    using pop_pending_one [OF assms(2) _ assms(3-10)] a
    by (simp add: gather_outbound_data_and_reconfig_packets_def bundle_one f push_raw_def assms(11)
        gather_reconfig_packets_def m b_def [symmetric] m_def [symmetric])
  moreover have "as_will_retransmit_fast (message_sent now c a) = False" "as_ack_state (message_sent now c a) = Ack_Idle"
      "as_will_send_forward_tsn (message_sent now c a) = False"
    using a by (simp_all add: message_sent_def start_t3rtx_def)
  ultimately show ?thesis
    using a gather_nothing(1) [of a crc now "[]"]
    by (simp add: gather_outbound_def same gather_outbound_fast_retransmission_packets_def
        gather_outbound_sack_packets_def gather_outbound_forward_tsn_packets_def)
qed

section \<open>Receiving it\<close>

lemma one_in_flight_pop [simp]:
  "payload_queue_pop (one_in_flight c) (pd_tsn c) = (Some c, payload_queue_new)"
  by (simp add: payload_queue_pop_def one_in_flight_def payload_queue_new_def)

lemma pop_new [simp]: "payload_queue_pop payload_queue_new t = (None, payload_queue_new)"
  by (simp add: payload_queue_pop_def payload_queue_new_def)

lemma push_new:
  assumes "pd_tsn d = t + 1"
  shows "payload_queue_can_push payload_queue_new d t" and "payload_queue_push payload_queue_new d t = (True, one_in_flight d)"
proof -
  have "\<not> sna32lte (t + 1) t" using s32.asym s32.lt_succ [of t] by (auto simp: sna32lte_def)
  then show "payload_queue_can_push payload_queue_new d t" and "payload_queue_push payload_queue_new d t = (True, one_in_flight d)"
    using assms
    by (simp_all add: payload_queue_can_push_def payload_queue_push_def payload_queue_new_def one_in_flight_def
        update_sorted_keys_def sort_by_def)
qed

definition waiting_for :: "u16 \<Rightarrow> u16 \<Rightarrow> reassembly_queue" where
  "waiting_for si ssn = (reassembly_queue_new si)\<lparr>rq_next_ssn := ssn\<rparr>"

definition holding :: "u16 \<Rightarrow> payload_data \<Rightarrow> reassembly_queue" where
  "holding si d = (waiting_for si (pd_stream_sequence_number d))
     \<lparr>rq_ordered := [\<lparr>cs_ssn = pd_stream_sequence_number d, cs_ppi = pd_payload_type d, cs_chunks = [d]\<rparr>],
      rq_n_bytes := of_nat (length (pd_user_data d))\<rparr>"

lemma push_waiting:
  assumes "pd_stream_identifier d = si" and "\<not> pd_unordered d" and "pd_beginning_fragment d" and "pd_ending_fragment d"
  shows "reassembly_queue_push (waiting_for si (pd_stream_sequence_number d)) d = (True, holding si d)"
    and "reassembly_queue_is_readable (holding si d)"
  using assms
  by (simp_all add: reassembly_queue_push_def waiting_for_def holding_def reassembly_queue_new_def s16.irrefl
      chunk_set_push_def chunk_set_new_def chunk_set_is_complete_def sort_chunks_by_tsn_def sort_chunks_by_ssn_def
      sort_by_def reassembly_queue_is_readable_def sna16lte_def Let_def)

lemma read_holding:
  assumes "length (pd_user_data d) \<le> buf_len" and "pd_beginning_fragment d" and "pd_ending_fragment d"
  shows "reassembly_queue_read (holding si d) buf_len =
    (Ok (pd_user_data d, pd_payload_type d), waiting_for si (pd_stream_sequence_number d + 1))"
  using assms
  by (simp add: reassembly_queue_read_def holding_def waiting_for_def reassembly_queue_new_def chunk_set_is_complete_def
      sna16gt_iff subtract_num_bytes_def Let_def)

definition stream_or_new :: "u16 \<Rightarrow> association \<Rightarrow> stream" where
  "stream_or_new si b =
     (case hm_get (as_streams b) si of Some s \<Rightarrow> s | None \<Rightarrow> stream_new si (as_max_payload_size b))"

text \<open>No stream holds unread bytes, so that the whole buffer can be advertised.\<close>

definition all_read :: "(u16, stream) hmap \<Rightarrow> bool" where
  "all_read m \<longleftrightarrow> (\<forall>s \<in> set (hm_values m). rq_n_bytes (st_reassembly_queue s) = 0)"

lemma all_read_insert:
  "all_read m \<Longrightarrow> rq_n_bytes (st_reassembly_queue s) = 0 \<Longrightarrow> all_read (hm_insert si s m)"
  unfolding all_read_def by (induction m) (auto split: if_splits)

lemma stream_or_new_cong:
  "as_streams b' = as_streams b \<Longrightarrow> as_max_payload_size b' = as_max_payload_size b \<Longrightarrow>
    stream_or_new si b' = stream_or_new si b"
  by (simp add: stream_or_new_def cong: option.case_cong)

definition can_receive :: "u16 \<Rightarrow> u16 \<Rightarrow> association \<Rightarrow> bool" where
  "can_receive si ssn b \<longleftrightarrow> as_payload_queue b = payload_queue_new \<and> as_reconfig_requests b = [] \<and>
     as_ack_mode b = Ack_Normal \<and> as_ack_state b = Ack_Idle \<and> 1500 \<le> as_max_receive_buffer_size b \<and>
     all_read (as_streams b) \<and>
     st_reassembly_queue (stream_or_new si b) = waiting_for si ssn \<and> \<not> st_read_shutdown (stream_or_new si b) \<and>
     (hm_contains (as_streams b) si \<or> length (as_accept_ch b) < ACCEPT_CH_SIZE)"

definition with_stream :: "u16 \<Rightarrow> association \<Rightarrow> association" where
  "with_stream si b =
     (if hm_contains (as_streams b) si then b
      else b\<lparr>as_accept_ch := as_accept_ch b @ [si],
             as_streams := hm_insert si (stream_new si (as_max_payload_size b)) (as_streams b)\<rparr>)"

definition with_message :: "u16 \<Rightarrow> payload_data \<Rightarrow> association \<Rightarrow> stream" where
  "with_message si d b = stream_notify_one ((stream_or_new si b)\<lparr>st_reassembly_queue := holding si d\<rparr>)"

definition data_received :: "u16 \<Rightarrow> payload_data \<Rightarrow> association \<Rightarrow> association" where
  "data_received si d b = (with_stream si b)
     \<lparr>as_stats := inc_datas (as_stats b), as_delayed_ack_triggered := True, as_immediate_ack_triggered := False,
      as_streams := hm_insert si (with_message si d b) (as_streams (with_stream si b)),
      as_peer_last_tsn := pd_tsn d, as_ack_state := Ack_Delay, as_ack_timer := snd (ack_timer_start (as_ack_timer b))\<rparr>"

lemma credit_empty:
  assumes "all_read (as_streams b)" and "0 < as_max_receive_buffer_size b"
  shows "get_my_receiver_window_credit b = as_max_receive_buffer_size b"
proof -
  have "foldl (\<lambda>n s. n + ucast (stream_get_num_bytes_in_reassembly_queue s)) n ss = n"
    if "\<forall>s \<in> set ss. rq_n_bytes (st_reassembly_queue s) = 0" for n :: u32 and ss
    using that by (induction ss) (simp_all add: stream_get_num_bytes_in_reassembly_queue_def reassembly_queue_get_num_bytes_def)
  from this [OF assms(1) [unfolded all_read_def]] show ?thesis using assms(2) by (simp add: get_my_receiver_window_credit_def not_le)
qed

lemma with_stream_facts:
  assumes "can_receive si ssn b"
  shows "get_or_create_stream si b = (True, with_stream si b)"
    and "hm_get (as_streams (with_stream si b)) si = Some (stream_or_new si b)"
    and "get_my_receiver_window_credit (with_stream si b) = as_max_receive_buffer_size b"
proof -
  note b = assms [unfolded can_receive_def]
  show "get_or_create_stream si b = (True, with_stream si b)"
    using b by (auto simp: get_or_create_stream_def create_stream_def with_stream_def Let_def)
  show "hm_get (as_streams (with_stream si b)) si = Some (stream_or_new si b)"
    by (auto simp: with_stream_def stream_or_new_def update_conv' split: option.split)
  have "all_read (as_streams (with_stream si b))"
    using b by (auto simp: with_stream_def stream_new_def reassembly_queue_new_def intro!: all_read_insert)
  moreover have "0 < as_max_receive_buffer_size b" using b by (simp add: word_less_nat_alt word_le_nat_alt)
  ultimately show "get_my_receiver_window_credit (with_stream si b) = as_max_receive_buffer_size b"
    using credit_empty [of "with_stream si b"] by (simp add: with_stream_def)
qed

lemma receive_data:
  assumes "can_receive si ssn b" and "pd_tsn d = as_peer_last_tsn b + 1" and "pd_stream_identifier d = si"
    and "pd_stream_sequence_number d = ssn" and "\<not> pd_unordered d" and "pd_beginning_fragment d"
    and "pd_ending_fragment d" and "\<not> pd_immediate_sack d"
  shows "receive rnd now random32 (packet_5000 t (ChunkPayloadData d)) b = data_received si d b"
proof -
  note b = assms(1) [unfolded can_receive_def]
  define b0 where "b0 = (handle_chunk_start b)\<lparr>as_stats := inc_datas (as_stats b)\<rparr>"
  have st: "stream_or_new si b0 = stream_or_new si b"
    by (rule stream_or_new_cong) (simp_all add: b0_def handle_chunk_start_def)
  have s0: "stream_or_new si b0 = stream_or_new si b" "as_payload_queue b0 = payload_queue_new"
      "as_peer_last_tsn b0 = as_peer_last_tsn b" "can_receive si ssn b0" "0 < as_max_receive_buffer_size b0"
    using b st by (simp_all add: can_receive_def) (simp_all add: b0_def handle_chunk_start_def word_less_nat_alt word_le_nat_alt)
  define b1 where "b1 = (with_stream si b0)\<lparr>as_payload_queue := one_in_flight d\<rparr>"
  have f: "as_payload_queue (with_stream si b0) = payload_queue_new" "as_peer_last_tsn (with_stream si b0) = as_peer_last_tsn b"
      "as_max_receive_buffer_size (with_stream si b0) = as_max_receive_buffer_size b0"
    using s0 by (simp_all add: with_stream_def)
  have acc: "accept_data d b0 = (Some True, b1)"
    using with_stream_facts [OF s0(4)] push_new [OF assms(2)] s0 f assms(3)
    by (simp add: accept_data_def b1_def Let_def)
  define b2 where "b2 = b1\<lparr>as_streams := hm_insert si (with_message si d b) (as_streams b1)\<rparr>"
  have "stream_handle_data (stream_or_new si b) d = with_message si d b"
    using push_waiting [OF assms(3,5-7)] b assms(4)
    by (simp add: stream_handle_data_def stream_push_data_def with_message_def)
  then have upd: "update_stream si (\<lambda>s. stream_handle_data s d) b1 = b2"
    using with_stream_facts(2) [OF s0(4)] s0(1) by (simp add: update_stream_def b2_def) (simp add: b1_def)
  define b3 where "b3 = b2\<lparr>as_payload_queue := payload_queue_new, as_peer_last_tsn := pd_tsn d\<rparr>"
  have f2: "as_payload_queue b2 = one_in_flight d" "as_peer_last_tsn b2 + 1 = pd_tsn d" "as_reconfig_requests b2 = []"
    using b f assms(2) by (simp_all add: b2_def b1_def) (simp_all add: with_stream_def b0_def handle_chunk_start_def)
  have "advance_peer_last_tsn b2 = ([], b3)"
    by (subst advance_peer_last_tsn.simps, simp add: f2, subst advance_peer_last_tsn.simps)
      (simp add: f2 b3_def)
  moreover have "as_ack_state b3 = Ack_Idle" "as_ack_mode b3 = Ack_Normal" "as_payload_queue b3 = payload_queue_new"
    using b by (simp_all add: b3_def b2_def b1_def) (simp_all add: with_stream_def b0_def handle_chunk_start_def)
  ultimately have ack: "handle_peer_last_tsn_and_acknowledgement False b2 = (Ok [], b3\<lparr>as_delayed_ack_triggered := True\<rparr>)"
    by (simp add: handle_peer_last_tsn_and_acknowledgement_def Let_def)
  have b0: "(handle_chunk_start b)\<lparr>as_stats := inc_datas (as_stats (handle_chunk_start b))\<rparr> = b0"
    by (simp add: b0_def handle_chunk_start_def)
  have "handle_data d (handle_chunk_start b) = (Ok [], b3\<lparr>as_delayed_ack_triggered := True\<rparr>)"
    using assms(3,8) by (simp add: handle_data_def b0 acc upd ack)
  then have "receive rnd now random32 (packet_5000 t (ChunkPayloadData d)) b =
      handle_chunk_end (b3\<lparr>as_delayed_ack_triggered := True\<rparr>)"
    by (simp add: receive_def packet_5000_def handle_chunk_def handle_checked_chunk_def)
  also have "\<dots> = data_received si d b"
    using b
    by (intro association.equality)
      (simp_all add: handle_chunk_end_def data_received_def b3_def b2_def b1_def b0_def with_stream_def handle_chunk_start_def)
  finally show ?thesis .
qed

section \<open>Reading it\<close>

definition data_read :: "u16 \<Rightarrow> payload_data \<Rightarrow> association \<Rightarrow> association" where
  "data_read si d b = (data_received si d b)
     \<lparr>as_streams := hm_insert si
        ((with_message si d b)\<lparr>st_reassembly_queue := waiting_for si (pd_stream_sequence_number d + 1)\<rparr>)
        (as_streams (with_stream si b))\<rparr>"

lemma read_message_one:
  assumes "can_receive si ssn b" and "length (pd_user_data d) \<le> buf_len" and "pd_beginning_fragment d" and "pd_ending_fragment d"
  shows "read_message si buf_len (data_received si d b) =
    Some (Ok (pd_user_data d, pd_payload_type d), data_read si d b)"
proof -
  note b = assms(1) [unfolded can_receive_def]
  have s: "hm_get (as_streams (data_received si d b)) si = Some (with_message si d b)"
    by (simp add: data_received_def update_conv')
  have w: "st_reassembly_queue (with_message si d b) = holding si d" "\<not> st_read_shutdown (with_message si d b)"
    using b by (simp_all add: with_message_def stream_notify_one_def)
  show ?thesis
    using read_holding [OF assms(2-4), of si] w
    by (simp add: read_message_def s reader_check_def reader_read_def data_read_def) (simp add: data_received_def)
qed

section \<open>Acknowledging it\<close>

definition sack_for :: "association \<Rightarrow> selective_ack" where
  "sack_for b = \<lparr>sa_cumulative_tsn_ack = as_peer_last_tsn b, sa_advertised_receiver_window_credit = as_max_receive_buffer_size b,
     sa_gap_ack_blocks = [], sa_duplicate_tsn = []\<rparr>"

definition only_ack :: "association \<Rightarrow> bool" where
  "only_ack b \<longleftrightarrow> get_state b = Established \<and> as_inflight_queue b = payload_queue_new \<and>
     sh_pending_queue b = pending_queue_new \<and> as_control_queue b = [] \<and> \<not> as_will_retransmit_fast b \<and>
     as_ack_state b = Ack_Immediate \<and> \<not> as_will_send_forward_tsn b \<and> \<not> as_will_retransmit_reconfig b \<and>
     ports_5000 b \<and> as_payload_queue b = payload_queue_new \<and> all_read (as_streams b) \<and> 0 < as_max_receive_buffer_size b"

lemma gather_ack:
  assumes "only_ack b" and "packet_marshal crc (packet_5000 (as_peer_verification_tag b) (ChunkSelectiveAck (sack_for b))) = Ok raw"
  shows "gather_outbound crc now b = Some (Ok ([raw], True), b\<lparr>as_ack_state := Ack_Idle\<rparr>)"
proof -
  note b = assms(1) [unfolded only_ack_def ports_5000_def]
  have same: "b\<lparr>as_control_queue := []\<rparr> = b" using b by (intro association.equality) simp_all
  have credit: "get_my_receiver_window_credit (b\<lparr>as_ack_state := Ack_Idle\<rparr>) = as_max_receive_buffer_size b"
    using b credit_empty [of "b\<lparr>as_ack_state := Ack_Idle\<rparr>"] by simp
  have new: "payload_queue_pop_duplicates payload_queue_new = ([], payload_queue_new)"
      "payload_queue_get_gap_ack_blocks payload_queue_new t = []" for t
    by (simp_all add: payload_queue_pop_duplicates_def payload_queue_new_def payload_queue_get_gap_ack_blocks_def)
  have same': "b\<lparr>as_ack_state := Ack_Idle, as_payload_queue := payload_queue_new\<rparr> = b\<lparr>as_ack_state := Ack_Idle\<rparr>"
    using b by (intro association.equality) simp_all
  have sack: "create_selective_ack_chunk (b\<lparr>as_ack_state := Ack_Idle\<rparr>) = (sack_for b, b\<lparr>as_ack_state := Ack_Idle\<rparr>)"
    using b by (simp add: create_selective_ack_chunk_def credit new sack_for_def same')
  have p: "create_packet (b\<lparr>as_ack_state := Ack_Idle\<rparr>) [ChunkSelectiveAck (sack_for b)] =
      packet_5000 (as_peer_verification_tag b) (ChunkSelectiveAck (sack_for b))"
    using b by (simp add: create_packet_def packet_5000_def)
  show ?thesis
    using b gather_nothing(1-3) [of b crc]
    by (simp add: gather_outbound_def same gather_outbound_sack_packets_def sack p push_raw_def assms(2)
        gather_outbound_forward_tsn_packets_def)
qed

text \<open>The sender's state with one chunk in flight, and what the SACK makes of it.\<close>

definition awaiting_ack :: "u16 \<Rightarrow> payload_data \<Rightarrow> stream \<Rightarrow> association \<Rightarrow> bool" where
  "awaiting_ack si c s a \<longleftrightarrow> get_state a = Established \<and> as_inflight_queue a = one_in_flight c \<and>
     pd_tsn c = as_cumulative_tsn_ack_point a + 1 \<and> as_advanced_peer_tsn_ack_point a = as_cumulative_tsn_ack_point a \<and>
     sh_pending_queue a = pending_queue_new \<and> \<not> as_in_fast_recovery a \<and> as_use_forward_tsn a \<and>
     \<not> pd_acked c \<and> pd_nsent c = 1 \<and> pd_stream_identifier c = si \<and> hm_get (as_streams a) si = Some s \<and>
     \<not> as_delayed_ack_triggered a \<and> \<not> as_immediate_ack_triggered a"

definition acknowledged ::
  "u16 \<Rightarrow> payload_data \<Rightarrow> u32 \<Rightarrow> u32 \<Rightarrow> rto_manager \<Rightarrow> u32 \<Rightarrow> stream \<Rightarrow> association \<Rightarrow> association" where
  "acknowledged si c credit min_tsn rto partial s a = a
     \<lparr>as_stats := inc_sacks (as_stats a), as_inflight_queue := payload_queue_new, as_t3rtx := rtx_timer_stop (as_t3rtx a),
      as_min_tsn2measure_rtt := min_tsn, as_rto_mgr := rto, as_cumulative_tsn_ack_point := pd_tsn c,
      as_partial_bytes_acked := partial,
      as_streams := hm_insert si (snd (on_buffer_released s (int (length (pd_user_data c))))) (as_streams a),
      as_rwnd := credit, as_advanced_peer_tsn_ack_point := pd_tsn c, sh_awake := True\<rparr>"

lemma ack_popped_chunk_result:
  assumes "\<not> pd_acked c" and "pd_since c \<le> now" and "i = as_cumulative_tsn_ack_point a + 1"
  shows "\<exists>x m. ack_popped_chunk rnd now i c [] a =
    (Ok [(pd_stream_identifier c, int (length (pd_user_data c)))],
     a\<lparr>as_t3rtx := rtx_timer_stop (as_t3rtx a), as_min_tsn2measure_rtt := x, as_rto_mgr := m\<rparr>)"
proof -
  let ?a = "a\<lparr>as_t3rtx := rtx_timer_stop (as_t3rtx a)\<rparr>"
  have e: "?a = ?a\<lparr>as_min_tsn2measure_rtt := as_min_tsn2measure_rtt a, as_rto_mgr := as_rto_mgr a\<rparr>" by simp
  obtain x m where m: "measure_rtt rnd now c ?a = (Ok (), ?a\<lparr>as_min_tsn2measure_rtt := x, as_rto_mgr := m\<rparr>)"
    using assms(2)
    by (cases "rto_manager_set_new_rtt rnd (as_rto_mgr a) (of_nat (now - pd_since c))")
      (auto simp: measure_rtt_def Let_def)
  show ?thesis
  proof (cases "pd_nsent c = 1 \<and> sna32gte (pd_tsn c) (as_min_tsn2measure_rtt a)")
    case True
    then show ?thesis using m assms(1,3) by (intro exI [of _ x] exI [of _ m]) (simp add: ack_popped_chunk_def add_bytes_acked_def Let_def)
  next
    case False
    then have "ack_popped_chunk rnd now i c [] a = (Ok [(pd_stream_identifier c, int (length (pd_user_data c)))], ?a)"
      using assms(1,3) by (auto simp: ack_popped_chunk_def add_bytes_acked_def Let_def)
    then show ?thesis using e by (intro exI [of _ "as_min_tsn2measure_rtt a"] exI [of _ "as_rto_mgr a"]) simp
  qed
qed

lemma handle_sack_one:
  assumes "awaiting_ack si c s a" and "pd_since c \<le> now" and "sa_cumulative_tsn_ack d = pd_tsn c"
    and "sa_gap_ack_blocks d = []"
  shows "\<exists>x m y. handle_sack rnd now d a =
    (Ok [], acknowledged si c (sa_advertised_receiver_window_credit d) x m y s a)"
proof -
  note a = assms(1) [unfolded awaiting_ack_def]
  let ?t = "pd_tsn c"
  define a0 where "a0 = a\<lparr>as_stats := inc_sacks (as_stats a)\<rparr>"
  have lt: "sna32lt (as_cumulative_tsn_ack_point a) ?t" using a s32.lt_succ by simp
  have ngt: "\<not> sna32gt (as_cumulative_tsn_ack_point a) ?t" using a by (simp add: s32.gt_iff word_le_nat_alt)
  have nlt: "\<not> sna32lt (?t + 1) ?t" "\<not> sna32lte (?t + 1) ?t" "sna32lte ?t ?t" "\<not> sna32gt ?t ?t"
    using s32.asym s32.lt_succ [of ?t] by (auto simp: s32.gt_iff sna32lte_def)
  define a1 where "a1 = a0\<lparr>as_inflight_queue := payload_queue_new\<rparr>"
  obtain x m where pop: "ack_popped_chunk rnd now ?t c [] a1 =
      (Ok [(si, int (length (pd_user_data c)))],
       a1\<lparr>as_t3rtx := rtx_timer_stop (as_t3rtx a1), as_min_tsn2measure_rtt := x, as_rto_mgr := m\<rparr>)"
    using ack_popped_chunk_result [of c now ?t a1 rnd] a assms(2) by (auto simp: a1_def a0_def)
  define a2 where "a2 = a1\<lparr>as_t3rtx := rtx_timer_stop (as_t3rtx a1), as_min_tsn2measure_rtt := x, as_rto_mgr := m\<rparr>"
  have leave: "leave_fast_recovery c a2 = a2" using a by (simp add: leave_fast_recovery_def a2_def a1_def a0_def)
  have q0: "as_inflight_queue a0 = one_in_flight c" using a by (simp add: a0_def)
  have "ack_cumulative_loop rnd now ?t ?t [] a0 = (Ok [(si, int (length (pd_user_data c)))], a2)"
    by (subst ack_cumulative_loop.simps, simp add: nlt q0 a1_def [symmetric] pop a2_def [symmetric] leave,
      subst ack_cumulative_loop.simps, simp add: nlt)
  then have psa: "process_selective_ack rnd now d a0 = (Ok ([(si, int (length (pd_user_data c)))], ?t), a2)"
    using a assms(3,4) by (simp add: process_selective_ack_def gap_tsns_def a0_def)
  define a3 where "a3 = a2\<lparr>as_cumulative_tsn_ack_point := ?t\<rparr>"
  have p2: "sh_pending_queue a2 = pending_queue_new" "as_in_fast_recovery a2 = False" "as_use_forward_tsn a2"
      "as_inflight_queue a2 = payload_queue_new" "as_cumulative_tsn_ack_point a2 = as_cumulative_tsn_ack_point a"
      "as_advanced_peer_tsn_ack_point a2 = as_cumulative_tsn_ack_point a" "as_streams a2 = as_streams a"
    using a by (simp_all add: a2_def a1_def a0_def)
  let ?n = "int (length (pd_user_data c))"
  obtain y where adv: "on_cumulative_tsn_ack_point_advanced ?n a3 =
      (Ok (), a3\<lparr>as_t3rtx := rtx_timer_stop (as_t3rtx a3), as_partial_bytes_acked := y\<rparr>)"
  proof -
    have "update_congestion_window ?n b = b\<lparr>as_partial_bytes_acked := (if as_cwnd b \<le> as_ssthresh b then as_partial_bytes_acked b
        else as_partial_bytes_acked b + of_int ?n)\<rparr>" if "sh_pending_queue b = pending_queue_new" for b :: association
      using that by (simp add: update_congestion_window_def Let_def)
    then show thesis
      using that p2 by (simp add: on_cumulative_tsn_ack_point_advanced_def a3_def)
  qed
  define a4 where "a4 = a3\<lparr>as_t3rtx := rtx_timer_stop (as_t3rtx a3), as_partial_bytes_acked := y\<rparr>"
  let ?credit = "sa_advertised_receiver_window_credit d"
  define a5 where "a5 = a4\<lparr>as_streams := hm_insert si (snd (on_buffer_released s ?n)) (as_streams a), as_rwnd := ?credit\<rparr>"
  have f4: "as_streams a4 = as_streams a" "as_inflight_queue a4 = payload_queue_new"
    using p2 by (simp_all add: a4_def a3_def)
  have a5: "update_rwnd ?credit (release_buffers [(si, ?n)] a4) = a5"
  proof -
    have "release_buffers [(si, ?n)] a4 = a4\<lparr>as_streams := hm_insert si (snd (on_buffer_released s ?n)) (as_streams a)\<rparr>"
      using a by (simp add: release_buffers_def update_stream_def f4)
    then show ?thesis
      by (simp add: update_rwnd_def a5_def f4 payload_queue_get_num_bytes_def Let_def)
        (simp add: payload_queue_new_def)
  qed
  have f5: "as_in_fast_recovery a5 = False" "as_inflight_queue a5 = payload_queue_new" "as_use_forward_tsn a5"
      "as_advanced_peer_tsn_ack_point a5 = as_cumulative_tsn_ack_point a" "as_cumulative_tsn_ack_point a5 = ?t"
    using p2 by (simp_all add: a5_def a4_def a3_def)
  have fast: "process_fast_retransmission ?t ?t True a5 = (Ok (), a5)"
    by (simp add: process_fast_retransmission_def f5 miss_loop.simps [of ?t ?t "?t + 1"] nlt)
  define a6 where "a6 = a5\<lparr>as_advanced_peer_tsn_ack_point := ?t, sh_awake := True\<rparr>"
  have a6: "forward_ack_point a5 = a6"
    using f5 lt nlt(4) by (simp add: forward_ack_point_def advance_peer_ack_point_def inflight_fuel_def a6_def Let_def)
  have "postprocess_sack Established True a6 = (Ok (), a6)"
    using f5 by (simp add: postprocess_sack_def a6_def)
  then have "after_ack Established ?t ?credit ?t True [(si, ?n)] a4 = (Ok [], a6)"
    unfolding after_ack_def a5 Let_def by (simp add: fast a6)
  moreover have "sack_states a" using a by (simp add: sack_states_def)
  moreover have "a2\<lparr>as_cumulative_tsn_ack_point := as_cumulative_tsn_ack_point a + 1\<rparr> = a3"
    using a by (simp add: a3_def)
  ultimately have "handle_sack rnd now d a = (Ok [], a6)"
    using a ngt lt handle_sack_continue [of a d rnd now] assms(3) adv p2(5)
    by (simp add: a0_def [symmetric] psa a4_def [symmetric])
  moreover have "a6 = acknowledged si c ?credit x m y s a"
    by (intro association.equality)
      (simp_all add: a6_def a5_def a4_def a3_def a2_def a1_def a0_def acknowledged_def rtx_timer_stop_def)
  ultimately show ?thesis by blast
qed


section \<open>A whole round\<close>

lemma transmit_packet:
  assumes "gather_outbound crc now a = Some (Ok ([raw], True), a')" and "packet_marshal crc (packet_5000 t c) = Ok raw"
    and "chunk_wf c" and "\<not> (\<exists>i. c = ChunkInit i)"
  shows "transmit crc rnd now random32 a b = Some (a', receive rnd now random32 (packet_5000 t (chunk_view now c)) b)"
proof -
  have w: "chunks_wf (pk_chunks (packet_5000 t c))" using assms(3) by (simp add: packet_5000_def)
  have k: "check_packet (packet_5000 t c) = Ok ()" using assms(4) by (auto simp: check_packet_5000 split: chunk.split)
  have "packet_view now (packet_5000 t c) = packet_5000 t (chunk_view now c)" by (simp add: packet_view_def packet_5000_def)
  then show ?thesis
    using read_loop_one [OF assms(2) w k] by (simp add: transmit_def write_loop_round_def assms(1))
qed

definition sender_ready :: "u16 \<Rightarrow> u16 \<Rightarrow> association \<Rightarrow> bool" where
  "sender_ready si ssn a \<longleftrightarrow> as_mtu a = 1228 \<and> 1200 \<le> as_cwnd a \<and> 1200 \<le> as_rwnd a \<and> 1200 \<le> sh_max_message_size a \<and>
     as_cumulative_tsn_ack_point a = as_my_next_tsn a - 1 \<and>
     as_advanced_peer_tsn_ack_point a = as_cumulative_tsn_ack_point a \<and> \<not> as_in_fast_recovery a \<and> no_acks_due a \<and>
     (\<exists>s. hm_get (as_streams a) si = Some s \<and> can_write si ssn s)"

text \<open>
  \<open>a\<close> writes to the stream \<open>si\<close>, whose next sequence number is \<open>ssn\<close>, and \<open>b\<close> reads from it;
  all that was written has been read and acknowledged.
\<close>

definition session :: "u16 \<Rightarrow> u16 \<Rightarrow> association \<Rightarrow> association \<Rightarrow> bool" where
  "session si ssn a b \<longleftrightarrow> connected a b \<and> connected b a \<and> sender_ready si ssn a \<and> can_receive si ssn b"

text \<open>The ack timer's task \<open>i\<close> ends its sleep.\<close>

definition ack_timer_fires :: "nat \<Rightarrow> association \<Rightarrow> association" where
  "ack_timer_fires i b = on_ack_timeout (b\<lparr>as_ack_timer := ack_task_end i (as_ack_timer b)\<rparr>)"

text \<open>The chunk on the wire, and the sender once it is there.\<close>

definition carries :: "bytes \<Rightarrow> u16 \<Rightarrow> u16 \<Rightarrow> u32 \<Rightarrow> payload_data \<Rightarrow> bool" where
  "carries p si ssn tsn c \<longleftrightarrow> pd_user_data c = p \<and> pd_stream_identifier c = si \<and> pd_stream_sequence_number c = ssn \<and>
     pd_tsn c = tsn \<and> \<not> pd_unordered c \<and> pd_beginning_fragment c \<and> pd_ending_fragment c \<and> \<not> pd_immediate_sack c"

definition sender_sent :: "u16 \<Rightarrow> stream \<Rightarrow> payload_data \<Rightarrow> association \<Rightarrow> association \<Rightarrow> association" where
  "sender_sent si s' c a a2 = a\<lparr>sh_cells := sh_cells a2, sh_next_cell := sh_next_cell a2, sh_awake := True,
      sh_pending_queue := pending_queue_new, as_streams := hm_insert si s' (as_streams a), as_rwnd := as_rwnd a2,
      as_my_next_tsn := as_my_next_tsn a + 1, as_inflight_queue := one_in_flight c, as_t3rtx := as_t3rtx a2,
      as_delayed_ack_triggered := False, as_immediate_ack_triggered := False\<rparr>"

lemma session_send:
  assumes "session si ssn a b" and "sized p"
  shows "\<exists>a1 a2 c s. write_message now si p a = Some (Ok (length p), a1) \<and>
    transmit crc rnd now random32 a1 b = Some (a2, data_received si (payload_data_view now c) b) \<and>
    carries p si ssn (as_my_next_tsn a) c \<and> pd_nsent c = 1 \<and> pd_since c = now \<and> \<not> pd_acked c \<and> can_write si ssn s \<and>
    handle_chunk_start a2 = sender_sent si
      (s\<lparr>st_sequence_number := ssn + 1, st_buffered_amount := of_nat (length p)\<rparr>) c a a2 \<and>
    (\<exists>raw. gather_outbound crc now a1 = Some (Ok ([raw], True), a2) \<and>
      packet_marshal crc (packet_5000 (as_peer_verification_tag a1) (ChunkPayloadData c)) = Ok raw)"
proof -
  note S = assms(1) [unfolded session_def connected_def sender_ready_def]
  obtain s where s: "hm_get (as_streams a) si = Some s" "can_write si ssn s" using S by blast
  define c where "c = message_chunk now s (sh_next_cell a) p"
  define a1 where "a1 = message_written now si s p a"
  have w: "write_message now si p a = Some (Ok (length p), a1)"
    using write_message_one [OF s assms(2)] S by (simp add: a1_def quiet_def)
  have c: "pd_user_data c = p" "\<not> pd_unordered c" "pd_beginning_fragment c" "pd_ending_fragment c"
      "pd_stream_identifier c = si" "pd_stream_sequence_number c = ssn" "\<not> pd_immediate_sack c" "\<not> pd_acked c"
    using s(2) by (simp_all add: c_def message_chunk_def can_write_def payload_data_default_def)
  define c' where "c' = sent_chunk now c a1"
  have c': "carries p si ssn (as_my_next_tsn a) c'" "pd_nsent c' = 1" "pd_since c' = now" "\<not> pd_acked c'"
    using c by (simp_all add: carries_def c'_def sent_chunk_def) (simp add: a1_def message_written_def)
  have wf: "chunk_wf (ChunkPayloadData c')"
    using assms(2) c' by (simp add: payload_data_value_length_def sized_def carries_def)
  obtain raw where raw: "packet_marshal crc (packet_5000 (as_peer_verification_tag a1) (ChunkPayloadData c')) = Ok raw"
    using packet_marshal_unmarshal [of "packet_5000 (as_peer_verification_tag a1) (ChunkPayloadData c')"] wf
    by (auto simp: packet_5000_def)
  define a2 where "a2 = message_sent now c a1"
  let ?s = "s\<lparr>st_sequence_number := st_sequence_number s + 1, st_buffered_amount := st_buffered_amount s + of_nat (length p)\<rparr>"
  have gather: "gather_outbound crc now a1 = Some (Ok ([raw], True), a2)"
    unfolding a2_def
  proof (rule gather_one [where s = ?s])
    show "only_data a1"
      using S by (simp add: only_data_def a1_def message_written_def quiet_def ports_5000_def get_state_def)
    show "hm_get (as_streams a1) (pd_stream_identifier c) = Some ?s"
      using c by (simp add: a1_def message_written_def update_conv')
  qed (use c S s(2) assms(2) raw in \<open>simp_all add: can_write_def c'_def, simp_all add: a1_def message_written_def c_def\<close>)
  have "carries p si ssn (as_my_next_tsn a) (payload_data_view now c')"
    using c'(1) by (simp add: carries_def) (simp add: payload_data_view_def)
  then have "receive rnd now random32 (packet_5000 t (ChunkPayloadData (payload_data_view now c'))) b =
      data_received si (payload_data_view now c') b" for t
    using S by (intro receive_data [of si ssn]) (simp_all add: carries_def)
  then have t: "transmit crc rnd now random32 a1 b = Some (a2, data_received si (payload_data_view now c') b)"
    using transmit_packet [OF gather raw wf] by simp
  have "handle_chunk_start a2 = sender_sent si (s\<lparr>st_sequence_number := ssn + 1, st_buffered_amount := of_nat (length p)\<rparr>) c' a a2"
    using s(2)
    by (intro association.equality)
      (simp_all add: a2_def message_sent_def start_t3rtx_def handle_chunk_start_def sender_sent_def c'_def [symmetric],
       simp_all add: a1_def message_written_def can_write_def)
  then show ?thesis using w t c' s(2) gather raw by blast
qed

text \<open>The receiver once the message has been read, while its acknowledgement is due and after it.\<close>

definition receiver_done :: "u16 \<Rightarrow> payload_data \<Rightarrow> association \<Rightarrow> association_stats \<Rightarrow> ack_timer \<Rightarrow> ack_state \<Rightarrow> association" where
  "receiver_done si d b stats timer ack = (with_stream si b)
     \<lparr>as_stats := stats, as_delayed_ack_triggered := True, as_immediate_ack_triggered := False,
      as_streams := hm_insert si ((with_message si d b)\<lparr>st_reassembly_queue := waiting_for si (pd_stream_sequence_number d + 1)\<rparr>)
        (as_streams (with_stream si b)),
      as_peer_last_tsn := pd_tsn d, as_ack_state := ack, as_ack_timer := timer, sh_awake := True\<rparr>"

lemma ack_timer_fires_read:
  "\<exists>stats timer. ack_timer_fires i (data_read si d b) = receiver_done si d b stats timer Ack_Immediate"
proof -
  have "ack_timer_fires i (data_read si d b) = receiver_done si d b (as_stats (ack_timer_fires i (data_read si d b)))
      (as_ack_timer (ack_timer_fires i (data_read si d b))) Ack_Immediate"
    by (intro association.equality)
      (simp_all add: ack_timer_fires_def on_ack_timeout_def data_read_def data_received_def receiver_done_def)
  then show ?thesis by blast
qed

lemma receiver_done_fields:
  "as_my_verification_tag (receiver_done si d b st tm k) = as_my_verification_tag b"
  "as_my_next_tsn (receiver_done si d b st tm k) = as_my_next_tsn b"
  "as_peer_verification_tag (receiver_done si d b st tm k) = as_peer_verification_tag b"
  "as_max_receive_buffer_size (receiver_done si d b st tm k) = as_max_receive_buffer_size b"
  "as_peer_last_tsn (receiver_done si d b st tm k) = pd_tsn d"
  "(receiver_done si d b st tm k)\<lparr>as_ack_state := k'\<rparr> = receiver_done si d b st tm k'"
  by (simp_all add: receiver_done_def with_stream_def)

lemma receiver_done_ready:
  assumes "can_receive si ssn b" and "pd_stream_sequence_number d = ssn"
  shows "can_receive si (ssn + 1) (receiver_done si d b st tm Ack_Idle)"
    and "all_read (as_streams (receiver_done si d b st tm k))"
proof -
  let ?b = "receiver_done si d b st tm k"
  have str: "as_streams (receiver_done si d b st tm k) = hm_insert si
      ((with_message si d b)\<lparr>st_reassembly_queue := waiting_for si (ssn + 1)\<rparr>) (as_streams (with_stream si b))" for k
    using assms(2) by (simp add: receiver_done_def)
  show all: "all_read (as_streams (receiver_done si d b st tm k))" for k
    using assms(1)
    by (auto simp: str can_receive_def with_stream_def waiting_for_def reassembly_queue_new_def stream_new_def intro!: all_read_insert)
  have "stream_or_new si (receiver_done si d b st tm k) = (with_message si d b)\<lparr>st_reassembly_queue := waiting_for si (ssn + 1)\<rparr>" for k
    by (simp add: stream_or_new_def str update_conv')
  moreover have "\<not> st_read_shutdown (with_message si d b)"
    using assms(1) by (simp add: with_message_def stream_notify_one_def can_receive_def)
  moreover have "hm_contains (as_streams (receiver_done si d b st tm k)) si" for k by (simp add: str update_conv')
  ultimately show "can_receive si (ssn + 1) (receiver_done si d b st tm Ack_Idle)"
    using assms(1) all by (simp add: can_receive_def) (simp add: receiver_done_def with_stream_def)
qed

lemma receiver_done_only_ack:
  assumes "connected b a" and "can_receive si ssn b" and "pd_stream_sequence_number d = ssn"
  shows "only_ack (receiver_done si d b st tm Ack_Immediate)"
  using assms(1,2) receiver_done_ready(2) [OF assms(2,3)]
  by (simp add: only_ack_def connected_def quiet_def can_receive_def)
    (auto simp: receiver_done_def with_stream_def ports_5000_def get_state_def word_less_nat_alt word_le_nat_alt)

text \<open>Both ends after the acknowledgement.\<close>

lemma session_after:
  assumes "session si ssn a b" and "carries p si ssn (as_my_next_tsn a) c" and "can_write si ssn s"
    and "d = payload_data_view now c"
    and a3_def: "a3 = acknowledged si c (as_max_receive_buffer_size b) x m y
      (s\<lparr>st_sequence_number := ssn + 1, st_buffered_amount := of_nat (length p)\<rparr>)
      (sender_sent si (s\<lparr>st_sequence_number := ssn + 1, st_buffered_amount := of_nat (length p)\<rparr>) c a a2)"
  shows "session si (ssn + 1) a3 (receiver_done si d b st tm Ack_Idle)"
proof -
  let ?s = "s\<lparr>st_sequence_number := ssn + 1, st_buffered_amount := of_nat (length p)\<rparr>"
  let ?b3 = "receiver_done si d b st tm Ack_Idle"
  note S = assms(1) [unfolded session_def connected_def sender_ready_def]
  have d: "pd_tsn d = as_my_next_tsn a" "pd_stream_sequence_number d = ssn"
    using assms(2,4) by (simp_all add: carries_def)
  have "connected a3 ?b3"
    using S by (simp add: connected_def receiver_done_fields)
      (simp add: a3_def acknowledged_def sender_sent_def quiet_def ports_5000_def get_state_def)
  moreover have "as_my_verification_tag a3 = as_my_verification_tag a" "as_my_next_tsn a3 = as_my_next_tsn a + 1"
    by (simp_all add: a3_def acknowledged_def sender_sent_def)
  then have "connected ?b3 a3"
    using S d by (simp add: connected_def receiver_done_fields)
      (simp add: receiver_done_def quiet_def with_stream_def ports_5000_def get_state_def)
  moreover have "can_write si (ssn + 1) (snd (on_buffer_released ?s (int (length p))))"
    using assms(3) by (simp add: can_write_def on_buffer_released_def Let_def)
  then have "sender_ready si (ssn + 1) a3"
    using S assms(2) by (simp add: sender_ready_def a3_def acknowledged_def sender_sent_def no_acks_due_def update_conv'
        carries_def can_receive_def word_le_nat_alt)
  moreover have "can_receive si (ssn + 1) ?b3"
    using S by (intro receiver_done_ready [OF _ d(2)]) simp
  ultimately show ?thesis by (simp add: session_def)
qed

lemma message_goes_through:
  assumes "session si ssn a b" and "sized p" and "1200 \<le> buf_len" and "at_close (as_ack_timer b) = None" and "now \<le> now'"
  shows "\<exists>a1 a2 b1 b2 ppi i b3 a3. write_message now si p a = Some (Ok (length p), a1) \<and>
    transmit crc rnd now random32 a1 b = Some (a2, b1) \<and>
    read_message si buf_len b1 = Some (Ok (p, ppi), b2) \<and>
    i \<in> set (at_tasks (as_ack_timer b2)) \<and>
    transmit crc rnd now' random32 (ack_timer_fires i b2) a2 = Some (b3, a3) \<and> session si (ssn + 1) a3 b3 \<and>
    at_close (as_ack_timer b3) \<noteq> None \<and> at_tasks (as_ack_timer b3) = filter (\<lambda>k. k \<noteq> i) (at_tasks (as_ack_timer b))"
proof -
  note S = assms(1) [unfolded session_def connected_def sender_ready_def]
  obtain a1 a2 c s where w: "write_message now si p a = Some (Ok (length p), a1)"
      "transmit crc rnd now random32 a1 b = Some (a2, data_received si (payload_data_view now c) b)"
      "carries p si ssn (as_my_next_tsn a) c" "pd_nsent c = 1" "pd_since c = now" "\<not> pd_acked c" "can_write si ssn s"
      "handle_chunk_start a2 = sender_sent si
        (s\<lparr>st_sequence_number := ssn + 1, st_buffered_amount := of_nat (length p)\<rparr>) c a a2"
    using session_send [OF assms(1,2), of now crc rnd random32] by blast
  define d where "d = payload_data_view now c"
  have d: "pd_user_data d = p" "pd_beginning_fragment d" "pd_ending_fragment d" "pd_stream_sequence_number d = ssn"
      "pd_tsn d = as_my_next_tsn a"
    using w(3) by (simp_all add: d_def carries_def)
  have r: "read_message si buf_len (data_received si d b) = Some (Ok (p, pd_payload_type d), data_read si d b)"
    using read_message_one [of si ssn b d buf_len] S assms(2,3) d by (simp add: sized_def)
  define i where "i = at_next (as_ack_timer b)"
  have i: "i \<in> set (at_tasks (as_ack_timer (data_read si d b)))"
    using assms(4) by (simp add: i_def data_read_def data_received_def ack_timer_start_def)
  obtain st tm where f: "ack_timer_fires i (data_read si d b) = receiver_done si d b st tm Ack_Immediate"
    using ack_timer_fires_read by blast
  let ?f = "receiver_done si d b st tm Ack_Immediate"
  have ack: "only_ack ?f" using assms(1) by (intro receiver_done_only_ack [OF _ _ d(4)]) (auto simp: session_def)
  have wf: "chunk_wf (ChunkSelectiveAck (sack_for ?f))" by (simp add: sack_for_def selective_ack_value_length_def)
  obtain raw where raw: "packet_marshal crc (packet_5000 (as_peer_verification_tag ?f) (ChunkSelectiveAck (sack_for ?f))) = Ok raw"
    using packet_marshal_unmarshal [of "packet_5000 (as_peer_verification_tag ?f) (ChunkSelectiveAck (sack_for ?f))"] wf
    by (auto simp: packet_5000_def)
  let ?s = "s\<lparr>st_sequence_number := ssn + 1, st_buffered_amount := of_nat (length p)\<rparr>"
  have "awaiting_ack si c ?s (sender_sent si ?s c a a2)"
    using S w(3-6) by (simp add: awaiting_ack_def sender_sent_def get_state_def quiet_def update_conv' carries_def)
  from handle_sack_one [OF this, of now' "sack_for ?f" rnd] obtain x m y where
    h: "handle_sack rnd now' (sack_for ?f) (sender_sent si ?s c a a2) =
      (Ok [], acknowledged si c (as_max_receive_buffer_size b) x m y ?s (sender_sent si ?s c a a2))"
    using w(3,5) assms(5) d by (auto simp: sack_for_def receiver_done_fields carries_def)
  define a3 where "a3 = acknowledged si c (as_max_receive_buffer_size b) x m y ?s (sender_sent si ?s c a a2)"
  have "no_acks_due a3" by (simp add: a3_def acknowledged_def sender_sent_def no_acks_due_def)
  then have "receive rnd now' random32 (packet_5000 t (ChunkSelectiveAck (sack_for ?f))) a2 = a3" for t
    using h w(8) by (subst receive_single [where c = "ChunkSelectiveAck (sack_for ?f)"])
      (auto simp: packet_5000_def handle_checked_chunk_def a3_def)
  then have "transmit crc rnd now' random32 ?f a2 = Some (receiver_done si d b st tm Ack_Idle, a3)"
    using transmit_packet [OF gather_ack [OF ack raw] raw wf] by (simp add: receiver_done_fields(6))
  moreover have "session si (ssn + 1) a3 (receiver_done si d b st tm Ack_Idle)"
    by (rule session_after [OF assms(1) w(3,7) d_def a3_def])
  moreover have "tm = as_ack_timer (ack_timer_fires i (data_read si d b))" by (simp add: f receiver_done_def)
  then have "as_ack_timer (receiver_done si d b st tm Ack_Idle) =
      ack_task_end i (snd (ack_timer_start (as_ack_timer b)))"
    by (simp add: receiver_done_def)
      (simp add: ack_timer_fires_def on_ack_timeout_def data_read_def data_received_def)
  then have "at_close (as_ack_timer (receiver_done si d b st tm Ack_Idle)) \<noteq> None"
      "at_tasks (as_ack_timer (receiver_done si d b st tm Ack_Idle)) = filter (\<lambda>k. k \<noteq> i) (at_tasks (as_ack_timer b))"
    using assms(4) by (simp_all add: ack_task_end_def ack_timer_start_def i_def)
  ultimately show ?thesis using w(1,2) r i f unfolding d_def by metis
qed

text \<open>C7: a message of up to 1200 bytes, written in an established session whose ack timer is not
  left running, arrives: after one round of the writer's write loop it can be read at the other
  end, whole and unchanged; the delayed acknowledgement has been scheduled, and once its timer fires,
  one round of the reader's write loop brings the SACK back, which leaves nothing in flight and nothing
  buffered, the session ready for the next message.\<close>

theorem message_delivered:
  assumes "session si ssn a b" and "sized p" and "1200 \<le> buf_len" and "at_close (as_ack_timer b) = None" and "now \<le> now'"
  shows "\<exists>a1 a2 b1 b2 ppi i b3 a3. write_message now si p a = Some (Ok (length p), a1) \<and>
    transmit crc rnd now random32 a1 b = Some (a2, b1) \<and>
    read_message si buf_len b1 = Some (Ok (p, ppi), b2) \<and>
    i \<in> set (at_tasks (as_ack_timer b2)) \<and>
    transmit crc rnd now' random32 (ack_timer_fires i b2) a2 = Some (b3, a3) \<and> session si (ssn + 1) a3 b3"
  using message_goes_through [OF assms] by blast

text \<open>A session is what the handshake and \<^verbatim>\<open>open_stream\<close> on the client's side leave.\<close>

lemma handshake_session:
  assumes "association_new cf True ctsn ctag = (r1, c)" and "association_new sf False stsn stag = (r2, s)"
    and "ctag \<noteq> 0" and "stag \<noteq> 0" and "1500 \<le> credit_of cf" and "1500 \<le> credit_of sf" and "length random32 = 32"
    and "cf_max_message_size cf = 0 \<or> 1200 \<le> cf_max_message_size cf"
  shows "\<exists>c' s' c''. handshake crc rnd now random32 (c, s) = Some (c', s') \<and> open_stream si ppi c' = (Ok (), c'') \<and>
    session si 0 c'' s' \<and> as_ack_timer s' = ack_timer_new"
proof -
  obtain c' s' where h: "handshake crc rnd now random32 (c, s) = Some (c', s')" "connected c' s'" "connected s' c'"
      "own c' = (ctag, tsn_of ctsn, credit_of cf)" "own s' = (stag, tsn_of stsn, credit_of sf)"
      "as_rwnd c' = credit_of sf" "fresh_data cf c'" "fresh_data sf s'"
    using handshake_connects [OF assms(1-7), of crc rnd now] by blast
  define st where "st = set_default_payload_type ppi (stream_new si 1200)"
  define c'' where "c'' = c'\<lparr>as_streams := [(si, st)]\<rparr>"
  have o: "open_stream si ppi c' = (Ok (), c'')"
    using h(7) by (simp add: open_stream_def create_stream_def fresh_data_def update_stream_def c''_def st_def Let_def)
  have "can_write si 0 st" by (simp add: can_write_def st_def set_default_payload_type_def stream_new_def)
  then have "sender_ready si 0 c''"
    using h(6,7) assms(6,8)
    by (auto simp: sender_ready_def fresh_data_def c''_def word_le_nat_alt DEFAULT_MAX_MESSAGE_SIZE_def no_acks_due_def)
  moreover have "can_receive si 0 s'"
    using h(3,5,8) assms(6)
    by (simp add: can_receive_def fresh_data_def connected_def quiet_def own_def all_read_def stream_or_new_def
        stream_new_def waiting_for_def reassembly_queue_new_def ACCEPT_CH_SIZE_def)
  moreover have "connected c'' s'" "connected s' c''"
    using h(2,3) by (simp_all add: connected_def c''_def quiet_def ports_5000_def get_state_def)
  ultimately show ?thesis using h(1,8) o by (auto simp: session_def fresh_data_def)
qed

lemma example_session:
  "\<exists>a b. session 7 0 a b \<and> as_ack_timer b = ack_timer_new"
proof -
  have n: "association_new example_config True 10 1 = (Ok (), snd (association_new example_config True 10 1))"
      "association_new example_config False 20 2 = (Ok (), snd (association_new example_config False 20 2))"
    using association_new_client(1) association_new_server(1) by (metis prod.collapse)+
  have f: "1500 \<le> credit_of example_config" "cf_max_message_size example_config = 0"
    by (simp_all add: credit_of_def example_config_def INITIAL_RECV_BUF_SIZE_def)
  show ?thesis
    using handshake_session [OF n _ _ f(1) f(1), of "replicate 32 0" "\<lambda>_. 0" "\<lambda>x. x" 0 7 Binary] f(2) by auto
qed

theorem message_delivered_witness:
  "\<exists>a b a1 a2 b1 b2 ppi i b3 a3. write_message 5 7 [1, 2, 3] a = Some (Ok 3, a1) \<and>
    transmit (\<lambda>_. 0) (\<lambda>x. x) 5 [] a1 b = Some (a2, b1) \<and> read_message 7 1500 b1 = Some (Ok ([1, 2, 3], ppi), b2) \<and>
    transmit (\<lambda>_. 0) (\<lambda>x. x) 205 [] (ack_timer_fires i b2) a2 = Some (b3, a3) \<and> session 7 1 a3 b3"
proof -
  obtain a b where s: "session 7 0 a b" "as_ack_timer b = ack_timer_new" using example_session by blast
  have "sized [1, 2, 3]" "at_close (as_ack_timer b) = None" by (simp_all add: sized_def s(2) ack_timer_new_def)
  then show ?thesis
    using message_delivered [OF s(1), of "[1, 2, 3]" 1500 5 205 "\<lambda>_. 0" "\<lambda>x. x" "[]"]
    by (simp add: numeral_3_eq_3) blast
qed

section \<open>The acknowledgement that is not sent\<close>

lemma gather_waiting:
  assumes "connected b a" and "can_receive si ssn b"
  shows "gather_outbound crc now (data_received si d b) = Some (Ok ([], True), data_received si d b)"
proof -
  let ?b = "data_received si d b"
  have b: "get_state ?b = Established" "as_inflight_queue ?b = payload_queue_new" "sh_pending_queue ?b = pending_queue_new"
      "as_control_queue ?b = []" "\<not> as_will_retransmit_fast ?b" "as_ack_state ?b = Ack_Delay"
      "\<not> as_will_send_forward_tsn ?b" "\<not> as_will_retransmit_reconfig ?b"
    using assms by (simp_all add: connected_def quiet_def data_received_def with_stream_def get_state_def)
  have same: "?b\<lparr>as_control_queue := []\<rparr> = ?b" using b by (intro association.equality) simp_all
  show ?thesis
    using b gather_nothing(1-3) [of ?b crc]
    by (simp add: gather_outbound_def same gather_outbound_sack_packets_def gather_outbound_forward_tsn_packets_def)
qed

text \<open>C38: once the acknowledgement timer has fired and nobody has stopped it, the next message is not
  acknowledged.  Between two connected ends with nothing under way (\<open>session\<close>), a message of at most
  1200 bytes is written, sent and received, and its acknowledgement is due as a delayed one; but no task
  of the timer is left that could fire, and a round of the write loop, at whatever time, sends
  nothing and changes nothing, so that the next one does not either.  At the sender, the chunk is in
  flight after it was sent.\<close>

theorem delayed_ack_lost:
  assumes "session si ssn a b" and "sized p" and "at_close (as_ack_timer b) \<noteq> None" and "at_tasks (as_ack_timer b) = []"
  shows "\<exists>a1 a2 b1. write_message now si p a = Some (Ok (length p), a1) \<and>
    transmit crc rnd now random32 a1 b = Some (a2, b1) \<and> as_peer_last_tsn b1 = as_my_next_tsn a \<and>
    as_ack_state b1 = Ack_Delay \<and> at_tasks (as_ack_timer b1) = [] \<and>
    write_loop_round crc now' True b1 = Some (Ok ([], True), b1) \<and>
    payload_queue_get (as_inflight_queue a2) (as_my_next_tsn a) \<noteq> None"
proof -
  note S = assms(1) [unfolded session_def]
  obtain a1 a2 c s where w: "write_message now si p a = Some (Ok (length p), a1)"
      "transmit crc rnd now random32 a1 b = Some (a2, data_received si (payload_data_view now c) b)"
      "carries p si ssn (as_my_next_tsn a) c"
      "handle_chunk_start a2 = sender_sent si
        (s\<lparr>st_sequence_number := ssn + 1, st_buffered_amount := of_nat (length p)\<rparr>) c a a2"
    using session_send [OF assms(1,2), of now crc rnd random32] by blast
  let ?b = "data_received si (payload_data_view now c) b"
  have "as_inflight_queue a2 = as_inflight_queue (handle_chunk_start a2)" by (simp add: handle_chunk_start_def)
  then have "as_inflight_queue a2 = one_in_flight c" by (simp only: w(4)) (simp add: sender_sent_def)
  then have "payload_queue_get (as_inflight_queue a2) (as_my_next_tsn a) \<noteq> None"
    using w(3) by (simp add: payload_queue_get_def one_in_flight_def carries_def)
  moreover have "write_loop_round crc now' True ?b = Some (Ok ([], True), ?b)"
    using gather_waiting [of b a si ssn crc now'] S by (simp add: write_loop_round_def)
  moreover have "as_peer_last_tsn ?b = as_my_next_tsn a" "as_ack_state ?b = Ack_Delay" "at_tasks (as_ack_timer ?b) = []"
    using assms(3,4) w(3) by (simp_all add: data_received_def ack_timer_start_def carries_def)
  ultimately show ?thesis using w(1,2) by blast
qed

theorem delayed_ack_lost_witness:
  "\<exists>a b a1 a2 b1. write_message 300 7 [4, 5] a = Some (Ok 2, a1) \<and>
    transmit (\<lambda>_. 0) (\<lambda>x. x) 300 [] a1 b = Some (a2, b1) \<and> as_ack_state b1 = Ack_Delay \<and>
    at_tasks (as_ack_timer b1) = [] \<and> write_loop_round (\<lambda>_. 0) 900 True b1 = Some (Ok ([], True), b1)"
proof -
  obtain a b where s: "session 7 0 a b" "as_ack_timer b = ack_timer_new" using example_session by blast
  have p: "sized [1, 2, 3]" "sized [4, 5]" "at_close (as_ack_timer b) = None" "at_tasks (as_ack_timer b) = []"
    by (simp_all add: sized_def s(2) ack_timer_new_def)
  obtain a3 b3 where "session 7 1 a3 b3" "at_close (as_ack_timer b3) \<noteq> None" "at_tasks (as_ack_timer b3) = []"
    using message_goes_through [OF s(1) p(1) _ p(3), of 1500 5 205 "\<lambda>_. 0" "\<lambda>x. x" "[]"] p(4) by auto
  from delayed_ack_lost [OF this(1) p(2) this(2,3), of 300 "\<lambda>_. 0" "\<lambda>x. x" "[]" 900] show ?thesis
    by (simp add: numeral_2_eq_2) blast
qed

end
