(* ===== verification/Reachable.thy ===== *)
theory Reachable
  imports Frames Delivery
begin

text \<open>
  One end of an association with everything that moves it: the read loop and the write loop, step by
  step as their tasks run, the opening of a client, the timers' tasks, the calls of the user, and any
  number of writes at the same time, fragment by fragment.  The order is arbitrary, and so are the
  datagrams that arrive, the errors of the connection and the system clock.
\<close>

section \<open>The two tasks\<close>

text \<open>
  Where the task of the read loop is: at \<^verbatim>\<open>select!\<close>, holding a datagram that it will handle under
  the lock, on its way to \<^verbatim>\<open>close\<close>, or at its end; a panic ends it at once.
\<close>

datatype reader_task = Receiving | Handling bytes | Reader_closing | Reader_ended

text \<open>
  The task of the write loop: about to collect the outbound packets, with packets to send and the
  flag \<^verbatim>\<open>ok\<close>, at \<^verbatim>\<open>select!\<close>, on its way to \<^verbatim>\<open>close\<close>, or at its end.
\<close>

datatype writer_task = Gathering | Sending "bytes list" bool | Writer_waiting | Writer_closing | Writer_ended

text \<open>
  \<open>nd_opening\<close> is the INIT that \<^verbatim>\<open>Association::new\<close> of a client has made and not yet sent: it
  spawns the loops first.  \<open>nd_writes\<close> are the writes under way, each with the fragments it has
  still to push.
\<close>

record node =
  nd_assoc :: association
  nd_opening :: "chunk_init option"
  nd_writes :: "payload_data list list"
  nd_reader :: reader_task
  nd_writer :: writer_task
  nd_bytes_received :: usize
  nd_bytes_sent :: usize

text \<open>\<^verbatim>\<open>Association::new\<close> when it has spawned both loops, and the rest of it.\<close>

definition node_new :: "config \<Rightarrow> bool \<Rightarrow> u32 \<Rightarrow> u32 \<Rightarrow> node" where
  "node_new cf is_client tsn tag =
     (let ai = association_internal_new cf tsn tag in
      \<lparr>nd_assoc = ai, nd_opening = (if is_client then Some (association_init ai) else None), nd_writes = [],
       nd_reader = Receiving, nd_writer = Gathering, nd_bytes_received = 0, nd_bytes_sent = 0\<rparr>)"

definition node_open :: "chunk_init \<Rightarrow> node \<Rightarrow> node" where
  "node_open init n = n\<lparr>nd_assoc := snd (association_open init (nd_assoc n)), nd_opening := None\<rparr>"

definition read_loop_receive :: "bytes \<Rightarrow> node \<Rightarrow> node" where
  "read_loop_receive raw n =
     n\<lparr>nd_reader := Handling raw, nd_bytes_received := nd_bytes_received n + of_nat (length raw)\<rparr>"

definition read_loop_handle ::
  "(bytes \<Rightarrow> u32) \<Rightarrow> (real \<Rightarrow> real) \<Rightarrow> time_ms \<Rightarrow> bytes \<Rightarrow> bytes \<Rightarrow> node \<Rightarrow> node" where
  "read_loop_handle crc rnd now random32 raw n =
     (case handle_inbound crc rnd now random32 raw (nd_assoc n) of
        (Ok _, a) \<Rightarrow> n\<lparr>nd_assoc := a, nd_reader := Receiving\<rparr>
      | (Err _, a) \<Rightarrow> n\<lparr>nd_assoc := a, nd_reader := Reader_closing\<rparr>
      | (Panic, a) \<Rightarrow> n\<lparr>nd_assoc := a, nd_reader := Reader_ended\<rparr>)"

definition read_loop_close :: "node \<Rightarrow> node" where
  "read_loop_close n = n\<lparr>nd_assoc := association_close (nd_assoc n), nd_reader := Reader_ended\<rparr>"

definition write_loop_gather :: "(bytes \<Rightarrow> u32) \<Rightarrow> time_ms \<Rightarrow> node \<Rightarrow> node option" where
  "write_loop_gather crc now n =
     (case gather_outbound crc now (nd_assoc n) of
        None \<Rightarrow> None
      | Some (Ok (raw_packets, ok), a) \<Rightarrow> Some (n\<lparr>nd_assoc := a, nd_writer := Sending raw_packets ok\<rparr>)
      | Some (_, a) \<Rightarrow> Some (n\<lparr>nd_assoc := a, nd_writer := Writer_ended\<rparr>))"

text \<open>One packet to the connection, which takes it or fails; with no packet left, the flag decides.\<close>

definition write_loop_send :: "bool \<Rightarrow> bytes list \<Rightarrow> bool \<Rightarrow> node \<Rightarrow> node" where
  "write_loop_send net_ok raw_packets ok n =
     (case raw_packets of
        [] \<Rightarrow> n\<lparr>nd_writer := (if ok then Writer_waiting else Writer_closing)\<rparr>
      | raw # raws \<Rightarrow>
          if net_ok then n\<lparr>nd_bytes_sent := nd_bytes_sent n + of_nat (length raw), nd_writer := Sending raws ok\<rparr>
          else n\<lparr>nd_writer := Writer_closing\<rparr>)"

definition write_loop_close :: "node \<Rightarrow> node" where
  "write_loop_close n = n\<lparr>nd_assoc := association_close (nd_assoc n), nd_writer := Writer_ended\<rparr>"

section \<open>The timers of an association\<close>

definition rtx_timer_of :: "rtx_timer_id \<Rightarrow> association \<Rightarrow> rtx_timer" where
  "rtx_timer_of i a =
     (case i of T1Init \<Rightarrow> as_t1init a | T1Cookie \<Rightarrow> as_t1cookie a | T2Shutdown \<Rightarrow> as_t2shutdown a
      | T3RTX \<Rightarrow> as_t3rtx a | Reconfig_timer \<Rightarrow> as_treconfig a)"

definition set_rtx_timer :: "rtx_timer_id \<Rightarrow> rtx_timer \<Rightarrow> association \<Rightarrow> association" where
  "set_rtx_timer i t a =
     (case i of T1Init \<Rightarrow> a\<lparr>as_t1init := t\<rparr> | T1Cookie \<Rightarrow> a\<lparr>as_t1cookie := t\<rparr> | T2Shutdown \<Rightarrow> a\<lparr>as_t2shutdown := t\<rparr>
      | T3RTX \<Rightarrow> a\<lparr>as_t3rtx := t\<rparr> | Reconfig_timer \<Rightarrow> a\<lparr>as_treconfig := t\<rparr>)"

text \<open>What a move of a timer's task does to the association, its observer.\<close>

fun timer_event :: "rtx_timer_id \<Rightarrow> rtx_label \<Rightarrow> association \<Rightarrow> association" where
  "timer_event i (Rtx_fire k (Rtx_timeout n)) a = on_retransmission_timeout i a"
| "timer_event i (Rtx_fire k Rtx_failure) a = on_retransmission_failure i a"
| "timer_event i l a = a"

fun task_move :: "rtx_label \<Rightarrow> bool" where
  "task_move (Rtx_start rto) = False"
| "task_move Rtx_stop = False"
| "task_move l = True"

section \<open>The calls of the user\<close>

text \<open>
  A stream stays usable after it was unregistered, but its two flags are set then: it can be read no
  more, and a write or a shutdown of it does nothing.  The calls below are on registered streams, and
  they are one step each; only a write takes several, below.
\<close>

datatype user_call =
  Open_stream u16 payload_protocol_identifier
| Accept_stream
| Read u16 nat
| Shutdown_stream time_ms u16 shutdown_how
| Set_reliability u16 bool reliability_type u32
| Set_payload_type u16 payload_protocol_identifier
| Set_threshold u16 usize
| Set_max_message_size u32
| Shutdown_association
| Close_association

text \<open>A call on a stream that is not there is no call.\<close>

definition on_stream ::
  "u16 \<Rightarrow> association \<Rightarrow> (stream \<Rightarrow> (stream \<times> association) option) \<Rightarrow> association option" where
  "on_stream si a f =
     (case hm_get (as_streams a) si of
        None \<Rightarrow> None
      | Some s \<Rightarrow> map_option (\<lambda>(s, a). a\<lparr>as_streams := hm_insert si s (as_streams a)\<rparr>) (f s))"

fun perform_call :: "user_call \<Rightarrow> association \<Rightarrow> association option" where
  "perform_call (Open_stream si ppi) a = Some (snd (open_stream si ppi a))"
| "perform_call Accept_stream a = Some (snd (accept_stream a))"
| "perform_call (Read si buf_len) a = on_stream si a (\<lambda>s. Some (snd (reader_read buf_len s), a))"
| "perform_call (Shutdown_stream now si how) a = on_stream si a (\<lambda>s. Some (snd (stream_shutdown s a now how)))"
| "perform_call (Set_reliability si u t v) a = on_stream si a (\<lambda>s. Some (set_reliability_params u t v s, a))"
| "perform_call (Set_payload_type si ppi) a = on_stream si a (\<lambda>s. Some (set_default_payload_type ppi s, a))"
| "perform_call (Set_threshold si th) a = on_stream si a (\<lambda>s. Some (s\<lparr>st_buffered_amount_low := th\<rparr>, a))"
| "perform_call (Set_max_message_size m) a = Some (a\<lparr>sh_max_message_size := m\<rparr>)"
| "perform_call Shutdown_association a = Some (snd (association_shutdown a))"
| "perform_call Close_association a = Some (association_close a)"

text \<open>
  A write cuts its message up in one step, and is under way then if there was no error; it pushes one
  fragment in a step, under the queue's lock, and in its last step it wakes the write loop.
\<close>

definition node_write :: "time_ms \<Rightarrow> u16 \<Rightarrow> bytes \<Rightarrow> payload_protocol_identifier \<Rightarrow> node \<Rightarrow> node option" where
  "node_write now si p ppi n =
     (case hm_get (as_streams (nd_assoc n)) si of
        None \<Rightarrow> None
      | Some s \<Rightarrow>
          (case write_start s (nd_assoc n) now p ppi of
             None \<Rightarrow> None
           | Some (r, s, a) \<Rightarrow>
               Some (n\<lparr>nd_assoc := a\<lparr>as_streams := hm_insert si s (as_streams a)\<rparr>,
                       nd_writes := nd_writes n @ (case r of Ok cs \<Rightarrow> [cs] | _ \<Rightarrow> [])\<rparr>)))"

definition node_push :: "nat \<Rightarrow> node \<Rightarrow> node" where
  "node_push i n =
     (case push_next (nd_writes n ! i) (nd_assoc n) of
        (None, a) \<Rightarrow> n\<lparr>nd_assoc := a, nd_writes := take i (nd_writes n) @ drop (Suc i) (nd_writes n)\<rparr>
      | (Some cs, a) \<Rightarrow> n\<lparr>nd_assoc := a, nd_writes := (nd_writes n)[i := cs]\<rparr>)"

text \<open>
  A chunk takes more than a hundred bytes of memory: the queues of an association and the writes
  under way never hold \<open>2 ^ 31\<close> chunks.
\<close>

definition room :: "association \<Rightarrow> bool" where
  "room a \<longleftrightarrow> pending_length a + flight_length a < 2 ^ 31"

definition unpushed :: "node \<Rightarrow> nat" where
  "unpushed n = sum_list (map length (nd_writes n))"

definition node_room :: "node \<Rightarrow> bool" where
  "node_room n \<longleftrightarrow> pending_length (nd_assoc n) + flight_length (nd_assoc n) + unpushed n < 2 ^ 31"

inductive node_step :: "(bytes \<Rightarrow> u32) \<Rightarrow> (real \<Rightarrow> real) \<Rightarrow> node \<Rightarrow> node \<Rightarrow> bool" for crc rnd where
  receive: "nd_reader n = Receiving \<Longrightarrow> length raw \<le> RECEIVE_MTU \<Longrightarrow> node_step crc rnd n (read_loop_receive raw n)"
| receive_fails: "nd_reader n = Receiving \<Longrightarrow> node_step crc rnd n (n\<lparr>nd_reader := Reader_closing\<rparr>)"
| reader_told: "nd_reader n = Receiving \<Longrightarrow> \<not> as_close_loop (nd_assoc n) \<Longrightarrow>
    node_step crc rnd n (n\<lparr>nd_reader := Reader_closing\<rparr>)"
| handle: "nd_reader n = Handling raw \<Longrightarrow> node_step crc rnd n (read_loop_handle crc rnd now random32 raw n)"
| reader_closes: "nd_reader n = Reader_closing \<Longrightarrow> node_step crc rnd n (read_loop_close n)"
| gather: "nd_writer n = Gathering \<Longrightarrow> write_loop_gather crc now n = Some n' \<Longrightarrow> node_step crc rnd n n'"
| send: "nd_writer n = Sending raws ok \<Longrightarrow> node_step crc rnd n (write_loop_send net_ok raws ok n)"
| awake: "nd_writer n = Writer_waiting \<Longrightarrow> sh_awake (nd_assoc n) \<Longrightarrow>
    node_step crc rnd n (n\<lparr>nd_assoc := (nd_assoc n)\<lparr>sh_awake := False\<rparr>, nd_writer := Gathering\<rparr>)"
| writer_told: "nd_writer n = Writer_waiting \<Longrightarrow> \<not> as_close_loop (nd_assoc n) \<Longrightarrow>
    node_step crc rnd n (n\<lparr>nd_writer := Writer_closing\<rparr>)"
| writer_closes: "nd_writer n = Writer_closing \<Longrightarrow> node_step crc rnd n (write_loop_close n)"
| timer: "rtx_step (rtx_timer_of i (nd_assoc n)) l t \<Longrightarrow> task_move l \<Longrightarrow>
    node_step crc rnd n (n\<lparr>nd_assoc := timer_event i l (set_rtx_timer i t (nd_assoc n))\<rparr>)"
| ack_fires: "i \<in> set (at_tasks (as_ack_timer (nd_assoc n))) \<Longrightarrow>
    node_step crc rnd n (n\<lparr>nd_assoc := ack_timer_fires i (nd_assoc n)\<rparr>)"
| ack_closed: "i \<in> set (at_tasks (as_ack_timer (nd_assoc n))) \<Longrightarrow> at_close (as_ack_timer (nd_assoc n)) \<noteq> Some i \<Longrightarrow>
    node_step crc rnd n (n\<lparr>nd_assoc := (nd_assoc n)\<lparr>as_ack_timer := ack_task_end i (as_ack_timer (nd_assoc n))\<rparr>\<rparr>)"
| opens: "nd_opening n = Some init \<Longrightarrow> node_step crc rnd n (node_open init n)"
| user: "nd_opening n = None \<Longrightarrow> perform_call u (nd_assoc n) = Some a \<Longrightarrow> node_room (n\<lparr>nd_assoc := a\<rparr>) \<Longrightarrow>
    node_step crc rnd n (n\<lparr>nd_assoc := a\<rparr>)"
| write_starts: "nd_opening n = None \<Longrightarrow> node_write now si p ppi n = Some n' \<Longrightarrow> node_room n' \<Longrightarrow> node_step crc rnd n n'"
| pushes: "i < length (nd_writes n) \<Longrightarrow> node_step crc rnd n (node_push i n)"

inductive node_run :: "(bytes \<Rightarrow> u32) \<Rightarrow> (real \<Rightarrow> real) \<Rightarrow> node \<Rightarrow> node \<Rightarrow> bool" for crc rnd where
  start: "node_run crc rnd n n"
| step: "node_run crc rnd m n \<Longrightarrow> node_step crc rnd n n' \<Longrightarrow> node_run crc rnd m n'"

lemma node_run_trans: "node_run crc rnd m n \<Longrightarrow> node_run crc rnd l m \<Longrightarrow> node_run crc rnd l n"
  by (induction rule: node_run.induct) (auto intro: node_run.step)

inductive_cases node_stepE: "node_step crc rnd n n'"

section \<open>What each step keeps\<close>

text \<open>Steps that touch nothing of the two queues, nor the state.\<close>

definition aside :: "association \<Rightarrow> association \<Rightarrow> bool" where
  "aside a b \<longleftrightarrow> flight_view b = flight_view a \<and> as_payload_queue b = as_payload_queue a \<and> sh_state b = sh_state a"

lemma aside_trans [trans]: "aside a b \<Longrightarrow> aside b c \<Longrightarrow> aside a c"
  by (simp add: aside_def)

lemma aside_sane: "aside a b \<Longrightarrow> sane a \<Longrightarrow> sane b"
  by (rule sane_view [of b a]) (simp_all add: aside_def sane_def)

lemma aside_state: "aside a b \<Longrightarrow> get_state b = get_state a"
  by (simp add: aside_def get_state_def)

lemmas aside_defs = aside_def flight_view_def sender_view_def

lemma aside_timer: "aside a (set_rtx_timer i t a)"
  by (simp add: set_rtx_timer_def aside_defs split: rtx_timer_id.split)

lemma aside_push_control: "aside a (push_control p a)"
  by (simp add: push_control_def awake_write_loop_def aside_defs)

lemma aside_send_init: "aside a (snd (send_init a))"
  using aside_push_control [of "a\<lparr>as_source_port := 5000, as_destination_port := 5000\<rparr>"]
  by (simp add: send_init_def Let_def aside_defs split: option.split)

lemma aside_send_cookie_echo: "aside a (snd (send_cookie_echo a))"
  by (simp add: send_cookie_echo_def Let_def aside_push_control split: option.split) (simp add: aside_def)

lemma aside_failure: "aside a (on_retransmission_failure i a)"
  by (simp add: on_retransmission_failure_def aside_defs split: rtx_timer_id.split)

lemma aside_timeout: "i \<noteq> T3RTX \<Longrightarrow> aside a (on_retransmission_timeout i a)"
  by (cases i) (simp_all add: on_retransmission_timeout_def aside_send_init aside_send_cookie_echo,
      simp_all add: aside_defs awake_write_loop_def)

lemma aside_ack_fires: "aside a (ack_timer_fires i a)"
  by (simp add: ack_timer_fires_def on_ack_timeout_def awake_write_loop_def aside_defs)

lemma t3_timeout_state: "sh_state (on_retransmission_timeout T3RTX a) = sh_state a"
proof -
  have "sh_state (advance_peer_ack_loop n i x) = sh_state x" for n i x
    by (induction n i x rule: advance_peer_ack_loop.induct) (auto split: option.splits)
  then show ?thesis
    by (simp add: on_retransmission_timeout_def advance_peer_ack_point_def awake_write_loop_def Let_def)
qed

lemma sane_t3_timeout:
  assumes "sane a"
  shows "sane (on_retransmission_timeout T3RTX a)"
proof -
  let ?b = "on_retransmission_timeout T3RTX a"
  have "flight_inv ?b" "sender_view ?b = sender_view a"
    using t3_timeout_effect [of a ?b] assms by (simp_all add: sane_def)
  moreover have "queue_counts (as_payload_queue ?b) = queue_counts (as_payload_queue a)"
    by (simp add: on_retransmission_timeout_def Let_def)
  ultimately show ?thesis using assms view_eqD [of ?b a] by (simp add: sane_def)
qed

lemma timer_event_keeps:
  shows "sane a \<Longrightarrow> sane (timer_event i l a)" and "get_state (timer_event i l a) = get_state a"
proof -
  have s: "sane (on_retransmission_timeout i a)" if "sane a" for i a
    using that sane_t3_timeout aside_sane [OF aside_timeout] by (cases "i = T3RTX") auto
  have t: "get_state (on_retransmission_timeout i a) = get_state a" for i a
    using t3_timeout_state [of a] aside_state [OF aside_timeout]
    by (cases "i = T3RTX") (auto simp: get_state_def)
  show "sane a \<Longrightarrow> sane (timer_event i l a)"
    by (induction i l a rule: timer_event.induct) (auto intro: s aside_sane [OF aside_failure])
  show "get_state (timer_event i l a) = get_state a"
    by (induction i l a rule: timer_event.induct) (auto simp: t aside_state [OF aside_failure])
qed

lemma sane_timer_view: "sane a \<Longrightarrow> sender_view (timer_event i l a) = sender_view a"
proof -
  assume a: "sane a"
  have "sender_view (on_retransmission_timeout i a) = sender_view a"
    using t3_timeout_effect [of a "on_retransmission_timeout T3RTX a"] a aside_timeout [of i a]
    by (cases "i = T3RTX") (auto simp: sane_def aside_def flight_view_def)
  moreover have "sender_view (on_retransmission_failure i a) = sender_view a"
    using aside_failure [of a i] by (simp add: aside_def flight_view_def)
  ultimately show ?thesis by (cases "(i, l, a)" rule: timer_event.cases) simp_all
qed

lemma sane_close: "sane a \<Longrightarrow> sane (association_close a)"
  by (rule sane_view [of _ a]) (simp_all add: sane_def)

text \<open>Writing: what \<^verbatim>\<open>packetize\<close> makes are chunks with data, none too long.\<close>

lemma packetize_loop_no_size:
  assumes "packetize_loop s now raw ppi u ha hi i remaining chunks = Some cs" and "st_max_payload_size s = 0"
  shows "cs = chunks"
proof -
  have "st_max_payload_size s = 0 \<longrightarrow> remaining = 0 \<and> cs = chunks"
  proof (rule packetize_loop.raw_induct [OF _ assms(1), where
      P = "\<lambda>s now raw ppi u ha hi i remaining chunks cs. st_max_payload_size s = 0 \<longrightarrow> remaining = 0 \<and> cs = chunks"])
  qed (fastforce simp: Let_def split: if_splits)
  then show ?thesis using assms(2) by blast
qed

definition fragment_ok :: "payload_data \<Rightarrow> bool" where
  "fragment_ok c \<longleftrightarrow> short c \<and> empty_starts c"

lemma packetize_fragments_ok:
  assumes "packetize s sh now raw ppi = Some (cs, s', sh')"
  shows "list_all fragment_ok cs" and "sh' = snd (snd (new_cells sh))"
proof -
  show "sh' = snd (snd (new_cells sh))"
    using assms by (auto simp: packetize_def Let_def case_prod_beta split: option.splits)
  show "list_all fragment_ok cs"
  proof (cases "st_max_payload_size s = 0")
    case True
    then have "cs = []"
      using assms packetize_loop_no_size
      by (fastforce simp: packetize_def Let_def case_prod_beta split: option.splits)
    then show ?thesis by simp
  next
    case False
    then have "0 < unat (st_max_payload_size s)" by (simp add: unat_gt_0)
    from packetize_Some [OF this, of sh now raw ppi] obtain ds where
      ds: "packetize s sh now raw ppi = Some (ds, s', sh')"
        "list_all (fragment_fields s ppi (ppi \<noteq> PPI_Dcep \<and> st_unordered s) (sh_next_cell sh) (sh_next_cell sh + 1)) ds"
      using assms by (metis Pair_inject option.inject)
    then have "cs = ds" using assms by simp
    then show ?thesis
      using ds(2) unat_less_pow [of "st_max_payload_size s"]
      by (force simp: list_all_iff fragment_fields_def short_def fragment_ok_def empty_starts_def)
  qed
qed

lemma aside_new_cells: "aside a (snd (snd (new_cells a)))"
  by (simp add: new_cells_def Let_def aside_defs)

lemma sane_push_fragments:
  assumes "sane a" and "list_all fragment_ok cs"
    and "b = a\<lparr>sh_pending_queue := pending_push_all (sh_pending_queue a) cs\<rparr>" and "room b"
  shows "sane b"
proof -
  have cs: "list_all empty_starts cs" "list_all short (filter P cs)" for P
    using assms(2) by (auto simp: list_all_iff fragment_ok_def)
  then have "flight_inv b"
    using assms(1) pending_base_push_all [OF _ cs(1), of "sh_pending_queue a"]
    by (auto simp: sane_def flight_inv_def assms(3) flight_base_def pending_push_all_fields)
  then show ?thesis using assms by (simp add: sane_def room_def)
qed

text \<open>A call leaves the queues alone, or pushes some chunks, if the state is Established.\<close>

definition call_effect :: "association \<Rightarrow> association \<Rightarrow> bool" where
  "call_effect a b \<longleftrightarrow> aside a b \<or>
     get_state a = Established \<and> get_state b = Established \<and>
     (\<exists>a' b' cs. aside a a' \<and> list_all fragment_ok cs \<and> aside b' b \<and>
       b' = awake_write_loop (a'\<lparr>sh_pending_queue := pending_push_all (sh_pending_queue a') cs\<rparr>))"

lemma aside_refl [simp]: "aside a a"
  by (simp add: aside_def)

lemma aside_effect: "aside a b \<Longrightarrow> call_effect a b"
  by (simp add: call_effect_def)

lemma push_effect:
  assumes "get_state a = Established" and "aside a a'" and "list_all fragment_ok cs"
    and "aside (awake_write_loop (a'\<lparr>sh_pending_queue := pending_push_all (sh_pending_queue a') cs\<rparr>)) b"
  shows "call_effect a b"
  using assms aside_state [OF assms(2)] aside_state [OF assms(4)] unfolding call_effect_def by auto

lemma call_effectE:
  assumes "call_effect a b"
  obtains (aside) "aside a b"
  | (push) a' cs where "get_state a = Established" "aside a a'" "list_all fragment_ok cs"
      "aside (awake_write_loop (a'\<lparr>sh_pending_queue := pending_push_all (sh_pending_queue a') cs\<rparr>)) b"
      "get_state b = Established"
  using assms unfolding call_effect_def by blast

lemma call_effect_aside: "call_effect a b \<Longrightarrow> aside b c \<Longrightarrow> call_effect a c"
  by (erule call_effectE) (blast intro: aside_effect push_effect aside_trans)+

lemma call_effect_sane:
  assumes "call_effect a b" and "sane a" and "room b"
  shows "sane b"
  using assms(1)
proof (cases rule: call_effectE)
  case (push a' cs)
  let ?p = "a'\<lparr>sh_pending_queue := pending_push_all (sh_pending_queue a') cs\<rparr>"
  have w: "aside ?p (awake_write_loop ?p)" by (simp add: awake_write_loop_def aside_defs)
  have b: "aside ?p b" by (rule aside_trans [OF w push(4)])
  then have "sender_view b = sender_view ?p" by (simp add: aside_def flight_view_def)
  then have "room ?p" using assms(3) view_eqD by (metis room_def)
  then show ?thesis
    using aside_sane [OF b] sane_push_fragments [OF aside_sane [OF push(2) assms(2)] push(3) HOL.refl] by simp
qed (rule aside_sane [OF _ assms(2)])

lemma call_effect_state: "call_effect a b \<Longrightarrow> get_state b = get_state a"
  by (erule call_effectE) (auto dest: aside_state)

lemma write_effect:
  assumes "write_sctp s a now p ppi = Some (r, s', b)"
  shows "call_effect a b"
proof -
  consider (same) "b = a"
    | (cut) cs a' r' where "packetize s a now p ppi = Some (cs, s', a')"
        "send_payload_data a' cs = (r', b)"
    using assms by (auto simp: write_sctp_def split: if_splits option.splits prod.splits)
  then show ?thesis
  proof cases
    case cut
    note w = packetize_fragments_ok [OF cut(1)]
    have a': "aside a a'" using aside_new_cells w(2) by simp
    show ?thesis
    proof (cases "get_state a' = Established")
      case True
      then show ?thesis
        using cut(2) aside_state [OF a'] by (intro push_effect [OF _ a' w(1)]) (auto simp: send_payload_data_def)
    next
      case False
      then show ?thesis using cut(2) a' by (simp add: send_payload_data_def aside_effect)
    qed
  qed (simp add: aside_effect)
qed

lemma reset_request_effect: "call_effect a (snd (send_reset_request a now si))"
proof (cases "get_state a = Established")
  case True
  obtain c where c: "snd (send_reset_request a now si) =
      awake_write_loop ((snd (snd (new_cells a)))\<lparr>sh_pending_queue :=
        pending_push_all (sh_pending_queue (snd (snd (new_cells a)))) [c]\<rparr>)"
    "pd_beginning_fragment c" "pd_ending_fragment c" "pd_user_data c = []"
    using True by (simp add: send_reset_request_def new_cells_def pending_push_all_def Let_def)
  have "list_all fragment_ok [c]" using c(2-4) by (simp add: fragment_ok_def short_def empty_starts_def)
  then show ?thesis by (rule push_effect [OF True aside_new_cells]) (simp only: c(1) aside_refl)
next
  case False
  then show ?thesis by (simp add: send_reset_request_def aside_effect)
qed

lemma shutdown_effect: "call_effect a (snd (snd (stream_shutdown s a now how)))"
  using reset_request_effect [of a now]
  by (simp add: stream_shutdown_def Let_def case_prod_beta aside_effect)

lemma call_effect_streams: "call_effect a b \<Longrightarrow> call_effect a (b\<lparr>as_streams := ss\<rparr>)"
  by (erule call_effect_aside) (simp add: aside_defs)

lemma on_stream_effect:
  assumes "on_stream si a f = Some b" and "\<And>s s' b. f s = Some (s', b) \<Longrightarrow> call_effect a b"
  shows "call_effect a b"
  using assms by (auto simp: on_stream_def split: option.splits intro: call_effect_streams)

lemma aside_open_stream: "aside a (snd (open_stream si ppi a))"
  by (auto simp: open_stream_def create_stream_def update_stream_def aside_defs Let_def split: option.split)

lemma user_call_effect:
  assumes "perform_call u a = Some b" and "u \<noteq> Close_association" and "u \<noteq> Shutdown_association"
  shows "call_effect a b"
proof (cases u)
  case (Shutdown_stream now si how)
  then have "on_stream si a (\<lambda>s. Some (snd (stream_shutdown s a now how))) = Some b" using assms(1) by simp
  then show ?thesis
  proof (rule on_stream_effect)
    fix s s' b
    assume "Some (snd (stream_shutdown s a now how)) = Some (s', b)"
    then show "call_effect a b" using shutdown_effect [of a s now how] by simp
  qed
next
  case (Open_stream si ppi)
  then show ?thesis using assms(1) aside_open_stream by (auto intro: aside_effect)
qed (use assms in \<open>auto intro!: aside_effect simp: aside_defs accept_stream_def on_stream_def split: option.splits list.splits\<close>)

lemma association_shutdown_view:
  shows "flight_view (snd (association_shutdown a)) = flight_view a"
    and "as_payload_queue (snd (association_shutdown a)) = as_payload_queue a"
proof -
  have "sender_view (snd (association_shutdown a)) = sender_view a"
      "as_inflight_queue (snd (association_shutdown a)) = as_inflight_queue a"
    by (simp_all add: association_shutdown_def Let_def set_state_def sender_view_def)
  then show "flight_view (snd (association_shutdown a)) = flight_view a" by (simp add: flight_view_def)
  show "as_payload_queue (snd (association_shutdown a)) = as_payload_queue a"
    by (simp add: association_shutdown_def Let_def set_state_def)
qed

definition parked :: "association_state \<Rightarrow> bool" where
  "parked st \<longleftrightarrow> st = Closed \<or> st = CookieWait"

lemma user_call_keeps:
  assumes "perform_call u a = Some b" and "room b"
  shows "sane a \<Longrightarrow> sane b" and "parked (get_state a) \<Longrightarrow> parked (get_state b)"
proof -
  consider (close) "u = Close_association" | (shutdown) "u = Shutdown_association" | (other) "call_effect a b"
    using user_call_effect [OF assms(1)] by blast
  then have "(sane a \<longrightarrow> sane b) \<and> (parked (get_state a) \<longrightarrow> parked (get_state b))"
  proof cases
    case close
    then show ?thesis using assms(1) sane_close by (auto simp: parked_def)
  next
    case shutdown
    then have b: "b = snd (association_shutdown a)" using assms(1) by simp
    have "sane (snd (association_shutdown a))" if "sane a"
      using that by (rule sane_view(1) [OF association_shutdown_view(1), rotated]) (use that in \<open>simp only: association_shutdown_view(2) sane_def\<close>)
    then show ?thesis by (auto simp: b association_shutdown_def parked_def)
  next
    case other
    then show ?thesis
      using call_effect_sane [OF other _ assms(2)] call_effect_state [OF other] by simp
  qed
  then show "sane a \<Longrightarrow> sane b" "parked (get_state a) \<Longrightarrow> parked (get_state b)" by blast+
qed

lemma open_keeps:
  shows "sane a \<Longrightarrow> sane (snd (association_open init a))" and "get_state (snd (association_open init a)) = CookieWait"
proof -
  have "flight_view (snd (association_open init a)) = flight_view a"
      "as_payload_queue (snd (association_open init a)) = as_payload_queue a"
    by (simp_all add: association_open_def send_init_def push_control_def awake_write_loop_def set_state_def
        create_packet_def Let_def flight_view_def sender_view_def)
  then show "sane a \<Longrightarrow> sane (snd (association_open init a))"
    using sane_view(1) [of "snd (association_open init a)" a] by (simp only: sane_def)
  show "get_state (snd (association_open init a)) = CookieWait"
    by (simp add: association_open_def send_init_def push_control_def awake_write_loop_def set_state_def
        create_packet_def get_state_def association_state_of_u8_def Let_def)
qed

section \<open>The invariant of a node\<close>

text \<open>
  Both halves of the association are sane as long as the read loop has handled every datagram without
  an error.  After an error the queues may be anything, until the loop has closed the association;
  then it is Closed for good, or CookieWait when a client is opened after that.
\<close>

definition node_sane :: "node \<Rightarrow> bool" where
  "node_sane n \<longleftrightarrow> sane (nd_assoc n) \<and> node_room n"

definition writes_ok :: "node \<Rightarrow> bool" where
  "writes_ok n \<longleftrightarrow> (\<forall>cs \<in> set (nd_writes n). list_all fragment_ok cs)"

definition node_inv :: "node \<Rightarrow> bool" where
  "node_inv n \<longleftrightarrow> writes_ok n \<and>
     (case nd_reader n of
        Reader_closing \<Rightarrow> True
      | Reader_ended \<Rightarrow> node_sane n \<or> parked (get_state (nd_assoc n))
      | _ \<Rightarrow> node_sane n)"

lemma node_inv_new: "node_inv (node_new cf is_client tsn tag)"
proof -
  have a: "sane (association_internal_new cf tsn tag)"
    by (auto simp: sane_def association_internal_new_def Let_def flight_inv_def flight_base_def flight_length_def
        pending_length_def queue_counts_def contiguous_def pq_inv_new pending_base_new)
      (simp_all add: payload_queue_new_def pending_queue_new_def)
  then show ?thesis
    by (simp add: node_inv_def node_new_def node_sane_def writes_ok_def node_room_def unpushed_def Let_def sane_def)
qed

text \<open>A step of anything but the read loop.\<close>

lemma node_inv_other:
  assumes "node_inv n" and "nd_reader n' = nd_reader n" and "writes_ok n \<Longrightarrow> writes_ok n'"
    and "node_sane n \<Longrightarrow> node_sane n'"
    and "parked (get_state (nd_assoc n)) \<Longrightarrow> parked (get_state (nd_assoc n'))"
  shows "node_inv n'"
  using assms by (auto simp: node_inv_def split: reader_task.splits)

lemma node_inv_same_writes:
  assumes "node_inv n" and "nd_reader n' = nd_reader n" and "nd_writes n' = nd_writes n"
    and "node_sane n \<Longrightarrow> sane (nd_assoc n') \<and>
      pending_length (nd_assoc n') + flight_length (nd_assoc n') \<le> pending_length (nd_assoc n) + flight_length (nd_assoc n)"
    and "parked (get_state (nd_assoc n)) \<Longrightarrow> parked (get_state (nd_assoc n'))"
  shows "node_inv n'"
  using assms(3,4) by (intro node_inv_other [OF assms(1,2) _ _ assms(5)])
    (auto simp: writes_ok_def node_sane_def node_room_def unpushed_def)

lemma aside_lengths:
  "aside a b \<Longrightarrow> pending_length b = pending_length a \<and> flight_length b = flight_length a"
  using view_eqD [of b a] by (simp add: aside_def flight_view_def)

lemma node_inv_aside:
  assumes "node_inv n" and "nd_reader n' = nd_reader n" and "nd_writes n' = nd_writes n"
    and "aside (nd_assoc n) (nd_assoc n')"
  shows "node_inv n'"
  using aside_sane [OF assms(4)] aside_lengths [OF assms(4)] aside_state [OF assms(4)]
  by (intro node_inv_same_writes [OF assms(1-3)]) (auto simp: node_sane_def)

lemma sane_gather:
  assumes "sane a" and "gather_outbound crc now a = Some (r, b)"
  shows "is_ok r" and "sane b" and "pending_length b + flight_length b \<le> pending_length a + flight_length a"
proof -
  obtain raws ok b' where g: "gather_outbound crc now a = Some (Ok (raws, ok), b')" "flight_inv b'"
      "pending_length b' + flight_length b' \<le> pending_length a + flight_length a"
    using gather_outbound_ok [of a crc now] assms(1) by (auto simp: sane_def)
  moreover have "queue_counts (as_payload_queue b)"
    using counts_out.keeps_gather [OF assms(2)] assms(1) by (simp add: sane_def)
  ultimately show "is_ok r" "sane b" "pending_length b + flight_length b \<le> pending_length a + flight_length a"
    using assms by (auto simp: sane_def)
qed

lemma parked_gather:
  assumes "parked (get_state a)"
  shows "\<exists>raws. gather_outbound crc now a = Some (Ok (raws, True), a\<lparr>as_control_queue := []\<rparr>)"
proof -
  have "get_state (a\<lparr>as_control_queue := []\<rparr>) = get_state a" by (simp add: get_state_def)
  then show ?thesis using assms by (auto simp: gather_outbound_def parked_def)
qed

lemma node_inv_gather:
  assumes "node_inv n" and "write_loop_gather crc now n = Some n'"
  shows "node_inv n'"
proof -
  obtain r b where g: "gather_outbound crc now (nd_assoc n) = Some (r, b)"
    using assms(2) by (cases "gather_outbound crc now (nd_assoc n)") (auto simp: write_loop_gather_def)
  have n': "nd_assoc n' = b" "nd_reader n' = nd_reader n" "nd_writes n' = nd_writes n"
    using assms(2) g by (cases r; auto simp: write_loop_gather_def)+
  have "parked (get_state b)" if c: "parked (get_state (nd_assoc n))"
  proof -
    have "sh_state b = sh_state (nd_assoc n)" using parked_gather [OF c, of crc now] g by auto
    then show ?thesis using c by (simp add: get_state_def)
  qed
  then show ?thesis
    using n' sane_gather(2,3) [OF _ g] by (intro node_inv_same_writes [OF assms(1)]) (simp_all add: node_sane_def)
qed

lemma node_inv_handle:
  assumes "node_inv n" and "nd_reader n = Handling raw"
  shows "node_inv (read_loop_handle crc rnd now random32 raw n)"
proof -
  have a: "sane (nd_assoc n)" "node_room n" "writes_ok n" using assms by (simp_all add: node_inv_def node_sane_def)
  let ?r = "handle_inbound crc rnd now random32 raw (nd_assoc n)"
  consider (panic) "fst ?r = Panic" | (err) e where "fst ?r = Err e"
    | (ok) x where "fst ?r = Ok x" "sane (snd ?r)" "pending_length (snd ?r) + flight_length (snd ?r) \<le>
        pending_length (nd_assoc n) + flight_length (nd_assoc n)"
    | (decoder) "?r = (Panic, nd_assoc n)"
    using sane_after_inbound [OF a(1), of crc now raw rnd random32]
    by (cases "packet_unmarshal crc now raw = Panic"; cases "fst ?r")
      (auto simp: sane_after_def pending_length_def handle_inbound_def)
  then show ?thesis
  proof cases
    case panic
    have "?r = (Panic, nd_assoc n)"
      using panic sane_after_inbound [OF a(1), of crc now raw rnd random32]
      by (cases "packet_unmarshal crc now raw = Panic") (auto simp: sane_after_def handle_inbound_def)
    then show ?thesis
      using a by (simp add: read_loop_handle_def node_inv_def node_sane_def node_room_def unpushed_def writes_ok_def)
  next
    case err
    then show ?thesis using a(3) by (cases ?r) (simp add: read_loop_handle_def node_inv_def writes_ok_def)
  next
    case ok
    then show ?thesis
      using a by (cases ?r) (simp add: read_loop_handle_def node_inv_def node_sane_def node_room_def unpushed_def writes_ok_def)
  next
    case decoder
    then show ?thesis
      using a by (simp add: read_loop_handle_def node_inv_def node_sane_def node_room_def unpushed_def writes_ok_def)
  qed
qed

lemma write_start_effect:
  assumes "write_start s a now p ppi = Some (r, s', b)"
  shows "aside a b" and "r = Ok cs \<Longrightarrow> list_all fragment_ok cs"
proof -
  consider (same) e where "r = Err e" "b = a"
    | (cut) ds where "packetize s a now p ppi = Some (ds, s', b)" "r = Ok ds \<or> (\<exists>e. r = Err e)"
    using assms by (auto simp: write_start_def split: if_splits option.splits)
  then have "aside a b \<and> (r = Ok cs \<longrightarrow> list_all fragment_ok cs)"
  proof cases
    case cut
    then show ?thesis using packetize_fragments_ok [OF cut(1)] aside_new_cells [of a] by auto
  qed simp
  then show "aside a b" "r = Ok cs \<Longrightarrow> list_all fragment_ok cs" by simp_all
qed

lemma node_inv_write:
  assumes "node_inv n" and "node_write now si p ppi n = Some n'" and "node_room n'"
  shows "node_inv n'"
proof -
  obtain s r s' a where w: "write_start s (nd_assoc n) now p ppi = Some (r, s', a)"
      "n' = n\<lparr>nd_assoc := a\<lparr>as_streams := hm_insert si s' (as_streams a)\<rparr>,
        nd_writes := nd_writes n @ (case r of Ok cs \<Rightarrow> [cs] | _ \<Rightarrow> [])\<rparr>"
    using assms(2) by (auto simp: node_write_def split: option.splits prod.splits)
  have "aside a (nd_assoc n')" by (simp add: w(2) aside_defs)
  then have a: "aside (nd_assoc n) (nd_assoc n')" by (rule aside_trans [OF write_start_effect(1) [OF w(1)]])
  have "writes_ok n'" if "writes_ok n"
    using that write_start_effect(2) [OF w(1)] by (cases r) (auto simp: w(2) writes_ok_def)
  then show ?thesis
    using assms(3) aside_sane [OF a] aside_state [OF a]
    by (intro node_inv_other [OF assms(1)]) (auto simp: w(2) node_sane_def)
qed

lemma sum_list_remove_nth:
  "i < length xs \<Longrightarrow> sum_list (map f (take i xs @ drop (Suc i) xs)) + f (xs ! i) = (sum_list (map f xs) :: nat)"
proof -
  assume i: "i < length xs"
  have "sum_list (map f xs) = sum_list (map f (take i xs @ xs ! i # drop (Suc i) xs))"
    using id_take_nth_drop [OF i] by (rule arg_cong)
  then show ?thesis by simp
qed

lemma node_inv_push:
  assumes "node_inv n" and "i < length (nd_writes n)"
  shows "node_inv (node_push i n)"
proof (cases "nd_writes n ! i")
  case Nil
  have "unpushed (node_push i n) = unpushed n"
    using sum_list_remove_nth [OF assms(2), of length] Nil by (simp add: node_push_def unpushed_def)
  moreover have "aside (nd_assoc n) (nd_assoc (node_push i n))"
    by (simp add: node_push_def Nil awake_write_loop_def aside_defs)
  moreover have "writes_ok (node_push i n)" if "writes_ok n"
    using that by (auto simp: node_push_def Nil writes_ok_def dest: in_set_takeD in_set_dropD)
  ultimately show ?thesis
    using aside_sane aside_lengths aside_state
    by (intro node_inv_other [OF assms(1)]) (auto simp: node_sane_def node_room_def node_push_def Nil)
next
  case (Cons c cs)
  let ?a = "nd_assoc n" and ?n = "node_push i n"
  let ?b = "?a\<lparr>sh_pending_queue := pending_push_all (sh_pending_queue ?a) [c]\<rparr>"
  have n': "?n = n\<lparr>nd_assoc := ?b, nd_writes := (nd_writes n)[i := cs]\<rparr>"
    by (simp add: node_push_def Cons pending_push_all_def)
  have "list_all fragment_ok (nd_writes n ! i)" if "writes_ok n" using that assms(2) by (simp add: writes_ok_def)
  then have ok: "fragment_ok c \<and> writes_ok ?n" if "writes_ok n"
    using that by (auto simp: n' writes_ok_def Cons dest!: set_update_subset_insert [THEN subsetD])
  have p: "pending_length ?b = Suc (pending_length ?a)" by (simp add: pending_length_def pending_push_all_fields)
  have f: "flight_length ?b = flight_length ?a" by (simp add: flight_length_def flight_base_def)
  have u: "Suc (unpushed ?n) = unpushed n"
  proof -
    have "map length (nd_writes n) ! i = Suc (length cs)" using assms(2) Cons by simp
    moreover have "Suc (length cs) \<le> sum_list (map length (nd_writes n))"
      using elem_le_sum_list [of i "map length (nd_writes n)"] assms(2) Cons by simp
    ultimately show ?thesis using assms(2) by (simp add: n' unpushed_def map_update sum_list_update Cons)
  qed
  have b: "nd_assoc ?n = ?b" by (simp add: n')
  have room: "node_room ?n \<and> room ?b" if "node_room n"
    using that u by (simp only: node_room_def room_def b p f) linarith
  have w: "writes_ok n" using assms(1) by (simp add: node_inv_def)
  have "sane ?b" if "node_sane n"
  proof (rule sane_push_fragments [of ?a "[c]"])
    show "sane ?a" "list_all fragment_ok [c]" using that ok [OF w] by (simp_all add: node_sane_def)
    show "room ?b" using that room by (simp add: node_sane_def)
  qed (rule HOL.refl)
  then have "node_sane n \<Longrightarrow> node_sane ?n" using room by (simp add: node_sane_def n')
  moreover have "nd_reader ?n = nd_reader n" "get_state (nd_assoc ?n) = get_state ?a"
    by (simp_all add: n' get_state_def)
  ultimately show ?thesis using ok [OF w] by (intro node_inv_other [OF assms(1)]) simp_all
qed

lemma node_inv_step:
  assumes "node_inv n" and "node_step crc rnd n n'"
  shows "node_inv n'"
  using assms(2)
proof (cases rule: node_step.cases)
  case (handle raw now random32)
  then show ?thesis using node_inv_handle [OF assms(1)] by simp
next
  case (gather now)
  then show ?thesis using node_inv_gather [OF assms(1)] by simp
next
  case (timer i l t)
  let ?b = "set_rtx_timer i t (nd_assoc n)"
  have a: "aside (nd_assoc n) ?b" by (rule aside_timer)
  show ?thesis
    using timer_event_keeps [where a = ?b and i = i and l = l] view_eqD [OF sane_timer_view [of ?b i l]]
      aside_sane [OF a] aside_lengths [OF a] aside_state [OF a] timer(1)
    by (intro node_inv_same_writes [OF assms(1)]) (auto simp: node_sane_def)
next
  case (opens init)
  have v: "flight_view (snd (association_open init (nd_assoc n))) = flight_view (nd_assoc n)"
    by (simp add: association_open_def send_init_def push_control_def awake_write_loop_def set_state_def
        create_packet_def Let_def flight_view_def sender_view_def)
  then have "sender_view (snd (association_open init (nd_assoc n))) = sender_view (nd_assoc n)" by (simp add: flight_view_def)
  from view_eqD [OF this] show ?thesis
    using opens open_keeps [where a = "nd_assoc n" and init = init]
    by (intro node_inv_same_writes [OF assms(1)]) (simp_all add: node_open_def node_sane_def parked_def)
next
  case (user u a)
  have "room a" using user(4) by (simp add: node_room_def room_def)
  then show ?thesis
    using user_call_keeps [OF user(3)] user
    by (intro node_inv_other [OF assms(1)]) (auto simp: writes_ok_def node_sane_def)
next
  case (write_starts now si p ppi)
  then show ?thesis using node_inv_write [OF assms(1)] by simp
next
  case (pushes i)
  then show ?thesis using node_inv_push [OF assms(1)] by simp
next
  case writer_closes
  have "flight_view (association_close (nd_assoc n)) = flight_view (nd_assoc n)" by simp
  then have "sender_view (association_close (nd_assoc n)) = sender_view (nd_assoc n)" by (simp add: flight_view_def)
  from view_eqD [OF this] show ?thesis
    using writer_closes sane_close
    by (intro node_inv_same_writes [OF assms(1)]) (auto simp: write_loop_close_def parked_def node_sane_def)
next
  case (send raws ok net_ok)
  then show ?thesis
    by (intro node_inv_aside [OF assms(1)]) (auto simp: write_loop_send_def split: list.split)
next
  case awake
  then show ?thesis by (intro node_inv_aside [OF assms(1)]) (simp_all add: aside_defs)
next
  case (ack_fires i)
  then show ?thesis by (intro node_inv_aside [OF assms(1)]) (simp_all add: aside_ack_fires)
next
  case (ack_closed i)
  then show ?thesis by (intro node_inv_aside [OF assms(1)]) (simp_all add: aside_defs)
next
  case writer_told
  then show ?thesis by (intro node_inv_aside [OF assms(1)]) simp_all
qed (use assms(1) in \<open>simp_all add: node_inv_def read_loop_receive_def read_loop_close_def writes_ok_def node_sane_def
  node_room_def unpushed_def parked_def\<close>)

lemma node_run_inv: "node_run crc rnd m n \<Longrightarrow> node_inv m \<Longrightarrow> node_inv n"
  by (induction rule: node_run.induct) (auto intro: node_inv_step)

lemma node_run_sane:
  assumes "node_run crc rnd (node_new cf is_client tsn tag) n" and "nd_reader n \<noteq> Reader_closing"
  shows "sane (nd_assoc n) \<or> nd_reader n = Reader_ended \<and> parked (get_state (nd_assoc n))"
  using node_run_inv [OF assms(1) node_inv_new] assms(2)
  by (auto simp: node_inv_def node_sane_def split: reader_task.splits)

lemma node_run_sane_running:
  assumes "node_run crc rnd (node_new cf is_client tsn tag) n" and "nd_reader n \<in> {Receiving} \<union> range Handling"
  shows "sane (nd_assoc n)"
  using node_run_inv [OF assms(1) node_inv_new] assms(2) by (auto simp: node_inv_def node_sane_def)

section \<open>What holds in every reachable state\<close>

text \<open>C9: an invariant of every association, whatever datagrams arrive, whatever the user calls, however the
  timers fire, the loops interleave and the fragments of writes of the same time get mixed: as long as
  the read loop runs, the chunks in flight are exactly those with the TSNs after the cumulative TSN ack
  point and before the next TSN, each stored under its own TSN; the counters of bytes and chunks that the
  inflight queue and the pending queue keep are the numbers of what they hold; and of the pending queue,
  the unordered half holds unordered chunks only, the ordered half ordered ones, and a chunk without
  data only as the beginning of a message.  The queues and the writes under way hold less than 2^31
  chunks, which is the limit of memory the steps of the user have.\<close>

theorem reachable_invariant:
  assumes "node_run crc rnd (node_new cf is_client tsn tag) n" and "nd_reader n \<in> {Receiving} \<union> range Handling"
    and "a = nd_assoc n" and "q = as_inflight_queue a" and "p = sh_pending_queue a"
  shows "(\<forall>t. payload_queue_get q t \<noteq> None \<longleftrightarrow>
      t - (as_cumulative_tsn_ack_point a + 1) < as_my_next_tsn a - (as_cumulative_tsn_ack_point a + 1)) \<and>
    (\<forall>t c. payload_queue_get q t = Some c \<longrightarrow> pd_tsn c = t) \<and>
    unat (pq_length q) = unat (as_my_next_tsn a - (as_cumulative_tsn_ack_point a + 1)) \<and>
    pq_n_bytes q = of_nat (queued_bytes (pq_chunk_map q)) \<and>
    pg_queue_len p = of_nat (length (pg_unordered_queue p) + length (pg_ordered_queue p)) \<and>
    pg_n_bytes p = of_nat (data_bytes (pg_unordered_queue p) + data_bytes (pg_ordered_queue p)) \<and>
    list_all pd_unordered (pg_unordered_queue p) \<and> list_all (\<lambda>c. \<not> pd_unordered c) (pg_ordered_queue p) \<and>
    list_all (\<lambda>c. pd_user_data c = [] \<longrightarrow> pd_beginning_fragment c) (pg_unordered_queue p @ pg_ordered_queue p)"
proof -
  have "sane a" using node_run_sane_running [OF assms(1,2)] by (simp add: assms(3))
  then have f: "flight_inv a" by (simp add: sane_def)
  have "length (pq_chunk_map q) < 2 ^ 64"
    using flight_length_eq [OF f] unat_less_pow [of "as_my_next_tsn a - flight_base a"]
    by (simp add: assms(4) flight_length_def)
  then have "unat (pq_length q) = length (pq_chunk_map q)"
    using f by (simp add: flight_inv_def pq_inv_def assms(4) unat_of_nat_less)
  moreover have "pending_base p" using f by (simp add: flight_inv_def assms(5))
  then have "pg_queue_len p = of_nat (length (pg_unordered_queue p) + length (pg_ordered_queue p)) \<and>
    pg_n_bytes p = of_nat (data_bytes (pg_unordered_queue p) + data_bytes (pg_ordered_queue p)) \<and>
    list_all pd_unordered (pg_unordered_queue p) \<and> list_all (\<lambda>c. \<not> pd_unordered c) (pg_ordered_queue p) \<and>
    list_all (\<lambda>c. pd_user_data c = [] \<longrightarrow> pd_beginning_fragment c) (pg_unordered_queue p @ pg_ordered_queue p)"
    by (auto simp: pending_base_def list_all_iff empty_starts_def)
  ultimately show ?thesis
    using f flight_length_eq [OF f] flight_get [OF f]
    by (auto simp: flight_inv_def pq_inv_def contiguous_def payload_queue_get_def flight_base_def flight_length_def assms(4))
qed

text \<open>C8: no state that can be reached is stuck, with any number of writes under way whose fragments are
  interleaved in any order.  Collecting the outbound packets always ends with packets, which may be
  none, without an error and without a panic: neither the assertion of the queues' lengths nor a
  missing chunk can stop the write loop.  And a datagram that decodes is handled without a panic, whatever
  its chunks are.  The only states left out are those between an error of the read loop and the close
  that follows it.\<close>

theorem reachable_never_stuck:
  assumes "node_run crc rnd (node_new cf is_client tsn tag) n" and "nd_reader n \<noteq> Reader_closing"
  shows "(\<exists>raws ok a. gather_outbound crc now (nd_assoc n) = Some (Ok (raws, ok), a)) \<and>
    (\<forall>raw. nd_reader n = Handling raw \<longrightarrow> packet_unmarshal crc now raw \<noteq> Panic \<longrightarrow>
      fst (handle_inbound crc rnd now random32 raw (nd_assoc n)) \<noteq> Panic)"
proof -
  have "\<exists>raws ok a. gather_outbound crc now (nd_assoc n) = Some (Ok (raws, ok), a)"
    using node_run_sane [OF assms]
  proof (elim disjE conjE)
    assume "sane (nd_assoc n)"
    then show ?thesis using gather_outbound_ok [of "nd_assoc n" crc now] by (auto simp: sane_def)
  next
    assume "parked (get_state (nd_assoc n))"
    then show ?thesis using parked_gather [of "nd_assoc n" crc now] by blast
  qed
  moreover have "fst (handle_inbound crc rnd now random32 raw (nd_assoc n)) \<noteq> Panic"
    if "nd_reader n = Handling raw" "packet_unmarshal crc now raw \<noteq> Panic" for raw
  proof -
    have "sane (nd_assoc n)" using node_run_sane [OF assms] that(1) by simp
    from sane_after_inbound [OF this that(2), of rnd random32] show ?thesis by (auto simp: sane_after_def)
  qed
  ultimately show ?thesis by blast
qed

text \<open>A client that has a datagram of one byte to handle before its INIT is sent.\<close>

definition example_node :: node where
  "example_node = read_loop_receive [0] (node_new example_config True 10 1)"

lemma example_node_run: "node_run (\<lambda>_. 0) (\<lambda>x. x) (node_new example_config True 10 1) example_node"
  unfolding example_node_def
  by (intro node_run.step [OF node_run.start] node_step.receive) (simp_all add: node_new_def RECEIVE_MTU_def Let_def)

theorem reachable_invariant_witness:
  "pq_length (as_inflight_queue (nd_assoc example_node)) = 0 \<and>
   pg_queue_len (sh_pending_queue (nd_assoc example_node)) = 0"
proof -
  let ?a = "nd_assoc example_node"
  have r: "nd_reader example_node = Handling [0]" by (simp add: example_node_def read_loop_receive_def)
  have a: "as_my_next_tsn ?a = as_cumulative_tsn_ack_point ?a + 1" "sh_pending_queue ?a = pending_queue_new"
    by (simp_all add: example_node_def read_loop_receive_def node_new_def association_internal_new_def Let_def)
  have "unat (pq_length (as_inflight_queue ?a)) = 0 \<and>
      pg_queue_len (sh_pending_queue ?a) = of_nat (length (pg_unordered_queue pending_queue_new) + length (pg_ordered_queue pending_queue_new))"
    using reachable_invariant [OF example_node_run _ HOL.refl HOL.refl HOL.refl] r a by simp
  then show ?thesis by (simp add: pending_queue_new_def unat_eq_0)
qed

theorem reachable_never_stuck_witness:
  "(\<exists>raws ok a. gather_outbound (\<lambda>_. 0) 5 (nd_assoc example_node) = Some (Ok (raws, ok), a)) \<and>
    fst (handle_inbound (\<lambda>_. 0) (\<lambda>x. x) 5 [] [0] (nd_assoc example_node)) \<noteq> Panic"
proof -
  have r: "nd_reader example_node = Handling [0]" by (simp add: example_node_def read_loop_receive_def)
  have "packet_unmarshal (\<lambda>_. 0) 5 [0] \<noteq> Panic" by (simp add: packet_unmarshal_def PACKET_HEADER_SIZE_def)
  then show ?thesis using reachable_never_stuck [OF example_node_run, of 5 "[]"] r by simp
qed

end
