(* ===== verification/Sent.thy ===== *)
theory Sent
  imports Reachable
begin

text \<open>
  What an association sends: every DATA chunk in every packet that it collects, sent for the first time or
  again, is one of the fragments that the writes have made, under the TSN of its place among them.
\<close>

section \<open>The content of the chunks in flight\<close>

text \<open>What the wire carries of a chunk: none of the sender's own bookkeeping.\<close>

definition wire :: "payload_data \<Rightarrow> payload_data" where
  "wire c = payload_data_view 0 c"

lemma wire_view [simp]: "wire (payload_data_view now c) = wire c" "wire (wire c) = wire c"
  by (simp_all add: wire_def payload_data_view_def)

text \<open>
  A chunk in flight has the content \<open>P\<close>, unless it has been acknowledged: then it has lost its
  data, and is not marked for retransmission.
\<close>

definition flight_chunk :: "(payload_data \<Rightarrow> bool) \<Rightarrow> payload_data \<Rightarrow> bool" where
  "flight_chunk P c \<longleftrightarrow> (if pd_acked c then \<not> pd_retransmit c else P (wire c))"

definition flight_ok :: "(payload_data \<Rightarrow> bool) \<Rightarrow> payload_queue \<Rightarrow> bool" where
  "flight_ok P q \<longleftrightarrow> (\<forall>t c. payload_queue_get q t = Some c \<longrightarrow> flight_chunk P c)"

lemma flight_okD: "flight_ok P q \<Longrightarrow> payload_queue_get q t = Some c \<Longrightarrow> flight_chunk P c"
  by (simp add: flight_ok_def)

lemma flight_ok_pop: "flight_ok P q \<Longrightarrow> payload_queue_pop q t = (r, q') \<Longrightarrow> flight_ok P q'"
  by (auto simp: flight_ok_def payload_queue_pop_def payload_queue_get_def Let_def delete_conv'
      split: if_splits option.splits)

lemma flight_ok_update:
  "flight_ok P q \<Longrightarrow> (\<And>c. payload_queue_get q t = Some c \<Longrightarrow> flight_chunk P c \<Longrightarrow> flight_chunk P (f c)) \<Longrightarrow>
    flight_ok P (payload_queue_update q t f)"
  by (auto simp: flight_ok_def payload_queue_get_update split: if_splits)

lemma flight_ok_acked: "flight_ok P q \<Longrightarrow> flight_ok P (snd (payload_queue_mark_as_acked q t))"
  by (auto simp: flight_ok_def mark_as_acked_get flight_chunk_def acked_chunk_def split: if_splits)

lemma flight_ok_push: "flight_ok P q \<Longrightarrow> flight_chunk P c \<Longrightarrow> flight_ok P (payload_queue_push_no_check q c)"
  by (auto simp: flight_ok_def payload_queue_push_no_check_def update_sorted_keys_def payload_queue_get_def update_conv'
      split: if_splits)

lemma flight_ok_mark_all: "flight_ok P q \<Longrightarrow> flight_ok P (payload_queue_mark_all_to_retrasmit cs q)"
proof -
  assume q: "flight_ok P q"
  have "payload_queue_get (payload_queue_mark_all_to_retrasmit cs q) t = map_option
      (\<lambda>c. if pd_acked c \<or> payload_data_abandoned cs c then c else c\<lparr>pd_retransmit := True\<rparr>) (payload_queue_get q t)" for t
    by (simp add: payload_queue_get_def payload_queue_mark_all_to_retrasmit_def map_of_map)
  moreover have "flight_chunk P (if pd_acked c \<or> payload_data_abandoned cs c then c else c\<lparr>pd_retransmit := True\<rparr>)"
    if "flight_chunk P c" for c
    using that by (auto simp: flight_chunk_def wire_def payload_data_view_def split: if_splits)
  ultimately show ?thesis using q unfolding flight_ok_def by (metis (no_types, lifting) map_option_eq_Some)
qed

lemma flight_chunk_bookkeeping:
  "flight_chunk P c \<Longrightarrow> flight_chunk P (chunk_missed c)"
  "flight_chunk P c \<Longrightarrow> flight_chunk P (retransmitted c)"
  "flight_chunk P c \<Longrightarrow> flight_chunk P (fast_retransmitted c)"
  "wire (retransmitted c) = wire c" "wire (fast_retransmitted c) = wire c"
  by (auto simp: flight_chunk_def chunk_missed_def retransmitted_def fast_retransmitted_def wire_def payload_data_view_def
      split: if_splits)

text \<open>A SACK, whatever it says, changes no content.\<close>

interpretation content: sack_invariant "\<lambda>a. flight_ok P (as_inflight_queue a)" for P
  by unfold_locales (auto intro: flight_ok_pop flight_ok_acked flight_ok_update flight_chunk_bookkeeping)

section \<open>The fragments and their numbers\<close>

text \<open>
  \<open>W\<close> are all fragments that are ever written, in the order of the writes, \<open>t\<close> the first TSN.
  The first \<open>n\<close> of them have been written so far, and some of these have got their number.
\<close>

definition numbered :: "u32 \<Rightarrow> payload_data list \<Rightarrow> payload_data set" where
  "numbered t W = wire ` set (assign_tsns t W)"

definition sender_ok :: "u32 \<Rightarrow> payload_data list \<Rightarrow> nat \<Rightarrow> association \<Rightarrow> bool" where
  "sender_ok t W n a \<longleftrightarrow> n \<le> length W \<and> flight_ok (\<lambda>d. d \<in> numbered t W) (as_inflight_queue a) \<and>
     pg_unordered_queue (sh_pending_queue a) = [] \<and>
     (\<exists>h \<le> n. as_my_next_tsn a = t + of_nat h \<and> pg_ordered_queue (sh_pending_queue a) = drop h (take n W))"

definition with_data :: "payload_data list \<Rightarrow> bool" where
  "with_data W \<longleftrightarrow> (\<forall>c \<in> set W. \<not> pd_acked c \<and> pd_user_data c \<noteq> [] \<and> length (pd_user_data c) < 2 ^ 32)"

lemma sender_ok_views:
  assumes "sender_ok t W n a" and "flight_ok (\<lambda>d. d \<in> numbered t W) (as_inflight_queue b)"
    and "as_my_next_tsn b = as_my_next_tsn a" and "sh_pending_queue b = sh_pending_queue a"
  shows "sender_ok t W n b"
  using assms by (simp add: sender_ok_def)

lemma sender_ok_same:
  assumes "sender_ok t W n a" and "flight_view b = flight_view a"
  shows "sender_ok t W n b"
proof -
  have "as_inflight_queue b = as_inflight_queue a" "as_my_next_tsn b = as_my_next_tsn a" "sh_pending_queue b = sh_pending_queue a"
    using assms(2) by (simp_all add: flight_view_def sender_view_def)
  then show ?thesis using assms(1) by (simp add: sender_ok_def)
qed

section \<open>New data\<close>

text \<open>With no unordered chunk, a pop takes the first ordered chunk or nothing.\<close>

lemma pop_ordered_only:
  assumes "pending_queue_pop q b u = (r, q')" and "pg_unordered_queue q = []"
  shows "pg_unordered_queue q' = [] \<and>
    (r = None \<and> pg_ordered_queue q' = pg_ordered_queue q \<or>
     (\<exists>c. r = Some c \<and> pg_ordered_queue q = c # pg_ordered_queue q'))"
proof -
  have f: "front xs = None \<longleftrightarrow> xs = []" "front xs = Some c \<longleftrightarrow> (\<exists>ys. xs = c # ys)" for xs :: "payload_data list" and c
    by (cases xs; auto)+
  show ?thesis
    using assms
    by (auto simp: pending_queue_pop_def pending_queue_popped_def pop_front_unordered_def pop_front_ordered_def f
        split: if_splits option.splits)
qed

lemma peek_ordered_only:
  assumes "pending_queue_peek q = Some c" and "pg_unordered_queue q = []"
  shows "c \<in> set (pg_ordered_queue q)"
  using assms by (cases "pg_ordered_queue q") (auto simp: pending_queue_peek_def split: if_splits)

lemma drop_take_step:
  assumes "drop h (take n W) = c # cs"
  shows "h < n" and "h < length W" and "W ! h = c" and "drop (Suc h) (take n W) = cs"
proof -
  have l: "h < length (take n W)" using assms by (metis drop_all leI list.distinct(1))
  then show "h < n" "h < length W" by simp_all
  show "W ! h = c" using assms l by (metis Cons_nth_drop_Suc list.inject nth_take \<open>h < n\<close>)
  show "drop (Suc h) (take n W) = cs" using assms l by (metis Cons_nth_drop_Suc list.inject)
qed

lemma numbered_nth: "h < length W \<Longrightarrow> wire ((W ! h)\<lparr>pd_tsn := t + of_nat h\<rparr>) \<in> numbered t W"
  unfolding numbered_def by (metis assign_tsns_nth image_eqI length_assign_tsns nth_mem)

lemma moved_ok:
  assumes "sender_ok t W n a" and "with_data W"
    and "move_pending_data_chunk_to_inflight_queue now b u a = (r, a')"
  shows "sender_ok t W n a'" and "\<And>c. r = Some c \<Longrightarrow> wire c \<in> numbered t W"
proof -
  obtain r0 q where q: "pending_queue_pop (sh_pending_queue a) b u = (r0, q)" by fastforce
  obtain h where h: "h \<le> n" "as_my_next_tsn a = t + of_nat h" "pg_ordered_queue (sh_pending_queue a) = drop h (take n W)"
    and s: "n \<le> length W" "flight_ok (\<lambda>d. d \<in> numbered t W) (as_inflight_queue a)" "pg_unordered_queue (sh_pending_queue a) = []"
    using assms(1) by (auto simp: sender_ok_def)
  note p = pop_ordered_only [OF q s(3)]
  have "sender_ok t W n a' \<and> (\<forall>c. r = Some c \<longrightarrow> wire c \<in> numbered t W)"
  proof (cases r0)
    case None
    then have "r = None" "a' = a\<lparr>sh_pending_queue := q\<rparr>"
      using assms(3) q by (simp_all add: move_pending_data_chunk_to_inflight_queue_def)
    then show ?thesis using None p assms(1) by (simp add: sender_ok_def)
  next
    case (Some c)
    then have "drop h (take n W) = c # pg_ordered_queue q" using p h(3) by auto
    note d = drop_take_step [OF this]
    let ?c = "c\<lparr>pd_tsn := as_my_next_tsn a, pd_since := now, pd_nsent := 1\<rparr>"
    have "wire ?c = wire ((W ! h)\<lparr>pd_tsn := t + of_nat h\<rparr>)"
      by (simp add: d(3) h(2) wire_def payload_data_view_def)
    then have w: "wire ?c \<in> numbered t W" using numbered_nth [OF d(2)] by simp
    have "\<not> pd_acked c" using assms(2) d(2,3) nth_mem by (fastforce simp: with_data_def)
    then have c: "flight_chunk (\<lambda>d. d \<in> numbered t W) ?c" using w by (simp add: flight_chunk_def)
    have "r = Some ?c" "as_inflight_queue a' = payload_queue_push_no_check (as_inflight_queue a) ?c"
        "as_my_next_tsn a' = as_my_next_tsn a + 1" "sh_pending_queue a' = q"
      using assms(3) q Some
      by (auto simp: move_pending_data_chunk_to_inflight_queue_def generate_next_tsn_def Let_def split: if_splits)
    then show ?thesis
      using w flight_ok_push [OF s(2) c] p d(1,4) h(2) s(1)
      by (auto simp: sender_ok_def intro!: exI [of _ "Suc h"])
  qed
  then show "sender_ok t W n a'" "\<And>c. r = Some c \<Longrightarrow> wire c \<in> numbered t W" by blast+
qed

lemma pop_loop_ok:
  assumes "pop_pending_loop now a cs sis = Some (cs', sis', a')" and "sender_ok t W n a" and "with_data W"
  shows "sender_ok t W n a' \<and> (\<forall>c \<in> set cs'. c \<in> set cs \<or> wire c \<in> numbered t W)"
proof -
  have len: "(of_nat (length (pd_user_data c)) :: usize) \<noteq> 0"
    if "pending_queue_peek (sh_pending_queue a) = Some c" "sender_ok t W n a" for a c
  proof -
    have "c \<in> set W"
      using peek_ordered_only [OF that(1)] that(2) by (auto simp: sender_ok_def dest!: in_set_dropD in_set_takeD)
    then have "pd_user_data c \<noteq> []" "length (pd_user_data c) < 2 ^ 32" using assms(3) by (auto simp: with_data_def)
    then show ?thesis by (simp add: usize_of_nat_eq_0)
  qed
  have "sender_ok t W n a \<longrightarrow> sender_ok t W n (snd (snd y)) \<and> (\<forall>c \<in> set (fst y). c \<in> set cs \<or> wire c \<in> numbered t W)"
    if "pop_pending_loop now a cs sis = Some y" for y
  proof (rule pop_pending_loop.raw_induct [OF _ that, where P = "\<lambda>now a cs sis y. sender_ok t W n a \<longrightarrow>
      sender_ok t W n (snd (snd y)) \<and> (\<forall>c \<in> set (fst y). c \<in> set cs \<or> wire c \<in> numbered t W)"], rule impI)
    fix loop now a cs sis y
    assume IH: "\<And>now a cs sis y. loop now a cs sis = Some y \<Longrightarrow> sender_ok t W n a \<longrightarrow>
        sender_ok t W n (snd (snd y)) \<and> (\<forall>c \<in> set (fst y). c \<in> set cs \<or> wire c \<in> numbered t W)"
      and 1: "(case pending_queue_peek (sh_pending_queue a) of
        None \<Rightarrow> Some (cs, sis, a)
      | Some c \<Rightarrow>
          let data_len = of_nat (length (pd_user_data c)) in
          if data_len = 0 then
            loop now
              (a\<lparr>sh_pending_queue :=
                   snd (pending_queue_pop (sh_pending_queue a) (pd_beginning_fragment c) (pd_unordered c))\<rparr>)
              cs (sis @ [pd_stream_identifier c])
          else if payload_queue_get_num_bytes (as_inflight_queue a) + data_len > ucast (as_cwnd a)
          then Some (cs, sis, a)
          else if data_len > ucast (as_rwnd a) then Some (cs, sis, a)
          else
            case move_pending_data_chunk_to_inflight_queue now (pd_beginning_fragment c) (pd_unordered c)
                   (a\<lparr>as_rwnd := as_rwnd a - ucast data_len\<rparr>) of
              (Some chunk, a) \<Rightarrow> loop now a (cs @ [chunk]) sis
            | (None, a) \<Rightarrow> loop now a cs sis) = Some y"
      and a: "sender_ok t W n a"
    show "sender_ok t W n (snd (snd y)) \<and> (\<forall>c \<in> set (fst y). c \<in> set cs \<or> wire c \<in> numbered t W)"
    proof (cases "pending_queue_peek (sh_pending_queue a)")
      case None
      then show ?thesis using 1 a by auto
    next
      case (Some c)
      let ?b = "a\<lparr>as_rwnd := as_rwnd a - ucast (of_nat (length (pd_user_data c)) :: usize)\<rparr>"
      have b: "sender_ok t W n ?b" using a by (simp add: sender_ok_def)
      obtain r b' where m: "move_pending_data_chunk_to_inflight_queue now (pd_beginning_fragment c) (pd_unordered c) ?b = (r, b')"
        by fastforce
      note moved = moved_ok [OF b assms(3) m]
      show ?thesis
      proof (cases r)
        case None
        then show ?thesis using 1 Some m len [OF Some a] IH [of now b' cs sis y] moved a by (auto simp: Let_def split: if_splits)
      next
        case (Some d)
        have "sender_ok t W n b' \<longrightarrow> sender_ok t W n (snd (snd y)) \<and>
            (\<forall>c \<in> set (fst y). c \<in> set (cs @ [d]) \<or> wire c \<in> numbered t W)"
          if "loop now b' (cs @ [d]) sis = Some y" using IH [OF that] .
        then show ?thesis
          using 1 \<open>pending_queue_peek _ = _\<close> Some m len [OF \<open>pending_queue_peek _ = _\<close> a] moved a
          by (auto simp: Let_def split: if_splits)
      qed
    qed
  qed
  then show ?thesis using assms by fastforce
qed

lemma pop_pending_ok:
  assumes "pop_pending_data_chunks_to_send now a = Some (Ok (cs, sis), a')" and "sender_ok t W n a" and "with_data W"
  shows "sender_ok t W n a' \<and> (\<forall>c \<in> set cs. wire c \<in> numbered t W)"
proof (cases "pending_queue_len (sh_pending_queue a) = 0")
  case True
  then show ?thesis using assms by (auto simp: pop_pending_data_chunks_to_send_def)
next
  case False
  then obtain ds ss b where d: "pop_pending_loop now a [] [] = Some (ds, ss, b)"
    using assms(1) by (auto simp: pop_pending_data_chunks_to_send_def split: option.splits)
  note b = pop_loop_ok [OF d assms(2,3)]
  have "sender_ok t W n (snd (zero_window_probe now b)) \<and> (\<forall>c \<in> set (fst (zero_window_probe now b)). wire c \<in> numbered t W)"
    using b moved_ok [of t W n b now] assms(3)
    by (auto simp: zero_window_probe_def split: option.split prod.split)
  then show ?thesis
    using assms(1) False b
    by (auto simp: pop_pending_data_chunks_to_send_def d then_do_Ok case_prod_beta split: if_splits)
qed

section \<open>Sending again\<close>

lemma retransmit_loop_ok:
  assumes "retransmit_loop fuel now awnd i b cs a = (cs', a')" and "sender_ok t W n a"
    and "\<forall>c \<in> set cs. wire c \<in> numbered t W"
  shows "sender_ok t W n a' \<and> (\<forall>c \<in> set cs'. wire c \<in> numbered t W)"
  using assms
proof (induction fuel now awnd i b cs a rule: retransmit_loop.induct)
  case (2 fuel now awnd i b cs a)
  let ?t = "as_cumulative_tsn_ack_point a + i + 1"
  show ?case
  proof (cases "payload_queue_get (as_inflight_queue a) ?t")
    case (Some c)
    let ?a = "check_partial_reliability_status now (retransmitted c)
      (a\<lparr>as_inflight_queue := payload_queue_update (as_inflight_queue a) ?t retransmitted\<rparr>)"
    have c: "flight_chunk (\<lambda>d. d \<in> numbered t W) c" using 2(4) Some by (auto simp: sender_ok_def dest: flight_okD)
    have a: "sender_ok t W n ?a"
      using 2(4) by (auto intro!: sender_ok_views [OF 2(4)] flight_ok_update flight_chunk_bookkeeping simp: sender_ok_def)
    show ?thesis
    proof (cases "pd_retransmit c")
      case True
      then have "wire (retransmitted c) \<in> numbered t W"
        using c by (simp add: flight_chunk_bookkeeping) (auto simp: flight_chunk_def split: if_splits)
      then have "\<forall>d \<in> set (cs @ [retransmitted c]). wire d \<in> numbered t W" using 2(5) by auto
      then show ?thesis using 2 Some True a by (auto simp: Let_def split: if_splits)
    qed (use 2 Some in auto)
  qed (use 2 in auto)
qed simp

lemma fast_loop_ok:
  assumes "fast_retransmit_loop fuel now i m cs a = (cs', a')" and "sender_ok t W n a"
    and "\<forall>c \<in> set cs. wire c \<in> numbered t W"
  shows "sender_ok t W n a' \<and> (\<forall>c \<in> set cs'. wire c \<in> numbered t W)"
  using assms
proof (induction fuel now i m cs a rule: fast_retransmit_loop.induct)
  case (2 fuel now i m cs a)
  let ?t = "as_cumulative_tsn_ack_point a + i + 1"
  show ?case
  proof (cases "payload_queue_get (as_inflight_queue a) ?t")
    case (Some c)
    let ?b = "a\<lparr>as_stats := inc_fast_retrans (as_stats a),
      as_inflight_queue := payload_queue_update (as_inflight_queue a) ?t fast_retransmitted\<rparr>"
    let ?a = "check_partial_reliability_status now (fast_retransmitted c) ?b"
    have c: "flight_chunk (\<lambda>d. d \<in> numbered t W) c" using 2(4) Some by (auto simp: sender_ok_def dest: flight_okD)
    have a: "sender_ok t W n ?a"
      using 2(4) by (auto intro!: sender_ok_views [OF 2(4)] flight_ok_update flight_chunk_bookkeeping simp: sender_ok_def)
    show ?thesis
    proof (cases "pd_acked c")
      case False
      then have "wire (fast_retransmitted c) \<in> numbered t W"
        using c by (simp add: flight_chunk_bookkeeping) (auto simp: flight_chunk_def split: if_splits)
      then have "\<forall>d \<in> set (cs @ [fast_retransmitted c]). wire d \<in> numbered t W" using 2(5) by auto
      then show ?thesis using 2 Some False a by (auto simp: Let_def split: if_splits)
    qed (use 2 Some in auto)
  qed (use 2 in auto)
qed simp

section \<open>The packets\<close>

text \<open>
  A packet of DATA chunks of content \<open>P\<close>, or of one other chunk of the kinds that the write loop makes
  itself.  The packets of the control queue are another matter: they are answers to the peer.
\<close>

fun control_chunk :: "chunk \<Rightarrow> bool" where
  "control_chunk (ChunkSelectiveAck d) = True"
| "control_chunk (ChunkForwardTsn d) = True"
| "control_chunk (ChunkReconfig d) = True"
| "control_chunk (ChunkShutdown d) = True"
| "control_chunk ChunkShutdownAck = True"
| "control_chunk ChunkShutdownComplete = True"
| "control_chunk _ = False"

definition packet_of :: "(payload_data \<Rightarrow> bool) \<Rightarrow> packet \<Rightarrow> bool" where
  "packet_of P p \<longleftrightarrow> (\<exists>ds. pk_chunks p = map ChunkPayloadData ds \<and> (\<forall>d \<in> set ds. P (wire d))) \<or>
     (\<exists>c. pk_chunks p = [c] \<and> control_chunk c)"

definition datagram_of :: "(bytes \<Rightarrow> u32) \<Rightarrow> (payload_data \<Rightarrow> bool) \<Rightarrow> bytes \<Rightarrow> bool" where
  "datagram_of crc P raw \<longleftrightarrow> (\<exists>p. packet_marshal crc p = Ok raw \<and> packet_of P p)"

definition control_raws :: "(bytes \<Rightarrow> u32) \<Rightarrow> association \<Rightarrow> bytes list" where
  "control_raws crc a = foldl (push_raw crc) [] (as_control_queue a)"

lemma push_raw_ok:
  "(\<forall>raw \<in> set raws. raw \<in> C \<or> datagram_of crc P raw) \<Longrightarrow> packet_of P p \<Longrightarrow>
    \<forall>raw \<in> set (push_raw crc raws p). raw \<in> C \<or> datagram_of crc P raw"
  by (auto simp: push_raw_def datagram_of_def split: outcome.split)

lemma push_raws_ok:
  assumes "\<forall>raw \<in> set raws. raw \<in> C \<or> datagram_of crc P raw" and "\<forall>x \<in> set xs. packet_of P (f x)"
  shows "\<forall>raw \<in> set (foldl (\<lambda>r x. push_raw crc r (f x)) raws xs). raw \<in> C \<or> datagram_of crc P raw"
  using assms
proof (induction xs arbitrary: raws)
  case (Cons x xs)
  then show ?case using push_raw_ok [of raws C crc P "f x"] by simp
qed simp

lemma packet_of_control: "control_chunk c \<Longrightarrow> packet_of P (create_packet a [c])"
  by (auto simp: packet_of_def create_packet_def)

lemma packet_of_data: "\<forall>d \<in> set ds. P (wire d) \<Longrightarrow> packet_of P (create_packet a (map ChunkPayloadData ds))"
  by (auto simp: packet_of_def create_packet_def)

lemma bundle_packets:
  assumes "\<forall>d \<in> set cs. P (wire d)" and "p \<in> set (bundle_data_chunks_into_packets cs a)"
  shows "packet_of P p"
proof -
  have "set (pk_chunks p) \<subseteq> ChunkPayloadData ` set cs"
    using bundle_loop_chunks [of a cs "[]" COMMON_HEADER_SIZE] assms(2)
    by (auto simp: bundle_data_chunks_into_packets_def dest!: arg_cong [of _ _ set])
  then obtain ds where "pk_chunks p = map ChunkPayloadData ds" "set ds \<subseteq> set cs"
  proof (induction "pk_chunks p" arbitrary: p thesis)
    case (Cons c cs')
    obtain d where d: "c = ChunkPayloadData d" "d \<in> set cs" using Cons.prems(2) Cons.hyps(2) [symmetric] by auto
    obtain ds where "cs' = map ChunkPayloadData ds" "set ds \<subseteq> set cs"
      using Cons.hyps(1) [of "p\<lparr>pk_chunks := cs'\<rparr>"] Cons.prems(2) Cons.hyps(2) [symmetric] by auto
    then show ?case using d Cons.hyps(2) [symmetric] by (intro Cons.prems(1) [of "d # ds"]) auto
  qed simp
  then show ?thesis using assms(1) by (auto simp: packet_of_def)
qed

definition raws_ok :: "(bytes \<Rightarrow> u32) \<Rightarrow> bytes set \<Rightarrow> u32 \<Rightarrow> payload_data list \<Rightarrow> bytes list \<Rightarrow> bool" where
  "raws_ok crc C t W raws \<longleftrightarrow> (\<forall>raw \<in> set raws. raw \<in> C \<or> datagram_of crc (\<lambda>d. d \<in> numbered t W) raw)"

lemma gather_retransmit_ok:
  assumes "gather_data_packets_to_retransmit crc now raws a = (raws', a')" and "sender_ok t W n a" and "raws_ok crc C t W raws"
  shows "sender_ok t W n a' \<and> raws_ok crc C t W raws'"
proof -
  obtain cs b where cs: "retransmit_loop (inflight_fuel a) now (min (as_cwnd a) (as_rwnd a)) 0 0 [] a = (cs, b)" by fastforce
  note r = retransmit_loop_ok [OF cs assms(2)]
  have "\<forall>p \<in> set (bundle_data_chunks_into_packets cs b). packet_of (\<lambda>d. d \<in> numbered t W) p"
    using r by (auto intro: bundle_packets)
  from push_raws_ok [OF assms(3) [unfolded raws_ok_def], of _ "\<lambda>p. p", OF this] show ?thesis
    using assms(1) r
    by (auto simp: gather_data_packets_to_retransmit_def get_data_packets_to_retransmit_def cs raws_ok_def Let_def)
qed

lemma gather_fast_ok:
  assumes "gather_outbound_fast_retransmission_packets crc now raws a = (raws', a')" and "sender_ok t W n a" and "raws_ok crc C t W raws"
  shows "sender_ok t W n a' \<and> raws_ok crc C t W raws'"
proof (cases "as_will_retransmit_fast a")
  case True
  let ?a = "a\<lparr>as_will_retransmit_fast := False\<rparr>"
  obtain cs b where cs: "fast_retransmit_loop (inflight_fuel ?a) now 0 COMMON_HEADER_SIZE [] ?a = (cs, b)" by fastforce
  have "sender_ok t W n ?a" using assms(2) by (simp add: sender_ok_def)
  note r = fast_loop_ok [OF cs this]
  have "packet_of (\<lambda>d. d \<in> numbered t W) (create_packet b (map ChunkPayloadData cs))" using r by (intro packet_of_data) simp
  from push_raw_ok [OF assms(3) [unfolded raws_ok_def] this] show ?thesis
    using assms(1,3) r True
    by (auto simp: gather_outbound_fast_retransmission_packets_def cs raws_ok_def Let_def split: if_splits)
qed (use assms in \<open>simp add: gather_outbound_fast_retransmission_packets_def\<close>)

lemma gather_sack_ok:
  assumes "gather_outbound_sack_packets crc raws a = (raws', a')" and "sender_ok t W n a" and "raws_ok crc C t W raws"
  shows "sender_ok t W n a' \<and> raws_ok crc C t W raws'"
  using assms push_raw_ok [OF assms(3) [unfolded raws_ok_def] packet_of_control [of "ChunkSelectiveAck _"]]
  by (auto simp: gather_outbound_sack_packets_def create_selective_ack_chunk_def payload_queue_pop_duplicates_def Let_def
      sender_ok_def raws_ok_def split: if_splits)

lemma gather_forward_ok:
  assumes "gather_outbound_forward_tsn_packets crc raws a = (raws', a')" and "sender_ok t W n a" and "raws_ok crc C t W raws"
  shows "sender_ok t W n a' \<and> raws_ok crc C t W raws'"
  using assms push_raw_ok [OF assms(3) [unfolded raws_ok_def] packet_of_control [of "ChunkForwardTsn _"]]
  by (auto simp: gather_outbound_forward_tsn_packets_def Let_def sender_ok_def raws_ok_def split: if_splits)

lemma gather_shutdown_ok:
  assumes "gather_outbound_shutdown_packets crc raws a = (raws', ok, a')" and "sender_ok t W n a" and "raws_ok crc C t W raws"
  shows "sender_ok t W n a' \<and> raws_ok crc C t W raws'"
proof -
  have d: "control_chunk c \<Longrightarrow> packet_marshal crc (create_packet b [c]) = Ok raw \<Longrightarrow>
      datagram_of crc (\<lambda>d. d \<in> numbered t W) raw" for raw b c
    using packet_of_control [of c _ b] by (auto simp: datagram_of_def)
  show ?thesis
    using assms
    by (auto simp: gather_outbound_shutdown_packets_def start_t2shutdown_def Let_def sender_ok_def raws_ok_def
        split: if_splits outcome.splits dest: d [of "ChunkShutdown _", simplified] d [of ChunkShutdownAck, simplified] d [of ChunkShutdownComplete, simplified])
qed

lemma gather_reconfig_ok:
  assumes "gather_reconfig_packets crc sis raws a = (raws', a')" and "sender_ok t W n a" and "raws_ok crc C t W raws"
  shows "sender_ok t W n a' \<and> raws_ok crc C t W raws'"
proof -
  let ?again = "foldl (\<lambda>r c. push_raw crc r (create_packet b [ChunkReconfig c])) raws"
  have again: "raws_ok crc C t W (foldl (\<lambda>r c. push_raw crc r (create_packet b [ChunkReconfig c])) raws cs)" for b cs
    using push_raws_ok [OF assms(3) [unfolded raws_ok_def], of cs "\<lambda>c. create_packet b [ChunkReconfig c]"]
    by (simp add: raws_ok_def packet_of_control)
  have one: "raws_ok crc C t W (push_raw crc rs (create_packet b [ChunkReconfig c]))" if "raws_ok crc C t W rs" for rs b c
    using push_raw_ok [OF that [unfolded raws_ok_def], of "create_packet b [ChunkReconfig c]"] by (simp add: raws_ok_def packet_of_control)
  show ?thesis
    using assms again
    by (auto simp: gather_reconfig_packets_def generate_next_rsn_def Let_def sender_ok_def split: if_splits intro!: one)
qed

lemma gather_data_ok:
  assumes "gather_outbound_data_and_reconfig_packets crc now raws a = Some (Ok raws', a')" and "sender_ok t W n a"
    and "raws_ok crc C t W raws" and "with_data W"
  shows "sender_ok t W n a' \<and> raws_ok crc C t W raws'"
proof -
  obtain cs sis b where b: "pop_pending_data_chunks_to_send now a = Some (Ok (cs, sis), b)"
    using assms(1) by (auto simp: gather_outbound_data_and_reconfig_packets_def then_do_Ok split: option.splits)
  note p = pop_pending_ok [OF b assms(2,4)]
  define raws1 where "raws1 = (if cs \<noteq> [] then
      foldl (push_raw crc) raws (bundle_data_chunks_into_packets cs (start_t3rtx b)) else raws)"
  define b1 where "b1 = (if cs \<noteq> [] then start_t3rtx b else b)"
  have "\<forall>p \<in> set (bundle_data_chunks_into_packets cs (start_t3rtx b)). packet_of (\<lambda>d. d \<in> numbered t W) p"
    using p by (auto intro: bundle_packets)
  then have "raws_ok crc C t W raws1"
    using push_raws_ok [OF assms(3) [unfolded raws_ok_def], of _ "\<lambda>p. p"] assms(3) by (simp add: raws_ok_def raws1_def)
  moreover have "sender_ok t W n b1" using p by (simp add: b1_def sender_ok_def start_t3rtx_def)
  moreover have "gather_reconfig_packets crc sis raws1 b1 = (raws', a')"
    using assms(1)
    by (auto simp: gather_outbound_data_and_reconfig_packets_def b raws1_def b1_def Let_def split: if_splits prod.splits)
  ultimately show ?thesis using gather_reconfig_ok by blast
qed

lemma gather_sends:
  assumes "gather_outbound crc now a = Some (Ok (raws, ok), a')" and "sender_ok t W n a" and "with_data W"
  shows "sender_ok t W n a' \<and> raws_ok crc (set (control_raws crc a)) t W raws"
proof -
  let ?a = "a\<lparr>as_control_queue := []\<rparr>" and ?C = "set (control_raws crc a)"
  have start: "sender_ok t W n ?a" "raws_ok crc ?C t W (control_raws crc a)"
    using assms(2) by (simp_all add: sender_ok_def raws_ok_def)
  have st: "get_state ?a = get_state a" by (simp add: get_state_def)
  obtain r1 a1 where g1: "gather_data_packets_to_retransmit crc now (control_raws crc a) ?a = (r1, a1)" by fastforce
  note o1 = gather_retransmit_ok [OF g1 start]
  consider (established) "get_state a = Established" | (shutting) "get_state a \<in> {ShutdownPending, ShutdownSent, ShutdownReceived}"
    | (acking) "get_state a = ShutdownAckSent" | (other) "get_state a \<notin> {Established, ShutdownPending, ShutdownSent, ShutdownReceived, ShutdownAckSent}"
    by blast
  then show ?thesis
  proof cases
    case established
    then obtain r2 a2 where g2: "gather_outbound_data_and_reconfig_packets crc now r1 a1 = Some (Ok r2, a2)"
      using assms(1) st g1 by (auto simp: gather_outbound_def control_raws_def [symmetric] then_do_Ok Let_def split: option.splits)
    obtain r3 a3 where g3: "gather_outbound_fast_retransmission_packets crc now r2 a2 = (r3, a3)" by fastforce
    obtain r4 a4 where g4: "gather_outbound_sack_packets crc r3 a3 = (r4, a4)" by fastforce
    have g5: "gather_outbound_forward_tsn_packets crc r4 a4 = (raws, a')"
      using assms(1) st established g1 g2 g3 g4
      by (auto simp: gather_outbound_def control_raws_def [symmetric] Let_def split: prod.splits)
    show ?thesis
      using o1 gather_data_ok [OF g2 _ _ assms(3)] gather_fast_ok [OF g3] gather_sack_ok [OF g4] gather_forward_ok [OF g5] by blast
  next
    case shutting
    obtain r3 a3 where g3: "gather_outbound_fast_retransmission_packets crc now r1 a1 = (r3, a3)" by fastforce
    obtain r4 a4 where g4: "gather_outbound_sack_packets crc r3 a3 = (r4, a4)" by fastforce
    have g5: "gather_outbound_shutdown_packets crc r4 a4 = (raws, ok, a')"
      using assms(1) st shutting g1 g3 g4
      by (auto simp: gather_outbound_def control_raws_def [symmetric] Let_def split: prod.splits)
    show ?thesis using o1 gather_fast_ok [OF g3] gather_sack_ok [OF g4] gather_shutdown_ok [OF g5] by blast
  next
    case acking
    then have "gather_outbound_shutdown_packets crc (control_raws crc a) ?a = (raws, ok, a')"
      using assms(1) st by (auto simp: gather_outbound_def control_raws_def [symmetric] Let_def split: prod.splits)
    then show ?thesis using start gather_shutdown_ok by blast
  next
    case other
    then have "raws = control_raws crc a" "a' = ?a"
      using assms(1) st by (auto simp: gather_outbound_def control_raws_def [symmetric] Let_def)
    then show ?thesis using start by simp
  qed
qed

section \<open>The other operations of a sender\<close>

lemma sender_ok_sack:
  assumes "sender_ok t W n a"
  shows "sender_ok t W n (snd (handle_sack rnd now d a))"
proof -
  have "flight_ok (\<lambda>d. d \<in> numbered t W) (as_inflight_queue (snd (handle_sack rnd now d a)))"
    using assms by (intro content.keeps_handle_sack) (simp add: sender_ok_def)
  moreover have "unsent_view (snd (handle_sack rnd now d a)) = unsent_view a"
    by (rule unsent.keeps_handle_sack) simp
  ultimately show ?thesis using assms by (intro sender_ok_views [OF assms]) (simp_all add: unsent_view_def)
qed

lemma sender_ok_chunks:
  "sender_ok t W n a \<Longrightarrow> sender_ok t W n (snd (handle_chunks rnd now random32 p cs a))"
proof (induction cs arbitrary: a)
  case (Cons c cs)
  have "sender_ok t W n (snd (handle_chunk rnd now random32 p c a))"
  proof (cases "\<exists>d. c = ChunkSelectiveAck d")
    case True
    then obtain d where d: "c = ChunkSelectiveAck d" by blast
    define f where "f = (\<lambda>packets b. (Ok (), if packets \<noteq> []
      then awake_write_loop (b\<lparr>as_control_queue := as_control_queue b @ packets\<rparr>) else b) :: unit outcome \<times> association)"
    have f: "sender_ok t W n (snd (f packets b))" if "sender_ok t W n b" for packets b
      using that by (simp add: f_def sender_ok_def awake_write_loop_def)
    have "handle_chunk rnd now random32 p c a = then_do (handle_sack rnd now d a) f"
      by (simp add: handle_chunk_def handle_checked_chunk_def d f_def)
    then show ?thesis
      using sender_ok_sack [OF Cons.prems, of rnd now d] f
      by (cases "handle_sack rnd now d a"; cases "fst (handle_sack rnd now d a)") simp_all
  next
    case False
    then have "flight_view (snd (handle_chunk rnd now random32 p c a)) = flight_view a"
      by (intro flight.keeps_chunk) auto
    then show ?thesis by (rule sender_ok_same [OF Cons.prems])
  qed
  then show ?case
    using Cons.IH by (cases "handle_chunk rnd now random32 p c a"; cases "fst (handle_chunk rnd now random32 p c a)") auto
qed simp

lemma sender_ok_inbound:
  assumes "sender_ok t W n a"
  shows "sender_ok t W n (snd (handle_inbound crc rnd now random32 raw a))"
proof -
  have start: "sender_ok t W n (handle_chunk_start a)"
    by (rule sender_ok_same [OF assms]) (rule flight.keeps_start_end(1) [THEN iffD2, OF HOL.refl])
  have fin: "sender_ok t W n (handle_chunk_end b)" if "sender_ok t W n b" for b
    by (rule sender_ok_same [OF that]) (rule flight.keeps_start_end(2) [THEN iffD2, OF HOL.refl])
  have "sender_ok t W n (snd (then_do (handle_chunks rnd now random32 p (pk_chunks p) (handle_chunk_start a))
      (\<lambda>_ a. (Ok (), handle_chunk_end a))))" for p
    using sender_ok_chunks [OF start, of rnd now random32 p "pk_chunks p"] fin
    by (cases "handle_chunks rnd now random32 p (pk_chunks p) (handle_chunk_start a)";
        cases "fst (handle_chunks rnd now random32 p (pk_chunks p) (handle_chunk_start a))") auto
  then show ?thesis using assms by (auto simp: handle_inbound_def split: outcome.split)
qed

lemma sender_ok_aside: "sender_ok t W n a \<Longrightarrow> aside a b \<Longrightarrow> sender_ok t W n b"
  by (rule sender_ok_same) (simp_all add: aside_def)

lemma sender_ok_t3:
  assumes "sender_ok t W n a"
  shows "sender_ok t W n (on_retransmission_timeout T3RTX a)"
proof -
  let ?a = "a\<lparr>as_stats := inc_t3timeouts (as_stats a), as_ssthresh := max (as_cwnd a div 2) (4 * as_mtu a), as_cwnd := as_mtu a\<rparr>"
  let ?b = "if as_use_forward_tsn ?a then advance_peer_ack_point ?a else ?a"
  have b: "flight_ok (\<lambda>d. d \<in> numbered t W) (as_inflight_queue ?b)"
      "(as_my_next_tsn ?b, sh_pending_queue ?b) = (as_my_next_tsn a, sh_pending_queue a)"
    using assms unsent.keeps_ack_points(1) [of ?a "unsent_view a"] by (auto simp: sender_ok_def unsent_view_def)
  have "on_retransmission_timeout T3RTX a = awake_write_loop (?b\<lparr>as_inflight_queue :=
      payload_queue_mark_all_to_retrasmit (sh_cells ?b) (as_inflight_queue ?b)\<rparr>)"
    by (simp add: on_retransmission_timeout_def Let_def)
  then show ?thesis
    using b flight_ok_mark_all by (intro sender_ok_views [OF assms]) (simp_all add: awake_write_loop_def)
qed

lemma sender_ok_timer:
  "sender_ok t W n a \<Longrightarrow> sender_ok t W n (timer_event i l a)"
proof -
  assume a: "sender_ok t W n a"
  have "sender_ok t W n (on_retransmission_timeout i a)"
    using sender_ok_t3 [OF a] sender_ok_aside [OF a aside_timeout] by (cases "i = T3RTX") auto
  then show ?thesis using a sender_ok_aside [OF a aside_failure]
    by (induction i l a rule: timer_event.induct) simp_all
qed

section \<open>What the receiver makes of them\<close>

text \<open>A datagram whose first chunk has the type DATA.\<close>

definition starts_with_data :: "bytes \<Rightarrow> bool" where
  "starts_with_data raw \<longleftrightarrow> 12 < length raw \<and> raw ! 12 = CT_PAYLOAD_DATA"

lemma foldl_append_outcome:
  "foldl (\<lambda>w s. and_then w (\<lambda>w. and_then (f s) (\<lambda>m. Ok (w @ m)))) (Ok w) xs = Ok m \<Longrightarrow> \<exists>t. m = w @ t"
proof (induction xs arbitrary: w)
  case (Cons x xs)
  have stuck: "foldl (\<lambda>w s. and_then w (\<lambda>w. and_then (f s) (\<lambda>m. Ok (w @ m)))) r xs = r" if "\<not> is_ok r" for r
    using that by (induction xs) (cases r; simp)+
  show ?case
  proof (cases "f x")
    case (Ok y)
    then show ?thesis using Cons.IH [of "w @ y"] Cons.prems by auto
  qed (use Cons.prems stuck in simp_all)
qed simp

lemmas control_headers = selective_ack_header_def forward_tsn_header_def reconfig_header_def shutdown_header_def
  shutdown_ack_header_def shutdown_complete_header_def

lemmas control_marshals = selective_ack_marshal_to_def forward_tsn_marshal_to_def reconfig_marshal_to_def
  shutdown_marshal_to_def shutdown_ack_marshal_to_def shutdown_complete_marshal_to_def

lemma control_chunk_typ:
  assumes "control_chunk c" and "chunk_marshal c = Ok m"
  shows "m \<noteq> [] \<and> m ! 0 \<noteq> CT_PAYLOAD_DATA"
proof -
  have "\<exists>t. m = chunk_typ c # t"
  proof (cases c)
    case (ChunkForwardTsn x)
    then show ?thesis
      using assms(2) by (auto simp: chunk_marshal_def control_marshals chunk_header_marshal_to_def control_headers dest: foldl_append_outcome)
  next
    case (ChunkReconfig x)
    obtain pa where pa: "cr_param_a x = Some pa"
      using assms(2) ChunkReconfig
      by (cases "cr_param_a x") (auto simp: chunk_marshal_def control_marshals chunk_header_marshal_to_def)
    then obtain y where "param_marshal pa = Ok y"
      using assms(2) ChunkReconfig
      by (cases "param_marshal pa") (auto simp: chunk_marshal_def control_marshals chunk_header_marshal_to_def)
    then show ?thesis
      using assms(2) ChunkReconfig pa
      by (cases "cr_param_b x"; cases "param_marshal (the (cr_param_b x))")
        (auto simp: chunk_marshal_def control_marshals chunk_header_marshal_to_def control_headers Let_def)
  qed (use assms in \<open>auto simp: chunk_marshal_def control_marshals chunk_header_marshal_to_def control_headers\<close>)
  moreover have "chunk_typ c \<noteq> CT_PAYLOAD_DATA" using assms(1) by (cases c) (simp_all add: ct_defs)
  ultimately show ?thesis by auto
qed

lemma control_datagram:
  assumes "packet_marshal crc p = Ok raw" and "pk_chunks p = [c]" and "control_chunk c"
  shows "\<not> starts_with_data raw"
proof -
  obtain m where m: "chunk_marshal c = Ok m"
    using assms(1,2) by (cases "chunk_marshal c") (auto simp: packet_marshal_def packet_marshal_to_def Let_def)
  note t = control_chunk_typ [OF assms(3) m]
  let ?h = "put_u16 (pk_source_port p) @ put_u16 (pk_destination_port p) @ put_u32 (pk_verification_tag p)"
  let ?m = "m @ replicate (get_padding_size (length m)) 0"
  have "write_chunks (pk_chunks p) [] = Ok ?m" by (simp add: assms(2) m Let_def)
  then have "raw = (?h @ put_u32_le (crc (?h @ FOUR_ZEROES @ ?m))) @ ?m"
    using assms(1) by (simp add: packet_marshal_def packet_marshal_to_def Let_def)
  moreover have "length (?h @ put_u32_le (crc (?h @ FOUR_ZEROES @ ?m))) = 12" by simp
  ultimately have "raw ! 12 = ?m ! 0" by (metis nth_append_length_plus plus_nat.add_0 add.right_neutral)
  then show ?thesis using t by (cases m) (auto simp: starts_with_data_def)
qed

definition fits_chunk :: "payload_data \<Rightarrow> bool" where
  "fits_chunk c \<longleftrightarrow> value_fits (payload_data_value_length c)"

lemma data_chunks_wf: "\<forall>d \<in> set ds. fits_chunk d \<Longrightarrow> chunks_wf (map ChunkPayloadData ds)"
  by (induction ds) (simp_all add: fits_chunk_def)

lemma datagram_decoded:
  assumes "datagram_of crc P raw" and "\<And>d. P (wire d) \<Longrightarrow> fits_chunk d" and "starts_with_data raw"
    and "packet_unmarshal crc now raw = Ok p"
  shows "\<exists>ds. pk_chunks p = map ChunkPayloadData ds \<and> (\<forall>d \<in> set ds. P (wire d))"
proof -
  obtain q where q: "packet_marshal crc q = Ok raw" "packet_of P q" using assms(1) by (auto simp: datagram_of_def)
  then obtain ds where ds: "pk_chunks q = map ChunkPayloadData ds" "\<forall>d \<in> set ds. P (wire d)"
    using control_datagram [OF q(1)] assms(3) by (auto simp: packet_of_def)
  then have "chunks_wf (pk_chunks q)" using assms(2) by (simp add: data_chunks_wf)
  then have "packet_unmarshal crc now raw = Ok (packet_view now q)"
    using packet_marshal_unmarshal [of q crc now] q(1) by auto
  then have "pk_chunks p = map (chunk_view now) (map ChunkPayloadData ds)" using assms(4) ds(1) by (simp add: packet_view_def)
  then show ?thesis using ds(2) by (intro exI [of _ "map (payload_data_view now) ds"]) simp
qed

section \<open>Writing\<close>

text \<open>The fragments of one message.\<close>

definition message_of :: "u16 \<Rightarrow> u16 \<Rightarrow> bytes \<Rightarrow> payload_protocol_identifier \<Rightarrow> payload_data list \<Rightarrow> bool" where
  "message_of si ssn p ppi cs \<longleftrightarrow> cs \<noteq> [] \<and> message_data cs = p \<and> bits_ok True cs \<and>
     (\<forall>c \<in> set cs. pd_stream_identifier c = si \<and> \<not> pd_unordered c \<and> pd_stream_sequence_number c = ssn \<and>
       pd_payload_type c = ppi \<and> \<not> pd_acked c \<and> pd_user_data c \<noteq> [] \<and> length (pd_user_data c) \<le> 65000)"

text \<open>A stream that writes ordered messages in fragments of at most 65000 bytes.\<close>

definition ordered_writer :: "u16 \<Rightarrow> stream \<Rightarrow> bool" where
  "ordered_writer si s \<longleftrightarrow> st_stream_identifier s = si \<and> \<not> st_unordered s \<and>
     0 < st_max_payload_size s \<and> st_max_payload_size s \<le> 65000"

lemma packetize_not_acked:
  assumes "packetize_loop s now raw ppi u ha hi i remaining chunks = Some cs" and "\<forall>c \<in> set chunks. \<not> pd_acked c"
  shows "\<forall>c \<in> set cs. \<not> pd_acked c"
proof -
  have "(\<forall>c \<in> set chunks. \<not> pd_acked c) \<longrightarrow> (\<forall>c \<in> set cs. \<not> pd_acked c)"
  proof (rule packetize_loop.raw_induct [OF _ assms(1), where
      P = "\<lambda>s now raw ppi u ha hi i remaining chunks cs. (\<forall>c \<in> set chunks. \<not> pd_acked c) \<longrightarrow> (\<forall>c \<in> set cs. \<not> pd_acked c)"],
      rule impI, goal_cases)
    case (1 loop s now raw ppi u ha hi i remaining chunks cs)
    show ?case
    proof (cases "remaining = 0")
      case True
      then show ?thesis using 1(2,3) by simp
    next
      case False
      then show ?thesis using 1(2,3) unfolding Let_def if_not_P [OF False] by (auto dest!: 1(1) simp: payload_data_default_def)
    qed
  qed
  then show ?thesis using assms(2) by blast
qed

lemma write_makes_message:
  assumes "write_sctp s a now p ppi = Some (Ok m, s', b)" and "ordered_writer si s" and "p \<noteq> []"
  obtains cs where "message_of si (st_sequence_number s) p ppi cs"
    and "sh_pending_queue b = pending_push_all (sh_pending_queue a) cs"
    and "st_sequence_number s' = st_sequence_number s + 1" and "ordered_writer si s'"
proof -
  have mps: "0 < unat (st_max_payload_size s)" "unat (st_max_payload_size s) \<le> 65000"
    using assms(2) by (simp_all add: ordered_writer_def word_less_nat_alt word_le_nat_alt)
  show thesis
  proof (rule packetize_Some [OF mps(1), of a now p ppi])
    fix cs
    assume pk: "packetize s a now p ppi = Some (cs, s\<lparr>st_sequence_number :=
        (if ppi \<noteq> PPI_Dcep \<and> st_unordered s then st_sequence_number s else st_sequence_number s + 1),
        st_buffered_amount := st_buffered_amount s + of_nat (length p)\<rparr>, snd (snd (new_cells a)))"
      and cs: "message_data cs = p" "(cs = []) = (p = [])" "bits_ok True cs"
        "list_all (fragment_fields s ppi (ppi \<noteq> PPI_Dcep \<and> st_unordered s) (sh_next_cell a) (sh_next_cell a + 1)) cs"
    have "\<forall>c \<in> set cs. \<not> pd_acked c"
      using pk packetize_not_acked by (fastforce simp: packetize_def Let_def case_prod_beta split: option.splits)
    then have "message_of si (st_sequence_number s) p ppi cs"
      using cs assms(2,3) mps(2) by (auto simp: message_of_def ordered_writer_def list_all_iff fragment_fields_def)
    moreover have "sh_pending_queue b = pending_push_all (sh_pending_queue a) cs"
      using assms(1) pk by (auto simp: write_sctp_def send_payload_data_def new_cells_def Let_def awake_write_loop_def split: if_splits)
    moreover have "st_sequence_number s' = st_sequence_number s + 1" "ordered_writer si s'"
      using assms(1,2) pk by (auto simp: write_sctp_def send_payload_data_def ordered_writer_def split: if_splits)
    ultimately show thesis by (rule that)
  qed
qed

lemma sender_ok_write:
  assumes "sender_ok t W n a" and "write_sctp s a now p ppi = Some (r, s', b)" and "message_of si ssn p ppi cs"
    and "sh_pending_queue b = pending_push_all (sh_pending_queue a) cs"
    and "take (length cs) (drop n W) = cs"
  shows "sender_ok t W (n + length cs) b"
proof -
  have "as_inflight_queue b = as_inflight_queue a \<and> as_my_next_tsn b = as_my_next_tsn a"
  proof (cases rule: call_effectE [OF write_effect [OF assms(2)]])
    case 1
    then show ?thesis by (simp add: aside_defs)
  next
    case (2 a' ds)
    then show ?thesis by (simp add: aside_defs awake_write_loop_def)
  qed
  moreover have "pg_ordered_queue (sh_pending_queue b) = pg_ordered_queue (sh_pending_queue a) @ cs"
      "pg_unordered_queue (sh_pending_queue b) = pg_unordered_queue (sh_pending_queue a)"
    using assms(3) by (auto simp: assms(4) pending_push_all_fields message_of_def filter_id_conv filter_empty_conv)
  moreover have "length cs \<le> length W - n" using assms(5) by (metis length_drop length_take min.cobounded1)
  moreover have "drop h (take (n + length cs) W) = drop h (take n W) @ cs" if "h \<le> n" for h
    using that assms(1,5) by (simp add: take_add sender_ok_def)
  moreover obtain h where "h \<le> n" "as_my_next_tsn a = t + of_nat h" "pg_ordered_queue (sh_pending_queue a) = drop h (take n W)"
    using assms(1) by (auto simp: sender_ok_def)
  ultimately show ?thesis using assms(1) by (auto simp: sender_ok_def intro!: exI [of _ h])
qed

end
