(* ===== verification/Exactly_Once.thy ===== *)
theory Exactly_Once
  imports Delivery
begin

text \<open>
  The receiving end against a network that loses, repeats and reorders packets: whatever the packets
  are in which the DATA chunks of some messages arrive, and however often, every stream hands its
  messages to its reader whole, once and in order, and the cumulative TSN tells the sender so.
\<close>

section \<open>One DATA chunk\<close>

lemma advance_frame:
  assumes "as_reconfig_requests a = []"
  shows "fst (advance_peer_last_tsn a) = [] \<and>
    as_streams (snd (advance_peer_last_tsn a)) = as_streams a \<and>
    as_reconfig_requests (snd (advance_peer_last_tsn a)) = [] \<and>
    as_max_receive_buffer_size (snd (advance_peer_last_tsn a)) = as_max_receive_buffer_size a"
  using assms
proof (induction a rule: advance_peer_last_tsn.induct)
  case (1 a)
  obtain o1 q where q: "payload_queue_pop (as_payload_queue a) (as_peer_last_tsn a + 1) = (o1, q)" by fastforce
  show ?case
  proof (cases o1)
    case None
    then show ?thesis using 1(2) by (simp add: advance_peer_last_tsn.simps [of a] q)
  next
    case (Some p)
    let ?b = "a\<lparr>as_payload_queue := q, as_peer_last_tsn := as_peer_last_tsn a + 1\<rparr>"
    have "reset_all_requests (hm_values (as_reconfig_requests ?b)) ?b = ([], ?b)" using 1(2) by simp
    note r = 1(1) [OF q [symmetric] Some HOL.refl this [symmetric] HOL.refl]
    show ?thesis
      using r 1(2) by (simp add: advance_peer_last_tsn.simps [of a] q Some Let_def case_prod_beta)
  qed
qed

lemma ack_frame:
  assumes "as_reconfig_requests a = []" and "handle_peer_last_tsn_and_acknowledgement im a = (r, b)"
  shows "as_streams b = as_streams a \<and> as_reconfig_requests b = [] \<and>
    as_max_receive_buffer_size b = as_max_receive_buffer_size a \<and> (is_ok r \<longrightarrow> r = Ok [])"
  using assms(2) advance_frame [OF assms(1)]
  by (cases "advance_peer_last_tsn a")
    (auto simp: handle_peer_last_tsn_and_acknowledgement_def Let_def split: outcome.splits if_splits)

text \<open>A chunk of an open stream is delivered, when it is taken, and nothing else happens to the streams.\<close>

lemma handle_data_streams:
  assumes "as_reconfig_requests a = []" and "hm_get (as_streams a) (pd_stream_identifier d) = Some s"
    and "handle_data d a = (r, b)"
    and "took \<longleftrightarrow> fst (accept_data d (a\<lparr>as_stats := inc_datas (as_stats a)\<rparr>)) = Some True"
  shows "as_streams b = (if took then hm_insert (pd_stream_identifier d) (stream_handle_data s d) (as_streams a) else as_streams a)"
    and "as_reconfig_requests b = []" and "as_max_receive_buffer_size b = as_max_receive_buffer_size a"
    and "is_ok r \<Longrightarrow> r = Ok []"
proof -
  let ?a = "a\<lparr>as_stats := inc_datas (as_stats a)\<rparr>"
  have get: "get_or_create_stream (pd_stream_identifier d) ?a = (True, ?a)"
    using assms(2) by (simp add: get_or_create_stream_def)
  obtain q where acc: "accept_data d ?a = (Some took, ?a\<lparr>as_payload_queue := q\<rparr>)"
  proof (cases "payload_queue_can_push (as_payload_queue ?a) d (as_peer_last_tsn ?a)")
    case False
    then show ?thesis using assms(4) by (intro that [of "as_payload_queue ?a"]) (simp add: accept_data_def)
  next
    case True
    then show ?thesis
      using assms(4) get
      by (intro that [of "if took then snd (payload_queue_push (as_payload_queue a) d (as_peer_last_tsn a)) else as_payload_queue ?a"])
        (auto simp: accept_data_def Let_def split: option.splits if_splits)
  qed
  define e where "e = (if took then update_stream (pd_stream_identifier d) (\<lambda>s. stream_handle_data s d)
      (?a\<lparr>as_payload_queue := q\<rparr>) else ?a\<lparr>as_payload_queue := q\<rparr>)"
  have h: "handle_peer_last_tsn_and_acknowledgement (pd_immediate_sack d) e = (r, b)"
    using assms(3) acc by (cases took) (simp_all add: handle_data_def e_def Let_def)
  have e: "as_reconfig_requests e = []" "as_max_receive_buffer_size e = as_max_receive_buffer_size a"
      "as_streams e = (if took then hm_insert (pd_stream_identifier d) (stream_handle_data s d) (as_streams a) else as_streams a)"
    using assms(1,2) by (simp_all add: e_def update_stream_def)
  from ack_frame [OF e(1) h] show
    "as_streams b = (if took then hm_insert (pd_stream_identifier d) (stream_handle_data s d) (as_streams a) else as_streams a)"
    "as_reconfig_requests b = []" "as_max_receive_buffer_size b = as_max_receive_buffer_size a" "is_ok r \<Longrightarrow> r = Ok []"
    by (simp_all add: e)
qed

text \<open>While there is credit, it is taken if it can be pushed.\<close>

lemma accept_with_credit:
  assumes "hm_get (as_streams a) (pd_stream_identifier d) = Some s" and "0 < get_my_receiver_window_credit a"
  shows "fst (accept_data d (a\<lparr>as_stats := inc_datas (as_stats a)\<rparr>)) =
    Some (payload_queue_can_push (as_payload_queue a) d (as_peer_last_tsn a))"
proof -
  let ?a = "a\<lparr>as_stats := inc_datas (as_stats a)\<rparr>"
  have "0 < get_my_receiver_window_credit ?a"
    using assms(2) by (auto simp: get_my_receiver_window_credit_def Let_def split: if_splits)
  moreover have "get_or_create_stream (pd_stream_identifier d) ?a = (True, ?a)"
    using assms(1) by (simp add: get_or_create_stream_def)
  ultimately show ?thesis by (simp add: accept_data_def)
qed

lemma stream_handle_data_queue:
  "st_reassembly_queue (stream_handle_data s d) = snd (reassembly_queue_push (st_reassembly_queue s) d)"
  by (auto simp: stream_handle_data_def stream_push_data_def stream_notify_one_def split: prod.split)

section \<open>What is awaited and what has arrived\<close>

text \<open>
  The messages that are on their way, by stream: each stream's are the first of the stream, with
  consecutive SSNs from 0; all TSNs are different and in the window of the first one.
\<close>

definition of_stream :: "u16 \<Rightarrow> payload_data list \<Rightarrow> payload_data list" where
  "of_stream si ds = filter (\<lambda>d. pd_stream_identifier d = si) ds"

definition all_fragments :: "u16 list \<Rightarrow> (u16 \<Rightarrow> payload_data list list) \<Rightarrow> payload_data list" where
  "all_fragments sis M = concat (map (\<lambda>si. concat (M si)) sis)"

definition awaited ::
  "u32 \<Rightarrow> (u16 \<Rightarrow> u16 \<Rightarrow> payload_protocol_identifier) \<Rightarrow> u16 list \<Rightarrow> (u16 \<Rightarrow> payload_data list list) \<Rightarrow> bool" where
  "awaited c ppi_of sis M \<longleftrightarrow> distinct sis \<and> distinct (map pd_tsn (all_fragments sis M)) \<and>
     (\<forall>si \<in> set sis. messages_from 0 c (ppi_of si) (M si) \<and> length (M si) \<le> 2 ^ 15 \<and>
       (\<forall>d \<in> set (concat (M si)). pd_stream_identifier d = si))"

text \<open>A receiver whose streams are open and have received nothing yet.\<close>

definition fresh_receiver :: "u16 list \<Rightarrow> association \<Rightarrow> bool" where
  "fresh_receiver sis a \<longleftrightarrow> receiver_inv a \<and> tsns_above a = {} \<and> as_reconfig_requests a = [] \<and>
     hm_keys (as_streams a) = sis \<and>
     (\<forall>si s. hm_get (as_streams a) si = Some s \<longrightarrow> st_reassembly_queue s = reassembly_queue_new si)"

text \<open>
  A receiver that has taken the chunks \<open>acc\<close>, each once: their TSNs are a run from \<open>c\<close> on, which is
  acknowledged, and the TSNs above it; and each stream's queue got its chunks in that order.
\<close>

definition accepted :: "u32 \<Rightarrow> payload_data list \<Rightarrow> association \<Rightarrow> bool" where
  "accepted c acc a \<longleftrightarrow> receiver_inv a \<and> distinct (map pd_tsn acc) \<and>
     (\<exists>n. as_peer_last_tsn a + 1 = c + of_nat n \<and>
       pd_tsn ` set acc = (\<lambda>i. c + of_nat i) ` {..<n} \<union> tsns_above a)"

definition taken :: "u32 \<Rightarrow> u16 list \<Rightarrow> payload_data list \<Rightarrow> association \<Rightarrow> bool" where
  "taken c sis acc a \<longleftrightarrow> accepted c acc a \<and> as_reconfig_requests a = [] \<and> hm_keys (as_streams a) = sis \<and>
     (\<forall>si s. hm_get (as_streams a) si = Some s \<longrightarrow>
       st_reassembly_queue s = reassembly_push_all (reassembly_queue_new si) (of_stream si acc))"

lemma taken_fresh: "fresh_receiver sis a \<Longrightarrow> taken (as_peer_last_tsn a + 1) sis [] a"
  by (auto simp: taken_def accepted_def fresh_receiver_def of_stream_def reassembly_push_all_def intro!: exI [of _ "0 :: nat"])

section \<open>The bytes that wait, and the credit\<close>

lemma awaitedD:
  assumes "awaited c ppi_of sis M" and "d \<in> set (all_fragments sis M)"
  shows "pd_stream_identifier d \<in> set sis" and "d \<in> set (concat (M (pd_stream_identifier d)))"
    and "chunk_fits 0 c (ppi_of (pd_stream_identifier d)) d" and "in_window c (pd_tsn d)"
proof -
  obtain si where si: "si \<in> set sis" "d \<in> set (concat (M si))" using assms(2) by (auto simp: all_fragments_def)
  have id: "pd_stream_identifier d = si" using assms(1) si by (auto simp: awaited_def)
  then show "pd_stream_identifier d \<in> set sis" "d \<in> set (concat (M (pd_stream_identifier d)))" using si by simp_all
  show "chunk_fits 0 c (ppi_of (pd_stream_identifier d)) d"
    using assms(1) si unfolding id by (intro messages_fit) (auto simp: awaited_def)
  then show "in_window c (pd_tsn d)" by (simp add: chunk_fits_def)
qed

lemma queue_after_pushes:
  assumes "awaited c ppi_of sis M" and "set acc \<subseteq> set (all_fragments sis M)" and "distinct (map pd_tsn acc)"
  shows "rq_n_bytes (reassembly_push_all (reassembly_queue_new si) (of_stream si acc)) = of_nat (data_bytes (of_stream si acc))"
proof -
  let ?q = "reassembly_queue_new si"
  have e: "rq_next_ssn ?q = 0" "rq_ordered ?q = []" "rq_n_bytes ?q = 0" "rq_si ?q = si"
    by (simp_all add: reassembly_queue_new_def)
  have "chunk_fits 0 c (ppi_of si) p \<and> pd_stream_identifier p = si" if "p \<in> set (of_stream si acc)" for p
    using that assms(2) awaitedD(3) [OF assms(1), of p] by (auto simp: of_stream_def)
  moreover have "distinct (map pd_tsn (of_stream si acc))"
    using assms(3) by (simp add: of_stream_def distinct_map_filter)
  ultimately show ?thesis
    using push_all_ordered [of ?q c "ppi_of si" "of_stream si acc"]
    by (simp add: e ordered_inv_def all_chunks_def Let_def)
qed

lemma data_bytes_sub:
  assumes "distinct (map pd_tsn acc)" and "set acc \<subseteq> set ds"
  shows "data_bytes acc \<le> data_bytes ds"
proof -
  have d: "distinct acc" using assms(1) by (simp add: distinct_map)
  have "mset acc \<subseteq># mset ds"
  proof (rule mset_subset_eqI)
    fix x
    have "count (mset acc) x = (if x \<in> set acc then 1 else 0)" using d by (simp add: distinct_count_atmost_1)
    moreover have "0 < count (mset ds) x" if "x \<in> set acc" using that assms(2) by auto
    ultimately show "count (mset acc) x \<le> count (mset ds) x" by auto
  qed
  then obtain rest where "mset ds = mset acc + rest" by (metis mset_subset_eq_exists_conv)
  moreover obtain rs where "rest = mset rs" by (metis ex_mset)
  ultimately have "mset ds = mset (acc @ rs)" by simp
  then have "data_bytes ds = data_bytes (acc @ rs)" by (metis data_bytes_def mset_map sum_mset_sum_list)
  then show ?thesis by simp
qed

lemma data_bytes_by_stream:
  assumes "distinct sis" and "\<forall>d \<in> set acc. pd_stream_identifier d \<in> set sis"
  shows "sum_list (map (\<lambda>si. data_bytes (of_stream si acc)) sis) = data_bytes acc"
  using assms(2)
proof (induction acc)
  case (Cons d acc)
  have "sum_list (map (\<lambda>si. if x = si then k else 0) sis) = (if x \<in> set sis then k else 0)" for x and k :: nat
    using assms(1) by (induction sis) auto
  then have "sum_list (map (\<lambda>si. if pd_stream_identifier d = si then length (pd_user_data d) else 0) sis) = length (pd_user_data d)"
    using Cons.prems by simp
  moreover have "data_bytes (of_stream si (d # acc)) =
      (if pd_stream_identifier d = si then length (pd_user_data d) else 0) + data_bytes (of_stream si acc)" for si
    by (simp add: of_stream_def)
  ultimately show ?case using Cons by (simp add: sum_list_addf)
qed (simp add: of_stream_def)

lemma credit_left:
  assumes "awaited c ppi_of sis M" and "set acc \<subseteq> set (all_fragments sis M)" and "taken c sis acc a"
    and "data_bytes (all_fragments sis M) < unat (as_max_receive_buffer_size a)"
  shows "0 < get_my_receiver_window_credit a"
proof -
  have t: "distinct (map pd_tsn acc)" "hm_keys (as_streams a) = sis"
      "\<forall>(si, s) \<in> set (as_streams a). st_reassembly_queue s = reassembly_push_all (reassembly_queue_new si) (of_stream si acc)"
    using assms(1,3) by (auto simp: taken_def accepted_def awaited_def)
  have b: "data_bytes acc < unat (as_max_receive_buffer_size a)"
    using data_bytes_sub [OF t(1) assms(2)] assms(4) by simp
  have bytes: "(ucast (stream_get_num_bytes_in_reassembly_queue s) :: u32) = of_nat (data_bytes (of_stream si acc))"
    if "(si, s) \<in> set (as_streams a)" for si s
  proof -
    have "data_bytes (of_stream si acc) \<le> data_bytes acc"
      by (induction acc) (auto simp: of_stream_def)
    then have "data_bytes (of_stream si acc) < 2 ^ 32"
      using b unat_less_pow [of "as_max_receive_buffer_size a"] by simp
    moreover have "stream_get_num_bytes_in_reassembly_queue s = of_nat (data_bytes (of_stream si acc))"
      using queue_after_pushes [OF assms(1,2) t(1), of si] that t(3)
      by (auto simp: stream_get_num_bytes_in_reassembly_queue_def reassembly_queue_get_num_bytes_def)
    ultimately show ?thesis by (simp add: ucast_of_nat_u32)
  qed
  have "foldl (\<lambda>n s. n + ucast (stream_get_num_bytes_in_reassembly_queue s)) k (map snd ss) =
      k + of_nat (sum_list (map (\<lambda>si. data_bytes (of_stream si acc)) (map fst ss)))"
    if "set ss \<subseteq> set (as_streams a)" for ss and k :: u32
    using that by (induction ss arbitrary: k) (auto simp: bytes algebra_simps)
  moreover have "\<forall>d \<in> set acc. pd_stream_identifier d \<in> set sis" using assms(2) awaitedD(1) [OF assms(1)] by blast
  then have "sum_list (map (\<lambda>si. data_bytes (of_stream si acc)) sis) = data_bytes acc"
    using assms(1) by (intro data_bytes_by_stream) (simp_all add: awaited_def)
  ultimately have
    "foldl (\<lambda>n s. n + ucast (stream_get_num_bytes_in_reassembly_queue s)) (0 :: u32) (hm_values (as_streams a)) = of_nat (data_bytes acc)"
    by (simp add: t(2) del: map_map)
  moreover have "(of_nat (data_bytes acc) :: u32) < as_max_receive_buffer_size a"
    using b unat_less_pow [of "as_max_receive_buffer_size a"] by (simp add: word_less_nat_alt unat_of_nat_less)
  ultimately show ?thesis
    by (simp add: get_my_receiver_window_credit_def Let_def word_gt_0 not_le)
qed

section \<open>A chunk is taken once\<close>

lemma run_split:
  "(\<lambda>i. c + of_nat i) ` {..<n + m} = (\<lambda>i. c + of_nat i) ` {..<n} \<union> (\<lambda>i. c + of_nat n + of_nat i) ` {..<m}"
  for c :: "'w::len word"
proof -
  have "{..<n + m} = {..<n} \<union> (\<lambda>i. n + i) ` {..<m}"
  proof (intro set_eqI iffI)
    fix x assume x: "x \<in> {..<n + m}"
    have "x = n + (x - n)" "x - n < m" if "\<not> x < n" using x that by auto
    then show "x \<in> {..<n} \<union> (\<lambda>i. n + i) ` {..<m}" by blast
  qed auto
  then show ?thesis by (simp add: image_Un image_image add.assoc)
qed

lemma run_bound:
  fixes c :: u32
  assumes "\<And>j. j < n \<Longrightarrow> in_window c (c + of_nat j)"
  shows "n \<le> 2 ^ 31"
proof (rule ccontr)
  assume "\<not> n \<le> 2 ^ 31"
  then have "in_window c (c + of_nat (2 ^ 31))" by (intro assms) simp
  then show False by (simp add: s32.window_unat)
qed

lemma run_left_window:
  fixes c :: u32
  assumes "\<And>j. j < n \<Longrightarrow> in_window c (c + of_nat j)" and "i < n"
  shows "\<not> in_window (c + of_nat n) (c + of_nat i)"
proof -
  have n: "n \<le> 2 ^ 31" by (rule run_bound [OF assms(1)])
  define k where "k = n - i"
  have k: "0 < k" "k \<le> 2 ^ 31" using assms(2) n by (simp_all add: k_def)
  have "(of_nat i :: u32) = of_nat n - of_nat k" using assms(2) by (simp add: k_def)
  then have "c + of_nat i - (c + of_nat n) = - (of_nat k :: u32)" by simp
  moreover have "unat (- (of_nat k :: u32)) = 2 ^ 32 - k"
    using k unat_diff_if [of 0 "of_nat k :: u32"] by (simp add: unat_of_nat_less)
  ultimately show ?thesis using k by (simp add: s32.window_unat)
qed

lemma new_in_window:
  fixes c t :: u32
  assumes "in_window c t" and "t \<notin> (\<lambda>i. c + of_nat i) ` {..<n}"
  shows "in_window (c + of_nat n) t"
proof -
  define j where "j = unat (t - c)"
  have t: "t = c + of_nat j" by (simp add: j_def)
  have j: "j < 2 ^ 31" using assms(1) by (simp add: j_def s32.window_unat)
  have n: "n \<le> j" using assms(2) t by (metis image_eqI lessThan_iff not_le)
  then have "t - (c + of_nat n) = of_nat (j - n)" by (simp add: t)
  then show ?thesis using j by (simp add: s32.window_unat unat_of_nat_less)
qed

lemma can_push_accepted:
  assumes "accepted c acc a" and w: "\<forall>e \<in> set acc. in_window c (pd_tsn e)" and "in_window c (pd_tsn d)"
  shows "payload_queue_can_push (as_payload_queue a) d (as_peer_last_tsn a) \<longleftrightarrow> pd_tsn d \<notin> pd_tsn ` set acc"
proof -
  obtain n where n: "as_peer_last_tsn a + 1 = c + of_nat n"
      "pd_tsn ` set acc = (\<lambda>i. c + of_nat i) ` {..<n} \<union> tsns_above a"
    using assms(1) by (auto simp: accepted_def)
  have can: "payload_queue_can_push (as_payload_queue a) d (as_peer_last_tsn a) \<longleftrightarrow>
      pd_tsn d \<notin> tsns_above a \<and> in_window (c + of_nat n) (pd_tsn d)"
    by (simp add: can_push_iff tsns_above_def domIff n(1))
  show ?thesis
  proof (cases "pd_tsn d \<in> pd_tsn ` set acc")
    case True
    have "in_window c (c + of_nat j)" if "j < n" for j
    proof -
      have "c + of_nat j \<in> pd_tsn ` set acc" using that unfolding n(2) by blast
      then show ?thesis using w by auto
    qed
    then have "\<not> in_window (c + of_nat n) (c + of_nat i)" if "i < n" for i using run_left_window that by blast
    then show ?thesis using True n(2) can by auto
  next
    case False
    then have "pd_tsn d \<notin> (\<lambda>i. c + of_nat i) ` {..<n}" "pd_tsn d \<notin> tsns_above a" using n(2) by auto
    then show ?thesis using new_in_window [OF assms(3)] False can by blast
  qed
qed

lemma accepted_step:
  assumes "accepted c acc a" and "\<forall>e \<in> set acc. in_window c (pd_tsn e)" and "in_window c (pd_tsn d)"
    and "handle_data d a = (r, b)" and "took \<longleftrightarrow> fst (accept_data d (a\<lparr>as_stats := inc_datas (as_stats a)\<rparr>)) = Some True"
  shows "is_ok r" and "accepted c (if took then acc @ [d] else acc) b" and "took \<Longrightarrow> pd_tsn d \<notin> pd_tsn ` set acc"
proof -
  let ?a = "a\<lparr>as_stats := inc_datas (as_stats a)\<rparr>"
  obtain n where n: "as_peer_last_tsn a + 1 = c + of_nat n"
      "pd_tsn ` set acc = (\<lambda>i. c + of_nat i) ` {..<n} \<union> tsns_above a" and inv: "receiver_inv a" "distinct (map pd_tsn acc)"
    using assms(1) by (auto simp: accepted_def)
  note refines = handle_data_refines [OF inv(1) assms(4)]
  show "is_ok r" using refines by blast
  have can: "pd_tsn d \<notin> pd_tsn ` set acc" if "took"
  proof -
    have "fst (accept_data d ?a) = Some True" using that assms(5) by simp
    then have "payload_queue_can_push (as_payload_queue a) d (as_peer_last_tsn a)"
      by (auto simp: accept_data_def split: if_splits)
    then show ?thesis using can_push_accepted [OF assms(1-3)] by blast
  qed
  then show "took \<Longrightarrow> pd_tsn d \<notin> pd_tsn ` set acc" .
  show "accepted c (if took then acc @ [d] else acc) b"
  proof (cases took)
    case False
    then have "receiver_abs b = receiver_abs a" "receiver_inv b" using refines assms(5) by simp_all
    then show ?thesis using False assms(1) by (simp add: accepted_def receiver_abs_def)
  next
    case True
    then have r: "receiver_inv b" "advanced (as_peer_last_tsn a, insert (pd_tsn d) (tsns_above a)) (receiver_abs b)"
      using refines assms(5) by simp_all
    then obtain m where m: "as_peer_last_tsn b = as_peer_last_tsn a + of_nat m"
        "\<forall>i < m. c + of_nat n + of_nat i \<in> insert (pd_tsn d) (tsns_above a)"
        "tsns_above b = insert (pd_tsn d) (tsns_above a) - (\<lambda>i. c + of_nat n + of_nat i) ` {..<m}"
      by (auto simp: advanced_def receiver_abs_def n(1))
    have "as_peer_last_tsn b + 1 = c + of_nat (n + m)"
      using n(1) by (simp add: m(1) algebra_simps)
    moreover have "pd_tsn ` set (acc @ [d]) = (\<lambda>i. c + of_nat i) ` {..<n + m} \<union> tsns_above b"
      using m(2) n(2) unfolding run_split m(3) by auto
    moreover have "distinct (map pd_tsn (acc @ [d]))" using inv(2) can [OF True] by simp
    ultimately have "accepted c (acc @ [d]) b" unfolding accepted_def using r(1) by (intro conjI exI [of _ "n + m"])
    then show ?thesis using True by simp
  qed
qed

lemma taken_step:
  assumes "awaited c ppi_of sis M" and "set acc \<subseteq> set (all_fragments sis M)" and "taken c sis acc a"
    and "d \<in> set (all_fragments sis M)" and "data_bytes (all_fragments sis M) < unat (as_max_receive_buffer_size a)"
    and "handle_data d a = (r, b)"
  shows "r = Ok []" and "taken c sis (if d \<in> set acc then acc else acc @ [d]) b"
    and "as_max_receive_buffer_size b = as_max_receive_buffer_size a"
proof -
  let ?si = "pd_stream_identifier d"
  have t: "accepted c acc a" "as_reconfig_requests a = []" "hm_keys (as_streams a) = sis"
      "\<And>si s. hm_get (as_streams a) si = Some s \<Longrightarrow>
        st_reassembly_queue s = reassembly_push_all (reassembly_queue_new si) (of_stream si acc)"
    using assms(3) by (simp_all add: taken_def)
  obtain s where s: "hm_get (as_streams a) ?si = Some s"
    using awaitedD(1) [OF assms(1,4)] t(3) by (metis map_of_eq_None_iff list.set_map not_None_eq)
  have w: "\<forall>e \<in> set acc. in_window c (pd_tsn e)" "in_window c (pd_tsn d)"
    using assms(2,4) awaitedD(4) [OF assms(1)] by blast+
  have "inj_on pd_tsn (set (all_fragments sis M))" using assms(1) by (simp add: awaited_def distinct_map)
  then have mem: "pd_tsn d \<notin> pd_tsn ` set acc \<longleftrightarrow> d \<notin> set acc"
    using assms(2,4) by (auto simp: inj_on_def subset_iff)
  then have can: "d \<notin> set acc \<longleftrightarrow> payload_queue_can_push (as_payload_queue a) d (as_peer_last_tsn a)"
    using can_push_accepted [OF t(1) w] by blast
  have took: "d \<notin> set acc \<longleftrightarrow> fst (accept_data d (a\<lparr>as_stats := inc_datas (as_stats a)\<rparr>)) = Some True"
    using can accept_with_credit [OF s credit_left [OF assms(1-3,5)]] by simp
  note step = handle_data_streams [OF t(2) s assms(6) took]
  note acc = accepted_step [OF t(1) w assms(6) took]
  show "r = Ok []" using acc(1) step(4) by blast
  show "as_max_receive_buffer_size b = as_max_receive_buffer_size a" by (rule step(3))
  show "taken c sis (if d \<in> set acc then acc else acc @ [d]) b"
  proof (cases "d \<in> set acc")
    case True
    then show ?thesis using acc(2) assms(3) step(1,2) by (simp add: taken_def)
  next
    case False
    then have "as_streams b = hm_insert ?si (stream_handle_data s d) (as_streams a)" using step(1) by simp
    then have "hm_keys (as_streams b) = sis"
      "\<And>si u. hm_get (as_streams b) si = Some u \<Longrightarrow>
        st_reassembly_queue u = reassembly_push_all (reassembly_queue_new si) (of_stream si (acc @ [d]))"
      using s t(3,4)
      by (auto simp: keys_insert_old update_conv' stream_handle_data_queue of_stream_def reassembly_push_all_def
          split: if_splits)
    moreover have "accepted c (acc @ [d]) b" using acc(2) False by simp
    ultimately show ?thesis using step(2) False by (simp add: taken_def)
  qed
qed

section \<open>Packets\<close>

text \<open>A packet of awaited DATA chunks, with repetitions and in any order.\<close>

definition carries_data :: "payload_data list \<Rightarrow> packet \<Rightarrow> bool" where
  "carries_data fs p \<longleftrightarrow> (\<exists>ds. pk_chunks p = map ChunkPayloadData ds \<and> set ds \<subseteq> set fs)"

definition arrived :: "packet list \<Rightarrow> payload_data set" where
  "arrived ps = {d. \<exists>p \<in> set ps. ChunkPayloadData d \<in> set (pk_chunks p)}"

lemma taken_frame:
  "taken c sis acc (handle_chunk_start a) = taken c sis acc a"
  "taken c sis acc (handle_chunk_end a) = taken c sis acc a"
  "as_max_receive_buffer_size (handle_chunk_start a) = as_max_receive_buffer_size a"
  "as_max_receive_buffer_size (handle_chunk_end a) = as_max_receive_buffer_size a"
  by (simp_all add: taken_def accepted_def receiver_inv_def tsns_above_def handle_chunk_start_def handle_chunk_end_def awake_write_loop_def)

lemma handle_chunk_data:
  "handle_data d a = (Ok [], b) \<Longrightarrow> handle_chunk rnd now random32 p (ChunkPayloadData d) a = (Ok (), b)"
  by (simp add: handle_chunk_def handle_checked_chunk_def)

lemma taken_chunks:
  assumes "awaited c ppi_of sis M" and "set acc \<subseteq> set (all_fragments sis M)" and "taken c sis acc a"
    and "data_bytes (all_fragments sis M) < unat (as_max_receive_buffer_size a)" and "set ds \<subseteq> set (all_fragments sis M)"
  shows "\<exists>b acc'. handle_chunks rnd now random32 p (map ChunkPayloadData ds) a = (Ok (), b) \<and> taken c sis acc' b \<and>
    set acc' = set acc \<union> set ds \<and> as_max_receive_buffer_size b = as_max_receive_buffer_size a"
  using assms(2-5)
proof (induction ds arbitrary: a acc)
  case (Cons d ds)
  obtain r b where b: "handle_data d a = (r, b)" by fastforce
  have d: "d \<in> set (all_fragments sis M)" using Cons.prems(4) by simp
  note step = taken_step [OF assms(1) Cons.prems(1,2) d Cons.prems(3) b]
  let ?acc = "if d \<in> set acc then acc else acc @ [d]"
  have "set ?acc \<subseteq> set (all_fragments sis M)" "data_bytes (all_fragments sis M) < unat (as_max_receive_buffer_size b)"
      "set ds \<subseteq> set (all_fragments sis M)"
    using Cons.prems d step(3) by auto
  from Cons.IH [OF this(1) step(2) this(2,3)] obtain b' acc' where
    "handle_chunks rnd now random32 p (map ChunkPayloadData ds) b = (Ok (), b')" "taken c sis acc' b'"
    "set acc' = set ?acc \<union> set ds" "as_max_receive_buffer_size b' = as_max_receive_buffer_size b"
    by blast
  then show ?case
    using handle_chunk_data [of d a b rnd now random32 p] b step(1,3) by (intro exI [of _ b'] exI [of _ acc']) auto
qed auto

lemma taken_packets:
  assumes "awaited c ppi_of sis M" and "set acc \<subseteq> set (all_fragments sis M)" and "taken c sis acc a"
    and "data_bytes (all_fragments sis M) < unat (as_max_receive_buffer_size a)"
    and "\<forall>p \<in> set ps. carries_data (all_fragments sis M) p"
  shows "\<exists>acc'. taken c sis acc' (foldl (\<lambda>a p. receive rnd now random32 p a) a ps) \<and> set acc' = set acc \<union> arrived ps"
  using assms(2-5)
proof (induction ps arbitrary: a acc)
  case (Cons p ps)
  obtain ds where ds: "pk_chunks p = map ChunkPayloadData ds" "set ds \<subseteq> set (all_fragments sis M)"
    using Cons.prems(4) by (auto simp: carries_data_def)
  let ?a = "handle_chunk_start a"
  have "taken c sis acc ?a" "data_bytes (all_fragments sis M) < unat (as_max_receive_buffer_size ?a)"
    using Cons.prems(2,3) by (simp_all add: taken_frame)
  from taken_chunks [OF assms(1) Cons.prems(1) this ds(2), of rnd now random32 p] obtain b acc' where
    b: "handle_chunks rnd now random32 p (map ChunkPayloadData ds) ?a = (Ok (), b)" "taken c sis acc' b"
      "set acc' = set acc \<union> set ds" "as_max_receive_buffer_size b = as_max_receive_buffer_size a"
    by (auto simp: taken_frame)
  have r: "receive rnd now random32 p a = handle_chunk_end b" by (simp add: receive_def ds(1) b(1))
  have "set acc' \<subseteq> set (all_fragments sis M)" using Cons.prems(1) ds(2) b(3) by simp
  from Cons.IH [OF this, of "handle_chunk_end b"] obtain acc'' where
    "taken c sis acc'' (foldl (\<lambda>a p. receive rnd now random32 p a) (handle_chunk_end b) ps)"
    "set acc'' = set acc' \<union> arrived ps"
    using Cons.prems(3,4) b(2,4) by (auto simp: taken_frame)
  moreover have "arrived (p # ps) = set ds \<union> arrived ps" by (auto simp: arrived_def ds(1))
  ultimately show ?case using b(3) by (intro exI [of _ acc'']) (simp add: r Un_assoc)
qed (auto simp: arrived_def)

text \<open>What is left to acknowledge when the TSNs that were taken have no gap: nothing.\<close>

lemma run_member:
  "n \<le> 2 ^ 31 \<Longrightarrow> j < 2 ^ 32 \<Longrightarrow> c + of_nat j \<in> (\<lambda>i. c + of_nat i) ` {..<n} \<longleftrightarrow> j < n" for c :: u32
proof
  assume n: "n \<le> 2 ^ 31" "j < 2 ^ 32" and "c + of_nat j \<in> (\<lambda>i. c + of_nat i) ` {..<n}"
  then obtain i where i: "i < n" "(of_nat j :: u32) = of_nat i" by auto
  have "unat (of_nat j :: u32) = j" "unat (of_nat i :: u32) = i" using n i(1) by (simp_all add: unat_of_nat_less)
  then show "j < n" using i(1) by (metis i(2))
qed blast

lemma taken_all:
  assumes "taken c sis acc b" and "\<And>e. e \<in> set acc \<Longrightarrow> in_window c (pd_tsn e)"
    and "pd_tsn ` set acc = (\<lambda>i. c + of_nat i) ` {..<k}"
  shows "as_peer_last_tsn b + 1 = c + of_nat k" and "tsns_above b = {}"
proof -
  obtain n where n: "as_peer_last_tsn b + 1 = c + of_nat n"
      "pd_tsn ` set acc = (\<lambda>i. c + of_nat i) ` {..<n} \<union> tsns_above b" and inv: "receiver_inv b"
    using assms(1) by (auto simp: taken_def accepted_def)
  have win: "in_window c t" if "t \<in> pd_tsn ` set acc" for t using that assms(2) by auto
  have wn: "in_window c (c + of_nat j)" if "j < n" for j using that n(2) by (intro win) blast
  have "in_window c (c + of_nat j)" if "j < k" for j using that assms(3) by (intro win) blast
  then have b: "n \<le> 2 ^ 31" "k \<le> 2 ^ 31" using run_bound wn by blast+
  have "c + of_nat n \<notin> tsns_above b" using inv n(1) by (simp add: receiver_inv_def)
  then have "\<not> n < k" using run_member [of n n c] run_member [of k n c] b n(2) assms(3) by auto
  moreover have "\<not> k < n" using run_member [of n k c] run_member [of k k c] b n(2) assms(3) by auto
  ultimately have nk: "n = k" by simp
  then show "as_peer_last_tsn b + 1 = c + of_nat k" using n(1) by simp
  have "t \<notin> tsns_above b" for t
  proof
    assume t: "t \<in> tsns_above b"
    then have "in_window (c + of_nat n) t"
      using inv pq_inv_keys [of "c + of_nat n" "as_payload_queue b"] n(1)
      by (auto simp: receiver_inv_def tsns_above_def)
    moreover obtain i where "i < n" "t = c + of_nat i" using t n(2) assms(3) nk by blast
    ultimately show False using run_left_window wn by blast
  qed
  then show "tsns_above b = {}" by blast
qed

lemma deliver_once:
  assumes "fresh_receiver sis a" and "awaited (as_peer_last_tsn a + 1) ppi_of sis M"
    and "pd_tsn ` set (all_fragments sis M) = (\<lambda>i. as_peer_last_tsn a + 1 + of_nat i) ` {..<k}"
    and "data_bytes (all_fragments sis M) < unat (as_max_receive_buffer_size a)"
    and "\<forall>p \<in> set ps. carries_data (all_fragments sis M) p" and "set (all_fragments sis M) \<subseteq> arrived ps"
    and "\<forall>si \<in> set sis. \<forall>m \<in> set (M si). data_bytes m \<le> buf_len"
    and "b = foldl (\<lambda>a p. receive rnd now random32 p a) a ps"
  shows "as_peer_last_tsn b = as_peer_last_tsn a + of_nat k \<and> tsns_above b = {} \<and>
    (\<forall>si \<in> set sis. \<exists>s q. hm_get (as_streams b) si = Some s \<and>
      reassembly_reads (length (M si)) buf_len (st_reassembly_queue s) =
        (map (\<lambda>m. Ok (message_data m, pd_payload_type (hd m))) (M si), q) \<and>
      rq_ordered q = [] \<and> rq_n_bytes q = 0)"
proof -
  let ?c = "as_peer_last_tsn a + 1" and ?fs = "all_fragments sis M"
  obtain acc where acc: "taken ?c sis acc b" "set acc = arrived ps"
    using taken_packets [OF assms(2) _ taken_fresh [OF assms(1)] assms(4,5), of rnd now random32] by (auto simp: assms(8))
  have fs: "set acc = set ?fs" using acc(2) assms(5,6) by (auto simp: arrived_def carries_data_def) fastforce
  have t: "distinct (map pd_tsn acc)" "hm_keys (as_streams b) = sis"
      "\<And>si s. hm_get (as_streams b) si = Some s \<Longrightarrow>
        st_reassembly_queue s = reassembly_push_all (reassembly_queue_new si) (of_stream si acc)"
    using acc(1) by (simp_all add: taken_def accepted_def)
  have "in_window ?c (pd_tsn e)" if "e \<in> set acc" for e using that awaitedD(4) [OF assms(2)] by (simp add: fs)
  note all = taken_all [OF acc(1) this assms(3) [folded fs]]
  have "\<exists>s q. hm_get (as_streams b) si = Some s \<and>
      reassembly_reads (length (M si)) buf_len (st_reassembly_queue s) =
        (map (\<lambda>m. Ok (message_data m, pd_payload_type (hd m))) (M si), q) \<and>
      rq_ordered q = [] \<and> rq_n_bytes q = 0" if si: "si \<in> set sis" for si
  proof -
    obtain s where s: "hm_get (as_streams b) si = Some s"
      using si t(2) by (metis map_of_eq_None_iff list.set_map not_None_eq)
    have M: "messages_from 0 ?c (ppi_of si) (M si)" "length (M si) \<le> 2 ^ 15"
        "\<And>d. d \<in> set (concat (M si)) \<Longrightarrow> pd_stream_identifier d = si"
      using assms(2) si by (auto simp: awaited_def)
    obtain xs ys where "sis = xs @ si # ys" using si by (auto dest: split_list)
    moreover have "distinct ?fs" using assms(2) by (simp add: awaited_def distinct_map)
    ultimately have "distinct (concat (M si))" by (simp add: all_fragments_def)
    moreover have "set (of_stream si acc) = set (concat (M si))"
    proof (intro set_eqI iffI)
      fix x assume "x \<in> set (of_stream si acc)"
      then have "x \<in> set ?fs" "pd_stream_identifier x = si" by (simp_all add: of_stream_def fs)
      then show "x \<in> set (concat (M si))" using awaitedD(2) [OF assms(2)] by blast
    next
      fix x assume x: "x \<in> set (concat (M si))"
      then have "x \<in> set ?fs" using si by (auto simp: all_fragments_def)
      then show "x \<in> set (of_stream si acc)" using M(3) [OF x] by (simp add: of_stream_def fs)
    qed
    moreover have "distinct (of_stream si acc)" using t(1) by (simp add: of_stream_def distinct_map)
    ultimately have m: "mset (of_stream si acc) = mset (concat (M si))"
      using set_eq_iff_mset_eq_distinct by blast
    have d: "distinct (map pd_tsn (of_stream si acc))" using t(1) by (simp add: of_stream_def distinct_map_filter)
    have "data_bytes (of_stream si acc) \<le> data_bytes ?fs"
      by (rule data_bytes_sub [OF d]) (auto simp: of_stream_def fs)
    then have "data_bytes (of_stream si acc) < 2 ^ 64"
      using assms(4) unat_less_pow [of "as_max_receive_buffer_size a"] by simp
    moreover have "list_all (\<lambda>p. pd_stream_identifier p = si) (of_stream si acc)" by (simp add: of_stream_def list_all_iff)
    moreover have "list_all (\<lambda>m. data_bytes m \<le> buf_len) (M si)" using assms(7) si by (simp add: list_all_iff)
    ultimately show ?thesis using deliver_messages [OF M(1) m M(2) d] s t(3) [OF s] by auto
  qed
  moreover have "as_peer_last_tsn b = as_peer_last_tsn a + of_nat k" using all(1) by (simp add: algebra_simps)
  ultimately show ?thesis using all(2) by blast
qed

text \<open>C6: the first messages of several streams arrive exactly once and in order, however their packets
  do.  The streams are open at the receiver and have received nothing; of each, the messages sent are
  the first at most 2^15, with consecutive sequence numbers from 0; their chunks have consecutive TSNs
  from the next one the receiver expects; and all their bytes together are less than its receive buffer,
  so that its window stays open although nothing is read in between.  Their DATA chunks arrive in some
  packets: bundled in any way, in any order, each at least once and any number of times.  When, after
  that, each stream's reader reads, with a buffer that holds the longest message, it gets that
  stream's messages, whole, each once and in order, and the stream's queue is empty afterwards; and
  everything is acknowledged: the cumulative TSN is the last one.\<close>

theorem exactly_once_in_order:
  assumes "fresh_receiver sis a" and "awaited (as_peer_last_tsn a + 1) ppi_of sis M"
    and "pd_tsn ` set (all_fragments sis M) = (\<lambda>i. as_peer_last_tsn a + 1 + of_nat i) ` {..<k}"
    and "data_bytes (all_fragments sis M) < unat (as_max_receive_buffer_size a)"
    and "\<forall>p \<in> set ps. carries_data (all_fragments sis M) p" and "set (all_fragments sis M) \<subseteq> arrived ps"
    and "\<forall>si \<in> set sis. \<forall>m \<in> set (M si). data_bytes m \<le> buf_len"
    and "b = foldl (\<lambda>a p. receive rnd now random32 p a) a ps"
  shows "as_peer_last_tsn b = as_peer_last_tsn a + of_nat k \<and> tsns_above b = {} \<and>
    (\<forall>si \<in> set sis. \<exists>s q. hm_get (as_streams b) si = Some s \<and>
      reassembly_reads (length (M si)) buf_len (st_reassembly_queue s) =
        (map (\<lambda>m. Ok (message_data m, pd_payload_type (hd m))) (M si), q) \<and>
      rq_ordered q = [] \<and> rq_n_bytes q = 0)"
  using assms by (rule deliver_once)

text \<open>Three chunks of two messages, the last one first, two of them twice, in two packets.\<close>

definition example_packets :: "packet list" where
  "example_packets = map (\<lambda>ds. packet_5000 0 ChunkCookieAck\<lparr>pk_chunks := map ChunkPayloadData ds\<rparr>)
     [[example_ordered True True 13 1 30, example_ordered False True 12 0 20],
      [example_ordered True True 13 1 30, example_ordered True False 11 0 10, example_ordered False True 12 0 20]]"

definition example_open :: association where
  "example_open = example_receiver\<lparr>as_streams := [(7, stream_new 7 1200)]\<rparr>"

lemma example_open_fresh: "fresh_receiver [7] example_open"
  using example_receiver_inv(1,2)
  by (simp add: fresh_receiver_def example_open_def receiver_inv_def tsns_above_def stream_new_def)
    (simp add: example_receiver_def association_internal_new_def Let_def)

theorem exactly_once_in_order_witness:
  "\<exists>s q. hm_get (as_streams (foldl (\<lambda>a p. receive (\<lambda>x. x) 0 [] p a) example_open example_packets)) 7 = Some s \<and>
    reassembly_reads 2 10 (st_reassembly_queue s) = ([Ok ([10, 20], PPI_Unknown), Ok ([30], PPI_Unknown)], q)"
proof -
  let ?x = "example_ordered True False 11 0 10"
  let ?y = "example_ordered False True 12 0 20"
  let ?z = "example_ordered True True 13 1 30"
  define M where "M = (\<lambda>si :: u16. [[?x, ?y], [?z]])"
  have l: "as_peer_last_tsn example_open = 10" by (simp add: example_open_def example_receiver_inv)
  have fs: "all_fragments [7] M = [?x, ?y, ?z]" by (simp add: all_fragments_def M_def)
  have "fragments_of 11 [?x, ?y]" "fragments_of 13 [?z]" by (simp_all add: fragments_of_def upt_rec)
  then have aw: "awaited (as_peer_last_tsn example_open + 1) (\<lambda>_ _. PPI_Unknown) [7] M"
    by (simp add: awaited_def fs l) (simp add: M_def s32.window_unat)
  have run: "pd_tsn ` set (all_fragments [7] M) = (\<lambda>i. as_peer_last_tsn example_open + 1 + of_nat i) ` {..<3}"
    by (simp add: fs l lessThan_Suc numeral_3_eq_3 insert_commute)
  have bytes: "data_bytes (all_fragments [7] M) < unat (as_max_receive_buffer_size example_open)"
    by (simp add: fs) (simp add: example_open_def example_receiver_def association_internal_new_def Let_def INITIAL_RECV_BUF_SIZE_def)
  have c: "\<forall>p \<in> set example_packets. carries_data (all_fragments [7] M) p"
  proof
    fix p assume "p \<in> set example_packets"
    then obtain ds where p: "p = packet_5000 0 ChunkCookieAck\<lparr>pk_chunks := map ChunkPayloadData ds\<rparr>"
        "ds \<in> set [[?z, ?y], [?z, ?x, ?y]]"
      unfolding example_packets_def set_map by blast
    then have "set ds \<subseteq> {?x, ?y, ?z}" by auto
    then show "carries_data (all_fragments [7] M) p" by (auto simp: p(1) carries_data_def fs)
  qed
  have arr: "set (all_fragments [7] M) \<subseteq> arrived example_packets" by (auto simp: fs arrived_def example_packets_def)
  have fit: "\<forall>si \<in> set [7]. \<forall>m \<in> set (M si). data_bytes m \<le> 10" by (simp add: M_def)
  have n: "length (M 7) = 2" "map (\<lambda>m. Ok (message_data m, pd_payload_type (hd m))) (M 7) =
      [Ok ([10, 20], PPI_Unknown), Ok ([30], PPI_Unknown)]" by (simp_all add: M_def)
  show ?thesis
    using exactly_once_in_order [OF example_open_fresh aw run bytes c arr fit HOL.refl, of "\<lambda>x. x" 0 "[]"] n by auto
qed

section \<open>From the writes to the reads\<close>

text \<open>C3: the first messages that are written to an ordered stream are the messages that its peer reads.
  The stream is new, nothing is pending, and at most 2^15 messages, none empty, none longer than the
  maximum message size or the reader's buffer, are written one after the other; the receiver's stream
  is open and has received nothing, nothing else is missing there, and all messages together are
  shorter than its receive buffer, so that its window stays open although nothing is read in between.
  Then the writes succeed and put fragments on the pending queue; the association numbers them
  consecutively; and when their DATA chunks arrive in some packets, bundled in any way, in any order,
  each at least once and any number of times, then afterwards the reads return the written messages
  with their payload types, each once and in order, and everything is acknowledged.\<close>

theorem written_messages_arrive:
  assumes "writable (stream_new si max_payload) sh" and "pg_ordered_queue (sh_pending_queue sh) = []"
    and "list_all (\<lambda>(p, ppi). p \<noteq> [] \<and> length p \<le> unat (sh_max_message_size sh) \<and> length p \<le> buf_len) ms"
    and "length ms \<le> 2 ^ 15" and "length (concat (map fst ms)) \<le> 2 ^ 31"
    and "fresh_receiver [si] a" and "length (concat (map fst ms)) < unat (as_max_receive_buffer_size a)"
  shows "\<exists>s' sh'. stream_write_all (stream_new si max_payload) sh now ms =
      Some (map (\<lambda>(p, ppi). Ok (length p)) ms, s', sh') \<and>
    (\<forall>cs ps b. cs = map (payload_data_view now')
          (assign_tsns (as_peer_last_tsn a + 1) (pg_ordered_queue (sh_pending_queue sh'))) \<longrightarrow>
      (\<forall>p \<in> set ps. carries_data cs p) \<longrightarrow> set cs \<subseteq> arrived ps \<longrightarrow>
      b = foldl (\<lambda>a p. receive rnd now' random32 p a) a ps \<longrightarrow>
      (\<exists>s. hm_get (as_streams b) si = Some s \<and>
        fst (reassembly_reads (length ms) buf_len (st_reassembly_queue s)) = map Ok ms) \<and>
      as_peer_last_tsn b = as_peer_last_tsn a + of_nat (length cs) \<and> tsns_above b = {})"
proof -
  let ?t = "as_peer_last_tsn a + 1"
  obtain css s' sh' ppi_of where
    w: "stream_write_all (stream_new si max_payload) sh now ms = Some (map (\<lambda>(p, ppi). Ok (length p)) ms, s', sh')"
      "pg_ordered_queue (sh_pending_queue sh') = concat css" "length css = length ms" "length (concat css) \<le> 2 ^ 31"
      "\<And>c. c \<in> set (concat css) \<Longrightarrow> pd_stream_identifier c = si"
      "data_bytes (concat css) = length (concat (map fst ms))" "messages_from 0 ?t ppi_of (received now' ?t css)"
      "map (\<lambda>m. Ok (message_data m, pd_payload_type (hd m))) (received now' ?t css) = map Ok ms"
      "\<And>m. m \<in> set (received now' ?t css) \<Longrightarrow> data_bytes m \<le> buf_len"
    by (rule stream_write_all_messages [OF assms(1-5), of now ?t now']) (rule that; assumption)
  define cs where "cs = map (payload_data_view now') (assign_tsns ?t (concat css))"
  define M where "M = (\<lambda>_ :: u16. received now' ?t css)"
  have fs: "all_fragments [si] M = cs" by (simp add: all_fragments_def M_def concat_received cs_def)
  have tsns: "map pd_tsn cs = map (\<lambda>i. ?t + of_nat i) [0..<length cs]"
    by (intro nth_equalityI) (simp_all add: cs_def assign_tsns_nth)
  have "distinct (map pd_tsn cs)" using distinct_assign_tsns [OF w(4), of ?t] by (simp add: cs_def comp_def)
  moreover have "pd_stream_identifier d = si" if "d \<in> set cs" for d
    using that received_identifier [of d now' ?t "concat css"] w(5) unfolding cs_def by fastforce
  ultimately have aw: "awaited ?t (\<lambda>_. ppi_of) [si] M"
    using w(3,7) assms(4) fs by (auto simp: awaited_def M_def all_fragments_def)
  have run: "pd_tsn ` set (all_fragments [si] M) = (\<lambda>i. ?t + of_nat i) ` {..<length cs}"
    using arg_cong [OF tsns, of set] by (simp add: fs lessThan_atLeast0)
  have "data_bytes cs = length (concat (map fst ms))"
    by (simp add: w(6) [symmetric] cs_def length_message_data [symmetric])
  then have bytes: "data_bytes (all_fragments [si] M) < unat (as_max_receive_buffer_size a)" using assms(7) by (simp add: fs)
  have fit: "\<forall>i \<in> set [si]. \<forall>m \<in> set (M i). data_bytes m \<le> buf_len" using w(9) by (simp add: M_def)
  have deliv: "(\<exists>s. hm_get (as_streams b) si = Some s \<and>
        fst (reassembly_reads (length ms) buf_len (st_reassembly_queue s)) = map Ok ms) \<and>
      as_peer_last_tsn b = as_peer_last_tsn a + of_nat (length cs) \<and> tsns_above b = {}"
    if "\<forall>p \<in> set ps. carries_data cs p" "set cs \<subseteq> arrived ps" "b = foldl (\<lambda>a p. receive rnd now' random32 p a) a ps" for ps b
    using deliver_once [OF assms(6) aw run bytes that(1,2) [folded fs] fit that(3)] by (auto simp: M_def w(3,8))
  show ?thesis
    by (rule exI [of _ s'], rule exI [of _ sh'], rule conjI, rule w(1), unfold w(2) cs_def [symmetric],
      intro allI impI, hypsubst, rule deliv) (assumption | rule HOL.refl)+
qed

text \<open>Two messages on stream 7, written by one association and received by another.\<close>

theorem written_messages_arrive_witness:
  "\<exists>s' sh'. stream_write_all (stream_new 7 2) example_shared 0 [([1, 2, 3], PPI_Binary), ([4], PPI_String)] =
      Some ([Ok 3, Ok 1], s', sh') \<and>
    (\<forall>ps. (\<forall>p \<in> set ps. carries_data (map (payload_data_view 0)
          (assign_tsns 11 (pg_ordered_queue (sh_pending_queue sh')))) p) \<longrightarrow>
      set (map (payload_data_view 0) (assign_tsns 11 (pg_ordered_queue (sh_pending_queue sh')))) \<subseteq> arrived ps \<longrightarrow>
      (\<exists>s. hm_get (as_streams (foldl (\<lambda>a p. receive (\<lambda>x. x) 0 [] p a) example_open ps)) 7 = Some s \<and>
        fst (reassembly_reads 2 10 (st_reassembly_queue s)) = [Ok ([1, 2, 3], PPI_Binary), Ok ([4], PPI_String)]))"
proof -
  let ?ms = "[([1, 2, 3], PPI_Binary), ([4], PPI_String)] :: (bytes \<times> payload_protocol_identifier) list"
  have writable: "writable (stream_new 7 2) example_shared" "pg_ordered_queue (sh_pending_queue example_shared) = []"
    by (simp_all add: writable_def stream_new_def example_shared_def get_state_def
        association_state_of_u8_def pending_queue_new_def)
  have sizes: "list_all (\<lambda>(p, ppi). p \<noteq> [] \<and> length p \<le> unat (sh_max_message_size example_shared) \<and> length p \<le> 10) ?ms"
    by (simp add: example_shared_def)
  have short: "length ?ms \<le> 2 ^ 15" "length (concat (map fst ?ms)) \<le> 2 ^ 31"
      "length (concat (map fst ?ms)) < unat (as_max_receive_buffer_size example_open)"
    by simp_all (simp add: example_open_def example_receiver_def association_internal_new_def Let_def INITIAL_RECV_BUF_SIZE_def)
  have l: "as_peer_last_tsn example_open + 1 = 11" "length ?ms = 2" by (simp_all add: example_open_def example_receiver_inv)
  obtain s' sh' where w: "stream_write_all (stream_new 7 2) example_shared 0 ?ms =
      Some (map (\<lambda>(p, ppi). Ok (length p)) ?ms, s', sh')"
    and r: "\<forall>cs ps b. cs = map (payload_data_view 0) (assign_tsns 11 (pg_ordered_queue (sh_pending_queue sh'))) \<longrightarrow>
      (\<forall>p \<in> set ps. carries_data cs p) \<longrightarrow> set cs \<subseteq> arrived ps \<longrightarrow>
      b = foldl (\<lambda>a p. receive (\<lambda>x. x) 0 [] p a) example_open ps \<longrightarrow>
      (\<exists>s. hm_get (as_streams b) 7 = Some s \<and>
        fst (reassembly_reads 2 10 (st_reassembly_queue s)) = map Ok ?ms) \<and>
      as_peer_last_tsn b = as_peer_last_tsn example_open + of_nat (length cs) \<and> tsns_above b = {}"
    using written_messages_arrive [OF writable sizes short(1,2) example_open_fresh short(3),
        of 0 0 "\<lambda>x. x" "[]", unfolded l] by blast
  show ?thesis
  proof (rule exI [of _ s'], rule exI [of _ sh'], rule conjI, goal_cases)
    case 1
    show ?case using w by simp
  next
    case 2
    show ?case
    proof (intro allI impI, goal_cases)
      case (1 ps)
      show ?case using r [rule_format, OF HOL.refl 1(1) [rule_format] 1(2) HOL.refl] by auto
    qed
  qed
qed

end
