(* ===== verification/In_Order.thy ===== *)
theory In_Order
  imports Sent Exactly_Once
begin

text \<open>
  The receiving end while chunks still arrive and the user already reads: at every moment each
  stream's reader has got the first messages of the stream, and nothing else.
\<close>

section \<open>The reassembly queue between two reads\<close>

lemma wire_fields [simp]:
  "pd_tsn (wire c) = pd_tsn c" "pd_stream_identifier (wire c) = pd_stream_identifier c"
  "pd_stream_sequence_number (wire c) = pd_stream_sequence_number c" "pd_unordered (wire c) = pd_unordered c"
  "pd_beginning_fragment (wire c) = pd_beginning_fragment c" "pd_ending_fragment (wire c) = pd_ending_fragment c"
  "pd_payload_type (wire c) = pd_payload_type c" "pd_user_data (wire c) = pd_user_data c"
  by (simp_all add: wire_def payload_data_view_def)

lemma map_wire [simp]:
  "message_data (map wire cs) = message_data cs" "data_bytes (map wire cs) = data_bytes cs"
  by (simp_all add: message_data_def data_bytes_def comp_def)

lemma messages_from_nth:
  assumes "messages_from ssn c ppi_of ms" and "i < length ms"
  shows "fragments_of (pd_tsn (hd (ms ! i))) (ms ! i) \<and> (\<forall>p \<in> set (ms ! i). pd_stream_sequence_number p = ssn + of_nat i \<and>
    \<not> pd_unordered p \<and> in_window c (pd_tsn p) \<and> pd_payload_type p = ppi_of (ssn + of_nat i))"
  using assms
proof (induction ms arbitrary: ssn i)
  case (Cons m ms)
  then show ?case by (cases i) (auto simp: list_all_iff algebra_simps)
qed simp

lemma tsn_sorted_rebase:
  assumes "tsn_sorted c xs" and "\<forall>p \<in> set xs. in_window t (pd_tsn p)"
  shows "tsn_sorted t xs"
proof -
  have "sorted_wrt (\<lambda>p q. p \<in> set xs \<and> q \<in> set xs \<and> pd_tsn p - c \<le> pd_tsn q - c \<and> pd_tsn p \<noteq> pd_tsn q) xs"
    using assms(1) by (auto simp: tsn_sorted_def sorted_wrt_iff_nth_less sorted_iff_nth_mono_less distinct_conv_nth)
  then have "sorted_wrt (\<lambda>p q. pd_tsn p - t \<le> pd_tsn q - t) xs"
  proof (elim sorted_wrt_mono_rel [rotated], elim conjE)
    fix p q assume p: "p \<in> set xs" "q \<in> set xs" "pd_tsn p - c \<le> pd_tsn q - c" "pd_tsn p \<noteq> pd_tsn q"
    have w: "in_window c (pd_tsn p)" "in_window c (pd_tsn q)" using p(1,2) assms(1) by (simp_all add: tsn_sorted_def)
    have "pd_tsn p - c < pd_tsn q - c" using p(3,4) by (simp add: order.strict_iff_order)
    then have "sna32lt (pd_tsn p) (pd_tsn q)" using s32.window_lt [OF w] by simp
    then show "pd_tsn p - t \<le> pd_tsn q - t" using s32.window_lt [of t "pd_tsn p" "pd_tsn q"] assms(2) p(1,2) by simp
  qed
  then show ?thesis using assms by (simp add: tsn_sorted_def sorted_wrt_map)
qed

lemma ordered_inv_tl:
  assumes "ordered_inv next c ppi_of (h # os)" and "cs_ssn h = next"
  shows "ordered_inv (next + 1) c ppi_of os"
proof -
  have rest: "cs_ssn u \<noteq> next" if "u \<in> set os" for u
    using assms that by (metis distinct.simps(2) imageI list.map(2) list.set_map ordered_inv_def)
  have "sorted_wrt (\<lambda>x y. x - next \<le> y - next) (map cs_ssn os)"
    using assms(1) by (simp add: ordered_inv_def sorted_wrt_map)
  then have "sorted_wrt (\<lambda>x y. x - (next + 1) \<le> y - (next + 1)) (map cs_ssn os)"
    by (elim sorted_wrt_mono_rel [rotated])
      (use rest in \<open>auto simp: word_le_nat_alt unat_diff_succ_u16 diff_le_mono\<close>)
  then have "sorted (map (\<lambda>s. cs_ssn s - (next + 1)) os)" by (simp add: sorted_wrt_map)
  then show ?thesis using assms rest by (auto simp: ordered_inv_def in_window_next_u16)
qed

text \<open>
  \<open>M\<close> are the messages of the stream, as the wire carries them; \<open>r\<close> of them have been read; \<open>acc\<close> are
  the chunks of the stream that the receiver has taken so far.
\<close>

definition unread :: "payload_data list list \<Rightarrow> nat \<Rightarrow> payload_data list \<Rightarrow> payload_data list" where
  "unread M r acc = filter (\<lambda>d. wire d \<notin> set (concat (take r M))) acc"

definition queue_state ::
  "payload_data list list \<Rightarrow> u32 \<Rightarrow> (u16 \<Rightarrow> payload_protocol_identifier) \<Rightarrow> nat \<Rightarrow> payload_data list
    \<Rightarrow> reassembly_queue \<Rightarrow> bool" where
  "queue_state M c ppi_of r acc q \<longleftrightarrow> r \<le> length M \<and> rq_next_ssn q = of_nat r \<and> rq_unordered q = [] \<and>
     wire ` set acc \<subseteq> set (concat M) \<and> set (concat (take r M)) \<subseteq> wire ` set acc \<and>
     ordered_inv (of_nat r) c ppi_of (rq_ordered q) \<and>
     mset (all_chunks (rq_ordered q)) = mset (unread M r acc) \<and>
     rq_n_bytes q = of_nat (data_bytes (unread M r acc))"

definition messages_ok :: "u32 \<Rightarrow> (u16 \<Rightarrow> payload_protocol_identifier) \<Rightarrow> payload_data list list \<Rightarrow> bool" where
  "messages_ok c ppi_of M \<longleftrightarrow> messages_from 0 c ppi_of M \<and> length M \<le> 2 ^ 15 \<and> distinct (map pd_tsn (concat M)) \<and>
     data_bytes (concat M) < 2 ^ 64"

lemma message_index:
  assumes "messages_ok c ppi_of M" and "wire d \<in> set (concat M)"
  obtains i where "i < length M" and "wire d \<in> set (M ! i)" and "pd_stream_sequence_number d = of_nat i"
proof -
  obtain m where "m \<in> set M" "wire d \<in> set m" using assms(2) by auto
  then obtain i where i: "i < length M" "wire d \<in> set (M ! i)" by (auto simp: in_set_conv_nth)
  then have "pd_stream_sequence_number (wire d) = 0 + of_nat i"
    using messages_from_nth [of 0 c ppi_of M i] assms(1) unfolding messages_ok_def by blast
  then show thesis using that [OF i] by simp
qed

lemma same_index:
  assumes "messages_ok c ppi_of M" and "i < length M" and "j < length M" and "x \<in> set (M ! i)" and "x \<in> set (M ! j)"
  shows "i = j"
proof -
  have "(of_nat i :: u16) = of_nat j"
    using messages_from_nth [of 0 c ppi_of M i] messages_from_nth [of 0 c ppi_of M j] assms by (auto simp: messages_ok_def)
  moreover have "unat (of_nat i :: u16) = i" "unat (of_nat j :: u16) = j"
    using assms(1-3) by (simp_all add: messages_ok_def unat_of_nat_u16)
  ultimately show ?thesis by metis
qed

lemma in_take_concat:
  assumes "messages_ok c ppi_of M" and "i < length M" and "x \<in> set (M ! i)"
  shows "x \<in> set (concat (take r M)) \<longleftrightarrow> i < r"
proof
  assume "x \<in> set (concat (take r M))"
  then obtain m where "m \<in> set (take r M)" "x \<in> set m" by auto
  then obtain j where "j < length M" "j < r" "x \<in> set (M ! j)" by (auto simp: in_set_conv_nth [of m])
  then show "i < r" using same_index [OF assms(1,2) _ assms(3)] by blast
next
  assume "i < r"
  then have "take r M ! i \<in> set (take r M)" using assms(2) by (intro nth_mem) simp
  then show "x \<in> set (concat (take r M))" using assms(3) \<open>i < r\<close> by auto
qed

text \<open>A chunk that is taken for the first time belongs to a message that has not been read.\<close>

lemma queue_state_push:
  assumes M: "messages_ok c ppi_of M" and Q: "queue_state M c ppi_of r acc q"
    and d: "wire d \<in> set (concat M)" "pd_stream_identifier d = rq_si q" "pd_tsn d \<notin> pd_tsn ` set acc"
  shows "queue_state M c ppi_of r (acc @ [d]) (snd (reassembly_queue_push q d))" and "rq_si (snd (reassembly_queue_push q d)) = rq_si q"
proof -
  obtain i where i: "i < length M" "wire d \<in> set (M ! i)" "pd_stream_sequence_number d = of_nat i"
    by (rule message_index [OF M d(1)])
  have new: "wire d \<notin> set (concat (take r M))"
  proof
    assume "wire d \<in> set (concat (take r M))"
    then have "wire d \<in> wire ` set acc" using Q by (auto simp: queue_state_def)
    then have "pd_tsn d \<in> pd_tsn ` set acc" by (auto dest: arg_cong [of _ _ pd_tsn])
    then show False using d(3) by blast
  qed
  then have r: "r \<le> i" using in_take_concat [OF M i(1,2), of r] by (meson not_le)
  have f: "\<not> pd_unordered d" "in_window c (pd_tsn d)" "pd_payload_type d = ppi_of (of_nat i)"
    using messages_from_nth [of 0 c ppi_of M i] i M by (auto simp: messages_ok_def)
  have "unat (of_nat i - of_nat r :: u16) = i - r"
  proof -
    have "length M \<le> 2 ^ 15" using M by (simp add: messages_ok_def)
    then have "i - r < 65536" using i(1) by simp
    then show ?thesis using r by (simp add: of_nat_diff [symmetric] unat_of_nat_u16 del: of_nat_diff)
  qed
  moreover have "length M \<le> 2 ^ 15" using M by (simp add: messages_ok_def)
  ultimately have "in_window (of_nat r) (of_nat i :: u16)" using i(1) by (simp add: s16.window_unat)
  then have fit: "chunk_fits (rq_next_ssn q) c ppi_of d" using f i(3) Q by (simp add: chunk_fits_def queue_state_def)
  have all: "mset (all_chunks (rq_ordered q)) = mset (unread M r acc)" using Q by (simp add: queue_state_def)
  have "pd_tsn d \<notin> pd_tsn ` set (all_chunks (rq_ordered q))"
    using d(3) mset_eq_setD [OF all] by (auto simp: unread_def)
  moreover have "ordered_inv (rq_next_ssn q) c ppi_of (rq_ordered q)" using Q by (simp add: queue_state_def)
  ultimately obtain ok q' where q': "reassembly_queue_push q d = (ok, q')"
      "ordered_inv (rq_next_ssn q) c ppi_of (rq_ordered q')"
      "mset (all_chunks (rq_ordered q')) = add_mset d (mset (all_chunks (rq_ordered q)))"
      "rq_n_bytes q' = rq_n_bytes q + of_nat (length (pd_user_data d))"
      "rq_next_ssn q' = rq_next_ssn q" "rq_si q' = rq_si q" "rq_unordered q' = rq_unordered q"
    using push_ordered [OF _ fit d(2)] by metis
  have "unread M r (acc @ [d]) = unread M r acc @ [d]" using new by (simp add: unread_def)
  then show "queue_state M c ppi_of r (acc @ [d]) (snd (reassembly_queue_push q d))"
    using Q q' d(1) by (auto simp: queue_state_def)
  show "rq_si (snd (reassembly_queue_push q d)) = rq_si q" using q' by simp
qed

text \<open>
  A set of chunks that looks complete is the whole message, whatever the times at which its chunks were
  decoded.
\<close>

lemma complete_is_message:
  assumes M: "messages_ok c ppi_of M" and i: "i < length M" and s: "chunk_set_is_complete s"
    and xs: "tsn_sorted c (cs_chunks s)" "wire ` set (cs_chunks s) \<subseteq> set (M ! i)"
  shows "map wire (cs_chunks s) = M ! i"
proof -
  let ?s = "s\<lparr>cs_chunks := map wire (cs_chunks s)\<rparr>" and ?t = "pd_tsn (hd (M ! i))"
  have fr: "fragments_of ?t (M ! i)" using messages_from_nth [of 0 c ppi_of M i] M i by (simp add: messages_ok_def)
  have cont: "contiguous_from t (map wire ys) = contiguous_from t ys" for t ys
    by (induction t ys rule: contiguous_from.induct) auto
  have "cs_chunks s \<noteq> []" using s by (auto simp: chunk_set_is_complete_def)
  then have comp: "chunk_set_is_complete ?s"
    using s cont [of "pd_tsn (cs_chunks s ! 0)" "tl (cs_chunks s)"]
    by (auto simp: chunk_set_is_complete_def map_tl split: if_splits)
  have "tsn_sorted ?t (cs_chunks s)"
    using xs(2) fragments_of_in_window [OF fr] by (intro tsn_sorted_rebase [OF xs(1)]) (metis imageI subsetD wire_fields(1))
  then have "tsn_sorted ?t (map wire (cs_chunks s))" by (simp add: tsn_sorted_def comp_def)
  then show ?thesis using complete_is_whole [OF fr _ _ comp HOL.refl] xs(2) by simp
qed

lemma data_bytes_mset: "mset xs = mset ys \<Longrightarrow> data_bytes xs = data_bytes ys"
  by (metis data_bytes_def mset_map sum_mset_sum_list)

text \<open>A read with room for the message gets the next message, if its fragments are there, or nothing.\<close>

lemma queue_state_read:
  assumes M: "messages_ok c ppi_of M" and Q: "queue_state M c ppi_of r acc q" and acc: "distinct (map pd_tsn acc)"
    and room: "\<forall>m \<in> set M. data_bytes m \<le> buf_len" and read: "reassembly_queue_read q buf_len = (res, q')"
  shows "res = Err ErrTryAgain \<and> q' = q \<or>
    r < length M \<and> res = Ok (message_data (M ! r), pd_payload_type (hd (M ! r))) \<and>
      queue_state M c ppi_of (Suc r) acc q' \<and> rq_si q' = rq_si q"
proof -
  have q: "rq_unordered q = []" "rq_next_ssn q = of_nat r" "r \<le> length M" "wire ` set acc \<subseteq> set (concat M)"
      "mset (all_chunks (rq_ordered q)) = mset (unread M r acc)" "rq_n_bytes q = of_nat (data_bytes (unread M r acc))"
    using Q by (simp_all add: queue_state_def)
  consider (none) "rq_ordered q = []" | (partial) h os where "rq_ordered q = h # os" "\<not> chunk_set_is_complete h \<or> sna16gt (cs_ssn h) (rq_next_ssn q)"
    | (whole) h os where "rq_ordered q = h # os" "chunk_set_is_complete h" "\<not> sna16gt (cs_ssn h) (rq_next_ssn q)"
    by (cases "rq_ordered q") auto
  then show ?thesis
  proof cases
    case none
    then show ?thesis using read q(1) by (simp add: reassembly_queue_read_def)
  next
    case partial
    then show ?thesis
      using read q(1) by (cases "chunk_set_is_complete h") (simp_all add: reassembly_queue_read_def)
  next
    case whole
    have inv: "ordered_inv (of_nat r) c ppi_of (h # os)" using Q whole(1) by (simp add: queue_state_def)
    then have h: "in_window (of_nat r) (cs_ssn h)" "set_inv c ppi_of h" "cs_chunks h \<noteq> []" by (simp_all add: ordered_inv_def)
    have ssn: "cs_ssn h = of_nat r" using whole(3) s16.lt_base [OF h(1)] s16.asym s16.not_gt_iff unfolding q(2) by blast
    have sub: "set (cs_chunks h) \<subseteq> set (unread M r acc)"
      using mset_eq_setD [OF q(5)] by (auto simp: whole(1) all_chunks_def)
    have index: "r < length M \<and> wire d \<in> set (M ! r)"
      if "d \<in> set (unread M r acc)" "pd_stream_sequence_number d = of_nat r" for d
    proof -
      have "wire d \<in> set (concat M)" using that(1) q(4) by (auto simp: unread_def)
      then obtain i where i: "i < length M" "wire d \<in> set (M ! i)" "pd_stream_sequence_number d = of_nat i"
        by (rule message_index [OF M])
      have "unat (of_nat i :: u16) = i" "unat (of_nat r :: u16) = r"
        using i(1) q(3) M by (simp_all add: messages_ok_def unat_of_nat_u16)
      then have "i = r" using i(3) that(2) by metis
      then show ?thesis using i by simp
    qed
    have ssns: "pd_stream_sequence_number d = cs_ssn u" if "u \<in> set (h # os)" "d \<in> set (cs_chunks u)" for u d
      using inv that by (auto simp: ordered_inv_def set_inv_def)
    have r: "r < length M" using index sub ssns [of h] h(3) ssn by (metis hd_in_set list.set_intros(1) subsetD)
    have here: "wire ` set (cs_chunks h) \<subseteq> set (M ! r)" using index sub ssns [of h] ssn by auto
    have m: "map wire (cs_chunks h) = M ! r"
      by (rule complete_is_message [OF M r whole(2) _ here]) (use h(2) in \<open>simp add: set_inv_def\<close>)
    have nth: "fragments_of (pd_tsn (hd (M ! r))) (M ! r)" "\<forall>p \<in> set (M ! r). pd_payload_type p = ppi_of (of_nat r)"
      using messages_from_nth [of 0 c ppi_of M r] M r by (auto simp: messages_ok_def)
    have fr: "fragments_of (pd_tsn (hd (M ! r))) (cs_chunks h)"
      using nth(1) unfolding m [symmetric] by (simp add: fragments_of_def list_all_iff)
    have hd: "hd (M ! r) \<in> set (M ! r)" using nth(1) by (simp add: fragments_of_def)
    have ord: "rq_ordered q = \<lparr>cs_ssn = rq_next_ssn q, cs_ppi = cs_ppi h, cs_chunks = cs_chunks h\<rparr> # os"
      using whole(1) ssn q(2) by simp
    let ?n = "data_bytes (unread M r acc)"
    have split: "mset (unread M r acc) = mset (cs_chunks h @ all_chunks os)"
      using q(5) by (simp add: whole(1) all_chunks_def)
    then have n: "?n = data_bytes (cs_chunks h) + data_bytes (all_chunks os)" by (simp add: data_bytes_mset [OF split])
    have "distinct (map pd_tsn (map wire (unread M r acc)))" using acc by (simp add: unread_def comp_def distinct_map_filter)
    then have "data_bytes (map wire (unread M r acc)) \<le> data_bytes (concat M)"
      by (rule data_bytes_sub) (use q(4) in \<open>auto simp: unread_def\<close>)
    then have "?n < 2 ^ 64" using M by (simp add: messages_ok_def)
    moreover have "data_bytes (cs_chunks h) \<le> buf_len"
      using room r m nth_mem by (metis map_wire(2))
    ultimately have "reassembly_queue_read q buf_len = (Ok (message_data (cs_chunks h), cs_ppi h),
        q\<lparr>rq_next_ssn := rq_next_ssn q + 1, rq_ordered := os, rq_n_bytes := of_nat (?n - data_bytes (cs_chunks h))\<rparr>)"
      using read_ordered_message [OF ord q(1) fr _ q(6)] n by simp
    then have res: "res = Ok (message_data (cs_chunks h), cs_ppi h)" "rq_next_ssn q' = of_nat (Suc r)" "rq_ordered q' = os"
        "rq_n_bytes q' = of_nat (data_bytes (all_chunks os))" "rq_unordered q' = []" "rq_si q' = rq_si q"
      using read q(1,2) n by auto
    have "message_data (cs_chunks h) = message_data (M ! r)" using m by (metis map_wire(1))
    moreover have "cs_ppi h = pd_payload_type (hd (M ! r))" using h(2) ssn nth(2) hd by (simp add: set_inv_def)
    moreover have "mset (all_chunks os) = mset (unread M (Suc r) acc)"
    proof -
      let ?P = "\<lambda>d. wire d \<notin> set (M ! r)"
      have "unread M (Suc r) acc = filter ?P (unread M r acc)"
        using r by (auto simp: unread_def take_Suc_conv_app_nth filter_filter intro!: filter_cong)
      then have "mset (unread M (Suc r) acc) = mset (filter ?P (cs_chunks h @ all_chunks os))"
        by (metis mset_filter split)
      moreover have "filter ?P (cs_chunks h) = []" using here by (auto simp: filter_empty_conv)
      moreover have "filter ?P (all_chunks os) = all_chunks os"
      proof -
        have "?P d" if u: "u \<in> set os" "d \<in> set (cs_chunks u)" for u d
        proof
          assume "wire d \<in> set (M ! r)"
          then have "pd_stream_sequence_number (wire d) = 0 + of_nat r"
            using messages_from_nth [of 0 c ppi_of M r] M r unfolding messages_ok_def by blast
          then have "cs_ssn u = cs_ssn h" using ssns [of u d] u ssn by simp
          moreover have "cs_ssn h \<notin> cs_ssn ` set os" using inv by (simp add: ordered_inv_def)
          ultimately show False using u(1) by (metis imageI)
        qed
        then show ?thesis by (auto simp: filter_id_conv all_chunks_def)
      qed
      ultimately show ?thesis by simp
    qed
    moreover have "set (concat (take (Suc r) M)) \<subseteq> wire ` set acc"
    proof -
      have "set (M ! r) = wire ` set (cs_chunks h)" unfolding m [symmetric] by simp
      moreover have "set (cs_chunks h) \<subseteq> set acc" using sub by (auto simp: unread_def)
      ultimately show ?thesis using Q r by (auto simp: queue_state_def take_Suc_conv_app_nth)
    qed
    moreover have "ordered_inv (of_nat (Suc r)) c ppi_of os" using ordered_inv_tl [OF inv ssn] by (simp add: add.commute)
    moreover have "data_bytes (all_chunks os) = data_bytes (unread M (Suc r) acc)" by (rule data_bytes_mset) fact
    ultimately have "queue_state M c ppi_of (Suc r) acc q'"
      unfolding queue_state_def res using q(4) r by (simp only: Suc_le_eq simp_thms)
    then show ?thesis using r res(1,6) \<open>message_data (cs_chunks h) = _\<close> \<open>cs_ppi h = _\<close> by simp
  qed
qed

section \<open>The association\<close>

text \<open>
  \<open>M si\<close> are the messages of the stream \<open>si\<close>, \<open>r si\<close> of which have been read; \<open>acc\<close> are the chunks that
  have been taken.
\<close>

definition script_ok ::
  "u32 \<Rightarrow> (u16 \<Rightarrow> u16 \<Rightarrow> payload_protocol_identifier) \<Rightarrow> u16 list \<Rightarrow> (u16 \<Rightarrow> payload_data list list) \<Rightarrow> bool" where
  "script_ok c ppi_of sis M \<longleftrightarrow> (\<forall>si \<in> set sis. messages_ok c (ppi_of si) (M si) \<and>
     (\<forall>d \<in> set (concat (M si)). pd_stream_identifier d = si))"

definition script_chunk :: "u16 list \<Rightarrow> (u16 \<Rightarrow> payload_data list list) \<Rightarrow> payload_data \<Rightarrow> bool" where
  "script_chunk sis M d \<longleftrightarrow> (\<exists>si \<in> set sis. wire d \<in> set (concat (M si)))"

text \<open>The queue of a stream; a stream that is not there yet will be made when its first chunk arrives.\<close>

definition stream_queue :: "association \<Rightarrow> u16 \<Rightarrow> reassembly_queue" where
  "stream_queue b si =
     (case hm_get (as_streams b) si of Some s \<Rightarrow> st_reassembly_queue s | None \<Rightarrow> reassembly_queue_new si)"

definition receiver_ok ::
  "u32 \<Rightarrow> (u16 \<Rightarrow> u16 \<Rightarrow> payload_protocol_identifier) \<Rightarrow> u16 list \<Rightarrow> (u16 \<Rightarrow> payload_data list list)
    \<Rightarrow> (u16 \<Rightarrow> nat) \<Rightarrow> payload_data list \<Rightarrow> association \<Rightarrow> bool" where
  "receiver_ok c ppi_of sis M r acc b \<longleftrightarrow> accepted c acc b \<and> (\<forall>d \<in> set acc. script_chunk sis M d) \<and>
     as_reconfig_requests b = [] \<and>
     (\<forall>si \<in> set sis. rq_si (stream_queue b si) = si \<and>
       queue_state (M si) c (ppi_of si) (r si) (of_stream si acc) (stream_queue b si))"

lemma stream_queue_create: "stream_queue (snd (get_or_create_stream si b)) = stream_queue b"
  by (auto simp: get_or_create_stream_def create_stream_def stream_queue_def stream_new_def update_conv' Let_def fun_eq_iff
      split: option.split)

lemma created_stream: "get_or_create_stream si b = (True, b') \<Longrightarrow> \<exists>s. hm_get (as_streams b') si = Some s"
  by (auto simp: get_or_create_stream_def create_stream_def update_conv' Let_def split: if_splits option.splits)

lemma create_frame:
  "as_reconfig_requests (snd (get_or_create_stream si b)) = as_reconfig_requests b"
  "as_payload_queue (snd (get_or_create_stream si b)) = as_payload_queue b"
  by (simp_all add: get_or_create_stream_def create_stream_def Let_def)

text \<open>A chunk that is taken goes to its stream's queue, and nothing else happens to the queues.\<close>

lemma handle_data_queues:
  assumes "as_reconfig_requests b = []" and "handle_data d b = (res, b')"
    and "took \<longleftrightarrow> fst (accept_data d (b\<lparr>as_stats := inc_datas (as_stats b)\<rparr>)) = Some True"
  shows "stream_queue b' = (if took
      then (stream_queue b)(pd_stream_identifier d := snd (reassembly_queue_push (stream_queue b (pd_stream_identifier d)) d))
      else stream_queue b)"
    and "as_reconfig_requests b' = []" and "is_ok res \<Longrightarrow> res = Ok []"
proof -
  let ?b = "b\<lparr>as_stats := inc_datas (as_stats b)\<rparr>" and ?si = "pd_stream_identifier d"
  obtain ok e where e: "get_or_create_stream ?si ?b = (ok, e)" by fastforce
  have "stream_queue e = stream_queue ?b" "as_reconfig_requests e = []"
    using stream_queue_create [of ?si ?b] create_frame(1) [of ?si ?b] assms(1) by (simp_all add: e)
  then have E: "stream_queue e = stream_queue b" "as_reconfig_requests e = []" by (simp_all add: stream_queue_def fun_eq_iff)
  obtain o1 f where f: "accept_data d ?b = (o1, f)" by fastforce
  have took: "took \<longleftrightarrow> o1 = Some True" using assms(3) f by simp
  have F: "stream_queue f = stream_queue b" "as_reconfig_requests f = []" "took \<Longrightarrow> \<exists>s. hm_get (as_streams f) ?si = Some s"
  proof -
    have f': "f = ?b \<and> o1 = Some False \<or> f = e \<and> \<not> took \<or> ok \<and> (\<exists>q. f = e\<lparr>as_payload_queue := q\<rparr>)"
      using f took by (auto simp: accept_data_def e Let_def split: if_splits bool.splits option.splits)
    have sb: "stream_queue ?b = stream_queue b" "as_reconfig_requests ?b = []" using assms(1) by (simp_all add: stream_queue_def fun_eq_iff)
    have se: "stream_queue (e\<lparr>as_payload_queue := q\<rparr>) = stream_queue b" for q using E(1) by (simp add: stream_queue_def fun_eq_iff)
    show "stream_queue f = stream_queue b" "as_reconfig_requests f = []" using f' sb se E by auto
    show "took \<Longrightarrow> \<exists>s. hm_get (as_streams f) ?si = Some s" using f' took created_stream [of ?si ?b e] e by auto
  qed
  define g where "g = (if took then update_stream ?si (\<lambda>s. stream_handle_data s d) f else f)"
  have sg: "stream_queue g = (if took then (stream_queue b)(?si := snd (reassembly_queue_push (stream_queue b ?si) d)) else stream_queue b)"
  proof (cases took)
    case True
    then obtain s where s: "hm_get (as_streams f) ?si = Some s" using F(3) by blast
    then have g: "as_streams g = hm_insert ?si (stream_handle_data s d) (as_streams f)" using True by (simp add: g_def update_stream_def)
    have "st_reassembly_queue s = stream_queue b ?si" using F(1) [symmetric] s by (simp add: stream_queue_def)
    then have "stream_queue g = (stream_queue f)(?si := snd (reassembly_queue_push (stream_queue b ?si) d))"
      by (simp add: stream_queue_def g update_conv' stream_handle_data_queue fun_eq_iff)
    then show ?thesis using True F(1) by simp
  qed (use F(1) in \<open>simp add: g_def\<close>)
  have rg: "as_reconfig_requests g = []" using F(2) by (simp add: g_def update_stream_def split: option.split)
  have "o1 = None \<and> res = Ok [] \<and> b' = g \<or> handle_peer_last_tsn_and_acknowledgement (pd_immediate_sack d) g = (res, b')"
    using assms(2) f took by (cases o1) (auto simp: handle_data_def g_def Let_def split: if_splits)
  then have "as_streams b' = as_streams g \<and> as_reconfig_requests b' = [] \<and> (is_ok res \<longrightarrow> res = Ok [])"
    using ack_frame [OF rg] rg by blast
  then show "stream_queue b' = (if took
      then (stream_queue b)(?si := snd (reassembly_queue_push (stream_queue b ?si) d)) else stream_queue b)"
    "as_reconfig_requests b' = []" "is_ok res \<Longrightarrow> res = Ok []"
    using sg by (simp_all add: stream_queue_def fun_eq_iff)
qed

lemma script_chunkD:
  assumes "script_ok c ppi_of sis M" and "script_chunk sis M d"
  shows "pd_stream_identifier d \<in> set sis" and "wire d \<in> set (concat (M (pd_stream_identifier d)))" and "in_window c (pd_tsn d)"
proof -
  obtain si where si: "si \<in> set sis" "wire d \<in> set (concat (M si))" using assms(2) by (auto simp: script_chunk_def)
  then have s: "pd_stream_identifier (wire d) = si" and M: "messages_ok c (ppi_of si) (M si)"
    using assms(1) unfolding script_ok_def by blast+
  then show "pd_stream_identifier d \<in> set sis" "wire d \<in> set (concat (M (pd_stream_identifier d)))" using si by simp_all
  obtain i where i: "i < length (M si)" "wire d \<in> set (M si ! i)" using message_index [OF M si(2)] by blast
  then have "in_window c (pd_tsn (wire d))"
    using messages_from_nth [of 0 c "ppi_of si" "M si" i] M unfolding messages_ok_def by blast
  then show "in_window c (pd_tsn d)" by simp
qed

lemma receiver_ok_data:
  assumes "script_ok c ppi_of sis M" and b: "receiver_ok c ppi_of sis M r acc b" and d: "script_chunk sis M d"
    and h: "handle_data d b = (res, b')"
  shows "res = Ok []" and "\<exists>acc'. receiver_ok c ppi_of sis M r acc' b'"
proof -
  let ?si = "pd_stream_identifier d"
  define took where "took \<longleftrightarrow> fst (accept_data d (b\<lparr>as_stats := inc_datas (as_stats b)\<rparr>)) = Some True"
  have B: "accepted c acc b" "\<forall>d \<in> set acc. script_chunk sis M d" "as_reconfig_requests b = []"
      "\<And>si. si \<in> set sis \<Longrightarrow> rq_si (stream_queue b si) = si \<and>
       queue_state (M si) c (ppi_of si) (r si) (of_stream si acc) (stream_queue b si)"
    using b by (simp_all add: receiver_ok_def)
  note D = script_chunkD [OF assms(1) d]
  have w: "\<forall>e \<in> set acc. in_window c (pd_tsn e)" using B(2) script_chunkD(3) [OF assms(1)] by blast
  note acc = accepted_step [OF B(1) w D(3) h took_def]
  note str = handle_data_queues [OF B(3) h took_def]
  show "res = Ok []" using acc(1) str(3) by blast
  show "\<exists>acc'. receiver_ok c ppi_of sis M r acc' b'"
  proof (cases took)
    case False
    then have "receiver_ok c ppi_of sis M r acc b'" using acc(2) str(1,2) B by (simp add: receiver_ok_def)
    then show ?thesis ..
  next
    case True
    have M: "messages_ok c (ppi_of ?si) (M ?si)" using assms(1) D(1) by (simp add: script_ok_def)
    have new: "pd_tsn d \<notin> pd_tsn ` set (of_stream ?si acc)" using acc(3) [OF True] by (auto simp: of_stream_def)
    have id: "pd_stream_identifier d = rq_si (stream_queue b ?si)" using B(4) [OF D(1)] by simp
    note q = queue_state_push [OF M B(4) [OF D(1), THEN conjunct2] D(2) id new]
    have "accepted c (acc @ [d]) b'" using acc(2) True by simp
    moreover have "rq_si (stream_queue b' si) = si \<and>
       queue_state (M si) c (ppi_of si) (r si) (of_stream si (acc @ [d])) (stream_queue b' si)"
      if si: "si \<in> set sis" for si
    proof (cases "si = ?si")
      case True
      have "of_stream ?si (acc @ [d]) = of_stream ?si acc @ [d]" by (simp add: of_stream_def)
      then show ?thesis using q id True \<open>took\<close> by (simp add: str(1))
    next
      case False
      then have "of_stream si (acc @ [d]) = of_stream si acc" by (simp add: of_stream_def)
      then show ?thesis using B(4) [OF si] False \<open>took\<close> by (simp add: str(1))
    qed
    ultimately have "receiver_ok c ppi_of sis M r (acc @ [d]) b'"
      using B(2) d str(2) by (simp add: receiver_ok_def ball_Un)
    then show ?thesis ..
  qed
qed

text \<open>What of an association the receiving side depends on.\<close>

definition receiver_view ::
  "association \<Rightarrow> u32 \<times> (u32, payload_data) hmap \<times> u32 list \<times> usize \<times> usize \<times>
    (u32, outgoing_reset_request) hmap \<times> (u16, reassembly_queue) hmap" where
  "receiver_view b = (as_peer_last_tsn b, pq_chunk_map (as_payload_queue b), pq_sorted (as_payload_queue b),
     pq_length (as_payload_queue b), pq_n_bytes (as_payload_queue b), as_reconfig_requests b, queues_of (as_streams b))"

lemma queues_of_get: "hm_get (queues_of ss) si = map_option st_reassembly_queue (hm_get ss si)"
  by (induction ss) (auto simp: queues_of_def)

lemma pq_inv_view:
  "pq_chunk_map q' = pq_chunk_map q \<Longrightarrow> pq_sorted q' = pq_sorted q \<Longrightarrow> pq_length q' = pq_length q \<Longrightarrow>
    pq_n_bytes q' = pq_n_bytes q \<Longrightarrow> pq_inv c q' = pq_inv c q"
  by (simp add: pq_inv_def)

lemma receiver_ok_view:
  assumes "receiver_ok c ppi_of sis M r acc b" and "receiver_view b' = receiver_view b"
  shows "receiver_ok c ppi_of sis M r acc b'"
proof -
  have v: "as_peer_last_tsn b' = as_peer_last_tsn b" "as_reconfig_requests b' = as_reconfig_requests b"
      "queues_of (as_streams b') = queues_of (as_streams b)" "pq_chunk_map (as_payload_queue b') = pq_chunk_map (as_payload_queue b)"
    using assms(2) by (simp_all add: receiver_view_def)
  have "pq_inv x (as_payload_queue b') = pq_inv x (as_payload_queue b)" for x
    using assms(2) by (intro pq_inv_view) (simp_all add: receiver_view_def)
  then have "accepted c acc b'" using assms(1) v by (simp add: receiver_ok_def accepted_def receiver_inv_def tsns_above_def)
  moreover have "stream_queue b' si = stream_queue b si" for si
    using queues_of_get [of "as_streams b'" si] queues_of_get [of "as_streams b" si] v(3)
    by (auto simp: stream_queue_def split: option.splits)
  ultimately show ?thesis using assms(1) v(2) by (simp add: receiver_ok_def)
qed

interpretation receiving: outbound_invariant "\<lambda>b. receiver_view b = v" for v
  by unfold_locales (simp_all add: receiver_view_def)

section \<open>Packets\<close>

text \<open>
  The chunks that leave the receiving side alone.  INIT and INIT-ACK start a session, FORWARD-TSN and RE-CONFIG
  give up data and streams, and SHUTDOWN-COMPLETE ends the session: these are not for a session in
  which reliable streams are open.
\<close>

fun peaceful :: "chunk \<Rightarrow> bool" where
  "peaceful (ChunkInit c) = False"
| "peaceful (ChunkPayloadData d) = False"
| "peaceful (ChunkForwardTsn c) = False"
| "peaceful (ChunkReconfig c) = False"
| "peaceful ChunkShutdownComplete = False"
| "peaceful _ = True"

lemma peaceful_chunk:
  assumes "peaceful c"
  shows "receiver_view (snd (handle_checked_chunk rnd now random32 p c b)) = receiver_view b"
proof -
  have sack: "receiver_view (snd (handle_sack rnd now d b)) = receiver_view b" for d
    by (rule receiving.keeps_handle_sack) simp
  have unknown: "receiver_view (snd (handle_unknown_chunk c b)) = receiver_view b" for c
    by (cases "report_unrecognized c b")
      (simp_all add: handle_unknown_chunk_def push_control_def awake_write_loop_def receiver_view_def Let_def)
  have close_free: "receiver_view (snd (handle_cookie_echo v b)) = receiver_view b" "receiver_view (snd (handle_cookie_ack b)) = receiver_view b"
      "receiver_view (snd (handle_shutdown b)) = receiver_view b" "receiver_view (snd (handle_shutdown_ack b)) = receiver_view b" for v
    by (auto simp: handle_cookie_echo_def handle_cookie_ack_def handshake_completed_def handle_shutdown_def handle_shutdown_ack_def
        set_state_def awake_write_loop_def payload_queue_is_empty_def payload_queue_len_def Let_def receiver_view_def
        split: option.split)
  have heartbeat: "receiver_view (snd (handle_heartbeat ps b)) = receiver_view b" for ps
    by (simp add: handle_heartbeat_def split: list.split param.split)
  show ?thesis
    using assms sack unknown close_free heartbeat by (cases c) (simp_all add: handle_checked_chunk_def)
qed

text \<open>A chunk that may come to the receiver: a fragment of the messages, decoded at any time, or a peaceful chunk.\<close>

definition allowed_chunk :: "u16 list \<Rightarrow> (u16 \<Rightarrow> payload_data list list) \<Rightarrow> chunk \<Rightarrow> bool" where
  "allowed_chunk sis M c \<longleftrightarrow> peaceful c \<or> (\<exists>d. c = ChunkPayloadData d \<and> script_chunk sis M d)"

lemma receiver_ok_chunk:
  assumes "script_ok c ppi_of sis M" and "receiver_ok c ppi_of sis M r acc b" and "allowed_chunk sis M ch"
  shows "\<exists>acc'. receiver_ok c ppi_of sis M r acc' (snd (handle_chunk rnd now random32 p ch b))"
proof -
  define f where "f = (\<lambda>packets b. (Ok (), if packets \<noteq> []
    then awake_write_loop (b\<lparr>as_control_queue := as_control_queue b @ packets\<rparr>) else b) :: unit outcome \<times> association)"
  have f: "receiver_view (snd (f packets b)) = receiver_view b" for packets b
    by (simp add: f_def receiver_view_def awake_write_loop_def)
  have h: "snd (handle_chunk rnd now random32 p ch b) = b \<or>
      receiver_view (snd (handle_chunk rnd now random32 p ch b)) = receiver_view (snd (handle_checked_chunk rnd now random32 p ch b))"
    using f
    by (cases "chunk_check ch"; cases "handle_checked_chunk rnd now random32 p ch b"; cases "fst (handle_checked_chunk rnd now random32 p ch b)")
      (simp_all add: handle_chunk_def f_def [symmetric])
  have "\<exists>acc'. receiver_ok c ppi_of sis M r acc' (snd (handle_checked_chunk rnd now random32 p ch b))"
    using assms(3) unfolding allowed_chunk_def
  proof (elim disjE exE conjE)
    assume "peaceful ch"
    then show ?thesis using receiver_ok_view [OF assms(2) peaceful_chunk] by blast
  next
    fix d assume d: "ch = ChunkPayloadData d" "script_chunk sis M d"
    then show ?thesis
      using receiver_ok_data(2) [OF assms(1,2) d(2) surjective_pairing] by (simp add: handle_checked_chunk_def)
  qed
  then show ?thesis using h assms(2) receiver_ok_view by metis
qed

lemma receiver_ok_chunks:
  assumes "script_ok c ppi_of sis M"
  shows "receiver_ok c ppi_of sis M r acc b \<Longrightarrow> \<forall>ch \<in> set cs. allowed_chunk sis M ch \<Longrightarrow>
    \<exists>acc'. receiver_ok c ppi_of sis M r acc' (snd (handle_chunks rnd now random32 p cs b))"
proof (induction cs arbitrary: acc b)
  case (Cons ch cs)
  obtain acc' where a: "receiver_ok c ppi_of sis M r acc' (snd (handle_chunk rnd now random32 p ch b))"
    using receiver_ok_chunk [OF assms Cons.prems(1), of ch rnd now random32 p] Cons.prems(2) by auto
  then show ?case
    using Cons.IH [OF a] Cons.prems(2)
    by (cases "handle_chunk rnd now random32 p ch b"; cases "fst (handle_chunk rnd now random32 p ch b)") auto
qed auto

lemma receiver_ok_inbound:
  assumes "script_ok c ppi_of sis M" and "receiver_ok c ppi_of sis M r acc b"
    and "packet_unmarshal crc now raw = Ok p" and "\<forall>ch \<in> set (pk_chunks p). allowed_chunk sis M ch"
  shows "\<exists>acc'. receiver_ok c ppi_of sis M r acc' (snd (handle_inbound crc rnd now random32 raw b))"
proof -
  have start: "receiver_ok c ppi_of sis M r acc (handle_chunk_start b)"
    by (rule receiver_ok_view [OF assms(2)]) (simp add: handle_chunk_start_def receiver_view_def)
  obtain acc' where a: "receiver_ok c ppi_of sis M r acc' (snd (handle_chunks rnd now random32 p (pk_chunks p) (handle_chunk_start b)))"
    using receiver_ok_chunks [OF assms(1) start assms(4)] by blast
  have fin: "receiver_view (handle_chunk_end x) = receiver_view x" for x
    by (simp add: handle_chunk_end_def receiver_view_def awake_write_loop_def)
  have "receiver_ok c ppi_of sis M r acc' (snd (then_do (handle_chunks rnd now random32 p (pk_chunks p) (handle_chunk_start b))
      (\<lambda>_ a. (Ok (), handle_chunk_end a))))"
    using a receiver_ok_view [OF _ fin]
    by (cases "handle_chunks rnd now random32 p (pk_chunks p) (handle_chunk_start b)";
        cases "fst (handle_chunks rnd now random32 p (pk_chunks p) (handle_chunk_start b))") auto
  then show ?thesis using assms(2,3) by (auto simp: handle_inbound_def split: outcome.split)
qed

section \<open>The receiver's own operations\<close>

lemma receiver_ok_gather:
  assumes "receiver_ok c ppi_of sis M r acc b" and "gather_outbound crc now b = Some res"
  shows "receiver_ok c ppi_of sis M r acc (snd res)"
  by (rule receiver_ok_view [OF assms(1)]) (rule receiving.keeps_gather [OF assms(2) HOL.refl])

lemma timer_event_view: "receiver_view (timer_event i l b) = receiver_view b"
proof -
  have "receiver_view (on_retransmission_timeout i b) = receiver_view b" for i
    using receiving.keeps_ack_points(1) [of _ "receiver_view b"]
    by (cases i)
      (auto simp: on_retransmission_timeout_def send_init_def send_cookie_echo_def push_control_def awake_write_loop_def
        receiver_view_def Let_def split: option.split)
  moreover have "receiver_view (on_retransmission_failure i b) = receiver_view b" for i
    by (cases i) (simp_all add: on_retransmission_failure_def receiver_view_def)
  ultimately show ?thesis by (induction i l b rule: timer_event.induct) simp_all
qed

lemma ack_timer_fires_view: "receiver_view (ack_timer_fires i b) = receiver_view b"
  by (simp add: ack_timer_fires_def on_ack_timeout_def awake_write_loop_def receiver_view_def)

text \<open>A read that returns has taken the next message of its stream.\<close>

lemma receiver_ok_read:
  assumes "script_ok c ppi_of sis M" and "receiver_ok c ppi_of sis M r acc b" and "si \<in> set sis"
    and "\<forall>m \<in> set (M si). data_bytes m \<le> buf_len" and "read_message si buf_len b = Some (res, b')"
  shows "r si < length (M si) \<and> res = Ok (message_data (M si ! r si), pd_payload_type (hd (M si ! r si))) \<and>
    receiver_ok c ppi_of sis M (r(si := Suc (r si))) acc b'"
proof -
  obtain s where s: "hm_get (as_streams b) si = Some s" "reader_check s = Reader_read"
    using assms(5) by (auto simp: read_message_def split: option.splits reader_phase.splits)
  obtain res' q where q: "reassembly_queue_read (st_reassembly_queue s) buf_len = (res', q)" by fastforce
  have sq: "stream_queue b si = st_reassembly_queue s" by (simp add: stream_queue_def s)
  have B: "accepted c acc b" "\<forall>d \<in> set acc. script_chunk sis M d" "as_reconfig_requests b = []"
      "\<And>si. si \<in> set sis \<Longrightarrow> rq_si (stream_queue b si) = si \<and>
       queue_state (M si) c (ppi_of si) (r si) (of_stream si acc) (stream_queue b si)"
    using assms(2) by (simp_all add: receiver_ok_def)
  have M: "messages_ok c (ppi_of si) (M si)" using assms(1,3) by (simp add: script_ok_def)
  have "distinct (map pd_tsn (of_stream si acc))"
    using B(1) by (simp add: accepted_def of_stream_def distinct_map_filter)
  note read = queue_state_read [OF M B(4) [OF assms(3), THEN conjunct2, unfolded sq] this assms(4) q]
  have "res' \<noteq> Err ErrTryAgain" using assms(5) s q by (auto simp: read_message_def reader_read_def)
  then have R: "r si < length (M si)" "res' = Ok (message_data (M si ! r si), pd_payload_type (hd (M si ! r si)))"
      "queue_state (M si) c (ppi_of si) (Suc (r si)) (of_stream si acc) q" "rq_si q = rq_si (st_reassembly_queue s)"
    using read by auto
  have b': "res = res'" "b' = b\<lparr>as_streams := hm_insert si (s\<lparr>st_reassembly_queue := q\<rparr>) (as_streams b)\<rparr>"
    using assms(5) s q R(2) by (auto simp: read_message_def reader_read_def)
  have "stream_queue b' = (stream_queue b)(si := q)" by (simp add: b'(2) stream_queue_def update_conv' fun_eq_iff)
  moreover have "accepted c acc b'" using B(1) by (simp add: b'(2) accepted_def receiver_inv_def tsns_above_def)
  ultimately have "receiver_ok c ppi_of sis M (r(si := Suc (r si))) acc b'"
    using B R(3,4) assms(3) by (simp add: receiver_ok_def b'(2)) (metis sq)
  then show ?thesis using R(1,2) b'(1) by simp
qed

text \<open>New messages at the end of the streams change nothing.\<close>

lemma queue_state_more:
  assumes "queue_state M c ppi_of r acc q" and M: "messages_ok c ppi_of M"
    and "\<And>i. i < length M \<Longrightarrow> ppi_of' (of_nat i) = ppi_of (of_nat i)"
  shows "queue_state (M @ ms) c ppi_of' r acc q"
proof -
  have q: "r \<le> length M" "wire ` set acc \<subseteq> set (concat M)" "mset (all_chunks (rq_ordered q)) = mset (unread M r acc)"
      "ordered_inv (of_nat r) c ppi_of (rq_ordered q)"
    using assms(1) by (simp_all add: queue_state_def)
  have "ppi_of' (cs_ssn s) = ppi_of (cs_ssn s)" if s: "s \<in> set (rq_ordered q)" for s
  proof -
    obtain p where p: "p \<in> set (cs_chunks s)" "pd_stream_sequence_number p = cs_ssn s"
      using q(4) s by (fastforce simp: ordered_inv_def set_inv_def neq_Nil_conv)
    have "p \<in> set (all_chunks (rq_ordered q))" using s p(1) by (auto simp: all_chunks_def)
    then have "p \<in> set acc" using mset_eq_setD [OF q(3)] by (auto simp: unread_def)
    then have "wire p \<in> set (concat M)" using q(2) by blast
    then obtain i where "i < length M" "pd_stream_sequence_number p = of_nat i" using message_index [OF M] by blast
    then show ?thesis using assms(3) p(2) by metis
  qed
  then have "ordered_inv (of_nat r) c ppi_of' (rq_ordered q)" using q(4) by (simp add: ordered_inv_def set_inv_def)
  moreover have "unread (M @ ms) r acc = unread M r acc" using q(1) by (simp add: unread_def)
  ultimately show ?thesis using assms(1) by (auto simp: queue_state_def)
qed

lemma receiver_ok_more:
  assumes "receiver_ok c ppi_of sis M r acc b" and "script_ok c ppi_of sis M"
    and "\<And>si. si \<in> set sis \<Longrightarrow> \<exists>ms. M' si = M si @ ms"
    and "\<And>si i. si \<in> set sis \<Longrightarrow> i < length (M si) \<Longrightarrow> ppi_of' si (of_nat i) = ppi_of si (of_nat i)"
  shows "receiver_ok c ppi_of' sis M' r acc b"
proof -
  have "queue_state (M' si) c (ppi_of' si) (r si) (of_stream si acc) (stream_queue b si)" if "si \<in> set sis" for si
  proof -
    obtain ms where "M' si = M si @ ms" using assms(3) \<open>si \<in> set sis\<close> by blast
    then show ?thesis
      using that assms(1,2,4) queue_state_more [of "M si" c "ppi_of si" "r si" "of_stream si acc" "stream_queue b si" "ppi_of' si" ms]
      by (simp add: receiver_ok_def script_ok_def)
  qed
  moreover have "script_chunk sis M' d" if d: "script_chunk sis M d" for d
  proof -
    obtain si where si: "si \<in> set sis" "wire d \<in> set (concat (M si))" using d by (auto simp: script_chunk_def)
    then obtain ms where "M' si = M si @ ms" using assms(3) by blast
    then show ?thesis using si by (auto simp: script_chunk_def intro!: bexI [of _ si])
  qed
  ultimately show ?thesis using assms(1) by (simp add: receiver_ok_def)
qed

end
