(* ===== verification/Network.thy ===== *)
theory Network
  imports In_Order "HOL-Library.Sublist"
begin

text \<open>
  Both ends and the network between them, all at once: the user of one end writes while its association
  sends, retransmits, is acknowledged and times out, and the user of the other end reads while
  datagrams arrive that the network has lost, repeated and reordered as it likes.
\<close>

section \<open>The messages of a stream\<close>

type_synonym message = "u16 \<times> bytes \<times> payload_protocol_identifier"

definition messages_on :: "u16 \<Rightarrow> (u16 \<times> 'a) list \<Rightarrow> 'a list" where
  "messages_on si ws = map snd (filter (\<lambda>w. fst w = si) ws)"

lemma messages_on_simps [simp]:
  "messages_on si [] = []" "messages_on si (ws @ vs) = messages_on si ws @ messages_on si vs"
  "messages_on si [w] = (if fst w = si then [snd w] else [])"
  by (simp_all add: messages_on_def)

text \<open>The fragments that the writes have made, message by message, in the order of all writes.\<close>

definition scripted :: "message list \<Rightarrow> payload_data list list \<Rightarrow> bool" where
  "scripted ws css \<longleftrightarrow> length css = length ws \<and>
     (\<forall>k < length ws. case ws ! k of (si, p, ppi) \<Rightarrow>
       message_of si (of_nat (length (messages_on si (take k ws)))) p ppi (css ! k))"

lemma scripted_Nil [simp]: "scripted [] css \<longleftrightarrow> css = []"
  by (auto simp: scripted_def)

lemma scripted_snoc:
  "scripted (ws @ [(si, p, ppi)]) (css @ [cs]) \<longleftrightarrow>
    scripted ws css \<and> message_of si (of_nat (length (messages_on si ws))) p ppi cs"
  by (auto simp: scripted_def nth_append less_Suc_eq all_conj_distrib split: prod.splits)

lemma scripted_snocE:
  assumes "scripted (ws @ [w]) css"
  obtains si p ppi css' cs where "w = (si, p, ppi)" "css = css' @ [cs]" "scripted ws css'"
    "message_of si (of_nat (length (messages_on si ws))) p ppi cs"
proof -
  have "css \<noteq> []" using assms by (auto simp: scripted_def)
  then obtain css' cs where "css = css' @ [cs]" by (metis append_butlast_last_id)
  moreover obtain si p ppi where "w = (si, p, ppi)" by (cases w)
  ultimately show thesis using that assms by (simp add: scripted_snoc)
qed

text \<open>What the wire carries of them, numbered from \<open>t\<close> on, and the part of one stream.\<close>

definition wire_messages :: "u32 \<Rightarrow> message list \<Rightarrow> payload_data list list \<Rightarrow> u16 \<Rightarrow> payload_data list list" where
  "wire_messages t ws css si = messages_on si (zip (map fst ws) (received 0 t css))"

lemma received_snoc:
  "received now t (css @ [cs]) = received now t css @ [map (payload_data_view now) (assign_tsns (t + of_nat (length (concat css))) cs)]"
  by (induction css arbitrary: t) (simp_all add: algebra_simps)

lemma wire_messages_snoc:
  assumes "length css = length ws"
  shows "wire_messages t (ws @ [w]) (css @ [cs]) si = wire_messages t ws css si @
    (if fst w = si then [map (payload_data_view 0) (assign_tsns (t + of_nat (length (concat css))) cs)] else [])"
  using assms by (simp add: wire_messages_def received_snoc)

definition total_bytes :: "message list \<Rightarrow> nat" where
  "total_bytes ws = sum_list (map (\<lambda>(si, p, ppi). length p) ws)"

text \<open>
  What a session may write: the serial numbers of the messages and of the fragments stay in the window
  of the first one.
\<close>

definition within_window :: "message list \<Rightarrow> bool" where
  "within_window ws \<longleftrightarrow> length ws \<le> 2 ^ 15 \<and> total_bytes ws \<le> 2 ^ 31"

lemma within_window_snoc: "within_window (ws @ [w]) \<Longrightarrow> within_window ws"
  by (simp add: within_window_def total_bytes_def)

lemma message_of_length:
  assumes "message_of si ssn p ppi cs"
  shows "length cs \<le> length p" and "data_bytes cs = length p"
proof -
  have "length cs \<le> data_bytes cs" if "\<forall>c \<in> set cs. pd_user_data c \<noteq> []" for cs
    using that by (induction cs) (auto simp: Suc_le_eq add_strict_increasing)
  moreover show b: "data_bytes cs = length p" using assms by (simp add: message_of_def length_message_data [symmetric])
  ultimately show "length cs \<le> length p" using assms unfolding b [symmetric] by (simp add: message_of_def)
qed

lemma scripted_length: "scripted ws css \<Longrightarrow> length (concat css) \<le> total_bytes ws"
proof (induction ws arbitrary: css rule: rev_induct)
  case (snoc w ws)
  then show ?case
    by (elim scripted_snocE) (use message_of_length(1) in \<open>fastforce simp: total_bytes_def\<close>)
qed simp

text \<open>The payload type of each message of a stream.\<close>

definition ppis :: "message list \<Rightarrow> u16 \<Rightarrow> u16 \<Rightarrow> payload_protocol_identifier" where
  "ppis ws si n = (let ms = messages_on si ws in if unat n < length ms then snd (ms ! unat n) else PPI_Unknown)"

lemma messages_from_append:
  "messages_from ssn c ppi_of (ms @ [m]) \<longleftrightarrow> messages_from ssn c ppi_of ms \<and>
    messages_from (ssn + of_nat (length ms)) c ppi_of [m]"
  by (induction ms arbitrary: ssn) (auto simp: algebra_simps)

lemma message_data_assign [simp]: "message_data (assign_tsns t cs) = message_data cs"
  by (induction cs arbitrary: t) simp_all

lemma new_message:
  assumes "message_of si ssn p ppi cs" and "n + length cs \<le> 2 ^ 31"
    and "m = map (payload_data_view 0) (assign_tsns (t + of_nat n) cs)"
  shows "fragments_of (t + of_nat n) m" and "pd_tsn (hd m) = t + of_nat n" and "message_data m = p" and "pd_payload_type (hd m) = ppi"
    and "data_bytes m = length p" and "distinct (map pd_tsn m)"
    and "\<forall>d \<in> set m. pd_stream_identifier d = si \<and> \<not> pd_unordered d \<and> pd_stream_sequence_number d = ssn \<and>
      pd_payload_type d = ppi \<and> in_window t (pd_tsn d) \<and> length (pd_user_data d) \<le> 65000 \<and>
      (\<exists>j. n \<le> j \<and> j < n + length cs \<and> pd_tsn d = t + of_nat j)"
proof -
  have cs: "cs \<noteq> []" "message_data cs = p" "bits_ok True cs" using assms(1) by (simp_all add: message_of_def)
  show fr: "fragments_of (t + of_nat n) m" unfolding assms(3) using assms(2) by (intro fragments_of_received cs) simp
  show "distinct (map pd_tsn m)" by (rule fragments_of_sorted(2) [OF fr])
  show "pd_tsn (hd m) = t + of_nat n" using cs(1) by (cases cs) (simp_all add: assms(3))
  have view: "message_data (map (payload_data_view 0) xs) = message_data xs" for xs by (induction xs) simp_all
  show md: "message_data m = p" by (simp add: assms(3) view cs(2))
  show "data_bytes m = length p" using md by (simp add: length_message_data [symmetric])
  show "pd_payload_type (hd m) = ppi" using assms(1) by (cases cs) (auto simp: assms(3) message_of_def)
  show "\<forall>d \<in> set m. pd_stream_identifier d = si \<and> \<not> pd_unordered d \<and> pd_stream_sequence_number d = ssn \<and>
      pd_payload_type d = ppi \<and> in_window t (pd_tsn d) \<and> length (pd_user_data d) \<le> 65000 \<and>
      (\<exists>j. n \<le> j \<and> j < n + length cs \<and> pd_tsn d = t + of_nat j)"
  proof
    fix d assume "d \<in> set m"
    then obtain c i where c: "c \<in> set cs" "i < length cs" "d = payload_data_view 0 (c\<lparr>pd_tsn := t + of_nat n + of_nat i\<rparr>)"
      using set_assign_tsns by (fastforce simp: assms(3))
    have "n + i < 2 ^ 31" using c(2) assms(2) by simp
    then have "in_window t (t + of_nat (n + i))" by (simp add: s32.window_unat unat_of_nat_less del: of_nat_add)
    then show "pd_stream_identifier d = si \<and> \<not> pd_unordered d \<and> pd_stream_sequence_number d = ssn \<and>
      pd_payload_type d = ppi \<and> in_window t (pd_tsn d) \<and> length (pd_user_data d) \<le> 65000 \<and>
      (\<exists>j. n \<le> j \<and> j < n + length cs \<and> pd_tsn d = t + of_nat j)"
      using c assms(1) by (auto simp: message_of_def add.assoc intro!: exI [of _ "n + i"])
  qed
qed

lemma wire_messages_spec:
  assumes "scripted ws css" and "within_window ws"
  shows "map (\<lambda>m. (message_data m, pd_payload_type (hd m))) (wire_messages t ws css si) = messages_on si ws \<and>
    (\<forall>ppi_of. (\<forall>i < length (messages_on si ws). ppi_of (of_nat i) = snd (messages_on si ws ! i)) \<longrightarrow>
      messages_from 0 t ppi_of (wire_messages t ws css si)) \<and>
    (\<forall>d \<in> set (concat (wire_messages t ws css si)). pd_stream_identifier d = si \<and> length (pd_user_data d) \<le> 65000 \<and>
      (\<exists>j < length (concat css). pd_tsn d = t + of_nat j)) \<and>
    distinct (map pd_tsn (concat (wire_messages t ws css si))) \<and> data_bytes (concat (wire_messages t ws css si)) \<le> total_bytes ws"
  using assms
proof (induction ws arbitrary: css rule: rev_induct)
  case Nil
  then show ?case by (simp add: wire_messages_def total_bytes_def)
next
  case (snoc w ws)
  obtain si' p ppi css' cs where w: "w = (si', p, ppi)" "css = css' @ [cs]" "scripted ws css'"
      "message_of si' (of_nat (length (messages_on si' ws))) p ppi cs"
    using snoc.prems(1) by (rule scripted_snocE)
  note IH = snoc.IH [OF w(3) within_window_snoc [OF snoc.prems(2)]]
  let ?n = "length (concat css')"
  define m where "m = map (payload_data_view 0) (assign_tsns (t + of_nat ?n) cs)"
  have len: "?n + length cs \<le> 2 ^ 31"
    using scripted_length [OF snoc.prems(1)] snoc.prems(2) by (simp add: w(2) within_window_def)
  note m = new_message [OF w(4) len m_def]
  have wm: "wire_messages t (ws @ [(si', p, ppi)]) css si = wire_messages t ws css' si @ (if si' = si then [m] else [])"
    using w(3) by (simp add: w(2) wire_messages_snoc scripted_def m_def)
  have tb: "total_bytes (ws @ [(si', p, ppi)]) = total_bytes ws + length p" by (simp add: total_bytes_def)
  have wl: "length (wire_messages t ws css' si) = length (messages_on si ws)" using IH by (metis length_map)
  have grow: "\<exists>j < length (concat css). x = t + of_nat j" if "\<exists>j < ?n. x = t + of_nat j" for x
    using that by (auto simp: w(2) intro: exI trans_less_add1)
  show ?case
  proof (cases "si' = si")
    case False
    then have "wire_messages t (ws @ [(si', p, ppi)]) css si = wire_messages t ws css' si"
        "messages_on si (ws @ [(si', p, ppi)]) = messages_on si ws" by (simp_all add: wm)
    then show ?thesis using IH grow unfolding w(1) tb by (simp only:) (meson trans_le_add1)
  next
    case True
    have "messages_from 0 t ppi_of (wire_messages t ws css' si @ [m])"
      if agree: "\<forall>i < length (messages_on si (ws @ [(si', p, ppi)])).
          ppi_of (of_nat i) = snd (messages_on si (ws @ [(si', p, ppi)]) ! i)" for ppi_of
    proof -
      have "\<forall>i < length (messages_on si ws). ppi_of (of_nat i) = snd (messages_on si ws ! i)"
        using agree by (auto simp: nth_append True)
      moreover have "ppi_of (of_nat (length (messages_on si ws))) = ppi" using agree by (auto simp: nth_append True)
      ultimately show ?thesis
        using IH m(1,2,7) True by (auto simp: messages_from_append wl list_all_iff)
    qed
    moreover have "distinct (map pd_tsn (concat (wire_messages t ws css' si) @ m))"
    proof -
      have "pd_tsn d \<noteq> pd_tsn e" if de: "d \<in> set (concat (wire_messages t ws css' si))" "e \<in> set m" for d e
      proof
        assume eq: "pd_tsn d = pd_tsn e"
        obtain j where j: "j < ?n" "pd_tsn d = t + of_nat j" using IH de(1) by blast
        obtain k where k: "?n \<le> k" "k < ?n + length cs" "pd_tsn e = t + of_nat k" using m(7) de(2) by blast
        have "(of_nat j :: u32) = of_nat k" using eq j(2) k(3) by simp
        moreover have "unat (of_nat j :: u32) = j" "unat (of_nat k :: u32) = k" using j(1) k(2) len by (simp_all add: unat_of_nat_less)
        ultimately show False using j(1) k(1) by (metis not_less)
      qed
      then show ?thesis using IH m(6) by (auto simp: disjoint_iff)
    qed
    moreover have "\<forall>d \<in> set m. pd_stream_identifier d = si \<and> length (pd_user_data d) \<le> 65000 \<and>
        (\<exists>j < length (concat css). pd_tsn d = t + of_nat j)"
      using m(7) True by (auto simp: w(2))
    ultimately show ?thesis
      using IH grow m(3,4,5) True unfolding w(1) wm tb by (simp add: ball_Un)
  qed
qed

lemma scripted_nth:
  assumes "scripted ws css" and "cs \<in> set css"
  obtains si ssn p ppi where "message_of si ssn p ppi cs" and "si \<in> fst ` set ws"
proof -
  obtain k where k: "k < length css" "cs = css ! k" using assms(2) by (auto simp: in_set_conv_nth)
  moreover obtain si p ppi where "ws ! k = (si, p, ppi)" by (cases "ws ! k")
  moreover have "k < length ws" using assms(1) k by (simp add: scripted_def)
  ultimately show thesis using that assms(1) by (force simp: scripted_def dest: nth_mem)
qed

lemma scripted_with_data: "scripted ws css \<Longrightarrow> with_data (concat css)"
  by (fastforce simp: with_data_def message_of_def elim: scripted_nth)

lemma numbered_received: "numbered t (concat css) = set (concat (received 0 t css))"
  using concat_received [of 0 t css] by (simp add: numbered_def wire_def)

text \<open>Every chunk that is sent belongs to one of the streams that have been written.\<close>

lemma numbered_script:
  assumes "scripted ws css" and "fst ` set ws \<subseteq> set sis" and "wire d \<in> numbered t (concat css)"
  shows "script_chunk sis (wire_messages t ws css) d"
proof -
  obtain m where m: "m \<in> set (received 0 t css)" "wire d \<in> set m" using assms(3) by (auto simp: numbered_received)
  then obtain k where k: "k < length css" "m = received 0 t css ! k" by (auto simp: in_set_conv_nth)
  moreover have "length css = length ws" using assms(1) by (simp add: scripted_def)
  ultimately have "(fst (ws ! k), m) \<in> set (zip (map fst ws) (received 0 t css))" by (auto simp: set_zip intro!: exI [of _ k])
  then have "m \<in> set (wire_messages t ws css (fst (ws ! k)))" by (force simp: wire_messages_def messages_on_def)
  moreover have "fst (ws ! k) \<in> set sis" using assms(2) k(1) \<open>length css = length ws\<close> by auto
  ultimately show ?thesis using m(2) by (auto simp: script_chunk_def)
qed

lemma messages_on_length: "length (messages_on si ws) \<le> length ws"
  by (simp add: messages_on_def)

lemma script_of_writes:
  assumes "scripted ws css" and "within_window ws"
  shows "script_ok t (ppis ws) sis (wire_messages t ws css)"
    and "script_chunk sis (wire_messages t ws css) d \<Longrightarrow> fits_chunk d"
    and "map (\<lambda>m. (message_data m, pd_payload_type (hd m))) (wire_messages t ws css si) = messages_on si ws"
proof -
  note spec = wire_messages_spec [OF assms, of t]
  have "messages_ok t (ppis ws si) (wire_messages t ws css si) \<and>
      (\<forall>d \<in> set (concat (wire_messages t ws css si)). pd_stream_identifier d = si)" for si
  proof -
    have l: "length (messages_on si ws) \<le> 2 ^ 15"
      using assms(2) messages_on_length [of si ws] by (simp add: within_window_def)
    have "unat (of_nat i :: u16) = i" if "i < length (messages_on si ws)" for i
      using that l by (simp add: unat_of_nat_u16)
    then have "\<forall>i < length (messages_on si ws). ppis ws si (of_nat i) = snd (messages_on si ws ! i)"
      by (simp add: ppis_def Let_def)
    moreover have "length (wire_messages t ws css si) = length (messages_on si ws)" using spec [of si] by (metis length_map)
    moreover have "data_bytes (concat (wire_messages t ws css si)) < 2 ^ 64"
      using spec [of si] assms(2) by (simp add: within_window_def)
    ultimately show ?thesis using spec [of si] l by (simp add: messages_ok_def)
  qed
  then show "script_ok t (ppis ws) sis (wire_messages t ws css)" by (simp add: script_ok_def)
  show "map (\<lambda>m. (message_data m, pd_payload_type (hd m))) (wire_messages t ws css si) = messages_on si ws"
    using spec by blast
  assume "script_chunk sis (wire_messages t ws css) d"
  then obtain si where "wire d \<in> set (concat (wire_messages t ws css si))" by (auto simp: script_chunk_def)
  then have "length (pd_user_data (wire d)) \<le> 65000" using spec [of si] by blast
  then show "fits_chunk d" by (simp add: fits_chunk_def payload_data_value_length_def)
qed

section \<open>The network\<close>

text \<open>
  One direction of a session whose streams are open: the association that sends with the handles of its
  streams, the messages that have been written, the datagrams with data that have been sent, the association that
  receives, and what its user has read.
\<close>

record network =
  nw_sender :: association
  nw_handles :: "(u16, stream) hmap"
  nw_written :: "message list"
  nw_sent :: "bytes list"
  nw_receiver :: association
  nw_read :: "(u16 \<times> (bytes \<times> payload_protocol_identifier) outcome) list"

text \<open>
  What of a stream its writer depends on; the association's tasks change only the rest.  They reach the stream
  through the association's map of streams, which the writer does not need.
\<close>

definition writer_part :: "stream \<Rightarrow> u16 \<times> bool \<times> u32 \<times> u16" where
  "writer_part s = (st_stream_identifier s, st_unordered s, st_max_payload_size s, st_sequence_number s)"

text \<open>
  The steps, in any order.  The sender may receive any bytes whatever, and any of its timers may fire.  The
  network delivers any datagram that has been sent, however often and however late, or none; and to the
  receiver also what is not data: damaged datagrams and any that start, end and reset nothing.
  \<open>buf_len\<close> is the size of the reader's buffer, which is large enough for the messages.
\<close>

inductive net_step ::
  "(bytes \<Rightarrow> u32) \<Rightarrow> (real \<Rightarrow> real) \<Rightarrow> nat \<Rightarrow> network \<Rightarrow> network \<Rightarrow> bool" for crc rnd buf_len where
  user_writes: "hm_get (nw_handles w) si = Some s \<Longrightarrow> p \<noteq> [] \<Longrightarrow> length p \<le> buf_len \<Longrightarrow>
    within_window (nw_written w @ [(si, p, ppi)]) \<Longrightarrow> write_sctp s (nw_sender w) now p ppi = Some (Ok n, s', a) \<Longrightarrow>
    net_step crc rnd buf_len w (w\<lparr>nw_sender := a, nw_handles := hm_insert si s' (nw_handles w),
      nw_written := nw_written w @ [(si, p, ppi)]\<rparr>)"
| touch: "hm_get (nw_handles w) si = Some s \<Longrightarrow> writer_part s' = writer_part s \<Longrightarrow>
    net_step crc rnd buf_len w (w\<lparr>nw_handles := hm_insert si s' (nw_handles w),
      nw_sender := (nw_sender w)\<lparr>as_streams := ss\<rparr>\<rparr>)"
| sender_receives:
    "net_step crc rnd buf_len w (w\<lparr>nw_sender := snd (handle_inbound crc rnd now random32 raw (nw_sender w))\<rparr>)"
| sender_timer: "net_step crc rnd buf_len w (w\<lparr>nw_sender := timer_event i loop (nw_sender w)\<rparr>)"
| sender_ack_timer: "net_step crc rnd buf_len w (w\<lparr>nw_sender := ack_timer_fires i (nw_sender w)\<rparr>)"
| send: "gather_outbound crc now (nw_sender w) = Some (Ok (raws, ok), a) \<Longrightarrow>
    net_step crc rnd buf_len w (w\<lparr>nw_sender := a,
      nw_sent := nw_sent w @ filter (\<lambda>raw. starts_with_data raw \<and> raw \<notin> set (control_raws crc (nw_sender w))) raws\<rparr>)"
| deliver: "raw \<in> set (nw_sent w) \<Longrightarrow>
    net_step crc rnd buf_len w (w\<lparr>nw_receiver := snd (handle_inbound crc rnd now random32 raw (nw_receiver w))\<rparr>)"
| control: "\<forall>p. packet_unmarshal crc now raw = Ok p \<longrightarrow> (\<forall>c \<in> set (pk_chunks p). peaceful c) \<Longrightarrow>
    net_step crc rnd buf_len w (w\<lparr>nw_receiver := snd (handle_inbound crc rnd now random32 raw (nw_receiver w))\<rparr>)"
| user_reads: "si \<in> set (hm_keys (nw_handles w)) \<Longrightarrow> read_message si buf_len (nw_receiver w) = Some (res, b) \<Longrightarrow>
    net_step crc rnd buf_len w (w\<lparr>nw_receiver := b, nw_read := nw_read w @ [(si, res)]\<rparr>)"
| receiver_sends: "gather_outbound crc now (nw_receiver w) = Some res \<Longrightarrow>
    net_step crc rnd buf_len w (w\<lparr>nw_receiver := snd res\<rparr>)"
| receiver_timer: "net_step crc rnd buf_len w (w\<lparr>nw_receiver := timer_event i loop (nw_receiver w)\<rparr>)"
| receiver_ack_timer: "net_step crc rnd buf_len w (w\<lparr>nw_receiver := ack_timer_fires i (nw_receiver w)\<rparr>)"

inductive net_run ::
  "(bytes \<Rightarrow> u32) \<Rightarrow> (real \<Rightarrow> real) \<Rightarrow> nat \<Rightarrow> network \<Rightarrow> network \<Rightarrow> bool" for crc rnd buf_len where
  start: "net_run crc rnd buf_len v v"
| step: "net_run crc rnd buf_len v w \<Longrightarrow> net_step crc rnd buf_len w w' \<Longrightarrow> net_run crc rnd buf_len v w'"

text \<open>The start: nothing is pending, in flight or received, and the receiver awaits the sender's first TSN.\<close>

definition net_start :: "network \<Rightarrow> bool" where
  "net_start w \<longleftrightarrow> nw_written w = [] \<and> nw_sent w = [] \<and> nw_read w = [] \<and>
     pq_chunk_map (as_inflight_queue (nw_sender w)) = [] \<and>
     pg_ordered_queue (sh_pending_queue (nw_sender w)) = [] \<and> pg_unordered_queue (sh_pending_queue (nw_sender w)) = [] \<and>
     receiver_inv (nw_receiver w) \<and> tsns_above (nw_receiver w) = {} \<and> as_reconfig_requests (nw_receiver w) = [] \<and>
     as_peer_last_tsn (nw_receiver w) + 1 = as_my_next_tsn (nw_sender w) \<and>
     (\<forall>si s. hm_get (nw_handles w) si = Some s \<longrightarrow> ordered_writer si s \<and> st_sequence_number s = 0 \<and>
       stream_queue (nw_receiver w) si = reassembly_queue_new si)"

section \<open>The invariant\<close>

definition writers_ok :: "(u16, stream) hmap \<Rightarrow> message list \<Rightarrow> bool" where
  "writers_ok hs ws \<longleftrightarrow> fst ` set ws \<subseteq> set (hm_keys hs) \<and>
     (\<forall>si s. hm_get hs si = Some s \<longrightarrow> ordered_writer si s \<and> st_sequence_number s = of_nat (length (messages_on si ws)))"

definition reads_ok :: "nat \<Rightarrow> u16 list \<Rightarrow> message list \<Rightarrow> (u16 \<times> (bytes \<times> payload_protocol_identifier) outcome) list \<Rightarrow> bool" where
  "reads_ok buf_len sis ws rs \<longleftrightarrow> (\<forall>(si, p, ppi) \<in> set ws. length p \<le> buf_len) \<and> fst ` set rs \<subseteq> set sis \<and>
     (\<forall>si. prefix (messages_on si rs) (map Ok (messages_on si ws)))"

definition net_ok ::
  "(bytes \<Rightarrow> u32) \<Rightarrow> nat \<Rightarrow> u32 \<Rightarrow> payload_data list list \<Rightarrow> network \<Rightarrow> bool" where
  "net_ok crc buf_len t css w \<longleftrightarrow> scripted (nw_written w) css \<and> within_window (nw_written w) \<and>
     writers_ok (nw_handles w) (nw_written w) \<and>
     sender_ok t (concat css) (length (concat css)) (nw_sender w) \<and>
     (\<forall>raw \<in> set (nw_sent w). starts_with_data raw \<and> datagram_of crc (\<lambda>d. d \<in> numbered t (concat css)) raw) \<and>
     (\<exists>acc. receiver_ok t (ppis (nw_written w)) (hm_keys (nw_handles w)) (wire_messages t (nw_written w) css)
       (\<lambda>si. length (messages_on si (nw_read w))) acc (nw_receiver w)) \<and>
     reads_ok buf_len (hm_keys (nw_handles w)) (nw_written w) (nw_read w)"

lemma net_ok_start:
  assumes "net_start w"
  shows "net_ok crc buf_len (as_my_next_tsn (nw_sender w)) [] w"
proof -
  let ?t = "as_my_next_tsn (nw_sender w)"
  have "accepted ?t [] (nw_receiver w)"
    using assms by (auto simp: net_start_def accepted_def intro!: exI [of _ "0 :: nat"])
  moreover have "queue_state [] ?t ppi_of 0 [] (reassembly_queue_new si)" for ppi_of si
    by (simp add: queue_state_def reassembly_queue_new_def ordered_inv_def all_chunks_def unread_def)
  moreover have "rq_si (reassembly_queue_new si) = si" for si by (simp add: reassembly_queue_new_def)
  moreover have "stream_queue (nw_receiver w) si = reassembly_queue_new si" if "si \<in> set (hm_keys (nw_handles w))" for si
    using that assms unfolding net_start_def by (metis map_of_eq_None_iff list.set_map not_None_eq)
  ultimately have "receiver_ok ?t (ppis []) (hm_keys (nw_handles w)) (wire_messages ?t [] []) (\<lambda>_. 0) [] (nw_receiver w)"
    using assms by (simp add: receiver_ok_def net_start_def wire_messages_def of_stream_def)
  then show ?thesis
    using assms
    by (auto simp: net_ok_def net_start_def writers_ok_def reads_ok_def sender_ok_def flight_ok_def payload_queue_get_def
        within_window_def total_bytes_def)
qed

text \<open>A change of one of the two ends alone.\<close>

lemma net_ok_sender:
  "net_ok crc buf_len t css w \<Longrightarrow>
    (sender_ok t (concat css) (length (concat css)) (nw_sender w) \<Longrightarrow> sender_ok t (concat css) (length (concat css)) a) \<Longrightarrow>
    net_ok crc buf_len t css (w\<lparr>nw_sender := a\<rparr>)"
  by (simp add: net_ok_def)

lemma net_ok_receiver:
  "net_ok crc buf_len t css w \<Longrightarrow>
    (\<And>ppi_of sis M r acc. script_ok t ppi_of sis M \<Longrightarrow>
      (\<And>d. d \<in> numbered t (concat css) \<Longrightarrow> script_chunk sis M d) \<Longrightarrow> (\<And>d. script_chunk sis M d \<Longrightarrow> fits_chunk d) \<Longrightarrow>
      receiver_ok t ppi_of sis M r acc (nw_receiver w) \<Longrightarrow> \<exists>acc'. receiver_ok t ppi_of sis M r acc' b) \<Longrightarrow>
    net_ok crc buf_len t css (w\<lparr>nw_receiver := b\<rparr>)"
proof -
  assume ok: "net_ok crc buf_len t css w"
    and step: "\<And>ppi_of sis M r acc. script_ok t ppi_of sis M \<Longrightarrow>
      (\<And>d. d \<in> numbered t (concat css) \<Longrightarrow> script_chunk sis M d) \<Longrightarrow> (\<And>d. script_chunk sis M d \<Longrightarrow> fits_chunk d) \<Longrightarrow>
      receiver_ok t ppi_of sis M r acc (nw_receiver w) \<Longrightarrow> \<exists>acc'. receiver_ok t ppi_of sis M r acc' b"
  let ?sis = "hm_keys (nw_handles w)" and ?M = "wire_messages t (nw_written w) css"
  have sc: "scripted (nw_written w) css" "within_window (nw_written w)" "fst ` set (nw_written w) \<subseteq> set ?sis"
    using ok by (simp_all add: net_ok_def writers_ok_def)
  obtain acc where acc: "receiver_ok t (ppis (nw_written w)) ?sis ?M (\<lambda>si. length (messages_on si (nw_read w))) acc (nw_receiver w)"
    using ok unfolding net_ok_def by blast
  have "script_chunk ?sis ?M d" if d: "d \<in> numbered t (concat css)" for d
  proof -
    have "wire d = d" using d by (auto simp: numbered_def)
    then show ?thesis using numbered_script [OF sc(1,3), of d t] d by simp
  qed
  then have "\<exists>acc'. receiver_ok t (ppis (nw_written w)) ?sis ?M (\<lambda>si. length (messages_on si (nw_read w))) acc' b"
    by (rule step [OF script_of_writes(1) [OF sc(1,2)] _ script_of_writes(2) [OF sc(1,2)] acc])
  then show ?thesis using ok by (simp add: net_ok_def)
qed

text \<open>What is delivered to the receiver: damaged, a datagram of the sender, or no data.\<close>

lemma receiver_ok_datagram:
  assumes "script_ok t ppi_of sis M" and "receiver_ok t ppi_of sis M r acc b"
    and "\<And>p. packet_unmarshal crc now raw = Ok p \<Longrightarrow> \<forall>ch \<in> set (pk_chunks p). allowed_chunk sis M ch"
  shows "\<exists>acc'. receiver_ok t ppi_of sis M r acc' (snd (handle_inbound crc rnd now random32 raw b))"
proof (cases "packet_unmarshal crc now raw")
  case (Ok p)
  then show ?thesis using receiver_ok_inbound [OF assms(1,2) Ok] assms(3) by blast
qed (use assms(2) in \<open>auto simp: handle_inbound_def\<close>)

lemma receiver_ok_delivered:
  assumes "script_ok t ppi_of sis M" and "\<And>d. d \<in> numbered t W \<Longrightarrow> script_chunk sis M d"
    and "\<And>d. script_chunk sis M d \<Longrightarrow> fits_chunk d" and "receiver_ok t ppi_of sis M r acc b"
    and "starts_with_data raw" and "datagram_of crc (\<lambda>d. d \<in> numbered t W) raw"
  shows "\<exists>acc'. receiver_ok t ppi_of sis M r acc' (snd (handle_inbound crc rnd now random32 raw b))"
proof (rule receiver_ok_datagram [OF assms(1,4)])
  fix p assume p: "packet_unmarshal crc now raw = Ok p"
  have sc: "script_chunk sis M d" if "wire d \<in> numbered t W" for d
    using assms(2) [OF that] by (simp add: script_chunk_def)
  obtain ds where "pk_chunks p = map ChunkPayloadData ds" "\<forall>d \<in> set ds. wire d \<in> numbered t W"
    using datagram_decoded [OF assms(6) _ assms(5) p] assms(3) sc by blast
  then show "\<forall>ch \<in> set (pk_chunks p). allowed_chunk sis M ch" using sc by (auto simp: allowed_chunk_def)
qed

section \<open>Writing\<close>

lemma numbered_more: "numbered t (concat css) \<subseteq> numbered t (concat (css @ [cs]))"
  by (auto simp: numbered_def assign_tsns_append)

lemma datagram_of_mono: "datagram_of crc P raw \<Longrightarrow> (\<And>d. P d \<Longrightarrow> Q d) \<Longrightarrow> datagram_of crc Q raw"
  by (fastforce simp: datagram_of_def packet_of_def)

lemma sender_ok_more:
  assumes "sender_ok t W (length W) a"
  shows "sender_ok t (W @ cs) (length W) a"
proof -
  have n: "numbered t W \<subseteq> numbered t (W @ cs)" by (auto simp: numbered_def assign_tsns_append)
  have "flight_ok (\<lambda>d. d \<in> numbered t (W @ cs)) q" if "flight_ok (\<lambda>d. d \<in> numbered t W) q" for q
    using that n unfolding flight_ok_def flight_chunk_def by (meson subsetD)
  then show ?thesis using assms by (auto simp: sender_ok_def)
qed

lemma keys_insert: "hm_get m k = Some v \<Longrightarrow> hm_keys (hm_insert k v' m) = hm_keys m"
  by (induction m) (auto split: if_splits)

lemma net_ok_write:
  assumes ok: "net_ok crc buf_len t css w" and s: "hm_get (nw_handles w) si = Some s"
    and p: "p \<noteq> []" "length p \<le> buf_len" and win: "within_window (nw_written w @ [(si, p, ppi)])"
    and wr: "write_sctp s (nw_sender w) now p ppi = Some (Ok n, s', a)"
  obtains cs where "net_ok crc buf_len t (css @ [cs]) (w\<lparr>nw_sender := a, nw_handles := hm_insert si s' (nw_handles w),
      nw_written := nw_written w @ [(si, p, ppi)]\<rparr>)"
proof -
  let ?ws = "nw_written w" and ?sis = "hm_keys (nw_handles w)" and ?ws' = "nw_written w @ [(si, p, ppi)]"
  have S: "ordered_writer si s" "st_sequence_number s = of_nat (length (messages_on si ?ws))"
    using ok s by (simp_all add: net_ok_def writers_ok_def)
  obtain cs where cs: "message_of si (st_sequence_number s) p ppi cs"
      "sh_pending_queue a = pending_push_all (sh_pending_queue (nw_sender w)) cs"
      "st_sequence_number s' = st_sequence_number s + 1" "ordered_writer si s'"
    by (rule write_makes_message [OF wr S(1) p(1)])
  have sc: "scripted ?ws css" "within_window ?ws" "fst ` set ?ws \<subseteq> set ?sis"
    using ok by (simp_all add: net_ok_def writers_ok_def)
  have sc': "scripted ?ws' (css @ [cs])" using sc(1) cs(1) S(2) by (simp add: scripted_snoc)
  have keys: "hm_keys (hm_insert si s' (nw_handles w)) = ?sis" using s by (rule keys_insert)
  have key: "si \<in> set ?sis" using s by (force dest: map_of_SomeD)
  have "writers_ok (hm_insert si s' (nw_handles w)) ?ws'"
    using ok cs(3,4) S(2) key by (auto simp: net_ok_def writers_ok_def keys update_conv' split: if_splits)
  moreover have "sender_ok t (concat (css @ [cs])) (length (concat (css @ [cs]))) a"
  proof -
    have "sender_ok t (concat css) (length (concat css)) (nw_sender w)" using ok by (simp add: net_ok_def)
    from sender_ok_more [OF this, of cs] have "sender_ok t (concat css @ cs) (length (concat css)) (nw_sender w)" .
    from sender_ok_write [OF this wr cs(1,2)] show ?thesis by simp
  qed
  moreover have "\<forall>raw \<in> set (nw_sent w). starts_with_data raw \<and> datagram_of crc (\<lambda>d. d \<in> numbered t (concat (css @ [cs]))) raw"
    using ok numbered_more [of t css cs] unfolding net_ok_def by (meson datagram_of_mono subsetD)
  moreover have "\<exists>acc. receiver_ok t (ppis ?ws') ?sis (wire_messages t ?ws' (css @ [cs]))
       (\<lambda>si. length (messages_on si (nw_read w))) acc (nw_receiver w)"
  proof -
    have "length css = length ?ws" using sc(1) by (simp add: scripted_def)
    note more = wire_messages_snoc [OF this, of t "(si, p, ppi)" cs]
    have l: "length (wire_messages t ?ws css x) = length (messages_on x ?ws)" for x
      using script_of_writes(3) [OF sc(1,2), of t x] by (metis length_map)
    have same: "ppis ?ws' x (of_nat i) = ppis ?ws x (of_nat i)" if "i < length (wire_messages t ?ws css x)" for x i
    proof -
      have "i < 2 ^ 16" using that sc(2) messages_on_length [of x ?ws] by (simp add: l within_window_def)
      then have "unat (of_nat i :: u16) = i" by (simp add: unat_of_nat_u16)
      then show ?thesis using that by (simp add: ppis_def Let_def l nth_append)
    qed
    obtain acc where acc: "receiver_ok t (ppis ?ws) ?sis (wire_messages t ?ws css)
        (\<lambda>si. length (messages_on si (nw_read w))) acc (nw_receiver w)" using ok unfolding net_ok_def by blast
    have "receiver_ok t (ppis ?ws') ?sis (wire_messages t ?ws' (css @ [cs]))
        (\<lambda>si. length (messages_on si (nw_read w))) acc (nw_receiver w)"
      by (rule receiver_ok_more [OF acc script_of_writes(1) [OF sc(1,2)]]) (use more in blast, use same in blast)
    then show ?thesis ..
  qed
  moreover have "reads_ok buf_len ?sis ?ws' (nw_read w)"
    using ok p(2) by (auto simp: net_ok_def reads_ok_def)
  ultimately show thesis using sc' win by (intro that [of cs]) (simp add: net_ok_def keys)
qed

section \<open>Reading\<close>

lemma messages_on_fst: "x \<in> set (messages_on si ws) \<Longrightarrow> (si, x) \<in> set ws"
  by (auto simp: messages_on_def)

lemma wire_message_nth:
  assumes "scripted ws css" and "within_window ws"
  shows "length (wire_messages t ws css si) = length (messages_on si ws)"
    and "k < length (messages_on si ws) \<Longrightarrow>
      (message_data (wire_messages t ws css si ! k), pd_payload_type (hd (wire_messages t ws css si ! k))) = messages_on si ws ! k"
proof -
  note spec = script_of_writes(3) [OF assms, of t si]
  show n: "length (wire_messages t ws css si) = length (messages_on si ws)" using spec by (metis length_map)
  show "k < length (messages_on si ws) \<Longrightarrow>
      (message_data (wire_messages t ws css si ! k), pd_payload_type (hd (wire_messages t ws css si ! k))) = messages_on si ws ! k"
    using arg_cong [OF spec, of "\<lambda>xs. xs ! k"] n by simp
qed

lemma messages_fit_buffer:
  assumes "scripted ws css" and "within_window ws" and "reads_ok buf_len sis ws rs"
  shows "\<forall>m \<in> set (wire_messages t ws css si). data_bytes m \<le> buf_len"
proof -
  have "data_bytes (wire_messages t ws css si ! k) \<le> buf_len" if "k < length (wire_messages t ws css si)" for k
  proof -
    have "(message_data (wire_messages t ws css si ! k), pd_payload_type (hd (wire_messages t ws css si ! k))) \<in> set (messages_on si ws)"
      using wire_message_nth [OF assms(1,2), where t = t and si = si] that by simp
    then have "length (message_data (wire_messages t ws css si ! k)) \<le> buf_len"
      using messages_on_fst assms(3) by (fastforce simp: reads_ok_def)
    then show ?thesis by (simp add: length_message_data)
  qed
  then show ?thesis by (auto simp: in_set_conv_nth)
qed

lemma net_ok_read:
  assumes ok: "net_ok crc buf_len t css w" and si: "si \<in> set (hm_keys (nw_handles w))"
    and read: "read_message si buf_len (nw_receiver w) = Some (res, b)"
  shows "net_ok crc buf_len t css (w\<lparr>nw_receiver := b, nw_read := nw_read w @ [(si, res)]\<rparr>)"
proof -
  let ?ws = "nw_written w" and ?sis = "hm_keys (nw_handles w)" and ?M = "wire_messages t (nw_written w) css"
    and ?r = "\<lambda>si. length (messages_on si (nw_read w))"
  have sc: "scripted ?ws css" "within_window ?ws" using ok by (simp_all add: net_ok_def)
  note msgs = wire_message_nth [OF sc, where t = t and si = si]
  have R: "reads_ok buf_len ?sis ?ws (nw_read w)" using ok by (simp add: net_ok_def)
  have "\<forall>m \<in> set (?M si). data_bytes m \<le> buf_len" by (rule messages_fit_buffer [OF sc R])
  moreover obtain acc where "receiver_ok t (ppis ?ws) ?sis ?M ?r acc (nw_receiver w)" using ok unfolding net_ok_def by blast
  ultimately have "?r si < length (?M si) \<and> res = Ok (message_data (?M si ! ?r si), pd_payload_type (hd (?M si ! ?r si))) \<and>
      receiver_ok t (ppis ?ws) ?sis ?M (?r(si := Suc (?r si))) acc b"
    using receiver_ok_read [OF script_of_writes(1) [OF sc] _ si _ read] by blast
  then have read': "?r si < length (messages_on si ?ws)" "res = Ok (messages_on si ?ws ! ?r si)"
      "receiver_ok t (ppis ?ws) ?sis ?M (?r(si := Suc (?r si))) acc b" using msgs by auto
  have "(\<lambda>x. length (messages_on x (nw_read w @ [(si, res)]))) = ?r(si := Suc (?r si))" by auto
  moreover have "prefix (messages_on x (nw_read w @ [(si, res)])) (map Ok (messages_on x ?ws))" for x
  proof -
    have pre: "prefix (messages_on x (nw_read w)) (map Ok (messages_on x ?ws))" using R by (simp add: reads_ok_def)
    then show ?thesis
    proof (cases "x = si")
      case True
      have "take (Suc (?r si)) (map Ok (messages_on si ?ws)) = messages_on si (nw_read w) @ [res]"
        using pre read'(1,2) unfolding True by (auto simp: take_Suc_conv_app_nth prefix_def)
      then show ?thesis unfolding True by (simp del: take_map) (metis take_is_prefix)
    qed simp
  qed
  ultimately show ?thesis using ok R si read'(3) by (auto simp: net_ok_def reads_ok_def)
qed

section \<open>Every step\<close>

lemma sent_by_gather:
  assumes "net_ok crc buf_len t css w" and "gather_outbound crc now (nw_sender w) = Some (Ok (raws, ok), a)"
  shows "net_ok crc buf_len t css (w\<lparr>nw_sender := a,
    nw_sent := nw_sent w @ filter (\<lambda>raw. starts_with_data raw \<and> raw \<notin> set (control_raws crc (nw_sender w))) raws\<rparr>)"
proof -
  have "scripted (nw_written w) css" using assms(1) by (simp add: net_ok_def)
  then have "with_data (concat css)" by (rule scripted_with_data)
  then show ?thesis
    using gather_sends [OF assms(2)] assms(1) by (auto simp: net_ok_def raws_ok_def)
qed

lemma net_ok_step:
  assumes "net_step crc rnd buf_len w w'" and "net_ok crc buf_len t css w"
  shows "\<exists>css'. net_ok crc buf_len t css' w'"
  using assms
proof (induction rule: net_step.induct)
  case (user_writes w si s p ppi now n s' a)
  then show ?case by (metis net_ok_write)
next
  case (touch w si s s' ss)
  have "si \<in> set (hm_keys (nw_handles w))" using touch(1) by (force dest: map_of_SomeD)
  then have "writers_ok (hm_insert si s' (nw_handles w)) (nw_written w)"
    using touch
    by (auto simp: net_ok_def writers_ok_def keys_insert [OF touch(1)] update_conv' writer_part_def ordered_writer_def split: if_splits)
  then have "net_ok crc buf_len t css (w\<lparr>nw_handles := hm_insert si s' (nw_handles w),
      nw_sender := (nw_sender w)\<lparr>as_streams := ss\<rparr>\<rparr>)"
    using touch(3) by (simp add: net_ok_def keys_insert [OF touch(1)] sender_ok_def)
  then show ?case ..
next
  case (sender_receives w now random32 raw)
  then show ?case by (blast intro: net_ok_sender sender_ok_inbound)
next
  case (sender_timer w i loop)
  then show ?case by (blast intro: net_ok_sender sender_ok_timer)
next
  case (sender_ack_timer w i)
  then show ?case by (blast intro: net_ok_sender sender_ok_aside aside_ack_fires)
next
  case (send now w raws ok a)
  then show ?case by (blast intro: sent_by_gather)
next
  case (deliver raw w now random32)
  then have "starts_with_data raw \<and> datagram_of crc (\<lambda>d. d \<in> numbered t (concat css)) raw" by (simp add: net_ok_def)
  then show ?case by (intro exI [of _ css] net_ok_receiver [OF deliver(2)] receiver_ok_delivered) blast+
next
  case (control now raw w random32)
  then show ?case
    by (intro exI [of _ css] net_ok_receiver [OF control(2)] receiver_ok_datagram) (auto simp: allowed_chunk_def)
next
  case (user_reads si w res b)
  then show ?case by (blast intro: net_ok_read)
next
  case (receiver_sends now w res)
  then show ?case by (intro exI [of _ css] net_ok_receiver) (auto intro: receiver_ok_gather)
next
  case (receiver_timer w i loop)
  then show ?case by (intro exI [of _ css] net_ok_receiver) (auto intro: receiver_ok_view timer_event_view)
next
  case (receiver_ack_timer w i)
  then show ?case by (intro exI [of _ css] net_ok_receiver) (auto intro: receiver_ok_view ack_timer_fires_view)
qed

lemma net_ok_run:
  assumes "net_run crc rnd buf_len v w" and "net_start v"
  shows "\<exists>css. net_ok crc buf_len (as_my_next_tsn (nw_sender v)) css w"
  using assms
proof (induction rule: net_run.induct)
  case (start v)
  then show ?case by (blast intro: net_ok_start)
next
  case (step v w w')
  then show ?case by (blast intro: net_ok_step)
qed

text \<open>C1: reliable and ordered over any network, at every moment.  One association writes messages to its
  ordered streams while it sends, retransmits, times out and receives anything at all; the other one
  receives, in any order, any number of times or never, what the first one has sent; and its user
  reads whenever there is something to read.  Then at every moment what has been read from a stream is
  the first messages that were written to it: whole, unchanged, with their payload types, each once, in
  order, and nothing else.  The messages are at most \<open>2 ^ 15\<close> with \<open>2 ^ 31\<close> bytes together, so that no serial
  number comes round again, and the reader's buffer has room for each.\<close>

theorem reads_are_first_writes:
  assumes "net_start v" and "net_run crc rnd buf_len v w"
  shows "prefix (messages_on si (nw_read w)) (map Ok (messages_on si (nw_written w)))"
  using net_ok_run [OF assms(2,1)] by (auto simp: net_ok_def reads_ok_def)

section \<open>A run\<close>

lemma starts_with_data_marshal:
  assumes "packet_marshal crc p = Ok raw" and "pk_chunks p = [ChunkPayloadData d]"
  shows "starts_with_data raw"
proof -
  obtain m where m: "chunk_marshal (ChunkPayloadData d) = Ok m"
    using assms by (cases "chunk_marshal (ChunkPayloadData d)") (auto simp: packet_marshal_def packet_marshal_to_def Let_def)
  let ?h = "put_u16 (pk_source_port p) @ put_u16 (pk_destination_port p) @ put_u32 (pk_verification_tag p)"
  let ?m = "m @ replicate (get_padding_size (length m)) 0"
  have "write_chunks (pk_chunks p) [] = Ok ?m" by (simp add: assms(2) m Let_def)
  then have raw: "raw = (?h @ put_u32_le (crc (?h @ FOUR_ZEROES @ ?m))) @ ?m"
    using assms(1) by (simp add: packet_marshal_def packet_marshal_to_def Let_def)
  have "m ! 0 = CT_PAYLOAD_DATA \<and> m \<noteq> []"
    using m by (auto simp: chunk_marshal_def payload_data_marshal_to_def chunk_header_marshal_to_def payload_data_header_def Let_def)
  moreover have l: "length (?h @ put_u32_le (crc (?h @ FOUR_ZEROES @ ?m))) = 12" by simp
  then have "raw ! 12 = ?m ! 0" unfolding raw by (metis nth_append_length_plus plus_nat.add_0 add.right_neutral)
  ultimately show ?thesis using raw by (cases m) (auto simp: starts_with_data_def)
qed

lemma session_starts:
  assumes "session si 0 a b" and "ordered_writer si s" and "st_sequence_number s = 0"
  shows "net_start \<lparr>nw_sender = a, nw_handles = [(si, s)], nw_written = [], nw_sent = [], nw_receiver = b, nw_read = []\<rparr>"
proof -
  have "(reassembly_queue_new si)\<lparr>rq_next_ssn := 0\<rparr> = reassembly_queue_new si" by (simp add: reassembly_queue_new_def)
  then have "stream_queue b si = reassembly_queue_new si"
    using assms(1) by (auto simp: session_def can_receive_def stream_queue_def stream_or_new_def waiting_for_def split: option.splits)
  moreover have "pq_inv t payload_queue_new" for t by (simp add: pq_inv_def payload_queue_new_def queued_bytes_def)
  ultimately show ?thesis
    using assms
    by (simp add: net_start_def session_def connected_def quiet_def can_receive_def receiver_inv_def tsns_above_def)
      (simp add: payload_queue_new_def pending_queue_new_def)
qed

text \<open>A message is written, sent and delivered, and can be read.\<close>

lemma one_message_run:
  assumes "session si 0 a b" and "sized p" and "1200 \<le> buf_len"
  obtains v w ppi s' ppi' b' where "net_start v" and "net_run crc rnd buf_len v w"
    and "nw_written w = [(si, p, ppi)]" and "nw_read w = []" and "nw_handles w = [(si, s')]"
    and "pg_ordered_queue (sh_pending_queue (nw_sender w)) = []"
    and "as_peer_last_tsn (nw_receiver w) + 1 = as_my_next_tsn (nw_sender w)"
    and "read_message si buf_len (nw_receiver w) = Some (Ok (p, ppi'), b')"
proof -
  obtain a1 a2 c raw s0 where m: "write_message now si p a = Some (Ok (length p), a1)"
      "transmit crc rnd now random32 a1 b = Some (a2, data_received si (payload_data_view now c) b)"
      "carries p si 0 (as_my_next_tsn a) c" "gather_outbound crc now a1 = Some (Ok ([raw], True), a2)"
      "packet_marshal crc (packet_5000 (as_peer_verification_tag a1) (ChunkPayloadData c)) = Ok raw"
      "handle_chunk_start a2 = sender_sent si (s0\<lparr>st_sequence_number := 0 + 1, st_buffered_amount := of_nat (length p)\<rparr>) c a a2"
    using session_send [OF assms(1,2), of now crc rnd random32] by blast
  obtain s where s: "hm_get (as_streams a) si = Some s" "can_write si 0 s"
    using assms(1) by (auto simp: session_def sender_ready_def)
  have S: "ordered_writer si s" "st_sequence_number s = 0" using s(2) by (simp_all add: can_write_def ordered_writer_def)
  let ?ppi = "ppi_of_u32 (st_default_payload_type s)"
  obtain s' a' where wr: "write_sctp s a now p ?ppi = Some (Ok (length p), s', a')"
      "a1 = a'\<lparr>as_streams := hm_insert si s' (as_streams a')\<rparr>"
    using m(1) s(1) by (auto simp: write_message_def stream_write_def split: option.splits)
  define v where "v = \<lparr>nw_sender = a, nw_handles = [(si, s)], nw_written = [], nw_sent = [], nw_receiver = b, nw_read = []\<rparr>"
  have v: "net_start v" unfolding v_def by (rule session_starts [OF assms(1) S])
  have p: "p \<noteq> []" "length p \<le> 1200" using assms(2) by (auto simp: sized_def)
  define w1 where "w1 = v\<lparr>nw_sender := a', nw_handles := [(si, s')], nw_written := [(si, p, ?ppi)]\<rparr>"
  have "within_window [(si, p, ?ppi)]" using p by (simp add: within_window_def total_bytes_def)
  then have 1: "net_step crc rnd buf_len v w1"
    using net_step.user_writes [of v si s p buf_len ?ppi now "length p" s' a' crc rnd] wr(1) p assms(3) by (simp add: w1_def v_def)
  define w2 where "w2 = w1\<lparr>nw_sender := a1\<rparr>"
  have 2: "net_step crc rnd buf_len w1 w2"
    using net_step.touch [of w1 si s' s' crc rnd buf_len "as_streams a1"] by (simp add: w1_def w2_def v_def wr(2))
  define w3 where "w3 = w2\<lparr>nw_sender := a2, nw_sent := [raw]\<rparr>"
  have "starts_with_data raw" using m(5) by (rule starts_with_data_marshal) (simp add: packet_5000_def)
  moreover have "a1 = message_written now si s p a"
    using m(1) write_message_one [OF s assms(2), of now] assms(1) by (simp add: session_def connected_def quiet_def sender_ready_def)
  then have "control_raws crc a1 = []"
    using assms(1) by (simp add: control_raws_def message_written_def session_def connected_def)
  ultimately have 3: "net_step crc rnd buf_len w2 w3"
    using net_step.send [of crc now w2 "[raw]" True a2 rnd buf_len] m(4) by (simp add: w3_def w2_def w1_def v_def)
  define d where "d = payload_data_view now c"
  have r: "snd (handle_inbound crc rnd now random32 raw b) = data_received si d b"
  proof -
    have "read_loop crc rnd now random32 [raw] b = data_received si d b"
      using m(2,4) by (simp add: transmit_def write_loop_round_def d_def)
    moreover have "get_state (data_received si d b) = Established"
      using assms(1) by (simp add: session_def connected_def data_received_def with_stream_def get_state_def)
    moreover from this have "association_close x \<noteq> data_received si d b" for x
      by (metis association_close_state association_state.distinct(1,3,5,7,9,11,13))
    ultimately show ?thesis by (auto simp: read_loop_round_def split: outcome.splits prod.splits)
  qed
  define w4 where "w4 = w3\<lparr>nw_receiver := data_received si d b\<rparr>"
  have 4: "net_step crc rnd buf_len w3 w4"
    using net_step.deliver [of raw w3 crc rnd buf_len now random32] r by (simp add: w4_def w3_def w2_def w1_def v_def)
  have "read_message si buf_len (data_received si d b) = Some (Ok (p, pd_payload_type d), data_read si d b)"
    using read_message_one [of si 0 b d buf_len] assms m(3) by (simp add: session_def d_def carries_def sized_def)
  moreover have "as_my_next_tsn a2 = as_my_next_tsn a + 1" "sh_pending_queue a2 = pending_queue_new"
    using arg_cong [OF m(6), of as_my_next_tsn] arg_cong [OF m(6), of sh_pending_queue]
    by (simp_all add: handle_chunk_start_def sender_sent_def)
  moreover have "as_peer_last_tsn (data_received si d b) = as_my_next_tsn a"
    using m(3) by (simp add: data_received_def d_def carries_def)
  ultimately show thesis
    by (intro that [OF v net_run.step [OF net_run.step [OF net_run.step [OF net_run.step [OF net_run.start 1] 2] 3] 4]])
      (simp_all add: w4_def w3_def w2_def w1_def v_def pending_queue_new_def)
qed

theorem reads_are_first_writes_witness:
  "\<exists>v w ppi. net_start v \<and> net_run (\<lambda>_. 0) (\<lambda>x. x) 1500 v w \<and>
    nw_written w = [(7, [1, 2, 3], ppi)] \<and> nw_read w = [(7, Ok ([1, 2, 3], ppi))]"
proof -
  obtain a b where s: "session 7 0 a b" using example_session by blast
  obtain v w ppi ppi' b' s' where w: "net_start v" "net_run (\<lambda>_. 0) (\<lambda>x. x) 1500 v w"
      "nw_written w = [(7, [1, 2, 3], ppi)]" "nw_read w = []" "nw_handles w = [(7, s')]"
      "read_message 7 1500 (nw_receiver w) = Some (Ok ([1, 2, 3], ppi'), b')"
    by (rule one_message_run [OF s, of "[1, 2, 3]" 1500 "\<lambda>_. 0" "\<lambda>x. x"]) (simp_all add: sized_def)
  have "7 \<in> set (hm_keys (nw_handles w))" by (simp add: w(5))
  note run = net_run.step [OF w(2) net_step.user_reads [OF this w(6)]]
  from reads_are_first_writes [OF w(1) run, of 7] have "ppi' = ppi" by (simp add: w(3,4))
  then show ?thesis using w(1,3,4) run by (intro exI conjI) (assumption | simp)+
qed

end
