(* ===== verification/Nothing_Lost.thy ===== *)
theory Nothing_Lost
  imports Network
begin

text \<open>
  What has been acknowledged can be read: once the cumulative TSN of the receiver has reached the last TSN that
  the sender has given out, the user of each stream reads on until it has got every message that was written.
\<close>

section \<open>A message whose chunks are all there\<close>

text \<open>Chunks in the order of their TSNs, the same as those of a message, are the message on the wire.\<close>

lemma all_chunks_are_message:
  assumes fr: "fragments_of t m" and xs: "tsn_sorted c xs" "wire ` set xs = set m"
  shows "map wire xs = m"
proof -
  have "tsn_sorted t xs"
    using xs(2) fragments_of_in_window [OF fr] by (intro tsn_sorted_rebase [OF xs(1)]) (metis imageI wire_fields(1))
  then have "tsn_sorted t (map wire xs)" by (simp add: tsn_sorted_def comp_def)
  moreover have "tsn_sorted t m" using fragments_tsn_sorted [OF fr] fragments_of_in_window [OF fr] by blast
  moreover have "distinct ys" if "tsn_sorted t ys" for ys using that by (simp add: tsn_sorted_def distinct_map)
  then have "mset (map wire xs) = mset m"
    using calculation xs(2) set_eq_iff_mset_eq_distinct [of "map wire xs" m] by simp
  ultimately show ?thesis by (rule tsn_sorted_unique)
qed

lemma message_is_complete:
  assumes "fragments_of t m" and "map wire (cs_chunks s) = m"
  shows "chunk_set_is_complete s"
proof -
  have "fragments_of t (cs_chunks s)" using assms by (auto simp: fragments_of_def list_all_iff)
  then show ?thesis using complete_fragments by blast
qed

lemma queue_ready:
  assumes M: "messages_ok c ppi_of M" and Q: "queue_state M c ppi_of r acc q" and r: "r < length M"
    and here: "set (M ! r) \<subseteq> wire ` set acc"
  shows "fst (reassembly_queue_read q buf_len) \<noteq> Err ErrTryAgain"
proof -
  have q: "rq_unordered q = []" "rq_next_ssn q = of_nat r" "wire ` set acc \<subseteq> set (concat M)"
      "ordered_inv (of_nat r) c ppi_of (rq_ordered q)" "mset (all_chunks (rq_ordered q)) = mset (unread M r acc)"
    using Q by (simp_all add: queue_state_def)
  have m: "fragments_of (pd_tsn (hd (M ! r))) (M ! r)" "\<forall>p \<in> set (M ! r). pd_stream_sequence_number p = of_nat r"
    using messages_from_nth [of 0 c ppi_of M r] M r by (auto simp: messages_ok_def)
  have found: "\<exists>u \<in> set (rq_ordered q). cs_ssn u = of_nat r \<and> (\<exists>d \<in> set (cs_chunks u). wire d = x)"
    if x: "x \<in> set (M ! r)" for x
  proof -
    obtain d where d: "d \<in> set acc" "wire d = x" using here x by blast
    then have "d \<in> set (unread M r acc)" using in_take_concat [OF M r x, of r] by (simp add: unread_def)
    then have "d \<in> set (all_chunks (rq_ordered q))" using mset_eq_setD [OF q(5)] by simp
    then obtain u where u: "u \<in> set (rq_ordered q)" "d \<in> set (cs_chunks u)" by (auto simp: all_chunks_def)
    moreover have "pd_stream_sequence_number d = of_nat r" using m(2) x d(2) by (metis wire_fields(3))
    ultimately have "cs_ssn u = of_nat r" using q(4) by (auto simp: ordered_inv_def set_inv_def)
    then show ?thesis using u d(2) by blast
  qed
  obtain x where "x \<in> set (M ! r)" using m(1) by (cases "M ! r") (auto simp: fragments_of_def)
  then obtain h os where h: "rq_ordered q = h # os" using found by (cases "rq_ordered q") auto
  have head: "u = h" if "u \<in> set (rq_ordered q)" "cs_ssn u = of_nat r" for u
  proof (rule ccontr)
    assume "u \<noteq> h"
    then have "u \<in> set os" using that(1) h by simp
    then have "cs_ssn h - of_nat r \<le> cs_ssn u - of_nat r" "cs_ssn h \<noteq> cs_ssn u"
      using q(4) by (auto simp: ordered_inv_def h)
    then show False using that(2) by simp
  qed
  have ssn: "cs_ssn h = of_nat r" using found [OF \<open>x \<in> set (M ! r)\<close>] head by blast
  have "wire ` set (cs_chunks h) = set (M ! r)"
  proof (intro equalityI subsetI)
    fix y assume "y \<in> wire ` set (cs_chunks h)"
    then obtain d where d: "d \<in> set (cs_chunks h)" "y = wire d" by blast
    then have "d \<in> set (unread M r acc)" using mset_eq_setD [OF q(5)] by (auto simp: h all_chunks_def)
    then have "wire d \<in> set (concat M)" using q(3) by (auto simp: unread_def)
    then obtain i where i: "i < length M" "wire d \<in> set (M ! i)" "pd_stream_sequence_number d = of_nat i"
      by (rule message_index [OF M])
    have "pd_stream_sequence_number d = cs_ssn h" using q(4) d(1) by (auto simp: ordered_inv_def set_inv_def h)
    then have "(of_nat i :: u16) = of_nat r" using i(3) ssn by simp
    moreover have "unat (of_nat i :: u16) = i" "unat (of_nat r :: u16) = r"
      using i(1) r M by (simp_all add: messages_ok_def unat_of_nat_u16)
    ultimately have "i = r" by metis
    then show "y \<in> set (M ! r)" using i(2) d(2) by simp
  next
    fix y assume "y \<in> set (M ! r)"
    then show "y \<in> wire ` set (cs_chunks h)" using found [of y] head by blast
  qed
  moreover have "tsn_sorted c (cs_chunks h)" using q(4) by (simp add: ordered_inv_def set_inv_def h)
  ultimately have "chunk_set_is_complete h" by (intro message_is_complete [OF m(1)] all_chunks_are_message [OF m(1)])
  moreover have "\<not> sna16gt (cs_ssn h) (rq_next_ssn q)" by (simp add: ssn q(2) sna16gt_def)
  ultimately show ?thesis
    using q(1) h by (auto simp: reassembly_queue_read_def Let_def split: prod.splits if_splits)
qed

section \<open>Everything has arrived\<close>

lemma wire_messages_received: "set (concat (wire_messages t ws css si)) \<subseteq> set (concat (received 0 t css))"
  by (auto simp: wire_messages_def messages_on_def dest: set_zip_rightD)

lemma received_tsn_unique:
  assumes "length (concat css) \<le> 2 ^ 31" and "x \<in> set (concat (received 0 t css))" and "y \<in> set (concat (received 0 t css))"
    and "pd_tsn x = pd_tsn y"
  shows "x = y"
proof -
  have "distinct (map pd_tsn (concat (received 0 t css)))"
    using distinct_assign_tsns [OF assms(1), of t] by (simp add: concat_received comp_def)
  then show ?thesis using assms(2-4) by (simp add: distinct_map inj_on_def) blast
qed

text \<open>All TSNs below the end of what was sent have been taken.\<close>

lemma accepted_all:
  assumes "accepted t acc b" and "as_peer_last_tsn b + 1 = t + of_nat k" and "k \<le> 2 ^ 31" and "j < k"
  shows "t + of_nat j \<in> pd_tsn ` set acc"
proof -
  obtain n where n: "as_peer_last_tsn b + 1 = t + of_nat n" "(\<lambda>i. t + of_nat i) ` {..<n} \<subseteq> pd_tsn ` set acc"
    using assms(1) by (auto simp: accepted_def)
  have "k \<le> n"
  proof (rule ccontr)
    assume "\<not> k \<le> n"
    then have "unat (of_nat n :: u32) = n" "unat (of_nat k :: u32) = k" using assms(3) by (simp_all add: unat_of_nat_less)
    moreover have "(of_nat n :: u32) = of_nat k" using n(1) assms(2) by simp
    ultimately show False using \<open>\<not> k \<le> n\<close> by simp
  qed
  then show ?thesis using n(2) assms(4) by auto
qed

lemma ready_or_finished:
  assumes ok: "net_ok crc buf_len t css w" and si: "si \<in> set (hm_keys (nw_handles w))"
    and sent: "pg_ordered_queue (sh_pending_queue (nw_sender w)) = []"
    and acked: "as_peer_last_tsn (nw_receiver w) + 1 = as_my_next_tsn (nw_sender w)"
    and k: "k = length (messages_on si (nw_read w))"
  shows "k < length (messages_on si (nw_written w)) \<and>
      fst (reassembly_queue_read (stream_queue (nw_receiver w) si) buf_len) = Ok (messages_on si (nw_written w) ! k) \<or>
    messages_on si (nw_read w) = map Ok (messages_on si (nw_written w))"
proof -
  let ?ws = "nw_written w" and ?sis = "hm_keys (nw_handles w)" and ?M = "wire_messages t (nw_written w) css"
    and ?r = "\<lambda>si. length (messages_on si (nw_read w))" and ?q = "stream_queue (nw_receiver w) si"
  have sc: "scripted ?ws css" "within_window ?ws" using ok by (simp_all add: net_ok_def)
  note M = script_of_writes [OF sc, where t = t] and msgs = wire_message_nth [OF sc, where t = t and si = si]
  have len: "length (concat css) \<le> 2 ^ 31"
    using scripted_length [OF sc(1)] sc(2) by (simp add: within_window_def)
  have R: "reads_ok buf_len ?sis ?ws (nw_read w)" using ok by (simp add: net_ok_def)
  have "sender_ok t (concat css) (length (concat css)) (nw_sender w)" using ok by (simp add: net_ok_def)
  then have nxt: "as_my_next_tsn (nw_sender w) = t + of_nat (length (concat css))"
    using sent by (auto simp: sender_ok_def)
  obtain acc where acc: "receiver_ok t (ppis ?ws) ?sis ?M ?r acc (nw_receiver w)" using ok unfolding net_ok_def by blast
  then have A: "accepted t acc (nw_receiver w)" "\<forall>d \<in> set acc. script_chunk ?sis ?M d"
      "queue_state (?M si) t (ppis ?ws si) k (of_stream si acc) ?q"
    using si unfolding receiver_ok_def k by blast+
  have mo: "messages_ok t (ppis ?ws si) (?M si)" using M(1) [of "[si]"] by (simp add: script_ok_def)
  show ?thesis
  proof (cases "k < length (messages_on si ?ws)")
    case False
    obtain zs where zs: "map Ok (messages_on si ?ws) = messages_on si (nw_read w) @ zs"
      using R unfolding reads_ok_def prefix_def by blast
    have "zs = []" using arg_cong [OF zs, of length] False k by simp
    then show ?thesis using zs by simp
  next
    case True
    have "set (?M si ! k) \<subseteq> wire ` set (of_stream si acc)"
    proof
      fix x assume x: "x \<in> set (?M si ! k)"
      then have X: "x \<in> set (concat (?M si))" using True msgs(1) by (auto intro: nth_mem)
      then obtain j where "j < length (concat css)" "pd_tsn x = t + of_nat j" "pd_stream_identifier x = si"
        using wire_messages_spec [OF sc, of t si] by blast
      then obtain d where d: "d \<in> set acc" "pd_tsn d = pd_tsn x"
        using accepted_all [OF A(1) acked [unfolded nxt] len] by force
      then obtain si' where "wire d \<in> set (concat (?M si'))" using A(2) unfolding script_chunk_def by blast
      then have "wire d = x"
        using received_tsn_unique [OF len, of "wire d" t x] wire_messages_received X d(2) by (metis subsetD wire_fields(1))
      moreover have "pd_stream_identifier d = si"
        using \<open>pd_stream_identifier x = si\<close> \<open>wire d = x\<close> by (metis wire_fields(2))
      ultimately show "x \<in> wire ` set (of_stream si acc)" using d(1) by (auto simp: of_stream_def)
    qed
    from queue_ready [OF mo A(3) _ this] have ready: "fst (reassembly_queue_read ?q buf_len) \<noteq> Err ErrTryAgain"
      using True msgs(1) by simp
    have "distinct (map pd_tsn (of_stream si acc))"
      using A(1) by (simp add: accepted_def of_stream_def distinct_map_filter)
    then show ?thesis
      using queue_state_read [OF mo A(3) _ messages_fit_buffer [OF sc R] prod.collapse [symmetric]] ready msgs(2) [OF True] True by auto
  qed
qed

text \<open>C2: nothing that is acknowledged is lost.  In the network of \<open>reads_are_first_writes\<close>, let all that was written
  have left the sender's pending queue, and let the receiver's cumulative TSN be the last one that the sender has
  given out.  Then on every stream either the user has read every message that was written, or the
  next one of them is what a read returns now.\<close>

theorem acknowledged_is_readable:
  assumes "net_start v" and "net_run crc rnd buf_len v w" and "si \<in> set (hm_keys (nw_handles w))"
    and "pg_ordered_queue (sh_pending_queue (nw_sender w)) = []"
    and "as_peer_last_tsn (nw_receiver w) + 1 = as_my_next_tsn (nw_sender w)"
    and "k = length (messages_on si (nw_read w))"
  shows "k < length (messages_on si (nw_written w)) \<and>
      fst (reassembly_queue_read (stream_queue (nw_receiver w) si) buf_len) = Ok (messages_on si (nw_written w) ! k) \<or>
    messages_on si (nw_read w) = map Ok (messages_on si (nw_written w))"
  using net_ok_run [OF assms(2,1)] ready_or_finished [OF _ assms(3-6)] by blast

text \<open>A message that has arrived can be read.\<close>

theorem acknowledged_is_readable_witness:
  "\<exists>v w ppi. net_start v \<and> net_run (\<lambda>_. 0) (\<lambda>x. x) 1500 v w \<and> nw_written w = [(7, [1, 2, 3], ppi)] \<and> nw_read w = [] \<and>
    fst (reassembly_queue_read (stream_queue (nw_receiver w) 7) 1500) = Ok ([1, 2, 3], ppi)"
proof -
  obtain a b where s: "session 7 0 a b" using example_session by blast
  obtain v w ppi s' where w: "net_start v" "net_run (\<lambda>_. 0) (\<lambda>x. x) 1500 v w"
      "nw_written w = [(7, [1, 2, 3], ppi)]" "nw_read w = []" "nw_handles w = [(7, s')]"
      "pg_ordered_queue (sh_pending_queue (nw_sender w)) = []"
      "as_peer_last_tsn (nw_receiver w) + 1 = as_my_next_tsn (nw_sender w)"
    by (rule one_message_run [OF s, of "[1, 2, 3]" 1500 "\<lambda>_. 0" "\<lambda>x. x"]) (simp_all add: sized_def)
  from acknowledged_is_readable [OF w(1,2) _ w(6,7) HOL.refl, of 7] show ?thesis using w by auto
qed

end
