(* ===== verification/Fatal.thy ===== *)
theory Fatal
  imports Frames
begin

text \<open>
  The packets that end an association: the read loop closes it after every error of a handler, and
  tells the peer nothing.
\<close>

section \<open>Chunks that end the association\<close>

text \<open>
  The chunks whose handler ends with an error: an ABORT, an ERROR, and an unknown chunk whose type
  asks for the packet to be discarded.
\<close>

definition fatal_chunk :: "chunk \<Rightarrow> bool" where
  "fatal_chunk c \<longleftrightarrow>
     (case c of
        ChunkAbort _ \<Rightarrow> True
      | ChunkError _ \<Rightarrow> True
      | ChunkUnknown u \<Rightarrow> drop_bit 6 (ch_typ (cu_hdr u)) = 0
      | _ \<Rightarrow> False)"

lemma fatal_chunk_fails:
  assumes "fatal_chunk c"
  shows "chunk_view now c = c" and "\<exists>e. handle_chunk rnd now random32 q c a = (Err e, a)"
proof -
  show "chunk_view now c = c" using assms by (auto simp: fatal_chunk_def split: chunk.splits)
  have "chunk_check c = Ok ()" using assms by (auto simp: fatal_chunk_def split: chunk.splits)
  moreover have "\<exists>e. handle_checked_chunk rnd now random32 q c a = (Err e, a)"
    using assms
    by (auto simp: fatal_chunk_def handle_checked_chunk_def handle_unknown_chunk_def Let_def split: chunk.splits)
  ultimately show "\<exists>e. handle_chunk rnd now random32 q c a = (Err e, a)" by (auto simp: handle_chunk_def)
qed

lemma handle_chunks_append:
  "handle_chunks rnd now random32 p (xs @ ys) a =
    then_do (handle_chunks rnd now random32 p xs a) (\<lambda>_ a. handle_chunks rnd now random32 p ys a)"
proof (induction xs arbitrary: a)
  case (Cons x xs)
  show ?case
    by (cases "handle_chunk rnd now random32 p x a"; cases "fst (handle_chunk rnd now random32 p x a)")
      (auto simp: Cons.IH)
qed simp

lemma sane_handle_start: "sane a \<Longrightarrow> sane (handle_chunk_start a)"
  by (rule sane_view(1) [of _ a]) (simp_all add: sane_def)

lemma fatal_chunk_inbound:
  assumes "sane a" and "pk_chunks p = pre @ c # post" and "fatal_chunk c" and "chunks_wf (pk_chunks p)"
    and "check_packet p = Ok ()" and "packet_marshal crc p = Ok raw"
  shows "\<exists>e. handle_inbound crc rnd now random32 raw a =
    (Err e, snd (handle_chunks rnd now random32 (packet_view now p) (map (chunk_view now) pre) (handle_chunk_start a)))"
proof -
  let ?p = "packet_view now p"
  define r where "r = handle_chunks rnd now random32 ?p (map (chunk_view now) pre) (handle_chunk_start a)"
  have "\<exists>e. handle_chunks rnd now random32 ?p (map (chunk_view now) (pk_chunks p)) (handle_chunk_start a) = (Err e, snd r)"
  proof (cases "fst r")
    case (Ok u)
    obtain e where e: "handle_chunk rnd now random32 ?p c (snd r) = (Err e, snd r)"
      using fatal_chunk_fails(2) [OF assms(3)] by blast
    have r: "r = (Ok u, snd r)" using Ok by (simp add: prod_eq_iff)
    have "handle_chunks rnd now random32 ?p (map (chunk_view now) (pk_chunks p)) (handle_chunk_start a) =
        then_do r (\<lambda>_ b. handle_chunks rnd now random32 ?p (c # map (chunk_view now) post) b)"
      by (simp add: assms(2) handle_chunks_append fatal_chunk_fails(1) [OF assms(3)] r_def)
    also have "\<dots> = (Err e, snd r)" by (subst r) (simp add: e)
    finally show ?thesis by blast
  next
    case (Err e)
    then have r: "r = (Err e, snd r)" by (simp add: prod_eq_iff)
    have "handle_chunks rnd now random32 ?p (map (chunk_view now) (pk_chunks p)) (handle_chunk_start a) =
        then_do r (\<lambda>_ b. handle_chunks rnd now random32 ?p (c # map (chunk_view now) post) b)"
      by (simp add: assms(2) handle_chunks_append fatal_chunk_fails(1) [OF assms(3)] r_def)
    also have "\<dots> = (Err e, snd r)" by (subst r) simp
    finally show ?thesis by blast
  next
    case Panic
    then show ?thesis
      using sane_after_chunks [OF sane_handle_start [OF assms(1)], of rnd now random32 ?p "map (chunk_view now) pre"]
      by (simp add: r_def sane_after_def)
  qed
  then show ?thesis
    using handle_inbound_marshalled [OF assms(6,4,5), of rnd now random32 a] by (auto simp: r_def)
qed

text \<open>C33: an ABORT or an ERROR, which come last in a well-formed packet, or an unknown chunk whose type
  has the handle code 00 (its two highest bits), anywhere in it, with whatever verification tag and in
  whatever state of the association: the chunks before it are handled, those after it are not, the
  read loop ends and the association is closed, and it is so for the unknown chunk although the comment
  in the code, after RFC 4960, says that only the packet is to be discarded.  The association is one
  whose queues are \<open>sane\<close>, which they are in every reachable state in which the read loop handles a
  packet (\<open>node_run_sane_running\<close>).\<close>

theorem fatal_chunk_closes:
  assumes "sane a" and "pk_chunks p = pre @ c # post" and "fatal_chunk c" and "chunks_wf (pk_chunks p)"
    and "check_packet p = Ok ()" and "packet_marshal crc p = Ok raw"
  shows "read_loop_round crc rnd now random32 raw a =
    (Ok False, association_close
      (snd (handle_chunks rnd now random32 (packet_view now p) (map (chunk_view now) pre) (handle_chunk_start a))))"
  using fatal_chunk_inbound [OF assms, of rnd now random32] by (auto simp: read_loop_round_def)

lemma example_sane: "sane example_sender" "sane example_flight"
proof -
  have q: "as_payload_queue example_sender = payload_queue_new"
    by (simp add: example_sender_def association_internal_new_def set_state_def Let_def)
  then show "sane example_sender" using example_sender_inv by (simp add: sane_def queue_counts_new)
  have "sh_pending_queue example_flight = sh_pending_queue example_sender"
      "as_payload_queue example_flight = payload_queue_new"
    by (simp_all add: example_flight_def q)
  then show "sane example_flight"
    using example_flight_inv example_sender_inv by (simp add: sane_def queue_counts_new pending_length_def)
qed

text \<open>The witness: an unknown chunk with the type byte 63, after a COOKIE-ACK.\<close>

definition example_unknown :: packet where
  "example_unknown = \<lparr>pk_source_port = 5000, pk_destination_port = 5000, pk_verification_tag = 7,
     pk_chunks = [ChunkCookieAck, ChunkUnknown \<lparr>cu_hdr = \<lparr>ch_typ = 63, ch_flags = 0, ch_value_length = 1\<rparr>, cu_value = [9]\<rparr>]\<rparr>"

theorem fatal_chunk_closes_witness:
  "\<exists>raw. packet_marshal (\<lambda>_. 0) example_unknown = Ok raw \<and>
    (\<exists>b. read_loop_round (\<lambda>_. 0) (\<lambda>x. x) 0 [] raw example_sender = (Ok False, b) \<and> get_state b = Closed)"
proof -
  have wf: "chunks_wf (pk_chunks example_unknown)" by (simp add: example_unknown_def known_chunk_types_def ct_defs)
  then obtain raw where raw: "packet_marshal (\<lambda>_. 0) example_unknown = Ok raw"
    using packet_marshal_unmarshal by blast
  have "\<exists>b. read_loop_round (\<lambda>_. 0) (\<lambda>x. x) 0 [] raw example_sender = (Ok False, b) \<and> get_state b = Closed"
    using fatal_chunk_closes [OF example_sane(1) _ _ wf _ raw, of "[ChunkCookieAck]" _ "[]" "\<lambda>x. x" 0 "[]"]
    by (auto simp: example_unknown_def fatal_chunk_def check_packet_def)
  then show ?thesis using raw by blast
qed

section \<open>A SACK of what was never sent\<close>

text \<open>Under any clock, a SACK whose cumulative TSN is not old is handled only if it is valid.\<close>

lemma handle_sack_invalid:
  assumes "flight_inv a" and "flight_length a < 2 ^ 31" and "sack_states a"
    and "\<not> sna32gt (as_cumulative_tsn_ack_point a) (sa_cumulative_tsn_ack d)" and "\<not> sack_valid d a"
  shows "\<exists>e. fst (handle_sack rnd now d a) = Err e"
proof -
  let ?a = "a\<lparr>as_stats := inc_sacks (as_stats a)\<rparr>"
  have v: "sender_view ?a = sender_view a" "as_inflight_queue ?a = as_inflight_queue a" by simp_all
  have inv: "flight_inv ?a" "flight_length ?a < 2 ^ 31"
    using assms flight_inv_view [OF v] view_eqD [OF v(1)] by simp_all
  have "\<not> sack_valid d ?a" using assms(5) view_eqD [OF v(1)] by (simp add: sack_valid_def)
  then have "\<not> is_ok (fst (process_selective_ack rnd now d ?a))"
    using process_sack_any [OF inv, of d rnd now] assms(4)
    by (cases "process_selective_ack rnd now d ?a"; cases "fst (process_selective_ack rnd now d ?a)") auto
  then obtain e b where "process_selective_ack rnd now d ?a = (Err e, b)"
    using returns_process_sack [of rnd now d ?a]
    by (cases "process_selective_ack rnd now d ?a"; cases "fst (process_selective_ack rnd now d ?a)") (auto simp: returns_def)
  then show ?thesis using handle_sack_continue [OF assms(3,4), of rnd now] by simp
qed

interpretation control: sack_invariant "\<lambda>a. as_control_queue a = ps" for ps
  by unfold_locales simp_all

lemma close_control [simp]: "as_control_queue (association_close a) = as_control_queue a"
proof -
  have "as_control_queue (unregister_stream si b) = as_control_queue b" for si b
    by (simp add: unregister_stream_def split: option.split)
  then have "as_control_queue (unregister_streams sis b) = as_control_queue b" for sis b
    unfolding unregister_streams_def by (induction sis arbitrary: b) simp_all
  then show ?thesis by (simp add: association_close_def close_all_timers_def set_state_def Let_def)
qed

lemma gather_closed:
  assumes "get_state a = Closed"
  shows "gather_outbound crc now a =
    Some (Ok (foldl (push_raw crc) [] (as_control_queue a), True), a\<lparr>as_control_queue := []\<rparr>)"
proof -
  have "get_state (a\<lparr>as_control_queue := []\<rparr>) = Closed" using assms by (simp add: get_state_def)
  then show ?thesis by (simp add: gather_outbound_def)
qed

text \<open>C36: a SACK that acknowledges a TSN that was never sent, with its cumulative TSN or in a gap
  block, at the head of a packet, in a state in which SACKs are handled, and whose cumulative TSN
  is not older than the last one: the handler fails, whatever the clock says, the read loop ends
  and the association is closed; and nothing tells the peer, no ABORT is sent: the packets that
  were queued before are all that the write loop still finds.  The association is one whose queues
  are \<open>sane\<close>, which they are in every reachable state in which the read loop handles a packet
  (\<open>node_run_sane_running\<close>).\<close>

theorem sack_beyond_sent_closes:
  assumes "sane a" and "pk_chunks p = ChunkSelectiveAck d # cs" and "chunks_wf (pk_chunks p)"
    and "check_packet p = Ok ()" and "packet_marshal crc p = Ok raw"
    and "get_state a \<in> {Established, ShutdownPending, ShutdownReceived}"
    and "\<not> sna32gt (as_cumulative_tsn_ack_point a) (sa_cumulative_tsn_ack d)"
    and "flight_length a < unat (sa_cumulative_tsn_ack d - as_cumulative_tsn_ack_point a) \<or>
      (\<exists>t \<in> set (gap_tsns (sa_cumulative_tsn_ack d) (sa_gap_ack_blocks d)).
        \<not> t - (sa_cumulative_tsn_ack d + 1) < as_my_next_tsn a - (sa_cumulative_tsn_ack d + 1))"
  shows "\<exists>b. read_loop_round crc rnd now random32 raw a = (Ok False, b) \<and> get_state b = Closed \<and>
    gather_outbound crc now' b =
      Some (Ok (foldl (push_raw crc) [] (as_control_queue a), True), b\<lparr>as_control_queue := []\<rparr>)"
proof -
  let ?a = "handle_chunk_start a" and ?p = "packet_view now p"
  have v: "sender_view ?a = sender_view a" "get_state ?a = get_state a" "as_control_queue ?a = as_control_queue a"
    by (simp_all add: handle_chunk_start_def get_state_def sender_view_def)
  have s: "sane ?a" using assms(1) by (rule sane_handle_start)
  have a': "flight_inv ?a" "flight_length ?a < 2 ^ 31" using s by (simp_all add: sane_def)
  have f: "as_cumulative_tsn_ack_point ?a = as_cumulative_tsn_ack_point a" "as_my_next_tsn ?a = as_my_next_tsn a"
      "flight_length ?a = flight_length a"
    using v(1) view_eqD [OF v(1)] by (simp_all add: sender_view_def)
  have "\<not> sack_valid d ?a" using assms(8) by (auto simp: sack_valid_def f)
  then have "\<exists>e. fst (handle_sack rnd now d ?a) = Err e"
    by (intro handle_sack_invalid [OF a']) (use assms(6,7) v(2) in \<open>simp_all add: sack_states_def f\<close>)
  then obtain e b where b: "handle_sack rnd now d ?a = (Err e, b)" by (metis prod.collapse)
  have q: "as_control_queue b = as_control_queue a"
    using control.keeps_handle_sack [of ?a "as_control_queue a" rnd now d] v(3) b by simp
  have "handle_chunk rnd now random32 ?p (ChunkSelectiveAck d) ?a = (Err e, b)"
    by (simp add: handle_chunk_def handle_checked_chunk_def b)
  then have "handle_inbound crc rnd now random32 raw a = (Err e, b)"
    by (simp add: handle_inbound_marshalled [OF assms(5,3,4)] assms(2))
  then have "read_loop_round crc rnd now random32 raw a = (Ok False, association_close b)"
    by (simp add: read_loop_round_def)
  then show ?thesis using gather_closed [of "association_close b" crc now'] q by simp
qed

text \<open>The witness: with the TSNs 1, 2 and 3 in flight, a SACK for 9.\<close>

definition example_sack_packet :: packet where
  "example_sack_packet = \<lparr>pk_source_port = 5000, pk_destination_port = 5000, pk_verification_tag = 7,
     pk_chunks = [ChunkSelectiveAck (flight_sack 9 9000)]\<rparr>"

theorem sack_beyond_sent_closes_witness:
  "\<exists>raw b. packet_marshal (\<lambda>_. 0) example_sack_packet = Ok raw \<and>
    read_loop_round (\<lambda>_. 0) (\<lambda>x. x) 0 [] raw example_flight = (Ok False, b) \<and> get_state b = Closed \<and>
    gather_outbound (\<lambda>_. 0) 1 b = Some (Ok ([], True), b\<lparr>as_control_queue := []\<rparr>)"
proof -
  have wf: "chunks_wf (pk_chunks example_sack_packet)"
    by (simp add: example_sack_packet_def flight_sack_def selective_ack_value_length_def)
  then obtain raw where raw: "packet_marshal (\<lambda>_. 0) example_sack_packet = Ok raw"
    using packet_marshal_unmarshal by blast
  have c: "as_control_queue example_flight = []"
    by (simp add: example_flight_def example_sender_def association_internal_new_def set_state_def Let_def)
  have st: "get_state example_flight \<in> {Established, ShutdownPending, ShutdownReceived}"
    using example_flight_inv(4) by (simp add: sack_states_def)
  have f: "as_cumulative_tsn_ack_point example_flight = 0" by (simp add: example_flight_fields)
  have "\<exists>b. read_loop_round (\<lambda>_. 0) (\<lambda>x. x) 0 [] raw example_flight = (Ok False, b) \<and> get_state b = Closed \<and>
      gather_outbound (\<lambda>_. 0) 1 b =
        Some (Ok (foldl (push_raw (\<lambda>_. 0)) [] (as_control_queue example_flight), True), b\<lparr>as_control_queue := []\<rparr>)"
    by (rule sack_beyond_sent_closes [OF example_sane(2) _ wf _ raw st, where d = "flight_sack 9 9000" and cs = "[]"])
      (simp_all add: example_sack_packet_def check_packet_def flight_sack_def f example_flight_inv(2) sna32gt_def)
  then show ?thesis using raw by (auto simp: c)
qed

end
