(* ===== verification/Connect.thy ===== *)
theory Connect
  imports Reachable Fatal
begin

text \<open>
  \<^verbatim>\<open>Association::client\<close> and \<^verbatim>\<open>Association::server\<close>: what the caller gets, and when it gets nothing.
\<close>

section \<open>Waiting for the handshake\<close>

text \<open>
  Both functions make the association and wait for the first message of the handshake's channel.
  \<open>None\<close>: still waiting.  The channel's sender belongs to the association, which the waiting function
  itself holds, and nothing takes it out: \<^verbatim>\<open>recv\<close> never returns because the channel is closed, and
  \<^verbatim>\<open>ErrAssociationHandshakeClosed\<close> is never returned.
\<close>

definition association_server :: "association \<Rightarrow> unit outcome option" where
  "association_server a =
     (case as_handshake_completed_ch a of
        [] \<Rightarrow> None
      | Some err # _ \<Rightarrow> Some (Err err)
      | None # _ \<Rightarrow> Some (Ok ()))"

definition association_client :: "association \<Rightarrow> unit outcome option" where
  "association_client a =
     (case as_handshake_completed_ch a of
        [] \<Rightarrow> None
      | Some err # _ \<Rightarrow> Some (Err err)
      | None # _ \<Rightarrow> Some (Ok ()))"

section \<open>An association that is closed before it is established\<close>

definition waiting_view :: "association \<Rightarrow> error option list \<times> rtx_task list \<times> rtx_task list" where
  "waiting_view a = (as_handshake_completed_ch a, rt_tasks (as_t1init a), rt_tasks (as_t1cookie a))"

text \<open>The read loop is over, a client has been opened, and the state is Closed.\<close>

definition ended :: "node \<Rightarrow> bool" where
  "ended n \<longleftrightarrow> nd_reader n = Reader_ended \<and> nd_opening n = None \<and> get_state (nd_assoc n) = Closed"

lemma closed_close: "get_state a = Closed \<Longrightarrow> association_close a = a"
  by (simp add: association_close_def)

lemma waiting_t3: "waiting_view (on_retransmission_timeout T3RTX a) = waiting_view a"
proof -
  have "waiting_view (advance_peer_ack_loop n i x) = waiting_view x" for n i x
    by (induction n i x rule: advance_peer_ack_loop.induct) (auto simp: waiting_view_def split: option.splits)
  then show ?thesis
    by (simp add: on_retransmission_timeout_def advance_peer_ack_point_def waiting_view_def Let_def)
qed

lemma waiting_timer:
  assumes "waiting_view a = ([], [], [])" and "rtx_step (rtx_timer_of i a) l t" and "task_move l"
  shows "waiting_view (timer_event i l (set_rtx_timer i t a)) = ([], [], [])"
proof -
  have i: "i \<noteq> T1Init \<and> i \<noteq> T1Cookie"
    using assms by (auto simp: waiting_view_def rtx_timer_of_def elim!: rtx_stepE)
  let ?b = "set_rtx_timer i t a"
  have b: "waiting_view ?b = ([], [], [])"
    using i assms(1) by (cases i) (simp_all add: set_rtx_timer_def waiting_view_def)
  have "waiting_view (on_retransmission_timeout i ?b) = waiting_view ?b"
  proof (cases "i = T3RTX")
    case False
    then show ?thesis using i by (cases i) (simp_all add: on_retransmission_timeout_def waiting_view_def)
  qed (simp add: waiting_t3)
  moreover have "on_retransmission_failure i ?b = ?b"
    using i by (cases i) (simp_all add: on_retransmission_failure_def)
  ultimately show ?thesis using b by (cases "(i, l, ?b)" rule: timer_event.cases) simp_all
qed

lemma waiting_write_start: "write_start s a now p ppi = Some (r, s', b) \<Longrightarrow> waiting_view b = waiting_view a"
  by (auto simp: write_start_def packetize_def new_cells_def waiting_view_def Let_def split: if_splits option.splits)

lemma waiting_node_write:
  assumes "node_write now si p ppi n = Some n'"
  shows "waiting_view (nd_assoc n') = waiting_view (nd_assoc n)"
proof -
  obtain s r s' a where "write_start s (nd_assoc n) now p ppi = Some (r, s', a)"
      "waiting_view (nd_assoc n') = waiting_view a"
    using assms by (auto simp: node_write_def waiting_view_def split: option.splits prod.splits)
  then show ?thesis using waiting_write_start by metis
qed

lemma waiting_push: "waiting_view (nd_assoc (node_push i n)) = waiting_view (nd_assoc n)"
  by (cases "nd_writes n ! i") (simp_all add: node_push_def awake_write_loop_def waiting_view_def)

lemma waiting_shutdown: "waiting_view (snd (snd (stream_shutdown s a now how))) = waiting_view a"
  by (simp add: stream_shutdown_def send_reset_request_def new_cells_def waiting_view_def Let_def case_prod_beta)

lemma waiting_on_stream:
  assumes "on_stream si a f = Some b" and "\<And>s s' b. f s = Some (s', b) \<Longrightarrow> waiting_view b = waiting_view a"
  shows "waiting_view b = waiting_view a"
  using assms by (auto simp: on_stream_def waiting_view_def split: option.splits)

lemma waiting_call:
  assumes "perform_call u a = Some b" and "get_state a = Closed"
  shows "waiting_view b = waiting_view a"
proof (cases u)
  case (Shutdown_stream now si how)
  then have "on_stream si a (\<lambda>s. Some (snd (stream_shutdown s a now how))) = Some b" using assms(1) by simp
  then show ?thesis
  proof (rule waiting_on_stream)
    fix s s' b
    assume "Some (snd (stream_shutdown s a now how)) = Some (s', b)"
    then show "waiting_view b = waiting_view a" using waiting_shutdown [of s a now how] by simp
  qed
next
  case (Open_stream si ppi)
  then show ?thesis
    using assms(1) by (auto simp: open_stream_def create_stream_def update_stream_def waiting_view_def Let_def split: option.split)
qed (use assms in \<open>auto simp: waiting_view_def accept_stream_def on_stream_def closed_close association_shutdown_def
  split: option.splits list.splits\<close>)

lemma node_write_state:
  assumes "node_write now si p ppi n = Some n'"
  shows "get_state (nd_assoc n') = get_state (nd_assoc n)" and "nd_reader n' = nd_reader n" and "nd_opening n' = nd_opening n"
proof -
  obtain s r s' a where w: "write_start s (nd_assoc n) now p ppi = Some (r, s', a)" "aside a (nd_assoc n')"
      "nd_reader n' = nd_reader n" "nd_opening n' = nd_opening n"
    using assms by (auto simp: node_write_def aside_defs split: option.splits prod.splits)
  show "get_state (nd_assoc n') = get_state (nd_assoc n)"
    using aside_state [OF aside_trans [OF write_start_effect(1) [OF w(1)] w(2)]] .
qed (use assms in \<open>auto simp: node_write_def split: option.splits prod.splits\<close>)

lemma closed_call:
  assumes "perform_call u a = Some b" and "get_state a = Closed"
  shows "get_state b = Closed"
proof -
  consider "u = Close_association" | "u = Shutdown_association" | "call_effect a b"
    using user_call_effect [OF assms(1)] by blast
  then show ?thesis
  proof cases
    case 3
    then show ?thesis using assms(2) call_effect_state by simp
  qed (use assms in \<open>auto simp: association_shutdown_def\<close>)
qed

text \<open>From such a node on, only a task of a timer changes what is waited for.\<close>

lemma ended_step:
  assumes "ended n" and "node_step crc rnd n n'"
  shows "ended n' \<and> (waiting_view (nd_assoc n') = waiting_view (nd_assoc n) \<or>
    (\<exists>i l t. rtx_step (rtx_timer_of i (nd_assoc n)) l t \<and> task_move l \<and>
      nd_assoc n' = timer_event i l (set_rtx_timer i t (nd_assoc n))))"
proof -
  have g: "nd_reader n = Reader_ended" "nd_opening n = None" "get_state (nd_assoc n) = Closed"
    using assms(1) by (simp_all add: ended_def)
  show ?thesis using assms(2)
  proof (cases rule: node_step.cases)
    case (gather now)
    obtain raws where "gather_outbound crc now (nd_assoc n) =
        Some (Ok (raws, True), (nd_assoc n)\<lparr>as_control_queue := []\<rparr>)"
      using parked_gather [of "nd_assoc n"] g(3) by (auto simp: parked_def)
    then have "n' = n\<lparr>nd_assoc := (nd_assoc n)\<lparr>as_control_queue := []\<rparr>, nd_writer := Sending raws True\<rparr>"
      using gather by (simp add: write_loop_gather_def)
    then show ?thesis using g by (simp add: ended_def waiting_view_def get_state_def)
  next
    case (timer i l t)
    then have "ended n'"
      using timer_event_keeps(2) [of i l "set_rtx_timer i t (nd_assoc n)"] aside_state [OF aside_timer, of i t "nd_assoc n"] g
      by (simp add: ended_def)
    then show ?thesis using timer by auto
  next
    case (user u a)
    then show ?thesis
      using closed_call [of u "nd_assoc n" a] waiting_call [of u "nd_assoc n" a] g by (simp add: ended_def)
  next
    case (write_starts now si p ppi)
    then show ?thesis
      using node_write_state [of now si p ppi n n'] waiting_node_write [of now si p ppi n n'] g by (simp add: ended_def)
  next
    case (pushes i)
    have "get_state (nd_assoc (node_push i n)) = get_state (nd_assoc n)" "nd_reader (node_push i n) = nd_reader n"
        "nd_opening (node_push i n) = nd_opening n"
      by (cases "nd_writes n ! i"; simp add: node_push_def get_state_def awake_write_loop_def)+
    then show ?thesis using g pushes waiting_push [of i n] by (simp add: ended_def)
  next
    case writer_closes
    then show ?thesis using g by (simp add: write_loop_close_def ended_def closed_close)
  next
    case (send raws ok net_ok)
    then show ?thesis using g by (simp add: write_loop_send_def ended_def split: list.split)
  next
    case (ack_fires i)
    then show ?thesis using g aside_state [OF aside_ack_fires, of i "nd_assoc n"]
      by (simp add: ended_def) (simp add: waiting_view_def ack_timer_fires_def on_ack_timeout_def)
  qed (use g in \<open>simp_all add: ended_def waiting_view_def get_state_def\<close>)
qed

text \<open>Nobody has been told and no T1 timer has a task left: so it stays.\<close>

definition given_up :: "node \<Rightarrow> bool" where
  "given_up n \<longleftrightarrow> ended n \<and> waiting_view (nd_assoc n) = ([], [], [])"

lemma given_up_step:
  assumes "given_up n" and "node_step crc rnd n n'"
  shows "given_up n'"
proof -
  have "ended n" and w: "waiting_view (nd_assoc n) = ([], [], [])" using assms(1) by (simp_all add: given_up_def)
  from ended_step [OF this(1) assms(2)] have e: "ended n'"
    and "waiting_view (nd_assoc n') = waiting_view (nd_assoc n) \<or>
      (\<exists>i l t. rtx_step (rtx_timer_of i (nd_assoc n)) l t \<and> task_move l \<and>
        nd_assoc n' = timer_event i l (set_rtx_timer i t (nd_assoc n)))" by blast+
  then have "waiting_view (nd_assoc n') = ([], [], [])" using w waiting_timer [OF w] by auto
  then show ?thesis using e by (simp add: given_up_def)
qed

lemma given_up_run: "node_run crc rnd m n \<Longrightarrow> given_up m \<Longrightarrow> given_up n"
  by (induction rule: node_run.induct) (auto intro: given_up_step)

text \<open>And with tasks left, the only messages are their failures.\<close>

definition only_failures :: "node \<Rightarrow> bool" where
  "only_failures n \<longleftrightarrow> ended n \<and> None \<notin> set (as_handshake_completed_ch (nd_assoc n))"

lemma timer_event_channel:
  "None \<notin> set (as_handshake_completed_ch a) \<Longrightarrow>
    None \<notin> set (as_handshake_completed_ch (timer_event i l (set_rtx_timer i t a)))"
proof -
  assume a: "None \<notin> set (as_handshake_completed_ch a)"
  have b: "as_handshake_completed_ch (set_rtx_timer i t a) = as_handshake_completed_ch a"
    by (cases i) (simp_all add: set_rtx_timer_def)
  have "as_handshake_completed_ch (on_retransmission_timeout i x) = as_handshake_completed_ch x" for x
  proof (cases "i = T3RTX")
    case True
    then show ?thesis using waiting_t3 [of x] by (simp add: waiting_view_def)
  next
    case False
    then show ?thesis
      by (cases i) (simp_all add: on_retransmission_timeout_def send_init_def send_cookie_echo_def push_control_def
          awake_write_loop_def Let_def split: option.split)
  qed
  moreover have "None \<notin> set (as_handshake_completed_ch (on_retransmission_failure i x))"
    if "None \<notin> set (as_handshake_completed_ch x)" for x
    using that by (cases i) (simp_all add: on_retransmission_failure_def)
  ultimately show ?thesis using a b by (cases "(i, l, set_rtx_timer i t a)" rule: timer_event.cases) simp_all
qed

lemma only_failures_step:
  assumes "only_failures n" and "node_step crc rnd n n'"
  shows "only_failures n'"
proof -
  have e: "ended n" and c: "None \<notin> set (as_handshake_completed_ch (nd_assoc n))"
    using assms(1) by (simp_all add: only_failures_def)
  from ended_step [OF e assms(2)] have "ended n'"
    and "waiting_view (nd_assoc n') = waiting_view (nd_assoc n) \<or>
      (\<exists>i l t. rtx_step (rtx_timer_of i (nd_assoc n)) l t \<and> task_move l \<and>
        nd_assoc n' = timer_event i l (set_rtx_timer i t (nd_assoc n)))" by blast+
  then show ?thesis using c timer_event_channel [OF c] by (auto simp: only_failures_def waiting_view_def)
qed

lemma only_failures_run: "node_run crc rnd m n \<Longrightarrow> only_failures m \<Longrightarrow> only_failures n"
  by (induction rule: node_run.induct) (auto intro: only_failures_step)

lemma close_waiting:
  "as_handshake_completed_ch (association_close a) = as_handshake_completed_ch a"
  "rt_tasks (as_t1init (association_close a)) = rt_tasks (as_t1init a)"
  "rt_tasks (as_t1cookie (association_close a)) = rt_tasks (as_t1cookie a)"
  "get_state a \<noteq> Closed \<Longrightarrow> rt_close (as_t1init (association_close a)) = None"
  "get_state a \<noteq> Closed \<Longrightarrow> rt_close (as_t1cookie (association_close a)) = None"
proof -
  let ?v = "\<lambda>a. (as_handshake_completed_ch a, as_t1init a, as_t1cookie a)"
  have "?v (unregister_stream si b) = ?v b" for si b by (simp add: unregister_stream_def split: option.split)
  then have "?v (unregister_streams sis b) = ?v b" for sis b
    unfolding unregister_streams_def by (induction sis arbitrary: b) simp_all
  then show "as_handshake_completed_ch (association_close a) = as_handshake_completed_ch a"
    "rt_tasks (as_t1init (association_close a)) = rt_tasks (as_t1init a)"
    "rt_tasks (as_t1cookie (association_close a)) = rt_tasks (as_t1cookie a)"
    "get_state a \<noteq> Closed \<Longrightarrow> rt_close (as_t1init (association_close a)) = None"
    "get_state a \<noteq> Closed \<Longrightarrow> rt_close (as_t1cookie (association_close a)) = None"
    by (simp_all add: association_close_def close_all_timers_def set_state_def rtx_timer_stop_def Let_def)
qed

text \<open>The tasks of a stopped timer end one after the other, when all of them sleep.\<close>

lemma tasks_end:
  assumes "ended n" and "i = T1Init \<or> i = T1Cookie" and "rt_close (rtx_timer_of i (nd_assoc n)) = None"
    and "list_all (\<lambda>k. rk_phase k = Sleeping) (rt_tasks (rtx_timer_of i (nd_assoc n)))"
  shows "\<exists>t. node_run crc rnd n (n\<lparr>nd_assoc := set_rtx_timer i t (nd_assoc n)\<rparr>) \<and> rt_tasks t = []"
  using assms
proof (induction "length (rt_tasks (rtx_timer_of i (nd_assoc n)))" arbitrary: n rule: less_induct)
  case less
  let ?t = "rtx_timer_of i (nd_assoc n)"
  have same: "n\<lparr>nd_assoc := set_rtx_timer i ?t (nd_assoc n)\<rparr> = n"
    using less.prems(2) by (auto simp: set_rtx_timer_def rtx_timer_of_def)
  show ?case
  proof (cases "rt_tasks ?t")
    case Nil
    then show ?thesis using node_run.start [of crc rnd n] same by (intro exI [of _ ?t]) simp
  next
    case (Cons k ks)
    let ?u = "rtx_task_end (rk_id k) ?t"
    let ?n = "n\<lparr>nd_assoc := set_rtx_timer i ?u (nd_assoc n)\<rparr>"
    have "rtx_step ?t (Rtx_closed (rk_id k)) ?u"
      using less.prems(3,4) Cons by (intro rtx_step.closed) simp_all
    from node_step.timer [OF this, of crc rnd] have step: "node_step crc rnd n ?n" by simp
    have u: "rtx_timer_of i (nd_assoc ?n) = ?u"
      using less.prems(2) by (auto simp: set_rtx_timer_def rtx_timer_of_def)
    have fewer: "length (rt_tasks ?u) < length (rt_tasks ?t)"
      by (simp add: rtx_task_end_def Cons le_imp_less_Suc)
    have "ended ?n" using ended_step [OF less.prems(1) step] by blast
    moreover have "rt_close ?u = None" using less.prems(3) by (simp add: rtx_task_end_def)
    moreover have "list_all (\<lambda>k. rk_phase k = Sleeping) (rt_tasks ?u)"
      using less.prems(4) by (auto simp: rtx_task_end_def list_all_iff)
    ultimately obtain t where t: "node_run crc rnd ?n (?n\<lparr>nd_assoc := set_rtx_timer i t (nd_assoc ?n)\<rparr>)" "rt_tasks t = []"
      using less.hyps [of ?n] less.prems(2) fewer u by auto
    have "?n\<lparr>nd_assoc := set_rtx_timer i t (nd_assoc ?n)\<rparr> = n\<lparr>nd_assoc := set_rtx_timer i t (nd_assoc n)\<rparr>"
      using less.prems(2) by (auto simp: set_rtx_timer_def)
    then show ?thesis using node_run_trans [OF t(1) node_run.step [OF node_run.start step]] t(2) by auto
  qed
qed
lemma fatal_head_inbound:
  assumes "pk_chunks p = c # post" and "fatal_chunk c" and "chunks_wf (pk_chunks p)"
    and "check_packet p = Ok ()" and "packet_marshal crc p = Ok raw"
  shows "\<exists>e. handle_inbound crc rnd now random32 raw a = (Err e, handle_chunk_start a)"
proof -
  obtain e where "handle_chunk rnd now random32 (packet_view now p) c (handle_chunk_start a) = (Err e, handle_chunk_start a)"
    using fatal_chunk_fails(2) [OF assms(2)] by blast
  then show ?thesis
    by (simp add: handle_inbound_marshalled [OF assms(5,3,4)] assms(1) fatal_chunk_fails(1) [OF assms(2)])
qed

lemma start_waiting [simp]:
  "waiting_view (handle_chunk_start a) = waiting_view a" "get_state (handle_chunk_start a) = get_state a"
  "as_t1init (handle_chunk_start a) = as_t1init a" "as_t1cookie (handle_chunk_start a) = as_t1cookie a"
  by (simp_all add: handle_chunk_start_def waiting_view_def get_state_def)

lemma timers_of [simp]:
  "rtx_timer_of T1Init a = as_t1init a" "rtx_timer_of T1Cookie a = as_t1cookie a"
  "set_rtx_timer T1Init t a = a\<lparr>as_t1init := t\<rparr>" "set_rtx_timer T1Cookie t a = a\<lparr>as_t1cookie := t\<rparr>"
  by (simp_all add: rtx_timer_of_def set_rtx_timer_def)

lemma gives_up:
  assumes "ended n" and "as_handshake_completed_ch (nd_assoc n) = []"
    and "\<And>t. t = as_t1init (nd_assoc n) \<or> t = as_t1cookie (nd_assoc n) \<Longrightarrow>
      rt_tasks t = [] \<or> rt_close t = None \<and> list_all (\<lambda>k. rk_phase k = Sleeping) (rt_tasks t)"
  shows "\<exists>m. node_run crc rnd n m \<and> given_up m"
proof -
  have one: "\<exists>t. node_run crc rnd n (n\<lparr>nd_assoc := set_rtx_timer i t (nd_assoc n)\<rparr>) \<and> rt_tasks t = []"
    if "ended n" "i = T1Init \<or> i = T1Cookie"
      "rt_tasks (rtx_timer_of i (nd_assoc n)) = [] \<or> rt_close (rtx_timer_of i (nd_assoc n)) = None \<and>
        list_all (\<lambda>k. rk_phase k = Sleeping) (rt_tasks (rtx_timer_of i (nd_assoc n)))" for i n
    using that(3)
  proof (elim disjE conjE)
    assume e: "rt_tasks (rtx_timer_of i (nd_assoc n)) = []"
    have "n\<lparr>nd_assoc := set_rtx_timer i (rtx_timer_of i (nd_assoc n)) (nd_assoc n)\<rparr> = n"
      using that(2) by auto
    then show ?thesis using e node_run.start by metis
  qed (rule tasks_end [OF that(1,2)])
  obtain t where t: "node_run crc rnd n (n\<lparr>nd_assoc := (nd_assoc n)\<lparr>as_t1init := t\<rparr>\<rparr>)" "rt_tasks t = []"
    using one [OF assms(1), of T1Init] assms(3) by auto
  let ?n = "n\<lparr>nd_assoc := (nd_assoc n)\<lparr>as_t1init := t\<rparr>\<rparr>"
  have e: "ended ?n" using assms(1) by (simp add: ended_def get_state_def)
  obtain u where u: "node_run crc rnd ?n (?n\<lparr>nd_assoc := (nd_assoc ?n)\<lparr>as_t1cookie := u\<rparr>\<rparr>)" "rt_tasks u = []"
    using one [OF e, of T1Cookie] assms(3) by auto
  have "given_up (?n\<lparr>nd_assoc := (nd_assoc ?n)\<lparr>as_t1cookie := u\<rparr>\<rparr>)"
    using assms(1,2) t(2) u(2) by (simp add: given_up_def ended_def waiting_view_def get_state_def)
  then show ?thesis using node_run_trans [OF u(1) t(1)] by blast
qed

text \<open>C37: a peer that refuses the association makes the caller wait for ever.  A packet with a fatal chunk
  (an ABORT, an ERROR or an unknown chunk of handle code 00) at its head is handled by a client that
  has sent its INIT, or by a server, of which nobody has been told anything yet; no task of the two
  T1 timers is about to fire, and there is none if the state is already Closed.  Then the packet
  makes the read loop leave, and the association is closed; from there on
  \<^verbatim>\<open>Association::client\<close> and \<^verbatim>\<open>Association::server\<close> never return the association; the tasks of the
  stopped T1 timers can end without another report; and once they have ended so, no run of the loops,
  the timers and the user leads to a message on the handshake's channel: neither of the two functions
  returns anything, not even an error.\<close>

theorem refused_handshake_never_returns:
  fixes m :: node
  defines "T1 \<equiv> \<lambda>n. rt_tasks (as_t1init (nd_assoc n)) @ rt_tasks (as_t1cookie (nd_assoc n))"
  assumes "nd_reader m = Handling raw" and "nd_opening m = None" and "packet_marshal crc p = Ok raw"
    and "pk_chunks p = c # post" and "fatal_chunk c" and "chunks_wf (pk_chunks p)" and "check_packet p = Ok ()"
    and "as_handshake_completed_ch (nd_assoc m) = []" and "list_all (\<lambda>k. rk_phase k = Sleeping) (T1 m)"
    and "get_state (nd_assoc m) = Closed \<longrightarrow> T1 m = []"
    and "m1 = read_loop_handle crc rnd now random32 raw m"
  shows "nd_reader m1 = Reader_closing \<and> get_state (nd_assoc (read_loop_close m1)) = Closed \<and>
    (\<forall>n. node_run crc rnd (read_loop_close m1) n \<longrightarrow>
      association_client (nd_assoc n) \<noteq> Some (Ok ()) \<and> association_server (nd_assoc n) \<noteq> Some (Ok ())) \<and>
    (\<exists>m2. node_run crc rnd (read_loop_close m1) m2 \<and> T1 m2 = [] \<and> as_handshake_completed_ch (nd_assoc m2) = []) \<and>
    (\<forall>m2 n. node_run crc rnd (read_loop_close m1) m2 \<and> T1 m2 = [] \<and> as_handshake_completed_ch (nd_assoc m2) = [] \<and>
      node_run crc rnd m2 n \<longrightarrow> association_client (nd_assoc n) = None \<and> association_server (nd_assoc n) = None)"
proof -
  let ?a = "handle_chunk_start (nd_assoc m)" and ?n = "read_loop_close m1"
  obtain e where "handle_inbound crc rnd now random32 raw (nd_assoc m) = (Err e, ?a)"
    using fatal_head_inbound [OF assms(5-8,4)] by blast
  then have m1: "m1 = m\<lparr>nd_assoc := ?a, nd_reader := Reader_closing\<rparr>" by (simp add: assms(12) read_loop_handle_def)
  have n: "nd_assoc ?n = association_close ?a" "nd_reader ?n = Reader_ended" "nd_opening ?n = None"
    using assms(3) by (simp_all add: m1 read_loop_close_def)
  have e: "ended ?n" by (simp add: ended_def n)
  have ch: "as_handshake_completed_ch (nd_assoc ?n) = []"
    using assms(9) start_waiting(1) [of "nd_assoc m"] by (simp add: n close_waiting(1) waiting_view_def)
  have never: "association_client (nd_assoc k) \<noteq> Some (Ok ()) \<and> association_server (nd_assoc k) \<noteq> Some (Ok ())"
    if "node_run crc rnd ?n k" for k
  proof -
    have "only_failures ?n" using e ch by (simp add: only_failures_def)
    then have "None \<notin> set (as_handshake_completed_ch (nd_assoc k))"
      using only_failures_run [OF that] by (simp add: only_failures_def)
    then show ?thesis by (auto simp: association_client_def association_server_def split: list.splits option.splits)
  qed
  have "\<exists>m2. node_run crc rnd ?n m2 \<and> given_up m2"
  proof (rule gives_up [OF e ch])
    fix t assume "t = as_t1init (nd_assoc ?n) \<or> t = as_t1cookie (nd_assoc ?n)"
    then show "rt_tasks t = [] \<or> rt_close t = None \<and> list_all (\<lambda>k. rk_phase k = Sleeping) (rt_tasks t)"
      using assms(10,11) close_waiting(2-5) [of ?a] by (cases "get_state (nd_assoc m) = Closed") (auto simp: n T1_def)
  qed
  then have ends: "\<exists>m2. node_run crc rnd ?n m2 \<and> T1 m2 = [] \<and> as_handshake_completed_ch (nd_assoc m2) = []"
    by (auto simp: given_up_def waiting_view_def T1_def)
  have "association_client (nd_assoc k) = None \<and> association_server (nd_assoc k) = None"
    if "node_run crc rnd ?n m2" "T1 m2 = []" "as_handshake_completed_ch (nd_assoc m2) = []" "node_run crc rnd m2 k" for m2 k
  proof -
    have "only_failures m2" using only_failures_run [OF that(1)] e ch by (simp add: only_failures_def)
    then have "given_up m2" using that(2,3) by (simp add: given_up_def only_failures_def waiting_view_def T1_def)
    then show ?thesis
      using given_up_run [OF that(4)]
      by (simp add: given_up_def waiting_view_def association_client_def association_server_def)
  qed
  then show ?thesis using never ends e by (auto simp: m1 ended_def)
qed

text \<open>The witness: a client that has sent its INIT handles an ABORT.\<close>

definition example_client :: node where
  "example_client = (case nd_opening (node_new example_config True 10 1) of
     Some init \<Rightarrow> node_open init (node_new example_config True 10 1))"

lemma example_client_fields:
  "nd_assoc example_client = snd (association_new example_config True 10 1)" "nd_opening example_client = None"
  by (simp_all add: example_client_def node_new_def node_open_def association_new_def Let_def)

lemma example_client_waits:
  "as_handshake_completed_ch (nd_assoc example_client) = []" "get_state (nd_assoc example_client) = CookieWait"
  "list_all (\<lambda>k. rk_phase k = Sleeping)
     (rt_tasks (as_t1init (nd_assoc example_client)) @ rt_tasks (as_t1cookie (nd_assoc example_client)))"
  by (simp_all add: example_client_fields association_new_def association_open_def association_internal_new_def
      send_init_def push_control_def awake_write_loop_def set_state_def get_state_def association_state_of_u8_def
      rtx_timer_new_def rtx_timer_start_def Let_def)

theorem refused_handshake_never_returns_witness:
  "\<exists>raw m m1. packet_marshal (\<lambda>_. 0) example_abort = Ok raw \<and> m = example_client\<lparr>nd_reader := Handling raw\<rparr> \<and>
    m1 = read_loop_handle (\<lambda>_. 0) (\<lambda>x. x) 0 [] raw m \<and> nd_reader m1 = Reader_closing \<and>
    (\<forall>n. node_run (\<lambda>_. 0) (\<lambda>x. x) (read_loop_close m1) n \<longrightarrow> association_client (nd_assoc n) \<noteq> Some (Ok ()))"
proof -
  have wf: "chunks_wf (pk_chunks example_abort)" by (simp add: example_abort_def chunk_abort_value_length_def)
  then obtain raw where raw: "packet_marshal (\<lambda>_. 0) example_abort = Ok raw" using packet_marshal_unmarshal by blast
  define m where "m = example_client\<lparr>nd_reader := Handling raw\<rparr>"
  define m1 where "m1 = read_loop_handle (\<lambda>_. 0) (\<lambda>x. x) 0 [] raw m"
  have "nd_reader m1 = Reader_closing \<and>
      (\<forall>n. node_run (\<lambda>_. 0) (\<lambda>x. x) (read_loop_close m1) n \<longrightarrow> association_client (nd_assoc n) \<noteq> Some (Ok ()))"
    using refused_handshake_never_returns
      [OF _ _ raw _ _ wf _ _ _ _ m1_def, of "ChunkAbort []" "[]"] example_client_waits example_client_fields(2)
    by (simp add: m_def example_abort_def fatal_chunk_def check_packet_def)
  then show ?thesis using raw m_def m1_def by blast
qed

end
