(* ===== verification/Stranded.thy ===== *)
theory Stranded
  imports Reachable
begin

text \<open>
  What becomes of the data that is still pending when the association is shut down.
\<close>

section \<open>Outside Established nothing leaves the pending queue\<close>

lemma unsent_chunk: "unsent_view (snd (handle_chunk rnd now random32 p c a)) = unsent_view a"
proof (cases "\<exists>d. c = ChunkSelectiveAck d")
  case True
  then obtain d where d: "c = ChunkSelectiveAck d" by blast
  define f where "f = (\<lambda>packets b. (Ok (), if packets \<noteq> []
    then awake_write_loop (b\<lparr>as_control_queue := as_control_queue b @ packets\<rparr>) else b) :: unit outcome \<times> association)"
  have f: "unsent_view (snd (f packets b)) = unsent_view b" for packets b
    by (simp add: f_def awake_write_loop_def unsent_view_def)
  have "handle_chunk rnd now random32 p c a = then_do (handle_sack rnd now d a) f"
    by (simp add: handle_chunk_def handle_checked_chunk_def d f_def)
  moreover have "unsent_view (snd (handle_sack rnd now d a)) = unsent_view a" by (rule unsent.keeps_handle_sack) simp
  ultimately show ?thesis
    using f by (cases "handle_sack rnd now d a"; cases "fst (handle_sack rnd now d a)") simp_all
next
  case False
  then show ?thesis by (intro unsent_in.keeps_chunk) auto
qed

lemma unsent_chunks: "unsent_view (snd (handle_chunks rnd now random32 p cs a)) = unsent_view a"
proof (induction cs arbitrary: a)
  case (Cons c cs)
  then show ?case
    using unsent_chunk [of rnd now random32 p c a]
    by (cases "handle_chunk rnd now random32 p c a"; cases "fst (handle_chunk rnd now random32 p c a)") auto
qed simp

lemma unsent_inbound: "unsent_view (snd (handle_inbound crc rnd now random32 raw a)) = unsent_view a"
proof -
  have "unsent_view (snd (then_do (handle_chunks rnd now random32 p (pk_chunks p) (handle_chunk_start a))
      (\<lambda>_ a. (Ok (), handle_chunk_end a)))) = unsent_view a" for p
    using unsent_chunks [of rnd now random32 p "pk_chunks p" "handle_chunk_start a"]
    by (cases "handle_chunks rnd now random32 p (pk_chunks p) (handle_chunk_start a)";
        cases "fst (handle_chunks rnd now random32 p (pk_chunks p) (handle_chunk_start a))") auto
  then show ?thesis by (auto simp: handle_inbound_def split: outcome.split)
qed

lemma unsent_aside: "aside a b \<Longrightarrow> unsent_view b = unsent_view a"
  by (simp add: aside_def flight_view_def sender_view_def unsent_view_def)

lemma unsent_timer: "unsent_view (timer_event i l a) = unsent_view a"
proof -
  have "unsent_view (on_retransmission_timeout T3RTX a) = unsent_view a" for a
    by (simp add: on_retransmission_timeout_def Let_def)
  then have "unsent_view (on_retransmission_timeout i a) = unsent_view a" for a
    using unsent_aside [OF aside_timeout] by (cases "i = T3RTX") auto
  then show ?thesis
    using unsent_aside [OF aside_failure] by (cases "(i, l, a)" rule: timer_event.cases) simp_all
qed

lemma unsent_call:
  assumes "perform_call u a = Some b" and "get_state a \<noteq> Established"
  shows "unsent_view b = unsent_view a"
proof -
  consider "u = Close_association" | "u = Shutdown_association" | "call_effect a b"
    using user_call_effect [OF assms(1)] by blast
  then show ?thesis
  proof cases
    case 3
    then show ?thesis using assms(2) unsent_aside by (auto elim: call_effectE)
  qed (use assms in \<open>auto simp: association_shutdown_def\<close>)
qed

text \<open>
  The next TSN is as it was, and both halves of the pending queue begin with what they were: no chunk
  has been taken out and none has got a TSN.
\<close>

definition still_pending :: "association \<Rightarrow> association \<Rightarrow> bool" where
  "still_pending a b \<longleftrightarrow> as_my_next_tsn b = as_my_next_tsn a \<and>
     (\<exists>us os. pg_unordered_queue (sh_pending_queue b) = pg_unordered_queue (sh_pending_queue a) @ us \<and>
       pg_ordered_queue (sh_pending_queue b) = pg_ordered_queue (sh_pending_queue a) @ os)"

lemma still_pending_unsent: "unsent_view b = unsent_view a \<Longrightarrow> still_pending a b"
  by (simp add: still_pending_def unsent_view_def)

lemma still_pending_trans: "still_pending a b \<Longrightarrow> still_pending b c \<Longrightarrow> still_pending a c"
  by (auto simp: still_pending_def)

lemma unsent_open: "unsent_view (snd (association_open init a)) = unsent_view a"
  by (simp add: association_open_def send_init_def push_control_def awake_write_loop_def set_state_def
      create_packet_def Let_def unsent_view_def)

lemma still_pending_step:
  assumes "node_step crc rnd n n'" and "get_state (nd_assoc n) \<noteq> Established"
  shows "still_pending (nd_assoc n) (nd_assoc n')"
  using assms(1)
proof (cases rule: node_step.cases)
  case (handle raw now random32)
  then show ?thesis
    using unsent_inbound [of crc rnd now random32 raw "nd_assoc n"]
    by (intro still_pending_unsent) (auto simp: read_loop_handle_def split: prod.splits outcome.splits)
next
  case (gather now)
  then obtain r where r: "gather_outbound crc now (nd_assoc n) = Some r" and n': "nd_assoc n' = snd r"
    by (cases "gather_outbound crc now (nd_assoc n)")
      (auto simp: write_loop_gather_def split: prod.splits outcome.splits)
  have "unsent_view (snd r) = unsent_view (nd_assoc n)"
    by (rule unsent.keeps_gather_other [OF r assms(2)]) simp
  then show ?thesis by (simp add: still_pending_unsent n')
next
  case (timer i l t)
  then show ?thesis
    by (intro still_pending_unsent) (simp add: unsent_timer unsent_aside [OF aside_timer])
next
  case (opens init)
  then show ?thesis by (intro still_pending_unsent) (simp add: node_open_def unsent_open)
next
  case (user u a)
  then show ?thesis using unsent_call [OF user(3) assms(2)] by (simp add: still_pending_unsent)
next
  case (write_starts now si p ppi)
  then obtain s r s' a where "write_start s (nd_assoc n) now p ppi = Some (r, s', a)" "aside a (nd_assoc n')"
    by (auto simp: node_write_def aside_defs split: option.splits prod.splits)
  then show ?thesis
    using unsent_aside write_start_effect(1) by (intro still_pending_unsent) metis
next
  case (pushes i)
  then show ?thesis
    by (cases "nd_writes n ! i")
      (auto simp: node_push_def still_pending_def awake_write_loop_def pending_queue_push_def Let_def)
next
  case (ack_fires i)
  then show ?thesis by (intro still_pending_unsent) (simp add: unsent_aside [OF aside_ack_fires])
next
  case (send raws ok net_ok)
  then show ?thesis
    by (intro still_pending_unsent) (simp add: write_loop_send_def split: list.split)
qed (auto intro!: still_pending_unsent simp: read_loop_receive_def read_loop_close_def write_loop_close_def)

text \<open>The runs of a node whose states all differ from one.\<close>

inductive run_outside :: "association_state \<Rightarrow> (bytes \<Rightarrow> u32) \<Rightarrow> (real \<Rightarrow> real) \<Rightarrow> node \<Rightarrow> node \<Rightarrow> bool" for st crc rnd where
  start: "get_state (nd_assoc n) \<noteq> st \<Longrightarrow> run_outside st crc rnd n n"
| step: "run_outside st crc rnd m n \<Longrightarrow> node_step crc rnd n n' \<Longrightarrow> get_state (nd_assoc n') \<noteq> st \<Longrightarrow>
    run_outside st crc rnd m n'"

lemma still_pending_run:
  "run_outside Established crc rnd m n \<Longrightarrow> get_state (nd_assoc n) \<noteq> Established \<and> still_pending (nd_assoc m) (nd_assoc n)"
proof (induction rule: run_outside.induct)
  case (start n)
  then show ?case by (simp add: still_pending_unsent)
next
  case (step m n n')
  then show ?case using still_pending_step still_pending_trans by blast
qed

text \<open>C31: data that is still pending when the user shuts the association down is never sent.  The
  shutdown succeeds, and goes ahead when nothing is in flight, whatever is pending.  And in every later
  state of every run of the loops, the timers, the writes and the user, the read loop's errors
  included, for as long as the association is not established again: every chunk that was pending
  is still in the pending queue, at its place, and the next TSN is what it was, so that no chunk has
  been taken out or numbered.\<close>

theorem shutdown_strands_pending:
  assumes "association_shutdown (nd_assoc m) = (Ok (), b)"
    and "run_outside Established crc rnd (m\<lparr>nd_assoc := b\<rparr>) n"
  shows "(get_state b = ShutdownSent \<longleftrightarrow> pq_length (as_inflight_queue (nd_assoc m)) = 0) \<and>
    (get_state b = ShutdownPending \<longleftrightarrow> pq_length (as_inflight_queue (nd_assoc m)) \<noteq> 0) \<and>
    as_my_next_tsn (nd_assoc n) = as_my_next_tsn (nd_assoc m) \<and>
    (\<exists>us os. pg_unordered_queue (sh_pending_queue (nd_assoc n)) = pg_unordered_queue (sh_pending_queue (nd_assoc m)) @ us \<and>
      pg_ordered_queue (sh_pending_queue (nd_assoc n)) = pg_ordered_queue (sh_pending_queue (nd_assoc m)) @ os)"
proof -
  have "flight_view b = flight_view (nd_assoc m)" using association_shutdown_view(1) [of "nd_assoc m"] assms(1) by simp
  then have "still_pending (nd_assoc m) b"
    by (intro still_pending_unsent) (simp add: flight_view_def sender_view_def unsent_view_def)
  then have "still_pending (nd_assoc m) (nd_assoc n)" using still_pending_run [OF assms(2)] still_pending_trans by force
  moreover have "b = (if pq_length (as_inflight_queue (nd_assoc m)) = 0
      then set_state ShutdownSent (awake_write_loop ((set_state ShutdownPending (nd_assoc m))\<lparr>as_will_send_shutdown := True\<rparr>))
      else set_state ShutdownPending (nd_assoc m))"
    using assms(1) by (auto simp: association_shutdown_def Let_def set_state_def split: if_splits)
  ultimately show ?thesis by (simp add: still_pending_def)
qed

text \<open>The witness: two fragments pending and nothing in flight; after the shutdown the write loop collects
  its packets.\<close>

definition example_sending :: node where
  "example_sending = (node_new example_config False 1 7)\<lparr>nd_assoc := example_sender\<rparr>"

theorem shutdown_strands_pending_witness:
  "\<exists>b n. association_shutdown example_sender = (Ok (), b) \<and> get_state b = ShutdownSent \<and>
    write_loop_gather (\<lambda>_. 0) 5 (example_sending\<lparr>nd_assoc := b\<rparr>) = Some n \<and>
    (\<exists>os. pg_ordered_queue (sh_pending_queue (nd_assoc n)) = pg_ordered_queue (sh_pending_queue example_sender) @ os)"
proof -
  have e: "nd_assoc example_sending = example_sender" "nd_writer example_sending = Gathering"
    by (simp_all add: example_sending_def node_new_def Let_def)
  obtain b where b: "association_shutdown (nd_assoc example_sending) = (Ok (), b)"
    by (cases "association_shutdown (nd_assoc example_sending)")
      (auto simp: e association_shutdown_def example_sender_fields Let_def)
  have st: "get_state b \<noteq> Established" using shutdown_views(1) [OF b] by auto
  have v: "sender_view b = sender_view example_sender" "as_inflight_queue b = as_inflight_queue example_sender"
    using shutdown_views(2,3) [OF b] by (simp_all add: e)
  have "flight_inv b" "pending_length b + flight_length b < 2 ^ 31"
    using flight_inv_view [OF v] view_eqD [OF v(1)] example_sender_inv
    by (simp_all add: pending_length_def v(1) [unfolded sender_view_def])
  from gather_outbound_ok [OF this, of "\<lambda>_. 0" 5] obtain raws ok b' where
    g: "gather_outbound (\<lambda>_. 0) 5 b = Some (Ok (raws, ok), b')" "get_state b' = get_state b" by blast
  let ?m = "example_sending\<lparr>nd_assoc := b\<rparr>"
  let ?n = "?m\<lparr>nd_assoc := b', nd_writer := Sending raws ok\<rparr>"
  have w: "write_loop_gather (\<lambda>_. 0) 5 ?m = Some ?n" using g(1) by (simp add: write_loop_gather_def)
  have "run_outside Established (\<lambda>_. 0) (\<lambda>x. x) ?m ?n"
    by (rule run_outside.step [OF run_outside.start node_step.gather [OF _ w]]) (use st g(2) e in simp_all)
  from shutdown_strands_pending [OF b this] show ?thesis
    using b w by (auto simp: e example_sender_fields payload_queue_new_def)
qed

end
