(* ===== verification/Poll_Stream.thy ===== *)
theory Poll_Stream
  imports Stream
begin

text \<open>
  \<^verbatim>\<open>PollStream\<close> of src/src/stream/mod.rs, which makes an \<^verbatim>\<open>AsyncRead\<close> and an \<^verbatim>\<open>AsyncWrite\<close> out of a
  stream.  A future is where its async function stands: the read future is a phase of the
  reader of theory Stream, the write and the shutdown future stand in front of a lock
  of the pending queue.  A poll runs the future until it is finished or cannot go on.

  The stream, which the wrapper shares with the association, and the association's shared
  fields are arguments.  A poll of a writing future has one more, \<open>free\<close>: how many times the
  lock of the pending queue is got before it is found taken by another task.
\<close>

datatype 'a poll = Poll_Pending | Poll_Ready 'a

text \<open>What \<^verbatim>\<open>io::Result\<close> holds; polling may also panic.\<close>

datatype 'a io_result = IO_Ok 'a | IO_Err io_error_kind | IO_Panic

section \<open>The futures\<close>

datatype read_fut =
  RF_Idle
| RF_Reading reader_phase nat
| RF_RemainingData bytes

text \<open>
  The read future runs from its phase until the reader has a result or waits for a
  notification.
\<close>

definition reader_rank :: "reader_phase \<Rightarrow> stream \<Rightarrow> nat" where
  "reader_rank phase s =
     (if nt_permit (st_read_notifier s) then 8 else 0) +
     (case phase of
        Reader_check \<Rightarrow> 3 | Reader_read \<Rightarrow> 2 | Reader_await \<Rightarrow> 1
      | Reader_waiting \<Rightarrow> if nt_waiting (st_read_notifier s) then 0 else 4
      | Reader_done _ \<Rightarrow> 0)"

lemma reader_read_notifier:
  "reader_read n s = (p, s') \<Longrightarrow> st_read_notifier s' = st_read_notifier s \<and> (p = Reader_await \<or> (\<exists>r. p = Reader_done r))"
  by (auto simp: reader_read_def split: prod.splits outcome.splits if_splits)

lemma reader_rank_read: "(p, s') = reader_read n s \<Longrightarrow> reader_rank p s' < reader_rank Reader_read s"
  using reader_read_notifier [OF sym, of p s' n s] by (auto simp: reader_rank_def)

function poll_reader :: "nat \<Rightarrow> reader_phase \<Rightarrow> stream \<Rightarrow> reader_phase \<times> stream" where
  "poll_reader buf_len Reader_check s = poll_reader buf_len (reader_check s) s"
| "poll_reader buf_len Reader_read s =
     (case reader_read buf_len s of (p, s) \<Rightarrow> poll_reader buf_len p s)"
| "poll_reader buf_len Reader_await s =
     (case reader_await s of
        (Reader_check, s) \<Rightarrow> poll_reader buf_len Reader_check s
      | r \<Rightarrow> r)"
| "poll_reader buf_len Reader_waiting s =
     (if nt_waiting (st_read_notifier s) then (Reader_waiting, s)
      else poll_reader buf_len Reader_check s)"
| "poll_reader buf_len (Reader_done r) s = (Reader_done r, s)"
  by pat_completeness auto
termination
proof (relation "measure (\<lambda>(n, p, s). reader_rank p s)", goal_cases)
  case (3 n s p s')
  show ?case using reader_rank_read [OF 3] by (simp only: in_measure prod.case)
qed (auto simp: reader_rank_def reader_check_def reader_await_def split: if_splits)

text \<open>
  A write future has not begun, or waits for the lock to push the first of its chunks, whose
  bytes the queue already counts; the number is the result of the write.
\<close>

datatype write_fut =
  WF_Start bytes
| WF_Pushing "payload_data list" nat

definition announce :: "payload_data list \<Rightarrow> 'a shared_scheme \<Rightarrow> 'a shared_scheme" where
  "announce cs sh =
     (case cs of
        [] \<Rightarrow> sh
      | c # _ \<Rightarrow>
          sh\<lparr>sh_pending_queue := (sh_pending_queue sh)
               \<lparr>pg_n_bytes := pg_n_bytes (sh_pending_queue sh) + of_nat (length (pd_user_data c))\<rparr>\<rparr>)"

definition enqueue_announced :: "payload_data \<Rightarrow> 'a shared_scheme \<Rightarrow> 'a shared_scheme" where
  "enqueue_announced c sh =
     (let q = sh_pending_queue sh;
          q = (if pd_unordered c then q\<lparr>pg_unordered_queue := pg_unordered_queue q @ [c]\<rparr>
               else q\<lparr>pg_ordered_queue := pg_ordered_queue q @ [c]\<rparr>) in
      sh\<lparr>sh_pending_queue := q\<lparr>pg_queue_len := pg_queue_len q + 1\<rparr>\<rparr>)"

fun push_while_free :: "nat \<Rightarrow> payload_data list \<Rightarrow> 'a shared_scheme \<Rightarrow> payload_data list \<times> 'a shared_scheme" where
  "push_while_free free [] sh = ([], sh)"
| "push_while_free 0 (c # cs) sh = (c # cs, sh)"
| "push_while_free (Suc free) (c # cs) sh = push_while_free free cs (announce cs (enqueue_announced c sh))"

definition resume_write ::
  "nat \<Rightarrow> payload_data list \<Rightarrow> nat \<Rightarrow> 'a shared_scheme \<Rightarrow> (nat outcome + write_fut) \<times> 'a shared_scheme" where
  "resume_write free cs n sh =
     (case push_while_free free cs sh of
        ([], sh) \<Rightarrow> (Inl (Ok n), awake_write_loop sh)
      | (c # cs, sh) \<Rightarrow> (Inr (WF_Pushing (c # cs) n), sh))"

text \<open>
  \<^verbatim>\<open>stream.write(&bytes).await\<close> with its awaits: the tests, \<^verbatim>\<open>packetize\<close>, the test of the state,
  then one push after the other.
\<close>

fun poll_write_fut ::
  "nat \<Rightarrow> time_ms \<Rightarrow> write_fut \<Rightarrow> stream \<Rightarrow> 'a shared_scheme
    \<Rightarrow> ((nat outcome + write_fut) \<times> stream \<times> 'a shared_scheme) option" where
  "poll_write_fut free now (WF_Start p) s sh =
     (if st_write_shutdown s then Some (Inl (Err ErrStreamClosed), s, sh)
      else if length p > unat (sh_max_message_size sh) then Some (Inl (Err ErrOutboundPacketTooLarge), s, sh)
      else if get_state sh \<in> {ShutdownSent, ShutdownAckSent, ShutdownPending, ShutdownReceived}
      then Some (Inl (Err ErrStreamClosed), s, sh)
      else
        case packetize s sh now p (ppi_of_u32 (st_default_payload_type s)) of
          None \<Rightarrow> None
        | Some (chunks, s, sh) \<Rightarrow>
            if get_state sh \<noteq> Established then Some (Inl (Err ErrPayloadDataStateNotExist), s, sh)
            else
              (case resume_write free chunks (length p) (announce chunks sh) of (r, sh) \<Rightarrow> Some (r, s, sh)))"
| "poll_write_fut free now (WF_Pushing cs n) s sh =
     (case resume_write free cs n sh of (r, sh) \<Rightarrow> Some (r, s, sh))"

text \<open>The future of \<^verbatim>\<open>stream.shutdown(Shutdown::Write)\<close> waits once at most, to push the reset request.\<close>

datatype shutdown_fut =
  SF_Start
| SF_Pushing payload_data

fun poll_shutdown_fut ::
  "nat \<Rightarrow> time_ms \<Rightarrow> shutdown_fut \<Rightarrow> stream \<Rightarrow> 'a shared_scheme
    \<Rightarrow> (unit outcome + shutdown_fut) \<times> stream \<times> 'a shared_scheme" where
  "poll_shutdown_fut free now SF_Start s sh =
     (if st_read_shutdown s \<and> st_write_shutdown s then (Inl (Ok ()), s, sh)
      else
        let s = s\<lparr>st_write_shutdown := True\<rparr> in
        if \<not> st_read_shutdown s then (Inl (Ok ()), s, sh)
        else if get_state sh \<noteq> Established then (Inl (Err ErrResetPacketInStateNotExist), s, sh)
        else
          let (abandoned, all_inflight, sh) = new_cells sh;
              c = (payload_data_default now)
                \<lparr>pd_stream_identifier := st_stream_identifier s, pd_beginning_fragment := True,
                 pd_ending_fragment := True, pd_user_data := [],
                 pd_abandoned := abandoned, pd_all_inflight := all_inflight\<rparr>;
              sh = announce [c] sh in
          if free = 0 then (Inr (SF_Pushing c), s, sh)
          else (Inl (Ok ()), s, awake_write_loop (enqueue_announced c sh)))"
| "poll_shutdown_fut free now (SF_Pushing c) s sh =
     (if free = 0 then (Inr (SF_Pushing c), s, sh)
      else (Inl (Ok ()), s, awake_write_loop (enqueue_announced c sh)))"

section \<open>The wrapper\<close>

record poll_stream =
  ps_read_fut :: read_fut
  ps_write_fut :: "write_fut option"
  ps_shutdown_fut :: "shutdown_fut option"
  ps_read_buf_cap :: nat

definition DEFAULT_READ_BUF_SIZE :: nat where
  "DEFAULT_READ_BUF_SIZE = 8192"

definition poll_stream_new :: poll_stream where
  "poll_stream_new =
     \<lparr>ps_read_fut = RF_Idle, ps_write_fut = None, ps_shutdown_fut = None,
      ps_read_buf_cap = DEFAULT_READ_BUF_SIZE\<rparr>"

definition set_read_buf_capacity :: "nat \<Rightarrow> poll_stream \<Rightarrow> poll_stream" where
  "set_read_buf_capacity capacity ps = ps\<lparr>ps_read_buf_cap := capacity\<rparr>"

text \<open>The first \<open>remaining\<close> bytes go to the reader's buffer, the others stay.\<close>

definition put_data :: "nat \<Rightarrow> bytes \<Rightarrow> bytes \<times> read_fut" where
  "put_data remaining data =
     (let len = min (length data) remaining in
      (take len data, if length data > remaining then RF_RemainingData (drop len data) else RF_Idle))"

text \<open>
  The buffer has room for \<open>remaining\<close> bytes; the bytes that \<^verbatim>\<open>put_slice\<close> appends to it are the
  result.  A finished future must not be polled again, which the arm for \<^verbatim>\<open>ErrTryAgain\<close> would do.
\<close>

definition poll_read :: "nat \<Rightarrow> poll_stream \<Rightarrow> stream \<Rightarrow> bytes io_result poll \<times> poll_stream \<times> stream" where
  "poll_read remaining ps s =
     (if remaining = 0 then (Poll_Ready (IO_Ok []), ps, s)
      else
        case ps_read_fut ps of
          RF_RemainingData data \<Rightarrow>
            (case put_data remaining data of
               (out, fut) \<Rightarrow> (Poll_Ready (IO_Ok out), ps\<lparr>ps_read_fut := fut\<rparr>, s))
        | read_fut \<Rightarrow>
            (let (phase, cap) =
                   (case read_fut of RF_Reading phase cap \<Rightarrow> (phase, cap)
                    | _ \<Rightarrow> (Reader_check, ps_read_buf_cap ps)) in
             case poll_reader cap phase s of
               (Reader_done (Ok (data, _)), s) \<Rightarrow>
                 (case put_data remaining data of
                    (out, fut) \<Rightarrow> (Poll_Ready (IO_Ok out), ps\<lparr>ps_read_fut := fut\<rparr>, s))
             | (Reader_done (Err e), s) \<Rightarrow>
                 if e = ErrTryAgain then (Poll_Ready IO_Panic, ps, s)
                 else if e = ErrEof then (Poll_Ready (IO_Ok []), ps\<lparr>ps_read_fut := RF_Idle\<rparr>, s)
                 else (Poll_Ready (IO_Err (io_error_of e)), ps\<lparr>ps_read_fut := RF_Idle\<rparr>, s)
             | (Reader_done Panic, s) \<Rightarrow> (Poll_Ready IO_Panic, ps, s)
             | (phase, s) \<Rightarrow> (Poll_Pending, ps\<lparr>ps_read_fut := RF_Reading phase cap\<rparr>, s)))"

text \<open>\<open>None\<close> when the future itself does not come back (\<open>packetize_loop\<close>).\<close>

definition poll_write ::
  "nat \<Rightarrow> time_ms \<Rightarrow> bytes \<Rightarrow> poll_stream \<Rightarrow> stream \<Rightarrow> 'a shared_scheme
    \<Rightarrow> (nat io_result poll \<times> poll_stream \<times> stream \<times> 'a shared_scheme) option" where
  "poll_write free now buf ps s sh =
     (let (fut, fut_is_new) =
            (case ps_write_fut ps of Some fut \<Rightarrow> (fut, False) | None \<Rightarrow> (WF_Start buf, True)) in
      case poll_write_fut free now fut s sh of
        None \<Rightarrow> None
      | Some (r, s, sh) \<Rightarrow>
          Some (case r of
            Inr fut \<Rightarrow>
              (if fut_is_new then Poll_Ready (IO_Ok (length buf)) else Poll_Pending,
               ps\<lparr>ps_write_fut := Some fut\<rparr>, s, sh)
          | Inl (Err e) \<Rightarrow> (Poll_Ready (IO_Err (io_error_of e)), ps\<lparr>ps_write_fut := None\<rparr>, s, sh)
          | Inl (Ok n) \<Rightarrow> (Poll_Ready (IO_Ok n), ps\<lparr>ps_write_fut := None\<rparr>, s, sh)
          | Inl Panic \<Rightarrow> (Poll_Ready IO_Panic, ps, s, sh)))"

definition poll_flush ::
  "nat \<Rightarrow> time_ms \<Rightarrow> poll_stream \<Rightarrow> stream \<Rightarrow> 'a shared_scheme
    \<Rightarrow> (unit io_result poll \<times> poll_stream \<times> stream \<times> 'a shared_scheme) option" where
  "poll_flush free now ps s sh =
     (case ps_write_fut ps of
        None \<Rightarrow> Some (Poll_Ready (IO_Ok ()), ps, s, sh)
      | Some fut \<Rightarrow>
          (case poll_write_fut free now fut s sh of
             None \<Rightarrow> None
           | Some (r, s, sh) \<Rightarrow>
               Some (case r of
                 Inr fut \<Rightarrow> (Poll_Pending, ps\<lparr>ps_write_fut := Some fut\<rparr>, s, sh)
               | Inl (Err e) \<Rightarrow> (Poll_Ready (IO_Err (io_error_of e)), ps\<lparr>ps_write_fut := None\<rparr>, s, sh)
               | Inl (Ok _) \<Rightarrow> (Poll_Ready (IO_Ok ()), ps\<lparr>ps_write_fut := None\<rparr>, s, sh)
               | Inl Panic \<Rightarrow> (Poll_Ready IO_Panic, ps, s, sh))))"

definition poll_shutdown ::
  "nat \<Rightarrow> time_ms \<Rightarrow> poll_stream \<Rightarrow> stream \<Rightarrow> 'a shared_scheme
    \<Rightarrow> unit io_result poll \<times> poll_stream \<times> stream \<times> 'a shared_scheme" where
  "poll_shutdown free now ps s sh =
     (let fut = (case ps_shutdown_fut ps of Some fut \<Rightarrow> fut | None \<Rightarrow> SF_Start) in
      case poll_shutdown_fut free now fut s sh of
        (Inr fut, s, sh) \<Rightarrow> (Poll_Pending, ps\<lparr>ps_shutdown_fut := Some fut\<rparr>, s, sh)
      | (Inl (Err e), s, sh) \<Rightarrow> (Poll_Ready (IO_Err (io_error_of e)), ps\<lparr>ps_shutdown_fut := None\<rparr>, s, sh)
      | (Inl (Ok _), s, sh) \<Rightarrow> (Poll_Ready (IO_Ok ()), ps\<lparr>ps_shutdown_fut := None\<rparr>, s, sh)
      | (Inl Panic, s, sh) \<Rightarrow> (Poll_Ready IO_Panic, ps, s, sh))"

section \<open>Reading\<close>

lemma reader_read_result:
  "reader_read n s = (Reader_done r, s') \<Longrightarrow> r \<noteq> Panic \<and> r \<noteq> Err ErrTryAgain"
proof -
  have "fst (reassembly_queue_read q n) \<noteq> Panic" for q
    by (auto simp: reassembly_queue_read_def Let_def split: prod.split)
  then show "reader_read n s = (Reader_done r, s') \<Longrightarrow> r \<noteq> Panic \<and> r \<noteq> Err ErrTryAgain"
    by (auto simp: reader_read_def split: prod.splits outcome.splits if_splits) (metis fst_conv)
qed

definition stopped :: "reader_phase \<Rightarrow> bool" where
  "stopped phase \<longleftrightarrow>
     (case phase of
        Reader_waiting \<Rightarrow> True
      | Reader_done r \<Rightarrow> r \<noteq> Panic \<and> r \<noteq> Err ErrTryAgain
      | _ \<Rightarrow> False)"

lemma poll_reader_stops:
  "(\<forall>r. phase \<noteq> Reader_done r) \<or> stopped phase \<Longrightarrow> stopped (fst (poll_reader n phase s))"
proof (induction n phase s rule: poll_reader.induct)
  case (1 n s)
  then show ?case by (simp add: reader_check_def stopped_def)
next
  case (2 n s)
  obtain p s' where r: "reader_read n s = (p, s')" by fastforce
  then have "(\<forall>r. p \<noteq> Reader_done r) \<or> stopped p" using reader_read_result by (auto simp: stopped_def)
  then show ?case using 2(1) [OF r [symmetric]] r by simp
next
  case (3 n s)
  then show ?case by (cases "nt_permit (st_read_notifier s)") (simp_all add: reader_await_def stopped_def)
next
  case (4 n s)
  then show ?case by (simp add: stopped_def)
qed auto

definition read_fut_ok :: "poll_stream \<Rightarrow> bool" where
  "read_fut_ok ps \<longleftrightarrow> (\<forall>r cap. ps_read_fut ps \<noteq> RF_Reading (Reader_done r) cap)"

text \<open>Polling a \<^verbatim>\<open>PollStream\<close> for reading never panics and never spins: the future is not polled after
  it has finished, and the arm that retries on \<^verbatim>\<open>ErrTryAgain\<close> is not reached, from a new
  wrapper on and whatever the stream holds.\<close>

theorem poll_read_safe:
  assumes "read_fut_ok ps" and "poll_read remaining ps s = (r, ps', s')"
  shows "r \<noteq> Poll_Ready IO_Panic \<and> read_fut_ok ps'"
proof -
  define f where "f = (case ps_read_fut ps of RF_Reading phase cap \<Rightarrow> (phase, cap) | _ \<Rightarrow> (Reader_check, ps_read_buf_cap ps))"
  obtain phase s1 where p: "poll_reader (snd f) (fst f) s = (phase, s1)" by fastforce
  have "\<forall>r. fst f \<noteq> Reader_done r" using assms(1) by (auto simp: f_def read_fut_ok_def split: read_fut.splits)
  then have "stopped phase" using poll_reader_stops [of "fst f" "snd f" s] p by simp
  then show ?thesis
    using assms p
    by (cases "ps_read_fut ps"; cases phase)
      (auto simp: poll_read_def f_def put_data_def Let_def read_fut_ok_def stopped_def split: if_splits outcome.splits)
qed

theorem poll_read_safe_witness:
  "fst (poll_read 10 poll_stream_new (stream_new 1 1200)) \<noteq> Poll_Ready IO_Panic \<and>
    read_fut_ok (fst (snd (poll_read 10 poll_stream_new (stream_new 1 1200))))"
  using poll_read_safe [of poll_stream_new 10 "stream_new 1 1200"]
  by (cases "poll_read 10 poll_stream_new (stream_new 1 1200)") (simp add: read_fut_ok_def poll_stream_new_def)





text \<open>A stream of which one message of three fragments has arrived.\<close>

definition example_received :: stream where
  "example_received = (stream_new 7 1200)\<lparr>st_reassembly_queue := (reassembly_queue_new 7)
     \<lparr>rq_ordered := [\<lparr>cs_ssn = 0, cs_ppi = PPI_Binary, cs_chunks = example_fragments\<rparr>], rq_n_bytes := 3\<rparr>\<rparr>"

lemma example_received_fields:
  "st_read_shutdown example_received = False" "rq_unordered (st_reassembly_queue example_received) = []"
  "rq_ordered (st_reassembly_queue example_received) = [\<lparr>cs_ssn = 0, cs_ppi = PPI_Binary, cs_chunks = example_fragments\<rparr>]"
  "rq_next_ssn (st_reassembly_queue example_received) = 0"
  "chunk_set_is_complete \<lparr>cs_ssn = 0, cs_ppi = PPI_Binary, cs_chunks = example_fragments\<rparr>"
  "data_bytes example_fragments = 3"
  by (simp_all add: example_received_def stream_new_def reassembly_queue_new_def)
    (simp_all add: example_fragments_def example_fragment_def payload_data_default_def chunk_set_is_complete_def data_bytes_def)


section \<open>Messages longer than the temporary buffer\<close>

lemma copy_fragments_frame:
  "copy_fragments n cs w b q = (w', b', q') \<Longrightarrow>
    rq_ordered q' = rq_ordered q \<and> rq_unordered q' = rq_unordered q \<and> rq_next_ssn q' = rq_next_ssn q"
proof (induction cs arbitrary: w b q)
  case (Cons c cs)
  have "rq_ordered (subtract_num_bytes k q) = rq_ordered q \<and> rq_unordered (subtract_num_bytes k q) = rq_unordered q \<and>
      rq_next_ssn (subtract_num_bytes k q) = rq_next_ssn q" for k
    by (simp add: subtract_num_bytes_def)
  then show ?case using Cons.IH Cons.prems by (auto simp: Let_def split: if_splits)
qed simp

lemma copy_fragments_short:
  "length w \<le> n \<Longrightarrow> b \<or> n < length w + data_bytes cs \<Longrightarrow> fst (snd (copy_fragments n cs w b q))"
proof (induction cs arbitrary: w b q)
  case (Cons c cs)
  show ?case
  proof (cases b)
    case True
    then show ?thesis using Cons.IH [of w True] Cons.prems(1) by (simp add: Let_def)
  next
    case False
    let ?k = "min (length (pd_user_data c)) (n - length w)"
    have "fst (snd (copy_fragments n cs (w @ take ?k (pd_user_data c)) (?k < length (pd_user_data c)) q))" for q
      using Cons.prems False by (intro Cons.IH) (auto simp: data_bytes_def)
    then show ?thesis using False by (simp add: Let_def)
  qed
qed simp

text \<open>When the next message of the stream is longer than the wrapper's temporary buffer (8192 bytes
  unless set otherwise), the poll fails, and the message is lost: it has left the stream's
  queue, and the sequence number of the next message has been passed.\<close>

theorem poll_read_oversized:
  assumes "read_fut_ok ps" and "ps_read_fut ps = RF_Idle" and "0 < remaining" and "\<not> st_read_shutdown s"
    and "rq_unordered (st_reassembly_queue s) = []" and "rq_ordered (st_reassembly_queue s) = cset # csets"
    and "chunk_set_is_complete cset" and "cs_ssn cset = rq_next_ssn (st_reassembly_queue s)"
    and "ps_read_buf_cap ps < data_bytes (cs_chunks cset)"
  shows "\<exists>s'. poll_read remaining ps s = (Poll_Ready (IO_Err OtherKind), ps, s') \<and>
    rq_ordered (st_reassembly_queue s') = csets \<and>
    rq_next_ssn (st_reassembly_queue s') = rq_next_ssn (st_reassembly_queue s) + 1"
proof -
  let ?q = "(st_reassembly_queue s)\<lparr>rq_next_ssn := rq_next_ssn (st_reassembly_queue s) + 1, rq_ordered := csets\<rparr>"
  obtain w short q where c: "copy_fragments (ps_read_buf_cap ps) (cs_chunks cset) [] False ?q = (w, short, q)"
    by (metis prod_cases3)
  have short: "short" using copy_fragments_short [of "[]" "ps_read_buf_cap ps" False "cs_chunks cset" ?q] assms(9) c by simp
  have "reassembly_queue_read (st_reassembly_queue s) (ps_read_buf_cap ps) = (Err ErrShortBuffer, q)"
    using assms(5-8) c short by (simp add: reassembly_queue_read_def Let_def sna16gt_iff)
  then have "poll_reader (ps_read_buf_cap ps) Reader_check s =
      (Reader_done (Err ErrShortBuffer), s\<lparr>st_reassembly_queue := q\<rparr>)"
    using assms(4) by (simp add: reader_check_def reader_read_def)
  then have "poll_read remaining ps s = (Poll_Ready (IO_Err OtherKind), ps, s\<lparr>st_reassembly_queue := q\<rparr>)"
    using assms(2,3) by (simp add: poll_read_def io_error_of_def Let_def)
  then show ?thesis
    using copy_fragments_frame [OF c] by (intro exI [of _ "s\<lparr>st_reassembly_queue := q\<rparr>"]) simp
qed


theorem poll_read_oversized_witness:
  "\<exists>s'. poll_read 10 (set_read_buf_capacity 2 poll_stream_new) example_received =
      (Poll_Ready (IO_Err OtherKind), set_read_buf_capacity 2 poll_stream_new, s') \<and>
    rq_ordered (st_reassembly_queue s') = [] \<and> rq_next_ssn (st_reassembly_queue s') = 1"
  using poll_read_oversized [of "set_read_buf_capacity 2 poll_stream_new" 10 example_received
      "\<lparr>cs_ssn = 0, cs_ppi = PPI_Binary, cs_chunks = example_fragments\<rparr>" "[]"]
  by (simp add: example_received_fields set_read_buf_capacity_def poll_stream_new_def read_fut_ok_def)

section \<open>Writing\<close>

lemma enqueue_announce:
  "enqueue_announced c (announce (c # cs) sh) = sh\<lparr>sh_pending_queue := pending_queue_push (sh_pending_queue sh) c\<rparr>"
  by (simp add: enqueue_announced_def announce_def pending_queue_push_def Let_def)

lemma push_all_free:
  "length cs \<le> free \<Longrightarrow> push_while_free free cs (announce cs sh) =
    ([], sh\<lparr>sh_pending_queue := pending_push_all (sh_pending_queue sh) cs\<rparr>)"
proof (induction cs arbitrary: free sh)
  case Nil
  then show ?case by (cases free) (simp_all add: announce_def pending_push_all_def)
next
  case (Cons c cs)
  obtain k where k: "free = Suc k" "length cs \<le> k" using Cons.prems by (cases free) auto
  show ?case using Cons.IH [OF k(2)] by (simp add: k(1) enqueue_announce pending_push_all_def)
qed

lemma resume_all_free:
  "length cs \<le> free \<Longrightarrow> resume_write free cs n (announce cs sh) =
    (Inl (Ok n), awake_write_loop (sh\<lparr>sh_pending_queue := pending_push_all (sh_pending_queue sh) cs\<rparr>))"
  by (simp add: resume_write_def push_all_free)

text \<open>Every fragment carries a byte at least.\<close>

lemma fragment_count:
  "list_all (fragment_fields s ppi u a i) cs \<Longrightarrow> length cs \<le> length (message_data cs)"
proof (induction cs)
  case (Cons c cs)
  then have "0 < length (pd_user_data c)" by (simp add: fragment_fields_def)
  moreover have "length (message_data (c # cs)) = length (pd_user_data c) + length (message_data cs)"
    by (simp add: message_data_def)
  moreover have "length cs \<le> length (message_data cs)" using Cons by simp
  ultimately show ?case by (simp only: list.size)
qed simp

lemma poll_write_fut_free:
  assumes "0 < unat (st_max_payload_size s)" and "length p \<le> free"
  shows "poll_write_fut free now (WF_Start p) s sh =
    map_option (\<lambda>(r, s, sh). (Inl r, s, sh)) (stream_write s sh now p)"
proof -
  obtain cs s' where cs: "packetize s sh now p (ppi_of_u32 (st_default_payload_type s)) =
      Some (cs, s', snd (snd (new_cells sh)))" "length cs \<le> length p"
    using packetize_Some [OF assms(1), of sh now p "ppi_of_u32 (st_default_payload_type s)"] fragment_count by metis
  have "length cs \<le> free" using cs(2) assms(2) by simp
  then show ?thesis
    by (auto simp: stream_write_def write_sctp_def cs(1) send_payload_data_def resume_all_free split: prod.split)
qed

text \<open>C30: with nobody else at the pending queue, a poll for writing is a write: it is ready at once, the
  stream and the association end as \<^verbatim>\<open>Stream::write\<close> leaves them, and the result is the number
  of bytes or the kind of its error.\<close>

theorem poll_write_refines_write:
  assumes "ps_write_fut ps = None" and "0 < unat (st_max_payload_size s)" and "length buf \<le> free"
    and "stream_write s sh now buf = Some (r, s', sh')"
  shows "poll_write free now buf ps s sh =
    Some (Poll_Ready (case r of Ok n \<Rightarrow> IO_Ok n | Err e \<Rightarrow> IO_Err (io_error_of e) | Panic \<Rightarrow> IO_Panic), ps, s', sh')"
proof -
  have "ps\<lparr>ps_write_fut := None\<rparr> = ps" using assms(1) by simp
  then show ?thesis
    using assms(1) poll_write_fut_free [OF assms(2,3), of now sh] assms(4)
    by (cases r) (simp_all add: poll_write_def)
qed

lemma example_write:
  obtains s' sh' where "stream_write (stream_new 7 2) example_shared 0 [9] = Some (Ok 1, s', sh')"
proof -
  have w: "writable (stream_new 7 2) example_shared"
    by (simp add: writable_def stream_new_def example_shared_def get_state_def association_state_of_u8_def)
  obtain s' sh' where "write_sctp (stream_new 7 2) example_shared 0 [9]
      (ppi_of_u32 (st_default_payload_type (stream_new 7 2))) = Some (Ok 1, s', sh')"
    by (rule write_sctp_Ok [OF w, of "[9]" 0 "ppi_of_u32 (st_default_payload_type (stream_new 7 2))"])
      (simp_all add: example_shared_def)
  then show thesis using that by (simp add: stream_write_def)
qed

theorem poll_write_refines_write_witness:
  "\<exists>s' sh'. poll_write 1 0 [9] poll_stream_new (stream_new 7 2) example_shared =
      Some (Poll_Ready (IO_Ok 1), poll_stream_new, s', sh') \<and>
    stream_write (stream_new 7 2) example_shared 0 [9] = Some (Ok 1, s', sh')"
proof -
  obtain s' sh' where w: "stream_write (stream_new 7 2) example_shared 0 [9] = Some (Ok 1, s', sh')"
    by (rule example_write)
  have "poll_write 1 0 [9] poll_stream_new (stream_new 7 2) example_shared =
      Some (Poll_Ready (case Ok (1 :: nat) of Ok n \<Rightarrow> IO_Ok n | Err e \<Rightarrow> IO_Err (io_error_of e) | Panic \<Rightarrow> IO_Panic),
        poll_stream_new, s', sh')"
    by (rule poll_write_refines_write [OF _ _ _ w]) (simp_all add: poll_stream_new_def stream_new_def)
  then show ?thesis using w by auto
qed

text \<open>C35: when a first poll for writing finds the pending queue taken, it reports the whole buffer as
  written and keeps the future; the next poll, with whatever other buffer, finishes that future
  and reports its length, while nothing of its own buffer is written: the association ends
  exactly as one write of the first buffer leaves it.\<close>

theorem poll_write_drops_buffer:
  assumes "ps_write_fut ps = None" and "writable s sh" and "buf \<noteq> []" and "length buf \<le> unat (sh_max_message_size sh)"
    and "stream_write s sh now buf = Some (r, s', sh')"
  shows "\<exists>ps1 s1 sh1. poll_write 0 now buf ps s sh = Some (Poll_Ready (IO_Ok (length buf)), ps1, s1, sh1) \<and>
    (\<forall>free now' buf'. length buf \<le> free \<longrightarrow>
      poll_write free now' buf' ps1 s1 sh1 = Some (Poll_Ready (IO_Ok (length buf)), ps, s', sh'))"
proof -
  have w: "0 < unat (st_max_payload_size s)" "\<not> st_write_shutdown s" "get_state sh = Established"
    using assms(2) by (simp_all add: writable_def)
  let ?sh = "snd (snd (new_cells sh))"
  obtain cs s1 where cs: "packetize s sh now buf (ppi_of_u32 (st_default_payload_type s)) = Some (cs, s1, ?sh)"
      "length cs \<le> length buf" "cs \<noteq> []"
    using packetize_Some [OF w(1), of sh now buf "ppi_of_u32 (st_default_payload_type s)"] fragment_count assms(3) by metis
  then obtain c ds where c: "cs = c # ds" by (cases cs) auto
  have est: "get_state ?sh = Established" using w(3) by (simp add: new_cells_def Let_def get_state_def)
  let ?ps1 = "ps\<lparr>ps_write_fut := Some (WF_Pushing cs (length buf))\<rparr>"
  have p1: "poll_write 0 now buf ps s sh = Some (Poll_Ready (IO_Ok (length buf)), ?ps1, s1, announce cs ?sh)"
    using assms(1,4) w est by (simp add: poll_write_def cs(1) c resume_write_def)
  have r: "s' = s1" "sh' = awake_write_loop (?sh\<lparr>sh_pending_queue := pending_push_all (sh_pending_queue ?sh) cs\<rparr>)"
    using assms(4,5) w est by (simp_all add: stream_write_def write_sctp_def cs(1) send_payload_data_def)
  have "ps\<lparr>ps_write_fut := None\<rparr> = ps" using assms(1) by simp
  then have "poll_write free now' buf' ?ps1 s1 (announce cs ?sh) = Some (Poll_Ready (IO_Ok (length buf)), ps, s', sh')"
    if "length buf \<le> free" for free now' buf'
    using resume_all_free [of cs free "length buf" ?sh] that cs(2) by (simp add: poll_write_def r)
  then show ?thesis using p1 by blast
qed


theorem poll_write_drops_buffer_witness:
  "\<exists>ps1 s1 sh1 s' sh'. poll_write 0 0 [9] poll_stream_new (stream_new 7 2) example_shared =
      Some (Poll_Ready (IO_Ok 1), ps1, s1, sh1) \<and>
    poll_write 1 0 [1, 2, 3, 4] ps1 s1 sh1 = Some (Poll_Ready (IO_Ok 1), poll_stream_new, s', sh') \<and>
    stream_write (stream_new 7 2) example_shared 0 [9] = Some (Ok 1, s', sh')"
proof -
  obtain s' sh' where w: "stream_write (stream_new 7 2) example_shared 0 [9] = Some (Ok 1, s', sh')"
    by (rule example_write)
  have "writable (stream_new 7 2) example_shared"
    by (simp add: writable_def stream_new_def example_shared_def get_state_def association_state_of_u8_def)
  from poll_write_drops_buffer [OF _ this _ _ w, of poll_stream_new] w show ?thesis
    by (fastforce simp: poll_stream_new_def example_shared_def)
qed

end
