(* ===== verification/Reports.thy ===== *)
theory Reports
  imports Association
begin

text \<open>
  What the program reports about itself: the texts that it makes of its values: the implementations of \<^verbatim>\<open>fmt::Display\<close> for states, timers,
  types, parameters, chunks and packets, and the messages of the errors (src/src/error.rs), which a user of
  \<^verbatim>\<open>PollStream\<close> sees in an \<^verbatim>\<open>io::Error\<close>.  The \<^verbatim>\<open>Debug\<close> form of \<^verbatim>\<open>Bytes\<close>, which is that of the \<^verbatim>\<open>bytes\<close> crate, is the
  argument \<open>dbg\<close>.  At the end, the counters.
\<close>

section \<open>Numbers and lists\<close>

text \<open>What \<^verbatim>\<open>{}\<close> makes of an unsigned number and of a \<^verbatim>\<open>bool\<close>, and \<^verbatim>\<open>{:?}\<close> of a vector of numbers.\<close>

definition digit_text :: "nat \<Rightarrow> char" where
  "digit_text d = char_of (48 + d)"

fun nat_text :: "nat \<Rightarrow> string" where
  "nat_text n = (if n < 10 then [digit_text n] else nat_text (n div 10) @ [digit_text (n mod 10)])"

declare nat_text.simps [simp del]

definition word_text :: "'w::len word \<Rightarrow> string" where
  "word_text w = nat_text (unat w)"

definition bool_text :: "bool \<Rightarrow> string" where
  "bool_text b = (if b then ''true'' else ''false'')"

fun join_text :: "string \<Rightarrow> string list \<Rightarrow> string" where
  "join_text sep [] = []"
| "join_text sep [s] = s"
| "join_text sep (s # t # ss) = s @ sep @ join_text sep (t # ss)"

definition debug_list :: "'w::len word list \<Rightarrow> string" where
  "debug_list ws = ''['' @ join_text '', '' (map word_text ws) @ '']''"

abbreviation newline :: string where
  "newline \<equiv> [CHR 0x0A]"

section \<open>Errors\<close>

text \<open>The errors of the wire formats, and the others.\<close>

definition wire_error_text :: "error \<Rightarrow> string" where
  "wire_error_text e =
     (case e of
        ErrChunkHeaderTooSmall \<Rightarrow> ''raw is too small for a SCTP chunk''
      | ErrChunkHeaderNotEnoughSpace \<Rightarrow> ''not enough data left in SCTP packet to satisfy requested length''
      | ErrChunkHeaderPaddingNonZero \<Rightarrow> ''chunk PADDING is non-zero at offset''
      | ErrChunkHeaderInvalidLength \<Rightarrow> ''chunk has invalid length''
      | ErrChunkTypeNotAbort \<Rightarrow> ''ChunkType is not of type ABORT''
      | ErrChunkTypeNotCookieAck \<Rightarrow> ''ChunkType is not of type COOKIEACK''
      | ErrChunkTypeNotCookieEcho \<Rightarrow> ''ChunkType is not of type COOKIEECHO''
      | ErrChunkTypeNotCtError \<Rightarrow> ''ChunkType is not of type ctError''
      | ErrChunkTooShort \<Rightarrow> ''chunk too short''
      | ErrChunkTypeNotForwardTsn \<Rightarrow> ''ChunkType is not of type ForwardTsn''
      | ErrChunkTypeNotHeartbeat \<Rightarrow> ''ChunkType is not of type HEARTBEAT''
      | ErrChunkTypeNotHeartbeatAck \<Rightarrow> ''ChunkType is not of type HEARTBEATACK''
      | ErrHeartbeatNotLongEnoughInfo \<Rightarrow> ''heartbeat is not long enough to contain Heartbeat Info''
      | ErrHeartbeatParam \<Rightarrow> ''heartbeat should only have HEARTBEAT param''
      | ErrHeartbeatAckParams \<Rightarrow> ''heartbeat Ack must have one param''
      | ErrHeartbeatAckNotHeartbeatInfo \<Rightarrow> ''heartbeat Ack must have one param, and it should be a HeartbeatInfo''
      | ErrErrorCauseTooSmall \<Rightarrow> ''raw is too small for error cause''
      | ErrParamTypeUnhandled typ \<Rightarrow> ''unhandled ParamType `'' @ word_text typ @ ''`''
      | ErrParamTypeUnexpected \<Rightarrow> ''unexpected ParamType''
      | ErrParamHeaderTooShort \<Rightarrow> ''param header too short''
      | ErrSsnResetRequestParamTooShort \<Rightarrow> ''outgoing SSN reset request parameter too short''
      | ErrReconfigRespParamTooShort \<Rightarrow> ''reconfig response parameter too short''
      | ErrInvalidAlgorithmType \<Rightarrow> ''invalid algorithm type''
      | ErrChunkTypeNotTypeInit \<Rightarrow> ''ChunkType is not of type INIT''
      | ErrChunkValueNotLongEnough \<Rightarrow> ''chunk Value isn't long enough for mandatory parameters exp''
      | ErrChunkTypeInitFlagZero \<Rightarrow> ''ChunkType of type INIT flags must be all 0''
      | ErrChunkTypeInitInitateTagZero \<Rightarrow> ''ChunkType of type INIT ACK InitiateTag must not be 0''
      | ErrInitInboundStreamRequestZero \<Rightarrow> ''INIT ACK inbound stream request must be > 0''
      | ErrInitOutboundStreamRequestZero \<Rightarrow> ''INIT ACK outbound stream request must be > 0''
      | ErrInitAdvertisedReceiver1500 \<Rightarrow> ''INIT ACK Advertised Receiver Window Credit (a_rwnd) must be >= 1500''
      | ErrChunkPayloadSmall \<Rightarrow> ''packet is smaller than the header size''
      | ErrChunkTypeNotPayloadData \<Rightarrow> ''ChunkType is not of type PayloadData''
      | ErrChunkTypeNotReconfig \<Rightarrow> ''ChunkType is not of type Reconfig''
      | ErrChunkReconfigInvalidParamA \<Rightarrow> ''ChunkReconfig has invalid ParamA''
      | ErrChunkTypeNotSack \<Rightarrow> ''ChunkType is not of type SACK''
      | ErrSackSizeNotLargeEnoughInfo \<Rightarrow> ''SACK Chunk size is not large enough to contain header''
      | ErrInvalidChunkSize \<Rightarrow> ''invalid chunk size''
      | ErrChunkTypeNotShutdown \<Rightarrow> ''ChunkType is not of type SHUTDOWN''
      | ErrChunkTypeNotShutdownAck \<Rightarrow> ''ChunkType is not of type SHUTDOWN-ACK''
      | ErrChunkTypeNotShutdownComplete \<Rightarrow> ''ChunkType is not of type SHUTDOWN-COMPLETE''
      | _ \<Rightarrow> [])"

definition error_text :: "error \<Rightarrow> string" where
  "error_text e =
     (case e of
        ErrPacketRawTooSmall \<Rightarrow> ''raw is smaller than the minimum length for a SCTP packet''
      | ErrParseSctpChunkNotEnoughData \<Rightarrow> ''unable to parse SCTP chunk, not enough data for complete header''
      | ErrChecksumMismatch \<Rightarrow> ''checksum mismatch theirs''
      | ErrTryAgain \<Rightarrow> ''try again''
      | ErrChunk \<Rightarrow> ''abort chunk, with following errors''
      | ErrShutdownNonEstablished \<Rightarrow> ''shutdown called in non-Established state''
      | ErrAssociationHandshakeClosed \<Rightarrow> ''association handshake closed''
      | ErrSilentlyDiscard \<Rightarrow> ''silently discard''
      | ErrInitNotStoredToSend \<Rightarrow> ''the init not stored to send''
      | ErrCookieEchoNotStoredToSend \<Rightarrow> ''cookieEcho not stored to send''
      | ErrSctpPacketSourcePortZero \<Rightarrow> ''sctp packet must not have a source port of 0''
      | ErrSctpPacketDestinationPortZero \<Rightarrow> ''sctp packet must not have a destination port of 0''
      | ErrInitChunkBundled \<Rightarrow> ''init chunk must not be bundled with any other chunk''
      | ErrInitChunkVerifyTagNotZero \<Rightarrow> ''init chunk expects a verification tag of 0 on the packet when out-of-the-blue''
      | ErrHandleInitState \<Rightarrow> ''todo: handle Init when in state''
      | ErrInitAckNoCookie \<Rightarrow> ''no cookie in InitAck''
      | ErrStreamAlreadyExist \<Rightarrow> ''there already exists a stream with identifier''
      | ErrStreamCreateFailed \<Rightarrow> ''Failed to create a stream with identifier''
      | ErrInflightQueueTsnPop \<Rightarrow> ''unable to be popped from inflight queue TSN''
      | ErrTsnRequestNotExist \<Rightarrow> ''requested non-existent TSN''
      | ErrResetPacketInStateNotExist \<Rightarrow> ''sending reset packet in non-Established state''
      | ErrParamterType \<Rightarrow> ''unexpected parameter type''
      | ErrPayloadDataStateNotExist \<Rightarrow> ''sending payload data in non-Established state''
      | ErrChunkTypeUnhandled \<Rightarrow> ''unhandled chunk type''
      | ErrHandshakeInitAck \<Rightarrow> ''handshake failed (INIT ACK)''
      | ErrHandshakeCookieEcho \<Rightarrow> ''handshake failed (COOKIE ECHO)''
      | ErrOutboundPacketTooLarge \<Rightarrow> ''outbound packet larger than maximum message size''
      | ErrStreamClosed \<Rightarrow> ''Stream closed''
      | ErrShortBuffer \<Rightarrow> ''Short buffer to be filled''
      | ErrEof \<Rightarrow> ''Io EOF''
      | ErrInvalidSystemTime \<Rightarrow> ''Invalid SystemTime''
      | _ \<Rightarrow> wire_error_text e)"

text \<open>The whole conversion into \<^verbatim>\<open>std::io::Error\<close>: its kind and its message.\<close>

definition io_error :: "error \<Rightarrow> io_error_kind \<times> string" where
  "io_error e = (io_error_of e, error_text e)"

section \<open>States and modes\<close>

fun association_state_text :: "association_state \<Rightarrow> string" where
  "association_state_text Closed = ''Closed''"
| "association_state_text CookieWait = ''CookieWait''"
| "association_state_text CookieEchoed = ''CookieEchoed''"
| "association_state_text Established = ''Established''"
| "association_state_text ShutdownPending = ''ShutdownPending''"
| "association_state_text ShutdownSent = ''ShutdownSent''"
| "association_state_text ShutdownReceived = ''ShutdownReceived''"
| "association_state_text ShutdownAckSent = ''ShutdownAckSent''"

fun rtx_timer_id_text :: "rtx_timer_id \<Rightarrow> string" where
  "rtx_timer_id_text T1Init = ''T1Init''"
| "rtx_timer_id_text T1Cookie = ''T1Cookie''"
| "rtx_timer_id_text T2Shutdown = ''T2Shutdown''"
| "rtx_timer_id_text T3RTX = ''T3RTX''"
| "rtx_timer_id_text Reconfig_timer = ''Reconfig''"

fun ack_mode_text :: "ack_mode \<Rightarrow> string" where
  "ack_mode_text Ack_Normal = ''Normal''"
| "ack_mode_text Ack_NoDelay = ''NoDelay''"
| "ack_mode_text Ack_AlwaysDelay = ''AlwaysDelay''"

fun ack_state_text :: "ack_state \<Rightarrow> string" where
  "ack_state_text Ack_Idle = ''Idle''"
| "ack_state_text Ack_Immediate = ''Immediate''"
| "ack_state_text Ack_Delay = ''Delay''"

fun reliability_type_text :: "reliability_type \<Rightarrow> string" where
  "reliability_type_text Reliable = ''Reliable''"
| "reliability_type_text Rexmit = ''Rexmit''"
| "reliability_type_text Timed = ''Timed''"

section \<open>Types\<close>

definition chunk_type_names :: "(chunk_type \<times> string) list" where
  "chunk_type_names =
     [(CT_PAYLOAD_DATA, ''DATA''), (CT_INIT, ''INIT''), (CT_INIT_ACK, ''INIT-ACK''), (CT_SACK, ''SACK''),
      (CT_HEARTBEAT, ''HEARTBEAT''), (CT_HEARTBEAT_ACK, ''HEARTBEAT-ACK''), (CT_ABORT, ''ABORT''),
      (CT_SHUTDOWN, ''SHUTDOWN''), (CT_SHUTDOWN_ACK, ''SHUTDOWN-ACK''), (CT_ERROR, ''ERROR''),
      (CT_COOKIE_ECHO, ''COOKIE-ECHO''), (CT_COOKIE_ACK, ''COOKIE-ACK''), (CT_CWR, ''ECNE''),
      (CT_SHUTDOWN_COMPLETE, ''SHUTDOWN-COMPLETE''), (CT_RECONFIG, ''RECONFIG''), (CT_FORWARD_TSN, ''FORWARD-TSN'')]"

definition chunk_type_text :: "chunk_type \<Rightarrow> string" where
  "chunk_type_text t =
     (case map_of chunk_type_names t of Some s \<Rightarrow> s | None \<Rightarrow> ''Unknown ChunkType: '' @ word_text t)"

fun param_type_text :: "param_type \<Rightarrow> string" where
  "param_type_text PT_HeartbeatInfo = ''Heartbeat Info''"
| "param_type_text PT_Ipv4Addr = ''IPv4 IP''"
| "param_type_text PT_Ipv6Addr = ''IPv6 IP''"
| "param_type_text PT_StateCookie = ''State Cookie''"
| "param_type_text PT_UnrecognizedParam = ''Unrecognized Parameters''"
| "param_type_text PT_CookiePreservative = ''Cookie Preservative''"
| "param_type_text PT_HostNameAddr = ''Host Name IP''"
| "param_type_text PT_SupportedAddrTypes = ''Supported IP Types''"
| "param_type_text PT_OutSsnResetReq = ''Outgoing SSN Reset Request Parameter''"
| "param_type_text PT_IncSsnResetReq = ''Incoming SSN Reset Request Parameter''"
| "param_type_text PT_SsnTsnResetReq = ''SSN/TSN Reset Request Parameter''"
| "param_type_text PT_ReconfigResp = ''Re-configuration Response Parameter''"
| "param_type_text PT_AddOutStreamsReq = ''Add Outgoing Streams Request Parameter''"
| "param_type_text PT_AddIncStreamsReq = ''Add Incoming Streams Request Parameter''"
| "param_type_text PT_Random = ''Random''"
| "param_type_text PT_ChunkList = ''Chunk List''"
| "param_type_text PT_ReqHmacAlgo = ''Requested HMAC Algorithm Parameter''"
| "param_type_text PT_Padding = ''Padding''"
| "param_type_text PT_SupportedExt = ''Supported Extensions''"
| "param_type_text PT_ForwardTsnSupp = ''Forward TSN supported''"
| "param_type_text PT_AddIpAddr = ''Add IP IP''"
| "param_type_text PT_DelIpaddr = ''Delete IP IP''"
| "param_type_text PT_ErrClauseInd = ''Error Cause Indication''"
| "param_type_text PT_SetPriAddr = ''Set Primary IP''"
| "param_type_text PT_SuccessInd = ''Success Indication''"
| "param_type_text PT_AdaptLayerInd = ''Adaptation Layer Indication''"
| "param_type_text (PT_Unknown v) = ''Unknown ParamType''"

fun reconfig_result_text :: "reconfig_result \<Rightarrow> string" where
  "reconfig_result_text SuccessNop = ''0: Success - Nothing to do''"
| "reconfig_result_text SuccessPerformed = ''1: Success - Performed''"
| "reconfig_result_text Denied = ''2: Denied''"
| "reconfig_result_text ErrorWrongSsn = ''3: Error - Wrong SSN''"
| "reconfig_result_text ErrorRequestAlreadyInProgress = ''4: Error - Request already in progress''"
| "reconfig_result_text ErrorBadSequenceNumber = ''5: Error - Bad Sequence Number''"
| "reconfig_result_text InProgress = ''6: In progress''"
| "reconfig_result_text UnknownResult = ''Unknown ReconfigResult''"

fun hmac_algorithm_text :: "hmac_algorithm \<Rightarrow> string" where
  "hmac_algorithm_text HmacResv1 = ''HMAC Reserved (0x00)''"
| "hmac_algorithm_text HmacSha128 = ''HMAC SHA-128''"
| "hmac_algorithm_text HmacResv2 = ''HMAC Reserved (0x02)''"
| "hmac_algorithm_text HmacSha256 = ''HMAC SHA-256''"
| "hmac_algorithm_text HmacUnknown = ''Unknown HMAC Algorithm''"

fun ppi_text :: "payload_protocol_identifier \<Rightarrow> string" where
  "ppi_text PPI_Dcep = ''WebRTC DCEP''"
| "ppi_text PPI_String = ''WebRTC String''"
| "ppi_text PPI_Binary = ''WebRTC Binary''"
| "ppi_text PPI_StringEmpty = ''WebRTC String (Empty)''"
| "ppi_text PPI_BinaryEmpty = ''WebRTC Binary (Empty)''"
| "ppi_text PPI_Unknown = ''Unknown Payload Protocol Identifier''"

text \<open>The codes of the error causes, three of which are constants already.\<close>

definition error_cause_names :: "(u16 \<times> string) list" where
  "error_cause_names =
     [(1, ''Invalid Stream Identifier''), (2, ''Missing Mandatory Parameter''), (3, ''Stale Cookie Error''),
      (4, ''Out Of Resource''), (5, ''Unresolvable IP''), (UNRECOGNIZED_CHUNK_TYPE, ''Unrecognized Chunk Type''),
      (INVALID_MANDATORY_PARAMETER, ''Invalid Mandatory Parameter''), (8, ''Unrecognized Parameters''),
      (9, ''No User Data''), (10, ''Cookie Received While Shutting Down''),
      (11, ''Restart Of An Association With New Addresses''), (USER_INITIATED_ABORT, ''User Initiated Abort''),
      (13, ''Protocol Violation'')]"

definition error_cause_code_text :: "u16 \<Rightarrow> string" where
  "error_cause_code_text c =
     (case map_of error_cause_names c of Some s \<Rightarrow> s | None \<Rightarrow> ''Unknown CauseCode: '' @ word_text c)"

definition error_cause_text :: "error_cause \<Rightarrow> string" where
  "error_cause_text c = error_cause_code_text (ec_code c)"

section \<open>Parameters\<close>

definition param_header_text :: "param_header \<Rightarrow> string" where
  "param_header_text h = param_type_text (ph_typ h)"

definition param_forward_tsn_supported_text :: string where
  "param_forward_tsn_supported_text = param_header_text (param_forward_tsn_supported_header ())"

definition param_supported_extensions_text :: "chunk_type list \<Rightarrow> string" where
  "param_supported_extensions_text ts =
     param_header_text (param_supported_extensions_header ts) @ '' '' @ join_text '' '' (map chunk_type_text ts)"

definition param_chunk_list_text :: "chunk_type list \<Rightarrow> string" where
  "param_chunk_list_text ts =
     param_header_text (param_chunk_list_header ts) @ '' '' @ join_text '' '' (map chunk_type_text ts)"

definition param_random_text :: "(bytes \<Rightarrow> string) \<Rightarrow> bytes \<Rightarrow> string" where
  "param_random_text dbg b = param_header_text (param_random_header b) @ '' '' @ dbg b"

definition param_requested_hmac_algorithm_text :: "hmac_algorithm list \<Rightarrow> string" where
  "param_requested_hmac_algorithm_text hs =
     param_header_text (param_requested_hmac_algorithm_header hs) @ '' '' @ join_text '' '' (map hmac_algorithm_text hs)"

definition param_state_cookie_text :: "(bytes \<Rightarrow> string) \<Rightarrow> bytes \<Rightarrow> string" where
  "param_state_cookie_text dbg b = param_header_text (param_state_cookie_header b) @ '': '' @ dbg b"

definition param_heartbeat_info_text :: "(bytes \<Rightarrow> string) \<Rightarrow> bytes \<Rightarrow> string" where
  "param_heartbeat_info_text dbg b = param_header_text (param_heartbeat_info_header b) @ '' '' @ dbg b"

definition param_outgoing_reset_request_text :: "outgoing_reset_request \<Rightarrow> string" where
  "param_outgoing_reset_request_text p =
     param_header_text (param_outgoing_reset_request_header p) @ '' '' @
     word_text (reconfig_request_sequence_number p) @ '' '' @
     word_text (reconfig_request_sequence_number p) @ '' '' @
     word_text (orr_reconfig_response_sequence_number p) @ '' '' @
     debug_list (stream_identifiers p)"

definition param_reconfig_response_text :: "reconfig_response \<Rightarrow> string" where
  "param_reconfig_response_text p =
     param_header_text (param_reconfig_response_header p) @ '' '' @
     word_text (rr_reconfig_response_sequence_number p) @ '' '' @ reconfig_result_text (rr_result p)"

definition param_unknown_text :: "(bytes \<Rightarrow> string) \<Rightarrow> u16 \<times> bytes \<Rightarrow> string" where
  "param_unknown_text dbg p =
     ''ParamUnknown( '' @ param_header_text (param_unknown_header p) @ '' '' @ dbg (snd p) @ '' )''"

fun param_text :: "(bytes \<Rightarrow> string) \<Rightarrow> param \<Rightarrow> string" where
  "param_text dbg ParamForwardTsnSupported = param_forward_tsn_supported_text"
| "param_text dbg (ParamSupportedExtensions ts) = param_supported_extensions_text ts"
| "param_text dbg (ParamRandom b) = param_random_text dbg b"
| "param_text dbg (ParamRequestedHmacAlgorithm hs) = param_requested_hmac_algorithm_text hs"
| "param_text dbg (ParamChunkList ts) = param_chunk_list_text ts"
| "param_text dbg (ParamStateCookie b) = param_state_cookie_text dbg b"
| "param_text dbg (ParamHeartbeatInfo b) = param_heartbeat_info_text dbg b"
| "param_text dbg (ParamOutgoingResetRequest p) = param_outgoing_reset_request_text p"
| "param_text dbg (ParamReconfigResponse p) = param_reconfig_response_text p"
| "param_text dbg (ParamUnknown p) = param_unknown_text dbg p"
| "param_text dbg (ParamUnrecognized p) = ''UnrecognizedParam'' @ param_text dbg p"

section \<open>Chunks and packets\<close>

definition chunk_header_text :: "chunk_header \<Rightarrow> string" where
  "chunk_header_text h = chunk_type_text (ch_typ h)"

definition chunk_init_text :: "(bytes \<Rightarrow> string) \<Rightarrow> chunk_init \<Rightarrow> string" where
  "chunk_init_text dbg c =
     chunk_header_text (init_header c) @ '' is_ack: '' @ bool_text (ci_is_ack c) @ newline @
     ''            initiate_tag: '' @ word_text (ci_initiate_tag c) @ newline @
     ''            advertised_receiver_window_credit: '' @ word_text (ci_advertised_receiver_window_credit c) @ newline @
     ''            num_outbound_streams: '' @ word_text (ci_num_outbound_streams c) @ newline @
     ''            num_inbound_streams: '' @ word_text (ci_num_inbound_streams c) @ newline @
     ''            initial_tsn: '' @ word_text (ci_initial_tsn c) @
     concat (map (\<lambda>(i, p). ''Param '' @ nat_text i @ '':'' @ newline @ '' '' @ param_text dbg p)
       (enumerate 0 (ci_params c)))"

definition chunk_abort_text :: "error_cause list \<Rightarrow> string" where
  "chunk_abort_text es =
     join_text newline (chunk_header_text (chunk_abort_header es) # map (\<lambda>e. '' - '' @ error_cause_text e) es)"

definition chunk_error_text :: "error_cause list \<Rightarrow> string" where
  "chunk_error_text es =
     join_text newline (chunk_header_text (chunk_error_header es) # map (\<lambda>e. '' - '' @ error_cause_text e) es)"

definition cookie_echo_text :: "bytes \<Rightarrow> string" where
  "cookie_echo_text c = chunk_header_text (cookie_echo_header c)"

definition cookie_ack_text :: string where
  "cookie_ack_text = chunk_header_text (cookie_ack_header ())"

definition heartbeat_text :: "param list \<Rightarrow> string" where
  "heartbeat_text ps = chunk_header_text (heartbeat_header ps)"

definition heartbeat_ack_text :: "param list \<Rightarrow> string" where
  "heartbeat_ack_text ps = chunk_header_text (heartbeat_ack_header ps)"

definition payload_data_text :: "payload_data \<Rightarrow> string" where
  "payload_data_text c = chunk_header_text (payload_data_header c) @ newline @ word_text (pd_tsn c)"

definition gap_ack_block_text :: "gap_ack_block \<Rightarrow> string" where
  "gap_ack_block_text g = word_text (gab_start g) @ '' - '' @ word_text (gab_end g)"

definition selective_ack_text :: "selective_ack \<Rightarrow> string" where
  "selective_ack_text c =
     ''SACK cumTsnAck='' @ word_text (sa_cumulative_tsn_ack c) @
     '' arwnd='' @ word_text (sa_advertised_receiver_window_credit c) @
     '' dupTsn='' @ debug_list (sa_duplicate_tsn c) @
     concat (map (\<lambda>g. newline @ '' gap ack: '' @ gap_ack_block_text g) (sa_gap_ack_blocks c))"

definition chunk_reconfig_text :: "(bytes \<Rightarrow> string) \<Rightarrow> chunk_reconfig \<Rightarrow> string" where
  "chunk_reconfig_text dbg c =
     (case cr_param_a c of Some p \<Rightarrow> ''Param A:'' @ newline @ '' '' @ param_text dbg p | None \<Rightarrow> []) @
     (case cr_param_b c of Some p \<Rightarrow> ''Param B:'' @ newline @ '' '' @ param_text dbg p | None \<Rightarrow> [])"

definition forward_tsn_stream_text :: "forward_tsn_stream \<Rightarrow> string" where
  "forward_tsn_stream_text s = word_text (fs_identifier s) @ '', '' @ word_text (fs_sequence s)"

definition forward_tsn_text :: "chunk_forward_tsn \<Rightarrow> string" where
  "forward_tsn_text c =
     join_text newline (chunk_header_text (forward_tsn_header c) #
       (''New Cumulative TSN: '' @ word_text (ft_new_cumulative_tsn c)) #
       map (\<lambda>s. '' - si='' @ word_text (fs_identifier s) @ '', ssn='' @ word_text (fs_sequence s)) (ft_streams c))"

definition shutdown_text :: "chunk_shutdown \<Rightarrow> string" where
  "shutdown_text c = chunk_header_text (shutdown_header c)"

definition shutdown_ack_text :: string where
  "shutdown_ack_text = chunk_header_text (shutdown_ack_header ())"

definition shutdown_complete_text :: string where
  "shutdown_complete_text = chunk_header_text (shutdown_complete_header ())"

definition chunk_unknown_text :: "(bytes \<Rightarrow> string) \<Rightarrow> chunk_unknown \<Rightarrow> string" where
  "chunk_unknown_text dbg c = ''ChunkUnknown( '' @ chunk_header_text (cu_hdr c) @ '' '' @ dbg (cu_value c) @ '' )''"

fun chunk_text :: "(bytes \<Rightarrow> string) \<Rightarrow> chunk \<Rightarrow> string" where
  "chunk_text dbg (ChunkInit c) = chunk_init_text dbg c"
| "chunk_text dbg (ChunkAbort es) = chunk_abort_text es"
| "chunk_text dbg (ChunkCookieEcho c) = cookie_echo_text c"
| "chunk_text dbg ChunkCookieAck = cookie_ack_text"
| "chunk_text dbg (ChunkHeartbeat ps) = heartbeat_text ps"
| "chunk_text dbg (ChunkHeartbeatAck ps) = heartbeat_ack_text ps"
| "chunk_text dbg (ChunkPayloadData c) = payload_data_text c"
| "chunk_text dbg (ChunkSelectiveAck c) = selective_ack_text c"
| "chunk_text dbg (ChunkReconfig c) = chunk_reconfig_text dbg c"
| "chunk_text dbg (ChunkForwardTsn c) = forward_tsn_text c"
| "chunk_text dbg (ChunkError es) = chunk_error_text es"
| "chunk_text dbg (ChunkShutdown c) = shutdown_text c"
| "chunk_text dbg ChunkShutdownAck = shutdown_ack_text"
| "chunk_text dbg ChunkShutdownComplete = shutdown_complete_text"
| "chunk_text dbg (ChunkUnknown c) = chunk_unknown_text dbg c"

definition packet_text :: "(bytes \<Rightarrow> string) \<Rightarrow> packet \<Rightarrow> string" where
  "packet_text dbg p =
     ''Packet:'' @ newline @
     ''        source_port: '' @ word_text (pk_source_port p) @ newline @
     ''        destination_port: '' @ word_text (pk_destination_port p) @ newline @
     ''        verification_tag: '' @ word_text (pk_verification_tag p) @ newline @
     ''        '' @ concat (map (\<lambda>c. ''Chunk: '' @ chunk_text dbg c) (pk_chunks p))"

definition get_gap_ack_blocks_string :: "payload_queue \<Rightarrow> u32 \<Rightarrow> string" where
  "get_gap_ack_blocks_string q cumulative_tsn =
     ''cumTSN='' @ word_text cumulative_tsn @
     concat (map (\<lambda>b. '','' @ word_text (gab_start b) @ ''-'' @ word_text (gab_end b))
       (payload_queue_get_gap_ack_blocks q cumulative_tsn))"

section \<open>Counters\<close>

definition stats_reset :: "association_stats \<Rightarrow> association_stats" where
  "stats_reset s = s\<lparr>n_datas := 0, n_sacks := 0, n_t3timeouts := 0, n_ack_timeouts := 0, n_fast_retrans := 0\<rparr>"

definition buffered_amount :: "association \<Rightarrow> usize" where
  "buffered_amount a =
     pending_queue_get_num_bytes (sh_pending_queue a) + payload_queue_get_num_bytes (as_inflight_queue a)"

section \<open>What the texts tell apart\<close>

lemma digit_text_inj: "d < 10 \<Longrightarrow> e < 10 \<Longrightarrow> digit_text d = digit_text e \<longleftrightarrow> d = e"
proof -
  assume "d < 10" "e < 10"
  then have "of_char (digit_text d) = 48 + d" "of_char (digit_text e) = 48 + e"
    by (simp_all add: digit_text_def)
  then show ?thesis by (metis add_left_cancel)
qed

lemma nat_text_inj [simp]: "nat_text m = nat_text n \<longleftrightarrow> m = n"
proof (induction m arbitrary: n rule: nat_text.induct)
  case (1 m)
  have short: "length (nat_text k) = 1 \<longleftrightarrow> k < 10" for k
  proof -
    have "nat_text k \<noteq> []" for k by (simp add: nat_text.simps [of k])
    then show ?thesis by (simp add: nat_text.simps [of k])
  qed
  show ?case
  proof (cases "m < 10")
    case True
    then show ?thesis
      using short [of m] short [of n] digit_text_inj [of m n] by (auto simp: nat_text.simps [of m] nat_text.simps [of n])
  next
    case False
    show ?thesis
    proof (cases "n < 10")
      case True
      then show ?thesis using False short [of m] short [of n] by auto
    next
      case n: False
      have "nat_text m = nat_text n \<longleftrightarrow> m div 10 = n div 10 \<and> m mod 10 = n mod 10"
        using False n 1 [of "n div 10"] digit_text_inj [of "m mod 10" "n mod 10"]
        by (simp add: nat_text.simps [of m] nat_text.simps [of n])
      then show ?thesis by (metis div_mult_mod_eq)
    qed
  qed
qed

lemma word_text_inj [simp]: "word_text v = word_text w \<longleftrightarrow> v = w"
  by (simp add: word_text_def word_unat_eq_iff)

text \<open>Values with names and the others with a number after a word that begins no name.\<close>

lemma named_text_inj:
  assumes "distinct (map snd names)" and "\<forall>(v, s) \<in> set names. take (length u) s \<noteq> u"
    and "f = (\<lambda>v. case map_of names v of Some s \<Rightarrow> s | None \<Rightarrow> u @ word_text v)"
  shows "f v = f w \<longleftrightarrow> v = w"
proof -
  have "v = w" if "map_of names v = Some s" "map_of names w = Some s" for v w s
  proof -
    have "inj_on snd (set names)" using assms(1) by (simp add: distinct_map)
    from inj_onD [OF this _ map_of_SomeD [OF that(1)] map_of_SomeD [OF that(2)]] show ?thesis by simp
  qed
  moreover have "map_of names v \<noteq> Some (u @ x)" for v x
    using assms(2) map_of_SomeD [of names v "u @ x"] by fastforce
  ultimately show ?thesis
    by (cases "map_of names v"; cases "map_of names w") (auto simp: assms(3))
qed

text \<open>
  The text of a chunk type and that of the code of an error cause determine it.  (13, CWR, has
  the name ECNE, which in RFC 4960 is that of 12.)
\<close>

lemma chunk_type_text_inj: "chunk_type_text t = chunk_type_text u \<longleftrightarrow> t = u"
  by (rule named_text_inj [of chunk_type_names "''Unknown ChunkType: ''"])
    (simp_all add: chunk_type_names_def chunk_type_text_def fun_eq_iff)

lemma error_cause_code_text_inj: "error_cause_code_text c = error_cause_code_text d \<longleftrightarrow> c = d"
  by (rule named_text_inj [of error_cause_names "''Unknown CauseCode: ''"])
    (simp_all add: error_cause_names_def error_cause_code_text_def fun_eq_iff)

lemma ct_cwr_text: "chunk_type_text CT_CWR = ''ECNE''" "chunk_type_text 12 = ''Unknown ChunkType: 12''"
  by code_simp+

text \<open>
  The text of an outgoing reset request has the number of the request twice, and not the sender's last TSN.
\<close>

lemma outgoing_reset_text_without_tsn:
  "param_outgoing_reset_request_text (p\<lparr>sender_last_tsn := t\<rparr>) = param_outgoing_reset_request_text p"
  by (simp add: param_outgoing_reset_request_text_def param_outgoing_reset_request_header_def
      param_header_text_def)

text \<open>
  A user who gets an \<^verbatim>\<open>io::Error\<close> can tell from it which error it was: each has a text of its own.  Only the
  end of a stream has the kind of an end of file.
\<close>

definition plain_errors :: "error list" where
  "plain_errors =
     [ErrChunkHeaderTooSmall, ErrChunkHeaderNotEnoughSpace, ErrChunkHeaderPaddingNonZero,
      ErrChunkHeaderInvalidLength, ErrChunkTypeNotAbort, ErrChunkTypeNotCookieAck, ErrChunkTypeNotCookieEcho,
      ErrChunkTypeNotCtError, ErrChunkTooShort, ErrChunkTypeNotForwardTsn, ErrChunkTypeNotHeartbeat,
      ErrChunkTypeNotHeartbeatAck, ErrHeartbeatNotLongEnoughInfo, ErrHeartbeatParam, ErrHeartbeatAckParams,
      ErrHeartbeatAckNotHeartbeatInfo, ErrErrorCauseTooSmall, ErrParamTypeUnexpected, ErrParamHeaderTooShort,
      ErrSsnResetRequestParamTooShort, ErrReconfigRespParamTooShort, ErrInvalidAlgorithmType,
      ErrChunkTypeNotTypeInit, ErrChunkValueNotLongEnough, ErrChunkTypeInitFlagZero,
      ErrChunkTypeInitInitateTagZero, ErrInitInboundStreamRequestZero, ErrInitOutboundStreamRequestZero,
      ErrInitAdvertisedReceiver1500, ErrChunkPayloadSmall, ErrChunkTypeNotPayloadData,
      ErrChunkTypeNotReconfig, ErrChunkReconfigInvalidParamA, ErrChunkTypeNotSack,
      ErrSackSizeNotLargeEnoughInfo, ErrInvalidChunkSize, ErrChunkTypeNotShutdown,
      ErrChunkTypeNotShutdownAck, ErrChunkTypeNotShutdownComplete, ErrPacketRawTooSmall,
      ErrParseSctpChunkNotEnoughData, ErrChecksumMismatch, ErrTryAgain, ErrChunk, ErrShutdownNonEstablished,
      ErrAssociationHandshakeClosed, ErrSilentlyDiscard, ErrInitNotStoredToSend,
      ErrCookieEchoNotStoredToSend, ErrSctpPacketSourcePortZero, ErrSctpPacketDestinationPortZero,
      ErrInitChunkBundled, ErrInitChunkVerifyTagNotZero, ErrHandleInitState, ErrInitAckNoCookie,
      ErrStreamAlreadyExist, ErrStreamCreateFailed, ErrInflightQueueTsnPop, ErrTsnRequestNotExist,
      ErrResetPacketInStateNotExist, ErrParamterType, ErrPayloadDataStateNotExist, ErrChunkTypeUnhandled,
      ErrHandshakeInitAck, ErrHandshakeCookieEcho, ErrOutboundPacketTooLarge, ErrStreamClosed,
      ErrShortBuffer, ErrEof, ErrInvalidSystemTime]"

lemma plain_errorsI: "e \<in> set plain_errors \<or> (\<exists>t. e = ErrParamTypeUnhandled t)"
  by (cases e) (simp_all add: plain_errors_def)

lemma plain_texts:
  "distinct (map error_text plain_errors)" "\<forall>s \<in> set (map error_text plain_errors). take 19 s \<noteq> ''unhandled ParamType''"
proof -
  note texts = plain_errors_def error_text_def wire_error_text_def
  show "distinct (map error_text plain_errors)" by (simp add: texts)
  show "\<forall>s \<in> set (map error_text plain_errors). take 19 s \<noteq> ''unhandled ParamType''" by (simp add: texts)
qed

lemma error_text_inj: "error_text e = error_text e' \<longleftrightarrow> e = e'"
proof -
  have other: "error_text (ErrParamTypeUnhandled t) = ''unhandled ParamType `'' @ word_text t @ ''`''" for t
    by (simp add: error_text_def wire_error_text_def)
  have "error_text e \<noteq> error_text (ErrParamTypeUnhandled t)" if "e \<in> set plain_errors" for e t
    using that plain_texts(2) by (auto simp: other)
  moreover have "e = e'" if "e \<in> set plain_errors" "e' \<in> set plain_errors" "error_text e = error_text e'" for e e'
    using plain_texts(1) that by (auto simp: distinct_map inj_on_def)
  moreover have "t = t'" if "error_text (ErrParamTypeUnhandled t) = error_text (ErrParamTypeUnhandled t')" for t t'
    using that by (simp add: other)
  ultimately show ?thesis using plain_errorsI [of e] plain_errorsI [of e'] by metis
qed

lemma io_error_kind: "fst (io_error e) = UnexpectedEof \<longleftrightarrow> e = ErrEof"
  by (simp add: io_error_def io_error_of_def)

end
