(* ===== verification/Spec2Isabelle.thy ===== *)
theory Spec2Isabelle
  imports Decoded Nothing_Lost Connect Stranded Poll_Stream Reports
begin

text \<open>
  A model of the SCTP implementation of webrtc-rs (the crate \<^verbatim>\<open>webrtc-sctp\<close>, src/src) and the theorems
  that make it correct.  Paths below are under src/src unless they say otherwise.

  \<^bold>\<open>The program.\<close>  An association (\<^verbatim>\<open>association/\<close>) runs over one connection that carries datagrams.  Its
  read loop decodes a datagram into a packet of chunks and gives each chunk to a handler; its write loop
  collects what is to be sent, whenever it is woken, and encodes it.  A stream (\<^verbatim>\<open>stream/\<close>) splits the
  messages of its user into DATA chunks for the association's pending queue and puts received DATA
  chunks together again; \<^verbatim>\<open>PollStream\<close> makes a byte stream of it.  The queues (\<^verbatim>\<open>queue/\<close>) hold chunks
  that wait to be sent, chunks in flight, TSNs received out of order, and fragments that wait for their
  message.  Timers (\<^verbatim>\<open>timer/\<close>) call the association back.  All state of an association is behind
  one lock, but for a few fields that its handle and its streams share.

  \<^bold>\<open>The theories\<close>, in the order in which they build on each other.
  \<^item> \<open>Errors\<close>: the error type (\<^verbatim>\<open>error.rs\<close>) and the machine integers.  \<open>Prelude\<close>: the outcome of a fallible
    function (\<open>Ok\<close>, \<open>Err\<close>, \<open>Panic\<close>), byte buffers, slices, hash maps, and the collections of rules that
    the other theories share.  \<open>Sna\<close>: \<^verbatim>\<open>util.rs\<close>, with the locale \<open>serial\<close> of serial number arithmetic.
  \<^item> \<open>Param_Type\<close>, \<open>Param\<close>: \<^verbatim>\<open>param/\<close>, under the locale \<open>param_codec\<close>.  \<open>Chunk_Header\<close>, \<open>Chunk_Data\<close>,
    \<open>Chunk_Control\<close>, \<open>Chunk_Params\<close>: \<^verbatim>\<open>chunk/\<close> and \<^verbatim>\<open>error_cause.rs\<close>, under the locale \<open>chunk_codec\<close>.
    \<open>Packet\<close>: the dispatch on the type of a chunk, and \<^verbatim>\<open>packet.rs\<close>.  \<open>Decoded\<close>: the types of
    what the decoders build.
  \<^item> \<open>Payload_Queue\<close> (locale \<open>tsn_queue\<close>), \<open>Pending_Queue\<close> (locale \<open>send_queue\<close>), \<open>Reassembly_Queue\<close>:
    the files of \<^verbatim>\<open>queue/\<close> of the same names.  \<open>Timers\<close>: \<^verbatim>\<open>timer/\<close>.
  \<^item> \<open>Stream\<close>, \<open>Poll_Stream\<close>: \<^verbatim>\<open>stream/mod.rs\<close>.
  \<^item> \<open>Association\<close>: the record of \<^verbatim>\<open>AssociationInternal\<close> and what all handlers use.  \<open>Handshake\<close>: INIT to
    COOKIE-ACK, and HEARTBEAT.  \<open>Receive\<close>: DATA, FORWARD-TSN, RE-CONFIG and the acknowledgement to send.
    \<open>Send\<close>, \<open>Outbound\<close>: from the pending queue into flight, bundling, retransmission, \<^verbatim>\<open>gather_outbound\<close>.
    \<open>Sack\<close>: \<^verbatim>\<open>handle_sack\<close> with congestion control.  \<open>Dispatch\<close>: the shutdown handlers, \<^verbatim>\<open>handle_chunk\<close>,
    \<^verbatim>\<open>handle_inbound\<close>, the timers' callbacks.  All of \<^verbatim>\<open>association/association_internal.rs\<close>.
  \<^item> \<open>Session\<close>: two associations that exchange packets; the handshake and the shutdown from end to end.
    \<open>Frames\<close>: what every handler keeps, under the locales \<open>inbound_invariant\<close>,
    \<open>sack_invariant\<close>, \<open>resend_invariant\<close> and \<open>outbound_invariant\<close>.  \<open>Fatal\<close>: the packets that end an association.
    \<open>Delivery\<close>: a message from a write on one end to a read on the other and back to its acknowledgement.
    \<open>Exactly_Once\<close>: the messages of many fragments and many streams over a network that loses, repeats and
    reorders packets.  \<open>Sent\<close>: every DATA chunk that a sender puts on the wire, for the first time or again, is a
    fragment of what was written.  \<open>In_Order\<close>: a receiver between two reads, whatever has arrived so far.
    \<open>Network\<close>: both ends and the network as one transition relation.
    \<open>Nothing_Lost\<close>: what of it can be read in the end.
    \<open>Reachable\<close>: the two loops of \<^verbatim>\<open>association/mod.rs\<close>, the opening of a client, the timers' tasks, the
    user's calls and any number of writes at the same time as one transition relation, and what holds in
    every state it can reach.  \<open>Stranded\<close>: what is pending when the association is shut down.
    \<open>Connect\<close>: \<^verbatim>\<open>Association::client\<close> and \<^verbatim>\<open>Association::server\<close>.
  \<^item> \<open>Reports\<close>: the texts that \<^verbatim>\<open>fmt::Display\<close> makes of all these, those of the errors, and the counters.

  \<^bold>\<open>How the state corresponds.\<close>  A struct is a record whose fields have the prefix of the type (\<open>as_\<close> for
  \<^verbatim>\<open>AssociationInternal\<close>, \<open>st_\<close> for \<^verbatim>\<open>Stream\<close>, \<open>pq_\<close>, \<open>pg_\<close>, \<open>rq_\<close>, \<open>cs_\<close> for the queues, \<open>pd_\<close>, \<open>sa_\<close>, \<open>ci_\<close>
  for chunks) and the name of the Rust field.  The fields that the association shares with its
  streams through \<^verbatim>\<open>Arc\<close> are in the record \<open>shared\<close> (prefix \<open>sh_\<close>), which the association's record extends.
  The two flags that all fragments of a message share, \<^verbatim>\<open>abandoned\<close> and \<^verbatim>\<open>all_inflight\<close>, are addresses
  of a store of cells.  Integers have the width of the code and wrap around, as in a release build.  A
  function that returns \<^verbatim>\<open>Result\<close> and may panic has the type \<open>outcome\<close>; a handler returns it with the new
  state, also when it fails.  A \<^verbatim>\<open>HashMap\<close> is an association list, and its iteration is in the order
  of the list.  Arguments stand for what is not in the sources: \<open>crc\<close> for CRC32c, \<open>rnd\<close> for the rounding
  of \<^verbatim>\<open>f64\<close> arithmetic (of which nothing is assumed), \<open>now\<close> for the clock, which may be set back, and
  the random numbers.

  \<^bold>\<open>What the lemmas show.\<close>
  \<^item> Wire formats: every parameter and chunk that fits its length field is decoded to what was encoded, and
    so is a packet of chunks; what is decoded is well typed, and can be encoded again; decoding panics for no datagram outside three chunk types; for
    SHUTDOWN and FORWARD-TSN the datagrams that make it panic are described exactly.
  \<^item> Queues: each keeps an invariant that ties its counters and its sorted keys to its contents; the fragments
    of messages are not interleaved on the way out; the fragments of a message may arrive in any order and
    ordered messages are read in the order of their SSNs; the gap blocks of a SACK report exactly the TSNs
    received as long as they have not wrapped around.
  \<^item> Receiving: \<open>handle_data\<close> and \<open>handle_forward_tsn\<close> refine a cumulative TSN with the set of the TSNs above it.
    Sending: the chunks in flight are exactly the TSNs between the cumulative TSN ack point and the
    next TSN; what is sent respects both windows; what is retransmitted fits the smaller one; bundling
    loses nothing; a valid SACK removes and marks exactly what it acknowledges, and an invalid one is an
    error; the congestion window keeps its bounds.
  \<^item> The state machine: which chunk may cause which transition.  The handshake of two associations and their
    shutdown from end to end; a message of one fragment from end to end, with its acknowledgement; and
    many messages on many streams, written at one end and read at the other, whole, in order and each
    once, whatever packets bring their fragments.  And at every moment, while one user still writes and the
    sender retransmits, what the other user has read from a stream is a prefix of what was written to it;
    and once the receiver's cumulative TSN has reached the end, all the rest can be read.
  \<^item> Every reachable state: the sender's invariant holds whatever the peer sends and the user calls, however
    the fragments of writes of the same time are mixed; collecting the outbound packets always succeeds, and
    no datagram that decodes makes a handler panic.
  \<^item> Timers, wake-ups and polling: what a task of a retransmission timer reports, and that a running timer
    has a task that goes on; no reader misses data;
    \<^verbatim>\<open>PollStream\<close> writes and reads what \<^verbatim>\<open>Stream\<close> does.
  \<^item> Where the code does not do what it means to, a theorem says what it does instead: the acknowledgement
    timer that fires once, the handshake that never returns when the peer refuses it, the data that a shutdown
    leaves behind, the message of no bytes that stalls its stream, and others.

  \<^bold>\<open>Loops, fuel and bounds.\<close>  Loops over lists are structural; loops that pop a queue or count TSNs up are
  \<open>function\<close>s with a measure, the distance that is left or the number of chunks.  The three loops that run over the
  inflight queue until a TSN is missing (\<open>retransmit_loop\<close>, \<open>fast_retransmit_loop\<close>, \<open>advance_peer_ack_loop\<close>) have
  fuel, one more than the number of chunks in it.  \<open>Send\<close> has them without fuel, too, as \<open>partial_function\<close>s
  whose value is \<open>None\<close> when they do not end, and \<open>inflight_loops_end\<close> shows that they end, with the result
  of the versions with fuel: the fuel is never used up, and its last case is never reached.
  \<open>packetize_loop\<close> and \<open>pop_pending_loop\<close> may run for ever (with a payload size of 0, or a queue that is not well formed)
  and are \<open>partial_function (option)\<close>s; that they end is proved where it is claimed.  The invariant of
  the sender needs fewer than \<open>2 ^ 31\<close> chunks waiting and in flight, the range of serial number arithmetic;
  \<open>node_room\<close> in \<open>Reachable\<close> asks this of a write, where memory ends long before.

  \<^bold>\<open>Concurrency.\<close>  Everything that holds the association's lock is one step.  The tasks of the two loops, which
  \<^verbatim>\<open>Association::new\<close> spawns before a client sends its INIT, that sending, the tasks of the timers and the
  calls of the user interleave arbitrarily in \<open>Reachable\<close>.  So do the writes there: a write cuts up its
  message in one step and then pushes one fragment in a step (\<open>write_start\<close>, \<open>push_next\<close>), and fragments of
  different messages may get between each other; \<open>concurrent_writes_interleave\<close> in \<open>Pending_Queue\<close> shows what
  that can do to a message.  \<open>write_sctp\<close> is the write that nothing comes between
  (\<open>write_sctp_step_by_step\<close>); the theories from a write to a read (\<open>Delivery\<close>, \<open>Exactly_Once\<close>, \<open>Network\<close>,
  \<open>Nothing_Lost\<close>) have one user who writes one message after the other.  The steps of both ends and of the
  network interleave in \<open>Network\<close>, the reader of a stream and those that wake it in \<open>Stream\<close>; a write that
  stops half way at the pending queue's lock is in \<open>Poll_Stream\<close>.  A \<^verbatim>\<open>poll_read\<close> there gets the lock of the
  reassembly queue at once: that it may have to wait for it is not modelled, nor that two threads are inside
  \<^verbatim>\<open>packetize\<close> of the same stream at once.  A timer's task is a sleep, a callback and a decision whether to
  go on, with the races between them.  A channel is the list of what was sent; the channel that wakes the
  write loop, of capacity one, is a flag.

  \<^bold>\<open>Not modelled.\<close>  What is logged when, and the implementations of \<^verbatim>\<open>Debug\<close> and \<^verbatim>\<open>Any\<close>; the errors that no
  code constructs; the CRC32c, which is that of the \<^verbatim>\<open>crc\<close> crate; the scheduler, the sockets, and how long a
  step takes; memory; debug builds, in which arithmetic that wraps here panics; the examples, the tests and the fuzz targets.  That a sender repeats a lost
  chunk until it arrives is what its handlers do one by one; no fairness of a network is assumed, and so
  no theorem says that a message arrives without saying that its chunks do.
\<close>

end
